(* ===== verification/Prelude.thy ===== *)
theory Prelude
  imports
    "HOL-Library.Word"
    "HOL-Library.Char_ord"
    "HOL-Library.List_Lexorder"
    "HOL-Library.AList"
begin

text \<open>
  Shared types and automation of the GopherDB development.

  \<^item> Go's fixed width integers are words (\<open>int32\<close> is \<open>32 word\<close> read with \<open>sint\<close>,
    \<open>uint16\<close> is \<open>16 word\<close> read with \<open>unat\<close>); Go's 64 bit \<open>int\<close>, used only for sizes,
    offsets and page numbers far below \<open>2^63\<close>, is \<open>nat\<close> or \<open>int\<close>.
  \<^item> A Go \<open>[]byte\<close> is a \<open>byte list\<close>; reading or writing outside it is the outcome
    \<open>Panic\<close>. A Go string is a HOL \<open>string\<close>, whose characters are bytes.
  \<^item> A fallible call returns a \<open>result\<close>: a value, one of the program's error values, or a
    run-time panic.
  \<^item> Big-endian integers are read and written in a buffer by slices. The two lemmas
    \<open>slice_put_at_same\<close> and \<open>slice_put_at_other\<close> (in the collection \<open>buf_simps\<close>) carry
    every proof about page and record layouts.
\<close>

unbundle bit_operations_syntax

named_theorems buf_simps "reading back from a buffer after writing to it"
named_theorems res_defs "definitions of the result combinators"

section \<open>Machine types\<close>

type_synonym byte = "8 word"
type_synonym uint16 = "16 word"
type_synonym uint32 = "32 word"
type_synonym uint64 = "64 word"
type_synonym int16 = "16 word"
type_synonym int32 = "32 word"
type_synonym int64 = "64 word"
type_synonym bytes = "byte list"

text \<open>The conversions \<open>[]byte(s)\<close> and \<open>string(b)\<close>.\<close>

definition bytes_of_string :: "string \<Rightarrow> bytes" where
  "bytes_of_string s = map (\<lambda>c. word_of_nat (of_char c)) s"

definition string_of_bytes :: "bytes \<Rightarrow> string" where
  "string_of_bytes bs = map (\<lambda>b. char_of (unat b)) bs"

lemma length_bytes_of_string [simp]: "length (bytes_of_string s) = length s"
  by (simp add: bytes_of_string_def)

lemma length_string_of_bytes [simp]: "length (string_of_bytes bs) = length bs"
  by (simp add: string_of_bytes_def)

lemma unat_of_char_word: "unat (word_of_nat (of_char c) :: byte) = of_char c"
  by (simp add: unat_of_nat)

lemma string_of_bytes_of_string [simp]: "string_of_bytes (bytes_of_string s) = s"
  by (induction s) (simp_all add: string_of_bytes_def bytes_of_string_def unat_of_char_word)

lemma unat_byte_less: "unat (b :: byte) < 256"
  using unsigned_less [of b] by simp

lemma bytes_of_string_of_bytes [simp]: "bytes_of_string (string_of_bytes bs) = bs"
  by (induction bs) (simp_all add: string_of_bytes_def bytes_of_string_def unat_byte_less)

lemma bytes_of_string_eq_iff [simp]: "bytes_of_string s = bytes_of_string t \<longleftrightarrow> s = t"
  by (metis string_of_bytes_of_string)

text \<open>Go's \<open>%d\<close>: decimal notation, with a minus sign for negative numbers.\<close>

fun show_nat :: "nat \<Rightarrow> string" where
  "show_nat n = (if n < 10 then [char_of (48 + n)] else show_nat (n div 10) @ [char_of (48 + n mod 10)])"

declare show_nat.simps [simp del]

definition show_int :: "int \<Rightarrow> string" where
  "show_int i = (if i < 0 then CHR ''-'' # show_nat (nat (- i)) else show_nat (nat i))"

section \<open>Values, errors and results\<close>

text \<open>The dynamic values (Go's \<open>any\<close>) that flow through rows, indexes and expressions.\<close>

datatype gvalue = VNil | VInt64 int64 | VString string | VBool bool

text \<open>
  The error values of the program: one constructor per sentinel error or error struct, with
  the data a caller can observe. The \<open>PErr\<close> constructors belong to the package \<open>page\<close>,
  the \<open>MErr\<close> ones to the page file manager.
\<close>

datatype go_error =
    PErrNilBuffer | PErrBadBufferSize nat | PErrInvalidSignature | PErrSlotIndex int nat
  | PErrCorruptedPage nat nat nat | PErrNilData | PErrNoSpace nat int
  | ErrNilType | ErrNilValue | ErrTupleDataNil | ErrUnsupportedType int | ErrTypeMismatch gvalue
  | ErrVarcharTooLong nat | ErrBadInt64Size nat | ErrVarcharEmpty | ErrVarcharLenMis nat int
  | ErrInvalidEncoding
  | MErrPathEmpty | MErrPageNil | MErrInvalidPageID int | MErrInvalidSignature | MErrOpen string
  | MErrMkdir string | MErrOutOfBounds int nat | MErrWrite int
  | ErrPoolSize | ErrReplacerNil | ErrPageAlreadyInBuf string int | ErrNoVictim | ErrPageNil | ErrRootEmpty
  | ErrNameRequired | ErrNameTooLong | ErrDataTooShort | ErrTypeRequired | ErrFileNodeRequired
  | ErrStringTooLong
  | SqlSyntaxError string nat nat nat
  | ErrMkdirAll string | ErrStat string | ErrTableExists string | ErrTableNotFound string
  | ErrColumnNotFound string string | ErrIndexExists string | ErrCorruptedFile string
  | SemanticError string "(nat \<times> nat \<times> nat) option"
  | ErrUnknownTypeName string int32
  | ErrNotHashIndex | ErrIndexNotLoaded | ErrNotBTreeIndex | ErrUnknownKeyType | ErrBadMagic
  | ErrUnsupportedVersion | ErrRangeNotSupported
  | ErrUnsupportedNode | ErrNotOpen | ErrIndexColumn string | ErrIndexPosition int | ErrIndexPositionNotFound string

datatype 'a result = Ok 'a | Err go_error | Panic

definition bind_result :: "'a result \<Rightarrow> ('a \<Rightarrow> 'b result) \<Rightarrow> 'b result" where
  [res_defs]: "bind_result r f = (case r of Ok x \<Rightarrow> f x | Err e \<Rightarrow> Err e | Panic \<Rightarrow> Panic)"

fun is_ok :: "'a result \<Rightarrow> bool" where
  "is_ok (Ok _) = True"
| "is_ok _ = False"

lemma bind_result_simps [simp]:
  "bind_result (Ok x) f = f x"
  "bind_result (Err e) f = Err e"
  "bind_result Panic f = Panic"
  by (simp_all add: bind_result_def)

lemma bind_result_Ok: "bind_result r f = Ok y \<longleftrightarrow> (\<exists>x. r = Ok x \<and> f x = Ok y)"
  by (cases r) auto

text \<open>A loop that stops at the first failure.\<close>

fun traverse :: "('a \<Rightarrow> 'b result) \<Rightarrow> 'a list \<Rightarrow> 'b list result" where
  "traverse f [] = Ok []"
| "traverse f (x # xs) = bind_result (f x) (\<lambda>y. bind_result (traverse f xs) (\<lambda>ys. Ok (y # ys)))"

lemma traverse_Ok_length: "traverse f xs = Ok ys \<Longrightarrow> length ys = length xs"
  by (induction xs arbitrary: ys) (auto simp: bind_result_Ok)

lemma traverse_inverse:
  assumes "\<And>x y. x \<in> set xs \<Longrightarrow> f x = Ok y \<Longrightarrow> g y = Ok x" and "traverse f xs = Ok ys"
  shows "traverse g ys = Ok xs"
  using assms by (induction xs arbitrary: ys) (auto simp: bind_result_Ok)

text \<open>
  Stateful operations: a function from the state to a result and the state after the call.
  \<open>seq\<close> runs the continuation only after a success, as Go's \<open>if err != nil { return err }\<close>.
\<close>

type_synonym ('s, 'a) prog = "'s \<Rightarrow> 'a result \<times> 's"

definition pure :: "'a \<Rightarrow> ('s, 'a) prog" where
  [res_defs]: "pure x s = (Ok x, s)"

definition seq :: "('s, 'a) prog \<Rightarrow> ('a \<Rightarrow> ('s, 'b) prog) \<Rightarrow> ('s, 'b) prog" where
  [res_defs]: "seq m f s = (case m s of (Ok x, s') \<Rightarrow> f x s' | (Err e, s') \<Rightarrow> (Err e, s')
     | (Panic, s') \<Rightarrow> (Panic, s'))"

definition lift_result :: "'a result \<Rightarrow> ('s, 'a) prog" where
  [res_defs]: "lift_result r s = (r, s)"

lemma seq_Ok: "m s = (Ok x, s') \<Longrightarrow> seq m f s = f x s'"
  by (simp add: seq_def)

lemma seq_OkE:
  assumes "seq m f s = (Ok y, s'')"
  obtains x s' where "m s = (Ok x, s')" and "f x s' = (Ok y, s'')"
  using assms by (auto simp: seq_def split: prod.splits result.splits)

text \<open>
  Operations with a loop that may run forever: not returning is \<open>None\<close>. \<open>once\<close> embeds an operation that
  always returns, \<open>oseq\<close> is \<open>seq\<close> for them, and monotone, so that loops can be defined with it.
\<close>

type_synonym ('s, 'a) oprog = "'s \<Rightarrow> ('a result \<times> 's) option"

definition once :: "('s, 'a) prog \<Rightarrow> ('s, 'a) oprog" where
  [res_defs]: "once m s = Some (m s)"

definition oseq :: "('s, 'a) oprog \<Rightarrow> ('a \<Rightarrow> ('s, 'b) oprog) \<Rightarrow> ('s, 'b) oprog" where
  [res_defs]: "oseq m f s = Option.bind (m s) (\<lambda>(r, s'). case r of Ok x \<Rightarrow> f x s' | Err e \<Rightarrow> Some (Err e, s')
     | Panic \<Rightarrow> Some (Panic, s'))"

lemma oseq_mono [partial_function_mono]:
  fixes g :: "('c \<Rightarrow> 'd option) \<Rightarrow> 'a \<Rightarrow> ('s, 'b) oprog"
  assumes "\<And>x s'. mono_option (\<lambda>f. g f x s')"
  shows "mono_option (\<lambda>f. oseq m (\<lambda>x. g f x) s)"
  unfolding oseq_def
proof (rule bind_mono [OF option.const_mono])
  fix y :: "'a result \<times> 's"
  show "mono_option (\<lambda>f. case y of (r, s') \<Rightarrow> (case r of Ok x \<Rightarrow> g f x s' | Err e \<Rightarrow> Some (Err e, s')
      | Panic \<Rightarrow> Some (Panic, s')))"
    using assms by (cases y; cases "fst y") (auto intro: option.const_mono)
qed

lemma oseq_once [simp]: "oseq (once m) f s = (case m s of (Ok x, s') \<Rightarrow> f x s' | (Err e, s') \<Rightarrow> Some (Err e, s')
     | (Panic, s') \<Rightarrow> Some (Panic, s'))"
  by (simp add: oseq_def once_def)

section \<open>Slices and big-endian integers\<close>

text \<open>\<open>slice off n buf\<close> is Go's \<open>buf[off:off+n]\<close>; \<open>put_at off bs buf\<close> is \<open>copy(buf[off:], bs)\<close>
  for a destination that has room.\<close>

definition slice :: "nat \<Rightarrow> nat \<Rightarrow> 'a list \<Rightarrow> 'a list" where
  "slice off n buf = take n (drop off buf)"

definition put_at :: "nat \<Rightarrow> 'a list \<Rightarrow> 'a list \<Rightarrow> 'a list" where
  "put_at off bs buf = take off buf @ bs @ drop (off + length bs) buf"

lemma length_slice [simp]: "off + n \<le> length buf \<Longrightarrow> length (slice off n buf) = n"
  by (simp add: slice_def)

lemma length_put_at [simp]: "off + length bs \<le> length buf \<Longrightarrow> length (put_at off bs buf) = length buf"
  by (simp add: put_at_def)

lemma slice_put_at_same [buf_simps]:
  "off + length bs \<le> length buf \<Longrightarrow> n = length bs \<Longrightarrow> slice off n (put_at off bs buf) = bs"
  by (simp add: slice_def put_at_def)

lemma slice_put_at_other [buf_simps]:
  assumes "off + length bs \<le> length buf" and "o2 + n \<le> off \<or> off + length bs \<le> o2"
  shows "slice o2 n (put_at off bs buf) = slice o2 n buf"
  using assms(2)
proof
  assume "o2 + n \<le> off"
  with assms(1) show ?thesis
    by (auto simp: slice_def put_at_def drop_take min_def)
next
  assume "off + length bs \<le> o2"
  then obtain j where o2: "o2 = off + length bs + j"
    using le_Suc_ex by blast
  have "drop o2 (put_at off bs buf) = drop (length bs + j) (bs @ drop (off + length bs) buf)"
    using assms(1) by (simp add: put_at_def o2)
  also have "\<dots> = drop o2 buf"
    by (simp add: o2 add.commute add.left_commute)
  finally show ?thesis
    by (simp add: slice_def)
qed

lemma slice_append_left: "off + n \<le> length xs \<Longrightarrow> slice off n (xs @ ys) = slice off n xs"
  by (simp add: slice_def)

lemma slice_append_right: "length xs \<le> off \<Longrightarrow> slice off n (xs @ ys) = slice (off - length xs) n ys"
  by (simp add: slice_def)

lemma slice_0_all [simp]: "n = length xs \<Longrightarrow> slice 0 n xs = xs"
  by (simp add: slice_def)

lemma slice_0_append [simp]: "n = length xs \<Longrightarrow> slice 0 n (xs @ ys) = xs"
  by (simp add: slice_def)

definition be16 :: "16 word \<Rightarrow> bytes" where
  "be16 v = [ucast (drop_bit 8 v), ucast v]"

definition be32 :: "32 word \<Rightarrow> bytes" where
  "be32 v = [ucast (drop_bit 24 v), ucast (drop_bit 16 v), ucast (drop_bit 8 v), ucast v]"

definition be64 :: "64 word \<Rightarrow> bytes" where
  "be64 v = be32 (ucast (drop_bit 32 v)) @ be32 (ucast v)"

definition un16 :: "bytes \<Rightarrow> 16 word" where
  "un16 bs = push_bit 8 (ucast (bs ! 0)) OR ucast (bs ! 1)"

definition un32 :: "bytes \<Rightarrow> 32 word" where
  "un32 bs = push_bit 24 (ucast (bs ! 0)) OR push_bit 16 (ucast (bs ! 1))
     OR push_bit 8 (ucast (bs ! 2)) OR ucast (bs ! 3)"

definition un64 :: "bytes \<Rightarrow> 64 word" where
  "un64 bs = push_bit 32 (ucast (un32 (take 4 bs))) OR ucast (un32 (drop 4 bs))"

lemma length_be [simp]: "length (be16 v) = 2" "length (be32 w) = 4" "length (be64 x) = 8"
  by (simp_all add: be16_def be32_def be64_def)

lemma un16_be16 [simp]: "un16 (be16 v) = v"
  by (rule bit_word_eqI) (auto simp: un16_def be16_def bit_simps)

lemma un32_be32 [simp]: "un32 (be32 v) = v"
proof (rule bit_word_eqI)
  fix n
  assume "n < LENGTH(32)"
  then consider "n < 8" | "8 \<le> n" "n < 16" | "16 \<le> n" "n < 24" | "24 \<le> n" "n < 32"
    by fastforce
  then show "bit (un32 (be32 v)) n = bit v n"
    by cases (auto simp: un32_def be32_def bit_simps)
qed

lemma un64_be64 [simp]: "un64 (be64 v) = v"
  by (rule bit_word_eqI) (auto simp: un64_def be64_def bit_simps)

lemma unat_un16: "bs = be16 (word_of_nat n) \<Longrightarrow> n < 65536 \<Longrightarrow> unat (un16 bs) = n"
  by (simp add: unat_of_nat)

text \<open>Checked access, as \<open>binary.BigEndian\<close> does it: too short a buffer panics.\<close>

definition get_u16 :: "bytes \<Rightarrow> nat \<Rightarrow> uint16 result" where
  "get_u16 buf off = (if off + 2 \<le> length buf then Ok (un16 (slice off 2 buf)) else Panic)"

definition get_u32 :: "bytes \<Rightarrow> nat \<Rightarrow> uint32 result" where
  "get_u32 buf off = (if off + 4 \<le> length buf then Ok (un32 (slice off 4 buf)) else Panic)"

definition get_u64 :: "bytes \<Rightarrow> nat \<Rightarrow> uint64 result" where
  "get_u64 buf off = (if off + 8 \<le> length buf then Ok (un64 (slice off 8 buf)) else Panic)"

definition get_slice :: "bytes \<Rightarrow> nat \<Rightarrow> nat \<Rightarrow> bytes result" where
  "get_slice buf off n = (if off + n \<le> length buf then Ok (slice off n buf) else Panic)"

definition put_bytes :: "bytes \<Rightarrow> nat \<Rightarrow> bytes \<Rightarrow> bytes result" where
  "put_bytes buf off bs = (if off + length bs \<le> length buf then Ok (put_at off bs buf) else Panic)"

definition put_u16 :: "bytes \<Rightarrow> nat \<Rightarrow> uint16 \<Rightarrow> bytes result" where
  "put_u16 buf off v = put_bytes buf off (be16 v)"

definition put_u32 :: "bytes \<Rightarrow> nat \<Rightarrow> uint32 \<Rightarrow> bytes result" where
  "put_u32 buf off v = put_bytes buf off (be32 v)"

definition put_u64 :: "bytes \<Rightarrow> nat \<Rightarrow> uint64 \<Rightarrow> bytes result" where
  "put_u64 buf off v = put_bytes buf off (be64 v)"

lemmas buf_ops = get_u16_def get_u32_def get_u64_def get_slice_def
  put_u16_def put_u32_def put_u64_def put_bytes_def

end
