(* ===== verification/Page.thy ===== *)
theory Page
  imports Prelude
begin

text \<open>
  The slotted heap page of \<open>internal/core/memory/page/heap_page.go\<close>: an 8 KiB buffer with a
  10 byte header (signature, slot count, lower bound, upper bound), a slot directory that
  grows upwards from the header and record bytes that grow downwards from the end.
  The abstract page is the list of its records (\<open>page_records\<close>); \<open>page_inv\<close> is the layout
  invariant that \<open>NewHeapPage\<close> establishes and \<open>page_write\<close> keeps.
\<close>

section \<open>Layout constants and the page\<close>

definition PageSize :: nat where "PageSize = 8 * 1024"
definition Signature :: uint32 where "Signature = 0x00DBDB01"
definition headerSize :: nat where "headerSize = 10"
definition slotSize :: nat where "slotSize = 4"
definition signatureOff :: nat where "signatureOff = 0"
definition slotCountOff :: nat where "slotCountOff = 4"
definition lowerBoundOff :: nat where "lowerBoundOff = 6"
definition upperBoundOff :: nat where "upperBoundOff = 8"
definition shortSize :: nat where "shortSize = 2"

lemmas page_consts = PageSize_def headerSize_def slotSize_def signatureOff_def slotCountOff_def
  lowerBoundOff_def upperBoundOff_def shortSize_def

record HeapPage =
  hp_pageID :: int
  hp_buf :: bytes

section \<open>Operations\<close>

definition initHeaders :: "bytes \<Rightarrow> bytes result" where
  "initHeaders buf0 =
     bind_result (put_u32 buf0 signatureOff Signature) (\<lambda>buf1.
     bind_result (put_u16 buf1 slotCountOff 0) (\<lambda>buf2.
     bind_result (put_u16 buf2 lowerBoundOff (word_of_nat headerSize)) (\<lambda>buf3.
     put_u16 buf3 upperBoundOff (word_of_nat PageSize))))"

definition NewHeapPage :: "int \<Rightarrow> HeapPage result" where
  "NewHeapPage pid = bind_result (initHeaders (replicate PageSize 0))
     (\<lambda>buf. Ok \<lparr>hp_pageID = pid, hp_buf = buf\<rparr>)"

definition page_IsValid :: "HeapPage \<Rightarrow> bool result" where
  "page_IsValid p = bind_result (get_u32 (hp_buf p) signatureOff) (\<lambda>s. Ok (s = Signature))"

definition NewHeapPageFromBuffer :: "int \<Rightarrow> bytes option \<Rightarrow> HeapPage result" where
  "NewHeapPageFromBuffer pid buffer = (case buffer of
     None \<Rightarrow> Err PErrNilBuffer
   | Some buf \<Rightarrow>
       if length buf \<noteq> PageSize then Err (PErrBadBufferSize (length buf))
       else let p = \<lparr>hp_pageID = pid, hp_buf = buf\<rparr> in
         bind_result (page_IsValid p) (\<lambda>valid.
           if \<not> valid then Err PErrInvalidSignature else Ok p))"

definition page_Size :: "HeapPage \<Rightarrow> nat result" where
  "page_Size p = bind_result (get_u16 (hp_buf p) slotCountOff) (\<lambda>n. Ok (unat n))"

definition verifySignature :: "HeapPage \<Rightarrow> unit result" where
  "verifySignature p = bind_result (page_IsValid p)
     (\<lambda>valid. if \<not> valid then Err PErrInvalidSignature else Ok ())"

definition page_Read :: "HeapPage \<Rightarrow> int \<Rightarrow> bytes result" where
  "page_Read p index =
     bind_result (verifySignature p) (\<lambda>_.
     bind_result (get_u16 (hp_buf p) slotCountOff) (\<lambda>cnt. let slotCount = unat cnt in
     if index < 0 \<or> index \<ge> int slotCount then Err (PErrSlotIndex index slotCount)
     else let slotPos = headerSize + nat index * slotSize in
     bind_result (get_u16 (hp_buf p) slotPos) (\<lambda>o16. let offset = unat o16 in
     bind_result (get_u16 (hp_buf p) (slotPos + shortSize)) (\<lambda>l16. let len = unat l16 in
     bind_result (get_u16 (hp_buf p) upperBoundOff) (\<lambda>u16. let upper = unat u16 in
     if offset + len > PageSize \<or> offset < upper then Err (PErrCorruptedPage offset len upper)
     else get_slice (hp_buf p) offset len)))))"

text \<open>
  \<open>Write\<close> mutates the buffer in place; the model returns the page after the call. Every error
  return of the code precedes the first store, so a failed call leaves the page as it was.
\<close>

definition page_Write :: "HeapPage \<Rightarrow> bytes option \<Rightarrow> HeapPage result" where
  "page_Write p dat =
     bind_result (verifySignature p) (\<lambda>_. case dat of None \<Rightarrow> Err PErrNilData | Some d \<Rightarrow>
     let len = length d in
     bind_result (get_u16 (hp_buf p) slotCountOff) (\<lambda>c16. let slotCount = unat c16 in
     bind_result (get_u16 (hp_buf p) lowerBoundOff) (\<lambda>l16. let lower = unat l16 in
     bind_result (get_u16 (hp_buf p) upperBoundOff) (\<lambda>u16. let upper = unat u16;
       required = slotSize + len;
       freeSpace = int upper - int lower in
     if int required > freeSpace then Err (PErrNoSpace required freeSpace)
     else let newUpper = upper - len; slotPos = headerSize + slotCount * slotSize in
     bind_result (put_bytes (hp_buf p) newUpper d) (\<lambda>b1.
     bind_result (put_u16 b1 slotPos (word_of_nat newUpper)) (\<lambda>b2.
     bind_result (put_u16 b2 (slotPos + shortSize) (word_of_nat len)) (\<lambda>b3.
     bind_result (put_u16 b3 slotCountOff (word_of_nat (slotCount + 1))) (\<lambda>b4.
     bind_result (put_u16 b4 lowerBoundOff (word_of_nat (lower + slotSize))) (\<lambda>b5.
     bind_result (put_u16 b5 upperBoundOff (word_of_nat newUpper)) (\<lambda>b6.
       Ok (p\<lparr>hp_buf := b6\<rparr>)))))))))))"

section \<open>Layout invariant and abstract records\<close>

text \<open>The header fields and slots as numbers, for a buffer long enough to hold them.\<close>

definition pg_count :: "HeapPage \<Rightarrow> nat" where
  "pg_count p = unat (un16 (slice slotCountOff 2 (hp_buf p)))"

definition pg_lower :: "HeapPage \<Rightarrow> nat" where
  "pg_lower p = unat (un16 (slice lowerBoundOff 2 (hp_buf p)))"

definition pg_upper :: "HeapPage \<Rightarrow> nat" where
  "pg_upper p = unat (un16 (slice upperBoundOff 2 (hp_buf p)))"

definition slot_off :: "HeapPage \<Rightarrow> nat \<Rightarrow> nat" where
  "slot_off p i = unat (un16 (slice (headerSize + i * slotSize) 2 (hp_buf p)))"

definition slot_len :: "HeapPage \<Rightarrow> nat \<Rightarrow> nat" where
  "slot_len p i = unat (un16 (slice (headerSize + i * slotSize + shortSize) 2 (hp_buf p)))"

definition page_record :: "HeapPage \<Rightarrow> nat \<Rightarrow> bytes" where
  "page_record p i = slice (slot_off p i) (slot_len p i) (hp_buf p)"

definition page_records :: "HeapPage \<Rightarrow> bytes list" where
  "page_records p = map (page_record p) [0..<pg_count p]"

definition page_inv :: "HeapPage \<Rightarrow> bool" where
  "page_inv p \<longleftrightarrow> length (hp_buf p) = PageSize
     \<and> un32 (slice signatureOff 4 (hp_buf p)) = Signature
     \<and> pg_lower p = headerSize + pg_count p * slotSize
     \<and> pg_lower p \<le> pg_upper p \<and> pg_upper p \<le> PageSize
     \<and> (\<forall>i < pg_count p. pg_upper p \<le> slot_off p i \<and> slot_off p i + slot_len p i \<le> PageSize)"

definition page_free :: "HeapPage \<Rightarrow> nat" where
  "page_free p = pg_upper p - pg_lower p"

lemma page_invD:
  assumes "page_inv p"
  shows "length (hp_buf p) = PageSize" and "un32 (slice signatureOff 4 (hp_buf p)) = Signature"
    and "pg_lower p = headerSize + pg_count p * slotSize"
    and "pg_lower p \<le> pg_upper p" and "pg_upper p \<le> PageSize"
    and "i < pg_count p \<Longrightarrow> pg_upper p \<le> slot_off p i"
    and "i < pg_count p \<Longrightarrow> slot_off p i + slot_len p i \<le> PageSize"
  using assms by (auto simp: page_inv_def)

lemma page_inv_count: "page_inv p \<Longrightarrow> pg_count p \<le> 2045"
  by (auto simp: page_inv_def page_consts)

lemma page_IsValid_inv: "page_inv p \<Longrightarrow> page_IsValid p = Ok True"
  by (auto simp: page_IsValid_def buf_ops page_inv_def page_consts)

lemma verifySignature_inv: "page_inv p \<Longrightarrow> verifySignature p = Ok ()"
  by (simp add: verifySignature_def page_IsValid_inv)

lemma page_Size_inv: "page_inv p \<Longrightarrow> page_Size p = Ok (pg_count p)"
  by (auto simp: page_Size_def buf_ops page_inv_def page_consts pg_count_def)

lemma length_page_records: "length (page_records p) = pg_count p"
  by (simp add: page_records_def)

lemma page_records_nth: "i < pg_count p \<Longrightarrow> page_records p ! i = page_record p i"
  by (simp add: page_records_def)

section \<open>Creating a page\<close>

lemma NewHeapPage_ok:
  "\<exists>p. NewHeapPage pid = Ok p \<and> page_inv p \<and> page_records p = [] \<and> hp_pageID p = pid
     \<and> pg_lower p = 10 \<and> pg_upper p = 8192"
proof -
  let ?z = "replicate 8192 (0 :: byte)"
  define b1 where "b1 = put_at 0 (be32 Signature) ?z"
  define b2 where "b2 = put_at 4 (be16 0) b1"
  define b3 where "b3 = put_at 6 (be16 10) b2"
  define b4 where "b4 = put_at 8 (be16 8192) b3"
  have len: "length b1 = 8192" "length b2 = 8192" "length b3 = 8192" "length b4 = 8192"
    by (simp_all add: b1_def b2_def b3_def b4_def)
  have new: "NewHeapPage pid = Ok \<lparr>hp_pageID = pid, hp_buf = b4\<rparr>"
    by (simp add: NewHeapPage_def initHeaders_def buf_ops page_consts
        b1_def [symmetric] b2_def [symmetric] b3_def [symmetric] b4_def [symmetric] len)
  have flds: "slice 0 4 b4 = be32 Signature" "slice 4 2 b4 = be16 0" "slice 6 2 b4 = be16 10"
      "slice 8 2 b4 = be16 8192"
    by (simp_all add: b1_def b2_def b3_def b4_def buf_simps)
  show ?thesis
    by (simp add: new page_inv_def page_records_def pg_count_def pg_lower_def pg_upper_def
        page_consts flds len)
qed

section \<open>Reading and writing records\<close>

lemma page_Read_ok:
  assumes inv: "page_inv p" and i: "i < pg_count p"
  shows "page_Read p (int i) = Ok (page_records p ! i)"
proof -
  note D = page_invD [OF inv]
  have pos: "10 + i * 4 + 4 \<le> 8192"
    using i page_inv_count [OF inv] by linarith
  have ok: "\<not> (slot_off p i + slot_len p i > PageSize \<or> slot_off p i < pg_upper p)"
    using D(6,7) [OF i] by simp
  have len: "length (hp_buf p) = 8192"
    using D(1) by (simp add: page_consts)
  show ?thesis
    using pos ok i len
    by (simp add: page_Read_def verifySignature_inv [OF inv] buf_ops page_records_nth [OF i]
        page_record_def slot_off_def slot_len_def pg_upper_def pg_count_def page_consts)
qed

lemma page_Read_out_of_range:
  assumes "page_inv p" and "index < 0 \<or> int (pg_count p) \<le> index"
  shows "page_Read p index = Err (PErrSlotIndex index (pg_count p))"
  using assms page_invD(1) [OF assms(1)]
  by (simp add: page_Read_def verifySignature_inv buf_ops pg_count_def page_consts)

lemma page_Write_full:
  assumes "page_inv p" and "page_free p < slotSize + length d"
  shows "page_Write p (Some d)
    = Err (PErrNoSpace (slotSize + length d) (int (pg_upper p) - int (pg_lower p)))"
proof -
  have "int (pg_upper p) - int (pg_lower p) < int (slotSize + length d)"
    using assms(2) page_invD(4) [OF assms(1)] by (simp add: page_free_def)
  then show ?thesis
    using assms(1) page_invD(1) [OF assms(1)]
    by (simp add: page_Write_def verifySignature_inv buf_ops Let_def
        pg_lower_def pg_upper_def page_consts)
qed

lemma page_Write_nil: "page_inv p \<Longrightarrow> page_Write p None = Err PErrNilData"
  by (simp add: page_Write_def verifySignature_inv)

text \<open>The buffer that a successful \<open>Write\<close> leaves behind.\<close>

definition written_buf :: "HeapPage \<Rightarrow> bytes \<Rightarrow> bytes" where
  "written_buf p d = (let U = pg_upper p - length d; S = headerSize + pg_count p * slotSize in
     put_at upperBoundOff (be16 (word_of_nat U))
    (put_at lowerBoundOff (be16 (word_of_nat (pg_lower p + slotSize)))
    (put_at slotCountOff (be16 (word_of_nat (pg_count p + 1)))
    (put_at (S + shortSize) (be16 (word_of_nat (length d)))
    (put_at S (be16 (word_of_nat U))
    (put_at U d (hp_buf p)))))))"

definition page_room :: "HeapPage \<Rightarrow> bytes \<Rightarrow> bool" where
  "page_room p d \<longleftrightarrow> page_inv p \<and> slotSize + length d \<le> page_free p"

lemma room_nat:
  assumes "page_room p d"
  shows "10 + pg_count p * 4 + 4 + length d \<le> pg_upper p" "pg_upper p \<le> 8192"
    "length (hp_buf p) = 8192" "pg_lower p = 10 + pg_count p * 4"
  using assms page_invD [of p] by (auto simp: page_room_def page_free_def page_consts)

lemma room_int:
  assumes "page_room p d"
  shows "\<not> uint (un16 (slice 8 2 (hp_buf p))) - uint (un16 (slice 6 2 (hp_buf p)))
    < 4 + int (length d)"
proof -
  have "\<not> int (pg_upper p) - int (pg_lower p) < 4 + int (length d)"
    using room_nat [OF assms] by linarith
  then show ?thesis
    by (simp add: pg_upper_def pg_lower_def page_consts)
qed

lemma write_result:
  assumes "page_room p d"
  shows "page_Write p (Some d) = Ok (p\<lparr>hp_buf := written_buf p d\<rparr>)"
  using assms room_nat [OF assms] room_int [OF assms]
  by (simp add: page_Write_def verifySignature_inv page_room_def written_buf_def Let_def buf_ops
      page_consts pg_lower_def [symmetric, unfolded page_consts]
      pg_upper_def [symmetric, unfolded page_consts] pg_count_def [symmetric, unfolded page_consts])

lemma length_written: "page_room p d \<Longrightarrow> length (written_buf p d) = 8192"
  using room_nat [of p d] by (simp add: written_buf_def Let_def page_consts)

lemma written_header:
  assumes "page_room p d"
  shows
  "slice 0 4 (written_buf p d) = slice 0 4 (hp_buf p)"
  "slice 4 2 (written_buf p d) = be16 (word_of_nat (pg_count p + 1))"
  "slice 6 2 (written_buf p d) = be16 (word_of_nat (pg_lower p + 4))"
  "slice 8 2 (written_buf p d) = be16 (word_of_nat (pg_upper p - length d))"
  using room_nat [OF assms] by (simp_all add: written_buf_def Let_def page_consts buf_simps)

lemma written_new_slot:
  assumes "page_room p d"
  shows
  "slice (10 + pg_count p * 4) 2 (written_buf p d) = be16 (word_of_nat (pg_upper p - length d))"
  "slice (10 + pg_count p * 4 + 2) 2 (written_buf p d) = be16 (word_of_nat (length d))"
  "slice (pg_upper p - length d) (length d) (written_buf p d) = d"
  using room_nat [OF assms] by (simp_all add: written_buf_def Let_def page_consts buf_simps)

lemma written_old_slot:
  assumes "page_room p d" and "i < pg_count p"
  shows "slice (10 + i * 4) 2 (written_buf p d) = slice (10 + i * 4) 2 (hp_buf p)"
    and "slice (10 + i * 4 + 2) 2 (written_buf p d) = slice (10 + i * 4 + 2) 2 (hp_buf p)"
  using room_nat [OF assms(1)] assms by (simp_all add: written_buf_def Let_def page_consts buf_simps)

lemma written_old_data:
  assumes "page_room p d" and "pg_upper p \<le> off" and "off + n \<le> 8192"
  shows "slice off n (written_buf p d) = slice off n (hp_buf p)"
  using room_nat [OF assms(1)] assms by (simp add: written_buf_def Let_def page_consts buf_simps)

lemma page_Write_fits:
  assumes room: "page_room p d"
  shows "\<exists>p'. page_Write p (Some d) = Ok p' \<and> page_inv p' \<and> page_records p' = page_records p @ [d]
    \<and> hp_pageID p' = hp_pageID p \<and> page_free p' = page_free p - (slotSize + length d)"
proof -
  let ?b = "written_buf p d"
  define p' where "p' = p\<lparr>hp_buf := ?b\<rparr>"
  note N = room_nat [OF room] and H = written_header [OF room] and W = written_new_slot [OF room]
  have inv: "page_inv p"
    using room by (simp add: page_room_def)
  have "pg_count p' = unat (un16 (slice 4 2 ?b))" "pg_lower p' = unat (un16 (slice 6 2 ?b))"
      "pg_upper p' = unat (un16 (slice 8 2 ?b))"
      "slot_off p' i = unat (un16 (slice (10 + i * 4) 2 ?b))"
      "slot_len p' i = unat (un16 (slice (10 + i * 4 + 2) 2 ?b))" for i
    by (simp_all add: p'_def pg_count_def pg_lower_def pg_upper_def slot_off_def slot_len_def page_consts)
  note fields = this
  have count: "pg_count p' = pg_count p + 1"
    unfolding fields by (rule unat_un16 [OF H(2)]) (use N in linarith)
  have lower: "pg_lower p' = pg_lower p + 4"
    unfolding fields by (rule unat_un16 [OF H(3)]) (use N in linarith)
  have upper: "pg_upper p' = pg_upper p - length d"
    unfolding fields by (rule unat_un16 [OF H(4)]) (use N in linarith)
  have new: "slot_off p' (pg_count p) = pg_upper p - length d" "slot_len p' (pg_count p) = length d"
    unfolding fields by (rule unat_un16 [OF W(1)], use N in linarith, rule unat_un16 [OF W(2)], use N in linarith)
  have old: "slot_off p' i = slot_off p i" "slot_len p' i = slot_len p i" if "i < pg_count p" for i
    using written_old_slot [OF room that] by (simp_all add: p'_def slot_off_def slot_len_def page_consts)
  have buf': "hp_buf p' = ?b"
    by (simp add: p'_def)
  have slots: "pg_upper p' \<le> slot_off p' i \<and> slot_off p' i + slot_len p' i \<le> PageSize"
    if "i < pg_count p'" for i
  proof (cases "i = pg_count p")
    case True
    with N show ?thesis by (simp add: new upper page_consts)
  next
    case False
    with that have i: "i < pg_count p" by (simp add: count)
    show ?thesis
      using page_invD(6,7) [OF inv i] by (simp add: old [OF i] upper)
  qed
  have inv': "page_inv p'"
    using N length_written [OF room] H(1) page_invD(2) [OF inv] slots
    by (auto simp: page_inv_def buf' count lower upper page_consts)
  have "page_record p' (pg_count p) = d"
    using W(3) by (simp add: page_record_def new buf')
  moreover have "page_record p' i = page_record p i" if "i < pg_count p" for i
    using written_old_data [OF room page_invD(6) [OF inv that]] page_invD(7) [OF inv that]
    by (simp add: page_record_def old [OF that] page_consts buf')
  ultimately have recs: "page_records p' = page_records p @ [d]"
    by (simp add: page_records_def count)
  have "page_free p' = page_free p - (slotSize + length d)"
    using N by (simp add: page_free_def lower upper page_consts)
  then show ?thesis
    using write_result [OF room] inv' recs by (auto simp: p'_def)
qed

section \<open>The record page interface\<close>

text \<open>
  What the table heap and the catalog rely on: a page stores a list of records, \<open>put\<close>
  appends one when there is room and fails without an effect otherwise, \<open>get\<close> returns a
  record by its slot number.
\<close>

locale record_page =
  fixes inv :: "'p \<Rightarrow> bool"
    and recs :: "'p \<Rightarrow> bytes list"
    and free :: "'p \<Rightarrow> nat"
    and put :: "'p \<Rightarrow> bytes option \<Rightarrow> 'p result"
    and get :: "'p \<Rightarrow> int \<Rightarrow> bytes result"
    and size :: "'p \<Rightarrow> nat result"
  assumes write_fits: "inv p \<Longrightarrow> 4 + length d \<le> free p \<Longrightarrow>
      \<exists>p'. put p (Some d) = Ok p' \<and> inv p' \<and> recs p' = recs p @ [d]
        \<and> free p' = free p - (4 + length d)"
    and write_full: "inv p \<Longrightarrow> free p < 4 + length d \<Longrightarrow> \<exists>e. put p (Some d) = Err e"
    and read_in: "inv p \<Longrightarrow> i < length (recs p) \<Longrightarrow> get p (int i) = Ok (recs p ! i)"
    and read_out: "inv p \<Longrightarrow> index < 0 \<or> int (length (recs p)) \<le> index \<Longrightarrow> \<exists>e. get p index = Err e"
    and size_recs: "inv p \<Longrightarrow> size p = Ok (length (recs p))"
begin

lemma write_total:
  assumes "inv p"
  shows "(\<exists>p'. put p (Some d) = Ok p') \<or> (\<exists>e. put p (Some d) = Err e)"
  using write_fits [OF assms, of d] write_full [OF assms, of d] by (meson not_le)

lemma write_okD:
  assumes "inv p" and "put p (Some d) = Ok p'"
  shows "inv p'" and "recs p' = recs p @ [d]" and "4 + length d \<le> free p"
    and "free p' = free p - (4 + length d)"
proof -
  show fits: "4 + length d \<le> free p"
    using write_full [OF assms(1), of d] assms(2) by (metis not_le result.distinct(1))
  show "inv p'" "recs p' = recs p @ [d]" "free p' = free p - (4 + length d)"
    using write_fits [OF assms(1) fits] assms(2) by auto
qed

lemma read_own_write:
  assumes "inv p" and "put p (Some d) = Ok p'"
  shows "get p' (int (length (recs p))) = Ok d"
  using read_in [of p' "length (recs p)"] write_okD [OF assms] by simp

lemma write_keeps_reads:
  assumes "inv p" and "put p (Some d) = Ok p'" and "get p index = Ok r"
  shows "get p' index = Ok r"
proof -
  have "\<not> (index < 0 \<or> int (length (recs p)) \<le> index)"
    using read_out [OF assms(1)] assms(3) by fastforce
  then obtain i where i: "index = int i" "i < length (recs p)"
    by (metis not_le of_nat_less_iff zero_le_imp_eq_int)
  with assms(1,3) have "r = recs p ! i"
    using read_in by fastforce
  with i show ?thesis
    using read_in [of p' i] write_okD [OF assms(1,2)] by (simp add: nth_append)
qed

lemma reads_all: "inv p \<Longrightarrow> map (\<lambda>i. get p (int i)) [0..<length (recs p)] = map Ok (recs p)"
  by (rule nth_equalityI) (simp_all add: read_in)

end

interpretation hpage: record_page page_inv page_records page_free page_Write page_Read page_Size
proof unfold_locales
  fix p :: HeapPage and d :: bytes
  assume "page_inv p" "4 + length d \<le> page_free p"
  then show "\<exists>p'. page_Write p (Some d) = Ok p' \<and> page_inv p' \<and> page_records p' = page_records p @ [d]
      \<and> page_free p' = page_free p - (4 + length d)"
    using page_Write_fits [of p d] by (auto simp: page_room_def slotSize_def)
next
  fix p :: HeapPage and d :: bytes
  assume "page_inv p" "page_free p < 4 + length d"
  then show "\<exists>e. page_Write p (Some d) = Err e"
    using page_Write_full [of p d] by (simp add: slotSize_def)
next
  fix p index
  assume "page_inv p" "index < 0 \<or> int (length (page_records p)) \<le> index"
  then show "\<exists>e. page_Read p index = Err e"
    using page_Read_out_of_range by (auto simp: length_page_records)
qed (auto simp: page_Read_ok length_page_records page_Size_inv)

lemma page_Write_pageID: "page_Write p d = Ok p' \<Longrightarrow> hp_pageID p' = hp_pageID p"
  by (auto simp: page_Write_def bind_result_Ok Let_def split: option.splits if_splits)

lemma NewHeapPageFromBuffer_inv:
  "page_inv p \<Longrightarrow> NewHeapPageFromBuffer pid (Some (hp_buf p)) = Ok \<lparr>hp_pageID = pid, hp_buf = hp_buf p\<rparr>"
  by (simp add: NewHeapPageFromBuffer_def page_IsValid_def buf_ops page_inv_def page_consts)

section \<open>Properties\<close>

text \<open>Writing records one after the other.\<close>

fun page_writes :: "HeapPage \<Rightarrow> bytes list \<Rightarrow> HeapPage result" where
  "page_writes p [] = Ok p"
| "page_writes p (d # ds) = bind_result (page_Write p (Some d)) (\<lambda>p'. page_writes p' ds)"

lemma page_writes_spec:
  assumes "page_inv p"
  shows "case page_writes p ds of
      Ok p' \<Rightarrow> page_inv p' \<and> page_records p' = page_records p @ ds
        \<and> sum_list (map (\<lambda>d. slotSize + length d) ds) \<le> page_free p
    | Err e \<Rightarrow> (\<exists>n m. e = PErrNoSpace n m)
        \<and> page_free p < sum_list (map (\<lambda>d. slotSize + length d) ds)
    | Panic \<Rightarrow> False"
  using assms
proof (induction ds arbitrary: p)
  case (Cons d ds)
  show ?case
  proof (cases "slotSize + length d \<le> page_free p")
    case True
    then obtain p' where w: "page_Write p (Some d) = Ok p'" "page_inv p'"
        "page_records p' = page_records p @ [d]" "page_free p' = page_free p - (slotSize + length d)"
      using page_Write_fits [of p d] Cons.prems by (auto simp: page_room_def)
    show ?thesis
      using Cons.IH [OF w(2)] w True by (auto split: result.splits)
  next
    case False
    then show ?thesis
      using page_Write_full [OF Cons.prems, of d] by simp
  qed
qed simp

text \<open>C24: the slotted page is an append-only log. Writing any records one after the other into a new
  page either succeeds, and then the page is well formed, its size is the number of records and
  reading index i gives back record i, or runs out of space, exactly when the records with their
  slots need more than the 8182 bytes after the header; nothing panics.\<close>

theorem page_log:
  "case bind_result (NewHeapPage pid) (\<lambda>p. page_writes p ds) of
     Ok p \<Rightarrow> page_inv p \<and> page_Size p = Ok (length ds)
       \<and> map (\<lambda>i. page_Read p (int i)) [0..<length ds] = map Ok ds
       \<and> sum_list (map (\<lambda>d. 4 + length d) ds) \<le> 8182
   | Err e \<Rightarrow> (\<exists>n m. e = PErrNoSpace n m) \<and> 8182 < sum_list (map (\<lambda>d. 4 + length d) ds)
   | Panic \<Rightarrow> False"
proof -
  obtain p where p: "NewHeapPage pid = Ok p" "page_inv p" "page_records p = []" "page_free p = 8182"
    using NewHeapPage_ok [of pid] by (auto simp: page_free_def)
  show ?thesis
    using page_writes_spec [OF p(2), of ds] p hpage.reads_all page_Size_inv length_page_records
    by (fastforce simp: slotSize_def split: result.splits)
qed

text \<open>A successful Write appends one record: it is read back at the old size, every earlier read
  gives the same bytes, and every index outside the records is the slot index error.\<close>

lemma page_Write_appends:
  assumes "page_inv p" and "page_Write p (Some d) = Ok p'"
  shows "page_inv p' \<and> page_Read p' (int (pg_count p)) = Ok d
    \<and> (\<forall>index r. page_Read p index = Ok r \<longrightarrow> page_Read p' index = Ok r)
    \<and> (\<forall>index. index < 0 \<or> int (pg_count p) < index
        \<longrightarrow> page_Read p' index = Err (PErrSlotIndex index (pg_count p + 1)))"
proof -
  note w = hpage.write_okD [OF assms]
  have cnt: "pg_count p' = pg_count p + 1"
    using arg_cong [OF w(2), of length] by (simp add: length_page_records)
  show ?thesis
    using w(1) hpage.read_own_write [OF assms] hpage.write_keeps_reads [OF assms]
      page_Read_out_of_range [OF w(1)] cnt by (auto simp: length_page_records)
qed

definition sample_heap_page :: HeapPage where
  "sample_heap_page = (case NewHeapPage 7 of Ok p \<Rightarrow> p | _ \<Rightarrow> \<lparr>hp_pageID = 0, hp_buf = []\<rparr>)"

lemma sample_heap_page:
  "page_inv sample_heap_page" "page_free sample_heap_page = 8182" "pg_count sample_heap_page = 0"
  using NewHeapPage_ok [of 7] length_page_records [of sample_heap_page]
  by (auto simp: sample_heap_page_def page_free_def)

text \<open>C35: a page whose signature is right but whose slot count is not is not reported as corrupted:
  Read of an index below the count whose slot lies behind the end of the buffer panics.\<close>

theorem page_Read_panics_on_bad_count:
  assumes "length (hp_buf p) = PageSize" and "un32 (slice signatureOff 4 (hp_buf p)) = Signature"
    and "2046 \<le> i" and "i < pg_count p"
  shows "page_Read p (int i) = Panic"
proof -
  have "page_IsValid p = Ok True"
    using assms(1,2) by (simp add: page_IsValid_def buf_ops page_consts)
  then show ?thesis
    using assms by (simp add: page_Read_def verifySignature_def buf_ops pg_count_def page_consts)
qed

theorem page_Read_panics_on_bad_count_witness:
  "page_Read \<lparr>hp_pageID = 0, hp_buf = be32 Signature @ replicate 8188 255\<rparr> (int 3000) = Panic"
proof (rule page_Read_panics_on_bad_count)
  have "replicate 8188 (255 :: byte) = [255, 255] @ replicate 8186 255"
    using replicate_add [of 2 8186 "255 :: byte"] by (simp add: numeral_2_eq_2)
  then have "slice 4 2 (be32 Signature @ replicate 8188 255) = [255, 255]"
    by (simp add: slice_append_right slice_def)
  then show "3000 < pg_count \<lparr>hp_pageID = 0, hp_buf = be32 Signature @ replicate 8188 255\<rparr>"
    by (simp add: pg_count_def slotCountOff_def un16_def push_bit_eq_mult)
qed (simp_all add: page_consts)

end
