(* ===== verification/Replacer.thy ===== *)
theory Replacer
  imports Page
begin

text \<open>
  Buffer slots (\<open>internal/core/memory/model\<close>) and the two page replacement policies of
  \<open>internal/core/memory/replacer\<close>. Go keeps one \<open>*BufferSlot\<close> in the pool's page table and in
  the replacer; here a slot pointer is a number and \<open>slot_store\<close> maps it to the slot, so the
  sharing is explicit. The field \<open>key\<close> of a slot is never assigned after \<open>NewBufferSlot\<close>.
  The interface \<open>Replacer\<close> is the locale \<open>replacer_contract\<close>, interpreted for both policies
  and for the dispatching type the pool uses.
\<close>

section \<open>Keys and slots\<close>

record PageKey =
  pk_fileID :: string
  pk_pageID :: int

record BufferSlot =
  bs_key :: PageKey
  bs_page :: HeapPage
  bs_dirty :: bool
  bs_pinned :: bool
  bs_usage :: int

type_synonym slot_ref = nat
type_synonym slot_store = "slot_ref \<Rightarrow> BufferSlot"

definition NewPageKey :: "string \<Rightarrow> int \<Rightarrow> PageKey" where
  "NewPageKey fid pid = \<lparr>pk_fileID = fid, pk_pageID = pid\<rparr>"

definition NewBufferSlot :: "PageKey \<Rightarrow> HeapPage \<Rightarrow> BufferSlot" where
  "NewBufferSlot key p =
     \<lparr>bs_key = key, bs_page = p, bs_dirty = False, bs_pinned = False, bs_usage = 0\<rparr>"

definition IncrementUsage :: "BufferSlot \<Rightarrow> BufferSlot" where
  "IncrementUsage s = s\<lparr>bs_usage := bs_usage s + 1\<rparr>"

section \<open>LRU\<close>

text \<open>
  \<open>container/list\<close>: a list element has an identity (a number, here called its handle) by which
  the map \<open>lru\<close> refers to it.
\<close>

record lruEntry =
  le_key :: PageKey
  le_slot :: slot_ref

record LRUReplacer =
  lru_list :: "(nat \<times> lruEntry) list"
  lru_map :: "PageKey \<rightharpoonup> nat"
  lru_next :: nat

definition NewLRUReplacer :: LRUReplacer where
  "NewLRUReplacer = \<lparr>lru_list = [], lru_map = Map.empty, lru_next = 0\<rparr>"

definition elem_set_slot :: "nat \<Rightarrow> slot_ref \<Rightarrow> (nat \<times> lruEntry) list \<Rightarrow> (nat \<times> lruEntry) list" where
  "elem_set_slot el s xs = map (\<lambda>(h, e). if h = el then (h, e\<lparr>le_slot := s\<rparr>) else (h, e)) xs"

definition list_MoveToBack :: "nat \<Rightarrow> (nat \<times> 'e) list \<Rightarrow> (nat \<times> 'e) list" where
  "list_MoveToBack el xs = filter (\<lambda>x. fst x \<noteq> el) xs @ filter (\<lambda>x. fst x = el) xs"

definition list_Remove :: "nat \<Rightarrow> (nat \<times> 'e) list \<Rightarrow> (nat \<times> 'e) list" where
  "list_Remove el xs = filter (\<lambda>x. fst x \<noteq> el) xs"

definition lru_Push :: "slot_store \<Rightarrow> slot_ref option \<Rightarrow> LRUReplacer \<Rightarrow> LRUReplacer" where
  "lru_Push st slot r = (case slot of None \<Rightarrow> r | Some s \<Rightarrow>
     if bs_pinned (st s) then r
     else let key = bs_key (st s) in
       case lru_map r key of
         Some el \<Rightarrow> r\<lparr>lru_list := list_MoveToBack el (elem_set_slot el s (lru_list r))\<rparr>
       | None \<Rightarrow> r\<lparr>lru_list := lru_list r @ [(lru_next r, \<lparr>le_key = key, le_slot = s\<rparr>)],
                  lru_map := (lru_map r)(key \<mapsto> lru_next r), lru_next := lru_next r + 1\<rparr>)"

definition lru_Delete :: "PageKey \<Rightarrow> LRUReplacer \<Rightarrow> LRUReplacer" where
  "lru_Delete key r = (case lru_map r key of
     Some el \<Rightarrow> r\<lparr>lru_list := list_Remove el (lru_list r), lru_map := (lru_map r)(key := None)\<rparr>
   | None \<Rightarrow> r)"

definition lru_PickVictim :: "LRUReplacer \<Rightarrow> slot_ref option \<times> LRUReplacer" where
  "lru_PickVictim r = (case lru_list r of
     [] \<Rightarrow> (None, r)
   | (el, entry) # _ \<Rightarrow> (Some (le_slot entry),
       r\<lparr>lru_list := list_Remove el (lru_list r), lru_map := (lru_map r)(le_key entry := None)\<rparr>))"

section \<open>Clock\<close>

record ClockReplacer =
  ck_ring :: "slot_ref list"
  ck_head :: nat
  ck_inRing :: "PageKey set"
  ck_ref :: "PageKey set"

definition NewClockReplacer :: ClockReplacer where
  "NewClockReplacer = \<lparr>ck_ring = [], ck_head = 0, ck_inRing = {}, ck_ref = {}\<rparr>"

definition clock_Push :: "slot_store \<Rightarrow> slot_ref option \<Rightarrow> ClockReplacer \<Rightarrow> ClockReplacer" where
  "clock_Push st slot c = (case slot of None \<Rightarrow> c | Some s \<Rightarrow>
     if bs_pinned (st s) then c
     else let key = bs_key (st s);
              c1 = (if key \<notin> ck_inRing c
                    then c\<lparr>ck_inRing := insert key (ck_inRing c), ck_ring := ck_ring c @ [s]\<rparr> else c)
          in c1\<lparr>ck_ref := insert key (ck_ref c1)\<rparr>)"

text \<open>\<open>copy(ring[i:], ring[i+1:])\<close> and cutting the last element off.\<close>

definition remove_at :: "nat \<Rightarrow> 'a list \<Rightarrow> 'a list" where
  "remove_at i xs = take i xs @ drop (Suc i) xs"

fun find_key :: "slot_store \<Rightarrow> PageKey \<Rightarrow> nat \<Rightarrow> slot_ref list \<Rightarrow> nat option" where
  "find_key st key i [] = None"
| "find_key st key i (s # ss) = (if bs_key (st s) = key then Some i else find_key st key (Suc i) ss)"

definition clock_Delete :: "slot_store \<Rightarrow> PageKey \<Rightarrow> ClockReplacer \<Rightarrow> ClockReplacer" where
  "clock_Delete st key c =
     (if key \<notin> ck_inRing c then c
      else let c1 = c\<lparr>ck_inRing := ck_inRing c - {key}, ck_ref := ck_ref c - {key}\<rparr> in
        case find_key st key 0 (ck_ring c1) of
          None \<Rightarrow> c1
        | Some i \<Rightarrow> let ring = remove_at i (ck_ring c1) in
            c1\<lparr>ck_ring := ring,
               ck_head := (if ring = [] then 0 else if i < ck_head c1 then ck_head c1 - 1
                           else if ck_head c1 \<ge> length ring then 0 else ck_head c1)\<rparr>)"

lemma filter_shrinks:
  assumes "x \<in> set xs" and "P x" and "\<not> Q x" and "\<And>y. Q y \<Longrightarrow> P y"
  shows "length (filter Q xs) < length (filter P xs)"
proof -
  have "filter Q xs = filter Q (filter P xs)"
    using assms(4) by (auto intro: filter_cong)
  moreover have "length (filter Q (filter P xs)) < length (filter P xs)"
    using assms by (intro length_filter_less) auto
  ultimately show ?thesis by simp
qed

text \<open>
  The victim search: a slot whose reference bit is set loses it and is passed over, the first
  one without the bit is taken out of the ring. Each pass clears a bit, so the search ends.
\<close>

function clock_PickVictim :: "slot_store \<Rightarrow> ClockReplacer \<Rightarrow> slot_ref option \<times> ClockReplacer" where
  "clock_PickVictim st c =
     (if ck_ring c = [] then (None, c)
      else let h = (if ck_head c \<ge> length (ck_ring c) then 0 else ck_head c);
               s = ck_ring c ! h;
               key = bs_key (st s)
           in if key \<in> ck_ref c
              then clock_PickVictim st (c\<lparr>ck_head := Suc h, ck_ref := ck_ref c - {key}\<rparr>)
              else let ring = remove_at h (ck_ring c) in
                (Some s, c\<lparr>ck_inRing := ck_inRing c - {key}, ck_ring := ring,
                           ck_head := (if h \<ge> length ring then 0 else h)\<rparr>))"
  by pat_completeness auto

termination
proof (relation "measure (\<lambda>(st, c). length (filter (\<lambda>s. bs_key (st s) \<in> ck_ref c) (ck_ring c)))")
qed (auto simp: Let_def intro!: filter_shrinks split: if_splits)

declare clock_PickVictim.simps [simp del]

section \<open>The interface type\<close>

datatype Replacer = LRU LRUReplacer | Clock ClockReplacer

fun rep_Push :: "slot_store \<Rightarrow> slot_ref option \<Rightarrow> Replacer \<Rightarrow> Replacer" where
  "rep_Push st s (LRU r) = LRU (lru_Push st s r)"
| "rep_Push st s (Clock c) = Clock (clock_Push st s c)"

fun rep_Delete :: "slot_store \<Rightarrow> PageKey \<Rightarrow> Replacer \<Rightarrow> Replacer" where
  "rep_Delete st k (LRU r) = LRU (lru_Delete k r)"
| "rep_Delete st k (Clock c) = Clock (clock_Delete st k c)"

fun rep_PickVictim :: "slot_store \<Rightarrow> Replacer \<Rightarrow> slot_ref option \<times> Replacer" where
  "rep_PickVictim st (LRU r) = (case lru_PickVictim r of (v, r') \<Rightarrow> (v, LRU r'))"
| "rep_PickVictim st (Clock c) = (case clock_PickVictim st c of (v, c') \<Rightarrow> (v, Clock c'))"

section \<open>The contract of a replacer\<close>

text \<open>
  \<open>cands r\<close> is the set of slots a replacer may hand out. The pool relies on: pushing an
  unpinned slot makes it a candidate, deleting a key removes its slot, a victim is a candidate
  and leaves the set, and only an empty replacer returns none.
\<close>

locale replacer_contract =
  fixes push :: "slot_store \<Rightarrow> slot_ref option \<Rightarrow> 'r \<Rightarrow> 'r"
    and del :: "slot_store \<Rightarrow> PageKey \<Rightarrow> 'r \<Rightarrow> 'r"
    and pick :: "slot_store \<Rightarrow> 'r \<Rightarrow> slot_ref option \<times> 'r"
    and cands :: "'r \<Rightarrow> slot_ref set"
    and inv :: "slot_store \<Rightarrow> 'r \<Rightarrow> bool"
  assumes keys_inj: "inv st r \<Longrightarrow> inj_on (\<lambda>s. bs_key (st s)) (cands r)"
    and cands_finite: "inv st r \<Longrightarrow> finite (cands r)"
    and push_ignored: "slot = None \<or> bs_pinned (st (the slot)) \<Longrightarrow> push st slot r = r"
    and push_cands: "inv st r \<Longrightarrow> \<not> bs_pinned (st s) \<Longrightarrow>
        (\<And>s'. s' \<in> cands r \<Longrightarrow> bs_key (st s') = bs_key (st s) \<Longrightarrow> s' = s) \<Longrightarrow>
        inv st (push st (Some s) r) \<and> cands (push st (Some s) r) = insert s (cands r)"
    and del_cands: "inv st r \<Longrightarrow>
        inv st (del st k r) \<and> cands (del st k r) = {s \<in> cands r. bs_key (st s) \<noteq> k}"
    and pick_None: "inv st r \<Longrightarrow> pick st r = (None, r') \<Longrightarrow> cands r = {} \<and> cands r' = {} \<and> inv st r'"
    and pick_Some: "inv st r \<Longrightarrow> pick st r = (Some s, r') \<Longrightarrow>
        s \<in> cands r \<and> cands r' = cands r - {s} \<and> inv st r'"
    and inv_store: "inv st r \<Longrightarrow> (\<And>s. s \<in> cands r \<Longrightarrow> bs_key (st' s) = bs_key (st s)) \<Longrightarrow> inv st' r"
begin

lemma pick_nonempty: "inv st r \<Longrightarrow> cands r \<noteq> {} \<Longrightarrow> \<exists>s r'. pick st r = (Some s, r') \<and> s \<in> cands r"
  using pick_None pick_Some by (metis old.prod.exhaust option.exhaust)

lemma pick_card:
  assumes "inv st r" and "pick st r = (Some s, r')"
  shows "card (cands r) = Suc (card (cands r'))"
  using pick_Some [OF assms] cands_finite [OF assms(1)] by (metis card.remove)

lemma push_own:
  assumes "inv st r" and "s \<in> cands r" and "\<not> bs_pinned (st s)"
  shows "inv st (push st (Some s) r)" and "cands (push st (Some s) r) = cands r"
  using push_cands [OF assms(1,3)] keys_inj [OF assms(1)] assms(2)
  by (auto dest: inj_onD simp: insert_absorb)

lemma del_slot:
  assumes "inv st r" and "\<And>s'. s' \<in> cands r \<Longrightarrow> bs_key (st s') = bs_key (st s) \<Longrightarrow> s' = s"
  shows "cands (del st (bs_key (st s)) r) = cands r - {s}"
  using del_cands [OF assms(1), of "bs_key (st s)"] assms(2) by auto

end

section \<open>LRU keeps the contract\<close>

definition lru_inv :: "slot_store \<Rightarrow> LRUReplacer \<Rightarrow> bool" where
  "lru_inv st r \<longleftrightarrow> distinct (map fst (lru_list r))
     \<and> (\<forall>h e. (h, e) \<in> set (lru_list r) \<longrightarrow> lru_map r (le_key e) = Some h
          \<and> le_key e = bs_key (st (le_slot e)) \<and> h < lru_next r)
     \<and> (\<forall>k h. lru_map r k = Some h \<longrightarrow> (\<exists>e. (h, e) \<in> set (lru_list r) \<and> le_key e = k))"

text \<open>The slots from the least to the most recently pushed.\<close>

definition lru_order :: "LRUReplacer \<Rightarrow> slot_ref list" where
  "lru_order r = map (le_slot \<circ> snd) (lru_list r)"

definition lru_cands :: "LRUReplacer \<Rightarrow> slot_ref set" where
  "lru_cands r = set (lru_order r)"

lemma lru_invD:
  assumes "lru_inv st r" and "(h, e) \<in> set (lru_list r)"
  shows "lru_map r (le_key e) = Some h" and "le_key e = bs_key (st (le_slot e))" and "h < lru_next r"
  using assms unfolding lru_inv_def by blast+

lemma lru_invI:
  assumes "distinct (map fst (lru_list r))"
    and "\<And>h e. (h, e) \<in> set (lru_list r) \<Longrightarrow> lru_map r (le_key e) = Some h
      \<and> le_key e = bs_key (st (le_slot e)) \<and> h < lru_next r"
    and "\<And>k h. lru_map r k = Some h \<Longrightarrow> \<exists>e. (h, e) \<in> set (lru_list r) \<and> le_key e = k"
  shows "lru_inv st r"
  using assms unfolding lru_inv_def by blast

lemma lru_inv_same:
  assumes "lru_inv st r" and "(h, e) \<in> set (lru_list r)" and "(h', e') \<in> set (lru_list r)"
    and "le_key e = le_key e' \<or> h = h'"
  shows "h = h' \<and> e = e'"
proof -
  have "h = h'"
    using assms(4) lru_invD(1) [OF assms(1,2)] lru_invD(1) [OF assms(1,3)] by auto
  moreover have "distinct (map fst (lru_list r))"
    using assms(1) by (simp add: lru_inv_def)
  ultimately show ?thesis
    using assms(2,3) eq_key_imp_eq_value by metis
qed

lemma lru_same_handle:
  "lru_inv st r \<Longrightarrow> (h, e) \<in> set (lru_list r) \<Longrightarrow> (h, e') \<in> set (lru_list r) \<Longrightarrow> e' = e"
  using lru_inv_same by blast

lemma lru_hitE:
  assumes "lru_inv st r" and "lru_map r k = Some h"
  obtains e where "(h, e) \<in> set (lru_list r)" and "le_key e = k"
  using assms unfolding lru_inv_def by blast

lemma lru_candsE:
  assumes "lru_inv st r" and "s \<in> lru_cands r"
  obtains h e where "(h, e) \<in> set (lru_list r)" and "le_slot e = s" and "le_key e = bs_key (st s)"
  using assms lru_invD(2) [OF assms(1)] by (fastforce simp: lru_cands_def lru_order_def)

lemma lru_candsI: "(h, e) \<in> set (lru_list r) \<Longrightarrow> le_slot e \<in> lru_cands r"
  by (force simp: lru_cands_def lru_order_def)

lemma lru_miss_cands:
  "lru_inv st r \<Longrightarrow> lru_map r k = None \<Longrightarrow> s \<in> lru_cands r \<Longrightarrow> bs_key (st s) \<noteq> k"
  by (metis lru_candsE lru_invD(1) option.distinct(1))

lemma lru_keys_inj:
  assumes inv: "lru_inv st r"
  shows "inj_on (\<lambda>s. bs_key (st s)) (lru_cands r)"
proof (rule inj_onI)
  fix s s'
  assume "s \<in> lru_cands r" "s' \<in> lru_cands r" and eq: "bs_key (st s) = bs_key (st s')"
  then obtain h e h' e' where "(h, e) \<in> set (lru_list r)" "le_slot e = s" "le_key e = bs_key (st s)"
      "(h', e') \<in> set (lru_list r)" "le_slot e' = s'" "le_key e' = bs_key (st s')"
    by (metis lru_candsE [OF inv])
  with eq show "s = s'"
    using lru_inv_same [OF inv] by metis
qed

lemma lru_distinct_order:
  assumes inv: "lru_inv st r"
  shows "distinct (lru_order r)"
proof -
  have "inj_on (le_slot \<circ> snd) (set (lru_list r))"
  proof (rule inj_onI, clarsimp)
    fix h e h' e'
    assume in_list: "(h, e) \<in> set (lru_list r)" "(h', e') \<in> set (lru_list r)"
      and "le_slot e = le_slot e'"
    then have "le_key e = le_key e'"
      using lru_invD(2) [OF inv] by metis
    with in_list show "h = h' \<and> e = e'"
      using lru_inv_same [OF inv] by blast
  qed
  moreover have "distinct (lru_list r)"
    using inv by (simp add: lru_inv_def distinct_map)
  ultimately show ?thesis
    by (simp add: lru_order_def distinct_map)
qed

lemma lru_inv_store:
  assumes "lru_inv st r" and "\<And>s. s \<in> lru_cands r \<Longrightarrow> bs_key (st' s) = bs_key (st s)"
  shows "lru_inv st' r"
  using assms lru_candsI [of _ _ r] unfolding lru_inv_def by metis

lemma filter_fst_single:
  assumes "distinct (map fst xs)" and "(h, e) \<in> set xs"
  shows "filter (\<lambda>x. fst x = h) xs = [(h, e)]"
  using assms by (induction xs) (auto simp: filter_empty_conv image_iff)

lemma elem_set_slot_id:
  assumes "\<And>e. (h, e) \<in> set xs \<Longrightarrow> le_slot e = s"
  shows "elem_set_slot h s xs = xs"
  using assms by (auto simp: elem_set_slot_def intro!: map_idI)

lemma lru_Push_hit:
  assumes inv: "lru_inv st r" and np: "\<not> bs_pinned (st s)"
    and own: "\<And>s'. s' \<in> lru_cands r \<Longrightarrow> bs_key (st s') = bs_key (st s) \<Longrightarrow> s' = s"
    and hit: "lru_map r (bs_key (st s)) = Some el"
  obtains e where "(el, e) \<in> set (lru_list r)" and "le_slot e = s"
    and "lru_Push st (Some s) r
      = r\<lparr>lru_list := filter (\<lambda>x. fst x \<noteq> el) (lru_list r) @ [(el, e)]\<rparr>"
proof -
  obtain e where e: "(el, e) \<in> set (lru_list r)" "le_key e = bs_key (st s)"
    using lru_hitE [OF inv hit] .
  have slot: "le_slot e = s"
    using own [OF lru_candsI [OF e(1)]] lru_invD(2) [OF inv e(1)] e(2) by simp
  have "elem_set_slot el s (lru_list r) = lru_list r"
    using lru_inv_same [OF inv e(1)] slot by (intro elem_set_slot_id) auto
  moreover have "filter (\<lambda>x. fst x = el) (lru_list r) = [(el, e)]"
    using inv e(1) by (intro filter_fst_single) (auto simp: lru_inv_def)
  ultimately have "lru_Push st (Some s) r
      = r\<lparr>lru_list := filter (\<lambda>x. fst x \<noteq> el) (lru_list r) @ [(el, e)]\<rparr>"
    using np hit by (simp add: lru_Push_def list_MoveToBack_def)
  with e slot that show thesis by blast
qed

lemma lru_Push_miss:
  assumes "\<not> bs_pinned (st s)" and "lru_map r (bs_key (st s)) = None"
  shows "lru_Push st (Some s) r
    = r\<lparr>lru_list := lru_list r @ [(lru_next r, \<lparr>le_key = bs_key (st s), le_slot = s\<rparr>)],
        lru_map := (lru_map r)(bs_key (st s) \<mapsto> lru_next r), lru_next := lru_next r + 1\<rparr>"
  using assms by (simp add: lru_Push_def Let_def)

lemma lru_remove_inv:
  assumes inv: "lru_inv st r" and el: "(el, e) \<in> set (lru_list r)"
  shows "lru_inv st (r\<lparr>lru_list := list_Remove el (lru_list r), lru_map := (lru_map r)(le_key e := None)\<rparr>)"
proof -
  have other: "h' \<noteq> el \<longleftrightarrow> le_key e' \<noteq> le_key e" if "(h', e') \<in> set (lru_list r)" for h' e'
    using lru_inv_same [OF inv el that] by auto
  have "distinct (map fst (list_Remove el (lru_list r)))"
    using inv by (simp add: lru_inv_def list_Remove_def distinct_map_filter)
  moreover have "\<exists>e'. (h, e') \<in> set (list_Remove el (lru_list r)) \<and> le_key e' = k"
    if k: "lru_map r k = Some h" "k \<noteq> le_key e" for h k
  proof -
    obtain e' where "(h, e') \<in> set (lru_list r)" "le_key e' = k"
      using lru_hitE [OF inv k(1)] .
    with k(2) other show ?thesis by (auto simp: list_Remove_def)
  qed
  ultimately show ?thesis
    using inv other unfolding lru_inv_def by (auto simp: list_Remove_def)
qed

lemma lru_remove_cands:
  assumes inv: "lru_inv st r" and el: "(el, e) \<in> set (lru_list r)"
  shows "lru_cands (r\<lparr>lru_list := list_Remove el (lru_list r), lru_map := m\<rparr>)
    = lru_cands r - {le_slot e}"
  using lru_inv_same [OF inv el] lru_invD(2) [OF inv] el
  by (auto simp: lru_cands_def lru_order_def list_Remove_def image_iff) metis+

lemma lru_inv_list_perm:
  "lru_inv st r \<Longrightarrow> set xs = set (lru_list r) \<Longrightarrow> distinct (map fst xs) \<Longrightarrow> lru_inv st (r\<lparr>lru_list := xs\<rparr>)"
  by (cases r, simp only: lru_inv_def LRUReplacer.simps simp_thms, blast)

lemma lru_push_contract:
  assumes inv: "lru_inv st r" and np: "\<not> bs_pinned (st s)"
    and own: "\<And>s'. s' \<in> lru_cands r \<Longrightarrow> bs_key (st s') = bs_key (st s) \<Longrightarrow> s' = s"
  shows "lru_inv st (lru_Push st (Some s) r)
    \<and> lru_order (lru_Push st (Some s) r) = filter (\<lambda>s'. s' \<noteq> s) (lru_order r) @ [s]"
proof (cases "lru_map r (bs_key (st s))")
  case (Some el)
  obtain e where e: "(el, e) \<in> set (lru_list r)" "le_slot e = s"
    and push: "lru_Push st (Some s) r
      = r\<lparr>lru_list := filter (\<lambda>x. fst x \<noteq> el) (lru_list r) @ [(el, e)]\<rparr>"
    by (rule lru_Push_hit [OF inv np own Some])
  have sets: "set (filter (\<lambda>x. fst x \<noteq> el) (lru_list r) @ [(el, e)]) = set (lru_list r)"
  proof -
    have "x = (el, e)" if "x \<in> set (lru_list r)" "fst x = el" for x
      using that lru_same_handle [OF inv e(1)] by (metis prod.collapse)
    with e(1) show ?thesis
      unfolding set_append set_filter list.set by blast
  qed
  have "distinct (map fst (lru_list r))"
    using inv by (simp add: lru_inv_def)
  from distinct_map_filter [OF this] have dist: "distinct (map fst (filter (\<lambda>x. fst x \<noteq> el) (lru_list r) @ [(el, e)]))"
    by auto
  have "lru_inv st (lru_Push st (Some s) r)"
    using lru_inv_list_perm [OF inv sets dist] by (simp add: push)
  moreover have "map (le_slot \<circ> snd) (filter (\<lambda>x. fst x \<noteq> el) (lru_list r))
      = filter (\<lambda>s'. s' \<noteq> s) (lru_order r)"
  proof -
    have "h \<noteq> el \<longleftrightarrow> le_slot e' \<noteq> s" if "(h, e') \<in> set (lru_list r)" for h e'
      using lru_inv_same [OF inv e(1) that] lru_invD(2) [OF inv that] lru_invD(2) [OF inv e(1)] e(2)
      by auto
    then have "filter (\<lambda>x. fst x \<noteq> el) (lru_list r) = filter (\<lambda>x. le_slot (snd x) \<noteq> s) (lru_list r)"
      by (intro filter_cong refl) auto
    then show ?thesis
      by (simp add: lru_order_def filter_map comp_def)
  qed
  ultimately show ?thesis
    by (simp add: push lru_order_def e(2))
next
  case None
  note push = lru_Push_miss [of st s r, OF np None]
  have fresh: "s \<notin> lru_cands r"
    using lru_miss_cands [OF inv None] by auto
  have nokey: "le_key e \<noteq> bs_key (st s)" if "(h, e) \<in> set (lru_list r)" for h e
    using lru_invD(1) [OF inv that] None by auto
  have "lru_inv st (lru_Push st (Some s) r)"
    unfolding push
  proof (rule lru_invI, goal_cases)
    case 1
    have "lru_next r \<notin> fst ` set (lru_list r)"
      using lru_invD(3) [OF inv] by fastforce
    then show ?case
      using inv by (simp add: lru_inv_def)
  next
    case (2 h e)
    then show ?case
      using nokey [of h e] lru_invD [OF inv, of h e] by auto
  next
    case (3 k h)
    then show ?case
      by (cases "k = bs_key (st s)") (auto elim!: lru_hitE [OF inv])
  qed
  moreover have "filter (\<lambda>s'. s' \<noteq> s) (lru_order r) = lru_order r"
    using fresh by (auto simp: lru_cands_def filter_id_conv)
  ultimately show ?thesis
    by (simp add: push lru_order_def)
qed

interpretation lru: replacer_contract lru_Push "\<lambda>st. lru_Delete" "\<lambda>st. lru_PickVictim" lru_cands lru_inv
proof unfold_locales
  fix st r s
  assume "lru_inv st r" "\<not> bs_pinned (st s)"
    and "\<And>s'. s' \<in> lru_cands r \<Longrightarrow> bs_key (st s') = bs_key (st s) \<Longrightarrow> s' = s"
  then show "lru_inv st (lru_Push st (Some s) r) \<and> lru_cands (lru_Push st (Some s) r) = insert s (lru_cands r)"
    using lru_push_contract [of st r s] by (auto simp: lru_cands_def)
next
  fix st r k
  assume inv: "lru_inv st r"
  show "lru_inv st (lru_Delete k r) \<and> lru_cands (lru_Delete k r) = {s \<in> lru_cands r. bs_key (st s) \<noteq> k}"
  proof (cases "lru_map r k")
    case None
    with inv show ?thesis
      using lru_miss_cands [OF inv None] by (auto simp: lru_Delete_def)
  next
    case (Some el)
    obtain e where e: "(el, e) \<in> set (lru_list r)" "le_key e = k"
      using lru_hitE [OF inv Some] .
    moreover have "lru_cands r - {le_slot e} = {s \<in> lru_cands r. bs_key (st s) \<noteq> k}"
      using lru_keys_inj [OF inv] lru_candsI [OF e(1)] lru_invD(2) [OF inv e(1)] e(2)
      by (auto dest: inj_onD)
    ultimately show ?thesis
      using lru_remove_inv [OF inv e(1)] lru_remove_cands [OF inv e(1)] Some
      by (simp add: lru_Delete_def)
  qed
next
  fix st r s r'
  assume inv: "lru_inv st r" and pick: "lru_PickVictim r = (Some s, r')"
  then obtain el e xs where l: "lru_list r = (el, e) # xs" and s: "s = le_slot e"
    by (auto simp: lru_PickVictim_def split: list.splits)
  have "(el, e) \<in> set (lru_list r)" by (simp add: l)
  from lru_remove_inv [OF inv this] lru_remove_cands [OF inv this] lru_candsI [OF this]
  show "s \<in> lru_cands r \<and> lru_cands r' = lru_cands r - {s} \<and> lru_inv st r'"
    using pick by (auto simp: lru_PickVictim_def l s)
next
  fix st r r'
  assume "lru_inv st r" "lru_PickVictim r = (None, r')"
  then show "lru_cands r = {} \<and> lru_cands r' = {} \<and> lru_inv st r'"
    by (auto simp: lru_PickVictim_def lru_cands_def lru_order_def split: list.splits)
next
  fix st r
  assume "lru_inv st r"
  then show "inj_on (\<lambda>s. bs_key (st s)) (lru_cands r)"
    by (rule lru_keys_inj)
qed (auto simp: lru_Push_def lru_cands_def intro: lru_inv_store [unfolded lru_cands_def]
    split: option.splits)

section \<open>Clock keeps the contract\<close>

definition clock_inv :: "slot_store \<Rightarrow> ClockReplacer \<Rightarrow> bool" where
  "clock_inv st c \<longleftrightarrow> distinct (map (\<lambda>s. bs_key (st s)) (ck_ring c))
     \<and> ck_inRing c = (\<lambda>s. bs_key (st s)) ` set (ck_ring c) \<and> ck_ref c \<subseteq> ck_inRing c"

definition clock_cands :: "ClockReplacer \<Rightarrow> slot_ref set" where
  "clock_cands c = set (ck_ring c)"

lemma clock_keys_inj: "clock_inv st c \<Longrightarrow> inj_on (\<lambda>s. bs_key (st s)) (clock_cands c)"
  by (simp add: clock_inv_def clock_cands_def distinct_map)

lemma set_remove_at:
  assumes "i < length xs" and "distinct xs"
  shows "set (remove_at i xs) = set xs - {xs ! i}"
proof -
  have "xs = take i xs @ xs ! i # drop (Suc i) xs"
    using assms(1) by (rule id_take_nth_drop)
  then have "set xs = insert (xs ! i) (set (remove_at i xs))" and "xs ! i \<notin> set (remove_at i xs)"
    using assms(2) unfolding remove_at_def
    by (metis Un_insert_right list.simps(15) set_append, metis UnE distinct.simps(2) distinct_append
        disjoint_iff list.set_intros(1) set_append)
  then show ?thesis by auto
qed

lemma distinct_remove_at: "distinct xs \<Longrightarrow> distinct (remove_at i xs)"
  by (auto simp: remove_at_def set_take_disj_set_drop_if_distinct)

lemma map_remove_at: "map f (remove_at i xs) = remove_at i (map f xs)"
  by (simp add: remove_at_def take_map drop_map)

lemma find_key_Some:
  "find_key st k i ss = Some j \<Longrightarrow> i \<le> j \<and> j - i < length ss \<and> bs_key (st (ss ! (j - i))) = k"
proof (induction ss arbitrary: i)
  case (Cons s ss)
  show ?case
  proof (cases "bs_key (st s) = k")
    case False
    with Cons have IH: "Suc i \<le> j" "j - Suc i < length ss" "bs_key (st (ss ! (j - Suc i))) = k"
      by auto
    from IH(1) have "j - i = Suc (j - Suc i)" by linarith
    with IH show ?thesis by simp
  qed (use Cons.prems in auto)
qed simp

lemma find_key_None: "find_key st k i ss = None \<Longrightarrow> s \<in> set ss \<Longrightarrow> bs_key (st s) \<noteq> k"
  by (induction ss arbitrary: i) (auto split: if_splits)

lemma image_filter_neq: "f ` {x \<in> A. f x \<noteq> k} = f ` A - {k}"
  by auto

lemma clock_remove:
  assumes inv: "clock_inv st c" and i: "i < length (ck_ring c)"
  shows "set (remove_at i (ck_ring c)) = {s \<in> set (ck_ring c). bs_key (st s) \<noteq> bs_key (st (ck_ring c ! i))}"
    and "(\<lambda>s. bs_key (st s)) ` set (remove_at i (ck_ring c))
      = ck_inRing c - {bs_key (st (ck_ring c ! i))}"
    and "distinct (map (\<lambda>s. bs_key (st s)) (remove_at i (ck_ring c)))"
    and "set (remove_at i (ck_ring c)) = set (ck_ring c) - {ck_ring c ! i}"
proof -
  have inj: "inj_on (\<lambda>s. bs_key (st s)) (set (ck_ring c))"
    using clock_keys_inj [OF inv] by (simp add: clock_cands_def)
  have set: "set (remove_at i (ck_ring c)) = set (ck_ring c) - {ck_ring c ! i}"
    using inv i by (intro set_remove_at) (auto simp: clock_inv_def distinct_map)
  show "set (remove_at i (ck_ring c)) = set (ck_ring c) - {ck_ring c ! i}" by (rule set)
  show "set (remove_at i (ck_ring c)) = {s \<in> set (ck_ring c). bs_key (st s) \<noteq> bs_key (st (ck_ring c ! i))}"
    unfolding set using inj_onD [OF inj _ _ nth_mem [OF i]] by blast
  then show "(\<lambda>s. bs_key (st s)) ` set (remove_at i (ck_ring c))
      = ck_inRing c - {bs_key (st (ck_ring c ! i))}"
    using inv by (simp only: clock_inv_def image_filter_neq)
  show "distinct (map (\<lambda>s. bs_key (st s)) (remove_at i (ck_ring c)))"
    using inv by (simp add: map_remove_at distinct_remove_at clock_inv_def)
qed

lemma clock_Pick_contract:
  assumes "clock_inv st c"
  shows "case clock_PickVictim st c of
      (None, c') \<Rightarrow> clock_cands c = {} \<and> clock_cands c' = {} \<and> clock_inv st c'
    | (Some s, c') \<Rightarrow> s \<in> clock_cands c \<and> clock_cands c' = clock_cands c - {s} \<and> clock_inv st c'"
  using assms
proof (induction st c rule: clock_PickVictim.induct)
  case (1 st c)
  define h where "h = (if ck_head c \<ge> length (ck_ring c) then 0 else ck_head c)"
  show ?case
  proof (cases "ck_ring c = []")
    case True
    with "1.prems" show ?thesis by (simp add: clock_PickVictim.simps [of st c] clock_cands_def)
  next
    case False
    then have h: "h < length (ck_ring c)" by (simp add: h_def)
    let ?s = "ck_ring c ! h"
    show ?thesis
    proof (cases "bs_key (st ?s) \<in> ck_ref c")
      case True
      let ?c = "c\<lparr>ck_head := Suc h, ck_ref := ck_ref c - {bs_key (st ?s)}\<rparr>"
      have step: "clock_PickVictim st c = clock_PickVictim st ?c"
        using False True by (subst clock_PickVictim.simps) (simp add: Let_def h_def)
      have "clock_inv st ?c" using "1.prems" by (auto simp: clock_inv_def)
      from "1.IH" [OF False h_def refl refl True this]
      show ?thesis
        unfolding step by (simp add: clock_cands_def split: prod.splits option.splits)
    next
      case noref: False
      let ?c = "c\<lparr>ck_inRing := ck_inRing c - {bs_key (st ?s)}, ck_ring := remove_at h (ck_ring c),
          ck_head := (if h \<ge> length (remove_at h (ck_ring c)) then 0 else h)\<rparr>"
      note R = clock_remove [OF "1.prems" h]
      have step: "clock_PickVictim st c = (Some ?s, ?c)"
        using False noref by (subst clock_PickVictim.simps) (simp add: Let_def h_def)
      have "clock_inv st ?c"
        using "1.prems" noref R(2,3) unfolding clock_inv_def by auto
      moreover have "clock_cands ?c = clock_cands c - {?s}"
        by (simp add: clock_cands_def R(4))
      ultimately show ?thesis
        using h by (simp add: step clock_cands_def)
    qed
  qed
qed

interpretation clock: replacer_contract clock_Push clock_Delete clock_PickVictim clock_cands clock_inv
proof unfold_locales
  fix st c s
  assume inv: "clock_inv st c" and np: "\<not> bs_pinned (st s)"
    and own: "\<And>s'. s' \<in> clock_cands c \<Longrightarrow> bs_key (st s') = bs_key (st s) \<Longrightarrow> s' = s"
  show "clock_inv st (clock_Push st (Some s) c)
    \<and> clock_cands (clock_Push st (Some s) c) = insert s (clock_cands c)"
  proof (cases "bs_key (st s) \<in> ck_inRing c")
    case True
    then have "s \<in> clock_cands c"
      using inv own by (auto simp: clock_inv_def clock_cands_def)
    with inv np True show ?thesis
      by (auto simp: clock_Push_def Let_def clock_inv_def clock_cands_def)
  next
    case False
    with inv np show ?thesis
      by (auto simp: clock_Push_def Let_def clock_inv_def clock_cands_def)
  qed
next
  fix st c k
  assume inv: "clock_inv st c"
  show "clock_inv st (clock_Delete st k c)
    \<and> clock_cands (clock_Delete st k c) = {s \<in> clock_cands c. bs_key (st s) \<noteq> k}"
  proof (cases "find_key st k 0 (ck_ring c)")
    case None
    then have "k \<notin> ck_inRing c"
      using inv find_key_None [OF None] by (auto simp: clock_inv_def)
    with inv find_key_None [OF None] show ?thesis
      by (auto simp: clock_Delete_def clock_cands_def)
  next
    case (Some i)
    then have i: "i < length (ck_ring c)" and k: "bs_key (st (ck_ring c ! i)) = k"
      using find_key_Some [OF Some] by auto
    have "k \<in> ck_inRing c"
      using inv i k by (auto simp: clock_inv_def)
    with Some clock_remove [OF inv i] inv show ?thesis
      unfolding k by (auto simp: clock_Delete_def Let_def clock_inv_def clock_cands_def)
  qed
next
  fix st c s c'
  assume "clock_inv st c" "clock_PickVictim st c = (Some s, c')"
  then show "s \<in> clock_cands c \<and> clock_cands c' = clock_cands c - {s} \<and> clock_inv st c'"
    using clock_Pick_contract by fastforce
next
  fix st c c'
  assume "clock_inv st c" "clock_PickVictim st c = (None, c')"
  then show "clock_cands c = {} \<and> clock_cands c' = {} \<and> clock_inv st c'"
    using clock_Pick_contract by fastforce
next
  fix st c
  assume "clock_inv st c"
  then show "inj_on (\<lambda>s. bs_key (st s)) (clock_cands c)"
    by (rule clock_keys_inj)
next
  fix st st' :: slot_store and c
  assume "clock_inv st c" and "\<And>s. s \<in> clock_cands c \<Longrightarrow> bs_key (st' s) = bs_key (st s)"
  then show "clock_inv st' c"
    unfolding clock_inv_def clock_cands_def by (metis (no_types, lifting) image_cong map_cong)
qed (auto simp: clock_Push_def clock_cands_def split: option.splits)

section \<open>The dispatching replacer keeps the contract\<close>

fun rep_inv :: "slot_store \<Rightarrow> Replacer \<Rightarrow> bool" where
  "rep_inv st (LRU r) = lru_inv st r"
| "rep_inv st (Clock c) = clock_inv st c"

fun rep_cands :: "Replacer \<Rightarrow> slot_ref set" where
  "rep_cands (LRU r) = lru_cands r"
| "rep_cands (Clock c) = clock_cands c"

interpretation rep: replacer_contract rep_Push rep_Delete rep_PickVictim rep_cands rep_inv
proof unfold_locales
  fix st r
  assume "rep_inv st r"
  then show "inj_on (\<lambda>s. bs_key (st s)) (rep_cands r)"
    by (cases r) (simp_all add: lru.keys_inj clock.keys_inj)
next
  fix st r
  assume "rep_inv st r"
  then show "finite (rep_cands r)"
    by (cases r) (auto intro: lru.cands_finite clock.cands_finite)
next
  fix slot :: "slot_ref option" and st :: slot_store and r
  assume "slot = None \<or> bs_pinned (st (the slot))"
  then show "rep_Push st slot r = r"
    by (cases r) (simp_all add: lru.push_ignored clock.push_ignored)
next
  fix st r s
  assume "rep_inv st r" "\<not> bs_pinned (st s)"
    and "\<And>s'. s' \<in> rep_cands r \<Longrightarrow> bs_key (st s') = bs_key (st s) \<Longrightarrow> s' = s"
  then show "rep_inv st (rep_Push st (Some s) r) \<and> rep_cands (rep_Push st (Some s) r) = insert s (rep_cands r)"
    by (cases r) (simp_all add: lru.push_cands clock.push_cands)
next
  fix st r k
  assume "rep_inv st r"
  then show "rep_inv st (rep_Delete st k r) \<and> rep_cands (rep_Delete st k r) = {s \<in> rep_cands r. bs_key (st s) \<noteq> k}"
    by (cases r) (simp_all add: lru.del_cands clock.del_cands)
next
  fix st r r'
  assume "rep_inv st r" "rep_PickVictim st r = (None, r')"
  then show "rep_cands r = {} \<and> rep_cands r' = {} \<and> rep_inv st r'"
    by (cases r) (auto split: prod.splits dest: lru.pick_None clock.pick_None)
next
  fix st r s r'
  assume "rep_inv st r" "rep_PickVictim st r = (Some s, r')"
  then show "s \<in> rep_cands r \<and> rep_cands r' = rep_cands r - {s} \<and> rep_inv st r'"
    by (cases r) (auto split: prod.splits dest: lru.pick_Some clock.pick_Some)
next
  fix st st' :: slot_store and r
  assume "rep_inv st r" and "\<And>s. s \<in> rep_cands r \<Longrightarrow> bs_key (st' s) = bs_key (st s)"
  then show "rep_inv st' r"
    by (cases r) (auto intro: lru.inv_store clock.inv_store)
qed

lemma lru_inv_new: "lru_inv st NewLRUReplacer"
  by (simp add: lru_inv_def NewLRUReplacer_def)

lemma clock_inv_new: "clock_inv st NewClockReplacer"
  by (simp add: clock_inv_def NewClockReplacer_def)

section \<open>Which victim\<close>

lemma lru_pick_order:
  assumes "lru_inv st r"
  shows "lru_PickVictim r = (case lru_order r of [] \<Rightarrow> (None, r)
    | s # ss \<Rightarrow> (Some s, snd (lru_PickVictim r)))"
    and "lru_order (snd (lru_PickVictim r)) = tl (lru_order r)"
proof -
  have "lru_PickVictim r = (case lru_order r of [] \<Rightarrow> (None, r)
      | s # ss \<Rightarrow> (Some s, snd (lru_PickVictim r)))
    \<and> lru_order (snd (lru_PickVictim r)) = tl (lru_order r)"
  proof (cases "lru_list r")
    case Nil
    then show ?thesis by (simp add: lru_PickVictim_def lru_order_def)
  next
    case (Cons x xs)
    have "distinct (map fst (x # xs))"
      using assms Cons by (simp add: lru_inv_def)
    then have "\<forall>y \<in> set xs. fst y \<noteq> fst x"
      by (metis distinct.simps(2) image_eqI list.simps(9) list.set_map)
    then have "filter (\<lambda>y. fst y \<noteq> fst x) xs = xs"
      by (simp add: filter_id_conv)
    then show ?thesis
      using Cons by (cases x) (simp add: lru_PickVictim_def lru_order_def list_Remove_def)
  qed
  then show "lru_PickVictim r = (case lru_order r of [] \<Rightarrow> (None, r)
    | s # ss \<Rightarrow> (Some s, snd (lru_PickVictim r)))"
    and "lru_order (snd (lru_PickVictim r)) = tl (lru_order r)" by blast+
qed

lemma lru_delete_order:
  assumes inv: "lru_inv st r"
  shows "lru_order (lru_Delete k r) = filter (\<lambda>s. bs_key (st s) \<noteq> k) (lru_order r)"
proof (cases "lru_map r k")
  case None
  then have "filter (\<lambda>s. bs_key (st s) \<noteq> k) (lru_order r) = lru_order r"
    using lru_miss_cands [OF inv None] by (simp add: lru_cands_def filter_id_conv)
  then show ?thesis using None by (simp add: lru_Delete_def)
next
  case (Some el)
  have "fst x = el \<longleftrightarrow> bs_key (st (le_slot (snd x))) = k" if "x \<in> set (lru_list r)" for x
    using that lru_invD(1,2) [OF inv, of "fst x" "snd x"] Some lru_hitE [OF inv Some] lru_inv_same [OF inv]
    by (metis option.inject prod.collapse)
  then have "filter (\<lambda>x. fst x \<noteq> el) (lru_list r)
      = filter (\<lambda>x. bs_key (st (le_slot (snd x))) \<noteq> k) (lru_list r)"
    by (intro filter_cong) auto
  then show ?thesis
    using Some by (simp add: lru_Delete_def lru_order_def list_Remove_def filter_map o_def)
qed

text \<open>The ring as the clock hand meets it.\<close>

definition clock_head :: "ClockReplacer \<Rightarrow> nat" where
  "clock_head c = (if ck_head c \<ge> length (ck_ring c) then 0 else ck_head c)"

definition clock_sweep :: "ClockReplacer \<Rightarrow> slot_ref list" where
  "clock_sweep c = drop (clock_head c) (ck_ring c) @ take (clock_head c) (ck_ring c)"

lemma clock_sweep_step:
  assumes "ck_ring c \<noteq> []"
  shows "clock_sweep c = ck_ring c ! clock_head c # tl (clock_sweep c)"
    and "clock_sweep (c\<lparr>ck_head := Suc (clock_head c), ck_ref := R\<rparr>)
      = tl (clock_sweep c) @ [ck_ring c ! clock_head c]"
proof -
  have h: "clock_head c < length (ck_ring c)"
    using assms by (simp add: clock_head_def)
  then have d: "drop (clock_head c) (ck_ring c) = ck_ring c ! clock_head c # drop (Suc (clock_head c)) (ck_ring c)"
    by (simp add: Cons_nth_drop_Suc)
  then show "clock_sweep c = ck_ring c ! clock_head c # tl (clock_sweep c)"
    by (simp add: clock_sweep_def)
  show "clock_sweep (c\<lparr>ck_head := Suc (clock_head c), ck_ref := R\<rparr>)
      = tl (clock_sweep c) @ [ck_ring c ! clock_head c]"
  proof (cases "Suc (clock_head c) = length (ck_ring c)")
    case True
    then have "ck_ring c = take (clock_head c) (ck_ring c) @ [ck_ring c ! clock_head c]"
      using d by (metis append_take_drop_id drop_all order_refl)
    then show ?thesis
      using True d by (simp add: clock_sweep_def clock_head_def [of "c\<lparr>ck_head := _, ck_ref := _\<rparr>"])
  next
    case False
    then show ?thesis
      using h d by (simp add: clock_sweep_def clock_head_def [of "c\<lparr>ck_head := _, ck_ref := _\<rparr>"]
          take_Suc_conv_app_nth)
  qed
qed

lemma clock_sweep_set: "set (clock_sweep c) = set (ck_ring c)"
  unfolding clock_sweep_def by (metis append_take_drop_id set_append Un_commute)

lemma clock_sweep_distinct: "distinct (map f (ck_ring c)) \<Longrightarrow> distinct (map f (clock_sweep c))"
  unfolding clock_sweep_def
  by (metis append_take_drop_id distinct_append distinct_map map_append Int_commute)

lemma find_append_Some: "find P xs = Some x \<Longrightarrow> find P (xs @ ys) = Some x"
  by (induction xs) auto

lemma clock_second_chance:
  assumes "distinct (map (\<lambda>s. bs_key (st s)) (ck_ring c))"
    and "find (\<lambda>s. bs_key (st s) \<notin> ck_ref c) (clock_sweep c) = Some s"
  shows "fst (clock_PickVictim st c) = Some s"
  using assms
proof (induction st c rule: clock_PickVictim.induct)
  case (1 st c)
  have ne: "ck_ring c \<noteq> []"
    using "1.prems"(2) by (auto simp: clock_sweep_def clock_head_def)
  let ?s = "ck_ring c ! clock_head c"
  let ?c = "c\<lparr>ck_head := Suc (clock_head c), ck_ref := ck_ref c - {bs_key (st ?s)}\<rparr>"
  note sw = clock_sweep_step [OF ne]
  show ?case
  proof (cases "bs_key (st ?s) \<in> ck_ref c")
    case True
    have f: "find (\<lambda>s. bs_key (st s) \<notin> ck_ref c) (tl (clock_sweep c)) = Some s"
      using "1.prems"(2) True by (subst (asm) sw(1)) simp
    have "distinct (map (\<lambda>s. bs_key (st s)) (clock_sweep c))"
      using clock_sweep_distinct [OF "1.prems"(1)] .
    then have "bs_key (st ?s) \<notin> (\<lambda>s. bs_key (st s)) ` set (tl (clock_sweep c))"
      by (subst (asm) sw(1)) simp
    then have "bs_key (st x) \<noteq> bs_key (st ?s)" if "x \<in> set (tl (clock_sweep c))" for x
      using that by (metis image_eqI)
    then have "(bs_key (st x) \<notin> ck_ref ?c) = (bs_key (st x) \<notin> ck_ref c)"
      if "x \<in> set (tl (clock_sweep c))" for x
      using that by simp
    then have "find (\<lambda>s. bs_key (st s) \<notin> ck_ref ?c) (tl (clock_sweep c))
        = find (\<lambda>s. bs_key (st s) \<notin> ck_ref c) (tl (clock_sweep c))"
      by (rule find_cong [OF refl])
    then have "find (\<lambda>s. bs_key (st s) \<notin> ck_ref ?c) (clock_sweep ?c) = Some s"
      using f unfolding sw(2) by (simp add: find_append_Some)
    then have "fst (clock_PickVictim st ?c) = Some s"
      using "1.prems"(1) ne True by (intro "1.IH") (simp_all add: clock_head_def)
    then show ?thesis
      using ne True by (subst clock_PickVictim.simps) (simp add: Let_def clock_head_def)
  next
    case False
    then have "s = ?s"
      using "1.prems"(2) by (subst (asm) sw(1)) simp
    then show ?thesis
      using ne False by (subst clock_PickVictim.simps) (simp add: Let_def clock_head_def)
  qed
qed

section \<open>Properties\<close>

lemma filter_handle: "distinct (map fst xs) \<Longrightarrow> (el, e) \<in> set xs \<Longrightarrow> filter (\<lambda>x. fst x = el) xs = [(el, e)]"
  by (induction xs) (force simp: filter_empty_conv)+

lemma lru_push_order:
  assumes inv: "lru_inv st r" and np: "\<not> bs_pinned (st s)"
  shows "lru_order (lru_Push st (Some s) r) = filter (\<lambda>s'. bs_key (st s') \<noteq> bs_key (st s)) (lru_order r) @ [s]"
proof (cases "lru_map r (bs_key (st s))")
  case None
  then show ?thesis
    using lru_delete_order [OF inv, of "bs_key (st s)"] np by (simp add: lru_Push_def lru_Delete_def lru_order_def Let_def)
next
  case (Some el)
  obtain e where e: "(el, e) \<in> set (lru_list r)" using inv Some unfolding lru_inv_def by blast
  have d: "distinct (map fst (lru_list r))" using inv by (simp add: lru_inv_def)
  have others: "filter (\<lambda>x. fst x \<noteq> el) (elem_set_slot el s xs) = filter (\<lambda>x. fst x \<noteq> el) xs" for xs
    by (induction xs) (auto simp: elem_set_slot_def split: if_splits)
  have hit: "filter (\<lambda>x. fst x = el) (elem_set_slot el s xs) = elem_set_slot el s (filter (\<lambda>x. fst x = el) xs)" for xs
    by (induction xs) (auto simp: elem_set_slot_def split: if_splits)
  show ?thesis
    using lru_delete_order [OF inv, of "bs_key (st s)"] np Some others [of "lru_list r"] hit [of "lru_list r"] filter_handle [OF d e]
    by (simp add: lru_Push_def lru_Delete_def lru_order_def list_Remove_def list_MoveToBack_def Let_def) (simp add: elem_set_slot_def)
qed

text \<open>C23: the LRU replacer is a queue ordered by recency: pushing a slot that is not pinned takes out
  the slot that is queued under its key, if there is one, and makes the pushed slot the most recent one;
  pushing a pinned slot, or none, changes nothing; deleting a key takes its slot out and keeps the order of the
  others, and the victim is the least recently pushed slot, none only when the replacer is empty.\<close>

theorem lru_recency_queue:
  assumes "lru_inv st r"
  shows "fst (lru_PickVictim r) = (case lru_order r of [] \<Rightarrow> None | s # _ \<Rightarrow> Some s)
    \<and> lru_order (snd (lru_PickVictim r)) = tl (lru_order r)
    \<and> lru_order (lru_Delete k r) = filter (\<lambda>s. bs_key (st s) \<noteq> k) (lru_order r)
    \<and> lru_Push st None r = r
    \<and> (if bs_pinned (st s) then lru_Push st (Some s) r = r
       else lru_order (lru_Push st (Some s) r) = filter (\<lambda>s'. bs_key (st s') \<noteq> bs_key (st s)) (lru_order r) @ [s])"
proof -
  have "fst (lru_PickVictim r) = (case lru_order r of [] \<Rightarrow> None | s # _ \<Rightarrow> Some s)"
    using lru_pick_order(1) [OF assms] by (metis (no_types, lifting) fst_conv list.case_eq_if)
  moreover have "lru_Push st None r = r" and "bs_pinned (st s) \<Longrightarrow> lru_Push st (Some s) r = r"
    by (simp_all add: lru_Push_def)
  ultimately show ?thesis
    using lru_pick_order(2) [OF assms] lru_delete_order [OF assms] lru_push_order [OF assms, of s] by simp
qed

definition sample_store :: slot_store where
  "sample_store s = NewBufferSlot (NewPageKey ''f'' (int s)) \<lparr>hp_pageID = int s, hp_buf = []\<rparr>"

definition sample_lru :: LRUReplacer where
  "sample_lru = fold (\<lambda>s. lru_Push sample_store (Some s)) [0, 1, 2, 0] NewLRUReplacer"

theorem lru_recency_queue_witness: "fst (lru_PickVictim sample_lru) = Some 1"
proof -
  have step: "lru_inv sample_store (lru_Push sample_store (Some s) r)" if "lru_inv sample_store r" for s r
  proof -
    have "\<not> bs_pinned (sample_store s)" and "\<And>s'. bs_key (sample_store s') = bs_key (sample_store s) \<Longrightarrow> s' = s"
      by (simp_all add: sample_store_def NewBufferSlot_def NewPageKey_def)
    then show ?thesis using lru_push_contract [OF that] by blast
  qed
  have inv: "lru_inv sample_store sample_lru"
    by (simp add: sample_lru_def step lru_inv_new)
  have "lru_order sample_lru = [1, 2, 0]"
    by (simp add: sample_lru_def NewLRUReplacer_def lru_Push_def sample_store_def NewBufferSlot_def
        NewPageKey_def lru_order_def list_MoveToBack_def elem_set_slot_def Let_def)
  then show ?thesis
    using lru_recency_queue [OF inv] by simp
qed

text \<open>The clock gives every referenced page a second chance: as long as some page in the ring was
  not referenced, the victim is the first such page the hand meets, and no referenced page is
  evicted.\<close>

lemma clock_victim_unreferenced:
  assumes "clock_inv st c" and "\<exists>s \<in> clock_cands c. bs_key (st s) \<notin> ck_ref c"
  shows "fst (clock_PickVictim st c) = find (\<lambda>s. bs_key (st s) \<notin> ck_ref c) (clock_sweep c)
    \<and> (\<exists>s. fst (clock_PickVictim st c) = Some s \<and> bs_key (st s) \<notin> ck_ref c)"
proof -
  have "find (\<lambda>s. bs_key (st s) \<notin> ck_ref c) (clock_sweep c) \<noteq> None"
    using assms(2) by (auto simp: find_None_iff clock_sweep_set clock_cands_def)
  then obtain s where s: "find (\<lambda>s. bs_key (st s) \<notin> ck_ref c) (clock_sweep c) = Some s"
    by blast
  then have "bs_key (st s) \<notin> ck_ref c"
    by (auto simp: find_Some_iff)
  then show ?thesis
    using s clock_second_chance [OF _ s] assms(1) by (simp add: clock_inv_def)
qed

end
