(* ===== verification/PageFile.thy ===== *)
theory PageFile
  imports Page
begin

text \<open>
  The page file manager of \<open>internal/core/memory/manager/heap_page_file_manager.go\<close> over a
  file system: a map from paths to byte sequences, with a predicate that says which operating
  system calls fail at present (the environment may change it at any time). \<open>WriteAt\<close> beyond the
  end of a file fills the gap with zeros. A write that the operating system refuses leaves the
  bytes of the file as they were.
\<close>

datatype fs_op = FsMkdir | FsOpen | FsStat | FsRead | FsWrite

record Disk =
  fs_files :: "string \<rightharpoonup> bytes"
  fs_fault :: "string \<Rightarrow> fs_op \<Rightarrow> bool"

definition write_at :: "nat \<Rightarrow> bytes \<Rightarrow> bytes \<Rightarrow> bytes" where
  "write_at off bs f = put_at off bs (f @ replicate (off + length bs - length f) 0)"

definition page_offset :: "int \<Rightarrow> nat" where
  "page_offset pid = nat pid * PageSize"

definition fm_Write :: "HeapPage option \<Rightarrow> string \<Rightarrow> (Disk, unit) prog" where
  "fm_Write pg path d =
     (if path = '''' then (Err MErrPathEmpty, d)
      else case pg of None \<Rightarrow> (Err MErrPageNil, d) | Some p \<Rightarrow>
        if hp_pageID p < 0 then (Err (MErrInvalidPageID (hp_pageID p)), d)
        else case page_IsValid p of Panic \<Rightarrow> (Panic, d) | Err e \<Rightarrow> (Err e, d) | Ok valid \<Rightarrow>
          if \<not> valid then (Err MErrInvalidSignature, d)
          else if fs_fault d path FsMkdir then (Err (MErrMkdir path), d)
          else if fs_fault d path FsOpen then (Err (MErrOpen path), d)
          else let f = (case fs_files d path of None \<Rightarrow> [] | Some f \<Rightarrow> f);
                   d1 = d\<lparr>fs_files := (fs_files d)(path \<mapsto> f)\<rparr>
               in if fs_fault d path FsWrite then (Err (MErrWrite (hp_pageID p)), d1)
                  else (Ok (), d1\<lparr>fs_files := (fs_files d1)
                         (path \<mapsto> write_at (page_offset (hp_pageID p)) (hp_buf p) f)\<rparr>))"

definition fm_Read :: "int \<Rightarrow> string \<Rightarrow> Disk \<Rightarrow> HeapPage result" where
  "fm_Read pid path d =
     (if path = '''' then Err MErrPathEmpty
      else if pid < 0 then Err (MErrInvalidPageID pid)
      else case fs_files d path of None \<Rightarrow> Err (MErrOpen path) | Some f \<Rightarrow>
        if fs_fault d path FsOpen then Err (MErrOpen path)
        else if fs_fault d path FsStat then Err (MErrOpen path)
        else if page_offset pid + PageSize > length f then Err (MErrOutOfBounds pid (length f))
        else if fs_fault d path FsRead then Err (MErrWrite pid)
        else case NewHeapPageFromBuffer pid (Some (slice (page_offset pid) PageSize f)) of
               Ok p \<Rightarrow> Ok p | Err e \<Rightarrow> Err MErrInvalidSignature | Panic \<Rightarrow> Panic)"

section \<open>What is stored\<close>

text \<open>The content of a page in a file, if the file holds the page and it has the signature.\<close>

definition valid_buf :: "bytes \<Rightarrow> bool" where
  "valid_buf b \<longleftrightarrow> length b = PageSize \<and> un32 (slice signatureOff 4 b) = Signature"

definition file_page :: "bytes \<Rightarrow> int \<Rightarrow> bytes option" where
  "file_page f pid =
     (if 0 \<le> pid \<and> page_offset pid + PageSize \<le> length f \<and> valid_buf (slice (page_offset pid) PageSize f)
      then Some (slice (page_offset pid) PageSize f) else None)"

definition stored_page :: "Disk \<Rightarrow> string \<Rightarrow> int \<Rightarrow> bytes option" where
  "stored_page d path pid = Option.bind (fs_files d path) (\<lambda>f. file_page f pid)"

text \<open>Files consist of whole pages: what \<open>fm_Write\<close> keeps.\<close>

definition disk_inv :: "Disk \<Rightarrow> bool" where
  "disk_inv d \<longleftrightarrow> (\<forall>path f. fs_files d path = Some f \<longrightarrow> PageSize dvd length f)"

definition healthy :: "Disk \<Rightarrow> bool" where
  "healthy d \<longleftrightarrow> (\<forall>path op. \<not> fs_fault d path op)"

lemma PageSize_pos [simp]: "0 < PageSize" "PageSize \<noteq> 0"
  by (simp_all add: PageSize_def)

lemma valid_buf_IsValid: "valid_buf (hp_buf p) \<Longrightarrow> page_IsValid p = Ok True"
  by (simp add: valid_buf_def page_IsValid_def buf_ops page_consts)

lemma page_inv_valid_buf: "page_inv p \<Longrightarrow> valid_buf (hp_buf p)"
  by (simp add: page_inv_def valid_buf_def)

lemma NewHeapPageFromBuffer_valid:
  "length b = PageSize \<Longrightarrow> NewHeapPageFromBuffer pid (Some b)
    = (if valid_buf b then Ok \<lparr>hp_pageID = pid, hp_buf = b\<rparr> else Err PErrInvalidSignature)"
  by (simp add: NewHeapPageFromBuffer_def page_IsValid_def buf_ops valid_buf_def page_consts)

lemma fm_Read_OkD:
  assumes "fm_Read pid path d = Ok p"
  shows "stored_page d path pid = Some (hp_buf p)" and "hp_pageID p = pid" and "0 \<le> pid"
    and "valid_buf (hp_buf p)"
proof -
  obtain f where f: "fs_files d path = Some f" and pid: "0 \<le> pid"
    and room: "page_offset pid + PageSize \<le> length f"
    and new: "NewHeapPageFromBuffer pid (Some (slice (page_offset pid) PageSize f)) = Ok p"
    using assms by (auto simp: fm_Read_def split: if_splits option.splits result.splits)
  have len: "length (slice (page_offset pid) PageSize f) = PageSize"
    using room by simp
  from new have "valid_buf (slice (page_offset pid) PageSize f)"
      "p = \<lparr>hp_pageID = pid, hp_buf = slice (page_offset pid) PageSize f\<rparr>"
    by (simp_all add: NewHeapPageFromBuffer_valid [OF len] split: if_splits)
  then show "stored_page d path pid = Some (hp_buf p)" "hp_pageID p = pid" "0 \<le> pid"
      "valid_buf (hp_buf p)"
    using f pid room by (simp_all add: stored_page_def file_page_def)
qed

lemma fm_Read_stored:
  assumes "healthy d" and "path \<noteq> ''''" and "stored_page d path pid = Some b"
  shows "fm_Read pid path d = Ok \<lparr>hp_pageID = pid, hp_buf = b\<rparr>"
proof -
  obtain f where f: "fs_files d path = Some f" "0 \<le> pid" "page_offset pid + PageSize \<le> length f"
      "valid_buf (slice (page_offset pid) PageSize f)" "b = slice (page_offset pid) PageSize f"
    using assms(3) by (auto simp: stored_page_def file_page_def split: if_splits bind_splits)
  then show ?thesis
    using assms(1,2) by (simp add: fm_Read_def healthy_def NewHeapPageFromBuffer_valid)
qed

lemma fm_Read_not_Panic: "fm_Read pid path d \<noteq> Panic"
proof -
  have "NewHeapPageFromBuffer pid (Some (slice (page_offset pid) PageSize f)) \<noteq> Panic"
    if "page_offset pid + PageSize \<le> length f" for f
    using that by (simp add: NewHeapPageFromBuffer_valid)
  then show ?thesis
    by (auto simp: fm_Read_def not_less split: option.splits result.splits)
qed

section \<open>Writing a page\<close>

lemma length_write_at [simp]: "length (write_at off bs f) = max (length f) (off + length bs)"
  by (simp add: write_at_def max_def)

lemma slice_write_at_same: "n = length bs \<Longrightarrow> slice off n (write_at off bs f) = bs"
  by (simp add: write_at_def buf_simps)

lemma slice_write_at_other:
  assumes "o2 + n \<le> off \<or> off + length bs \<le> o2"
  shows "slice o2 n (write_at off bs f) = slice o2 n (f @ replicate (off + length bs - length f) 0)"
  unfolding write_at_def using assms by (intro slice_put_at_other) simp_all

lemma page_offset_disjoint:
  assumes "0 \<le> pid" and "0 \<le> pid'" and "pid' \<noteq> pid"
  shows "page_offset pid' + PageSize \<le> page_offset pid \<or> page_offset pid + PageSize \<le> page_offset pid'"
proof -
  have "Suc (nat pid') \<le> nat pid \<or> Suc (nat pid) \<le> nat pid'"
    using assms by linarith
  then show ?thesis
    unfolding page_offset_def by (metis add.commute mult_Suc mult_le_mono1)
qed

lemma zero_page_invalid: "\<not> valid_buf (replicate n 0)"
proof
  assume v: "valid_buf (replicate n 0)"
  then have n: "n = 8192"
    by (simp add: valid_buf_def PageSize_def)
  then have "un32 (replicate 4 0) = Signature"
    using v by (simp add: valid_buf_def signatureOff_def slice_def PageSize_def)
  moreover have "un32 (replicate 4 0) = 0"
    by (simp add: un32_def numeral_eq_Suc)
  ultimately show False
    by (simp add: Signature_def)
qed

lemma file_page_write_same:
  assumes "valid_buf b" and "0 \<le> pid"
  shows "file_page (write_at (page_offset pid) b f) pid = Some b"
  using assms by (simp add: file_page_def valid_buf_def slice_write_at_same)

lemma file_page_write_other:
  assumes "PageSize dvd length f" and "length b = PageSize" and "0 \<le> pid" and "pid' \<noteq> pid"
  shows "file_page (write_at (page_offset pid) b f) pid' = file_page f pid'"
proof (cases "0 \<le> pid'")
  case True
  let ?o = "page_offset pid'"
  have sl: "slice ?o PageSize (write_at (page_offset pid) b f)
      = slice ?o PageSize (f @ replicate (page_offset pid + PageSize - length f) 0)"
    using slice_write_at_other [of ?o PageSize "page_offset pid" b f]
      page_offset_disjoint [OF assms(3) True assms(4)] assms(2) by simp
  show ?thesis
  proof (cases "?o + PageSize \<le> length f")
    case in_file: True
    then show ?thesis
      using sl by (simp add: file_page_def slice_append_left)
  next
    case False
    obtain n where "length f = PageSize * n" using assms(1) by blast
    with False have out: "length f \<le> ?o"
      by (simp add: page_offset_def) (metis Suc_leI add.commute linorder_not_le mult.commute mult_Suc mult_le_mono2)
    have "slice ?o PageSize (write_at (page_offset pid) b f) = replicate m 0"
      if "m = min PageSize (length f + (page_offset pid + PageSize - length f) - ?o)" for m
      using sl out that by (simp add: slice_append_right slice_def)
    then show ?thesis
      using False by (simp add: file_page_def zero_page_invalid)
  qed
qed (simp add: file_page_def)

lemma stored_page_simps:
  "fs_files d path = None \<Longrightarrow> stored_page d path pid = None"
  "fs_files d path = Some f \<Longrightarrow> stored_page d path pid = file_page f pid"
  by (simp_all add: stored_page_def)

lemma file_page_empty [simp]: "file_page [] pid = None"
  by (simp add: file_page_def)

lemma disk_invD: "disk_inv d \<Longrightarrow> fs_files d path = Some f \<Longrightarrow> PageSize dvd length f"
  by (simp add: disk_inv_def)

text \<open>A call stores the page, or is refused by the operating system, or rejects its arguments.\<close>

lemma fm_Write_cases [consumes 1, case_names stored refused rejected]:
  assumes "fm_Write pg path d = (r, d')"
  obtains (stored) p f where "pg = Some p" and "r = Ok ()" and "path \<noteq> ''''" and "0 \<le> hp_pageID p"
      and "page_IsValid p = Ok True" and "f = (case fs_files d path of None \<Rightarrow> [] | Some f \<Rightarrow> f)"
      and "d' = d\<lparr>fs_files := (fs_files d)(path \<mapsto> write_at (page_offset (hp_pageID p)) (hp_buf p) f)\<rparr>"
  | (refused) f where "\<not> is_ok r" and "r \<noteq> Panic" and "f = (case fs_files d path of None \<Rightarrow> [] | Some f \<Rightarrow> f)"
      and "d' = d\<lparr>fs_files := (fs_files d)(path \<mapsto> f)\<rparr>" and "\<not> healthy d"
  | (rejected) "\<not> is_ok r" and "d' = d"
proof -
  show ?thesis
  proof (cases "path = '''' \<or> pg = None \<or> (\<exists>p. pg = Some p \<and> (hp_pageID p < 0 \<or> page_IsValid p \<noteq> Ok True))")
    case True
    with assms have "\<not> is_ok r \<and> d' = d"
      by (cases pg; cases "path = ''''"; cases "page_IsValid (the pg)")
         (auto simp: fm_Write_def split: if_splits)
    then show ?thesis using rejected by blast
  next
    case False
    then obtain p where p: "pg = Some p" "path \<noteq> ''''" "0 \<le> hp_pageID p" "page_IsValid p = Ok True"
      by auto
    define f where "f = (case fs_files d path of None \<Rightarrow> [] | Some f \<Rightarrow> f)"
    show ?thesis
    proof (cases "fs_fault d path FsMkdir \<or> fs_fault d path FsOpen \<or> fs_fault d path FsWrite")
      case fault: True
      then have "\<not> healthy d" by (auto simp: healthy_def)
      moreover have "\<not> is_ok r \<and> r \<noteq> Panic
          \<and> (d' = d \<or> d' = d\<lparr>fs_files := (fs_files d)(path \<mapsto> f)\<rparr>)"
        using assms p fault by (simp add: fm_Write_def Let_def f_def [symmetric] split: if_splits) auto
      ultimately show ?thesis using rejected refused f_def by blast
    next
      case ok: False
      then have "r = Ok () \<and> d' = d\<lparr>fs_files := (fs_files d)
          (path \<mapsto> write_at (page_offset (hp_pageID p)) (hp_buf p) f)\<rparr>"
        using assms p by (simp add: fm_Write_def Let_def f_def [symmetric])
      then show ?thesis using p stored f_def by blast
    qed
  qed
qed

lemma page_IsValid_valid_buf: "length (hp_buf p) = PageSize \<Longrightarrow> page_IsValid p = Ok (valid_buf (hp_buf p))"
  by (simp add: valid_buf_def page_IsValid_def buf_ops page_consts)

text \<open>A successful write stores the page and changes no other page of any file.\<close>

lemma fm_Write_Ok:
  assumes w: "fm_Write (Some p) path d = (Ok x, d')" and inv: "disk_inv d"
    and len: "length (hp_buf p) = PageSize"
  shows "disk_inv d'" and "stored_page d' path (hp_pageID p) = Some (hp_buf p)"
    and "(path', pid') \<noteq> (path, hp_pageID p) \<Longrightarrow> stored_page d' path' pid' = stored_page d path' pid'"
    and "fs_fault d' = fs_fault d"
proof -
  define f where "f = (case fs_files d path of None \<Rightarrow> [] | Some f \<Rightarrow> f)"
  have d': "d' = d\<lparr>fs_files := (fs_files d)(path \<mapsto> write_at (page_offset (hp_pageID p)) (hp_buf p) f)\<rparr>"
    and pid: "0 \<le> hp_pageID p" and "page_IsValid p = Ok True"
    using w by (auto elim!: fm_Write_cases simp: f_def)
  then have valid: "valid_buf (hp_buf p)"
    using page_IsValid_valid_buf [OF len] by simp
  have dvd: "PageSize dvd length f"
    using inv by (auto simp: f_def disk_inv_def split: option.splits)
  have st: "stored_page d path q = file_page f q" for q
    by (simp add: f_def stored_page_def split: option.splits)
  have "PageSize dvd page_offset (hp_pageID p) + PageSize"
    by (simp add: page_offset_def)
  then show "disk_inv d'"
    using inv dvd len by (auto simp: disk_inv_def d' max_def)
  show "stored_page d' path (hp_pageID p) = Some (hp_buf p)"
    using file_page_write_same [OF valid pid] by (simp add: stored_page_def d')
  show "stored_page d' path' pid' = stored_page d path' pid'" if "(path', pid') \<noteq> (path, hp_pageID p)"
  proof (cases "path' = path")
    case True
    with that have "pid' \<noteq> hp_pageID p" by simp
    from file_page_write_other [OF dvd len pid this] show ?thesis
      using True st by (simp add: stored_page_def d')
  qed (simp add: stored_page_def d')
  show "fs_fault d' = fs_fault d" by (simp add: d')
qed

text \<open>A failed write changes the bytes of no file.\<close>

lemma fm_Write_Err:
  assumes w: "fm_Write pg path d = (r, d')" and "\<not> is_ok r"
  shows "disk_inv d \<Longrightarrow> disk_inv d'" and "stored_page d' = stored_page d" and "fs_fault d' = fs_fault d"
proof -
  have "stored_page d' = stored_page d \<and> (disk_inv d \<longrightarrow> disk_inv d') \<and> fs_fault d' = fs_fault d"
    using w
  proof (cases rule: fm_Write_cases)
    case (refused f)
    have "stored_page d' q pid = stored_page d q pid" for q pid
      by (simp add: stored_page_def refused(3,4) split: option.splits)
    then have "stored_page d' = stored_page d" by blast
    moreover have "disk_inv d \<longrightarrow> disk_inv d'"
      by (auto simp: disk_inv_def refused(3,4) split: option.splits if_splits)
    ultimately show ?thesis by (simp add: refused(4))
  qed (use assms(2) in auto)
  then show "disk_inv d \<Longrightarrow> disk_inv d'" "stored_page d' = stored_page d" "fs_fault d' = fs_fault d"
    by auto
qed

lemma fm_Write_not_Panic:
  assumes "length (hp_buf p) = PageSize"
  shows "fst (fm_Write (Some p) path d) \<noteq> Panic"
  using page_IsValid_valid_buf [OF assms]
  by (simp add: fm_Write_def Let_def)

lemma fm_Write_healthy:
  assumes "healthy d" and "path \<noteq> ''''" and "0 \<le> hp_pageID p" and "valid_buf (hp_buf p)"
  shows "fst (fm_Write (Some p) path d) = Ok ()"
  using assms valid_buf_IsValid by (simp add: fm_Write_def Let_def healthy_def)

text \<open>Paths of data files: \<open>filepath.Join(root, fileID)\<close> for the clean roots and file names the
  program builds.\<close>

definition path_Join :: "string \<Rightarrow> string \<Rightarrow> string" where
  "path_Join root fid = root @ ''/'' @ fid"

lemma path_Join_eq [simp]: "path_Join root a = path_Join root b \<longleftrightarrow> a = b"
  by (simp add: path_Join_def)

lemma path_Join_not_empty [simp]: "path_Join root a \<noteq> ''''"
  by (simp add: path_Join_def)

end
