(* ===== verification/BufferPool.thy ===== *)
theory BufferPool
  imports Replacer PageFile
begin

text \<open>
  The buffer pool of \<open>internal/core/memory/buffer/heap_buffer_pool_manager.go\<close> and the batch
  loop of the background writer. The page table is an association list (\<open>len(pageTable)\<close> is its
  length, a \<open>range\<close> over it takes the iteration order as an argument), slot pointers are
  references into \<open>bp_store\<close>, the disk is the one of the page file manager. Every operation holds
  the pool's mutex from entry to return, so an execution is a sequence of whole operations.

  A page is a value here: the callers change a page and hand the changed page to \<open>UpdatePage\<close>
  (Go changes the buffer in place and then calls \<open>UpdatePage\<close> with the same pointer, with no pool
  operation in between).
\<close>

record Pool =
  bp_poolSize :: int
  bp_replacer :: Replacer
  bp_root :: string
  bp_table :: "(PageKey \<times> slot_ref) list"
  bp_store :: slot_store
  bp_next :: slot_ref
  bp_disk :: Disk

definition no_slot :: BufferSlot where
  "no_slot = NewBufferSlot (NewPageKey '''' 0) \<lparr>hp_pageID = 0, hp_buf = []\<rparr>"

definition NewHeapBufferPoolManager :: "int \<Rightarrow> Replacer option \<Rightarrow> string \<Rightarrow> Disk \<Rightarrow> Pool result" where
  "NewHeapBufferPoolManager poolSize replacer storageRoot d =
     (if poolSize \<le> 0 then Err ErrPoolSize
      else case replacer of None \<Rightarrow> Err ErrReplacerNil | Some r \<Rightarrow>
        if storageRoot = '''' then Err ErrRootEmpty
        else Ok \<lparr>bp_poolSize = poolSize, bp_replacer = r, bp_root = storageRoot, bp_table = [],
                 bp_store = (\<lambda>_. no_slot), bp_next = 0, bp_disk = d\<rparr>)"

section \<open>Operations\<close>

abbreviation bp_lookup :: "Pool \<Rightarrow> PageKey \<Rightarrow> slot_ref option" where
  "bp_lookup b k \<equiv> map_of (bp_table b) k"

definition bp_path :: "Pool \<Rightarrow> PageKey \<Rightarrow> string" where
  "bp_path b k = path_Join (bp_root b) (pk_fileID k)"

definition set_slot :: "slot_ref \<Rightarrow> BufferSlot \<Rightarrow> Pool \<Rightarrow> Pool" where
  "set_slot s sl b = b\<lparr>bp_store := (bp_store b)(s := sl)\<rparr>"

definition touch :: "slot_ref \<Rightarrow> Pool \<Rightarrow> Pool" where
  "touch s b = (if \<not> bs_pinned (bp_store b s)
     then b\<lparr>bp_replacer := rep_Push (bp_store b) (Some s) (bp_replacer b)\<rparr> else b)"

definition flushSlotLocked :: "PageKey \<Rightarrow> slot_ref \<Rightarrow> (Pool, unit) prog" where
  "flushSlotLocked key s b =
     (if bs_dirty (bp_store b s)
      then case fm_Write (Some (bs_page (bp_store b s))) (bp_path b key) (bp_disk b) of
             (Ok _, d) \<Rightarrow> (Ok (), set_slot s ((bp_store b s)\<lparr>bs_dirty := False\<rparr>) (b\<lparr>bp_disk := d\<rparr>))
           | (Err e, d) \<Rightarrow> (Err e, b\<lparr>bp_disk := d\<rparr>)
           | (Panic, d) \<Rightarrow> (Panic, b\<lparr>bp_disk := d\<rparr>)
      else (Ok (), b))"

definition ensureSpaceLocked :: "(Pool, unit) prog" where
  "ensureSpaceLocked b =
     (if int (length (bp_table b)) < bp_poolSize b then (Ok (), b)
      else case rep_PickVictim (bp_store b) (bp_replacer b) of
        (None, r) \<Rightarrow> (Err ErrNoVictim, b\<lparr>bp_replacer := r\<rparr>)
      | (Some victim, r) \<Rightarrow>
          let vKey = bs_key (bp_store b victim); b1 = b\<lparr>bp_replacer := r\<rparr> in
          seq (if bs_dirty (bp_store b victim) then flushSlotLocked vKey victim else pure ())
              (\<lambda>_ b2. (Ok (), b2\<lparr>bp_table := AList.delete vKey (bp_table b2)\<rparr>)) b1)"

definition add_slot :: "PageKey \<Rightarrow> HeapPage \<Rightarrow> (Pool, slot_ref) prog" where
  "add_slot key pg b = (let s = bp_next b in
     (Ok s, touch s (set_slot s (NewBufferSlot key pg)
        (b\<lparr>bp_table := AList.update key s (bp_table b), bp_next := s + 1\<rparr>))))"

definition getPageLocked :: "PageKey \<Rightarrow> (Pool, slot_ref) prog" where
  "getPageLocked key b = (case bp_lookup b key of
     Some s \<Rightarrow> (Ok s, touch s (set_slot s (IncrementUsage (bp_store b s)) b))
   | None \<Rightarrow> seq ensureSpaceLocked (\<lambda>_ b1.
       case fm_Read (pk_pageID key) (bp_path b1 key) (bp_disk b1) of
         Ok pg \<Rightarrow> add_slot key pg b1
       | Err e \<Rightarrow> (Err e, b1)
       | Panic \<Rightarrow> (Panic, b1)) b)"

text \<open>\<open>GetPage\<close> has the body of \<open>getPageLocked\<close>, written out again under the lock.\<close>

definition GetPage :: "PageKey \<Rightarrow> (Pool, slot_ref) prog" where
  "GetPage key b = getPageLocked key b"

definition NewPage :: "PageKey \<Rightarrow> HeapPage option \<Rightarrow> (Pool, slot_ref) prog" where
  "NewPage key pg b = (case pg of None \<Rightarrow> (Err ErrPageNil, b) | Some p \<Rightarrow>
     (if bp_lookup b key \<noteq> None then (Err (ErrPageAlreadyInBuf (pk_fileID key) (pk_pageID key)), b)
      else seq ensureSpaceLocked (\<lambda>_. add_slot key p) b))"

definition slot_or_load :: "PageKey \<Rightarrow> (Pool, slot_ref) prog" where
  "slot_or_load key b = (case bp_lookup b key of Some s \<Rightarrow> (Ok s, b) | None \<Rightarrow> getPageLocked key b)"

definition UpdatePage :: "PageKey \<Rightarrow> HeapPage option \<Rightarrow> (Pool, unit) prog" where
  "UpdatePage key pg b = (case pg of None \<Rightarrow> (Err ErrPageNil, b) | Some p \<Rightarrow>
     seq (slot_or_load key) (\<lambda>s b1.
       (Ok (), touch s (set_slot s ((bp_store b1 s)\<lparr>bs_page := p, bs_dirty := True\<rparr>) b1))) b)"

definition PinPage :: "PageKey \<Rightarrow> (Pool, unit) prog" where
  "PinPage key b = seq (slot_or_load key) (\<lambda>s b1.
     let b2 = set_slot s ((bp_store b1 s)\<lparr>bs_pinned := True\<rparr>) b1
     in (Ok (), b2\<lparr>bp_replacer := rep_Delete (bp_store b2) key (bp_replacer b2)\<rparr>)) b"

definition UnpinPage :: "PageKey \<Rightarrow> (Pool, unit) prog" where
  "UnpinPage key b = (case bp_lookup b key of None \<Rightarrow> (Ok (), b) | Some s \<Rightarrow>
     if \<not> bs_pinned (bp_store b s) then (Ok (), b)
     else let b1 = set_slot s ((bp_store b s)\<lparr>bs_pinned := False\<rparr>) b
          in (Ok (), b1\<lparr>bp_replacer := rep_Push (bp_store b1) (Some s) (bp_replacer b1)\<rparr>))"

definition FlushPage :: "PageKey \<Rightarrow> (Pool, unit) prog" where
  "FlushPage key b = (case bp_lookup b key of None \<Rightarrow> (Ok (), b) | Some s \<Rightarrow> flushSlotLocked key s b)"

text \<open>The two loops range over the page table; \<open>order\<close> is the order Go's runtime picks.\<close>

fun FlushAllPages :: "PageKey list \<Rightarrow> (Pool, unit) prog" where
  "FlushAllPages [] b = (Ok (), b)"
| "FlushAllPages (k # order) b = (case bp_lookup b k of
     None \<Rightarrow> FlushAllPages order b
   | Some s \<Rightarrow> seq (flushSlotLocked k s) (\<lambda>_. FlushAllPages order) b)"

definition DirtyPages :: "PageKey list \<Rightarrow> Pool \<Rightarrow> slot_ref list" where
  "DirtyPages order b = filter (\<lambda>s. bs_dirty (bp_store b s)) (List.map_filter (bp_lookup b) order)"

text \<open>\<open>flushBatch\<close> of \<open>background/default_dirty_page_writer.go\<close>: the slots are collected once, each
  is then flushed by key, failures are skipped and not counted.\<close>

fun flushBatch_loop :: "int \<Rightarrow> int \<Rightarrow> slot_ref list \<Rightarrow> Pool \<Rightarrow> Pool" where
  "flushBatch_loop batchSize flushed [] b = b"
| "flushBatch_loop batchSize flushed (s # dirty) b =
     (if flushed \<ge> batchSize then b
      else case FlushPage (bs_key (bp_store b s)) b of
             (Ok _, b1) \<Rightarrow> flushBatch_loop batchSize (flushed + 1) dirty b1
           | (_, b1) \<Rightarrow> flushBatch_loop batchSize flushed dirty b1)"

definition flushBatch :: "int \<Rightarrow> PageKey list \<Rightarrow> Pool \<Rightarrow> Pool" where
  "flushBatch batchSize order b = flushBatch_loop batchSize 0 (DirtyPages order b) b"

section \<open>Invariant and logical content\<close>

definition slot_ok :: "PageKey \<Rightarrow> BufferSlot \<Rightarrow> bool" where
  "slot_ok k sl \<longleftrightarrow> bs_key sl = k \<and> hp_pageID (bs_page sl) = pk_pageID k \<and> 0 \<le> pk_pageID k
     \<and> valid_buf (hp_buf (bs_page sl))"

definition pool_inv :: "Pool \<Rightarrow> bool" where
  "pool_inv b \<longleftrightarrow> 0 < bp_poolSize b \<and> distinct (map fst (bp_table b))
     \<and> int (length (bp_table b)) \<le> bp_poolSize b
     \<and> (\<forall>k s. bp_lookup b k = Some s \<longrightarrow> s < bp_next b \<and> slot_ok k (bp_store b s))
     \<and> rep_inv (bp_store b) (bp_replacer b)
     \<and> (\<forall>s \<in> rep_cands (bp_replacer b). bp_lookup b (bs_key (bp_store b s)) = Some s
          \<and> \<not> bs_pinned (bp_store b s))
     \<and> disk_inv (bp_disk b)"

definition on_disk :: "Pool \<Rightarrow> PageKey \<Rightarrow> bytes option" where
  "on_disk b k = stored_page (bp_disk b) (bp_path b k) (pk_pageID k)"

text \<open>What a reader of page \<open>k\<close> sees: the buffered page, else the stored one.\<close>

definition pool_view :: "Pool \<Rightarrow> PageKey \<Rightarrow> bytes option" where
  "pool_view b k = (case bp_lookup b k of Some s \<Rightarrow> Some (hp_buf (bs_page (bp_store b s)))
     | None \<Rightarrow> on_disk b k)"

text \<open>A page is safe when dropping its slot loses nothing: it is dirty (and will be written), or
  the disk has its content.\<close>

definition safe :: "Pool \<Rightarrow> PageKey \<Rightarrow> bool" where
  "safe b k \<longleftrightarrow> (\<forall>s. bp_lookup b k = Some s \<longrightarrow> bs_dirty (bp_store b s)
     \<or> on_disk b k = Some (hp_buf (bs_page (bp_store b s))))"

definition is_pinned :: "Pool \<Rightarrow> PageKey \<Rightarrow> bool" where
  "is_pinned b k \<longleftrightarrow> (\<exists>s. bp_lookup b k = Some s \<and> bs_pinned (bp_store b s))"

section \<open>Preservation\<close>

lemma pool_invI:
  assumes "0 < bp_poolSize b" and "distinct (map fst (bp_table b))"
    and "int (length (bp_table b)) \<le> bp_poolSize b"
    and "\<And>k s. bp_lookup b k = Some s \<Longrightarrow> s < bp_next b \<and> slot_ok k (bp_store b s)"
    and "rep_inv (bp_store b) (bp_replacer b)"
    and "\<And>s. s \<in> rep_cands (bp_replacer b) \<Longrightarrow> bp_lookup b (bs_key (bp_store b s)) = Some s
          \<and> \<not> bs_pinned (bp_store b s)"
    and "disk_inv (bp_disk b)"
  shows "pool_inv b"
  using assms by (auto simp: pool_inv_def)

lemma pool_invD:
  assumes "pool_inv b"
  shows "0 < bp_poolSize b" and "distinct (map fst (bp_table b))"
    and "int (length (bp_table b)) \<le> bp_poolSize b"
    and "bp_lookup b k = Some s \<Longrightarrow> s < bp_next b"
    and "bp_lookup b k = Some s \<Longrightarrow> slot_ok k (bp_store b s)"
    and "rep_inv (bp_store b) (bp_replacer b)"
    and "s \<in> rep_cands (bp_replacer b) \<Longrightarrow> bp_lookup b (bs_key (bp_store b s)) = Some s"
    and "s \<in> rep_cands (bp_replacer b) \<Longrightarrow> \<not> bs_pinned (bp_store b s)"
    and "disk_inv (bp_disk b)"
  using assms by (auto simp: pool_inv_def)

lemma slot_okD:
  assumes "slot_ok k sl"
  shows "bs_key sl = k" and "hp_pageID (bs_page sl) = pk_pageID k" and "0 \<le> pk_pageID k"
    and "valid_buf (hp_buf (bs_page sl))"
  using assms by (auto simp: slot_ok_def)

lemma pool_lookup_inj:
  "pool_inv b \<Longrightarrow> bp_lookup b k = Some s \<Longrightarrow> bp_lookup b k' = Some s \<Longrightarrow> k = k'"
  by (metis pool_invD(5) slot_okD(1))

lemma pool_cand_own:
  "pool_inv b \<Longrightarrow> bp_lookup b (bs_key (bp_store b s)) = Some s \<Longrightarrow> s' \<in> rep_cands (bp_replacer b)
    \<Longrightarrow> bs_key (bp_store b s') = bs_key (bp_store b s) \<Longrightarrow> s' = s"
  by (metis pool_invD(7) option.inject)

lemma set_slot_sel [simp]:
  "bp_store (set_slot s sl b) = (bp_store b)(s := sl)" "bp_table (set_slot s sl b) = bp_table b"
  "bp_replacer (set_slot s sl b) = bp_replacer b" "bp_root (set_slot s sl b) = bp_root b"
  "bp_next (set_slot s sl b) = bp_next b" "bp_disk (set_slot s sl b) = bp_disk b"
  "bp_poolSize (set_slot s sl b) = bp_poolSize b"
  by (simp_all add: set_slot_def)

lemma touch_sel [simp]:
  "bp_store (touch s b) = bp_store b" "bp_table (touch s b) = bp_table b"
  "bp_root (touch s b) = bp_root b" "bp_next (touch s b) = bp_next b"
  "bp_disk (touch s b) = bp_disk b" "bp_poolSize (touch s b) = bp_poolSize b"
  by (simp_all add: touch_def)

text \<open>The invariant depends on a slot through its key, its page and its pin only.\<close>

lemma pool_inv_set_slot:
  assumes inv: "pool_inv b" and at: "bp_lookup b k = Some s" and ok: "slot_ok k sl"
    and pin: "bs_pinned sl \<Longrightarrow> s \<notin> rep_cands (bp_replacer b)"
  shows "pool_inv (set_slot s sl b)"
proof (rule pool_invI, goal_cases)
  case (4 k' s')
  show ?case
  proof (cases "s' = s")
    case True
    then have "k' = k" using 4 at pool_lookup_inj [OF inv] by simp
    then show ?thesis using True ok pool_invD(4) [OF inv at] by simp
  next
    case False
    then show ?thesis using 4 pool_invD(4,5) [OF inv, of k' s'] by simp
  qed
next
  case 5
  have "bs_key ((bp_store (set_slot s sl b)) s') = bs_key (bp_store b s')" for s'
    using slot_okD(1) [OF ok] slot_okD(1) [OF pool_invD(5) [OF inv at]] by simp
  then show ?case
    using rep.inv_store [OF pool_invD(6) [OF inv]] by simp
next
  case (6 s')
  then show ?case
    using pool_invD(7,8) [OF inv, of s'] slot_okD(1) [OF ok] at pin by auto
qed (use pool_invD [OF inv] in simp_all)

lemma touch_inv:
  assumes inv: "pool_inv b" and at: "bp_lookup b k = Some s"
  shows "pool_inv (touch s b)"
    and "rep_cands (bp_replacer (touch s b))
      = (if bs_pinned (bp_store b s) then {} else {s}) \<union> rep_cands (bp_replacer b)"
proof -
  have key: "bs_key (bp_store b s) = k"
    using slot_okD(1) [OF pool_invD(5) [OF inv at]] .
  have "pool_inv (touch s b) \<and> rep_cands (bp_replacer (touch s b))
      = (if bs_pinned (bp_store b s) then {} else {s}) \<union> rep_cands (bp_replacer b)"
  proof (cases "bs_pinned (bp_store b s)")
    case True
    then show ?thesis using inv by (simp add: touch_def)
  next
    case False
    have push: "rep_inv (bp_store b) (rep_Push (bp_store b) (Some s) (bp_replacer b))
        \<and> rep_cands (rep_Push (bp_store b) (Some s) (bp_replacer b)) = insert s (rep_cands (bp_replacer b))"
      using pool_cand_own [OF inv] at key
      by (intro rep.push_cands [OF pool_invD(6) [OF inv] False]) auto
    have "pool_inv (touch s b)"
    proof (rule pool_invI, goal_cases)
      case (4 k' s')
      then show ?case using pool_invD(4,5) [OF inv] by simp
    next
      case (6 s')
      then have "s' = s \<or> s' \<in> rep_cands (bp_replacer b)"
        using push False by (simp add: touch_def)
      then show ?case using pool_invD(7,8) [OF inv] key at False by auto
    qed (use pool_invD [OF inv] push False in \<open>simp_all add: touch_def\<close>)
    with push False show ?thesis by (simp add: touch_def)
  qed
  then show "pool_inv (touch s b)" and "rep_cands (bp_replacer (touch s b))
      = (if bs_pinned (bp_store b s) then {} else {s}) \<union> rep_cands (bp_replacer b)"
    by simp_all
qed

text \<open>
  \<open>pool_keeps b b'\<close>: the invariant holds after the step, no safe page changed its content or
  stopped being safe, and every pinned page is still there.
\<close>

definition pool_keeps :: "Pool \<Rightarrow> Pool \<Rightarrow> bool" where
  "pool_keeps b b' \<longleftrightarrow> pool_inv b' \<and> bp_root b' = bp_root b \<and> bp_poolSize b' = bp_poolSize b
     \<and> fs_fault (bp_disk b') = fs_fault (bp_disk b)
     \<and> (\<forall>k. safe b k \<longrightarrow> safe b' k \<and> pool_view b' k = pool_view b k)
     \<and> (\<forall>k. is_pinned b k \<longrightarrow> is_pinned b' k)"

lemma pool_keeps_refl [simp]: "pool_inv b \<Longrightarrow> pool_keeps b b"
  by (simp add: pool_keeps_def)

lemma pool_keeps_trans [trans]: "pool_keeps b b' \<Longrightarrow> pool_keeps b' b'' \<Longrightarrow> pool_keeps b b''"
  by (auto simp: pool_keeps_def)

lemma pool_keepsD:
  assumes "pool_keeps b b'"
  shows "pool_inv b'" and "bp_root b' = bp_root b" and "bp_poolSize b' = bp_poolSize b"
    and "fs_fault (bp_disk b') = fs_fault (bp_disk b)"
    and "safe b k \<Longrightarrow> safe b' k" and "safe b k \<Longrightarrow> pool_view b' k = pool_view b k"
    and "is_pinned b k \<Longrightarrow> is_pinned b' k"
  using assms by (auto simp: pool_keeps_def)

lemma on_disk_same [simp]:
  "on_disk (touch s b) = on_disk b" "on_disk (set_slot s sl b) = on_disk b"
  by (simp_all add: fun_eq_iff on_disk_def bp_path_def)

lemma touch_keeps:
  assumes "pool_inv b" and "bp_lookup b k = Some s"
  shows "pool_keeps b (touch s b)"
  using touch_inv(1) [OF assms]
  by (simp add: pool_keeps_def safe_def pool_view_def is_pinned_def split: option.splits)

lemma set_slot_keeps:
  assumes inv: "pool_inv b" and at: "bp_lookup b k = Some s"
    and sl: "bs_key sl = bs_key (bp_store b s)" "bs_page sl = bs_page (bp_store b s)"
      "bs_dirty sl = bs_dirty (bp_store b s)" "bs_pinned sl = bs_pinned (bp_store b s)"
  shows "pool_keeps b (set_slot s sl b)"
proof -
  have "slot_ok k sl"
    using pool_invD(5) [OF inv at] sl by (simp add: slot_ok_def)
  moreover have "s \<notin> rep_cands (bp_replacer b)" if "bs_pinned sl"
    using that sl(4) pool_invD(8) [OF inv] by metis
  ultimately show ?thesis
    using pool_inv_set_slot [OF inv at] sl
    by (auto simp: pool_keeps_def safe_def pool_view_def is_pinned_def split: option.splits)
qed

lemma bp_path_eq: "bp_path b k = bp_path b k' \<longleftrightarrow> pk_fileID k = pk_fileID k'"
  by (simp add: bp_path_def)

lemma PageKey_neq: "(k :: PageKey) \<noteq> k' \<Longrightarrow> (pk_fileID k, pk_pageID k) \<noteq> (pk_fileID k', pk_pageID k')"
  by (cases k; cases k') auto

section \<open>Flushing\<close>

lemma flush_clean: "\<not> bs_dirty (bp_store b s) \<Longrightarrow> flushSlotLocked k s b = (Ok (), b)"
  by (simp add: flushSlotLocked_def)

lemma valid_buf_length: "valid_buf b \<Longrightarrow> length b = PageSize"
  by (simp add: valid_buf_def)

lemma flush_dirty:
  assumes inv: "pool_inv b" and at: "bp_lookup b k = Some s" and dirty: "bs_dirty (bp_store b s)"
    and fl: "flushSlotLocked k s b = (r, b')"
  obtains (written) d where "r = Ok ()"
      and "b' = set_slot s ((bp_store b s)\<lparr>bs_dirty := False\<rparr>) (b\<lparr>bp_disk := d\<rparr>)"
      and "disk_inv d" and "fs_fault d = fs_fault (bp_disk b)"
      and "\<And>k'. on_disk (b\<lparr>bp_disk := d\<rparr>) k'
        = (if k' = k then Some (hp_buf (bs_page (bp_store b s))) else on_disk b k')"
  | (failed) d e where "r = Err e" and "b' = b\<lparr>bp_disk := d\<rparr>" and "disk_inv d"
      and "fs_fault d = fs_fault (bp_disk b)" and "on_disk (b\<lparr>bp_disk := d\<rparr>) = on_disk b"
      and "\<not> healthy (bp_disk b)"
proof -
  note ok = slot_okD [OF pool_invD(5) [OF inv at]] and dinv = pool_invD(9) [OF inv]
  let ?p = "bs_page (bp_store b s)"
  have len: "length (hp_buf ?p) = PageSize"
    using ok(4) by (simp add: valid_buf_def)
  obtain w d where w: "fm_Write (Some ?p) (bp_path b k) (bp_disk b) = (w, d)"
    by force
  show ?thesis
  proof (cases w)
    case (Ok u)
    note st = fm_Write_Ok [OF w [unfolded Ok] dinv len]
    have "on_disk (b\<lparr>bp_disk := d\<rparr>) k' = (if k' = k then Some (hp_buf ?p) else on_disk b k')" for k'
    proof (cases "k' = k")
      case True
      then show ?thesis using st(2) ok(2) by (simp add: on_disk_def bp_path_def)
    next
      case False
      then have "(bp_path b k', pk_pageID k') \<noteq> (bp_path b k, hp_pageID ?p)"
        using PageKey_neq [OF False] ok(2) by (simp add: bp_path_eq)
      from st(3) [OF this] show ?thesis using False by (simp add: on_disk_def bp_path_def)
    qed
    moreover have "r = Ok () \<and> b' = set_slot s ((bp_store b s)\<lparr>bs_dirty := False\<rparr>) (b\<lparr>bp_disk := d\<rparr>)"
      using fl w Ok dirty by (simp add: flushSlotLocked_def)
    ultimately show ?thesis
      using written st(1,4) by blast
  next
    case (Err e)
    note st = fm_Write_Err [OF w]
    have "on_disk (b\<lparr>bp_disk := d\<rparr>) = on_disk b"
      using st(2) Err by (simp add: fun_eq_iff on_disk_def bp_path_def)
    moreover have "\<not> healthy (bp_disk b)"
      using fm_Write_healthy [of "bp_disk b" "bp_path b k" ?p] ok w Err by (auto simp: bp_path_def)
    moreover have "r = Err e \<and> b' = b\<lparr>bp_disk := d\<rparr>"
      using fl w Err dirty by (simp add: flushSlotLocked_def)
    moreover have "disk_inv d \<and> fs_fault d = fs_fault (bp_disk b)"
      using st(1,3) dinv Err by simp
    ultimately show ?thesis
      using failed by blast
  next
    case Panic
    then show ?thesis
      using fm_Write_not_Panic [OF len, of "bp_path b k" "bp_disk b"] w by simp
  qed
qed

lemma pool_inv_disk: "pool_inv b \<Longrightarrow> disk_inv d \<Longrightarrow> pool_inv (b\<lparr>bp_disk := d\<rparr>)"
  by (simp add: pool_inv_def)

lemma flush_keeps:
  assumes inv: "pool_inv b" and at: "bp_lookup b k = Some s"
    and fl: "flushSlotLocked k s b = (r, b')"
  shows "pool_keeps b b'" and "r \<noteq> Panic"
    and "bp_table b' = bp_table b" and "bp_replacer b' = bp_replacer b"
    and "bs_pinned (bp_store b' s') = bs_pinned (bp_store b s')"
    and "bs_key (bp_store b' s') = bs_key (bp_store b s')"
    and "bs_page (bp_store b' s') = bs_page (bp_store b s')"
    and "is_ok r \<Longrightarrow> bs_dirty (bp_store b' s') = (bs_dirty (bp_store b s') \<and> s' \<noteq> s)"
    and "is_ok r \<Longrightarrow> safe b k \<Longrightarrow> on_disk b' k = Some (hp_buf (bs_page (bp_store b s)))"
    and "healthy (bp_disk b) \<Longrightarrow> r = Ok ()"
proof -
  have "pool_keeps b b' \<and> r \<noteq> Panic \<and> bp_table b' = bp_table b \<and> bp_replacer b' = bp_replacer b
    \<and> bs_pinned (bp_store b' s') = bs_pinned (bp_store b s')
    \<and> bs_key (bp_store b' s') = bs_key (bp_store b s')
    \<and> bs_page (bp_store b' s') = bs_page (bp_store b s')
    \<and> (is_ok r \<longrightarrow> bs_dirty (bp_store b' s') = (bs_dirty (bp_store b s') \<and> s' \<noteq> s))
    \<and> (is_ok r \<longrightarrow> safe b k \<longrightarrow> on_disk b' k = Some (hp_buf (bs_page (bp_store b s))))
    \<and> (healthy (bp_disk b) \<longrightarrow> r = Ok ())"
  proof (cases "bs_dirty (bp_store b s)")
    case False
    then show ?thesis
      using fl inv at by (auto simp: flush_clean safe_def)
  next
    case True
    from inv at True fl show ?thesis
    proof (cases rule: flush_dirty)
      case (written d)
      let ?sl = "(bp_store b s)\<lparr>bs_dirty := False\<rparr>"
      have i: "pool_inv (set_slot s ?sl (b\<lparr>bp_disk := d\<rparr>))"
        using pool_invD(5,8) [OF inv] at
        by (intro pool_inv_set_slot [of _ k] pool_inv_disk [OF inv written(3)]) (auto simp: slot_ok_def)
      have "safe b' k' \<and> pool_view b' k' = pool_view b k'" if "safe b k'" for k'
      proof (cases "k' = k")
        case True
        then show ?thesis
          using at written(5) [of k] by (simp add: safe_def pool_view_def written(2))
      next
        case False
        then have "bp_lookup b k' \<noteq> Some s"
          using pool_lookup_inj [OF inv at] by blast
        moreover have "on_disk b' k' = on_disk b k'"
          using written(5) [of k'] False by (simp add: written(2))
        ultimately show ?thesis
          using that by (auto simp: safe_def pool_view_def written(2) split: option.splits)
      qed
      moreover have "is_pinned b' k'" if "is_pinned b k'" for k'
        using that by (auto simp: is_pinned_def written(2))
      ultimately have "pool_keeps b b'"
        using i written(2,4) by (simp add: pool_keeps_def)
      then show ?thesis
        using written(1,2) written(5) [of k] by simp
    next
      case (failed d e)
      have "pool_keeps b b'"
        using pool_inv_disk [OF inv failed(3)] failed(2,4,5)
        by (simp add: pool_keeps_def safe_def pool_view_def is_pinned_def split: option.splits)
      then show ?thesis
        using failed by simp
    qed
  qed
  then show "pool_keeps b b'" "r \<noteq> Panic" "bp_table b' = bp_table b" "bp_replacer b' = bp_replacer b"
    "bs_pinned (bp_store b' s') = bs_pinned (bp_store b s')"
    "bs_key (bp_store b' s') = bs_key (bp_store b s')"
    "bs_page (bp_store b' s') = bs_page (bp_store b s')"
    "is_ok r \<Longrightarrow> bs_dirty (bp_store b' s') = (bs_dirty (bp_store b s') \<and> s' \<noteq> s)"
    "is_ok r \<Longrightarrow> safe b k \<Longrightarrow> on_disk b' k = Some (hp_buf (bs_page (bp_store b s)))"
    "healthy (bp_disk b) \<Longrightarrow> r = Ok ()"
    by blast+
qed

section \<open>Making room\<close>

lemma length_delete_less:
  "map_of t k = Some v \<Longrightarrow> length (AList.delete k t) < length t"
  unfolding AList.delete_eq
  by (rule length_filter_less [of "(k, v)"]) (auto dest: map_of_SomeD)

lemma drop_slot_keeps:
  assumes inv: "pool_inv b" and at: "bp_lookup b k = Some s" and "\<not> bs_dirty (bp_store b s)"
    and np: "\<not> bs_pinned (bp_store b s)" and cand: "s \<notin> rep_cands (bp_replacer b)"
  shows "pool_keeps b (b\<lparr>bp_table := AList.delete k (bp_table b)\<rparr>)" (is "pool_keeps b ?b")
proof -
  have look: "bp_lookup ?b k' = (if k' = k then None else bp_lookup b k')" for k'
    by (simp add: AList.delete_conv')
  have "pool_inv ?b"
  proof (rule pool_invI, goal_cases)
    case 3
    then show ?case
      using length_delete_less [OF at] pool_invD(3) [OF inv] by simp
  next
    case (4 k' s')
    then have "bp_lookup b k' = Some s'"
      using look [of k'] by (simp split: if_splits)
    then show ?case using pool_invD(4,5) [OF inv] by simp
  next
    case (6 s')
    then have "bp_lookup b (bs_key (bp_store b s')) = Some s'" "\<not> bs_pinned (bp_store b s')" "s' \<noteq> s"
      using pool_invD(7,8) [OF inv, of s'] cand by auto
    moreover have "bs_key (bp_store b s') \<noteq> k"
      using calculation at by auto
    ultimately show ?case using look by simp
  qed (use pool_invD [OF inv] in \<open>simp_all add: AList.distinct_delete\<close>)
  moreover have "safe ?b k' \<and> pool_view ?b k' = pool_view b k'" if "safe b k'" for k'
  proof -
    have "on_disk ?b k' = on_disk b k'" by (simp add: on_disk_def bp_path_def)
    then show ?thesis
      using that look [of k'] at assms(3) by (auto simp: safe_def pool_view_def split: option.splits)
  qed
  moreover have "is_pinned ?b k'" if "is_pinned b k'" for k'
    using that np at look [of k'] by (auto simp: is_pinned_def)
  ultimately show ?thesis by (simp add: pool_keeps_def)
qed

text \<open>Every unpinned slot is known to the replacer: while writes succeed, this is kept.\<close>

definition complete :: "Pool \<Rightarrow> bool" where
  "complete b \<longleftrightarrow> (\<forall>k s. bp_lookup b k = Some s \<longrightarrow> \<not> bs_pinned (bp_store b s)
     \<longrightarrow> s \<in> rep_cands (bp_replacer b))"

lemma take_victim_keeps:
  assumes inv: "pool_inv b" and pick: "rep_PickVictim (bp_store b) (bp_replacer b) = (v, r)"
  shows "pool_keeps b (b\<lparr>bp_replacer := r\<rparr>)"
proof -
  have "rep_inv (bp_store b) r \<and> rep_cands r \<subseteq> rep_cands (bp_replacer b)"
    using rep.pick_None [OF pool_invD(6) [OF inv]] rep.pick_Some [OF pool_invD(6) [OF inv]] pick
    by (cases v) auto
  then have "pool_inv (b\<lparr>bp_replacer := r\<rparr>)"
    using inv by (auto simp: pool_inv_def)
  then show ?thesis
    by (simp add: pool_keeps_def safe_def pool_view_def is_pinned_def on_disk_def bp_path_def
        split: option.splits)
qed

lemma ensureSpace_keeps:
  assumes inv: "pool_inv b" and es: "ensureSpaceLocked b = (r, b')"
  shows "pool_keeps b b'" and "r \<noteq> Panic"
    and "is_ok r \<Longrightarrow> int (length (bp_table b')) < bp_poolSize b'"
    and "bp_lookup b k = None \<Longrightarrow> bp_lookup b' k = None"
    and "is_ok r \<Longrightarrow> complete b \<Longrightarrow> complete b'"
proof -
  have "pool_keeps b b' \<and> r \<noteq> Panic \<and> (is_ok r \<longrightarrow> int (length (bp_table b')) < bp_poolSize b')
    \<and> (bp_lookup b k = None \<longrightarrow> bp_lookup b' k = None) \<and> (is_ok r \<longrightarrow> complete b \<longrightarrow> complete b')"
  proof (cases "int (length (bp_table b)) < bp_poolSize b")
    case True
    then show ?thesis using es inv by (auto simp: ensureSpaceLocked_def)
  next
    case False
    obtain v rp where pick: "rep_PickVictim (bp_store b) (bp_replacer b) = (v, rp)"
      by force
    define b1 where "b1 = b\<lparr>bp_replacer := rp\<rparr>"
    have k1: "pool_keeps b b1"
      using take_victim_keeps [OF inv pick] by (simp add: b1_def)
    show ?thesis
    proof (cases v)
      case None
      then show ?thesis using es False pick k1 by (auto simp: ensureSpaceLocked_def b1_def)
    next
      case (Some s)
      have cand: "s \<in> rep_cands (bp_replacer b)" "rep_cands rp = rep_cands (bp_replacer b) - {s}"
        using rep.pick_Some [OF pool_invD(6) [OF inv]] pick Some by auto
      define k0 where "k0 = bs_key (bp_store b s)"
      have at: "bp_lookup b1 k0 = Some s" and np: "\<not> bs_pinned (bp_store b1 s)"
        using pool_invD(7,8) [OF inv cand(1)] by (simp_all add: k0_def b1_def)
      obtain r2 b2 where fl: "flushSlotLocked k0 s b1 = (r2, b2)"
        by force
      note f = flush_keeps [OF pool_keepsD(1) [OF k1] at fl]
      have es': "(r, b') = seq (flushSlotLocked k0 s)
          (\<lambda>_ b2. (Ok (), b2\<lparr>bp_table := AList.delete k0 (bp_table b2)\<rparr>)) b1"
        using es False pick Some flush_clean [of b1 s k0]
        by (cases "bs_dirty (bp_store b s)")
          (auto simp: ensureSpaceLocked_def Let_def k0_def b1_def seq_def pure_def)
      show ?thesis
      proof (cases r2)
        case (Ok u)
        have b': "r = Ok ()" "b' = b2\<lparr>bp_table := AList.delete k0 (bp_table b2)\<rparr>"
          using es' fl Ok by (simp_all add: seq_def)
        have "pool_keeps b2 b'"
          unfolding b'(2) using f(1,3,4,5,8) at np Ok cand(2)
          by (intro drop_slot_keeps pool_keepsD(1)) (auto simp: b1_def)
        with k1 f(1) have "pool_keeps b b'" by (blast intro: pool_keeps_trans)
        moreover have "length (bp_table b') < length (bp_table b)"
          using length_delete_less [OF at] by (simp add: b'(2) f(3) b1_def)
        moreover have "complete b'" if "complete b"
          unfolding complete_def
        proof (intro allI impI)
          fix k' s'
          assume l: "bp_lookup b' k' = Some s'" and "\<not> bs_pinned (bp_store b' s')"
          then have "bp_lookup b1 k' = Some s'" "\<not> bs_pinned (bp_store b1 s')" "k' \<noteq> k0"
            by (auto simp: b'(2) f(3,5) AList.delete_conv' split: if_splits)
          moreover from this have "s' \<noteq> s"
            using pool_lookup_inj [OF pool_keepsD(1) [OF k1] at] by blast
          ultimately show "s' \<in> rep_cands (bp_replacer b')"
            using that by (auto simp: complete_def b'(2) f(4) b1_def cand(2))
        qed
        moreover have "bp_lookup b' k = None" if "bp_lookup b k = None"
          using that by (simp add: b'(2) f(3) AList.delete_conv' b1_def)
        ultimately show ?thesis
          using b'(1) pool_invD(3) [OF inv] pool_keepsD(3) [of b b'] by simp
      next
        case (Err e)
        then have "r = Err e" "b' = b2" using es' fl by (simp_all add: seq_def)
        then show ?thesis
          using pool_keeps_trans [OF k1 f(1)] f(3) by (simp add: b1_def)
      next
        case Panic
        then show ?thesis using f(2) by simp
      qed
    qed
  qed
  then show "pool_keeps b b'" "r \<noteq> Panic" "is_ok r \<Longrightarrow> int (length (bp_table b')) < bp_poolSize b'"
    "bp_lookup b k = None \<Longrightarrow> bp_lookup b' k = None" "is_ok r \<Longrightarrow> complete b \<Longrightarrow> complete b'"
    by blast+
qed

lemma ensureSpace_live:
  assumes inv: "pool_inv b" and h: "healthy (bp_disk b)"
    and room: "int (length (bp_table b)) < bp_poolSize b \<or> rep_cands (bp_replacer b) \<noteq> {}"
  shows "is_ok (fst (ensureSpaceLocked b))"
proof (cases "int (length (bp_table b)) < bp_poolSize b")
  case False
  then obtain s r where pick: "rep_PickVictim (bp_store b) (bp_replacer b) = (Some s, r)"
      and s: "s \<in> rep_cands (bp_replacer b)"
    using room rep.pick_nonempty [OF pool_invD(6) [OF inv]] by blast
  have inv1: "pool_inv (b\<lparr>bp_replacer := r\<rparr>)"
    using take_victim_keeps [OF inv pick] by (rule pool_keepsD)
  have at: "bp_lookup (b\<lparr>bp_replacer := r\<rparr>) (bs_key (bp_store b s)) = Some s"
    using pool_invD(7) [OF inv s] by simp
  obtain f b2 where fl: "flushSlotLocked (bs_key (bp_store b s)) s (b\<lparr>bp_replacer := r\<rparr>) = (f, b2)"
    by force
  then have "f = Ok ()"
    using flush_keeps(10) [OF inv1 at fl] h by simp
  then show ?thesis
    using False pick fl by (simp add: ensureSpaceLocked_def seq_def pure_def Let_def)
qed (simp add: ensureSpaceLocked_def)

section \<open>Loading and adding pages\<close>

lemma length_update_new: "map_of t k = None \<Longrightarrow> length (AList.update k v t) = Suc (length t)"
  by (induction t) (auto split: if_splits)

lemma add_slot_props:
  assumes inv: "pool_inv b" and new: "bp_lookup b key = None"
    and room: "int (length (bp_table b)) < bp_poolSize b"
    and ok: "slot_ok key (NewBufferSlot key pg)" and add: "add_slot key pg b = (r, b')"
  shows "r = Ok (bp_next b)" and "pool_inv b'"
    and "bp_lookup b' k = (if k = key then Some (bp_next b) else bp_lookup b k)"
    and "bp_store b' = (bp_store b)(bp_next b := NewBufferSlot key pg)"
    and "on_disk b' = on_disk b" and "bp_root b' = bp_root b" and "bp_poolSize b' = bp_poolSize b"
    and "bp_disk b' = bp_disk b"
    and "complete b \<Longrightarrow> complete b'"
proof -
  define s where "s = bp_next b"
  define b1 where "b1 = set_slot s (NewBufferSlot key pg)
    (b\<lparr>bp_table := AList.update key s (bp_table b), bp_next := s + 1\<rparr>)"
  have look: "bp_lookup b1 k = (if k = key then Some s else bp_lookup b k)" for k
    by (simp add: b1_def AList.update_conv')
  have fresh: "s \<notin> rep_cands (bp_replacer b)"
    using pool_invD(7) [OF inv, of s] pool_invD(4) [OF inv, of _ s] by (auto simp: s_def)
  have other: "s' \<noteq> s" if "bp_lookup b k = Some s'" for k s'
    using pool_invD(4) [OF inv that] by (simp add: s_def)
  have key: "bs_key (NewBufferSlot key pg) = key"
    by (simp add: NewBufferSlot_def)
  have inv1: "pool_inv b1"
  proof (rule pool_invI, goal_cases)
    case 3
    show ?case using room length_update_new [OF new] by (simp add: b1_def)
  next
    case (4 k' s')
    then show ?case
      using look [of k'] pool_invD(4,5) [OF inv, of k' s'] other [of k' s'] ok
      by (auto simp: b1_def s_def split: if_splits)
  next
    case 5
    have "bs_key (bp_store b1 s') = bs_key (bp_store b s')" if "s' \<in> rep_cands (bp_replacer b)" for s'
      using that fresh by (auto simp: b1_def)
    then show ?case
      using rep.inv_store [OF pool_invD(6) [OF inv]] by (simp add: b1_def)
  next
    case (6 s')
    then have "s' \<in> rep_cands (bp_replacer b)" "s' \<noteq> s" using fresh by (auto simp: b1_def)
    then show ?case
      using pool_invD(7,8) [OF inv, of s'] new look by (auto simp: b1_def)
  qed (use pool_invD [OF inv] in \<open>simp_all add: b1_def AList.distinct_update\<close>)
  have at: "bp_lookup b1 key = Some s" by (simp add: look)
  have res: "r = Ok s" "b' = touch s b1"
    using add by (simp_all add: add_slot_def b1_def s_def Let_def)
  show "pool_inv b'" using touch_inv(1) [OF inv1 at] res by simp
  show "bp_lookup b' k = (if k = key then Some (bp_next b) else bp_lookup b k)"
    using look by (simp add: res s_def)
  show "complete b'" if "complete b"
    unfolding complete_def
  proof (intro allI impI)
    fix k' s'
    assume l: "bp_lookup b' k' = Some s'" "\<not> bs_pinned (bp_store b' s')"
    have c: "rep_cands (bp_replacer b') = insert s (rep_cands (bp_replacer b))"
      using touch_inv(2) [OF inv1 at] res by (simp add: b1_def NewBufferSlot_def)
    show "s' \<in> rep_cands (bp_replacer b')"
      using l that look [of k'] other [of k' s'] c by (auto simp: complete_def res b1_def split: if_splits)
  qed
  show "r = Ok (bp_next b)" "bp_store b' = (bp_store b)(bp_next b := NewBufferSlot key pg)"
    "bp_root b' = bp_root b" "bp_poolSize b' = bp_poolSize b" "bp_disk b' = bp_disk b"
    by (simp_all add: res b1_def s_def)
  show "on_disk b' = on_disk b"
    by (simp add: fun_eq_iff on_disk_def bp_path_def res b1_def)
qed

text \<open>Adding a page changes nothing for the other pages; the new page is safe if the disk has it.\<close>

lemma add_slot_keeps:
  assumes inv: "pool_inv b" and new: "bp_lookup b key = None"
    and room: "int (length (bp_table b)) < bp_poolSize b"
    and ok: "slot_ok key (NewBufferSlot key pg)" and add: "add_slot key pg b = (r, b')"
  shows "k \<noteq> key \<Longrightarrow> safe b' k = safe b k \<and> pool_view b' k = pool_view b k"
    and "is_pinned b k \<Longrightarrow> is_pinned b' k"
    and "pool_view b' key = Some (hp_buf pg)"
    and "on_disk b key = Some (hp_buf pg) \<Longrightarrow> pool_keeps b b'"
proof -
  note p = add_slot_props [OF inv new room ok add]
  have other: "s' \<noteq> bp_next b" if "bp_lookup b k = Some s'" for k s'
    using pool_invD(4) [OF inv that] by simp
  show others: "safe b' k = safe b k \<and> pool_view b' k = pool_view b k" if "k \<noteq> key" for k
    using that other [of k] p(3) [of k] p(4,5) by (auto simp: safe_def pool_view_def split: option.splits)
  show pins: "is_pinned b' k" if pin: "is_pinned b k" for k
  proof -
    obtain s where s: "bp_lookup b k = Some s" "bs_pinned (bp_store b s)"
      using pin by (auto simp: is_pinned_def)
    then have "k \<noteq> key" "s \<noteq> bp_next b" using new other by auto
    with s show ?thesis using p(3) [of k] p(4) by (simp add: is_pinned_def)
  qed
  show view: "pool_view b' key = Some (hp_buf pg)"
    using p(3) [of key] p(4) by (simp add: pool_view_def NewBufferSlot_def)
  show "pool_keeps b b'" if "on_disk b key = Some (hp_buf pg)"
  proof -
    have "pool_view b key = Some (hp_buf pg)" using that new by (simp add: pool_view_def)
    moreover have "safe b' key"
      using that p(3) [of key] p(4,5) by (simp add: safe_def NewBufferSlot_def)
    ultimately have "safe b k \<longrightarrow> safe b' k \<and> pool_view b' k = pool_view b k" for k
      using others [of k] view by (cases "k = key") auto
    then show ?thesis
      using p(2,6-8) pins by (simp add: pool_keeps_def)
  qed
qed

lemma IncrementUsage_sel [simp]:
  "bs_key (IncrementUsage sl) = bs_key sl" "bs_page (IncrementUsage sl) = bs_page sl"
  "bs_dirty (IncrementUsage sl) = bs_dirty sl" "bs_pinned (IncrementUsage sl) = bs_pinned sl"
  by (simp_all add: IncrementUsage_def)

lemma touch_complete: "pool_inv b \<Longrightarrow> bp_lookup b k = Some s \<Longrightarrow> complete b \<Longrightarrow> complete (touch s b)"
  using touch_inv(2) [of b k s] by (auto simp: complete_def)

lemma loaded_slot_ok: "fm_Read pid path d = Ok pg \<Longrightarrow> pid = pk_pageID key \<Longrightarrow> slot_ok key (NewBufferSlot key pg)"
  by (auto simp: slot_ok_def NewBufferSlot_def dest: fm_Read_OkD)

text \<open>Loading a page that is not in the table.\<close>

lemma load_keeps:
  assumes inv: "pool_inv b" and new: "bp_lookup b key = None"
    and get: "getPageLocked key b = (r, b')"
  shows "pool_keeps b b' \<and> r \<noteq> Panic \<and> (\<forall>s. r = Ok s \<longrightarrow> bp_lookup b' key = Some s)
    \<and> (is_ok r \<longrightarrow> complete b \<longrightarrow> complete b')"
proof -
  obtain r1 b1 where es: "ensureSpaceLocked b = (r1, b1)" by force
  note e = ensureSpace_keeps [OF inv es]
  show ?thesis
  proof (cases r1)
    case (Ok u)
    have new1: "bp_lookup b1 key = None" using e(4) [OF new] .
    have room: "int (length (bp_table b1)) < bp_poolSize b1" using e(3) Ok by simp
    show ?thesis
    proof (cases "fm_Read (pk_pageID key) (bp_path b1 key) (bp_disk b1)")
      case pg: (Ok pg)
      then have add: "add_slot key pg b1 = (r, b')"
        using get es Ok new by (simp add: getPageLocked_def seq_def)
      note ok = loaded_slot_ok [OF pg refl]
      note p = add_slot_props [OF e(1) [THEN pool_keepsD(1)] new1 room ok add]
      have "on_disk b1 key = Some (hp_buf pg)"
        using fm_Read_OkD(1) [OF pg] by (simp add: on_disk_def)
      then have "pool_keeps b1 b'"
        using add_slot_keeps(4) [OF e(1) [THEN pool_keepsD(1)] new1 room ok add] by simp
      then have "pool_keeps b b'" using e(1) pool_keeps_trans by blast
      then show ?thesis
        using p(1,9) p(3) [of key] e(5) Ok by auto
    next
      case (Err er)
      then have "r = Err er" "b' = b1" using get es Ok new by (simp_all add: getPageLocked_def seq_def)
      then show ?thesis using e(1) by simp
    next
      case Panic
      then show ?thesis using fm_Read_not_Panic by blast
    qed
  next
    case (Err er)
    then have "r = Err er" "b' = b1" using get es new by (simp_all add: getPageLocked_def seq_def)
    then show ?thesis using e(1) by simp
  qed (use e(2) in simp)
qed

lemma getPageLocked_keeps:
  assumes inv: "pool_inv b" and get: "getPageLocked key b = (r, b')"
  shows "pool_keeps b b'" and "r \<noteq> Panic" and "r = Ok s \<Longrightarrow> bp_lookup b' key = Some s"
    and "is_ok r \<Longrightarrow> complete b \<Longrightarrow> complete b'"
proof -
  have "pool_keeps b b' \<and> r \<noteq> Panic \<and> (\<forall>s. r = Ok s \<longrightarrow> bp_lookup b' key = Some s)
    \<and> (is_ok r \<longrightarrow> complete b \<longrightarrow> complete b')"
  proof (cases "bp_lookup b key")
    case None
    then show ?thesis using load_keeps [OF inv _ get] by blast
  next
    case (Some s)
    let ?b = "set_slot s (IncrementUsage (bp_store b s)) b"
    have k: "pool_keeps b ?b" by (rule set_slot_keeps [OF inv Some]) simp_all
    have at: "bp_lookup ?b key = Some s" using Some by simp
    have res: "r = Ok s" "b' = touch s ?b"
      using get Some by (simp_all add: getPageLocked_def)
    have "pool_keeps b b'"
      using pool_keeps_trans [OF k touch_keeps [OF pool_keepsD(1) [OF k] at]] res by simp
    moreover have "complete b'" if "complete b"
      unfolding res
      by (rule touch_complete [OF pool_keepsD(1) [OF k] at]) (use that in \<open>auto simp: complete_def\<close>)
    ultimately show ?thesis using res Some by simp
  qed
  then show "pool_keeps b b'" "r \<noteq> Panic" "r = Ok s \<Longrightarrow> bp_lookup b' key = Some s"
    "is_ok r \<Longrightarrow> complete b \<Longrightarrow> complete b'"
    by blast+
qed

lemma getPageLocked_live:
  assumes inv: "pool_inv b" and h: "healthy (bp_disk b)" and page: "pool_view b key \<noteq> None"
    and room: "bp_lookup b key \<noteq> None \<or> int (length (bp_table b)) < bp_poolSize b
      \<or> rep_cands (bp_replacer b) \<noteq> {}"
  shows "is_ok (fst (getPageLocked key b))"
proof (cases "bp_lookup b key")
  case None
  obtain r1 b1 where es: "ensureSpaceLocked b = (r1, b1)" by force
  note e = ensureSpace_keeps [OF inv es]
  obtain u where r1: "r1 = Ok u"
    using ensureSpace_live [OF inv h] room None es by (cases r1) auto
  have "safe b key" using None by (simp add: safe_def)
  then have "pool_view b1 key = pool_view b key"
    using e(1) pool_keepsD(6) by blast
  then obtain bs where st: "on_disk b1 key = Some bs"
    using page e(4) [OF None] by (auto simp: pool_view_def)
  have h1: "healthy (bp_disk b1)"
    using h pool_keepsD(4) [OF e(1)] by (simp add: healthy_def)
  have "fm_Read (pk_pageID key) (bp_path b1 key) (bp_disk b1)
      = Ok \<lparr>hp_pageID = pk_pageID key, hp_buf = bs\<rparr>"
    by (rule fm_Read_stored [OF h1]) (use st in \<open>simp_all add: on_disk_def bp_path_def\<close>)
  then show ?thesis
    using None es r1 by (simp add: getPageLocked_def seq_def add_slot_def Let_def)
qed (simp add: getPageLocked_def)

text \<open>What a client reads through the slot it was given.\<close>

lemma view_slot: "bp_lookup b k = Some s \<Longrightarrow> pool_view b k = Some (hp_buf (bs_page (bp_store b s)))"
  by (simp add: pool_view_def)

lemma slot_or_load_keeps:
  assumes inv: "pool_inv b" and get: "slot_or_load key b = (r, b')"
  shows "pool_keeps b b'" and "r \<noteq> Panic" and "r = Ok s \<Longrightarrow> bp_lookup b' key = Some s"
    and "is_ok r \<Longrightarrow> complete b \<Longrightarrow> complete b'"
  using getPageLocked_keeps [OF inv, of key r b'] inv get
  by (auto simp: slot_or_load_def split: option.splits)

section \<open>The operations that change a page or a pin\<close>

text \<open>\<open>pool_sets key b b'\<close>: as \<open>pool_keeps\<close>, for every page but \<open>key\<close>.\<close>

definition pool_sets :: "PageKey \<Rightarrow> Pool \<Rightarrow> Pool \<Rightarrow> bool" where
  "pool_sets key b b' \<longleftrightarrow> pool_inv b' \<and> bp_root b' = bp_root b \<and> bp_poolSize b' = bp_poolSize b
     \<and> fs_fault (bp_disk b') = fs_fault (bp_disk b)
     \<and> (\<forall>k. k \<noteq> key \<longrightarrow> safe b k \<longrightarrow> safe b' k \<and> pool_view b' k = pool_view b k)
     \<and> (\<forall>k. k \<noteq> key \<longrightarrow> is_pinned b k \<longrightarrow> is_pinned b' k)"

lemma pool_keeps_sets: "pool_keeps b b' \<Longrightarrow> pool_sets key b b'"
  by (auto simp: pool_keeps_def pool_sets_def)

lemma pool_sets_trans [trans]: "pool_sets k b b' \<Longrightarrow> pool_sets k b' b'' \<Longrightarrow> pool_sets k b b''"
  by (auto simp: pool_sets_def)

lemma pool_setsD:
  assumes "pool_sets key b b'"
  shows "pool_inv b'" and "k \<noteq> key \<Longrightarrow> safe b k \<Longrightarrow> safe b' k"
    and "k \<noteq> key \<Longrightarrow> safe b k \<Longrightarrow> pool_view b' k = pool_view b k"
    and "k \<noteq> key \<Longrightarrow> is_pinned b k \<Longrightarrow> is_pinned b' k"
    and "bp_root b' = bp_root b" and "fs_fault (bp_disk b') = fs_fault (bp_disk b)"
    and "bp_poolSize b' = bp_poolSize b"
  using assms by (auto simp: pool_sets_def)

lemma set_slot_sets:
  assumes inv: "pool_inv b" and at: "bp_lookup b key = Some s" and ok: "slot_ok key sl"
    and pin: "bs_pinned sl \<Longrightarrow> s \<notin> rep_cands (bp_replacer b)"
  shows "pool_sets key b (set_slot s sl b)"
proof -
  let ?b = "set_slot s sl b"
  have "(safe b k \<longrightarrow> safe ?b k \<and> pool_view ?b k = pool_view b k) \<and> (is_pinned b k \<longrightarrow> is_pinned ?b k)"
    if "k \<noteq> key" for k
  proof -
    have "bp_lookup b k \<noteq> Some s"
      using pool_lookup_inj [OF inv at] that by blast
    then have "bp_store ?b s' = bp_store b s'" if "bp_lookup b k = Some s'" for s'
      using that by auto
    then show ?thesis
      by (auto simp: safe_def pool_view_def is_pinned_def split: option.splits)
  qed
  then show ?thesis
    using pool_inv_set_slot [OF inv at ok pin] by (simp add: pool_sets_def)
qed

text \<open>A page that callers may hand to the pool under \<open>key\<close>.\<close>

definition page_for :: "PageKey \<Rightarrow> HeapPage \<Rightarrow> bool" where
  "page_for key p \<longleftrightarrow> hp_pageID p = pk_pageID key \<and> valid_buf (hp_buf p)"

lemma UpdatePage_props:
  assumes inv: "pool_inv b" and p: "page_for key p" and up: "UpdatePage key (Some p) b = (r, b')"
  shows "pool_sets key b b'" and "r \<noteq> Panic"
    and "is_ok r \<Longrightarrow> pool_view b' key = Some (hp_buf p) \<and> safe b' key"
    and "\<not> is_ok r \<Longrightarrow> pool_keeps b b'"
    and "is_pinned b k \<Longrightarrow> is_pinned b' k"
    and "is_ok r \<Longrightarrow> complete b \<Longrightarrow> complete b'"
proof -
  obtain r1 b1 where ld: "slot_or_load key b = (r1, b1)" by force
  note l = slot_or_load_keeps [OF inv ld]
  have "pool_sets key b b' \<and> r \<noteq> Panic
    \<and> (is_ok r \<longrightarrow> pool_view b' key = Some (hp_buf p) \<and> safe b' key)
    \<and> (\<not> is_ok r \<longrightarrow> pool_keeps b b') \<and> (is_pinned b k \<longrightarrow> is_pinned b' k)
    \<and> (is_ok r \<longrightarrow> complete b \<longrightarrow> complete b')"
  proof (cases r1)
    case (Ok s)
    let ?sl = "(bp_store b1 s)\<lparr>bs_page := p, bs_dirty := True\<rparr>" and ?b = "set_slot s ((bp_store b1 s)\<lparr>bs_page := p, bs_dirty := True\<rparr>) b1"
    have inv1: "pool_inv b1" and at: "bp_lookup b1 key = Some s"
      using pool_keepsD(1) [OF l(1)] l(3) Ok by auto
    have res: "r = Ok ()" "b' = touch s ?b"
      using up ld Ok by (simp_all add: UpdatePage_def seq_def)
    have ok: "slot_ok key ?sl"
      using pool_invD(5) [OF inv1 at] p by (simp add: slot_ok_def page_for_def)
    have sets: "pool_sets key b1 ?b"
      by (rule set_slot_sets [OF inv1 at ok]) (use pool_invD(8) [OF inv1, of s] in auto)
    have at': "bp_lookup ?b key = Some s" using at by simp
    have inv2: "pool_inv ?b" using sets by (rule pool_setsD)
    note t = touch_keeps [OF inv2 at']
    have "pool_sets key b b'"
      using pool_sets_trans [OF pool_keeps_sets [OF l(1)] pool_sets_trans [OF sets pool_keeps_sets [OF t]]]
      by (simp add: res)
    moreover have "pool_view b' key = Some (hp_buf p) \<and> safe b' key"
      using at by (simp add: res pool_view_def safe_def)
    moreover have "is_pinned b' k" if "is_pinned b k"
      using pool_keepsD(7) [OF l(1) that] by (auto simp: res is_pinned_def)
    moreover have "complete b'" if "complete b"
      unfolding res by (rule touch_complete [OF inv2 at'])
        (use l(4) Ok that in \<open>auto simp: complete_def\<close>)
    ultimately show ?thesis using res by simp
  next
    case (Err e)
    then have "r = Err e" "b' = b1" using up ld by (simp_all add: UpdatePage_def seq_def)
    then show ?thesis
      using l(1) pool_keeps_sets pool_keepsD(7) by fastforce
  qed (use l(2) in simp)
  then show "pool_sets key b b'" "r \<noteq> Panic"
    "is_ok r \<Longrightarrow> pool_view b' key = Some (hp_buf p) \<and> safe b' key" "\<not> is_ok r \<Longrightarrow> pool_keeps b b'"
    "is_pinned b k \<Longrightarrow> is_pinned b' k" "is_ok r \<Longrightarrow> complete b \<Longrightarrow> complete b'"
    by blast+
qed

lemma NewPage_props:
  assumes inv: "pool_inv b" and p: "page_for key p" and pid: "0 \<le> pk_pageID key"
    and np: "NewPage key (Some p) b = (r, b')"
  shows "pool_sets key b b'" and "r \<noteq> Panic"
    and "r = Ok s \<Longrightarrow> bp_lookup b' key = Some s \<and> bp_lookup b key = None
      \<and> bp_store b' s = NewBufferSlot key p \<and> pool_view b' key = Some (hp_buf p)"
    and "\<not> is_ok r \<Longrightarrow> pool_keeps b b'"
    and "is_pinned b k \<Longrightarrow> is_pinned b' k"
    and "is_ok r \<Longrightarrow> complete b \<Longrightarrow> complete b'"
proof -
  have "pool_sets key b b' \<and> r \<noteq> Panic
    \<and> (\<forall>s. r = Ok s \<longrightarrow> bp_lookup b' key = Some s \<and> bp_lookup b key = None
      \<and> bp_store b' s = NewBufferSlot key p \<and> pool_view b' key = Some (hp_buf p))
    \<and> (\<not> is_ok r \<longrightarrow> pool_keeps b b') \<and> (is_pinned b k \<longrightarrow> is_pinned b' k)
    \<and> (is_ok r \<longrightarrow> complete b \<longrightarrow> complete b')"
  proof (cases "bp_lookup b key")
    case (Some s)
    then have "b' = b" "\<not> is_ok r" "r \<noteq> Panic"
      using np by (auto simp: NewPage_def)
    then show ?thesis using inv by (auto intro: pool_keeps_sets pool_keeps_refl)
  next
    case None
    obtain r1 b1 where es: "ensureSpaceLocked b = (r1, b1)" by force
    note e = ensureSpace_keeps [OF inv es]
    show ?thesis
    proof (cases r1)
      case (Ok u)
      note inv1 = pool_keepsD(1) [OF e(1)] and new = e(4) [OF None]
      have room: "int (length (bp_table b1)) < bp_poolSize b1" using e(3) Ok by simp
      have ok: "slot_ok key (NewBufferSlot key p)"
        using p pid by (simp add: slot_ok_def NewBufferSlot_def page_for_def)
      have add: "add_slot key p b1 = (r, b')" using np None es Ok by (simp add: NewPage_def seq_def)
      note a = add_slot_props [OF inv1 new room ok add] and k = add_slot_keeps [OF inv1 new room ok add]
      have "pool_sets key b1 b'"
        using a(2,6-8) k(1,2) by (simp add: pool_sets_def)
      then have "pool_sets key b b'"
        using pool_sets_trans [OF pool_keeps_sets [OF e(1)]] by blast
      moreover have "is_pinned b k \<longrightarrow> is_pinned b' k"
        using k(2) pool_keepsD(7) [OF e(1)] by blast
      moreover have "bp_store b' (bp_next b1) = NewBufferSlot key p"
        by (simp add: a(4))
      ultimately show ?thesis
        using a(1,9) a(3) [of key] k(3) e(5) Ok None by simp
    next
      case (Err er)
      then have "r = Err er" "b' = b1" using np None es by (simp_all add: NewPage_def seq_def)
      then show ?thesis using e(1) pool_keeps_sets pool_keepsD(7) [OF e(1)] by simp
    qed (use e(2) in simp)
  qed
  then show "pool_sets key b b'" "r \<noteq> Panic" "r = Ok s \<Longrightarrow> bp_lookup b' key = Some s \<and> bp_lookup b key = None
      \<and> bp_store b' s = NewBufferSlot key p \<and> pool_view b' key = Some (hp_buf p)"
    "\<not> is_ok r \<Longrightarrow> pool_keeps b b'" "is_pinned b k \<Longrightarrow> is_pinned b' k"
    "is_ok r \<Longrightarrow> complete b \<Longrightarrow> complete b'"
    by blast+
qed

lemma PinPage_props:
  assumes inv: "pool_inv b" and pin: "PinPage key b = (r, b')"
  shows "pool_keeps b b'" and "r \<noteq> Panic" and "is_ok r \<Longrightarrow> is_pinned b' key"
    and "is_ok r \<Longrightarrow> complete b \<Longrightarrow> complete b'"
proof -
  obtain r1 b1 where ld: "slot_or_load key b = (r1, b1)" by force
  note l = slot_or_load_keeps [OF inv ld]
  have "pool_keeps b b' \<and> r \<noteq> Panic \<and> (is_ok r \<longrightarrow> is_pinned b' key)
    \<and> (is_ok r \<longrightarrow> complete b \<longrightarrow> complete b')"
  proof (cases r1)
    case (Ok s)
    let ?sl = "(bp_store b1 s)\<lparr>bs_pinned := True\<rparr>"
    let ?st = "(bp_store b1)(s := ?sl)" and ?r = "bp_replacer b1"
    have inv1: "pool_inv b1" and at: "bp_lookup b1 key = Some s"
      using pool_keepsD(1) [OF l(1)] l(3) Ok by auto
    have key: "bs_key (bp_store b1 s) = key" using slot_okD(1) [OF pool_invD(5) [OF inv1 at]] .
    have res: "r = Ok ()" "b' = (set_slot s ?sl b1)\<lparr>bp_replacer := rep_Delete ?st key ?r\<rparr>"
      using pin ld Ok by (simp_all add: PinPage_def seq_def Let_def)
    have keys: "bs_key (?st s') = bs_key (bp_store b1 s')" for s' by simp
    have del: "rep_inv ?st (rep_Delete ?st key ?r)"
        "rep_cands (rep_Delete ?st key ?r) = {s' \<in> rep_cands ?r. bs_key (bp_store b1 s') \<noteq> key}"
      using rep.del_cands [OF rep.inv_store [OF pool_invD(6) [OF inv1], of ?st], of key] keys by auto
    have inv': "pool_inv b'"
    proof (rule pool_invI, goal_cases)
      case (4 k' s')
      then show ?case
        using pool_invD(4,5) [OF inv1, of k' s'] by (auto simp: res slot_ok_def)
    next
      case (6 s')
      then have "s' \<in> rep_cands ?r" "bs_key (bp_store b1 s') \<noteq> key"
        using del(2) by (simp_all add: res)
      then show ?case
        using pool_invD(7,8) [OF inv1, of s'] key by (auto simp: res)
    qed (use pool_invD [OF inv1] del(1) in \<open>simp_all add: res\<close>)
    have "on_disk b' = on_disk b1"
      by (simp add: fun_eq_iff on_disk_def bp_path_def res)
    then have "pool_keeps b1 b'"
      using inv' by (auto simp: pool_keeps_def safe_def pool_view_def is_pinned_def res split: option.splits)
    moreover have "is_pinned b' key" using at by (simp add: is_pinned_def res)
    moreover have "complete b'" if c: "complete b"
      unfolding complete_def
    proof (intro allI impI)
      fix k' s'
      assume "bp_lookup b' k' = Some s'" "\<not> bs_pinned (bp_store b' s')"
      then have a: "bp_lookup b1 k' = Some s'" "\<not> bs_pinned (bp_store b1 s')" "s' \<noteq> s"
        by (auto simp: res split: if_splits)
      moreover have "bs_key (bp_store b1 s') \<noteq> key"
        using a at slot_okD(1) [OF pool_invD(5) [OF inv1 a(1)]] by auto
      ultimately show "s' \<in> rep_cands (bp_replacer b')"
        using l(4) Ok c del(2) by (auto simp: complete_def res)
    qed
    ultimately show ?thesis using pool_keeps_trans [OF l(1)] res by simp
  next
    case (Err e)
    then have "r = Err e" "b' = b1" using pin ld by (simp_all add: PinPage_def seq_def)
    then show ?thesis using l(1) by simp
  qed (use l(2) in simp)
  then show "pool_keeps b b'" "r \<noteq> Panic" "is_ok r \<Longrightarrow> is_pinned b' key"
    "is_ok r \<Longrightarrow> complete b \<Longrightarrow> complete b'" by blast+
qed

lemma UnpinPage_props:
  assumes inv: "pool_inv b" and un: "UnpinPage key b = (r, b')"
  shows "r = Ok ()" and "pool_inv b'" and "pool_sets key b b'"
    and "pool_view b' = pool_view b" and "safe b' = safe b" and "\<not> is_pinned b' key"
    and "complete b \<Longrightarrow> complete b'"
proof -
  have "r = Ok () \<and> pool_inv b' \<and> pool_sets key b b' \<and> pool_view b' = pool_view b \<and> safe b' = safe b
    \<and> \<not> is_pinned b' key \<and> (complete b \<longrightarrow> complete b')"
  proof (cases "is_pinned b key")
    case False
    then have "r = Ok ()" "b' = b"
      using un by (auto simp: UnpinPage_def is_pinned_def split: option.splits if_splits)
    then show ?thesis using False inv by (simp add: pool_keeps_sets)
  next
    case True
    then obtain s where at: "bp_lookup b key = Some s" and p: "bs_pinned (bp_store b s)"
      by (auto simp: is_pinned_def)
    let ?b = "set_slot s ((bp_store b s)\<lparr>bs_pinned := False\<rparr>) b"
    have ok: "slot_ok key ((bp_store b s)\<lparr>bs_pinned := False\<rparr>)"
      using pool_invD(5) [OF inv at] by (simp add: slot_ok_def)
    have sets: "pool_sets key b ?b" by (rule set_slot_sets [OF inv at ok]) simp
    have res: "r = Ok ()" "b' = touch s ?b"
      using un at p by (simp_all add: UnpinPage_def touch_def Let_def)
    have at': "bp_lookup ?b key = Some s" using at by simp
    note t = touch_keeps [OF pool_setsD(1) [OF sets] at']
    have "pool_view b' = pool_view b" "safe b' = safe b"
      by (auto simp: fun_eq_iff res pool_view_def safe_def split: option.splits)
    moreover have "\<not> is_pinned b' key" using at by (simp add: res is_pinned_def)
    moreover have "complete b'" if "complete b"
      using touch_inv(2) [OF pool_setsD(1) [OF sets] at'] that
      by (auto simp: res complete_def split: if_splits)
    ultimately show ?thesis
      using pool_sets_trans [OF sets pool_keeps_sets [OF t]] pool_keepsD(1) [OF t] res by simp
  qed
  then show "r = Ok ()" "pool_inv b'" "pool_sets key b b'" "pool_view b' = pool_view b"
    "safe b' = safe b" "\<not> is_pinned b' key" "complete b \<Longrightarrow> complete b'" by blast+
qed

lemma FlushPage_props:
  assumes inv: "pool_inv b" and fl: "FlushPage key b = (r, b')"
  shows "pool_keeps b b'" and "r \<noteq> Panic" and "bp_table b' = bp_table b"
    and "is_ok r \<Longrightarrow> safe b key \<Longrightarrow> on_disk b' key = pool_view b key"
    and "complete b \<Longrightarrow> complete b'"
proof -
  have "pool_keeps b b' \<and> r \<noteq> Panic \<and> bp_table b' = bp_table b
    \<and> (is_ok r \<longrightarrow> safe b key \<longrightarrow> on_disk b' key = pool_view b key) \<and> (complete b \<longrightarrow> complete b')"
  proof (cases "bp_lookup b key")
    case None
    then show ?thesis using inv fl by (auto simp: FlushPage_def pool_view_def)
  next
    case (Some s)
    then have "flushSlotLocked key s b = (r, b')" using fl by (simp add: FlushPage_def)
    note f = flush_keeps [OF inv Some this]
    show ?thesis
      using f(1-3,9) Some f(4,5) by (auto simp: pool_view_def complete_def)
  qed
  then show "pool_keeps b b'" "r \<noteq> Panic" "bp_table b' = bp_table b"
    "is_ok r \<Longrightarrow> safe b key \<Longrightarrow> on_disk b' key = pool_view b key" "complete b \<Longrightarrow> complete b'" by blast+
qed

text \<open>A flush writes the content of the page, or leaves what the disk has.\<close>

lemma FlushPage_disk:
  assumes inv: "pool_inv b" and fl: "FlushPage key b = (r, b')"
  shows "on_disk b' k = on_disk b k \<or> on_disk b' k = pool_view b k"
proof (cases "\<exists>s. bp_lookup b key = Some s \<and> bs_dirty (bp_store b s)")
  case True
  then obtain s where at: "bp_lookup b key = Some s" and d: "bs_dirty (bp_store b s)" by blast
  then have "flushSlotLocked key s b = (r, b')" using fl by (simp add: FlushPage_def)
  from inv at d this show ?thesis
  proof (cases rule: flush_dirty)
    case (written d)
    then show ?thesis
      using written(5) [of k] at by (auto simp: pool_view_def)
  qed simp
next
  case False
  then have "b' = b"
    using fl by (auto simp: FlushPage_def flush_clean split: option.splits)
  then show ?thesis by simp
qed

lemma FlushAllPages_props:
  assumes "pool_inv b" and "FlushAllPages order b = (r, b')"
  shows "pool_keeps b b' \<and> r \<noteq> Panic \<and> bp_table b' = bp_table b
    \<and> (is_ok r \<longrightarrow> (\<forall>k \<in> set order. safe b k \<longrightarrow> on_disk b' k = pool_view b k))
    \<and> (\<forall>k. safe b k \<longrightarrow> on_disk b k = pool_view b k \<longrightarrow> on_disk b' k = pool_view b k)
    \<and> (healthy (bp_disk b) \<longrightarrow> r = Ok ())"
  using assms
proof (induction order arbitrary: b)
  case (Cons k order)
  have fp: "FlushPage k b = (case bp_lookup b k of None \<Rightarrow> (Ok (), b) | Some s \<Rightarrow> flushSlotLocked k s b)"
    by (simp add: FlushPage_def)
  obtain r1 b1 where b1: "FlushPage k b = (r1, b1)" by force
  note f = FlushPage_props [OF Cons.prems(1) b1]
  have live: "r1 = Ok ()" if "healthy (bp_disk b)"
    using flush_keeps(10) [OF Cons.prems(1), of k] that b1 by (auto simp: fp split: option.splits)
  have rest: "FlushAllPages (k # order) b = (case r1 of Ok _ \<Rightarrow> FlushAllPages order b1
      | Err e \<Rightarrow> (Err e, b1) | Panic \<Rightarrow> (Panic, b1))"
    using b1 by (auto simp: fp seq_def split: option.splits result.splits prod.splits)
  show ?case
  proof (cases r1)
    case (Ok u)
    then have "FlushAllPages order b1 = (r, b')" using rest Cons.prems(2) by simp
    note ih = Cons.IH [OF pool_keepsD(1) [OF f(1)] this]
    have stay: "on_disk b' k' = pool_view b k'" if "safe b k'" "on_disk b k' = pool_view b k'" for k'
      using ih FlushPage_disk [OF Cons.prems(1) b1, of k'] pool_keepsD(5,6) [OF f(1) that(1)] that(2)
      by auto
    have "on_disk b' k' = pool_view b k'" if "is_ok r" "k' \<in> set (k # order)" "safe b k'" for k'
    proof (cases "k' \<in> set order")
      case True
      then show ?thesis using ih that pool_keepsD(5,6) [OF f(1) that(3)] by simp
    next
      case False
      then have "k' = k" using that by simp
      moreover have "on_disk b1 k = pool_view b k" using f(4) Ok that calculation by simp
      ultimately show ?thesis
        using ih pool_keepsD(5,6) [OF f(1) that(3)] by simp
    qed
    moreover have "healthy (bp_disk b1)" if "healthy (bp_disk b)"
      using that pool_keepsD(4) [OF f(1)] by (simp add: healthy_def)
    moreover have "r1 \<noteq> Panic" using f(2) .
    ultimately show ?thesis using ih f(1,3) stay pool_keeps_trans [OF f(1)] by auto
  next
    case (Err e)
    then have res: "r = Err e" "b' = b1" using rest Cons.prems(2) by simp_all
    have "\<forall>k. safe b k \<longrightarrow> on_disk b k = pool_view b k \<longrightarrow> on_disk b1 k = pool_view b k"
      using FlushPage_disk [OF Cons.prems(1) b1] by metis
    then show ?thesis using f(1,3) live res Err by auto
  qed (use f(2) in simp)
qed auto

lemma flushBatch_loop_keeps: "pool_inv b \<Longrightarrow> pool_keeps b (flushBatch_loop n i dirty b)"
proof (induction dirty arbitrary: b i)
  case (Cons s dirty)
  obtain r b1 where b1: "FlushPage (bs_key (bp_store b s)) b = (r, b1)" by force
  note f = FlushPage_props(1) [OF Cons.prems b1]
  have "pool_keeps b1 (flushBatch_loop n j dirty b1)" for j
    using Cons.IH pool_keepsD(1) [OF f] by blast
  then show ?case
    using f b1 Cons.prems pool_keeps_trans [OF f] by (auto split: result.splits)
qed simp

text \<open>With no failing write and a large enough batch the batch is a flush of all dirty pages.\<close>

lemma flushBatch_loop_all:
  assumes "pool_inv b" and "healthy (bp_disk b)" and "i + int (length dirty) \<le> n"
    and "\<forall>s \<in> set dirty. bs_key (bp_store b s) = f s"
  shows "flushBatch_loop n i dirty b = snd (FlushAllPages (map f dirty) b)"
  using assms
proof (induction dirty arbitrary: b i)
  case (Cons s dirty)
  have key: "bs_key (bp_store b s) = f s" using Cons.prems(4) by simp
  obtain r b1 where b1: "FlushPage (f s) b = (r, b1)" by force
  note p = FlushPage_props [OF Cons.prems(1) b1]
  have r: "r = Ok ()"
    using flush_keeps(10) [OF Cons.prems(1), of "f s"] Cons.prems(2) b1
    by (auto simp: FlushPage_def split: option.splits)
  have keys: "bs_key (bp_store b1 s') = bs_key (bp_store b s')" for s'
    using flush_keeps(6) [OF Cons.prems(1), of "f s"] b1
    by (auto simp: FlushPage_def split: option.splits)
  have "healthy (bp_disk b1)"
    using Cons.prems(2) pool_keepsD(4) [OF p(1)] by (simp add: healthy_def)
  then have "flushBatch_loop n (i + 1) dirty b1 = snd (FlushAllPages (map f dirty) b1)"
    using Cons.prems(3,4) keys by (intro Cons.IH pool_keepsD(1) [OF p(1)]) auto
  moreover have "FlushAllPages (map f (s # dirty)) b = FlushAllPages (map f dirty) b1"
    using b1 r by (auto simp: FlushPage_def seq_def split: option.splits)
  ultimately show ?case
    using b1 r key Cons.prems(3) by simp
qed simp

section \<open>Executions\<close>

text \<open>
  The operations of the pool as a labelled step relation. A page handed to \<open>NewPage\<close> or
  \<open>UpdatePage\<close> belongs to the key; the environment may make system calls fail or succeed.
\<close>

datatype pool_op = OpGet PageKey | OpNew PageKey HeapPage | OpUpdate PageKey HeapPage
  | OpPin PageKey | OpUnpin PageKey | OpFlush PageKey | OpFlushAll "PageKey list"
  | OpBatch int "PageKey list" | OpFaults "string \<Rightarrow> fs_op \<Rightarrow> bool"

inductive pool_step :: "Pool \<Rightarrow> pool_op \<Rightarrow> Pool \<Rightarrow> bool" where
  get: "GetPage k b = (r, b') \<Longrightarrow> pool_step b (OpGet k) b'"
| new_page: "page_for k p \<Longrightarrow> 0 \<le> pk_pageID k \<Longrightarrow> NewPage k (Some p) b = (r, b')
    \<Longrightarrow> pool_step b (OpNew k p) b'"
| update: "page_for k p \<Longrightarrow> UpdatePage k (Some p) b = (r, b') \<Longrightarrow> pool_step b (OpUpdate k p) b'"
| pin: "PinPage k b = (r, b') \<Longrightarrow> pool_step b (OpPin k) b'"
| unpin: "UnpinPage k b = (r, b') \<Longrightarrow> pool_step b (OpUnpin k) b'"
| flush: "FlushPage k b = (r, b') \<Longrightarrow> pool_step b (OpFlush k) b'"
| flush_all: "FlushAllPages order b = (r, b') \<Longrightarrow> pool_step b (OpFlushAll order) b'"
| batch: "flushBatch n order b = b' \<Longrightarrow> pool_step b (OpBatch n order) b'"
| faults: "b' = b\<lparr>bp_disk := (bp_disk b)\<lparr>fs_fault := f\<rparr>\<rparr> \<Longrightarrow> pool_step b (OpFaults f) b'"

inductive pool_run :: "Pool \<Rightarrow> pool_op list \<Rightarrow> Pool \<Rightarrow> bool" where
  nil: "pool_run b [] b"
| cons: "pool_step b a b' \<Longrightarrow> pool_run b' as b'' \<Longrightarrow> pool_run b (a # as) b''"

inductive_cases pool_stepE: "pool_step b a b'"
inductive_simps pool_run_simps: "pool_run b [] b'" "pool_run b (a # as) b'"

text \<open>The pages an operation may change.\<close>

fun op_target :: "pool_op \<Rightarrow> PageKey set" where
  "op_target (OpNew k p) = {k}"
| "op_target (OpUpdate k p) = {k}"
| "op_target _ = {}"

lemma faults_same:
  assumes "b' = b\<lparr>bp_disk := (bp_disk b)\<lparr>fs_fault := f\<rparr>\<rparr>"
  shows "pool_inv b \<Longrightarrow> pool_inv b'" and "safe b' = safe b" and "pool_view b' = pool_view b"
    and "is_pinned b' = is_pinned b" and "bp_poolSize b' = bp_poolSize b"
proof -
  have d: "on_disk b' = on_disk b"
    by (simp add: fun_eq_iff on_disk_def bp_path_def assms stored_page_def)
  show "safe b' = safe b" and "pool_view b' = pool_view b" and "is_pinned b' = is_pinned b"
    using d by (auto simp: fun_eq_iff assms safe_def pool_view_def is_pinned_def split: option.splits)
  show "pool_inv b \<Longrightarrow> pool_inv b'"
    by (simp add: assms pool_inv_def disk_inv_def)
qed (simp add: assms)

lemma pool_step_safe:
  assumes "pool_step b a b'" and "pool_inv b"
  shows "pool_inv b'" and "bp_poolSize b' = bp_poolSize b"
    and "k \<notin> op_target a \<Longrightarrow> safe b k \<Longrightarrow> safe b' k \<and> pool_view b' k = pool_view b k"
    and "a \<noteq> OpUnpin k \<Longrightarrow> is_pinned b k \<Longrightarrow> is_pinned b' k"
proof -
  have "pool_inv b' \<and> bp_poolSize b' = bp_poolSize b
    \<and> (k \<notin> op_target a \<longrightarrow> safe b k \<longrightarrow> safe b' k \<and> pool_view b' k = pool_view b k)
    \<and> (a \<noteq> OpUnpin k \<longrightarrow> is_pinned b k \<longrightarrow> is_pinned b' k)"
    using assms
  proof (cases rule: pool_step.cases)
    case (get k' r)
    then show ?thesis using getPageLocked_keeps(1) [OF assms(2)] by (auto simp: GetPage_def pool_keeps_def)
  next
    case (new_page k' p r)
    note n = NewPage_props [OF assms(2) new_page(2,3,4)]
    show ?thesis
      using n(1) n(5) [of k] by (auto simp: pool_sets_def new_page(1))
  next
    case (update k' p r)
    note n = UpdatePage_props [OF assms(2) update(2,3)]
    show ?thesis
      using n(1) n(5) [of k] by (auto simp: pool_sets_def update(1))
  next
    case (pin k' r)
    then show ?thesis using PinPage_props(1) [OF assms(2)] by (auto simp: pool_keeps_def)
  next
    case (unpin k' r)
    then show ?thesis using UnpinPage_props [OF assms(2) unpin(2)] by (auto simp: pool_sets_def)
  next
    case (flush k' r)
    then show ?thesis using FlushPage_props(1) [OF assms(2)] by (auto simp: pool_keeps_def)
  next
    case (flush_all order r)
    then show ?thesis using FlushAllPages_props [OF assms(2)] by (auto simp: pool_keeps_def)
  next
    case (batch n order)
    then show ?thesis
      using flushBatch_loop_keeps [OF assms(2)] by (auto simp: flushBatch_def pool_keeps_def)
  next
    case (faults f)
    then show ?thesis using faults_same [OF faults(2)] assms(2) by simp
  qed
  then show "pool_inv b'" "bp_poolSize b' = bp_poolSize b"
    "k \<notin> op_target a \<Longrightarrow> safe b k \<Longrightarrow> safe b' k \<and> pool_view b' k = pool_view b k"
    "a \<noteq> OpUnpin k \<Longrightarrow> is_pinned b k \<Longrightarrow> is_pinned b' k" by blast+
qed

lemma pool_run_safe:
  assumes "pool_run b as b'" and "pool_inv b"
  shows "pool_inv b' \<and> bp_poolSize b' = bp_poolSize b
    \<and> ((\<forall>a \<in> set as. k \<notin> op_target a) \<longrightarrow> safe b k \<longrightarrow> safe b' k \<and> pool_view b' k = pool_view b k)
    \<and> (OpUnpin k \<notin> set as \<longrightarrow> is_pinned b k \<longrightarrow> is_pinned b' k)"
  using assms
proof (induction rule: pool_run.induct)
  case (cons b a b' as b'')
  note st = pool_step_safe [OF cons.hyps(1) cons.prems]
  show ?case
    using cons.IH [OF st(1)] st(2) st(3,4) [of k] by auto
qed simp

lemma pool_inv_new:
  assumes "NewHeapBufferPoolManager n (Some r) root d = Ok b" and "disk_inv d"
    and "r = LRU NewLRUReplacer \<or> r = Clock NewClockReplacer"
  shows "pool_inv b"
proof -
  have b: "b = \<lparr>bp_poolSize = n, bp_replacer = r, bp_root = root, bp_table = [],
      bp_store = (\<lambda>_. no_slot), bp_next = 0, bp_disk = d\<rparr>" and "0 < n"
    using assms(1) by (auto simp: NewHeapBufferPoolManager_def split: if_splits)
  moreover have "rep_inv st r" "rep_cands r = {}" for st
    using assms(3) lru_inv_new clock_inv_new
    by (auto simp: lru_cands_def lru_order_def NewLRUReplacer_def clock_cands_def NewClockReplacer_def)
  ultimately show ?thesis using assms(2) by (simp add: pool_inv_def)
qed

section \<open>Properties\<close>

text \<open>A pool, two pages and keys for the witnesses below.\<close>

definition sample_key :: "nat \<Rightarrow> PageKey" where
  "sample_key i = NewPageKey ''t'' (int i)"

definition sample_page :: "nat \<Rightarrow> HeapPage" where
  "sample_page i = (case NewHeapPage (int i) of Ok p \<Rightarrow> p | _ \<Rightarrow> \<lparr>hp_pageID = 0, hp_buf = []\<rparr>)"

definition empty_disk :: Disk where
  "empty_disk = \<lparr>fs_files = Map.empty, fs_fault = (\<lambda>_ _. False)\<rparr>"

definition sample_pool :: Pool where
  "sample_pool = \<lparr>bp_poolSize = 1, bp_replacer = LRU NewLRUReplacer, bp_root = ''d'', bp_table = [],
     bp_store = (\<lambda>_. no_slot), bp_next = 0, bp_disk = empty_disk\<rparr>"

lemma sample_new: "NewHeapBufferPoolManager 1 (Some (LRU NewLRUReplacer)) ''d'' empty_disk = Ok sample_pool"
  by (simp add: NewHeapBufferPoolManager_def sample_pool_def)

lemma empty_disk_inv [simp]: "disk_inv empty_disk" "healthy empty_disk"
  by (simp_all add: disk_inv_def healthy_def empty_disk_def)

lemma sample_pool_inv [simp]: "pool_inv sample_pool"
  by (rule pool_inv_new [OF sample_new]) simp_all

lemma sample_page_for [simp]: "page_for (sample_key i) (sample_page i)"
  using NewHeapPage_ok [of "int i"]
  by (auto simp: page_for_def sample_key_def sample_page_def NewPageKey_def page_inv_valid_buf)

lemma sample_key_sel [simp]:
  "pk_pageID (sample_key i) = int i" "sample_key i = sample_key j \<longleftrightarrow> i = j"
  by (auto simp: sample_key_def NewPageKey_def)

text \<open>The pool after a first page was added, and after it was updated.\<close>

definition sample_pool1 :: Pool where
  "sample_pool1 = snd (NewPage (sample_key 0) (Some (sample_page 0)) sample_pool)"

definition sample_pool2 :: Pool where
  "sample_pool2 = snd (UpdatePage (sample_key 0) (Some (sample_page 0)) sample_pool1)"

lemma sample_new_page:
  "NewPage (sample_key 0) (Some (sample_page 0)) sample_pool = (Ok 0, sample_pool1)"
  by (simp add: sample_pool1_def NewPage_def seq_def ensureSpaceLocked_def add_slot_def Let_def)
     (simp add: sample_pool_def)

lemma sample_pool1_inv [simp]: "pool_inv sample_pool1"
  using NewPage_props(1) [OF sample_pool_inv sample_page_for _ sample_new_page] pool_setsD(1) by simp

lemma sample_pool1_lookup: "bp_lookup sample_pool1 (sample_key 0) = Some 0"
  using NewPage_props(3) [OF sample_pool_inv sample_page_for _ sample_new_page refl] by simp

lemma sample_update:
  "UpdatePage (sample_key 0) (Some (sample_page 0)) sample_pool1 = (Ok (), sample_pool2)"
  using sample_pool1_lookup by (simp add: sample_pool2_def UpdatePage_def seq_def slot_or_load_def)

text \<open>C3: whatever operations run, from a new pool, the invariant holds, at most poolSize pages are
  buffered, and a page that no operation created or updated is still read as the disk had it at
  the start.\<close>

theorem pool_execution_safe:
  assumes "NewHeapBufferPoolManager n (Some r) root d = Ok b"
    and "r = LRU NewLRUReplacer \<or> r = Clock NewClockReplacer"
    and "disk_inv d" and "pool_run b as b'"
  shows "pool_inv b' \<and> int (length (bp_table b')) \<le> n
    \<and> ((\<forall>a \<in> set as. k \<notin> op_target a)
        \<longrightarrow> pool_view b' k = stored_page d (path_Join root (pk_fileID k)) (pk_pageID k))"
proof -
  have b: "bp_table b = []" "bp_disk b = d" "bp_root b = root" "bp_poolSize b = n"
    using assms(1) by (auto simp: NewHeapBufferPoolManager_def split: if_splits)
  then have "safe b k" "pool_view b k = stored_page d (path_Join root (pk_fileID k)) (pk_pageID k)"
    by (simp_all add: safe_def pool_view_def on_disk_def bp_path_def)
  moreover note pool_run_safe [OF assms(4) pool_inv_new [OF assms(1,3,2)], of k]
  ultimately show ?thesis
    using pool_invD(3) [of b'] b(4) by metis
qed

theorem pool_execution_safe_witness:
  "pool_inv sample_pool1 \<and> int (length (bp_table sample_pool1)) \<le> 1
    \<and> pool_view sample_pool1 (sample_key 1) = None"
proof -
  have "pool_run sample_pool [OpNew (sample_key 0) (sample_page 0)] sample_pool1"
    by (auto intro!: pool_run.intros pool_step.new_page [OF _ _ sample_new_page])
  from pool_execution_safe [OF sample_new _ empty_disk_inv(1) this, of "sample_key 1"] show ?thesis
    by (simp add: stored_page_def empty_disk_def)
qed

text \<open>C16: after an UpdatePage that succeeded, every later GetPage of that page that succeeds returns a
  slot with that content, whatever operations on other pages, evictions, flushes and failing
  writes happen in between.\<close>

theorem UpdatePage_read_back:
  assumes "pool_inv b" and "page_for key p" and "UpdatePage key (Some p) b = (Ok u, b1)"
    and "pool_run b1 as b2" and "\<forall>a \<in> set as. key \<notin> op_target a"
    and "GetPage key b2 = (Ok s, b3)"
  shows "hp_buf (bs_page (bp_store b3 s)) = hp_buf p"
proof -
  note u = UpdatePage_props [OF assms(1-3)]
  have inv1: "pool_inv b1" using u(1) by (rule pool_setsD)
  have 2: "pool_inv b2" "safe b2 key" "pool_view b2 key = Some (hp_buf p)"
    using pool_run_safe [OF assms(4) inv1, of key] assms(5) u(3) by auto
  note g = getPageLocked_keeps [OF 2(1) assms(6) [unfolded GetPage_def]]
  have "pool_view b3 key = Some (hp_buf p)"
    using pool_keepsD(6) [OF g(1) 2(2)] 2(3) by simp
  then show ?thesis using view_slot [OF g(3) [OF refl]] by simp
qed

theorem UpdatePage_read_back_witness:
  "hp_buf (bs_page (bp_store (snd (GetPage (sample_key 0) sample_pool2)) 0)) = hp_buf (sample_page 0)"
proof -
  have "bp_lookup sample_pool2 (sample_key 0) = Some 0"
    using sample_pool1_lookup
    by (simp add: sample_pool2_def UpdatePage_def seq_def slot_or_load_def)
  then have "GetPage (sample_key 0) sample_pool2 = (Ok 0, snd (GetPage (sample_key 0) sample_pool2))"
    by (simp add: GetPage_def getPageLocked_def)
  then show ?thesis
    by (rule UpdatePage_read_back [OF sample_pool1_inv sample_page_for sample_update pool_run.nil, rotated]) simp
qed

text \<open>C19: a pinned page stays in the pool, pinned, until it is unpinned: no eviction takes it.\<close>

theorem pinned_never_evicted:
  assumes "pool_inv b" and "PinPage key b = (Ok u, b1)" and "pool_run b1 as b2"
    and "OpUnpin key \<notin> set as"
  shows "is_pinned b2 key"
  using PinPage_props(1,3) [OF assms(1,2)] pool_run_safe [OF assms(3), of key] assms(4)
  by (simp add: pool_keeps_def)

theorem pinned_never_evicted_witness:
  "is_pinned (snd (PinPage (sample_key 0) sample_pool1)) (sample_key 0)"
proof -
  have "PinPage (sample_key 0) sample_pool1 = (Ok (), snd (PinPage (sample_key 0) sample_pool1))"
    using sample_pool1_lookup by (simp add: PinPage_def slot_or_load_def seq_def Let_def)
  then show ?thesis
    by (rule pinned_never_evicted [OF sample_pool1_inv _ pool_run.nil]) simp
qed

lemma flushed_view:
  assumes "pool_inv b" and "FlushAllPages order b = (Ok u, b')"
    and "set order = fst ` set (bp_table b)" and "safe b k"
    and "NewHeapBufferPoolManager n (Some r) (bp_root b) (bp_disk b') = Ok b2"
  shows "pool_view b2 k = pool_view b k"
proof -
  note f = FlushAllPages_props [OF assms(1,2)]
  have root: "bp_root b' = bp_root b" using f pool_keepsD(2) by blast
  have "on_disk b' k = pool_view b k"
  proof (cases "bp_lookup b k")
    case None
    then have "on_disk b k = pool_view b k"
      by (simp add: pool_view_def)
    then show ?thesis using f assms(4) by simp
  next
    case (Some s)
    then have "k \<in> set order"
      using assms(3) by (force dest: map_of_SomeD)
    then show ?thesis using f assms(4) by simp
  qed
  moreover have "bp_table b2 = []" "bp_disk b2 = bp_disk b'" "bp_root b2 = bp_root b'"
    using assms(5) root by (auto simp: NewHeapBufferPoolManager_def split: if_splits)
  ultimately show ?thesis
    by (simp add: pool_view_def on_disk_def bp_path_def)
qed

text \<open>C17: after a FlushAllPages that succeeded, a pool newly opened over the resulting disk shows
  every safe page as the old pool did: nothing is lost at a shutdown.\<close>

theorem FlushAllPages_durable:
  assumes "pool_inv b" and "FlushAllPages order b = (Ok u, b')"
    and "set order = fst ` set (bp_table b)" and "safe b k"
    and "NewHeapBufferPoolManager n (Some r) (bp_root b) (bp_disk b') = Ok b2"
  shows "pool_view b2 k = pool_view b k"
  using assms by (rule flushed_view)

lemma sample_pool2_props:
  "pool_inv sample_pool2" "safe sample_pool2 (sample_key 0)"
  "pool_view sample_pool2 (sample_key 0) = Some (hp_buf (sample_page 0))"
  "bp_table sample_pool2 = [(sample_key 0, 0)]" "bp_root sample_pool2 = ''d''"
  "healthy (bp_disk sample_pool2)" "bp_lookup sample_pool2 (sample_key 0) = Some 0"
proof -
  note u = UpdatePage_props [OF sample_pool1_inv sample_page_for sample_update]
  show "pool_inv sample_pool2" using u(1) by (rule pool_setsD)
  show "safe sample_pool2 (sample_key 0)" "pool_view sample_pool2 (sample_key 0) = Some (hp_buf (sample_page 0))"
    using u(3) by simp_all
  have t1: "bp_table sample_pool1 = [(sample_key 0, 0)]" "bp_root sample_pool1 = ''d''"
      "bp_disk sample_pool1 = empty_disk"
    by (simp_all add: sample_pool1_def NewPage_def seq_def ensureSpaceLocked_def add_slot_def Let_def)
       (simp_all add: sample_pool_def)
  then show "bp_table sample_pool2 = [(sample_key 0, 0)]" "bp_root sample_pool2 = ''d''"
      "healthy (bp_disk sample_pool2)"
    by (simp_all add: sample_pool2_def UpdatePage_def seq_def slot_or_load_def)
  then show "bp_lookup sample_pool2 (sample_key 0) = Some 0" by simp
qed

theorem FlushAllPages_durable_witness:
  "pool_view (case NewHeapBufferPoolManager 2 (Some (Clock NewClockReplacer)) ''d''
       (bp_disk (snd (FlushAllPages [sample_key 0] sample_pool2))) of Ok b \<Rightarrow> b | _ \<Rightarrow> sample_pool)
     (sample_key 0) = pool_view sample_pool2 (sample_key 0)"
proof -
  obtain r b' where fl: "FlushAllPages [sample_key 0] sample_pool2 = (r, b')" by force
  then have ok: "FlushAllPages [sample_key 0] sample_pool2 = (Ok (), b')"
    using FlushAllPages_props [OF sample_pool2_props(1) fl] sample_pool2_props(6) by simp
  have new: "NewHeapBufferPoolManager 2 (Some (Clock NewClockReplacer)) (bp_root sample_pool2)
      (bp_disk b') = Ok (case NewHeapBufferPoolManager 2 (Some (Clock NewClockReplacer)) ''d'' (bp_disk b')
        of Ok b \<Rightarrow> b | _ \<Rightarrow> sample_pool)"
    by (simp add: NewHeapBufferPoolManager_def sample_pool2_props(5))
  show ?thesis
    using FlushAllPages_durable [OF sample_pool2_props(1) ok _ sample_pool2_props(2) new] fl
    by (simp add: sample_pool2_props(4))
qed

lemma getPage_present:
  assumes "pool_inv b" and "bp_lookup b key = Some s" and "getPageLocked key b = (r, b')"
  shows "r = Ok s" and "bp_lookup b' = bp_lookup b" and "pool_view b' = pool_view b"
  using assms by (auto simp: getPageLocked_def fun_eq_iff pool_view_def on_disk_def bp_path_def split: option.splits)

text \<open>C20: while the disk works and every unpinned buffered page is known to the replacer (complete:
  no write of a victim has failed before), GetPage of a page that exists succeeds whenever the page is buffered,
  the pool has room, or some buffered page is unpinned. It returns the logical content of the page and
  keeps the content of every page whose buffered content is marked dirty or already on disk (a page that
  NewPage added and nobody updated since may be evicted and lost); the pool stays such that this holds again.\<close>

theorem GetPage_succeeds:
  assumes inv: "pool_inv b" and "complete b" and "healthy (bp_disk b)" and "pool_view b key = Some bs"
    and "bp_lookup b key \<noteq> None \<or> int (length (bp_table b)) < bp_poolSize b
      \<or> (\<exists>k s. bp_lookup b k = Some s \<and> \<not> is_pinned b k)"
  shows "\<exists>s b'. GetPage key b = (Ok s, b') \<and> hp_buf (bs_page (bp_store b' s)) = bs
    \<and> pool_inv b' \<and> (\<forall>k. safe b k \<longrightarrow> safe b' k \<and> pool_view b' k = pool_view b k) \<and> pool_keeps b b' \<and> complete b'"
proof -
  have "rep_cands (bp_replacer b) \<noteq> {}" if "\<exists>k s. bp_lookup b k = Some s \<and> \<not> is_pinned b k"
    using that assms(2) by (auto simp: complete_def is_pinned_def)
  then have "is_ok (fst (getPageLocked key b))"
    using assms(4,5) by (intro getPageLocked_live [OF inv assms(3)]) auto
  then obtain s b' where g: "getPageLocked key b = (Ok s, b')"
    by (cases "getPageLocked key b"; cases "fst (getPageLocked key b)") auto
  note k = getPageLocked_keeps [OF inv g]
  have "pool_view b' key = Some bs"
  proof (cases "bp_lookup b key")
    case None
    then have "safe b key" by (simp add: safe_def)
    then show ?thesis using pool_keepsD(6) [OF k(1)] assms(4) by simp
  next
    case (Some s')
    then show ?thesis using getPage_present(3) [OF inv Some g] assms(4) by simp
  qed
  then show ?thesis
    using g k(1,4) assms(2) view_slot [OF k(3) [OF refl]] pool_keepsD(1,5,6) [OF k(1)] by (simp add: GetPage_def)
qed

theorem GetPage_succeeds_witness:
  "\<exists>s b'. GetPage (sample_key 0) sample_pool2 = (Ok s, b')
    \<and> hp_buf (bs_page (bp_store b' s)) = hp_buf (sample_page 0) \<and> complete b'"
proof -
  have "complete sample_pool" by (simp add: complete_def sample_pool_def)
  then have "complete sample_pool1"
    using NewPage_props(6) [OF sample_pool_inv sample_page_for _ sample_new_page] by simp
  then have "complete sample_pool2"
    using UpdatePage_props(6) [OF sample_pool1_inv sample_page_for sample_update] by simp
  from GetPage_succeeds [OF sample_pool2_props(1) this, of "sample_key 0"] show ?thesis
    by (simp add: sample_pool2_props) blast
qed

text \<open>C34: a page just added by NewPage is not dirty: no flush writes it, so unless the disk already
  had this content the page is lost if it is evicted before an UpdatePage.\<close>

theorem NewPage_not_flushed:
  assumes "pool_inv b" and "page_for key p" and "0 \<le> pk_pageID key"
    and "NewPage key (Some p) b = (Ok s, b')" and "on_disk b' key \<noteq> Some (hp_buf p)"
  shows "FlushPage key b' = (Ok (), b') \<and> \<not> safe b' key
    \<and> s \<notin> set (DirtyPages order b')"
proof -
  note n = NewPage_props(3) [OF assms(1-4) refl]
  have clean: "\<not> bs_dirty (bp_store b' s)"
    using n by (simp add: NewBufferSlot_def)
  then show ?thesis
    using n assms(5) by (auto simp: FlushPage_def flush_clean safe_def DirtyPages_def NewBufferSlot_def)
qed

theorem NewPage_not_flushed_witness:
  "FlushPage (sample_key 0) sample_pool1 = (Ok (), sample_pool1) \<and> \<not> safe sample_pool1 (sample_key 0)
    \<and> 0 \<notin> set (DirtyPages [sample_key 0] sample_pool1)"
proof (rule NewPage_not_flushed [OF sample_pool_inv sample_page_for _ sample_new_page])
  have "bp_disk sample_pool1 = empty_disk"
    by (simp add: sample_pool1_def NewPage_def seq_def ensureSpaceLocked_def add_slot_def Let_def)
       (simp add: sample_pool_def)
  then show "on_disk sample_pool1 (sample_key 0) \<noteq> Some (hp_buf (sample_page 0))"
    by (simp add: on_disk_def stored_page_def empty_disk_def)
qed simp

end
