(* ===== verification/CatalogFile.thy ===== *)
theory CatalogFile
  imports BufferPool
begin

text \<open>
  The catalog's record files: the file operations of
  \<open>internal/core/catalog/manager/default_catalog_manager.go\<close>. The records of one kind are a log, a
  file of slotted pages to which \<open>appendRecord\<close> appends through the buffer pool, flushing the page
  before it returns. \<open>log_file b F pages\<close> says that file \<open>F\<close> consists of \<open>pages\<close> on the disk and
  that the pool holds only clean copies of them; every pool operation on other files keeps it, and
  \<open>appendRecord\<close> takes it to the pages with one more record.
\<close>

section \<open>Operations\<close>

text \<open>\<open>os.Stat\<close>: the size of a file, \<open>None\<close> for one that does not exist.\<close>

definition os_Stat :: "string \<Rightarrow> Disk \<Rightarrow> nat option result" where
  "os_Stat path d = (if fs_fault d path FsStat then Err (ErrStat path)
     else Ok (map_option length (fs_files d path)))"

definition pageCount :: "string \<Rightarrow> string \<Rightarrow> Pool \<Rightarrow> nat result" where
  "pageCount root fileID b = (let filePath = path_Join root fileID in
     bind_result (os_Stat filePath (bp_disk b)) (\<lambda>info. case info of
       None \<Rightarrow> Ok 0
     | Some sz \<Rightarrow>
         if sz = 0 then Ok 0
         else if sz mod PageSize \<noteq> 0 then Err (ErrCorruptedFile filePath)
         else Ok (sz div PageSize)))"

definition slot_Page :: "slot_ref \<Rightarrow> (Pool, HeapPage) prog" where
  "slot_Page s b = (Ok (bs_page (bp_store b s)), b)"

text \<open>The code of both branches of \<open>appendRecord\<close> that start a page: add an empty page to the pool,
  write the record, update and flush.\<close>

definition append_new_page :: "string \<Rightarrow> nat \<Rightarrow> bytes \<Rightarrow> (Pool, unit) prog" where
  "append_new_page fileID pid data =
     (let key = NewPageKey fileID (int pid) in
      seq (lift_result (NewHeapPage (int pid))) (\<lambda>p.
      seq (NewPage key (Some p)) (\<lambda>_.
      seq (lift_result (page_Write p (Some data))) (\<lambda>p'.
      seq (UpdatePage key (Some p')) (\<lambda>_.
      FlushPage key)))))"

definition appendRecord :: "string \<Rightarrow> string \<Rightarrow> bytes \<Rightarrow> (Pool, unit) prog" where
  "appendRecord root fileID data b =
     seq (\<lambda>b. (pageCount root fileID b, b)) (\<lambda>pages.
       if pages = 0 then append_new_page fileID 0 data
       else let lastKey = NewPageKey fileID (int (pages - 1)) in
         seq (GetPage lastKey) (\<lambda>slot.
         seq (slot_Page slot) (\<lambda>last.
         case page_Write last (Some data) of
           Ok last' \<Rightarrow> seq (UpdatePage lastKey (Some last')) (\<lambda>_. FlushPage lastKey)
         | Err _ \<Rightarrow> append_new_page fileID pages data
         | Panic \<Rightarrow> lift_result Panic))) b"

section \<open>The pages of a record file\<close>

text \<open>The bytes of a file; a missing file reads as an empty one, as \<open>pageCount\<close> treats it.\<close>

definition file_bytes :: "Pool \<Rightarrow> string \<Rightarrow> bytes" where
  "file_bytes b F = (case fs_files (bp_disk b) (path_Join (bp_root b) F) of None \<Rightarrow> [] | Some f \<Rightarrow> f)"

abbreviation as_page :: "bytes \<Rightarrow> HeapPage" where
  "as_page buf \<equiv> \<lparr>hp_pageID = 0, hp_buf = buf\<rparr>"

definition log_slot :: "bytes list \<Rightarrow> PageKey \<Rightarrow> BufferSlot \<Rightarrow> bool" where
  "log_slot pages k sl \<longleftrightarrow> pk_pageID k < int (length pages)
     \<and> hp_buf (bs_page sl) = pages ! nat (pk_pageID k) \<and> \<not> bs_dirty sl"

definition log_except :: "PageKey set \<Rightarrow> Pool \<Rightarrow> string \<Rightarrow> bytes list \<Rightarrow> bool" where
  "log_except X b F pages \<longleftrightarrow> file_bytes b F = concat pages \<and> (\<forall>p \<in> set pages. page_inv (as_page p))
     \<and> (\<forall>k s. pk_fileID k = F \<longrightarrow> k \<notin> X \<longrightarrow> bp_lookup b k = Some s \<longrightarrow> log_slot pages k (bp_store b s))"

abbreviation log_file :: "Pool \<Rightarrow> string \<Rightarrow> bytes list \<Rightarrow> bool" where
  "log_file \<equiv> log_except {}"

definition file_records :: "bytes list \<Rightarrow> bytes list" where
  "file_records pages = concat (map (\<lambda>p. page_records (as_page p)) pages)"

lemma file_records_simps [simp]:
  "file_records [] = []" "file_records (p # ps) = page_records (as_page p) @ file_records ps"
  "file_records (ps @ qs) = file_records ps @ file_records qs"
  by (simp_all add: file_records_def)

lemma page_any_id:
  "page_inv p = page_inv (as_page (hp_buf p))" "page_records p = page_records (as_page (hp_buf p))"
  by (simp_all add: page_inv_def page_records_def page_record_def slot_off_def slot_len_def
      pg_count_def pg_lower_def pg_upper_def cong: map_cong)

lemma log_exceptD:
  assumes "log_except X b F pages"
  shows "file_bytes b F = concat pages" and "p \<in> set pages \<Longrightarrow> page_inv (as_page p)"
    and "p \<in> set pages \<Longrightarrow> length p = PageSize"
    and "pk_fileID k = F \<Longrightarrow> k \<notin> X \<Longrightarrow> bp_lookup b k = Some s \<Longrightarrow> log_slot pages k (bp_store b s)"
  using assms page_invD(1) [of "as_page p"] by (auto simp: log_except_def)

lemma log_except_step:
  assumes "log_except X b F pages" and "file_bytes b' F = file_bytes b F"
    and "\<And>k s. pk_fileID k = F \<Longrightarrow> k \<notin> X \<Longrightarrow> bp_lookup b' k = Some s \<Longrightarrow> log_slot pages k (bp_store b' s)"
  shows "log_except X b' F pages"
  using assms by (auto simp: log_except_def)

lemma log_except_mono: "log_except X b F pages \<Longrightarrow> X \<subseteq> Y \<Longrightarrow> log_except Y b F pages"
  by (auto simp: log_except_def)

section \<open>Pool operations on other files\<close>

lemma touch_log: "log_except X b F pages \<Longrightarrow> log_except X (touch s b) F pages"
  by (auto simp: log_except_def file_bytes_def)

lemma set_slot_log:
  assumes log: "log_except X b F pages" and inv: "pool_inv b" and at: "bp_lookup b k = Some s"
    and ok: "pk_fileID k = F \<Longrightarrow> k \<notin> X \<Longrightarrow> log_slot pages k sl"
  shows "log_except X (set_slot s sl b) F pages"
proof (rule log_except_step [OF log])
  fix k' s'
  assume k': "pk_fileID k' = F" "k' \<notin> X" "bp_lookup (set_slot s sl b) k' = Some s'"
  show "log_slot pages k' (bp_store (set_slot s sl b) s')"
  proof (cases "s' = s")
    case True
    then have "k' = k" using k'(3) at pool_lookup_inj [OF inv] by simp
    then show ?thesis using True ok k' by simp
  next
    case False
    then show ?thesis using log_exceptD(4) [OF log k'(1,2)] k'(3) by simp
  qed
qed (simp add: file_bytes_def)

lemma fm_Write_other: "fm_Write pg path d = (r, d') \<Longrightarrow> path' \<noteq> path \<Longrightarrow> fs_files d' path' = fs_files d path'"
  by (auto elim!: fm_Write_cases)

lemma flush_file_bytes:
  assumes "flushSlotLocked k s b = (r, b')" and "pk_fileID k \<noteq> F"
  shows "file_bytes b' F = file_bytes b F"
proof (cases "bs_dirty (bp_store b s)")
  case True
  obtain w d where w: "fm_Write (Some (bs_page (bp_store b s))) (bp_path b k) (bp_disk b) = (w, d)"
    by force
  have "fs_files d (path_Join (bp_root b) F) = fs_files (bp_disk b) (path_Join (bp_root b) F)"
    by (rule fm_Write_other [OF w]) (use assms(2) in \<open>simp add: bp_path_def\<close>)
  moreover have "bp_disk b' = d \<and> bp_root b' = bp_root b"
    using assms(1) w True by (cases w) (auto simp: flushSlotLocked_def)
  ultimately show ?thesis by (simp add: file_bytes_def)
qed (use assms(1) in \<open>simp add: flushSlotLocked_def\<close>)

lemma flushSlot_store:
  assumes "flushSlotLocked k s b = (r, b')"
  shows "bp_table b' = bp_table b" and "bs_page (bp_store b' s') = bs_page (bp_store b s')"
    and "bs_dirty (bp_store b' s') \<Longrightarrow> bs_dirty (bp_store b s')"
    and "bs_pinned (bp_store b' s') = bs_pinned (bp_store b s')"
  using assms by (auto simp: flushSlotLocked_def split: if_splits prod.splits result.splits)

lemma flushSlot_log:
  assumes log: "log_except X b F pages" and at: "bp_lookup b k = Some s"
    and fl: "flushSlotLocked k s b = (r, b')" and k: "pk_fileID k = F \<Longrightarrow> k \<notin> X"
  shows "log_except X b' F pages"
proof (cases "pk_fileID k = F")
  case True
  then have "b' = b"
    using log_exceptD(4) [OF log True k at] fl by (simp add: log_slot_def flushSlotLocked_def)
  then show ?thesis using log by simp
next
  case False
  show ?thesis
  proof (rule log_except_step [OF log flush_file_bytes [OF fl False]])
    fix k' s'
    assume "pk_fileID k' = F" "k' \<notin> X" "bp_lookup b' k' = Some s'"
    then have "log_slot pages k' (bp_store b s')"
      using log_exceptD(4) [OF log] flushSlot_store(1) [OF fl] by simp
    then show "log_slot pages k' (bp_store b' s')"
      using flushSlot_store(2,3) [OF fl, of s'] by (auto simp: log_slot_def)
  qed
qed

lemma ensureSpace_log:
  assumes log: "log_file b F pages" and inv: "pool_inv b" and es: "ensureSpaceLocked b = (r, b')"
  shows "log_file b' F pages"
proof (cases "int (length (bp_table b)) < bp_poolSize b")
  case True
  then show ?thesis using es log by (simp add: ensureSpaceLocked_def)
next
  case False
  obtain v rp where pick: "rep_PickVictim (bp_store b) (bp_replacer b) = (v, rp)" by force
  define b1 where "b1 = b\<lparr>bp_replacer := rp\<rparr>"
  have log1: "log_file b1 F pages"
    by (rule log_except_step [OF log]) (use log_exceptD(4) [OF log] in \<open>auto simp: b1_def file_bytes_def\<close>)
  show ?thesis
  proof (cases v)
    case None
    then show ?thesis using es False pick log1 by (simp add: ensureSpaceLocked_def b1_def)
  next
    case (Some s)
    define k where "k = bs_key (bp_store b s)"
    have at: "bp_lookup b1 k = Some s"
      using rep.pick_Some [OF pool_invD(6) [OF inv]] pick Some pool_invD(7) [OF inv]
      by (auto simp: b1_def k_def)
    obtain r2 b2 where fl: "flushSlotLocked k s b1 = (r2, b2)" by force
    have log2: "log_file b2 F pages" using flushSlot_log [OF log1 at fl] by simp
    have "b' = (if is_ok r2 then b2\<lparr>bp_table := AList.delete k (bp_table b2)\<rparr> else b2)"
      using es False pick Some fl flush_clean [of b1 s k]
      by (cases r2; cases "bs_dirty (bp_store b s)")
        (auto simp: ensureSpaceLocked_def Let_def k_def b1_def seq_def pure_def)
    moreover have "log_file (b2\<lparr>bp_table := AList.delete k (bp_table b2)\<rparr>) F pages"
      by (rule log_except_step [OF log2])
        (use log_exceptD(4) [OF log2] in \<open>auto simp: file_bytes_def AList.delete_conv' split: if_splits\<close>)
    ultimately show ?thesis using log2 by simp
  qed
qed

lemma length_concat_pages: "(\<And>p. p \<in> set pages \<Longrightarrow> length p = n) \<Longrightarrow> length (concat pages) = length pages * n"
  by (induction pages) auto

lemma slice_concat:
  assumes "\<And>p. p \<in> set pages \<Longrightarrow> length p = n" and "i < length pages"
  shows "slice (i * n) n (concat pages) = pages ! i"
  using assms
proof (induction pages arbitrary: i)
  case (Cons p pages)
  then have len: "length p = n" by simp
  show ?case
  proof (cases i)
    case 0
    then show ?thesis using len by simp
  next
    case (Suc j)
    then show ?thesis using Cons len by (simp add: slice_append_right)
  qed
qed simp

lemma file_page_concat:
  assumes "\<And>p. p \<in> set pages \<Longrightarrow> length p = PageSize" and "file_page (concat pages) pid = Some x"
  shows "0 \<le> pid" and "pid < int (length pages)" and "x = pages ! nat pid"
proof -
  have pid: "0 \<le> pid" and le: "page_offset pid + PageSize \<le> length pages * PageSize"
    and x: "x = slice (nat pid * PageSize) PageSize (concat pages)"
    using assms length_concat_pages [of pages PageSize]
    by (auto simp: file_page_def page_offset_def split: if_splits)
  from le have "Suc (nat pid) * PageSize \<le> length pages * PageSize"
    by (simp add: page_offset_def)
  then have "Suc (nat pid) \<le> length pages"
    using PageSize_pos(1) mult_le_cancel2 by blast
  with pid show "0 \<le> pid" "pid < int (length pages)" "x = pages ! nat pid"
    using x slice_concat [OF assms(1)] by auto
qed

lemma stored_file_bytes:
  "pk_fileID k = F \<Longrightarrow> stored_page (bp_disk b) (bp_path b k) pid = file_page (file_bytes b F) pid"
  by (auto simp: stored_page_def bp_path_def file_bytes_def split: option.splits)

lemma add_slot_log:
  assumes log: "log_except X b F pages" and inv: "pool_inv b" and add: "add_slot key pg b = (r, b')"
    and ok: "pk_fileID key = F \<Longrightarrow> key \<notin> X \<Longrightarrow> pk_pageID key < int (length pages) \<and> hp_buf pg = pages ! nat (pk_pageID key)"
  shows "log_except X b' F pages"
proof (rule log_except_step [OF log])
  have b': "bp_store b' = (bp_store b)(bp_next b := NewBufferSlot key pg)"
    "bp_table b' = AList.update key (bp_next b) (bp_table b)" "bp_disk b' = bp_disk b" "bp_root b' = bp_root b"
    using add by (auto simp: add_slot_def Let_def)
  show "file_bytes b' F = file_bytes b F" by (simp add: file_bytes_def b')
  fix k s
  assume k: "pk_fileID k = F" "k \<notin> X" "bp_lookup b' k = Some s"
  show "log_slot pages k (bp_store b' s)"
  proof (cases "k = key")
    case True
    then show ?thesis using k ok by (auto simp: b' AList.update_conv' log_slot_def NewBufferSlot_def)
  next
    case False
    then have "bp_lookup b k = Some s" using k by (simp add: b' AList.update_conv')
    then show ?thesis
      using log_exceptD(4) [OF log k(1,2)] pool_invD(4) [OF inv] by (fastforce simp: b')
  qed
qed

lemma getPage_log:
  assumes log: "log_file b F pages" and inv: "pool_inv b" and get: "getPageLocked key b = (r, b')"
  shows "log_file b' F pages"
proof (cases "bp_lookup b key")
  case None
  obtain r1 b1 where es: "ensureSpaceLocked b = (r1, b1)" by force
  note e = ensureSpace_keeps [OF inv es]
  have log1: "log_file b1 F pages" by (rule ensureSpace_log [OF log inv es])
  show ?thesis
  proof (cases "\<exists>pg. is_ok r1 \<and> fm_Read (pk_pageID key) (bp_path b1 key) (bp_disk b1) = Ok pg")
    case True
    then obtain pg where r1: "is_ok r1" and rd: "fm_Read (pk_pageID key) (bp_path b1 key) (bp_disk b1) = Ok pg"
      by blast
    then have add: "add_slot key pg b1 = (r, b')"
      using get None es by (cases r1) (auto simp: getPageLocked_def seq_def)
    show ?thesis
    proof (rule add_slot_log [OF log1 pool_keepsD(1) [OF e(1)] add])
      assume "pk_fileID key = F"
      then have "file_page (concat pages) (pk_pageID key) = Some (hp_buf pg)"
        using fm_Read_OkD(1) [OF rd] stored_file_bytes [of key F b1] log_exceptD(1) [OF log1] by simp
      from file_page_concat(2,3) [OF log_exceptD(3) [OF log1] this]
      show "pk_pageID key < int (length pages) \<and> hp_buf pg = pages ! nat (pk_pageID key)" by blast
    qed
  next
    case False
    then have "b' = b1"
      using get None es by (cases r1; cases "fm_Read (pk_pageID key) (bp_path b1 key) (bp_disk b1)")
        (auto simp: getPageLocked_def seq_def)
    then show ?thesis using log1 by simp
  qed
next
  case (Some s)
  have b': "b' = touch s (set_slot s (IncrementUsage (bp_store b s)) b)"
    using get Some by (simp add: getPageLocked_def)
  show ?thesis
    unfolding b'
    by (intro touch_log set_slot_log [OF log inv Some])
      (use log_exceptD(4) [OF log _ _ Some] in \<open>simp add: log_slot_def\<close>)
qed

lemma slot_or_load_log:
  "log_file b F pages \<Longrightarrow> pool_inv b \<Longrightarrow> slot_or_load key b = (r, b') \<Longrightarrow> log_file b' F pages"
  using getPage_log by (auto simp: slot_or_load_def split: option.splits)

lemma NewPage_log:
  assumes log: "log_file b F pages" and inv: "pool_inv b" and np: "NewPage key (Some p) b = (r, b')"
    and X: "pk_fileID key = F \<Longrightarrow> key \<in> X"
  shows "log_except X b' F pages"
proof (cases "bp_lookup b key")
  case None
  obtain r1 b1 where es: "ensureSpaceLocked b = (r1, b1)" by force
  have log1: "log_except X b1 F pages"
    using ensureSpace_log [OF log inv es] log_except_mono by blast
  show ?thesis
  proof (cases r1)
    case (Ok u)
    then have "add_slot key p b1 = (r, b')" using np None es by (simp add: NewPage_def seq_def)
    then show ?thesis
      using add_slot_log [OF log1 pool_keepsD(1) [OF ensureSpace_keeps(1) [OF inv es]]] X by blast
  qed (use np None es log1 in \<open>auto simp: NewPage_def seq_def\<close>)
qed (use np log in \<open>auto simp: NewPage_def intro: log_except_mono\<close>)

lemma UpdatePage_log:
  assumes log: "log_file b F pages \<or> bp_lookup b key \<noteq> None \<and> log_except X b F pages"
    and inv: "pool_inv b" and up: "UpdatePage key (Some p) b = (r, b')"
    and X: "pk_fileID key = F \<Longrightarrow> key \<in> X"
  shows "log_except X b' F pages"
proof -
  obtain r1 b1 where ld: "slot_or_load key b = (r1, b1)" by force
  note l = slot_or_load_keeps [OF inv ld]
  have log1: "log_except X b1 F pages"
    using log
  proof
    assume "log_file b F pages"
    from slot_or_load_log [OF this inv ld] show ?thesis by (rule log_except_mono) simp
  next
    assume "bp_lookup b key \<noteq> None \<and> log_except X b F pages"
    then show ?thesis using ld by (auto simp: slot_or_load_def split: option.splits)
  qed
  show ?thesis
  proof (cases r1)
    case (Ok s)
    then have b': "b' = touch s (set_slot s ((bp_store b1 s)\<lparr>bs_page := p, bs_dirty := True\<rparr>) b1)"
      using up ld by (simp add: UpdatePage_def seq_def)
    show ?thesis
      unfolding b'
      by (intro touch_log set_slot_log [OF log1 pool_keepsD(1) [OF l(1)] l(3) [OF Ok]]) (use X in auto)
  qed (use up ld log1 in \<open>auto simp: UpdatePage_def seq_def\<close>)
qed

lemma FlushPage_log:
  assumes "log_except X b F pages" and "FlushPage key b = (r, b')" and "pk_fileID key = F \<Longrightarrow> key \<notin> X"
  shows "log_except X b' F pages"
  using assms flushSlot_log by (auto simp: FlushPage_def split: option.splits)

section \<open>Writing a page of the file\<close>

definition put_page :: "bytes list \<Rightarrow> nat \<Rightarrow> bytes \<Rightarrow> bytes list" where
  "put_page pages i p = take i pages @ p # drop (Suc i) pages"

lemma write_at_concat:
  assumes len: "\<And>p. p \<in> set pages \<Longrightarrow> length p = n" and "length buf = n" and i: "i \<le> length pages"
  shows "write_at (i * n) buf (concat pages) = concat (put_page pages i buf)"
proof -
  have t: "length (concat (take i pages)) = i * n"
    using length_concat_pages [of "take i pages" n] len i by (auto dest: in_set_takeD)
  have c: "concat pages = concat (take i pages) @ concat (drop i pages)"
    by (metis append_take_drop_id concat_append)
  have d: "drop n (concat (drop i pages)) = concat (drop (Suc i) pages)" if "i < length pages"
    using that len [of "pages ! i"] by (simp add: Cons_nth_drop_Suc [symmetric])
  show ?thesis
  proof (cases "i < length pages")
    case True
    then have "length (concat pages) \<ge> i * n + n"
      using length_concat_pages [of pages n] len mult_le_mono1 [of "Suc i" "length pages" n] by simp
    then have "write_at (i * n) buf (concat pages) = put_at (i * n) buf (concat pages)"
      using assms(2) by (simp add: write_at_def)
    also have "\<dots> = concat (take i pages) @ buf @ drop n (concat (drop i pages))"
      using t assms(2) by (subst c) (simp add: put_at_def)
    finally show ?thesis using d [OF True] by (simp add: put_page_def)
  next
    case False
    then have "i = length pages" using i by simp
    then show ?thesis
      using t assms(2) by (simp add: write_at_def put_at_def put_page_def)
  qed
qed

lemma page_inv_length: "page_inv p \<Longrightarrow> length (hp_buf p) = PageSize"
  by (rule page_invD)

lemma flush_target:
  assumes log: "log_except {key} b F pages" and key: "key = NewPageKey F (int i)"
    and i: "i \<le> length pages" and at: "bp_lookup b key = Some s"
    and p: "bs_page (bp_store b s) = p" "page_inv p" "hp_pageID p = int i"
    and dirty: "bs_dirty (bp_store b s)" and inv: "pool_inv b" and fl: "FlushPage key b = (Ok u, b')"
  shows "log_file b' F (put_page pages i (hp_buf p))"
proof -
  have fs: "flushSlotLocked key s b = (Ok u, b')" using fl at by (simp add: FlushPage_def)
  obtain w d where w: "fm_Write (Some p) (bp_path b key) (bp_disk b) = (w, d)" by force
  have b': "b' = set_slot s ((bp_store b s)\<lparr>bs_dirty := False\<rparr>) (b\<lparr>bp_disk := d\<rparr>)" and "w = Ok ()"
    using fs w dirty p(1) by (cases w; auto simp: flushSlotLocked_def)+
  then have "fs_files d (bp_path b key) = Some (write_at (page_offset (int i)) (hp_buf p) (file_bytes b F))"
    using w p(3) by (auto elim!: fm_Write_cases simp: file_bytes_def key bp_path_def NewPageKey_def)
  then have "file_bytes b' F = write_at (i * PageSize) (hp_buf p) (concat pages)"
    using log_exceptD(1) [OF log]
    by (simp add: b' file_bytes_def key bp_path_def NewPageKey_def page_offset_def)
  then have bytes: "file_bytes b' F = concat (put_page pages i (hp_buf p))"
    using write_at_concat [OF log_exceptD(3) [OF log] page_inv_length [OF p(2)] i] by simp
  moreover have "page_inv (as_page q)" if "q \<in> set (put_page pages i (hp_buf p))" for q
    using that log_exceptD(2) [OF log] p(2) page_any_id(1) [of p]
    by (auto simp: put_page_def dest: in_set_takeD in_set_dropD)
  moreover have "log_slot (put_page pages i (hp_buf p)) k (bp_store b' s')"
    if k: "pk_fileID k = F" "bp_lookup b' k = Some s'" for k s'
  proof (cases "k = key")
    case True
    then have "s' = s" using k at by (simp add: b')
    then show ?thesis
      using True i p(1) by (simp add: b' log_slot_def key NewPageKey_def put_page_def nth_append)
  next
    case False
    then have l: "bp_lookup b k = Some s'" using k by (simp add: b')
    then have ne: "s' \<noteq> s" using at False pool_lookup_inj [OF inv] by blast
    have "pk_pageID k \<noteq> int i" using False k(1) by (cases k) (auto simp: key NewPageKey_def)
    moreover have "0 \<le> pk_pageID k" using slot_okD(3) [OF pool_invD(5) [OF inv l]] .
    ultimately have "nat (pk_pageID k) \<noteq> i" by auto
    moreover have "log_slot pages k (bp_store b s')" using log_exceptD(4) [OF log k(1) _ l] False by simp
    ultimately show ?thesis
      using ne i \<open>0 \<le> pk_pageID k\<close>
      by (auto simp: b' log_slot_def put_page_def nth_append nth_Cons' min_def nat_less_iff)
  qed
  ultimately show ?thesis by (simp add: log_except_def)
qed

lemma file_records_put_new: "file_records (put_page pages (length pages) p) = file_records pages @ page_records (as_page p)"
  by (simp add: put_page_def)

lemma file_records_put_last:
  assumes "pages \<noteq> []" and "page_records (as_page p) = page_records (as_page (last pages)) @ [d]"
  shows "file_records (put_page pages (length pages - Suc 0) p) = file_records pages @ [d]"
proof -
  obtain init l where "pages = init @ [l]" using assms(1) rev_exhaust by blast
  then show ?thesis using assms(2) by (simp add: put_page_def)
qed

section \<open>Appending a record\<close>

text \<open>\<open>file_only F b b'\<close>: the step may have changed pages of file \<open>F\<close>, and nothing else is lost.\<close>

definition file_only :: "string \<Rightarrow> Pool \<Rightarrow> Pool \<Rightarrow> bool" where
  "file_only F b b' \<longleftrightarrow> pool_inv b' \<and> bp_root b' = bp_root b \<and> bp_poolSize b' = bp_poolSize b
     \<and> fs_fault (bp_disk b') = fs_fault (bp_disk b)
     \<and> (\<forall>k. pk_fileID k \<noteq> F \<longrightarrow> safe b k \<longrightarrow> safe b' k \<and> pool_view b' k = pool_view b k)
     \<and> (\<forall>G pgs. G \<noteq> F \<longrightarrow> log_file b G pgs \<longrightarrow> log_file b' G pgs)"

lemma file_only_refl: "pool_inv b \<Longrightarrow> file_only F b b"
  by (simp add: file_only_def)

lemma file_only_trans [trans]: "file_only F b b' \<Longrightarrow> file_only F b' b'' \<Longrightarrow> file_only F b b''"
  by (auto simp: file_only_def)

lemma file_onlyD:
  assumes "file_only F b b'"
  shows "pool_inv b'" and "bp_root b' = bp_root b" and "bp_poolSize b' = bp_poolSize b"
    and "fs_fault (bp_disk b') = fs_fault (bp_disk b)"
    and "pk_fileID k \<noteq> F \<Longrightarrow> safe b k \<Longrightarrow> safe b' k"
    and "pk_fileID k \<noteq> F \<Longrightarrow> safe b k \<Longrightarrow> pool_view b' k = pool_view b k"
    and "G \<noteq> F \<Longrightarrow> log_file b G pgs \<Longrightarrow> log_file b' G pgs"
  using assms by (auto simp: file_only_def)

lemma file_only_sets:
  assumes "pool_sets key b b'" and "pk_fileID key = F"
    and "\<And>G pgs. G \<noteq> F \<Longrightarrow> log_file b G pgs \<Longrightarrow> log_file b' G pgs"
  shows "file_only F b b'"
proof -
  have "k \<noteq> key" if "pk_fileID k \<noteq> F" for k using that assms(2) by blast
  then show ?thesis
    using pool_setsD [OF assms(1)] assms(3) by (simp add: file_only_def)
qed

lemma getPage_file_only:
  assumes "pool_inv b" and "getPageLocked key b = (r, b')"
  shows "file_only F b b'"
  using getPageLocked_keeps(1) [OF assms] getPage_log [OF _ assms]
  by (auto simp: file_only_def pool_keeps_def)

lemma NewPage_file_only:
  assumes "pool_inv b" and "page_for key p" and "0 \<le> pk_pageID key" and "NewPage key (Some p) b = (r, b')"
  shows "file_only (pk_fileID key) b b'"
  using NewPage_props(1) [OF assms] NewPage_log [OF _ assms(1,4)] by (auto intro!: file_only_sets)

lemma UpdatePage_file_only:
  assumes "pool_inv b" and "page_for key p" and "UpdatePage key (Some p) b = (r, b')"
  shows "file_only (pk_fileID key) b b'"
  using UpdatePage_props(1) [OF assms] UpdatePage_log [OF _ assms(1,3)] by (auto intro!: file_only_sets)

lemma FlushPage_file_only:
  assumes "pool_inv b" and "FlushPage key b = (r, b')"
  shows "file_only (pk_fileID key) b b'"
  using pool_keeps_sets [OF FlushPage_props(1) [OF assms]] FlushPage_log [OF _ assms(2)]
  by (auto intro!: file_only_sets)

lemma page_for_inv: "page_inv p \<Longrightarrow> hp_pageID p = int i \<Longrightarrow> page_for (NewPageKey F (int i)) p"
  by (simp add: page_for_def NewPageKey_def page_inv_valid_buf)

text \<open>The common end of all branches: the page is in the pool, is replaced and flushed.\<close>

lemma update_flush:
  assumes inv: "pool_inv b" and log: "log_except {key} b F pages" and key: "key = NewPageKey F (int i)"
    and i: "i \<le> length pages" and at: "bp_lookup b key = Some s" and p: "page_inv p" "hp_pageID p = int i"
    and run: "seq (UpdatePage key (Some p)) (\<lambda>_. FlushPage key) b = (r, b')"
  shows "file_only F b b'" and "r \<noteq> Panic"
    and "r = Ok u \<Longrightarrow> log_file b' F (put_page pages i (hp_buf p))"
    and "complete b \<Longrightarrow> complete b'" and "healthy (bp_disk b) \<Longrightarrow> is_ok r"
proof -
  note pf = page_for_inv [OF p, of F, folded key]
  define b1 where "b1 = touch s (set_slot s ((bp_store b s)\<lparr>bs_page := p, bs_dirty := True\<rparr>) b)"
  have up: "UpdatePage key (Some p) b = (Ok (), b1)"
    using at by (simp add: UpdatePage_def seq_def slot_or_load_def b1_def)
  then have fl: "FlushPage key b1 = (r, b')" using run by (simp add: seq_def)
  have f: "pk_fileID key = F" by (simp add: key NewPageKey_def)
  note u = UpdatePage_file_only [OF inv pf up, unfolded f]
  note inv1 = file_onlyD(1) [OF u]
  show "file_only F b b'"
    using u FlushPage_file_only [OF inv1 fl, unfolded f] by (rule file_only_trans)
  show "r \<noteq> Panic" using FlushPage_props(2) [OF inv1 fl] .
  have at1: "bp_lookup b1 key = Some s" "bs_page (bp_store b1 s) = p" "bs_dirty (bp_store b1 s)"
    using at by (simp_all add: b1_def)
  have "log_except {key} b1 F pages"
    using UpdatePage_log [OF _ inv up, of F pages "{key}"] log at by blast
  then show "log_file b' F (put_page pages i (hp_buf p))" if "r = Ok u"
    using flush_target [OF _ key i at1(1,2) p at1(3) inv1] fl that by blast
  show "complete b'" if "complete b"
    using FlushPage_props(5) [OF inv1 fl] UpdatePage_props(6) [OF inv pf up] that by simp
  show "is_ok r" if h: "healthy (bp_disk b)"
  proof -
    have "healthy (bp_disk b1)" using h file_onlyD(4) [OF u] by (simp add: healthy_def)
    then show ?thesis
      using flush_keeps(10) [OF inv1 at1(1)] fl at1(1) by (fastforce simp: FlushPage_def)
  qed
qed

lemma append_new_page_log:
  assumes inv: "pool_inv b" and log: "log_file b F pages" and run: "append_new_page F (length pages) data b = (r, b')"
  shows "file_only F b b'" and "r \<noteq> Panic"
    and "r = Ok u \<Longrightarrow> \<exists>pages'. log_file b' F pages' \<and> file_records pages' = file_records pages @ [data]"
    and "is_ok r \<Longrightarrow> complete b \<Longrightarrow> complete b'"
proof -
  define key where "key = NewPageKey F (int (length pages))"
  obtain p where p: "NewHeapPage (int (length pages)) = Ok p" "page_inv p" "page_records p = []"
    and pid: "hp_pageID p = int (length pages)"
    using NewHeapPage_ok [of "int (length pages)"] by blast
  note pf = page_for_inv [OF p(2) pid, of F, folded key_def]
  have k0: "0 \<le> pk_pageID key" "pk_fileID key = F" by (simp_all add: key_def NewPageKey_def)
  obtain r1 b1 where np: "NewPage key (Some p) b = (r1, b1)" by force
  note n = NewPage_file_only [OF inv pf k0(1) np, unfolded k0(2)] and pr = NewPage_props [OF inv pf k0(1) np]
  have run1: "(r, b') = seq (NewPage key (Some p)) (\<lambda>_. seq (lift_result (page_Write p (Some data)))
      (\<lambda>p'. seq (UpdatePage key (Some p')) (\<lambda>_. FlushPage key))) b"
    using run p(1) by (simp add: append_new_page_def key_def [symmetric] Let_def seq_def [of "lift_result (Ok p)"] lift_result_def)
  have "file_only F b b' \<and> r \<noteq> Panic
    \<and> (r = Ok u \<longrightarrow> (\<exists>pages'. log_file b' F pages' \<and> file_records pages' = file_records pages @ [data]))
    \<and> (is_ok r \<longrightarrow> complete b \<longrightarrow> complete b')"
  proof (cases r1)
    case (Ok s)
    note at = pr(3) [OF Ok]
    have log1: "log_except {key} b1 F pages" using NewPage_log [OF log inv np] by simp
    show ?thesis
    proof (cases "page_Write p (Some data)")
      case w: (Ok p')
      note wr = hpage.write_okD [OF p(2) w]
      have id': "hp_pageID p' = int (length pages)" using page_Write_pageID [OF w] pid by simp
      have run2: "seq (UpdatePage key (Some p')) (\<lambda>_. FlushPage key) b1 = (r, b')"
        using run1 np Ok w by (simp add: seq_def lift_result_def)
      note uf = update_flush [OF file_onlyD(1) [OF n] log1 key_def le_refl at [THEN conjunct1] wr(1) id' run2]
      have "file_records (put_page pages (length pages) (hp_buf p')) = file_records pages @ [data]"
        using wr(2) p(3) page_any_id(2) [of p'] by (simp add: file_records_put_new)
      then show ?thesis
        using file_only_trans [OF n uf(1)] uf(2,3,4) pr(6) Ok by auto
    next
      case (Err e)
      then show ?thesis using run1 np Ok n by (simp add: seq_def lift_result_def)
    next
      case Panic
      then show ?thesis using hpage.write_total [OF p(2), of data] by simp
    qed
  next
    case (Err e)
    then show ?thesis using run1 np n by (simp add: seq_def)
  next
    case Panic
    then show ?thesis using pr(2) by simp
  qed
  then show "file_only F b b'" "r \<noteq> Panic"
    "r = Ok u \<Longrightarrow> \<exists>pages'. log_file b' F pages' \<and> file_records pages' = file_records pages @ [data]"
    "is_ok r \<Longrightarrow> complete b \<Longrightarrow> complete b'"
    by blast+
qed

lemma path_root: "bp_root b = root \<Longrightarrow> path_Join root F = bp_path b (NewPageKey F i)"
  by (simp add: bp_path_def NewPageKey_def)

lemma pageCount_log:
  assumes "log_file b F pages" and "bp_root b = root"
  shows "pageCount root F b = (if fs_fault (bp_disk b) (path_Join root F) FsStat then Err (ErrStat (path_Join root F))
    else Ok (length pages))"
proof -
  have "length (file_bytes b F) = length pages * PageSize"
    using length_concat_pages [of pages PageSize] log_exceptD(1,3) [OF assms(1)] by simp
  then show ?thesis
    using assms(2)
    by (auto simp: pageCount_def os_Stat_def file_bytes_def Let_def split: option.splits)
qed

lemma getPage_page:
  assumes inv: "pool_inv b" and log: "log_file b F pages" and i: "i < length pages"
    and get: "GetPage (NewPageKey F (int i)) b = (Ok s, b')"
  shows "bp_lookup b' (NewPageKey F (int i)) = Some s"
    and "bs_page (bp_store b' s) = \<lparr>hp_pageID = int i, hp_buf = pages ! i\<rparr>"
proof -
  let ?k = "NewPageKey F (int i)"
  have g: "getPageLocked ?k b = (Ok s, b')" using get by (simp add: GetPage_def)
  note k = getPageLocked_keeps [OF inv g]
  show at: "bp_lookup b' ?k = Some s" by (rule k(3)) simp
  have "log_slot pages ?k (bp_store b' s)"
    using log_exceptD(4) [OF getPage_log [OF log inv g] _ _ at] by (simp add: NewPageKey_def)
  then show "bs_page (bp_store b' s) = \<lparr>hp_pageID = int i, hp_buf = pages ! i\<rparr>"
    using slot_okD(2) [OF pool_invD(5) [OF pool_keepsD(1) [OF k(1)] at]]
    by (simp add: log_slot_def NewPageKey_def)
qed

text \<open>What \<open>appendRecord\<close> does to the log: one more record at its end, or an error.\<close>

lemma appendRecord_log:
  assumes inv: "pool_inv b" and log: "log_file b F pages" and root: "bp_root b = root"
    and run: "appendRecord root F data b = (r, b')"
  shows "file_only F b b'" and "r \<noteq> Panic"
    and "r = Ok u \<Longrightarrow> \<exists>pages'. log_file b' F pages' \<and> file_records pages' = file_records pages @ [data]"
    and "is_ok r \<Longrightarrow> complete b \<Longrightarrow> complete b'"
proof -
  let ?fault = "fs_fault (bp_disk b) (path_Join root F) FsStat"
  define i where "i = length pages - Suc 0"
  let ?key = "NewPageKey F (int i)"
  have "file_only F b b' \<and> r \<noteq> Panic
    \<and> (r = Ok u \<longrightarrow> (\<exists>pages'. log_file b' F pages' \<and> file_records pages' = file_records pages @ [data]))
    \<and> (is_ok r \<longrightarrow> complete b \<longrightarrow> complete b')" (is ?P)
  proof (cases "?fault \<or> pages = []")
    case True
    then show ?P
      using run pageCount_log [OF log root] append_new_page_log [OF inv log, of data r b'] file_only_refl [OF inv]
      by (cases ?fault) (auto simp: appendRecord_def seq_def)
  next
    case False
    obtain g b1 where get: "GetPage ?key b = (g, b1)" by force
    then have get': "getPageLocked ?key b = (g, b1)" by (simp add: GetPage_def)
    note fo = getPage_file_only [OF inv get'] and inv1 = getPageLocked_keeps(1) [OF inv get', THEN pool_keepsD(1)]
    have log1: "log_file b1 F pages" by (rule getPage_log [OF log inv get'])
    have run1: "seq (GetPage ?key) (\<lambda>slot. seq (slot_Page slot) (\<lambda>last.
         case page_Write last (Some data) of
           Ok last' \<Rightarrow> seq (UpdatePage ?key (Some last')) (\<lambda>_. FlushPage ?key)
         | Err _ \<Rightarrow> append_new_page F (length pages) data
         | Panic \<Rightarrow> lift_result Panic)) b = (r, b')"
      unfolding i_def using run False pageCount_log [OF log root]
      by (simp add: appendRecord_def seq_def [of "\<lambda>b. (pageCount root F b, b)"] Let_def)
    show ?P
    proof (cases g)
      case (Ok s)
      define p where "p = bs_page (bp_store b1 s)"
      have i: "i < length pages" using False by (simp add: i_def Suc_leI)
      note pg = getPage_page [OF inv log i get [unfolded Ok]]
      have pinv: "page_inv p" and pid: "hp_pageID p = int i" and pbuf: "hp_buf p = last pages"
        using pg(2) False log_exceptD(2) [OF log, of "pages ! i"] i page_any_id(1) [of p]
        by (simp_all add: p_def last_conv_nth i_def [symmetric])
      show ?P
      proof (cases "page_Write p (Some data)")
        case w: (Ok p')
        note wr = hpage.write_okD [OF pinv w]
        have run2: "seq (UpdatePage ?key (Some p')) (\<lambda>_. FlushPage ?key) b1 = (r, b')"
          using run1 get Ok w by (simp add: seq_def slot_Page_def p_def)
        have "log_except {?key} b1 F pages" using log1 by (rule log_except_mono) simp
        note uf = update_flush [OF inv1 this refl less_imp_le [OF i] pg(1) wr(1) _ run2]
        have "page_records (as_page (hp_buf p')) = page_records (as_page (last pages)) @ [data]"
          using wr(2) page_any_id(2) [of p'] page_any_id(2) [of p] pbuf by simp
        from file_records_put_last [OF _ this, folded i_def] show ?P
          using False uf page_Write_pageID [OF w] pid file_only_trans [OF fo] Ok
            getPageLocked_keeps(4) [OF inv get'] by auto
      next
        case (Err e)
        then have run2: "append_new_page F (length pages) data b1 = (r, b')"
          using run1 get Ok by (simp add: seq_def slot_Page_def p_def)
        note a = append_new_page_log [OF inv1 log1 run2]
        show ?P
          using a(1,2,4) a(3) [of u] file_only_trans [OF fo a(1)] Ok getPageLocked_keeps(4) [OF inv get']
          by fastforce
      next
        case Panic
        then show ?P using hpage.write_total [OF pinv, of data] by simp
      qed
    next
      case (Err e)
      then show ?P using run1 get fo by (auto simp: seq_def)
    next
      case Panic
      then show ?P using getPageLocked_keeps(2) [OF inv get'] by simp
    qed
  qed
  then show "file_only F b b'" "r \<noteq> Panic"
    "r = Ok u \<Longrightarrow> \<exists>pages'. log_file b' F pages' \<and> file_records pages' = file_records pages @ [data]"
    "is_ok r \<Longrightarrow> complete b \<Longrightarrow> complete b'"
    by blast+
qed

section \<open>Reading every page\<close>

text \<open>A pool in which every stored page can be loaded: the disk works, no page is pinned and every
  slot can be evicted. A fresh pool is one, and loading keeps it.\<close>

definition fluid :: "Pool \<Rightarrow> bool" where
  "fluid b \<longleftrightarrow> complete b \<and> healthy (bp_disk b) \<and> (\<forall>k. \<not> is_pinned b k)"

lemma ensureSpace_pins:
  assumes "ensureSpaceLocked b = (r, b')" and "is_pinned b' k"
  shows "is_pinned b k"
proof (cases "int (length (bp_table b)) < bp_poolSize b")
  case True
  then show ?thesis using assms by (simp add: ensureSpaceLocked_def)
next
  case False
  obtain v rp where pick: "rep_PickVictim (bp_store b) (bp_replacer b) = (v, rp)" by force
  show ?thesis
  proof (cases v)
    case None
    then show ?thesis using assms False pick by (auto simp: ensureSpaceLocked_def is_pinned_def)
  next
    case (Some s)
    define b1 k0 where "b1 = b\<lparr>bp_replacer := rp\<rparr>" and "k0 = bs_key (bp_store b s)"
    obtain r2 b2 where fl: "flushSlotLocked k0 s b1 = (r2, b2)" by force
    have "b' = (if is_ok r2 then b2\<lparr>bp_table := AList.delete k0 (bp_table b2)\<rparr> else b2)"
      using assms(1) False pick Some fl flush_clean [of b1 s k0]
      by (cases r2; cases "bs_dirty (bp_store b s)")
        (auto simp: ensureSpaceLocked_def Let_def k0_def b1_def seq_def pure_def)
    then have "is_pinned b2 k"
      using assms(2) by (auto simp: is_pinned_def AList.delete_conv' split: if_splits)
    then show ?thesis using flushSlot_store(1,4) [OF fl] by (simp add: is_pinned_def b1_def)
  qed
qed

lemma getPage_pins:
  assumes inv: "pool_inv b" and get: "getPageLocked key b = (r, b')" and pin: "is_pinned b' k"
  shows "is_pinned b k"
proof (cases "bp_lookup b key")
  case None
  obtain r1 b1 where es: "ensureSpaceLocked b = (r1, b1)" by force
  have "is_pinned b1 k"
  proof (cases "\<exists>pg. is_ok r1 \<and> fm_Read (pk_pageID key) (bp_path b1 key) (bp_disk b1) = Ok pg")
    case True
    then obtain pg where "add_slot key pg b1 = (r, b')"
      using get None es by (cases r1) (auto simp: getPageLocked_def seq_def)
    then show ?thesis
      using pin by (auto simp: add_slot_def Let_def is_pinned_def AList.update_conv' NewBufferSlot_def split: if_splits)
  next
    case False
    then have "b' = b1"
      using get None es by (cases r1; cases "fm_Read (pk_pageID key) (bp_path b1 key) (bp_disk b1)")
        (auto simp: getPageLocked_def seq_def)
    then show ?thesis using pin by simp
  qed
  then show ?thesis by (rule ensureSpace_pins [OF es])
next
  case (Some s)
  then show ?thesis using get pin by (auto simp: getPageLocked_def is_pinned_def split: if_splits)
qed

lemma fluid_room:
  assumes "pool_inv b" and "fluid b"
  shows "int (length (bp_table b)) < bp_poolSize b \<or> rep_cands (bp_replacer b) \<noteq> {}"
proof (cases "bp_table b")
  case Nil
  then show ?thesis using pool_invD(1) [OF assms(1)] by simp
next
  case (Cons e t)
  then have "bp_lookup b (fst e) = Some (snd e)" by (cases e) simp
  then show ?thesis
    using assms(2) by (auto simp: fluid_def complete_def is_pinned_def)
qed

lemma log_view:
  assumes log: "log_file b F pages" and i: "i < length pages"
  shows "pool_view b (NewPageKey F (int i)) = Some (pages ! i)"
proof (cases "bp_lookup b (NewPageKey F (int i))")
  case None
  have p: "page_inv (as_page (pages ! i))" using log_exceptD(2) [OF log] i by simp
  have "slice (i * PageSize) PageSize (concat pages) = pages ! i"
    by (rule slice_concat [OF log_exceptD(3) [OF log] i])
  moreover have "Suc i * PageSize \<le> length pages * PageSize" using i by (intro mult_le_mono1) simp
  then have "i * PageSize + PageSize \<le> length (concat pages)"
    using length_concat_pages [of pages PageSize] log_exceptD(3) [OF log] by simp
  ultimately have "file_page (concat pages) (int i) = Some (pages ! i)"
    using page_inv_valid_buf [OF p] by (simp add: file_page_def page_offset_def)
  then show ?thesis
    using None stored_file_bytes [of "NewPageKey F (int i)" F b] log_exceptD(1) [OF log]
    by (simp add: pool_view_def on_disk_def NewPageKey_def)
next
  case (Some s)
  then show ?thesis
    using log_exceptD(4) [OF log _ _ Some] by (simp add: pool_view_def log_slot_def NewPageKey_def)
qed

lemma getPage_fluid:
  assumes inv: "pool_inv b" and fluid: "fluid b" and log: "log_file b F pages" and i: "i < length pages"
  obtains s b' where "GetPage (NewPageKey F (int i)) b = (Ok s, b')" and "pool_keeps b b'" and "fluid b'"
    and "bs_page (bp_store b' s) = \<lparr>hp_pageID = int i, hp_buf = pages ! i\<rparr>"
    and "\<And>G pgs. log_file b G pgs \<Longrightarrow> log_file b' G pgs"
proof -
  let ?k = "NewPageKey F (int i)"
  have "is_ok (fst (getPageLocked ?k b))"
    using log_view [OF log i] fluid_room [OF inv fluid] fluid
    by (intro getPageLocked_live [OF inv]) (auto simp: fluid_def)
  then obtain s b' where g: "getPageLocked ?k b = (Ok s, b')"
    by (cases "getPageLocked ?k b"; cases "fst (getPageLocked ?k b)") auto
  note k = getPageLocked_keeps [OF inv g]
  have "fluid b'"
    using fluid k(4) getPage_pins [OF inv g] pool_keepsD(4) [OF k(1)] by (auto simp: fluid_def healthy_def)
  then show thesis
    using that [of s b'] g k(1) getPage_page(2) [OF inv log i] getPage_log [OF _ inv g] by (simp add: GetPage_def)
qed

section \<open>Executions of the pool that leave the file alone\<close>

lemma flush_loop_log:
  "log_file b F pages \<Longrightarrow> FlushAllPages order b = (r, b') \<Longrightarrow> log_file b' F pages"
proof (induction order arbitrary: b)
  case (Cons k order)
  show ?case
  proof (cases "bp_lookup b k")
    case None
    then show ?thesis using Cons by simp
  next
    case (Some s)
    obtain r1 b1 where fl: "flushSlotLocked k s b = (r1, b1)" by force
    have "log_file b1 F pages" using flushSlot_log [OF Cons.prems(1) Some fl] by simp
    then show ?thesis using Cons Some fl by (cases r1) (auto simp: seq_def)
  qed
qed simp

lemma flushBatch_log: "log_file b F pages \<Longrightarrow> log_file (flushBatch_loop n i dirty b) F pages"
proof (induction dirty arbitrary: i b)
  case (Cons s dirty)
  obtain r b1 where fl: "FlushPage (bs_key (bp_store b s)) b = (r, b1)" by force
  have "log_file b1 F pages" using FlushPage_log [OF Cons.prems fl] by simp
  then show ?case using Cons fl by (cases r) auto
qed simp

lemma replacer_log: "log_except X b F pages \<Longrightarrow> log_except X (b\<lparr>bp_replacer := rp\<rparr>) F pages"
  by (auto simp: log_except_def file_bytes_def)

lemma PinPage_log:
  assumes log: "log_file b F pages" and inv: "pool_inv b" and pin: "PinPage key b = (r, b')"
  shows "log_file b' F pages"
proof -
  obtain r1 b1 where ld: "slot_or_load key b = (r1, b1)" by force
  note l = slot_or_load_keeps [OF inv ld]
  have log1: "log_file b1 F pages" by (rule slot_or_load_log [OF log inv ld])
  show ?thesis
  proof (cases r1)
    case (Ok s)
    have "log_file (set_slot s ((bp_store b1 s)\<lparr>bs_pinned := True\<rparr>) b1) F pages"
      using log_exceptD(4) [OF log1 _ _ l(3) [OF Ok]]
      by (intro set_slot_log [OF log1 pool_keepsD(1) [OF l(1)] l(3) [OF Ok]]) (auto simp: log_slot_def)
    then show ?thesis using pin ld Ok replacer_log by (auto simp: PinPage_def seq_def Let_def)
  qed (use pin ld log1 in \<open>auto simp: PinPage_def seq_def\<close>)
qed

lemma UnpinPage_log:
  assumes log: "log_file b F pages" and inv: "pool_inv b" and unpin: "UnpinPage key b = (r, b')"
  shows "log_file b' F pages"
proof (cases "\<exists>s. bp_lookup b key = Some s \<and> bs_pinned (bp_store b s)")
  case True
  then obtain s where s: "bp_lookup b key = Some s" "bs_pinned (bp_store b s)" by blast
  have "log_file (set_slot s ((bp_store b s)\<lparr>bs_pinned := False\<rparr>) b) F pages"
    using log_exceptD(4) [OF log _ _ s(1)] by (intro set_slot_log [OF log inv s(1)]) (auto simp: log_slot_def)
  then show ?thesis using unpin s replacer_log by (auto simp: UnpinPage_def Let_def)
next
  case False
  then have "b' = b" using unpin by (auto simp: UnpinPage_def split: option.splits)
  then show ?thesis using log by simp
qed

lemma pool_step_log:
  assumes "pool_step b a b'" and "pool_inv b" and "log_file b F pages" and "\<forall>k \<in> op_target a. pk_fileID k \<noteq> F"
  shows "log_file b' F pages" and "bp_root b' = bp_root b"
proof -
  have "log_file b' F pages \<and> bp_root b' = bp_root b"
    using assms
  proof (cases rule: pool_step.cases)
    case (get k r)
    then have "getPageLocked k b = (r, b')" by (simp add: GetPage_def)
    then show ?thesis using getPage_log [OF assms(3,2)] getPageLocked_keeps(1) [OF assms(2)] pool_keepsD(2) by blast
  next
    case (new_page k p r)
    then show ?thesis
      using NewPage_log [OF assms(3,2) new_page(4), of "{}"] assms(4) NewPage_file_only [OF assms(2) new_page(2,3,4)] file_onlyD(2)
      by auto
  next
    case (update k p r)
    then show ?thesis
      using UpdatePage_log [OF disjI1 [OF assms(3)] assms(2) update(3)] assms(4) UpdatePage_file_only [OF assms(2) update(2,3)] file_onlyD(2)
      by auto
  next
    case (pin k r)
    then show ?thesis using PinPage_log [OF assms(3,2)] PinPage_props(1) [OF assms(2)] pool_setsD(5) pool_keepsD(2) by blast
  next
    case (unpin k r)
    then show ?thesis using UnpinPage_log [OF assms(3,2) unpin(2)] by (auto simp: UnpinPage_def Let_def split: option.splits if_splits)
  next
    case (flush k r)
    then show ?thesis using FlushPage_log [OF assms(3) flush(2)] FlushPage_props(1) [OF assms(2)] pool_keepsD(2) by auto
  next
    case (flush_all order r)
    then show ?thesis using flush_loop_log [OF assms(3)] FlushAllPages_props(1) [OF assms(2)] pool_keepsD(2) by blast
  next
    case (batch n order)
    then show ?thesis
      using flushBatch_log [OF assms(3)] pool_keepsD(2) [OF flushBatch_loop_keeps [OF assms(2)]] by (auto simp: flushBatch_def)
  next
    case (faults f)
    then show ?thesis using assms(3) by (auto simp: log_except_def file_bytes_def)
  qed
  then show "log_file b' F pages" "bp_root b' = bp_root b" by blast+
qed

section \<open>Appending succeeds\<close>

text \<open>On a pool that can load every page, a record that fits into an empty page can be appended.\<close>

lemma log_no_extra:
  assumes "log_file b F pages" and "int (length pages) \<le> i"
  shows "bp_lookup b (NewPageKey F i) = None"
  using log_exceptD(4) [OF assms(1), of "NewPageKey F i"] assms(2)
  by (cases "bp_lookup b (NewPageKey F i)") (auto simp: log_slot_def NewPageKey_def)

lemma update_flush_fluid:
  assumes inv: "pool_inv b" and log: "log_except {key} b F pages" and key: "key = NewPageKey F (int i)"
    and i: "i \<le> length pages" and at: "bp_lookup b key = Some s" and p: "page_inv p" "hp_pageID p = int i"
    and fl: "fluid b"
  obtains b' where "seq (UpdatePage key (Some p)) (\<lambda>_. FlushPage key) b = (Ok (), b')" and "fluid b'"
proof -
  obtain r b' where run: "seq (UpdatePage key (Some p)) (\<lambda>_. FlushPage key) b = (r, b')" by force
  note u = update_flush [OF inv log key i at p run]
  have h: "healthy (bp_disk b)" "complete b" using fl by (auto simp: fluid_def)
  then have r: "r = Ok ()" using u(5) by (cases r) auto
  obtain b1 where up: "UpdatePage key (Some p) b = (Ok (), b1)" "FlushPage key b1 = (r, b')"
    and b1: "b1 = touch s (set_slot s ((bp_store b s)\<lparr>bs_page := p, bs_dirty := True\<rparr>) b)"
    using at run by (auto simp: UpdatePage_def seq_def slot_or_load_def)
  have "\<not> is_pinned b' k" for k
  proof
    assume "is_pinned b' k"
    then have "is_pinned b1 k"
      using up(2) flushSlot_store(1,4) by (fastforce simp: FlushPage_def is_pinned_def split: option.splits)
    then have "is_pinned b k" by (auto simp: b1 is_pinned_def split: if_splits)
    then show False using fl by (simp add: fluid_def)
  qed
  then have "fluid b'" using u(1,4) h by (simp add: fluid_def healthy_def file_onlyD(4))
  then show thesis using that run r by blast
qed

lemma append_new_page_live:
  assumes inv: "pool_inv b" and log: "log_file b F pages" and fl: "fluid b" and len: "4 + length data \<le> 8182"
  obtains b' where "append_new_page F (length pages) data b = (Ok (), b')" and "fluid b'"
proof -
  define key where "key = NewPageKey F (int (length pages))"
  obtain p where p: "NewHeapPage (int (length pages)) = Ok p" "page_inv p" "page_records p = []"
    and pid: "hp_pageID p = int (length pages)" and free: "page_free p = 8182"
    using NewHeapPage_ok [of "int (length pages)"] by (auto simp: page_free_def)
  obtain p' where w: "page_Write p (Some data) = Ok p'" "page_inv p'"
    using hpage.write_fits [OF p(2), of data] len free by auto
  have id': "hp_pageID p' = int (length pages)" using page_Write_pageID [OF w(1)] pid by simp
  have none: "bp_lookup b key = None" using log_no_extra [OF log] by (simp add: key_def)
  obtain r1 b1 where es: "ensureSpaceLocked b = (r1, b1)" by force
  note e = ensureSpace_keeps [OF inv es]
  obtain u where r1: "r1 = Ok u"
    using ensureSpace_live [OF inv _ fluid_room [OF inv fl]] fl es by (cases r1) (auto simp: fluid_def)
  have new1: "bp_lookup b1 key = None" using e(4) [OF none] .
  obtain s b2 where add: "add_slot key p b1 = (Ok s, b2)" by (force simp: add_slot_def Let_def)
  have np: "NewPage key (Some p) b = (Ok s, b2)" using none es r1 add by (simp add: NewPage_def seq_def)
  have k0: "0 \<le> pk_pageID key" by (simp add: key_def NewPageKey_def)
  note pr = NewPage_props [OF inv page_for_inv [OF p(2) pid, of F, folded key_def] k0 np]
  have "\<not> is_pinned b2 k" for k
  proof
    assume "is_pinned b2 k"
    then have "is_pinned b1 k"
      using add by (auto simp: add_slot_def Let_def is_pinned_def AList.update_conv' NewBufferSlot_def split: if_splits)
    then show False using ensureSpace_pins [OF es] fl by (auto simp: fluid_def)
  qed
  then have fl2: "fluid b2" using pr(1,6) fl by (auto simp: fluid_def healthy_def pool_setsD(6))
  have log2: "log_except {key} b2 F pages" using NewPage_log [OF log inv np] by simp
  from update_flush_fluid [OF pool_setsD(1) [OF pr(1)] log2 key_def le_refl _ w(2) id' fl2] pr(3)
  obtain b' where b': "seq (UpdatePage key (Some p')) (\<lambda>_. FlushPage key) b2 = (Ok (), b')" "fluid b'" by blast
  have "append_new_page F (length pages) data b = (Ok (), b')"
    using p(1) np w(1) b'(1) by (simp add: append_new_page_def key_def [symmetric] Let_def seq_def lift_result_def)
  then show thesis using that b'(2) by blast
qed

lemma appendRecord_live:
  assumes inv: "pool_inv b" and log: "log_file b F pages" and root: "bp_root b = root" and fl: "fluid b"
    and len: "4 + length data \<le> 8182"
  obtains b' where "appendRecord root F data b = (Ok (), b')" and "fluid b'"
proof -
  have pc: "pageCount root F b = Ok (length pages)"
    using pageCount_log [OF log root] fl by (simp add: fluid_def healthy_def)
  show thesis
  proof (cases "pages = []")
    case True
    from append_new_page_live [OF inv log fl len] obtain b' where
      "append_new_page F (length pages) data b = (Ok (), b')" "fluid b'" .
    then show ?thesis using that [of b'] pc True by (simp add: appendRecord_def seq_def)
  next
    case False
    define i where "i = length pages - Suc 0"
    have i: "i < length pages" using False by (simp add: i_def)
    let ?k = "NewPageKey F (int i)"
    from getPage_fluid [OF inv fl log i] obtain s b1 where g: "GetPage ?k b = (Ok s, b1)"
      and kp: "pool_keeps b b1" and fl1: "fluid b1"
      and pg: "bs_page (bp_store b1 s) = \<lparr>hp_pageID = int i, hp_buf = pages ! i\<rparr>"
      and lg: "\<And>G pgs. log_file b G pgs \<Longrightarrow> log_file b1 G pgs" by blast
    note inv1 = pool_keepsD(1) [OF kp] and log1 = lg [OF log] and at = getPage_page(1) [OF inv log i g]
    define p where "p = bs_page (bp_store b1 s)"
    have pinv: "page_inv p" and pid: "hp_pageID p = int i"
      using log_exceptD(2) [OF log, of "pages ! i"] i page_any_id(1) [of p] by (simp_all add: p_def pg)
    have run: "appendRecord root F data b = (case page_Write p (Some data) of
         Ok last' \<Rightarrow> seq (UpdatePage ?k (Some last')) (\<lambda>_. FlushPage ?k)
       | Err _ \<Rightarrow> append_new_page F (length pages) data
       | Panic \<Rightarrow> lift_result Panic) b1"
      unfolding i_def p_def using pc False g [unfolded i_def]
      by (simp add: appendRecord_def seq_def [of "\<lambda>b. (pageCount root F b, b)"]
          seq_def [of "GetPage (NewPageKey F (int (length pages - Suc 0)))"] seq_def [of "slot_Page s"] slot_Page_def Let_def)
    show ?thesis
    proof (cases "page_Write p (Some data)")
      case (Ok p')
      have id': "hp_pageID p' = int i" using page_Write_pageID [OF Ok] pid by simp
      from update_flush_fluid [OF inv1 log_except_mono [OF log1] refl less_imp_le [OF i] at hpage.write_okD(1) [OF pinv Ok] id' fl1]
      obtain b' where "seq (UpdatePage ?k (Some p')) (\<lambda>_. FlushPage ?k) b1 = (Ok (), b')" "fluid b'" by blast
      then show ?thesis using that [of b'] run Ok by simp
    next
      case (Err e)
      from append_new_page_live [OF inv1 log1 fl1 len] obtain b' where
        "append_new_page F (length pages) data b1 = (Ok (), b')" "fluid b'" .
      then show ?thesis using that [of b'] run Err by simp
    next
      case Panic
      then show ?thesis using hpage.write_total [OF pinv, of data] by simp
    qed
  qed
qed

end
