(* ===== verification/Utf8.thy ===== *)
theory Utf8
  imports Prelude
begin

text \<open>
  What the program uses of Go's UTF-8 library: the conversion \<open>[]rune(s)\<close> and the loop
  \<open>for _, c := range s\<close> (invalid bytes become U+FFFD), \<open>strings.Builder.WriteRune\<close>, and
  \<open>utf8.Valid\<close>. A rune is a natural number, a byte sequence here a list of numbers below 256.
\<close>

type_synonym rune = nat

definition RuneError :: rune where "RuneError = 0xFFFD"

text \<open>The Unicode scalar values: the runes that UTF-8 can encode.\<close>

definition scalar :: "rune \<Rightarrow> bool" where
  "scalar r \<longleftrightarrow> r < 0xD800 \<or> (0xE000 \<le> r \<and> r \<le> 0x10FFFF)"

definition encode_scalar :: "rune \<Rightarrow> nat list" where
  "encode_scalar r =
     (if r < 0x80 then [r]
      else if r < 0x800 then [0xC0 + r div 64, 0x80 + r mod 64]
      else if r < 0x10000 then [0xE0 + r div 4096, 0x80 + r div 64 mod 64, 0x80 + r mod 64]
      else [0xF0 + r div 262144, 0x80 + r div 4096 mod 64, 0x80 + r div 64 mod 64, 0x80 + r mod 64])"

definition encode_rune :: "rune \<Rightarrow> nat list" where
  "encode_rune r = encode_scalar (if scalar r then r else RuneError)"

definition cont :: "nat \<Rightarrow> bool" where
  "cont b \<longleftrightarrow> 0x80 \<le> b \<and> b < 0xC0"

text \<open>The accepted range of the second byte after the lead byte \<open>b0\<close> of three or four.\<close>

definition second_ok :: "nat \<Rightarrow> nat \<Rightarrow> bool" where
  "second_ok b0 b1 \<longleftrightarrow> cont b1 \<and> (b0 = 0xE0 \<longrightarrow> 0xA0 \<le> b1) \<and> (b0 = 0xED \<longrightarrow> b1 < 0xA0)
     \<and> (b0 = 0xF0 \<longrightarrow> 0x90 \<le> b1) \<and> (b0 = 0xF4 \<longrightarrow> b1 < 0x90)"

text \<open>One step of decoding: the rune at the front (\<open>None\<close> where it is invalid and one byte is
  skipped) and the remaining bytes.\<close>

fun utf8_next :: "nat list \<Rightarrow> rune option \<times> nat list" where
  "utf8_next [] = (None, [])"
| "utf8_next (b0 # rest) =
     (if b0 < 0x80 then (Some b0, rest)
      else if 0xC2 \<le> b0 \<and> b0 \<le> 0xDF then
        (case rest of b1 # r \<Rightarrow>
           if cont b1 then (Some ((b0 - 0xC0) * 64 + (b1 - 0x80)), r) else (None, rest)
         | _ \<Rightarrow> (None, rest))
      else if 0xE0 \<le> b0 \<and> b0 \<le> 0xEF then
        (case rest of b1 # b2 # r \<Rightarrow>
           if second_ok b0 b1 \<and> cont b2
           then (Some ((b0 - 0xE0) * 4096 + (b1 - 0x80) * 64 + (b2 - 0x80)), r) else (None, rest)
         | _ \<Rightarrow> (None, rest))
      else if 0xF0 \<le> b0 \<and> b0 \<le> 0xF4 then
        (case rest of b1 # b2 # b3 # r \<Rightarrow>
           if second_ok b0 b1 \<and> cont b2 \<and> cont b3
           then (Some ((b0 - 0xF0) * 262144 + (b1 - 0x80) * 4096 + (b2 - 0x80) * 64 + (b3 - 0x80)), r)
           else (None, rest)
         | _ \<Rightarrow> (None, rest))
      else (None, rest))"

lemma utf8_next_shrinks: "utf8_next (b # bs) = (x, rest) \<Longrightarrow> length rest < Suc (length bs)"
  by (auto split: list.splits if_splits)

declare utf8_next.simps(2) [simp del]

function utf8_runes :: "nat list \<Rightarrow> rune list" where
  "utf8_runes [] = []"
| "utf8_runes (b # bs) = (case utf8_next (b # bs) of
     (Some r, rest) \<Rightarrow> r # utf8_runes rest | (None, rest) \<Rightarrow> RuneError # utf8_runes rest)"
  by pat_completeness auto
termination
  by (relation "measure length") (auto dest: utf8_next_shrinks [OF sym])

function utf8_valid :: "nat list \<Rightarrow> bool" where
  "utf8_valid [] = True"
| "utf8_valid (b # bs) = (case utf8_next (b # bs) of
     (Some r, rest) \<Rightarrow> utf8_valid rest | (None, rest) \<Rightarrow> False)"
  by pat_completeness auto
termination
  by (relation "measure length") (auto dest: utf8_next_shrinks [OF sym])

section \<open>Round trips\<close>

lemma base64_digits2: "r div 4096 * 4096 + r div 64 mod 64 * 64 + r mod 64 = (r :: nat)"
proof -
  have "r div 4096 = r div 64 div 64"
    by (simp add: div_mult2_eq [symmetric])
  then have "r div 4096 * 64 + r div 64 mod 64 = r div 64"
    by simp
  then have "(r div 4096 * 64 + r div 64 mod 64) * 64 + r mod 64 = r"
    by simp
  then show ?thesis
    by (simp add: algebra_simps)
qed

lemma base64_digits3:
  "r div 262144 * 262144 + r div 4096 mod 64 * 4096 + r div 64 mod 64 * 64 + r mod 64 = (r :: nat)"
proof -
  have "r div 262144 = r div 64 div 4096" "r div 4096 = r div 64 div 64"
    by (simp_all add: div_mult2_eq [symmetric])
  then have "r div 262144 * 4096 + r div 4096 mod 64 * 64 + r div 64 mod 64 = r div 64"
    using base64_digits2 [of "r div 64"] by simp
  then have "(r div 262144 * 4096 + r div 4096 mod 64 * 64 + r div 64 mod 64) * 64 + r mod 64 = r"
    by simp
  then show ?thesis
    by (simp add: algebra_simps)
qed

lemma utf8_next_encode:
  assumes "scalar r"
  shows "utf8_next (encode_scalar r @ rest) = (Some r, rest)"
proof -
  consider "r < 0x80" | "0x80 \<le> r" "r < 0x800" | "0x800 \<le> r" "r < 0x10000" | "0x10000 \<le> r"
    by linarith
  then show ?thesis
  proof cases
    case 1
    then show ?thesis by (simp add: encode_scalar_def utf8_next.simps)
  next
    case 2
    then have "r div 64 < 32" "2 \<le> r div 64" by simp_all
    with 2 show ?thesis
      by (simp add: encode_scalar_def utf8_next.simps cont_def)
  next
    case 3
    obtain a b c where abc: "a = r div 4096" "b = r div 64 mod 64" "c = r mod 64" by simp
    have r: "a * 4096 + b * 64 + c = r" and lt: "b < 64" "c < 64"
      by (simp_all add: abc base64_digits2)
    have a: "a < 16" using 3 by (simp add: abc)
    have s: "second_ok (224 + a) (128 + b)"
      using 3 assms r lt unfolding second_ok_def cont_def scalar_def by auto
    show ?thesis
      using 3 r lt a s by (simp add: encode_scalar_def utf8_next.simps cont_def abc [symmetric])
  next
    case 4
    obtain a b c d where abc: "a = r div 262144" "b = r div 4096 mod 64" "c = r div 64 mod 64"
        "d = r mod 64" by simp
    have r: "a * 262144 + b * 4096 + c * 64 + d = r" and lt: "b < 64" "c < 64" "d < 64"
      by (simp_all add: abc base64_digits3)
    have bound: "r \<le> 0x10FFFF"
      using assms 4 by (auto simp: scalar_def)
    then have a: "a < 5" by (simp add: abc)
    have s: "second_ok (240 + a) (128 + b)"
      using 4 bound r lt unfolding second_ok_def cont_def by auto
    show ?thesis
      using 4 r lt a s by (simp add: encode_scalar_def utf8_next.simps cont_def abc [symmetric])
  qed
qed

lemma encode_scalar_not_Nil [simp]: "encode_scalar r \<noteq> []"
  by (simp add: encode_scalar_def)

lemma encode_rune_scalar [simp]: "scalar r \<Longrightarrow> encode_rune r = encode_scalar r"
  by (simp add: encode_rune_def)

lemma scalar_RuneError [simp]: "scalar RuneError"
  by (simp add: scalar_def RuneError_def)

lemma utf8_runes_encode_app:
  "scalar r \<Longrightarrow> utf8_runes (encode_scalar r @ rest) = r # utf8_runes rest"
  using utf8_next_encode [of r rest] by (cases "encode_scalar r") simp_all

lemma utf8_valid_encode_app:
  "scalar r \<Longrightarrow> utf8_valid (encode_scalar r @ rest) = utf8_valid rest"
  using utf8_next_encode [of r rest] by (cases "encode_scalar r") simp_all

lemma utf8_runes_encode: "\<forall>r \<in> set rs. scalar r \<Longrightarrow> utf8_runes (concat (map encode_rune rs)) = rs"
  by (induction rs) (simp_all add: utf8_runes_encode_app)

lemma utf8_valid_encode: "utf8_valid (concat (map encode_rune rs))"
  by (induction rs) (simp_all add: encode_rune_def utf8_valid_encode_app)

lemma scalar_low: "r < 0xD800 \<Longrightarrow> scalar r"
  by (simp add: scalar_def)

lemma scalar2: "k < 32 \<Longrightarrow> y < 64 \<Longrightarrow> scalar (k * 64 + y)"
  by (simp add: scalar_def)

lemma scalar3:
  assumes "k < 16" and "x < 64" and "y < 64" and "k = 13 \<longrightarrow> x < 32"
  shows "scalar (k * 4096 + x * 64 + y)"
proof -
  consider "k \<le> 12" | "k = 13" | "14 \<le> k" by linarith
  then show ?thesis
    using assms by cases (auto simp: scalar_def)
qed

lemma scalar4:
  assumes "k < 5" and "x < 64" and "y < 64" and "z < 64" and "k = 0 \<longrightarrow> 16 \<le> x" and "k = 4 \<longrightarrow> x < 16"
  shows "scalar (k * 262144 + x * 4096 + y * 64 + z)"
proof -
  consider "k = 0" | "1 \<le> k" "k \<le> 3" | "k = 4" using assms(1) by linarith
  then show ?thesis
    using assms by cases (auto simp: scalar_def)
qed

lemma utf8_next_scalar: "utf8_next bs = (Some r, rest) \<Longrightarrow> scalar r"
proof (cases bs)
  case (Cons b0 bs')
  assume "utf8_next bs = (Some r, rest)"
  then show ?thesis
    unfolding Cons utf8_next.simps
    by (auto simp: second_ok_def cont_def 
        simp del: Nat.add_diff_assoc Nat.add_diff_assoc2
        split: if_splits list.splits intro!: scalar2 scalar3 scalar4 intro: scalar_low)
qed simp

lemma utf8_runes_scalar: "r \<in> set (utf8_runes bs) \<Longrightarrow> scalar r"
proof (induction bs rule: utf8_runes.induct)
  case (2 b bs)
  obtain x rest where step: "utf8_next (b # bs) = (x, rest)" by fastforce
  show ?case
    using 2 step by (cases x) (auto dest: utf8_next_scalar)
qed simp

lemma encode_scalar_byte: "scalar r \<Longrightarrow> n \<in> set (encode_scalar r) \<Longrightarrow> n < 256"
  by (auto simp: encode_scalar_def scalar_def split: if_splits)

text \<open>ASCII text is its own encoding.\<close>

lemma utf8_runes_ascii: "\<forall>b \<in> set bs. b < 0x80 \<Longrightarrow> utf8_runes bs = bs"
  by (induction bs) (simp_all add: utf8_next.simps)

section \<open>Strings\<close>

definition runes_of_string :: "string \<Rightarrow> rune list" where
  "runes_of_string s = utf8_runes (map of_char s)"

definition string_of_runes :: "rune list \<Rightarrow> string" where
  "string_of_runes rs = map char_of (concat (map encode_rune rs))"

definition valid_string :: "string \<Rightarrow> bool" where
  "valid_string s = utf8_valid (map of_char s)"

lemma encode_runes_bytes: "n \<in> set (concat (map encode_rune rs)) \<Longrightarrow> n < 256"
  by (auto simp: encode_rune_def split: if_splits dest: encode_scalar_byte [rotated])

lemma of_char_string_of_runes: "map of_char (string_of_runes rs) = concat (map encode_rune rs)"
proof -
  have "map of_char (string_of_runes rs) = map (\<lambda>n. n mod 256) (concat (map encode_rune rs))"
    by (simp add: string_of_runes_def)
  also have "\<dots> = map (\<lambda>n. n) (concat (map encode_rune rs))"
    using encode_runes_bytes by (intro map_cong refl mod_less)
  finally show ?thesis by simp
qed

lemma runes_of_string_of_runes:
  "\<forall>r \<in> set rs. scalar r \<Longrightarrow> runes_of_string (string_of_runes rs) = rs"
  by (simp add: runes_of_string_def of_char_string_of_runes utf8_runes_encode)

lemma valid_string_of_runes: "valid_string (string_of_runes rs)"
  by (simp add: valid_string_def of_char_string_of_runes utf8_valid_encode)

lemma runes_of_string_scalar: "r \<in> set (runes_of_string s) \<Longrightarrow> scalar r"
  by (simp add: runes_of_string_def utf8_runes_scalar)

lemma string_of_runes_append: "string_of_runes (a @ b) = string_of_runes a @ string_of_runes b"
  by (simp add: string_of_runes_def)

lemma runes_of_ascii:
  assumes "\<forall>c \<in> set s. (of_char c :: nat) < 0x80"
  shows "runes_of_string s = map of_char s"
  using assms by (simp add: runes_of_string_def utf8_runes_ascii)

lemma string_of_ascii_runes:
  assumes "\<forall>r \<in> set rs. r < 0x80"
  shows "string_of_runes rs = map char_of rs"
proof -
  have "concat (map encode_rune rs) = concat (map (\<lambda>r. [r]) rs)"
    using assms by (intro arg_cong [where f = concat] map_cong refl)
      (auto simp: encode_rune_def scalar_def encode_scalar_def)
  then show ?thesis
    by (simp add: string_of_runes_def)
qed

end
