(* ===== verification/Lexer.thy ===== *)
theory Lexer
  imports Utf8
begin

text \<open>
  The SQL lexer of \<open>internal/core/sql/lexer\<close>: tokens, syntax errors with their position, and
  \<open>Tokenize\<close>, which walks over the runes of the text with a position, a line and a column. The
  lexer object is the record \<open>SqlLexer\<close>; its loops are functions on it whose termination follows
  from the position moving towards the end of the input. Identifiers are ASCII by construction,
  so \<open>strings.ToUpper\<close> is the ASCII upper case here.
\<close>

datatype TokenType =
    TK_EOF | TK_IDENT | TK_NUMBER | TK_STRING
  | TK_CREATE | TK_TABLE | TK_INDEX | TK_ON | TK_USING | TK_HASH | TK_BTREE
  | TK_INSERT | TK_INTO | TK_VALUES | TK_SELECT | TK_FROM | TK_WHERE | TK_AND | TK_OR | TK_EXPLAIN
  | TK_INT64 | TK_VARCHAR
  | TK_LPAREN | TK_RPAREN | TK_COMMA | TK_SEMICOLON | TK_ASTERISK
  | TK_EQ | TK_NE | TK_LT | TK_LE | TK_GT | TK_GE

record Token =
  tok_type :: TokenType
  tok_text :: string
  tok_start :: nat
  tok_end :: nat
  tok_line :: nat
  tok_column :: nat

definition NewToken :: "TokenType \<Rightarrow> string \<Rightarrow> nat \<Rightarrow> nat \<Rightarrow> nat \<Rightarrow> nat \<Rightarrow> Token" where
  "NewToken ty text startOffset endOffset ln column =
     \<lparr>tok_type = ty, tok_text = text, tok_start = startOffset, tok_end = endOffset,
      tok_line = ln, tok_column = column\<rparr>"

fun TokenType_String :: "TokenType \<Rightarrow> string" where
  "TokenType_String TK_EOF = ''EOF''" | "TokenType_String TK_IDENT = ''IDENT''"
| "TokenType_String TK_NUMBER = ''NUMBER''" | "TokenType_String TK_STRING = ''STRING''"
| "TokenType_String TK_CREATE = ''CREATE''" | "TokenType_String TK_TABLE = ''TABLE''"
| "TokenType_String TK_INDEX = ''INDEX''" | "TokenType_String TK_ON = ''ON''"
| "TokenType_String TK_USING = ''USING''" | "TokenType_String TK_HASH = ''HASH''"
| "TokenType_String TK_BTREE = ''BTREE''" | "TokenType_String TK_INSERT = ''INSERT''"
| "TokenType_String TK_INTO = ''INTO''" | "TokenType_String TK_VALUES = ''VALUES''"
| "TokenType_String TK_SELECT = ''SELECT''" | "TokenType_String TK_FROM = ''FROM''"
| "TokenType_String TK_WHERE = ''WHERE''" | "TokenType_String TK_AND = ''AND''"
| "TokenType_String TK_OR = ''OR''" | "TokenType_String TK_EXPLAIN = ''EXPLAIN''"
| "TokenType_String TK_INT64 = ''INT64''" | "TokenType_String TK_VARCHAR = ''VARCHAR''"
| "TokenType_String TK_LPAREN = ''LPAREN''" | "TokenType_String TK_RPAREN = ''RPAREN''"
| "TokenType_String TK_COMMA = ''COMMA''" | "TokenType_String TK_SEMICOLON = ''SEMICOLON''"
| "TokenType_String TK_ASTERISK = ''ASTERISK''" | "TokenType_String TK_EQ = ''EQ''"
| "TokenType_String TK_NE = ''NE''" | "TokenType_String TK_LT = ''LT''"
| "TokenType_String TK_LE = ''LE''" | "TokenType_String TK_GT = ''GT''"
| "TokenType_String TK_GE = ''GE''"

definition sql_keywords :: "(string \<times> TokenType) list" where
  "sql_keywords =
     [(''CREATE'', TK_CREATE), (''TABLE'', TK_TABLE), (''INDEX'', TK_INDEX), (''ON'', TK_ON),
      (''USING'', TK_USING), (''HASH'', TK_HASH), (''BTREE'', TK_BTREE), (''INSERT'', TK_INSERT),
      (''INTO'', TK_INTO), (''VALUES'', TK_VALUES), (''SELECT'', TK_SELECT), (''FROM'', TK_FROM),
      (''WHERE'', TK_WHERE), (''AND'', TK_AND), (''OR'', TK_OR), (''EXPLAIN'', TK_EXPLAIN),
      (''INT64'', TK_INT64), (''VARCHAR'', TK_VARCHAR)]"

definition ascii_upper :: "char \<Rightarrow> char" where
  "ascii_upper c = (if 97 \<le> (of_char c :: nat) \<and> (of_char c :: nat) \<le> 122
     then char_of ((of_char c :: nat) - 32) else c)"

definition ToUpper :: "string \<Rightarrow> string" where
  "ToUpper s = map ascii_upper s"

section \<open>The lexer\<close>

record SqlLexer =
  lx_input :: "rune list"
  lx_pos :: nat
  lx_line :: nat
  lx_col :: nat

abbreviation rune_of :: "char \<Rightarrow> rune" where
  "rune_of c \<equiv> of_char c"

definition lx_eof :: "SqlLexer \<Rightarrow> bool" where
  "lx_eof lx \<longleftrightarrow> lx_pos lx \<ge> length (lx_input lx)"

definition lx_peek :: "SqlLexer \<Rightarrow> rune" where
  "lx_peek lx = (if lx_eof lx then 0 else lx_input lx ! lx_pos lx)"

definition lx_peekNext :: "SqlLexer \<Rightarrow> rune" where
  "lx_peekNext lx = (if lx_pos lx + 1 < length (lx_input lx) then lx_input lx ! (lx_pos lx + 1) else 0)"

definition lx_advance :: "SqlLexer \<Rightarrow> SqlLexer" where
  "lx_advance lx =
     (if lx_eof lx then lx
      else let char = lx_input lx ! lx_pos lx; lx1 = lx\<lparr>lx_pos := lx_pos lx + 1\<rparr> in
        if char = 10 then lx1\<lparr>lx_line := lx_line lx + 1, lx_col := 1\<rparr>
        else lx1\<lparr>lx_col := lx_col lx + 1\<rparr>)"

definition isWhitespace :: "rune \<Rightarrow> bool" where
  "isWhitespace c \<longleftrightarrow> c = 32 \<or> c = 9 \<or> c = 13 \<or> c = 10"

definition isDigit :: "rune \<Rightarrow> bool" where
  "isDigit c \<longleftrightarrow> c \<ge> 48 \<and> c \<le> 57"

definition isIdentStart :: "rune \<Rightarrow> bool" where
  "isIdentStart c \<longleftrightarrow> (c \<ge> 65 \<and> c \<le> 90) \<or> (c \<ge> 97 \<and> c \<le> 122) \<or> c = 95"

definition isIdentPart :: "rune \<Rightarrow> bool" where
  "isIdentPart c \<longleftrightarrow> isIdentStart c \<or> isDigit c"

text \<open>The remaining input; every step of the lexer is explained by what it takes off its front.\<close>

definition lx_rest :: "SqlLexer \<Rightarrow> rune list" where
  "lx_rest lx = drop (lx_pos lx) (lx_input lx)"

lemma lx_advance_sel [simp]:
  "lx_input (lx_advance lx) = lx_input lx"
  "lx_pos (lx_advance lx) = (if lx_eof lx then lx_pos lx else lx_pos lx + 1)"
  by (simp_all add: lx_advance_def Let_def)

lemma lx_eof_rest: "lx_eof lx \<longleftrightarrow> lx_rest lx = []"
  by (simp add: lx_eof_def lx_rest_def)

lemma lx_rest_Cons: "\<not> lx_eof lx \<Longrightarrow> lx_rest lx = lx_peek lx # lx_rest (lx_advance lx)"
  by (simp add: lx_eof_def lx_rest_def lx_peek_def Cons_nth_drop_Suc)

lemma lx_peek_Cons: "lx_rest lx = c # cs \<Longrightarrow> lx_peek lx = c \<and> lx_rest (lx_advance lx) = cs \<and> \<not> lx_eof lx"
  using lx_rest_Cons [of lx] lx_eof_rest [of lx] by auto

lemma lx_peek_Nil: "lx_rest lx = [] \<Longrightarrow> lx_peek lx = 0"
  by (simp add: lx_peek_def lx_eof_rest)

lemma lx_peekNext_rest: "lx_peekNext lx = (case lx_rest lx of _ # c # _ \<Rightarrow> c | _ \<Rightarrow> 0)"
proof (cases "lx_pos lx + 1 < length (lx_input lx)")
  case True
  then have "lx_rest lx = lx_input lx ! lx_pos lx # lx_input lx ! Suc (lx_pos lx) # drop (Suc (Suc (lx_pos lx))) (lx_input lx)"
    by (simp add: lx_rest_def Cons_nth_drop_Suc)
  then show ?thesis using True by (simp add: lx_peekNext_def)
next
  case False
  then have "length (lx_rest lx) \<le> 1" by (simp add: lx_rest_def)
  then show ?thesis using False
    by (cases "lx_rest lx" rule: list.exhaust [case_product list.exhaust])
       (auto simp: lx_peekNext_def split: list.splits)
qed

text \<open>The loop \<open>for !eof && P(peek) { write(peek); advance }\<close> of the scanners.\<close>

function lx_while :: "(rune \<Rightarrow> bool) \<Rightarrow> SqlLexer \<Rightarrow> rune list \<times> SqlLexer" where
  "lx_while P lx =
     (if \<not> lx_eof lx \<and> P (lx_peek lx)
      then (let (rs, lx') = lx_while P (lx_advance lx) in (lx_peek lx # rs, lx'))
      else ([], lx))"
  by pat_completeness auto
termination
  by (relation "measure (\<lambda>(P, lx). length (lx_input lx) - lx_pos lx)") (auto simp: lx_eof_def)

declare lx_while.simps [simp del]

definition consumeWhitespace :: "SqlLexer \<Rightarrow> SqlLexer" where
  "consumeWhitespace lx = snd (lx_while isWhitespace lx)"

definition readIdentOrKeyword :: "SqlLexer \<Rightarrow> Token \<times> SqlLexer" where
  "readIdentOrKeyword lx =
     (let (rs, lx1) = lx_while isIdentPart lx;
          text = string_of_runes rs;
          ty = (case map_of sql_keywords (ToUpper text) of Some keyWord \<Rightarrow> keyWord | None \<Rightarrow> TK_IDENT)
      in (NewToken ty text (lx_pos lx) (lx_pos lx1) (lx_line lx) (lx_col lx), lx1))"

definition readNumber :: "SqlLexer \<Rightarrow> Token \<times> SqlLexer" where
  "readNumber lx =
     (let (sign, lx1) = (if lx_peek lx = 45 then ([45], lx_advance lx) else ([], lx));
          (rs, lx2) = lx_while isDigit lx1
      in (NewToken TK_NUMBER (string_of_runes (sign @ rs)) (lx_pos lx) (lx_pos lx2) (lx_line lx) (lx_col lx),
          lx2))"

function string_loop :: "SqlLexer \<Rightarrow> rune list \<times> SqlLexer" where
  "string_loop lx =
     (if lx_eof lx then ([], lx)
      else if lx_peek lx = 39
      then (if lx_peekNext lx = 39
            then (let (rs, lx') = string_loop (lx_advance (lx_advance lx)) in (39 # rs, lx'))
            else ([], lx))
      else (let (rs, lx') = string_loop (lx_advance lx) in (lx_peek lx # rs, lx')))"
  by pat_completeness auto
termination
  by (relation "measure (\<lambda>lx. length (lx_input lx) - lx_pos lx)") (auto simp: lx_eof_def)

declare string_loop.simps [simp del]

definition readString :: "SqlLexer \<Rightarrow> Token result \<times> SqlLexer" where
  "readString lx =
     (let (rs, lx1) = string_loop (lx_advance lx) in
      if lx_eof lx1
      then (Err (SqlSyntaxError ''Unterminated string literal'' (lx_pos lx) (lx_line lx) (lx_col lx)), lx1)
      else let lx2 = lx_advance lx1 in
        (Ok (NewToken TK_STRING (string_of_runes rs) (lx_pos lx) (lx_pos lx2) (lx_line lx) (lx_col lx)), lx2))"

definition handleSingle :: "TokenType \<Rightarrow> string \<Rightarrow> SqlLexer \<Rightarrow> Token result \<times> SqlLexer" where
  "handleSingle ty text lx = (let lx1 = lx_advance lx in
     (Ok (NewToken ty text (lx_pos lx) (lx_pos lx1) (lx_line lx) (lx_col lx)), lx1))"

definition handleLT :: "SqlLexer \<Rightarrow> Token result \<times> SqlLexer" where
  "handleLT lx = (let lx1 = lx_advance lx; c = lx_peek lx1; lx2 = lx_advance lx1;
       tok = (\<lambda>ty text l. (Ok (NewToken ty text (lx_pos lx) (lx_pos l) (lx_line lx) (lx_col lx)), l)) in
     if c = rune_of (CHR ''='') then tok TK_LE ''<='' lx2
     else if c = rune_of (CHR ''>'') then tok TK_NE ''<>'' lx2
     else tok TK_LT ''<'' lx1)"

definition handleGT :: "SqlLexer \<Rightarrow> Token result \<times> SqlLexer" where
  "handleGT lx = (let lx1 = lx_advance lx; lx2 = lx_advance lx1;
       tok = (\<lambda>ty text l. (Ok (NewToken ty text (lx_pos lx) (lx_pos l) (lx_line lx) (lx_col lx)), l)) in
     if lx_peek lx1 = rune_of (CHR ''='') then tok TK_GE ''>='' lx2 else tok TK_GT ''>'' lx1)"

definition handleBang :: "SqlLexer \<Rightarrow> Token result \<times> SqlLexer" where
  "handleBang lx = (let lx1 = lx_advance lx; lx2 = lx_advance lx1 in
     if lx_peek lx1 = rune_of (CHR ''='')
     then (Ok (NewToken TK_NE ''!='' (lx_pos lx) (lx_pos lx2) (lx_line lx) (lx_col lx)), lx2)
     else (Err (SqlSyntaxError (''Unexpected character: '' @ [CHR 0x27] @ ''!'' @ [CHR 0x27])
             (lx_pos lx) (lx_line lx) (lx_col lx)), lx1))"

definition lex_handler :: "rune \<Rightarrow> (SqlLexer \<Rightarrow> Token result \<times> SqlLexer) option" where
  "lex_handler c =
     (if c = rune_of (CHR ''('') then Some (handleSingle TK_LPAREN ''('')
      else if c = rune_of (CHR '')'') then Some (handleSingle TK_RPAREN '')'')
      else if c = rune_of (CHR '','') then Some (handleSingle TK_COMMA '','')
      else if c = rune_of (CHR '';'') then Some (handleSingle TK_SEMICOLON '';'')
      else if c = rune_of (CHR ''*'') then Some (handleSingle TK_ASTERISK ''*'')
      else if c = rune_of (CHR ''='') then Some (handleSingle TK_EQ ''='')
      else if c = rune_of (CHR ''<'') then Some handleLT
      else if c = rune_of (CHR ''>'') then Some handleGT
      else if c = rune_of (CHR ''!'') then Some handleBang
      else None)"

text \<open>One pass of the loop of \<open>Tokenize\<close>, at a position before the end: no token for white space.\<close>

definition lex_step :: "SqlLexer \<Rightarrow> Token option result \<times> SqlLexer" where
  "lex_step lx = (let char = lx_peek lx; tok = (\<lambda>(t, lx'). (Ok (Some t), lx'));
       handled = (\<lambda>(r, lx'). (bind_result r (\<lambda>t. Ok (Some t)), lx')) in
     if isWhitespace char then (Ok None, consumeWhitespace lx)
     else if isIdentStart char then tok (readIdentOrKeyword lx)
     else if isDigit char \<or> (char = 45 \<and> isDigit (lx_peekNext lx)) then tok (readNumber lx)
     else if char = 39 then handled (readString lx)
     else case lex_handler char of
       None \<Rightarrow> (Err (SqlSyntaxError (''Unexpected character: '' @ [CHR 0x27] @ string_of_runes [char] @ [CHR 0x27])
                  (lx_pos lx) (lx_line lx) (lx_col lx)), lx)
     | Some h \<Rightarrow> handled (h lx))"

lemma lx_while_rest:
  "lx_while P lx = (rs, lx') \<Longrightarrow> rs = takeWhile P (lx_rest lx) \<and> lx_rest lx' = dropWhile P (lx_rest lx)
    \<and> lx_input lx' = lx_input lx \<and> lx_pos lx' = lx_pos lx + length rs"
proof (induction P lx arbitrary: rs lx' rule: lx_while.induct)
  case (1 P lx)
  show ?case
  proof (cases "\<not> lx_eof lx \<and> P (lx_peek lx)")
    case True
    obtain rs1 lx1 where w: "lx_while P (lx_advance lx) = (rs1, lx1)" by force
    then have "(rs, lx') = (lx_peek lx # rs1, lx1)"
      using "1.prems" True by (simp add: lx_while.simps [of P lx])
    then show ?thesis
      using "1.IH" [OF True w] True lx_rest_Cons [of lx] by simp
  next
    case False
    then have "rs = [] \<and> lx' = lx" using "1.prems" by (subst (asm) lx_while.simps) auto
    moreover have "takeWhile P (lx_rest lx) = [] \<and> dropWhile P (lx_rest lx) = lx_rest lx"
      using False lx_rest_Cons [of lx] by (cases "lx_eof lx") (simp_all add: lx_eof_rest)
    ultimately show ?thesis by simp
  qed
qed

lemma string_loop_cases:
  "lx_eof lx \<Longrightarrow> string_loop lx = ([], lx)"
  "lx_peek lx = 39 \<Longrightarrow> lx_peekNext lx \<noteq> 39 \<Longrightarrow> string_loop lx = ([], lx)"
  "\<not> lx_eof lx \<Longrightarrow> lx_peek lx = 39 \<Longrightarrow> lx_peekNext lx = 39 \<Longrightarrow> string_loop lx
    = (39 # fst (string_loop (lx_advance (lx_advance lx))), snd (string_loop (lx_advance (lx_advance lx))))"
  "\<not> lx_eof lx \<Longrightarrow> lx_peek lx \<noteq> 39 \<Longrightarrow> string_loop lx
    = (lx_peek lx # fst (string_loop (lx_advance lx)), snd (string_loop (lx_advance lx)))"
  by (subst string_loop.simps; simp add: split_beta)+

lemma string_loop_mono:
  "lx_input (snd (string_loop lx)) = lx_input lx \<and> lx_pos lx \<le> lx_pos (snd (string_loop lx))"
proof (induction lx rule: string_loop.induct)
  case (1 lx)
  consider "lx_eof lx" | "lx_peek lx = 39" "lx_peekNext lx \<noteq> 39"
    | "\<not> lx_eof lx" "lx_peek lx = 39" "lx_peekNext lx = 39" | "\<not> lx_eof lx" "lx_peek lx \<noteq> 39"
    by blast
  then show ?case
  proof cases
    case 3
    with "1.IH"(1) show ?thesis by (auto simp: string_loop_cases split: if_splits)
  next
    case 4
    with "1.IH"(2) show ?thesis by (auto simp: string_loop_cases split: if_splits)
  qed (simp_all add: string_loop_cases)
qed

lemma lx_while_progress:
  "\<not> lx_eof lx \<Longrightarrow> P (lx_peek lx) \<Longrightarrow> lx_while P lx = (rs, lx')
    \<Longrightarrow> lx_input lx' = lx_input lx \<and> lx_pos lx < lx_pos lx'"
  using lx_while_rest [of P lx rs lx'] lx_rest_Cons [of lx] by simp

text \<open>Every pass of the loop that yields no error moves the position.\<close>

lemma lex_handler_progress:
  assumes "\<not> lx_eof lx" and "lex_handler c = Some h" and "h lx = (r, lx')"
  shows "lx_input lx' = lx_input lx \<and> lx_pos lx < lx_pos lx'"
  using assms
  by (auto simp: lex_handler_def handleSingle_def handleLT_def handleGT_def handleBang_def Let_def
      split: if_splits)

lemma lex_step_progress:
  assumes ne: "\<not> lx_eof lx" and st: "lex_step lx = (Ok t, lx')"
  shows "lx_input lx' = lx_input lx \<and> lx_pos lx < lx_pos lx'"
proof -
  let ?c = "lx_peek lx"
  consider (ws) "isWhitespace ?c" | (ident) "\<not> isWhitespace ?c" "isIdentStart ?c"
    | (num) "\<not> isWhitespace ?c" "\<not> isIdentStart ?c" "isDigit ?c \<or> ?c = 45 \<and> isDigit (lx_peekNext lx)"
    | (str) "\<not> isWhitespace ?c" "\<not> isIdentStart ?c" "\<not> (isDigit ?c \<or> ?c = 45 \<and> isDigit (lx_peekNext lx))" "?c = 39"
    | (op) "\<not> isWhitespace ?c" "\<not> isIdentStart ?c" "\<not> (isDigit ?c \<or> ?c = 45 \<and> isDigit (lx_peekNext lx))" "?c \<noteq> 39"
    by blast
  then show ?thesis
  proof cases
    case ws
    then have "lx' = snd (lx_while isWhitespace lx)"
      using st by (simp add: lex_step_def consumeWhitespace_def)
    then show ?thesis using lx_while_progress [OF ne, of isWhitespace, OF ws] by (metis prod.collapse)
  next
    case ident
    then have "lx' = snd (lx_while isIdentPart lx)"
      using st by (simp add: lex_step_def readIdentOrKeyword_def Let_def split: prod.splits)
    moreover have "isIdentPart ?c" using ident by (simp add: isIdentPart_def)
    ultimately show ?thesis using lx_while_progress [OF ne, of isIdentPart] by (metis prod.collapse)
  next
    case num
    show ?thesis
    proof (cases "?c = 45")
      case True
      then have "lx' = snd (lx_while isDigit (lx_advance lx))"
        using st num by (simp add: lex_step_def readNumber_def Let_def split: prod.splits)
      then show ?thesis
        using lx_while_rest [of isDigit "lx_advance lx" "fst (lx_while isDigit (lx_advance lx))" lx'] ne by simp
    next
      case False
      then have "lx' = snd (lx_while isDigit lx)"
        using st num by (simp add: lex_step_def readNumber_def Let_def split: prod.splits)
      then show ?thesis
        using lx_while_progress [OF ne, of isDigit] num False by (metis prod.collapse)
    qed
  next
    case str
    obtain rs lx1 where l: "string_loop (lx_advance lx) = (rs, lx1)" by force
    then have "lx' = lx_advance lx1"
      using st str by (auto simp: lex_step_def readString_def Let_def split: if_splits)
    then show ?thesis using string_loop_mono [of "lx_advance lx"] l ne by (auto split: if_splits)
  next
    case op
    then obtain h r where h: "lex_handler ?c = Some h" "h lx = (r, lx')"
      using st by (auto simp: lex_step_def Let_def split: option.splits prod.splits)
    then show ?thesis using lex_handler_progress [OF ne] by blast
  qed
qed

function tokenize_loop :: "SqlLexer \<Rightarrow> Token list result" where
  "tokenize_loop lx =
     (if lx_eof lx then Ok [NewToken TK_EOF '''' (lx_pos lx) (lx_pos lx) (lx_line lx) (lx_col lx)]
      else case lex_step lx of
        (Ok t, lx') \<Rightarrow> bind_result (tokenize_loop lx') (\<lambda>ts.
           Ok (case t of None \<Rightarrow> ts | Some tok \<Rightarrow> tok # ts))
      | (Err e, lx') \<Rightarrow> Err e
      | (Panic, lx') \<Rightarrow> Panic)"
  by pat_completeness auto
termination
proof (relation "measure (\<lambda>lx. length (lx_input lx) - lx_pos lx)")
  fix lx r lx' t
  assume "\<not> lx_eof lx" "(r, lx') = lex_step lx" "r = Ok t"
  then have "lx_input lx' = lx_input lx \<and> lx_pos lx < lx_pos lx'" "lx_pos lx < length (lx_input lx)"
    using lex_step_progress [of lx t lx'] by (auto simp: lx_eof_def)
  then show "(lx', lx) \<in> measure (\<lambda>lx. length (lx_input lx) - lx_pos lx)"
    by auto
qed simp

declare tokenize_loop.simps [simp del]

definition Tokenize :: "string \<Rightarrow> Token list result" where
  "Tokenize sql = tokenize_loop \<lparr>lx_input = runes_of_string sql, lx_pos = 0, lx_line = 1, lx_col = 1\<rparr>"

section \<open>Positions\<close>

text \<open>The scanners move the lexer only by \<open>advance\<close>.\<close>

definition moves :: "SqlLexer \<Rightarrow> SqlLexer \<Rightarrow> bool" where
  "moves lx lx' \<longleftrightarrow> (\<exists>k. lx' = (lx_advance ^^ k) lx)"

lemma moves_refl [simp, intro]: "moves lx lx"
  unfolding moves_def by (rule exI [of _ 0]) simp

lemma moves_advance: "moves lx lx' \<Longrightarrow> moves lx (lx_advance lx')"
  unfolding moves_def by (metis funpow.simps(2) o_apply)

lemma moves_advanceI: "moves (lx_advance lx) lx' \<Longrightarrow> moves lx lx'"
  unfolding moves_def by (metis funpow_Suc_right o_apply)

lemma lx_while_moves: "moves lx (snd (lx_while P lx))"
proof (induction P lx rule: lx_while.induct)
  case (1 P lx)
  then show ?case
    by (subst lx_while.simps) (auto simp: split_beta intro: moves_advanceI)
qed

lemma string_loop_moves: "moves lx (snd (string_loop lx))"
proof (induction lx rule: string_loop.induct)
  case (1 lx)
  then show ?case
    by (subst string_loop.simps) (auto simp: split_beta intro: moves_advanceI)
qed

lemma lex_step_moves: "moves lx (snd (lex_step lx))"
proof -
  have h: "moves lx (snd (h lx))" if "lex_handler c = Some h" for c h
    using that by (auto simp: lex_handler_def handleSingle_def handleLT_def handleGT_def handleBang_def
        Let_def moves_advance split: if_splits)
  have n: "moves lx (snd (readNumber lx))"
    using lx_while_moves [of lx isDigit] lx_while_moves [of "lx_advance lx" isDigit, THEN moves_advanceI]
    by (simp add: readNumber_def split_beta Let_def)
  have s: "moves lx (snd (readString lx))"
    using string_loop_moves [of "lx_advance lx", THEN moves_advanceI]
    by (simp add: readString_def split_beta Let_def moves_advance)
  have i: "moves lx (snd (readIdentOrKeyword lx))"
    using lx_while_moves [of lx isIdentPart] by (simp add: readIdentOrKeyword_def split_beta Let_def)
  have w: "moves lx (consumeWhitespace lx)"
    using lx_while_moves by (simp add: consumeWhitespace_def)
  show ?thesis
    using h n s i w by (auto simp: lex_step_def Let_def split_beta split: option.splits)
qed

text \<open>The line and the column (both from 1) of the rune at offset \<open>n\<close>.\<close>

definition line_at :: "rune list \<Rightarrow> nat \<Rightarrow> nat" where
  "line_at inp n = 1 + length (filter (\<lambda>c. c = 10) (take n inp))"

definition column_at :: "rune list \<Rightarrow> nat \<Rightarrow> nat" where
  "column_at inp n = 1 + length (takeWhile (\<lambda>c. c \<noteq> 10) (rev (take n inp)))"

definition lx_good :: "SqlLexer \<Rightarrow> bool" where
  "lx_good lx \<longleftrightarrow> lx_pos lx \<le> length (lx_input lx) \<and> lx_line lx = line_at (lx_input lx) (lx_pos lx)
     \<and> lx_col lx = column_at (lx_input lx) (lx_pos lx)"

lemma lx_good_advance: "lx_good lx \<Longrightarrow> lx_good (lx_advance lx)"
  by (auto simp: lx_good_def lx_advance_def Let_def lx_eof_def line_at_def column_at_def
      take_Suc_conv_app_nth not_le)

lemma lx_good_moves: "moves lx lx' \<Longrightarrow> lx_good lx \<Longrightarrow> lx_good lx' \<and> lx_input lx' = lx_input lx"
proof -
  have "lx_good lx \<Longrightarrow> lx_good ((lx_advance ^^ k) lx) \<and> lx_input ((lx_advance ^^ k) lx) = lx_input lx" for k
    by (induction k) (auto simp: lx_good_advance)
  then show "moves lx lx' \<Longrightarrow> lx_good lx \<Longrightarrow> lx_good lx' \<and> lx_input lx' = lx_input lx"
    by (auto simp: moves_def)
qed

text \<open>A token of a pass starts where the pass started and ends where it stopped.\<close>

lemma lex_step_token:
  assumes "lex_step lx = (Ok (Some t), lx')"
  shows "tok_start t = lx_pos lx \<and> tok_end t = lx_pos lx' \<and> tok_line t = lx_line lx
    \<and> tok_column t = lx_col lx \<and> tok_type t \<noteq> TK_EOF"
proof -
  have kw: "map_of sql_keywords s \<noteq> Some TK_EOF" for s
    by (auto simp: sql_keywords_def)
  have h: "tok_start t = lx_pos lx \<and> tok_end t = lx_pos lx' \<and> tok_line t = lx_line lx
    \<and> tok_column t = lx_col lx \<and> tok_type t \<noteq> TK_EOF"
    if "lex_handler c = Some h" "fst (h lx) = Ok t" "lx' = snd (h lx)" for c h
    using that by (auto simp: lex_handler_def handleSingle_def handleLT_def handleGT_def handleBang_def
        Let_def NewToken_def split: if_splits)
  show ?thesis
    using assms h kw
    by (auto simp: lex_step_def Let_def split_beta readIdentOrKeyword_def readNumber_def readString_def
        NewToken_def bind_result_Ok split: option.splits if_splits)
qed

lemma lex_step_none:
  assumes "lex_step lx = (Ok None, lx')" and "lx_good lx"
  shows "\<forall>c \<in> set (slice (lx_pos lx) (lx_pos lx' - lx_pos lx) (lx_input lx)). isWhitespace c"
proof -
  obtain rs where w: "lx_while isWhitespace lx = (rs, lx')"
    using assms(1) by (auto simp: lex_step_def Let_def split_beta consumeWhitespace_def bind_result_Ok
        prod_eq_iff split: option.splits if_splits)
  note r = lx_while_rest [OF w]
  have "slice (lx_pos lx) (lx_pos lx' - lx_pos lx) (lx_input lx) = take (length rs) (lx_rest lx)"
    using r by (simp add: slice_def lx_rest_def)
  also have "\<dots> = rs"
    using r takeWhile_eq_take [of isWhitespace "lx_rest lx"] by simp
  finally show ?thesis using r set_takeWhileD by fastforce
qed

text \<open>
  \<open>tiles inp n ts\<close>: from offset \<open>n\<close> on the tokens cover the input. Between two tokens there is
  only white space, every token but the last is not empty and carries its line and column, the
  last one is the end-of-file token at the end of the input.
\<close>

fun tiles :: "rune list \<Rightarrow> nat \<Rightarrow> Token list \<Rightarrow> bool" where
  "tiles inp n [] \<longleftrightarrow> False"
| "tiles inp n (t # ts) \<longleftrightarrow> n \<le> tok_start t \<and> tok_end t \<le> length inp
     \<and> (\<forall>c \<in> set (slice n (tok_start t - n) inp). isWhitespace c)
     \<and> tok_line t = line_at inp (tok_start t) \<and> tok_column t = column_at inp (tok_start t)
     \<and> (if ts = [] then tok_type t = TK_EOF \<and> tok_text t = '''' \<and> tok_start t = length inp
           \<and> tok_end t = length inp
        else tok_type t \<noteq> TK_EOF \<and> tok_start t < tok_end t \<and> tiles inp (tok_end t) ts)"

lemma tiles_skip:
  assumes "tiles inp m ts" and "n \<le> m" and "\<forall>c \<in> set (slice n (m - n) inp). isWhitespace c"
  shows "tiles inp n ts"
proof (cases ts)
  case (Cons t us)
  have le: "m \<le> tok_start t" using assms(1) Cons by simp
  have "slice n (tok_start t - n) inp = slice n (m - n) inp @ slice m (tok_start t - m) inp"
  proof -
    obtain j k where "m = n + j" "tok_start t = n + j + k"
      using le assms(2) by (metis le_iff_add)
    then show ?thesis by (simp add: slice_def take_add add.commute)
  qed
  then show ?thesis using assms Cons le by auto
qed (use assms in simp)

lemma tokenize_loop_tiles:
  assumes "lx_good lx"
  shows "case tokenize_loop lx of Ok ts \<Rightarrow> tiles (lx_input lx) (lx_pos lx) ts
    | Err e \<Rightarrow> \<exists>m n. e = SqlSyntaxError m n (line_at (lx_input lx) n) (column_at (lx_input lx) n)
        \<and> n < length (lx_input lx)
    | Panic \<Rightarrow> False"
  using assms
proof (induction lx rule: tokenize_loop.induct)
  case (1 lx)
  show ?case
  proof (cases "lx_eof lx")
    case True
    then have "lx_pos lx = length (lx_input lx)"
      using "1.prems" by (simp add: lx_good_def lx_eof_def)
    then show ?thesis
      using True "1.prems" by (subst tokenize_loop.simps) (simp add: NewToken_def lx_good_def slice_def)
  next
    case False
    obtain r lx' where st: "lex_step lx = (r, lx')" by force
    have good': "lx_good lx'" "lx_input lx' = lx_input lx"
      using lx_good_moves [OF lex_step_moves "1.prems"] st by (metis snd_conv)+
    note unf = tokenize_loop.simps [of lx]
    show ?thesis
    proof (cases r)
      case (Ok ot)
      note pr = lex_step_progress [OF False st [unfolded Ok]]
      note ih = "1.IH" [OF False st [symmetric] Ok good'(1)]
      have "tiles (lx_input lx) (lx_pos lx) (case ot of None \<Rightarrow> ts | Some tok \<Rightarrow> tok # ts)"
        if t: "tiles (lx_input lx) (lx_pos lx') ts" for ts
      proof (cases ot)
        case None
        then show ?thesis
          using tiles_skip [OF t _ lex_step_none] st Ok "1.prems" pr by simp
      next
        case (Some tok)
        have "ts \<noteq> []" using t by auto
        then show ?thesis
          using lex_step_token [of lx tok lx'] st Ok Some "1.prems" good' pr t
          by (simp add: lx_good_def slice_def)
      qed
      then show ?thesis
        using ih False st Ok good'(2) unf by (auto split: result.splits)
    next
      case (Err e)
      have "\<exists>m. e = SqlSyntaxError m (lx_pos lx) (lx_line lx) (lx_col lx)"
        using st Err by (auto simp: lex_step_def Let_def split_beta readString_def lex_handler_def
            handleSingle_def handleLT_def handleGT_def handleBang_def
            split: if_splits option.splits)
      then show ?thesis
        using unf False st Err "1.prems" by (auto simp: lx_good_def lx_eof_def)
    next
      case Panic
      then have False
        using st by (auto simp: lex_step_def Let_def split_beta readString_def lex_handler_def
            handleSingle_def handleLT_def handleGT_def handleBang_def
            split: if_splits option.splits)
      then show ?thesis ..
    qed
  qed
qed

section \<open>Lexing what was printed\<close>

type_synonym lexeme = "TokenType \<times> string"

definition tok_lexeme :: "Token \<Rightarrow> lexeme" where
  "tok_lexeme t = (tok_type t, tok_text t)"

definition punctuation :: "(TokenType \<times> string) list" where
  "punctuation = [(TK_LPAREN, ''(''), (TK_RPAREN, '')''), (TK_COMMA, '',''), (TK_SEMICOLON, '';''),
     (TK_ASTERISK, ''*''), (TK_EQ, ''=''), (TK_NE, ''<>''), (TK_NE, ''!=''), (TK_LT, ''<''),
     (TK_LE, ''<=''), (TK_GT, ''>''), (TK_GE, ''>='')]"

fun wf_number :: "rune list \<Rightarrow> bool" where
  "wf_number [] = False"
| "wf_number (c # cs) = (if c = 45 then cs \<noteq> [] \<and> list_all isDigit cs else isDigit c \<and> list_all isDigit cs)"

definition text_runes :: "string \<Rightarrow> rune list" where
  "text_runes s = map of_char s"

fun wf_word :: "rune list \<Rightarrow> bool" where
  "wf_word [] = False"
| "wf_word (c # cs) = (isIdentStart c \<and> list_all isIdentPart cs)"

text \<open>The lexemes that a token of the lexer can have.\<close>

fun wf_lexeme :: "lexeme \<Rightarrow> bool" where
  "wf_lexeme (ty, text) =
     (if ty = TK_EOF then False
      else if ty = TK_STRING then string_of_runes (runes_of_string text) = text
      else if ty = TK_NUMBER then wf_number (text_runes text)
      else if ty = TK_IDENT then wf_word (text_runes text) \<and> map_of sql_keywords (ToUpper text) = None
      else (ty, text) \<in> set punctuation
        \<or> wf_word (text_runes text) \<and> map_of sql_keywords (ToUpper text) = Some ty)"

fun quote_runes :: "rune list \<Rightarrow> rune list" where
  "quote_runes [] = []"
| "quote_runes (c # cs) = (if c = 39 then 39 # 39 # quote_runes cs else c # quote_runes cs)"

fun print_lexeme :: "lexeme \<Rightarrow> rune list" where
  "print_lexeme (ty, text) =
     (if ty = TK_STRING then 39 # quote_runes (runes_of_string text) @ [39] else text_runes text)"

definition print_lexemes :: "lexeme list \<Rightarrow> string" where
  "print_lexemes ls = string_of_runes (concat (map (\<lambda>l. print_lexeme l @ [32]) ls))"

lemma takeWhile_stop: "list_all P xs \<Longrightarrow> \<not> P y \<Longrightarrow> takeWhile P (xs @ y # zs) = xs \<and> dropWhile P (xs @ y # zs) = y # zs"
  by (induction xs) auto

lemma lx_while_print:
  assumes "lx_rest lx = xs @ y # zs" and "list_all P xs" and "\<not> P y"
  shows "\<exists>lx'. lx_while P lx = (xs, lx') \<and> lx_rest lx' = y # zs"
  using lx_while_rest [of P lx] takeWhile_stop [OF assms(2,3), of zs] assms(1)
  by (cases "lx_while P lx") auto

lemma string_loop_print:
  assumes "lx_rest lx = quote_runes rs @ 39 # 32 # zs"
  shows "\<exists>lx'. string_loop lx = (rs, lx') \<and> lx_rest lx' = 39 # 32 # zs"
  using assms
proof (induction rs arbitrary: lx)
  case Nil
  then show ?case
    using lx_peek_Cons [of lx] lx_peekNext_rest [of lx] by (auto simp: string_loop_cases)
next
  case (Cons r rs)
  show ?case
  proof (cases "r = 39")
    case True
    then have "lx_rest lx = 39 # 39 # quote_runes rs @ 39 # 32 # zs" using Cons.prems by simp
    moreover from lx_peek_Cons [OF this] have a: "lx_peek lx = 39" "\<not> lx_eof lx"
      "lx_rest (lx_advance lx) = 39 # quote_runes rs @ 39 # 32 # zs" by simp_all
    moreover have "lx_rest (lx_advance (lx_advance lx)) = quote_runes rs @ 39 # 32 # zs"
      using lx_peek_Cons [OF a(3)] by simp
    ultimately show ?thesis
      using Cons.IH [of "lx_advance (lx_advance lx)"] lx_peekNext_rest [of lx] True
      by (auto simp: string_loop_cases)
  next
    case False
    then have "lx_rest lx = r # quote_runes rs @ 39 # 32 # zs" using Cons.prems by simp
    from lx_peek_Cons [OF this] False show ?thesis
      using Cons.IH [of "lx_advance lx"] by (auto simp: string_loop_cases)
  qed
qed

lemma string_of_text_runes: "\<forall>r \<in> set (text_runes s). r < 128 \<Longrightarrow> string_of_runes (text_runes s) = s"
  by (simp add: string_of_ascii_runes) (simp add: text_runes_def o_def)

lemma ident_ascii: "isIdentPart c \<Longrightarrow> c < 128" "isDigit c \<Longrightarrow> c < 128" "isIdentStart c \<Longrightarrow> isIdentPart c"
  by (auto simp: isIdentPart_def isIdentStart_def isDigit_def)

lemma wf_word_ascii: "wf_word rs \<Longrightarrow> list_all isIdentPart rs \<and> (\<forall>r \<in> set rs. r < 128)"
  by (cases rs) (auto simp: ident_ascii list_all_iff)

lemma wf_number_ascii: "wf_number rs \<Longrightarrow> \<forall>r \<in> set rs. r < 128"
  by (cases rs) (auto simp: ident_ascii list_all_iff split: if_splits)

lemma lex_step_word:
  assumes w: "wf_word (text_runes text)" and r: "lx_rest lx = text_runes text @ 32 # zs"
  shows "\<exists>t lx'. lex_step lx = (Ok (Some t), lx') \<and> tok_lexeme t
    = (case map_of sql_keywords (ToUpper text) of Some k \<Rightarrow> k | None \<Rightarrow> TK_IDENT, text) \<and> lx_rest lx' = 32 # zs"
proof -
  obtain c cs where c: "text_runes text = c # cs" "isIdentStart c"
    using w by (cases "text_runes text") auto
  have pk: "lx_peek lx = c" using lx_peek_Cons r c by simp
  have nw: "\<not> isWhitespace c" using c(2) by (auto simp: isIdentStart_def isWhitespace_def)
  note a = wf_word_ascii [OF w]
  obtain lx' where lw: "lx_while isIdentPart lx = (text_runes text, lx')" "lx_rest lx' = 32 # zs"
    using lx_while_print [OF r, of isIdentPart] a by (auto simp: isIdentPart_def isIdentStart_def isDigit_def)
  have s: "string_of_runes (text_runes text) = text" using a string_of_text_runes by blast
  show ?thesis
    using lw s pk nw c(2)
    by (auto simp: lex_step_def readIdentOrKeyword_def NewToken_def tok_lexeme_def Let_def)
qed

lemma lex_step_number:
  assumes w: "wf_number (text_runes text)" and r: "lx_rest lx = text_runes text @ 32 # zs"
  shows "\<exists>t lx'. lex_step lx = (Ok (Some t), lx') \<and> tok_lexeme t = (TK_NUMBER, text) \<and> lx_rest lx' = 32 # zs"
proof -
  have s: "string_of_runes (text_runes text) = text"
    using wf_number_ascii [OF w] string_of_text_runes by blast
  have sp: "\<not> isDigit 32" by (simp add: isDigit_def)
  obtain c cs where c: "text_runes text = c # cs" using w by (cases "text_runes text") auto
  have pk: "lx_peek lx = c" "lx_rest (lx_advance lx) = cs @ 32 # zs" using lx_peek_Cons [of lx c] r c by simp_all
  show ?thesis
  proof (cases "c = 45")
    case True
    then obtain d ds where d: "cs = d # ds" "isDigit d" "list_all isDigit cs"
      using w c by (cases cs) auto
    obtain lx' where lw: "lx_while isDigit (lx_advance lx) = (cs, lx')" "lx_rest lx' = 32 # zs"
      using lx_while_print [OF pk(2) d(3) sp] by blast
    have "lx_peekNext lx = d" using r c d by (simp add: lx_peekNext_rest)
    then show ?thesis
      using lw pk s c True d(2)
      by (auto simp: lex_step_def readNumber_def NewToken_def tok_lexeme_def Let_def isWhitespace_def
          isIdentStart_def)
  next
    case False
    then have d: "isDigit c" "list_all isDigit (text_runes text)" using w c by simp_all
    obtain lx' where lw: "lx_while isDigit lx = (text_runes text, lx')" "lx_rest lx' = 32 # zs"
      using lx_while_print [OF r d(2) sp] by blast
    have "\<not> isWhitespace c" "\<not> isIdentStart c"
      using d(1) by (auto simp: isDigit_def isWhitespace_def isIdentStart_def)
    then show ?thesis
      using lw pk s False d(1)
      by (auto simp: lex_step_def readNumber_def NewToken_def tok_lexeme_def Let_def)
  qed
qed

lemma lex_step_string:
  assumes w: "string_of_runes (runes_of_string text) = text"
    and r: "lx_rest lx = 39 # quote_runes (runes_of_string text) @ 39 # 32 # zs"
  shows "\<exists>t lx'. lex_step lx = (Ok (Some t), lx') \<and> tok_lexeme t = (TK_STRING, text) \<and> lx_rest lx' = 32 # zs"
proof -
  note p = lx_peek_Cons [OF r]
  obtain lx1 where l: "string_loop (lx_advance lx) = (runes_of_string text, lx1)" "lx_rest lx1 = 39 # 32 # zs"
    using string_loop_print p by blast
  have "\<not> lx_eof lx1" "lx_rest (lx_advance lx1) = 32 # zs"
    using lx_peek_Cons [OF l(2)] by auto
  then show ?thesis
    using p l w by (auto simp: lex_step_def readString_def NewToken_def tok_lexeme_def Let_def
        isWhitespace_def isIdentStart_def isDigit_def)
qed

lemma lex_step_punctuation:
  assumes w: "(ty, text) \<in> set punctuation" and r: "lx_rest lx = text_runes text @ 32 # zs"
  shows "\<exists>t lx'. lex_step lx = (Ok (Some t), lx') \<and> tok_lexeme t = (ty, text) \<and> lx_rest lx' = 32 # zs"
proof -
  obtain c cs where c: "text_runes text = c # cs"
    using w by (cases "text_runes text") (auto simp: punctuation_def text_runes_def)
  note p = lx_peek_Cons [of lx c "cs @ 32 # zs"]
  define lx1 where "lx1 = lx_advance lx"
  have p1: "lx_peek lx = c" "lx_rest lx1 = cs @ 32 # zs"
    using p r c by (simp_all add: lx1_def)
  have p2: "lx_peek lx1 = hd (cs @ [32])" "lx_rest (lx_advance lx1) = tl (cs @ 32 # zs)"
    using lx_peek_Cons [of lx1] p1(2) by (cases cs; simp)+
  have ne: "\<not> lx_eof lx" "\<not> lx_eof (lx_advance lx)"
    using r c p1(2) by (simp_all add: lx_eof_rest lx1_def)
  have op: "lex_step lx = (bind_result (fst (h lx)) (\<lambda>t. Ok (Some t)), snd (h lx))"
    if "lex_handler c = Some h" "c \<in> {40, 41, 44, 59, 42, 61, 60, 62, 33}" for h
  proof -
    have "\<not> isWhitespace c \<and> \<not> isIdentStart c \<and> \<not> isDigit c \<and> c \<noteq> 45 \<and> c \<noteq> 39"
      using that(2) by (auto simp: isWhitespace_def isIdentStart_def isDigit_def)
    then show ?thesis
      using that(1) p1(1) by (simp add: lex_step_def split_beta)
  qed
  have single: ?thesis if "lex_handler c = Some (handleSingle ty text)" "cs = []"
      "c \<in> {40, 41, 44, 59, 42, 61, 60, 62, 33}"
    using op [OF that(1,3)] p1 that(2) by (simp add: handleSingle_def tok_lexeme_def NewToken_def lx1_def Let_def)
  have "(ty, text) \<in> set (take 6 punctuation) \<or> (ty, text) \<in> set (drop 6 punctuation)"
    using w by (metis Un_iff append_take_drop_id set_append)
  then show ?thesis
  proof
    assume "(ty, text) \<in> set (take 6 punctuation)"
    then show ?thesis
      using c by (intro single) (auto simp: punctuation_def text_runes_def lex_handler_def)
  next
    assume "(ty, text) \<in> set (drop 6 punctuation)"
    then consider "ty = TK_NE" "text = ''<>''" | "ty = TK_NE" "text = ''!=''" | "ty = TK_LT" "text = ''<''"
      | "ty = TK_LE" "text = ''<=''" | "ty = TK_GT" "text = ''>''" | "ty = TK_GE" "text = ''>=''"
      by (auto simp: punctuation_def)
    then show ?thesis
    proof cases
      case 1
      then show ?thesis using c p2 p1 ne
        op [of handleLT]
        by (auto simp: text_runes_def lex_handler_def handleLT_def Let_def lx1_def tok_lexeme_def NewToken_def)
    next
      case 2
      then show ?thesis using c p2 p1 ne
        op [of handleBang]
        by (auto simp: text_runes_def lex_handler_def handleBang_def Let_def lx1_def tok_lexeme_def NewToken_def)
    next
      case 3
      then show ?thesis using c p2 p1 ne
        op [of handleLT]
        by (auto simp: text_runes_def lex_handler_def handleLT_def Let_def lx1_def tok_lexeme_def NewToken_def)
    next
      case 4
      then show ?thesis using c p2 p1 ne
        op [of handleLT]
        by (auto simp: text_runes_def lex_handler_def handleLT_def Let_def lx1_def tok_lexeme_def NewToken_def)
    next
      case 5
      then show ?thesis using c p2 p1 ne
        op [of handleGT]
        by (auto simp: text_runes_def lex_handler_def handleGT_def Let_def lx1_def tok_lexeme_def NewToken_def)
    next
      case 6
      then show ?thesis using c p2 p1 ne
        op [of handleGT]
        by (auto simp: text_runes_def lex_handler_def handleGT_def Let_def lx1_def tok_lexeme_def NewToken_def)
    qed
  qed
qed

lemma lex_step_print:
  assumes "wf_lexeme l" and "lx_rest lx = print_lexeme l @ 32 # zs"
  shows "\<exists>t lx'. lex_step lx = (Ok (Some t), lx') \<and> tok_lexeme t = l \<and> lx_rest lx' = 32 # zs"
proof (cases l)
  case (Pair ty tx)
  consider "ty = TK_STRING" | "ty = TK_NUMBER" | "ty \<notin> {TK_STRING, TK_NUMBER}" "(ty, tx) \<in> set punctuation"
    | "ty \<notin> {TK_STRING, TK_NUMBER}" "(ty, tx) \<notin> set punctuation"
    by blast
  then show ?thesis
  proof cases
    case 1
    then show ?thesis using lex_step_string [of tx lx zs] assms Pair by simp
  next
    case 2
    then show ?thesis using lex_step_number [of tx lx zs] assms Pair by simp
  next
    case 3
    then show ?thesis using lex_step_punctuation [of ty tx lx zs] assms Pair by simp
  next
    case 4
    then have "wf_word (text_runes tx)"
      "(case map_of sql_keywords (ToUpper tx) of Some k \<Rightarrow> k | None \<Rightarrow> TK_IDENT) = ty"
      using assms(1) Pair by (auto split: if_splits)
    then show ?thesis using lex_step_word [of tx lx zs] assms(2) 4 Pair by simp
  qed
qed

lemma lex_step_space:
  assumes "lx_rest lx = 32 # zs" and "zs = [] \<or> \<not> isWhitespace (hd zs)"
  shows "\<exists>lx'. lex_step lx = (Ok None, lx') \<and> lx_rest lx' = zs"
proof -
  note p = lx_peek_Cons [OF assms(1)]
  obtain rs lx' where w: "lx_while isWhitespace lx = (rs, lx')" by force
  have "dropWhile isWhitespace (32 # zs) = zs"
    using assms(2) by (cases zs) (auto simp: isWhitespace_def)
  then show ?thesis
    using lx_while_rest [OF w] w p assms(1)
    by (auto simp: lex_step_def consumeWhitespace_def Let_def isWhitespace_def)
qed

lemma print_lexeme_start: "wf_lexeme l \<Longrightarrow> print_lexeme l \<noteq> [] \<and> \<not> isWhitespace (hd (print_lexeme l))"
proof (cases l)
  case (Pair ty tx)
  assume wf: "wf_lexeme l"
  have "wf_word rs \<Longrightarrow> rs \<noteq> [] \<and> \<not> isWhitespace (hd rs)" for rs
    by (cases rs) (auto simp: isIdentStart_def isWhitespace_def)
  moreover have "wf_number rs \<Longrightarrow> rs \<noteq> [] \<and> \<not> isWhitespace (hd rs)" for rs
    by (cases rs) (auto simp: isDigit_def isWhitespace_def split: if_splits)
  moreover have "(ty, tx) \<in> set punctuation \<Longrightarrow> text_runes tx \<noteq> [] \<and> \<not> isWhitespace (hd (text_runes tx))"
    by (auto simp: punctuation_def text_runes_def isWhitespace_def)
  moreover have "\<not> isWhitespace 39" by (simp add: isWhitespace_def)
  ultimately show ?thesis using wf Pair by (auto split: if_splits)
qed

lemma tokenize_loop_then:
  assumes "list_all wf_lexeme ls" and "lx_rest lx = concat (map (\<lambda>l. print_lexeme l @ [32]) ls) @ zs"
    and "zs = [] \<or> \<not> isWhitespace (hd zs)"
    and tail: "\<And>lx. lx_rest lx = zs \<Longrightarrow> \<exists>ts. tokenize_loop lx = Ok ts \<and> map tok_lexeme ts = ks"
  shows "\<exists>ts. tokenize_loop lx = Ok ts \<and> map tok_lexeme ts = ls @ ks"
  using assms(1,2)
proof (induction ls arbitrary: lx)
  case Nil
  then show ?case using tail by simp
next
  case (Cons l ls)
  let ?zs = "concat (map (\<lambda>l. print_lexeme l @ [32]) ls) @ zs"
  have r: "lx_rest lx = print_lexeme l @ 32 # ?zs" using Cons.prems(2) by simp
  have wf: "wf_lexeme l" "list_all wf_lexeme ls" using Cons.prems(1) by simp_all
  obtain t lx1 where s1: "lex_step lx = (Ok (Some t), lx1)" "tok_lexeme t = l" "lx_rest lx1 = 32 # ?zs"
    using lex_step_print [OF wf(1) r] by blast
  have "?zs = [] \<or> \<not> isWhitespace (hd ?zs)"
    using wf(2) print_lexeme_start assms(3) by (cases ls) (auto simp: hd_append)
  then obtain lx2 where s2: "lex_step lx1 = (Ok None, lx2)" "lx_rest lx2 = ?zs"
    using lex_step_space [OF s1(3)] by blast
  obtain ts where ts: "tokenize_loop lx2 = Ok ts" "map tok_lexeme ts = ls @ ks"
    using Cons.IH [OF wf(2) s2(2)] by blast
  have e: "\<not> lx_eof lx" "\<not> lx_eof lx1"
    using r s1(3) by (simp_all add: lx_eof_rest)
  have "tokenize_loop lx1 = Ok ts"
    using s2(1) ts(1) e(2) by (subst tokenize_loop.simps) simp
  then have "tokenize_loop lx = Ok (t # ts)"
    using s1(1) e(1) by (subst tokenize_loop.simps) simp
  then show ?case using ts(2) s1(2) by simp
qed

lemma tokenize_loop_end: "lx_rest lx = [] \<Longrightarrow> \<exists>ts. tokenize_loop lx = Ok ts \<and> map tok_lexeme ts = [(TK_EOF, '''')]"
  by (subst tokenize_loop.simps) (simp add: lx_eof_rest NewToken_def tok_lexeme_def)

lemma tokenize_loop_print:
  assumes "list_all wf_lexeme ls" and "lx_rest lx = concat (map (\<lambda>l. print_lexeme l @ [32]) ls)"
  shows "\<exists>ts. tokenize_loop lx = Ok ts \<and> map tok_lexeme ts = ls @ [(TK_EOF, '''')]"
  using tokenize_loop_then [OF assms(1), of lx "[]"] assms(2) tokenize_loop_end by simp

lemma quote_runes_set: "set (quote_runes rs) \<subseteq> insert 39 (set rs)"
  by (induction rs) auto

lemma print_lexeme_scalar: "wf_lexeme l \<Longrightarrow> r \<in> set (print_lexeme l) \<Longrightarrow> scalar r"
proof (cases l)
  case (Pair ty tx)
  assume wf: "wf_lexeme l" and r: "r \<in> set (print_lexeme l)"
  have low: "scalar x" if "x < 256" for x using that by (simp add: scalar_def)
  have "of_char c < (256 :: nat)" for c :: char by simp
  then show ?thesis
    using r Pair quote_runes_set [of "runes_of_string tx"] runes_of_string_scalar [of r tx] low
    by (auto simp: text_runes_def split: if_splits)
qed

lemma tokenize_spec:
  "case Tokenize sql of
     Ok ts \<Rightarrow> tiles (runes_of_string sql) 0 ts
   | Err e \<Rightarrow> (\<exists>m n. e = SqlSyntaxError m n (line_at (runes_of_string sql) n) (column_at (runes_of_string sql) n)
        \<and> n < length (runes_of_string sql))
   | Panic \<Rightarrow> False"
proof -
  let ?lx = "\<lparr>lx_input = runes_of_string sql, lx_pos = 0, lx_line = 1, lx_col = 1\<rparr>"
  have "lx_good ?lx" by (simp add: lx_good_def line_at_def column_at_def)
  from tokenize_loop_tiles [OF this] show ?thesis
    unfolding Tokenize_def by (simp only: SqlLexer.simps)
qed

lemma tiles_last: "tiles inp n ts \<Longrightarrow> ts \<noteq> [] \<and> tok_type (last ts) = TK_EOF"
  by (induction inp n ts rule: tiles.induct) (auto split: if_splits)

lemma print_lexemes_runes:
  assumes "list_all wf_lexeme ls"
  shows "\<forall>r \<in> set (concat (map (\<lambda>l. print_lexeme l @ [32]) ls)). scalar r"
proof -
  have "scalar 32" by (simp add: scalar_def)
  then show ?thesis using assms print_lexeme_scalar by (auto simp: list_all_iff)
qed

lemma tokenize_print:
  assumes "list_all wf_lexeme ls"
  shows "\<exists>ts. Tokenize (print_lexemes ls) = Ok ts \<and> map tok_lexeme ts = ls @ [(TK_EOF, '''')]"
proof -
  let ?rs = "concat (map (\<lambda>l. print_lexeme l @ [32]) ls)"
  have "runes_of_string (print_lexemes ls) = ?rs"
    unfolding print_lexemes_def using print_lexemes_runes [OF assms] by (rule runes_of_string_of_runes)
  then show ?thesis
    using tokenize_loop_print [OF assms, of "\<lparr>lx_input = ?rs, lx_pos = 0, lx_line = 1, lx_col = 1\<rparr>"]
    by (simp add: Tokenize_def lx_rest_def)
qed

text \<open>A semicolon may follow the last lexeme.\<close>

lemma tokenize_print_semicolon:
  assumes "list_all wf_lexeme ls"
  shows "\<exists>ts. Tokenize (print_lexemes ls @ '';'') = Ok ts \<and> map tok_lexeme ts = ls @ [(TK_SEMICOLON, '';''), (TK_EOF, '''')]"
proof -
  let ?rs = "concat (map (\<lambda>l. print_lexeme l @ [32]) ls)"
  have semi: "string_of_runes [59] = '';''" by (simp add: string_of_ascii_runes) code_simp
  have "print_lexemes ls @ '';'' = string_of_runes (?rs @ [59])"
    unfolding print_lexemes_def string_of_runes_append semi ..
  moreover have "\<forall>r \<in> set (?rs @ [59]). scalar r" using print_lexemes_runes [OF assms] by (auto simp: scalar_def)
  ultimately have r: "runes_of_string (print_lexemes ls @ '';'') = ?rs @ [59]" using runes_of_string_of_runes by simp
  have tail: "\<exists>ts. tokenize_loop lx = Ok ts \<and> map tok_lexeme ts = [(TK_SEMICOLON, '';''), (TK_EOF, '''')]" if "lx_rest lx = [59]" for lx
  proof -
    note p = lx_peek_Cons [OF that]
    have "lx_rest (lx_advance lx) = []" using p by simp
    from tokenize_loop_end [OF this] obtain ts where ts: "tokenize_loop (lx_advance lx) = Ok ts" "map tok_lexeme ts = [(TK_EOF, '''')]"
      by (elim exE conjE)
    have "lex_step lx = (Ok (Some (NewToken TK_SEMICOLON '';'' (lx_pos lx) (lx_pos lx + 1) (lx_line lx) (lx_col lx))), lx_advance lx)"
      using p by (simp add: lex_step_def lex_handler_def handleSingle_def isWhitespace_def isIdentStart_def isDigit_def Let_def)
    then have "tokenize_loop lx = Ok (NewToken TK_SEMICOLON '';'' (lx_pos lx) (lx_pos lx + 1) (lx_line lx) (lx_col lx) # ts)"
      using p ts(1) by (subst tokenize_loop.simps) simp
    then show ?thesis using ts(2) by (simp add: tok_lexeme_def NewToken_def)
  qed
  have w: "\<not> isWhitespace (hd [59 :: rune])" by (simp add: isWhitespace_def)
  have "\<exists>ts. tokenize_loop \<lparr>lx_input = ?rs @ [59], lx_pos = 0, lx_line = 1, lx_col = 1\<rparr> = Ok ts
      \<and> map tok_lexeme ts = ls @ [(TK_SEMICOLON, '';''), (TK_EOF, '''')]"
    by (rule tokenize_loop_then [OF assms _ disjI2 [OF w] tail]) (simp_all add: lx_rest_def)
  then show ?thesis unfolding Tokenize_def r .
qed

section \<open>Properties\<close>

text \<open>C28: Tokenize always terminates. On success the tokens tile the text: only white space lies
  between them, each token starts at the line and column it reports, and the last one is the end
  of file at the end of the text. On failure it is a syntax error whose line and column are those
  of its offset inside the text; it never panics.\<close>

theorem Tokenize_tiles:
  "case Tokenize sql of
     Ok ts \<Rightarrow> tiles (runes_of_string sql) 0 ts
   | Err e \<Rightarrow> (\<exists>m n. e = SqlSyntaxError m n (line_at (runes_of_string sql) n) (column_at (runes_of_string sql) n)
        \<and> n < length (runes_of_string sql))
   | Panic \<Rightarrow> False"
  by (rule tokenize_spec)

text \<open>C29: printing any lexemes the lexer knows (identifiers, numbers, quoted strings, keywords in any
  case, punctuation), each followed by a space, and tokenizing the text gives these lexemes back.\<close>

theorem Tokenize_roundtrip:
  assumes "list_all wf_lexeme ls"
  shows "\<exists>ts. Tokenize (print_lexemes ls) = Ok ts \<and> map tok_lexeme ts = ls @ [(TK_EOF, '''')]"
  using assms by (rule tokenize_print)

theorem Tokenize_roundtrip_witness:
  "\<exists>ts. Tokenize (print_lexemes [(TK_SELECT, ''select''), (TK_ASTERISK, ''*''), (TK_NE, ''!=''),
      (TK_NUMBER, ''-12''), (TK_STRING, [CHR 0x27, CHR ''x''])]) = Ok ts
    \<and> map tok_lexeme ts = [(TK_SELECT, ''select''), (TK_ASTERISK, ''*''), (TK_NE, ''!=''),
      (TK_NUMBER, ''-12''), (TK_STRING, [CHR 0x27, CHR ''x''])] @ [(TK_EOF, '''')]"
  by (rule Tokenize_roundtrip)
     (simp add: punctuation_def text_runes_def sql_keywords_def ToUpper_def ascii_upper_def isDigit_def
       isIdentStart_def isIdentPart_def runes_of_ascii string_of_ascii_runes, code_simp)

end
