(* ===== verification/Ast.thy ===== *)
theory Ast
  imports Lexer
begin

text \<open>The abstract syntax of \<open>internal/core/sql/ast\<close> and \<open>internal/core/types\<close>, with the constructors
  of the code. \<open>IndexType\<close> is an open integer type with two constants. An operator is the string the parser stores; a missing \<open>where\<close> is \<open>None\<close>.\<close>

type_synonym IndexType = int

definition IndexTypeHash :: IndexType where "IndexTypeHash = 0"
definition IndexTypeBTree :: IndexType where "IndexTypeBTree = 1"

record SqlIdent =
  id_text :: string
  id_offset :: nat
  id_line :: nat
  id_column :: nat

datatype Expr =
    ColumnRefExpr SqlIdent
  | LiteralInt64Expr int64
  | LiteralStringExpr string
  | BinaryExpr string Expr Expr

record ColumnDef =
  cd_name :: SqlIdent
  cd_typeName :: string

datatype Statement =
    CreateTableStmt SqlIdent "ColumnDef list"
  | CreateIndexStmt SqlIdent SqlIdent SqlIdent IndexType
  | InsertStmt SqlIdent "Expr list"
  | SelectStmt bool "SqlIdent list" SqlIdent "Expr option"
  | ExplainStmt Statement

text \<open>Source positions are for error messages: two trees that differ only there are the same query.\<close>

definition plain_ident :: "string \<Rightarrow> SqlIdent" where
  "plain_ident s = \<lparr>id_text = s, id_offset = 0, id_line = 0, id_column = 0\<rparr>"

definition strip_ident :: "SqlIdent \<Rightarrow> SqlIdent" where
  "strip_ident i = plain_ident (id_text i)"

fun strip_expr :: "Expr \<Rightarrow> Expr" where
  "strip_expr (ColumnRefExpr i) = ColumnRefExpr (strip_ident i)"
| "strip_expr (LiteralInt64Expr n) = LiteralInt64Expr n"
| "strip_expr (LiteralStringExpr s) = LiteralStringExpr s"
| "strip_expr (BinaryExpr op l r) = BinaryExpr op (strip_expr l) (strip_expr r)"

definition strip_coldef :: "ColumnDef \<Rightarrow> ColumnDef" where
  "strip_coldef c = \<lparr>cd_name = strip_ident (cd_name c), cd_typeName = cd_typeName c\<rparr>"

fun strip_stmt :: "Statement \<Rightarrow> Statement" where
  "strip_stmt (CreateTableStmt t cols) = CreateTableStmt (strip_ident t) (map strip_coldef cols)"
| "strip_stmt (CreateIndexStmt i t c ty) = CreateIndexStmt (strip_ident i) (strip_ident t) (strip_ident c) ty"
| "strip_stmt (InsertStmt t vs) = InsertStmt (strip_ident t) (map strip_expr vs)"
| "strip_stmt (SelectStmt all cols t w) =
     SelectStmt all (map strip_ident cols) (strip_ident t) (map_option strip_expr w)"
| "strip_stmt (ExplainStmt s) = ExplainStmt (strip_stmt s)"

lemma strip_ident_text [simp]: "id_text (strip_ident i) = id_text i"
  by (simp add: strip_ident_def plain_ident_def)

end
