(* ===== verification/CatalogModel.thy ===== *)
theory CatalogModel
  imports Ast
begin

text \<open>
  The catalog records of \<open>internal/core/catalog/model\<close> and their byte format. \<open>ToBytes\<close> fills a buffer
  of exactly the needed size from left to right, so it is the concatenation of the encoded fields;
  \<open>FromBytes\<close> walks over the data with an offset and panics where a slice leaves the data. The
  common contract of the four formats is the locale \<open>record_codec\<close>.
\<close>

section \<open>Strings of white space\<close>

text \<open>\<open>unicode.IsSpace\<close>; \<open>strings.TrimSpace(s) == ""\<close> says that every rune is one of these.\<close>

definition IsSpace :: "rune \<Rightarrow> bool" where
  "IsSpace r \<longleftrightarrow> r \<in> {9, 10, 11, 12, 13, 32, 0x85, 0xA0, 0x1680, 0x2028, 0x2029, 0x202F, 0x205F, 0x3000}
     \<or> 0x2000 \<le> r \<and> r \<le> 0x200A"

definition blank :: "string \<Rightarrow> bool" where
  "blank s \<longleftrightarrow> list_all IsSpace (runes_of_string s)"

section \<open>Reading fields\<close>

type_synonym 'a reader = "bytes \<Rightarrow> nat \<Rightarrow> ('a \<times> nat) result"

definition rd_bind :: "'a reader \<Rightarrow> ('a \<Rightarrow> 'b reader) \<Rightarrow> 'b reader" where
  "rd_bind f g data off = bind_result (f data off) (\<lambda>(x, off'). g x data off')"

definition rd_return :: "'a \<Rightarrow> 'a reader" where
  "rd_return x data off = Ok (x, off)"

definition rd_int32 :: "int32 reader" where
  "rd_int32 data off = bind_result (get_u32 data off) (\<lambda>v. Ok (v, off + 4))"

definition rd_string :: "string reader" where
  "rd_string data off = bind_result (get_u16 data off) (\<lambda>n.
     bind_result (get_slice data (off + 2) (unat n)) (\<lambda>bs. Ok (string_of_bytes bs, off + 2 + unat n)))"

definition enc_string :: "string \<Rightarrow> bytes" where
  "enc_string s = be16 (word_of_nat (length s)) @ bytes_of_string s"

text \<open>\<open>reads r bs x\<close>: wherever \<open>bs\<close> stands in the data, the reader returns \<open>x\<close> and the offset behind it.\<close>

definition reads :: "'a reader \<Rightarrow> bytes \<Rightarrow> 'a \<Rightarrow> bool" where
  "reads r bs x \<longleftrightarrow> (\<forall>pre post. r (pre @ bs @ post) (length pre) = Ok (x, length pre + length bs))"

lemma reads_return: "reads (rd_return x) [] x"
  by (simp add: reads_def rd_return_def)

lemma reads_bind:
  assumes f: "reads f bs x" and g: "reads (g x) cs y"
  shows "reads (rd_bind f g) (bs @ cs) y"
  unfolding reads_def
proof (intro allI)
  fix pre post
  have "f (pre @ (bs @ cs) @ post) (length pre) = Ok (x, length pre + length bs)"
    using f [unfolded reads_def, rule_format, of pre "cs @ post"] by simp
  moreover have "g x (pre @ (bs @ cs) @ post) (length pre + length bs) = Ok (y, length pre + length bs + length cs)"
    using g [unfolded reads_def, rule_format, of "pre @ bs" post] by simp
  ultimately show "rd_bind f g (pre @ (bs @ cs) @ post) (length pre) = Ok (y, length pre + length (bs @ cs))"
    by (simp add: rd_bind_def add.assoc)
qed

lemma reads_int32: "reads rd_int32 (be32 v) v"
  by (simp add: reads_def rd_int32_def get_u32_def slice_append_right)

lemma reads_string:
  assumes "length s \<le> 65535"
  shows "reads rd_string (enc_string s) s"
  unfolding reads_def
proof (intro allI)
  fix pre post
  let ?d = "pre @ enc_string s @ post"
  have n: "unat (word_of_nat (length s) :: uint16) = length s"
    using assms by (simp add: unat_of_nat)
  have "slice (length pre) 2 ?d = be16 (word_of_nat (length s))"
    by (simp add: enc_string_def slice_append_right)
  moreover have "slice (length pre + 2) (length s) ?d = bytes_of_string s"
    using slice_append_right [of "pre @ be16 (word_of_nat (length s))" "length pre + 2" "length s" "bytes_of_string s @ post"]
    by (simp add: enc_string_def)
  ultimately show "rd_string ?d (length pre) = Ok (s, length pre + length (enc_string s))"
    by (simp add: rd_string_def get_u16_def get_slice_def n) (simp add: enc_string_def)
qed

lemma reads_cons:
  "reads (g v) cs y \<Longrightarrow> reads (rd_bind rd_int32 g) (be32 v @ cs) y"
  "length s \<le> 65535 \<Longrightarrow> reads (h s) cs y \<Longrightarrow> reads (rd_bind rd_string h) (enc_string s @ cs) y"
  "x = y \<Longrightarrow> reads (rd_return x) [] y"
  by (auto intro: reads_bind reads_int32 reads_string reads_return)

section \<open>The records\<close>

record TypeDefinition =
  ty_oid :: int32
  ty_name :: string
  ty_byteLength :: int32

record TableDefinition =
  tb_oid :: int32
  tb_name :: string
  tb_typ :: string
  tb_fileNode :: string
  tb_pagesCount :: int32

record ColumnDefinition =
  co_oid :: int32
  co_tableOid :: int32
  co_typeOid :: int32
  co_name :: string
  co_position :: int32

record IndexDefinition =
  ix_oid :: int32
  ix_name :: string
  ix_tableOid :: int32
  ix_columnOid :: int32
  ix_keyTypeOid :: int32
  ix_indexType :: IndexType
  ix_fileNode :: string
  ix_metaPageId :: int32
  ix_rootPageId :: int32

definition NewTypeDefinition :: "int32 \<Rightarrow> string \<Rightarrow> int32 \<Rightarrow> TypeDefinition result" where
  "NewTypeDefinition oid name byteLength =
     (if name = '''' then Err ErrNameRequired
      else Ok \<lparr>ty_oid = oid, ty_name = name, ty_byteLength = byteLength\<rparr>)"

definition NewTableDefinition :: "int32 \<Rightarrow> string \<Rightarrow> string \<Rightarrow> string \<Rightarrow> int32 \<Rightarrow> TableDefinition result" where
  "NewTableDefinition oid name typ fileNode pagesCount =
     (if blank name then Err ErrNameRequired
      else if blank typ then Err ErrTypeRequired
      else if blank fileNode then Err ErrFileNodeRequired
      else Ok \<lparr>tb_oid = oid, tb_name = name, tb_typ = typ, tb_fileNode = fileNode, tb_pagesCount = pagesCount\<rparr>)"

definition NewColumnDefinition :: "int32 \<Rightarrow> int32 \<Rightarrow> int32 \<Rightarrow> string \<Rightarrow> int32 \<Rightarrow> ColumnDefinition result" where
  "NewColumnDefinition oid tableOid typeOid name position =
     (if name = '''' then Err ErrNameRequired
      else Ok \<lparr>co_oid = oid, co_tableOid = tableOid, co_typeOid = typeOid, co_name = name, co_position = position\<rparr>)"

definition NewIndexDefinition :: "int32 \<Rightarrow> string \<Rightarrow> int32 \<Rightarrow> int32 \<Rightarrow> int32 \<Rightarrow> IndexType \<Rightarrow> string \<Rightarrow> int32
    \<Rightarrow> int32 \<Rightarrow> IndexDefinition result" where
  "NewIndexDefinition oid name tableOid columnOid keyTypeOid indexType fileNode metaPageId rootPageId =
     (if name = '''' then Err ErrNameRequired
      else if fileNode = '''' then Err ErrFileNodeRequired
      else Ok \<lparr>ix_oid = oid, ix_name = name, ix_tableOid = tableOid, ix_columnOid = columnOid,
               ix_keyTypeOid = keyTypeOid, ix_indexType = indexType, ix_fileNode = fileNode,
               ix_metaPageId = metaPageId, ix_rootPageId = rootPageId\<rparr>)"

section \<open>ToBytes and FromBytes\<close>

definition type_ToBytes :: "TypeDefinition \<Rightarrow> bytes result" where
  "type_ToBytes t =
     (if length (ty_name t) > 65535 then Err ErrNameTooLong
      else Ok (be32 (ty_oid t) @ enc_string (ty_name t) @ be32 (ty_byteLength t)))"

definition TypeDefinitionFromBytes :: "bytes \<Rightarrow> TypeDefinition result" where
  "TypeDefinitionFromBytes data =
     (if length data < 10 then Err ErrDataTooShort
      else bind_result (rd_bind rd_int32 (\<lambda>oid. rd_bind rd_string (\<lambda>name. rd_bind rd_int32 (\<lambda>byteLength.
        rd_return \<lparr>ty_oid = oid, ty_name = name, ty_byteLength = byteLength\<rparr>))) data 0) (\<lambda>(t, _). Ok t))"

definition table_ToBytes :: "TableDefinition \<Rightarrow> bytes result" where
  "table_ToBytes t =
     (if length (tb_name t) > 65535 \<or> length (tb_typ t) > 65535 \<or> length (tb_fileNode t) > 65535
      then Err ErrStringTooLong
      else Ok (be32 (tb_oid t) @ enc_string (tb_name t) @ enc_string (tb_typ t) @ enc_string (tb_fileNode t)
               @ be32 (tb_pagesCount t)))"

definition TableDefinitionFromBytes :: "bytes \<Rightarrow> TableDefinition result" where
  "TableDefinitionFromBytes data =
     (if length data < 14 then Err ErrDataTooShort
      else bind_result (rd_bind rd_int32 (\<lambda>oid. rd_bind rd_string (\<lambda>name. rd_bind rd_string (\<lambda>typ.
        rd_bind rd_string (\<lambda>fileNode. rd_bind rd_int32 (\<lambda>pagesCount.
        rd_return \<lparr>tb_oid = oid, tb_name = name, tb_typ = typ, tb_fileNode = fileNode,
                   tb_pagesCount = pagesCount\<rparr>))))) data 0) (\<lambda>(t, _). Ok t))"

definition column_ToBytes :: "ColumnDefinition \<Rightarrow> bytes result" where
  "column_ToBytes c =
     (if length (co_name c) > 65535 then Err ErrNameTooLong
      else Ok (be32 (co_oid c) @ be32 (co_tableOid c) @ be32 (co_typeOid c) @ enc_string (co_name c)
               @ be32 (co_position c)))"

definition ColumnDefinitionFromBytes :: "bytes \<Rightarrow> ColumnDefinition result" where
  "ColumnDefinitionFromBytes data =
     (if length data < 18 then Err ErrDataTooShort
      else bind_result (rd_bind rd_int32 (\<lambda>oid. rd_bind rd_int32 (\<lambda>tableOid. rd_bind rd_int32 (\<lambda>typeOid.
        rd_bind rd_string (\<lambda>name. rd_bind rd_int32 (\<lambda>position.
        rd_return \<lparr>co_oid = oid, co_tableOid = tableOid, co_typeOid = typeOid, co_name = name,
                   co_position = position\<rparr>))))) data 0) (\<lambda>(c, _). Ok c))"

text \<open>The index type is stored as \<open>uint32(ordinal)\<close> and read back as \<open>int(int32(..))\<close>.\<close>

definition index_ToBytes :: "IndexDefinition \<Rightarrow> bytes result" where
  "index_ToBytes i =
     (if length (ix_name i) > 65535 \<or> length (ix_fileNode i) > 65535 then Err ErrStringTooLong
      else Ok (be32 (ix_oid i) @ be32 (ix_tableOid i) @ be32 (ix_columnOid i) @ be32 (ix_keyTypeOid i)
               @ be32 (word_of_int (ix_indexType i)) @ be32 (ix_metaPageId i) @ be32 (ix_rootPageId i)
               @ enc_string (ix_name i) @ enc_string (ix_fileNode i)))"

definition IndexDefinitionFromBytes :: "bytes \<Rightarrow> IndexDefinition result" where
  "IndexDefinitionFromBytes data =
     (if length data < 32 then Err ErrDataTooShort
      else bind_result (rd_bind rd_int32 (\<lambda>oid. rd_bind rd_int32 (\<lambda>tableOid. rd_bind rd_int32 (\<lambda>columnOid.
        rd_bind rd_int32 (\<lambda>keyTypeOid. rd_bind rd_int32 (\<lambda>indexTypeOrd. rd_bind rd_int32 (\<lambda>metaPageId.
        rd_bind rd_int32 (\<lambda>rootPageId. rd_bind rd_string (\<lambda>name. rd_bind rd_string (\<lambda>fileNode.
        rd_return \<lparr>ix_oid = oid, ix_name = name, ix_tableOid = tableOid, ix_columnOid = columnOid,
                   ix_keyTypeOid = keyTypeOid, ix_indexType = sint indexTypeOrd, ix_fileNode = fileNode,
                   ix_metaPageId = metaPageId, ix_rootPageId = rootPageId\<rparr>))))))))) data 0) (\<lambda>(i, _). Ok i))"

section \<open>The contract of a record format\<close>

locale record_codec =
  fixes enc :: "'a \<Rightarrow> bytes result"
    and dec :: "bytes \<Rightarrow> 'a result"
    and ok :: "'a \<Rightarrow> bool"
  assumes dec_enc: "ok x \<Longrightarrow> enc x = Ok bs \<Longrightarrow> dec bs = Ok x"
    and enc_no_panic: "enc x \<noteq> Panic"
begin

lemma enc_inj: "ok x \<Longrightarrow> ok y \<Longrightarrow> enc x = Ok bs \<Longrightarrow> enc y = Ok bs \<Longrightarrow> x = y"
  using dec_enc by (metis result.inject(1))

lemma dec_all:
  assumes "\<forall>x \<in> set xs. ok x" and "traverse enc xs = Ok bss"
  shows "traverse dec bss = Ok xs"
  using traverse_inverse [OF _ assms(2)] dec_enc assms(1) by blast

end

lemma codec_read:
  assumes "reads r bs x" and "length bs \<ge> n"
  shows "(if length bs < n then Err ErrDataTooShort else bind_result (r bs 0) (\<lambda>(y, _). Ok y)) = Ok x"
  using assms(1) [unfolded reads_def, rule_format, of "[]" "[]"] assms(2) by simp

lemma length_enc_string [simp]: "length (enc_string s) = 2 + length s"
  by (simp add: enc_string_def)

interpretation type_codec: record_codec type_ToBytes TypeDefinitionFromBytes "\<lambda>_. True"
proof unfold_locales
  fix t bs
  assume "type_ToBytes t = Ok bs"
  then have l: "length (ty_name t) \<le> 65535"
    and bs: "bs = be32 (ty_oid t) @ enc_string (ty_name t) @ be32 (ty_byteLength t) @ []"
    by (auto simp: type_ToBytes_def split: if_splits)
  show "TypeDefinitionFromBytes bs = Ok t"
    unfolding TypeDefinitionFromBytes_def
    by (rule codec_read) (unfold bs, (intro reads_cons l; simp), simp)
qed (auto simp: type_ToBytes_def)

interpretation table_codec: record_codec table_ToBytes TableDefinitionFromBytes "\<lambda>_. True"
proof unfold_locales
  fix t bs
  assume "table_ToBytes t = Ok bs"
  then have l: "length (tb_name t) \<le> 65535" "length (tb_typ t) \<le> 65535" "length (tb_fileNode t) \<le> 65535"
    and bs: "bs = be32 (tb_oid t) @ enc_string (tb_name t) @ enc_string (tb_typ t) @ enc_string (tb_fileNode t)
      @ be32 (tb_pagesCount t) @ []"
    by (auto simp: table_ToBytes_def split: if_splits)
  show "TableDefinitionFromBytes bs = Ok t"
    unfolding TableDefinitionFromBytes_def
    by (rule codec_read) (unfold bs, (intro reads_cons l; simp), simp)
qed (auto simp: table_ToBytes_def)

interpretation column_codec: record_codec column_ToBytes ColumnDefinitionFromBytes "\<lambda>_. True"
proof unfold_locales
  fix c bs
  assume "column_ToBytes c = Ok bs"
  then have l: "length (co_name c) \<le> 65535"
    and bs: "bs = be32 (co_oid c) @ be32 (co_tableOid c) @ be32 (co_typeOid c) @ enc_string (co_name c)
      @ be32 (co_position c) @ []"
    by (auto simp: column_ToBytes_def split: if_splits)
  show "ColumnDefinitionFromBytes bs = Ok c"
    unfolding ColumnDefinitionFromBytes_def
    by (rule codec_read) (unfold bs, (intro reads_cons l; simp), simp)
qed (auto simp: column_ToBytes_def)

text \<open>An index type that fits into 32 bits, as the two types of the program do.\<close>

definition ix_ok :: "IndexDefinition \<Rightarrow> bool" where
  "ix_ok i \<longleftrightarrow> - (2 ^ 31) \<le> ix_indexType i \<and> ix_indexType i < 2 ^ 31"

lemma sint_word_of_int32: "- (2 ^ 31) \<le> i \<Longrightarrow> i < 2 ^ 31 \<Longrightarrow> sint (word_of_int i :: int32) = i"
  by (simp add: int_word_sint)

interpretation index_codec: record_codec index_ToBytes IndexDefinitionFromBytes ix_ok
proof unfold_locales
  fix i bs
  assume ok: "ix_ok i" and "index_ToBytes i = Ok bs"
  then have l: "length (ix_name i) \<le> 65535" "length (ix_fileNode i) \<le> 65535"
    and bs: "bs = be32 (ix_oid i) @ be32 (ix_tableOid i) @ be32 (ix_columnOid i) @ be32 (ix_keyTypeOid i)
      @ be32 (word_of_int (ix_indexType i)) @ be32 (ix_metaPageId i) @ be32 (ix_rootPageId i)
      @ enc_string (ix_name i) @ enc_string (ix_fileNode i) @ []"
    by (auto simp: index_ToBytes_def split: if_splits)
  have s: "sint (word_of_int (ix_indexType i) :: int32) = ix_indexType i"
    using ok sint_word_of_int32 by (simp add: ix_ok_def)
  show "IndexDefinitionFromBytes bs = Ok i"
    unfolding IndexDefinitionFromBytes_def
    by (rule codec_read) (unfold bs, (intro reads_cons l; simp add: s), simp)
qed (auto simp: index_ToBytes_def)

section \<open>Properties\<close>

text \<open>C30: every catalog record is read back from its bytes as it was written. ToBytes fails only for
  a name, type or file name of more than 65535 bytes.\<close>

theorem catalog_records_roundtrip:
  assumes "ix_indexType i = IndexTypeHash \<or> ix_indexType i = IndexTypeBTree"
  shows "(case type_ToBytes ty of Ok bs \<Rightarrow> TypeDefinitionFromBytes bs = Ok ty
      | Err e \<Rightarrow> 65535 < length (ty_name ty) | Panic \<Rightarrow> False)
    \<and> (case table_ToBytes tb of Ok bs \<Rightarrow> TableDefinitionFromBytes bs = Ok tb
      | Err e \<Rightarrow> 65535 < max (length (tb_name tb)) (max (length (tb_typ tb)) (length (tb_fileNode tb))) | Panic \<Rightarrow> False)
    \<and> (case column_ToBytes co of Ok bs \<Rightarrow> ColumnDefinitionFromBytes bs = Ok co
      | Err e \<Rightarrow> 65535 < length (co_name co) | Panic \<Rightarrow> False)
    \<and> (case index_ToBytes i of Ok bs \<Rightarrow> IndexDefinitionFromBytes bs = Ok i
      | Err e \<Rightarrow> 65535 < max (length (ix_name i)) (length (ix_fileNode i)) | Panic \<Rightarrow> False)"
proof (intro conjI)
  show "case type_ToBytes ty of Ok bs \<Rightarrow> TypeDefinitionFromBytes bs = Ok ty
      | Err e \<Rightarrow> 65535 < length (ty_name ty) | Panic \<Rightarrow> False"
    using type_codec.dec_enc [of ty] by (auto simp: type_ToBytes_def split: result.splits if_splits)
  show "case table_ToBytes tb of Ok bs \<Rightarrow> TableDefinitionFromBytes bs = Ok tb
      | Err e \<Rightarrow> 65535 < max (length (tb_name tb)) (max (length (tb_typ tb)) (length (tb_fileNode tb))) | Panic \<Rightarrow> False"
    using table_codec.dec_enc [of tb] by (auto simp: table_ToBytes_def split: result.splits if_splits)
  show "case column_ToBytes co of Ok bs \<Rightarrow> ColumnDefinitionFromBytes bs = Ok co
      | Err e \<Rightarrow> 65535 < length (co_name co) | Panic \<Rightarrow> False"
    using column_codec.dec_enc [of co] by (auto simp: column_ToBytes_def split: result.splits if_splits)
  have "ix_ok i" using assms by (auto simp: ix_ok_def IndexTypeHash_def IndexTypeBTree_def)
  then show "case index_ToBytes i of Ok bs \<Rightarrow> IndexDefinitionFromBytes bs = Ok i
      | Err e \<Rightarrow> 65535 < max (length (ix_name i)) (length (ix_fileNode i)) | Panic \<Rightarrow> False"
    using index_codec.dec_enc [of i] by (auto simp: index_ToBytes_def split: result.splits if_splits)
qed

definition sample_index :: IndexDefinition where
  "sample_index = \<lparr>ix_oid = 1, ix_name = ''i'', ix_tableOid = 2, ix_columnOid = 3, ix_keyTypeOid = 1,
     ix_indexType = IndexTypeBTree, ix_fileNode = ''1.idx'', ix_metaPageId = 0, ix_rootPageId = 0\<rparr>"

theorem catalog_records_roundtrip_witness:
  "case index_ToBytes sample_index of Ok bs \<Rightarrow> IndexDefinitionFromBytes bs = Ok sample_index
      | Err e \<Rightarrow> 65535 < max (length (ix_name sample_index)) (length (ix_fileNode sample_index)) | Panic \<Rightarrow> False"
  using catalog_records_roundtrip [of sample_index] by (simp add: sample_index_def)

text \<open>C38: FromBytes checks only the minimal size of a record: a type record whose name length exceeds
  its data makes TypeDefinitionFromBytes panic instead of reporting an error.\<close>

theorem TypeDefinitionFromBytes_panics:
  assumes "10 \<le> length data" and "length data < 6 + unat (un16 (slice 4 2 data))"
  shows "TypeDefinitionFromBytes data = Panic"
  using assms
  by (simp add: TypeDefinitionFromBytes_def rd_bind_def rd_int32_def rd_string_def get_u32_def get_u16_def get_slice_def)

theorem TypeDefinitionFromBytes_panics_witness:
  "TypeDefinitionFromBytes [0, 0, 0, 1, 1, 0, 65, 66, 67, 68] = Panic"
  by (rule TypeDefinitionFromBytes_panics) (simp_all add: slice_def un16_def push_bit_eq_mult)

end
