(* ===== verification/CatalogManager.thy ===== *)
theory CatalogManager
  imports CatalogFile CatalogModel
begin

text \<open>
  The catalog manager of \<open>internal/core/catalog/manager/default_catalog_manager.go\<close>. Its state is
  the record \<open>Catalog\<close> of in-memory maps and counters; Go's maps are association lists, updated in
  place. The catalog and every other component share one buffer pool, so an operation runs on
  \<open>Db\<close>, the catalog together with the pool (which holds the disk). The definitions a map points to
  are immutable objects and are modelled as values. Every operation holds the catalog's mutex.

  The records of one kind are a log: a file of slotted pages to which \<open>appendRecord\<close> appends and
  which \<open>readAllRecords\<close> replays in order (theory \<open>CatalogFile\<close>). The last sections show that the
  in-memory catalog always is the replay of the four files, so that a restart brings back the same
  catalog.
\<close>

section \<open>State\<close>

record Catalog =
  cm_root :: string
  cm_tablesByOid :: "(int32 \<times> TableDefinition) list"
  cm_tablesByName :: "(string \<times> TableDefinition) list"
  cm_columnsByOid :: "(int32 \<times> ColumnDefinition) list"
  cm_columnsByTableOid :: "(int32 \<times> ColumnDefinition list) list"
  cm_typesByOid :: "(int32 \<times> TypeDefinition) list"
  cm_typesByName :: "(string \<times> TypeDefinition) list"
  cm_indexesByOid :: "(int32 \<times> IndexDefinition) list"
  cm_indexesByName :: "(string \<times> IndexDefinition) list"
  cm_indexesByTableOid :: "(int32 \<times> IndexDefinition list) list"
  cm_nextTableOid :: int32
  cm_nextColumnOid :: int32
  cm_nextTypeOid :: int32
  cm_nextIndexOid :: int32

record Db =
  db_cat :: Catalog
  db_pool :: Pool

definition empty_catalog :: "string \<Rightarrow> Catalog" where
  "empty_catalog root = \<lparr>cm_root = root, cm_tablesByOid = [], cm_tablesByName = [], cm_columnsByOid = [],
     cm_columnsByTableOid = [], cm_typesByOid = [], cm_typesByName = [], cm_indexesByOid = [],
     cm_indexesByName = [], cm_indexesByTableOid = [], cm_nextTableOid = 1, cm_nextColumnOid = 1,
     cm_nextTypeOid = 1, cm_nextIndexOid = 1\<rparr>"

definition builtinInt64 :: string where "builtinInt64 = ''INT64''"
definition builtinVarchar :: string where "builtinVarchar = ''VARCHAR''"
definition tablesFile :: string where "tablesFile = ''table_definitions.dat''"
definition columnsFile :: string where "columnsFile = ''column_definitions.dat''"
definition typesFile :: string where "typesFile = ''types_definitions.dat''"
definition indexesFile :: string where "indexesFile = ''index_definitions.dat''"

text \<open>Running an operation of the pool, or a change of the maps, on the whole state.\<close>

definition on_pool :: "(Pool, 'a) prog \<Rightarrow> (Db, 'a) prog" where
  "on_pool m db = (case m (db_pool db) of (r, b) \<Rightarrow> (r, db\<lparr>db_pool := b\<rparr>))"

definition on_cat :: "(Catalog \<Rightarrow> Catalog) \<Rightarrow> (Db, unit) prog" where
  "on_cat f db = (Ok (), db\<lparr>db_cat := f (db_cat db)\<rparr>)"

text \<open>A Go map from keys to slices: a missing key reads as the nil slice.\<close>

definition slice_at :: "('k \<times> 'a list) list \<Rightarrow> 'k \<Rightarrow> 'a list" where
  "slice_at m k = (case map_of m k of None \<Rightarrow> [] | Some xs \<Rightarrow> xs)"

section \<open>Lookups\<close>

definition GetTable :: "string \<Rightarrow> Catalog \<Rightarrow> TableDefinition option result" where
  "GetTable tableName c = Ok (map_of (cm_tablesByName c) tableName)"

text \<open>\<open>ListTables\<close> ranges over a Go map; the order here is the one of the association list.\<close>

definition ListTables :: "Catalog \<Rightarrow> TableDefinition list result" where
  "ListTables c = Ok (map snd (cm_tablesByOid c))"

definition GetColumns :: "TableDefinition \<Rightarrow> Catalog \<Rightarrow> ColumnDefinition list result" where
  "GetColumns table c = Ok (slice_at (cm_columnsByTableOid c) (tb_oid table))"

definition GetColumn :: "TableDefinition \<Rightarrow> string \<Rightarrow> Catalog \<Rightarrow> ColumnDefinition option result" where
  "GetColumn table columnName c =
     Ok (find (\<lambda>col. co_name col = columnName) (slice_at (cm_columnsByTableOid c) (tb_oid table)))"

definition GetTypeByOid :: "int32 \<Rightarrow> Catalog \<Rightarrow> TypeDefinition option result" where
  "GetTypeByOid oid c = Ok (map_of (cm_typesByOid c) oid)"

definition GetTypeByName :: "string \<Rightarrow> Catalog \<Rightarrow> TypeDefinition option result" where
  "GetTypeByName name c = Ok (map_of (cm_typesByName c) name)"

definition GetIndex :: "string \<Rightarrow> Catalog \<Rightarrow> IndexDefinition option result" where
  "GetIndex indexName c = Ok (map_of (cm_indexesByName c) indexName)"

definition ListIndexes :: "TableDefinition \<Rightarrow> Catalog \<Rightarrow> IndexDefinition list result" where
  "ListIndexes table c = Ok (slice_at (cm_indexesByTableOid c) (tb_oid table))"

section \<open>Changing the maps\<close>

definition indexType :: "TypeDefinition \<Rightarrow> Catalog \<Rightarrow> Catalog" where
  "indexType typ c = c\<lparr>cm_typesByOid := AList.update (ty_oid typ) typ (cm_typesByOid c),
     cm_typesByName := AList.update (ty_name typ) typ (cm_typesByName c)\<rparr>"

definition indexTable :: "TableDefinition \<Rightarrow> Catalog \<Rightarrow> Catalog" where
  "indexTable table c = c\<lparr>cm_tablesByOid := AList.update (tb_oid table) table (cm_tablesByOid c),
     cm_tablesByName := AList.update (tb_name table) table (cm_tablesByName c)\<rparr>"

text \<open>\<open>sort.Slice\<close> by position: the positions of a table's columns differ, so every sorting
  algorithm gives this list.\<close>

definition indexColumn :: "ColumnDefinition \<Rightarrow> Catalog \<Rightarrow> Catalog" where
  "indexColumn column c =
     (let existing = slice_at (cm_columnsByTableOid c) (co_tableOid column);
          filtered = filter (\<lambda>e. co_oid e \<noteq> co_oid column) existing @ [column]
      in c\<lparr>cm_columnsByOid := AList.update (co_oid column) column (cm_columnsByOid c),
           cm_columnsByTableOid := AList.update (co_tableOid column)
             (sort_key (\<lambda>e. sint (co_position e)) filtered) (cm_columnsByTableOid c)\<rparr>)"

definition indexIndex :: "IndexDefinition \<Rightarrow> Catalog \<Rightarrow> Catalog" where
  "indexIndex idx c =
     (let existing = slice_at (cm_indexesByTableOid c) (ix_tableOid idx);
          filtered = filter (\<lambda>e. ix_oid e \<noteq> ix_oid idx) existing @ [idx]
      in c\<lparr>cm_indexesByOid := AList.update (ix_oid idx) idx (cm_indexesByOid c),
           cm_indexesByName := AList.update (ix_name idx) idx (cm_indexesByName c),
           cm_indexesByTableOid := AList.update (ix_tableOid idx) filtered (cm_indexesByTableOid c)\<rparr>)"

definition nextIdAfterMax :: "(int32 \<times> 'a) list \<Rightarrow> int32" where
  "nextIdAfterMax m = fold (\<lambda>oid maxOid. if sint oid > sint maxOid then oid else maxOid) (map fst m) 0 + 1"

definition recomputeNextOids :: "Catalog \<Rightarrow> Catalog" where
  "recomputeNextOids c = c\<lparr>cm_nextTableOid := nextIdAfterMax (cm_tablesByOid c),
     cm_nextColumnOid := nextIdAfterMax (cm_columnsByOid c),
     cm_nextTypeOid := nextIdAfterMax (cm_typesByOid c),
     cm_nextIndexOid := nextIdAfterMax (cm_indexesByOid c)\<rparr>"

section \<open>Reading the catalog files\<close>

fun read_page_records :: "(bytes \<Rightarrow> (Db, unit) prog) \<Rightarrow> HeapPage \<Rightarrow> nat list \<Rightarrow> (Db, unit) prog" where
  "read_page_records consumer p [] = pure ()"
| "read_page_records consumer p (recordID # rest) =
     seq (lift_result (page_Read p (int recordID))) (\<lambda>data.
     seq (consumer data) (\<lambda>_. read_page_records consumer p rest))"

fun read_pages :: "(bytes \<Rightarrow> (Db, unit) prog) \<Rightarrow> string \<Rightarrow> nat list \<Rightarrow> (Db, unit) prog" where
  "read_pages consumer fileID [] = pure ()"
| "read_pages consumer fileID (pageID # rest) =
     seq (on_pool (GetPage (NewPageKey fileID (int pageID)))) (\<lambda>slot.
     seq (on_pool (slot_Page slot)) (\<lambda>p.
     seq (lift_result (page_Size p)) (\<lambda>n.
     seq (read_page_records consumer p [0..<n]) (\<lambda>_. read_pages consumer fileID rest))))"

definition readAllRecords :: "string \<Rightarrow> string \<Rightarrow> (bytes \<Rightarrow> (Db, unit) prog) \<Rightarrow> (Db, unit) prog" where
  "readAllRecords root fileID consumer =
     seq (\<lambda>db. (pageCount root fileID (db_pool db), db)) (\<lambda>pages. read_pages consumer fileID [0..<pages])"

section \<open>Loading\<close>

definition consume :: "(bytes \<Rightarrow> 'a result) \<Rightarrow> ('a \<Rightarrow> Catalog \<Rightarrow> Catalog) \<Rightarrow> bytes \<Rightarrow> (Db, unit) prog" where
  "consume dec f data = seq (lift_result (dec data)) (\<lambda>x. on_cat (f x))"

definition loadFromDisk :: "(Db, unit) prog" where
  "loadFromDisk db = (let root = cm_root (db_cat db) in
     seq (readAllRecords root typesFile (consume TypeDefinitionFromBytes indexType)) (\<lambda>_.
     seq (readAllRecords root tablesFile (consume TableDefinitionFromBytes indexTable)) (\<lambda>_.
     seq (readAllRecords root columnsFile (consume ColumnDefinitionFromBytes indexColumn)) (\<lambda>_.
     seq (readAllRecords root indexesFile (consume IndexDefinitionFromBytes indexIndex)) (\<lambda>_.
     on_cat recomputeNextOids)))) db)"

definition cat_append :: "string \<Rightarrow> bytes \<Rightarrow> (Db, unit) prog" where
  "cat_append fileID data db = on_pool (appendRecord (cm_root (db_cat db)) fileID data) db"

text \<open>One of the two blocks of \<open>ensureBuiltinTypesPresent\<close>; the result says whether it added the type.\<close>

definition ensure_type :: "string \<Rightarrow> int32 \<Rightarrow> (Db, bool) prog" where
  "ensure_type name byteLength db =
     (if map_of (cm_typesByName (db_cat db)) name \<noteq> None then (Ok False, db)
      else let typ = \<lparr>ty_oid = cm_nextTypeOid (db_cat db), ty_name = name, ty_byteLength = byteLength\<rparr> in
        seq (on_cat (\<lambda>c. c\<lparr>cm_nextTypeOid := cm_nextTypeOid c + 1\<rparr>)) (\<lambda>_.
        seq (on_cat (indexType typ)) (\<lambda>_.
        seq (lift_result (type_ToBytes typ)) (\<lambda>data.
        seq (cat_append typesFile data) (\<lambda>_. pure True)))) db)"

definition ensureBuiltinTypesPresent :: "(Db, unit) prog" where
  "ensureBuiltinTypesPresent =
     seq (ensure_type builtinInt64 8) (\<lambda>changed1.
     seq (ensure_type builtinVarchar (-1)) (\<lambda>changed2.
     if changed1 \<or> changed2 then on_cat recomputeNextOids else pure ()))"

definition ensureCatalogDirectory :: "(Db, unit) prog" where
  "ensureCatalogDirectory db = (let root = cm_root (db_cat db) in
     if fs_fault (bp_disk (db_pool db)) root FsMkdir then (Err (ErrMkdirAll root), db) else (Ok (), db))"

definition NewDefaultCatalogManager :: "string \<Rightarrow> Pool \<Rightarrow> unit result \<times> Db" where
  "NewDefaultCatalogManager root b =
     seq ensureCatalogDirectory (\<lambda>_. seq loadFromDisk (\<lambda>_. ensureBuiltinTypesPresent))
       \<lparr>db_cat = empty_catalog root, db_pool = b\<rparr>"

section \<open>Creating tables and indexes\<close>

fun create_columns :: "TableDefinition \<Rightarrow> nat \<Rightarrow> ColumnDefinition list \<Rightarrow> (Db, unit) prog" where
  "create_columns table position [] = pure ()"
| "create_columns table position (proto # columns) = (\<lambda>db.
     let colOid = cm_nextColumnOid (db_cat db) in
     seq (on_cat (\<lambda>c. c\<lparr>cm_nextColumnOid := colOid + 1\<rparr>)) (\<lambda>_.
     seq (lift_result (NewColumnDefinition colOid (tb_oid table) (co_typeOid proto) (co_name proto)
            (word_of_nat position))) (\<lambda>col.
     seq (on_cat (indexColumn col)) (\<lambda>_.
     seq (lift_result (column_ToBytes col)) (\<lambda>colData.
     seq (cat_append columnsFile colData) (\<lambda>_.
     create_columns table (position + 1) columns))))) db)"

definition CreateTable :: "string \<Rightarrow> ColumnDefinition list \<Rightarrow> (Db, TableDefinition) prog" where
  "CreateTable name columns db =
     (if map_of (cm_tablesByName (db_cat db)) name \<noteq> None then (Err (ErrTableExists name), db)
      else let oid = cm_nextTableOid (db_cat db) in
        seq (on_cat (\<lambda>c. c\<lparr>cm_nextTableOid := oid + 1\<rparr>)) (\<lambda>_.
        seq (lift_result (NewTableDefinition oid name ''TABLE'' (show_int (sint oid) @ ''.dat'') 0)) (\<lambda>table.
        seq (on_cat (indexTable table)) (\<lambda>_.
        seq (lift_result (table_ToBytes table)) (\<lambda>data.
        seq (cat_append tablesFile data) (\<lambda>_.
        seq (create_columns table 0 columns) (\<lambda>_.
        pure table)))))) db)"

definition UpdatePagesCount :: "TableDefinition \<Rightarrow> int32 \<Rightarrow> (Db, unit) prog" where
  "UpdatePagesCount table pagesCount =
     seq (lift_result (NewTableDefinition (tb_oid table) (tb_name table) (tb_typ table) (tb_fileNode table)
            pagesCount)) (\<lambda>updated.
     seq (on_cat (indexTable updated)) (\<lambda>_.
     seq (lift_result (table_ToBytes updated)) (\<lambda>data.
     cat_append tablesFile data)))"

definition CreateIndex :: "string \<Rightarrow> string \<Rightarrow> string \<Rightarrow> IndexType \<Rightarrow> (Db, IndexDefinition) prog" where
  "CreateIndex indexName tableName columnName indexTyp db = (let c = db_cat db in
     if map_of (cm_indexesByName c) indexName \<noteq> None then (Err (ErrIndexExists indexName), db)
     else case map_of (cm_tablesByName c) tableName of
       None \<Rightarrow> (Err (ErrTableNotFound tableName), db)
     | Some table \<Rightarrow>
       (case find (\<lambda>col. co_name col = columnName) (slice_at (cm_columnsByTableOid c) (tb_oid table)) of
         None \<Rightarrow> (Err (ErrColumnNotFound tableName columnName), db)
       | Some column \<Rightarrow>
           let oid = cm_nextIndexOid c in
           seq (on_cat (\<lambda>c. c\<lparr>cm_nextIndexOid := oid + 1\<rparr>)) (\<lambda>_.
           seq (lift_result (NewIndexDefinition oid indexName (tb_oid table) (co_oid column)
                  (co_typeOid column) indexTyp (show_int (sint oid) @ ''.idx'') 0 0)) (\<lambda>def.
           seq (on_cat (indexIndex def)) (\<lambda>_.
           seq (lift_result (index_ToBytes def)) (\<lambda>data.
           seq (cat_append indexesFile data) (\<lambda>_. pure def))))) db))"

section \<open>Replaying a file\<close>

lemma traverse_append:
  "traverse f (xs @ ys) = Ok zs \<longleftrightarrow> (\<exists>as bs. traverse f xs = Ok as \<and> traverse f ys = Ok bs \<and> zs = as @ bs)"
proof (induction xs arbitrary: zs)
  case (Cons x xs)
  show ?case
    by (cases "f x") (auto simp: bind_result_Ok Cons.IH)
qed simp

lemma read_page_records_spec:
  assumes "page_inv p" and "\<And>i. i \<in> set is \<Longrightarrow> i < length (page_records p)"
    and "traverse dec (map (\<lambda>i. page_records p ! i) is) = Ok xs"
  shows "read_page_records (consume dec g) p is db = (Ok (), db\<lparr>db_cat := fold g xs (db_cat db)\<rparr>)"
  using assms(2,3)
proof (induction "is" arbitrary: xs db)
  case (Cons i rest)
  obtain x ys where x: "dec (page_records p ! i) = Ok x" "traverse dec (map (\<lambda>i. page_records p ! i) rest) = Ok ys"
      "xs = x # ys"
    using Cons.prems(2) by (auto simp: bind_result_Ok)
  moreover have "page_Read p (int i) = Ok (page_records p ! i)"
    using hpage.read_in [OF assms(1)] Cons.prems(1) by simp
  ultimately show ?case
    using Cons.IH [OF _ x(2), of "db\<lparr>db_cat := g x (db_cat db)\<rparr>"] Cons.prems(1)
    by (simp add: seq_def lift_result_def consume_def on_cat_def)
qed (simp add: pure_def)

text \<open>\<open>loads b b'\<close>: only pages were loaded; no log changed.\<close>

definition loads :: "Pool \<Rightarrow> Pool \<Rightarrow> bool" where
  "loads b b' \<longleftrightarrow> pool_keeps b b' \<and> (\<forall>G pgs. log_file b G pgs \<longrightarrow> log_file b' G pgs)"

lemma loads_refl: "pool_inv b \<Longrightarrow> loads b b"
  by (simp add: loads_def)

lemma loads_trans: "loads b b' \<Longrightarrow> loads b' b'' \<Longrightarrow> loads b b''"
  by (auto simp: loads_def intro: pool_keeps_trans)

lemma loadsD:
  assumes "loads b b'"
  shows "pool_inv b'" and "bp_root b' = bp_root b" and "log_file b G pgs \<Longrightarrow> log_file b' G pgs"
    and "fs_fault (bp_disk b') = fs_fault (bp_disk b)"
  using assms pool_keepsD by (auto simp: loads_def)

lemma on_pool_eq: "on_pool m db = (r, db') \<longleftrightarrow> (\<exists>b. m (db_pool db) = (r, b) \<and> db' = db\<lparr>db_pool := b\<rparr>)"
  by (auto simp: on_pool_def split: prod.splits)

lemma read_pages_spec:
  assumes "pool_inv (db_pool db)" and "log_file (db_pool db) F pages"
    and "\<And>i. i \<in> set is \<Longrightarrow> i < length pages"
    and "traverse dec (concat (map (\<lambda>i. page_records (as_page (pages ! i))) is)) = Ok xs"
    and "read_pages (consume dec g) F is db = (r, db')"
  shows "loads (db_pool db) (db_pool db') \<and> r \<noteq> Panic
    \<and> (r = Ok () \<longrightarrow> db_cat db' = fold g xs (db_cat db))
    \<and> (fluid (db_pool db) \<longrightarrow> r = Ok () \<and> fluid (db_pool db'))"
  using assms
proof (induction "is" arbitrary: xs db)
  case Nil
  then show ?case by (auto simp: pure_def loads_refl)
next
  case (Cons i rest)
  let ?k = "NewPageKey F (int i)"
  have i: "i < length pages" using Cons.prems(3) by simp
  obtain as bs where ab: "traverse dec (page_records (as_page (pages ! i))) = Ok as"
      "traverse dec (concat (map (\<lambda>i. page_records (as_page (pages ! i))) rest)) = Ok bs" "xs = as @ bs"
    using Cons.prems(4) by (auto simp: traverse_append)
  obtain g1 b1 where get: "GetPage ?k (db_pool db) = (g1, b1)" by force
  then have get': "getPageLocked ?k (db_pool db) = (g1, b1)" by (simp add: GetPage_def)
  have ld: "loads (db_pool db) b1" and np: "g1 \<noteq> Panic"
    using getPageLocked_keeps(1,2) [OF Cons.prems(1) get'] getPage_log [OF _ Cons.prems(1) get'] by (auto simp: loads_def)
  have live: "is_ok g1 \<and> fluid b1" if "fluid (db_pool db)"
    using getPage_fluid [OF Cons.prems(1) that Cons.prems(2) i] get by (metis is_ok.simps(1) prod.inject)
  show ?case
  proof (cases g1)
    case (Ok s)
    define p where "p = bs_page (bp_store b1 s)"
    have "p = \<lparr>hp_pageID = int i, hp_buf = pages ! i\<rparr>"
      using getPage_page(2) [OF Cons.prems(1,2) i] get Ok by (simp add: p_def)
    then have pr: "page_records p = page_records (as_page (pages ! i))" and pinv: "page_inv p"
      using page_any_id [of p] log_exceptD(2) [OF Cons.prems(2)] i by auto
    have sz: "page_Size p = Ok (length (page_records p))" by (rule hpage.size_recs [OF pinv])
    have map: "map (\<lambda>i. page_records p ! i) [0..<length (page_records p)] = page_records p"
      by (rule map_nth)
    let ?db1 = "db\<lparr>db_cat := fold g as (db_cat db), db_pool := b1\<rparr>"
    have one: "read_page_records (consume dec g) p [0..<length (page_records p)] (db\<lparr>db_pool := b1\<rparr>) = (Ok (), ?db1)"
      by (subst read_page_records_spec [OF pinv, where xs = as]) (use ab(1) pr map in auto)
    have run: "read_pages (consume dec g) F rest ?db1 = (r, db')"
      using Cons.prems(5) get Ok one sz
      by (simp add: seq_def on_pool_def slot_Page_def lift_result_def p_def [symmetric])
    have "loads b1 (db_pool db') \<and> r \<noteq> Panic \<and> (r = Ok () \<longrightarrow> db_cat db' = fold g bs (fold g as (db_cat db)))
        \<and> (fluid b1 \<longrightarrow> r = Ok () \<and> fluid (db_pool db'))"
      using Cons.IH [of ?db1 bs] run ab(2) loadsD(1,3) [OF ld] Cons.prems(2,3) by simp
    then show ?thesis using loads_trans [OF ld] live ab(3) by auto
  next
    case (Err e)
    then show ?thesis using Cons.prems(5) get live ld by (auto simp: seq_def on_pool_def)
  qed (use np in simp)
qed

text \<open>Reading a file whose records decode to \<open>xs\<close> applies the index function to each in order.\<close>

lemma readAllRecords_spec:
  assumes inv: "pool_inv (db_pool db)" and log: "log_file (db_pool db) F pages" and root: "bp_root (db_pool db) = root"
    and dec: "traverse dec (file_records pages) = Ok xs"
    and run: "readAllRecords root F (consume dec g) db = (r, db')"
  shows "loads (db_pool db) (db_pool db') \<and> r \<noteq> Panic
    \<and> (r = Ok () \<longrightarrow> db_cat db' = fold g xs (db_cat db))
    \<and> (fluid (db_pool db) \<longrightarrow> r = Ok () \<and> fluid (db_pool db'))"
proof (cases "fs_fault (bp_disk (db_pool db)) (path_Join root F) FsStat")
  case True
  then show ?thesis
    using run pageCount_log [OF log root] loads_refl [OF inv]
    by (auto simp: readAllRecords_def seq_def fluid_def healthy_def)
next
  case False
  have "concat (map (\<lambda>i. page_records (as_page (pages ! i))) [0..<length pages]) = file_records pages"
    unfolding file_records_def by (rule arg_cong [where f = concat], rule nth_equalityI) simp_all
  then show ?thesis
    using read_pages_spec [OF inv log, of "[0..<length pages]" dec xs g r db'] dec run False
      pageCount_log [OF log root] by (simp add: readAllRecords_def seq_def)
qed

section \<open>The catalog is the replay of its files\<close>

text \<open>\<open>holds b F enc xs\<close>: file \<open>F\<close> is the log of the definitions \<open>xs\<close>.\<close>

definition holds :: "Pool \<Rightarrow> string \<Rightarrow> ('a \<Rightarrow> bytes result) \<Rightarrow> 'a list \<Rightarrow> bool" where
  "holds b F enc xs \<longleftrightarrow> (\<exists>pages. log_file b F pages \<and> traverse enc xs = Ok (file_records pages))"

lemma holds_loads: "loads b b' \<Longrightarrow> holds b F enc xs \<Longrightarrow> holds b' F enc xs"
  by (meson holds_def loadsD(3))

lemma holds_other: "file_only F b b' \<Longrightarrow> G \<noteq> F \<Longrightarrow> holds b G enc xs \<Longrightarrow> holds b' G enc xs"
  by (meson holds_def file_onlyD(7))

lemma appendRecord_holds:
  assumes "pool_inv b" and "bp_root b = root" and "holds b F enc xs" and "enc x = Ok data"
    and "appendRecord root F data b = (Ok u, b')"
  shows "file_only F b b'" and "holds b' F enc (xs @ [x])"
proof -
  obtain pages where p: "log_file b F pages" "traverse enc xs = Ok (file_records pages)"
    using assms(3) by (auto simp: holds_def)
  note a = appendRecord_log [OF assms(1) p(1) assms(2,5)]
  show "file_only F b b'" by (rule a(1))
  obtain pages' where "log_file b' F pages'" "file_records pages' = file_records pages @ [data]"
    using a(3) by blast
  then show "holds b' F enc (xs @ [x])"
    using p(2) assms(4) by (auto simp: holds_def traverse_append)
qed

definition replay :: "string \<Rightarrow> TypeDefinition list \<Rightarrow> TableDefinition list \<Rightarrow> ColumnDefinition list
    \<Rightarrow> IndexDefinition list \<Rightarrow> Catalog" where
  "replay root tys tbs cos ixs =
     fold indexIndex ixs (fold indexColumn cos (fold indexTable tbs (fold indexType tys (empty_catalog root))))"

lemma index_commute:
  "indexTable t (indexType ty c) = indexType ty (indexTable t c)"
  "indexColumn co (indexType ty c) = indexType ty (indexColumn co c)"
  "indexColumn co (indexTable t c) = indexTable t (indexColumn co c)"
  "indexIndex ix (indexType ty c) = indexType ty (indexIndex ix c)"
  "indexIndex ix (indexTable t c) = indexTable t (indexIndex ix c)"
  "indexIndex ix (indexColumn co c) = indexColumn co (indexIndex ix c)"
  by (simp_all add: indexTable_def indexType_def indexColumn_def indexIndex_def Let_def)

lemma fold_swap: "(\<And>x y. f x (g y) = g (f x y)) \<Longrightarrow> fold f xs (g y) = g (fold f xs y)"
  by (induction xs arbitrary: y) auto

lemma fold_commute:
  "fold indexTable tbs (indexType ty c) = indexType ty (fold indexTable tbs c)"
  "fold indexColumn cos (indexType ty c) = indexType ty (fold indexColumn cos c)"
  "fold indexColumn cos (indexTable tb c) = indexTable tb (fold indexColumn cos c)"
  "fold indexIndex ixs (indexType ty c) = indexType ty (fold indexIndex ixs c)"
  "fold indexIndex ixs (indexTable tb c) = indexTable tb (fold indexIndex ixs c)"
  "fold indexIndex ixs (indexColumn co c) = indexColumn co (fold indexIndex ixs c)"
  by (rule fold_swap, rule index_commute)+

lemma replay_snoc:
  "replay root (tys @ [ty]) tbs cos ixs = indexType ty (replay root tys tbs cos ixs)"
  "replay root tys (tbs @ [tb]) cos ixs = indexTable tb (replay root tys tbs cos ixs)"
  "replay root tys tbs (cos @ [co]) ixs = indexColumn co (replay root tys tbs cos ixs)"
  "replay root tys tbs cos (ixs @ [ix]) = indexIndex ix (replay root tys tbs cos ixs)"
  by (simp_all add: replay_def fold_commute)

lemma recompute_absorb:
  "recomputeNextOids (indexType ty (recomputeNextOids c)) = recomputeNextOids (indexType ty c)"
  "recomputeNextOids (indexTable tb (recomputeNextOids c)) = recomputeNextOids (indexTable tb c)"
  "recomputeNextOids (indexColumn co (recomputeNextOids c)) = recomputeNextOids (indexColumn co c)"
  "recomputeNextOids (indexIndex ix (recomputeNextOids c)) = recomputeNextOids (indexIndex ix c)"
  by (simp_all add: recomputeNextOids_def indexTable_def indexType_def indexColumn_def indexIndex_def Let_def)

lemma recompute_index:
  "recomputeNextOids c = recomputeNextOids d \<Longrightarrow> recomputeNextOids (indexType ty c) = recomputeNextOids (indexType ty d)"
  "recomputeNextOids c = recomputeNextOids d \<Longrightarrow> recomputeNextOids (indexTable tb c) = recomputeNextOids (indexTable tb d)"
  "recomputeNextOids c = recomputeNextOids d \<Longrightarrow> recomputeNextOids (indexColumn co c) = recomputeNextOids (indexColumn co d)"
  "recomputeNextOids c = recomputeNextOids d \<Longrightarrow> recomputeNextOids (indexIndex ix c) = recomputeNextOids (indexIndex ix d)"
  using recompute_absorb by metis+

lemma recompute_counters [simp]:
  "recomputeNextOids (c\<lparr>cm_nextTableOid := n\<rparr>) = recomputeNextOids c"
  "recomputeNextOids (c\<lparr>cm_nextColumnOid := n\<rparr>) = recomputeNextOids c"
  "recomputeNextOids (c\<lparr>cm_nextTypeOid := n\<rparr>) = recomputeNextOids c"
  "recomputeNextOids (c\<lparr>cm_nextIndexOid := n\<rparr>) = recomputeNextOids c"
  "recomputeNextOids (recomputeNextOids c) = recomputeNextOids c"
  by (simp_all add: recomputeNextOids_def)

lemma index_root [simp]:
  "cm_root (indexType ty c) = cm_root c" "cm_root (indexTable tb c) = cm_root c"
  "cm_root (indexColumn co c) = cm_root c" "cm_root (indexIndex ix c) = cm_root c"
  "cm_root (recomputeNextOids c) = cm_root c" "cm_root (empty_catalog root) = root"
  by (simp_all add: indexTable_def indexType_def indexColumn_def indexIndex_def Let_def
      recomputeNextOids_def empty_catalog_def)

lemma fold_root: "(\<And>x c. cm_root (f x c) = cm_root c) \<Longrightarrow> cm_root (fold f xs c) = cm_root c"
  by (induction xs arbitrary: c) auto

lemma replay_root [simp]: "cm_root (replay root tys tbs cos ixs) = root"
  by (simp add: replay_def fold_root)

text \<open>
  \<open>logged db tys tbs cos ixs\<close>: the four files hold these definitions, and the maps of the catalog are
  what a replay of them builds (equality after recomputing the counters, which are a function of
  the maps). \<open>counted\<close>: the counters are the ones a reload would compute.
\<close>

definition logged :: "Db \<Rightarrow> TypeDefinition list \<Rightarrow> TableDefinition list \<Rightarrow> ColumnDefinition list
    \<Rightarrow> IndexDefinition list \<Rightarrow> bool" where
  "logged db tys tbs cos ixs \<longleftrightarrow> pool_inv (db_pool db) \<and> bp_root (db_pool db) = cm_root (db_cat db)
     \<and> holds (db_pool db) typesFile type_ToBytes tys \<and> holds (db_pool db) tablesFile table_ToBytes tbs
     \<and> holds (db_pool db) columnsFile column_ToBytes cos \<and> holds (db_pool db) indexesFile index_ToBytes ixs
     \<and> (\<forall>i \<in> set ixs. ix_ok i)
     \<and> recomputeNextOids (db_cat db) = recomputeNextOids (replay (cm_root (db_cat db)) tys tbs cos ixs)"

definition counted :: "Catalog \<Rightarrow> bool" where
  "counted c \<longleftrightarrow> recomputeNextOids c = c"

definition has_builtins :: "Catalog \<Rightarrow> bool" where
  "has_builtins c \<longleftrightarrow> map_of (cm_typesByName c) builtinInt64 \<noteq> None \<and> map_of (cm_typesByName c) builtinVarchar \<noteq> None"

definition cat_sync :: "Db \<Rightarrow> bool" where
  "cat_sync db \<longleftrightarrow> (\<exists>tys tbs cos ixs. logged db tys tbs cos ixs) \<and> counted (db_cat db) \<and> has_builtins (db_cat db)"

lemma loggedD:
  assumes "logged db tys tbs cos ixs"
  shows "pool_inv (db_pool db)" and "bp_root (db_pool db) = cm_root (db_cat db)"
    and "holds (db_pool db) typesFile type_ToBytes tys" and "holds (db_pool db) tablesFile table_ToBytes tbs"
    and "holds (db_pool db) columnsFile column_ToBytes cos" and "holds (db_pool db) indexesFile index_ToBytes ixs"
  using assms by (auto simp: logged_def)

lemma file_names:
  "typesFile \<noteq> tablesFile" "typesFile \<noteq> columnsFile" "typesFile \<noteq> indexesFile" "tablesFile \<noteq> columnsFile"
  "tablesFile \<noteq> indexesFile" "columnsFile \<noteq> indexesFile"
  by (simp_all add: typesFile_def tablesFile_def columnsFile_def indexesFile_def)

lemmas file_names_all = file_names file_names [symmetric]

lemma holds_others:
  assumes "file_only F b b'"
  shows "F \<noteq> typesFile \<Longrightarrow> holds b typesFile type_ToBytes tys \<Longrightarrow> holds b' typesFile type_ToBytes tys"
    and "F \<noteq> tablesFile \<Longrightarrow> holds b tablesFile table_ToBytes tbs \<Longrightarrow> holds b' tablesFile table_ToBytes tbs"
    and "F \<noteq> columnsFile \<Longrightarrow> holds b columnsFile column_ToBytes cos \<Longrightarrow> holds b' columnsFile column_ToBytes cos"
    and "F \<noteq> indexesFile \<Longrightarrow> holds b indexesFile index_ToBytes ixs \<Longrightarrow> holds b' indexesFile index_ToBytes ixs"
  using holds_other [OF assms] by metis+

text \<open>Changing the counters, or the pool outside the catalog files, keeps the correspondence.\<close>

lemma logged_counters:
  assumes "logged db tys tbs cos ixs" and "recomputeNextOids c = recomputeNextOids (db_cat db)"
  shows "logged (db\<lparr>db_cat := c\<rparr>) tys tbs cos ixs"
proof -
  have "cm_root c = cm_root (db_cat db)" using index_root(5) assms(2) by metis
  then show ?thesis using assms by (simp add: logged_def)
qed

lemma logged_pool:
  assumes "logged db tys tbs cos ixs" and "pool_inv b" and "bp_root b = bp_root (db_pool db)"
    and "\<And>F pgs. F \<in> {typesFile, tablesFile, columnsFile, indexesFile} \<Longrightarrow> log_file (db_pool db) F pgs \<Longrightarrow> log_file b F pgs"
  shows "logged (db\<lparr>db_pool := b\<rparr>) tys tbs cos ixs"
  using assms unfolding logged_def holds_def by simp metis

text \<open>Indexing a definition and appending its record, for the four kinds.\<close>

lemma append_logged:
  assumes l: "logged db tys tbs cos ixs" and run: "cat_append F data (db\<lparr>db_cat := c\<rparr>) = (Ok u, db')"
    and c: "cm_root c = cm_root (db_cat db)"
  shows "db_cat db' = c"
    and "F = typesFile \<Longrightarrow> type_ToBytes ty = Ok data \<Longrightarrow> recomputeNextOids c = recomputeNextOids (indexType ty (db_cat db))
      \<Longrightarrow> logged db' (tys @ [ty]) tbs cos ixs"
    and "F = tablesFile \<Longrightarrow> table_ToBytes tb = Ok data \<Longrightarrow> recomputeNextOids c = recomputeNextOids (indexTable tb (db_cat db))
      \<Longrightarrow> logged db' tys (tbs @ [tb]) cos ixs"
    and "F = columnsFile \<Longrightarrow> column_ToBytes co = Ok data \<Longrightarrow> recomputeNextOids c = recomputeNextOids (indexColumn co (db_cat db))
      \<Longrightarrow> logged db' tys tbs (cos @ [co]) ixs"
    and "F = indexesFile \<Longrightarrow> index_ToBytes ix = Ok data \<Longrightarrow> ix_ok ix
      \<Longrightarrow> recomputeNextOids c = recomputeNextOids (indexIndex ix (db_cat db)) \<Longrightarrow> logged db' tys tbs cos (ixs @ [ix])"
proof -
  obtain b' where a: "appendRecord (cm_root (db_cat db)) F data (db_pool db) = (Ok u, b')"
    and db': "db' = db\<lparr>db_cat := c, db_pool := b'\<rparr>"
    using run c by (auto simp: cat_append_def on_pool_eq)
  show "db_cat db' = c" by (simp add: db')
  note ap = appendRecord_holds [OF loggedD(1,2) [OF l] _ _ a]
  have r: "recomputeNextOids (db_cat db) = recomputeNextOids (replay (cm_root (db_cat db)) tys tbs cos ixs)"
    and ok: "\<forall>i \<in> set ixs. ix_ok i" using l by (auto simp: logged_def)
  note facts = db' c r ok replay_snoc recompute_index file_onlyD(1,2)
  {
    assume F: "F = typesFile" and e: "type_ToBytes ty = Ok data" and rc: "recomputeNextOids c = recomputeNextOids (indexType ty (db_cat db))"
    note o = ap [OF loggedD(3) [OF l, folded F] e]
    show "logged db' (tys @ [ty]) tbs cos ixs"
      using o(2) holds_others [OF o(1)] file_onlyD(1,2) [OF o(1)] loggedD [OF l] rc recompute_index(1) [OF r, of ty] ok c
      unfolding logged_def by (simp add: db' F replay_snoc file_names_all)
  next
    assume F: "F = tablesFile" and e: "table_ToBytes tb = Ok data" and rc: "recomputeNextOids c = recomputeNextOids (indexTable tb (db_cat db))"
    note o = ap [OF loggedD(4) [OF l, folded F] e]
    show "logged db' tys (tbs @ [tb]) cos ixs"
      using o(2) holds_others [OF o(1)] file_onlyD(1,2) [OF o(1)] loggedD [OF l] rc recompute_index(2) [OF r, of tb] ok c
      unfolding logged_def by (simp add: db' F replay_snoc file_names_all)
  next
    assume F: "F = columnsFile" and e: "column_ToBytes co = Ok data" and rc: "recomputeNextOids c = recomputeNextOids (indexColumn co (db_cat db))"
    note o = ap [OF loggedD(5) [OF l, folded F] e]
    show "logged db' tys tbs (cos @ [co]) ixs"
      using o(2) holds_others [OF o(1)] file_onlyD(1,2) [OF o(1)] loggedD [OF l] rc recompute_index(3) [OF r, of co] ok c
      unfolding logged_def by (simp add: db' F replay_snoc file_names_all)
  next
    assume F: "F = indexesFile" and e: "index_ToBytes ix = Ok data" and ix: "ix_ok ix"
      and rc: "recomputeNextOids c = recomputeNextOids (indexIndex ix (db_cat db))"
    note o = ap [OF loggedD(6) [OF l, folded F] e]
    show "logged db' tys tbs cos (ixs @ [ix])"
      using o(2) holds_others [OF o(1)] file_onlyD(1,2) [OF o(1)] loggedD [OF l] rc recompute_index(4) [OF r, of ix] ok ix c
      unfolding logged_def by (simp add: db' F replay_snoc file_names_all)
  }
qed

section \<open>Object identifiers\<close>

definition maxOid :: "int32 list \<Rightarrow> int32" where
  "maxOid ks = fold (\<lambda>oid m. if sint oid > sint m then oid else m) ks 0"

lemma nextIdAfterMax_maxOid: "nextIdAfterMax m = maxOid (map fst m) + 1"
  by (simp add: nextIdAfterMax_def maxOid_def)

lemma maxOid_ge:
  assumes "k \<in> set ks \<or> sint k \<le> 0"
  shows "sint k \<le> sint (maxOid ks)"
proof -
  have acc: "sint m \<le> sint (fold (\<lambda>oid m. if sint oid > sint m then oid else m) ks m)" for m
    by (induction ks arbitrary: m) (auto intro: order_trans less_imp_le)
  have "sint k \<le> sint (fold (\<lambda>oid m. if sint oid > sint m then oid else m) ks m)" if "k \<in> set ks" for m
    using that
  proof (induction ks arbitrary: m)
    case (Cons a ks)
    have mono: "sint m' \<le> sint (fold (\<lambda>oid m. if sint oid > sint m then oid else m) ks m')" for m'
      by (induction ks arbitrary: m') (auto intro: order_trans less_imp_le)
    show ?case
      using Cons mono [of "if sint a > sint m then a else m"] by (auto split: if_splits)
  qed simp
  then show ?thesis using assms acc [of 0] by (auto simp: maxOid_def)
qed

lemma sint_plus1: "sint (w + 1 :: int32) = (sint w + 1 + 2 ^ 31) mod 2 ^ 32 - 2 ^ 31"
proof -
  have "sint (w + 1) = sint (word_of_int (sint w + 1) :: int32)" by simp
  also have "\<dots> = (sint w + 1 + 2 ^ 31) mod 2 ^ 32 - 2 ^ 31" by (subst int_word_sint) simp
  finally show ?thesis .
qed

lemma sint_next:
  assumes "0 < sint (w + 1)" and "0 \<le> sint w"
  shows "sint (w + 1 :: int32) = sint w + 1"
proof -
  have "sint w < 2 ^ 31" using sint_lt [of w] by simp
  then show ?thesis using assms by (cases "sint w = 2 ^ 31 - 1") (simp_all add: sint_plus1)
qed

lemma nextId_update_new:
  assumes "oid = nextIdAfterMax m" and "0 < sint oid"
  shows "nextIdAfterMax (AList.update oid x m) = oid + 1" and "map_of m oid = None"
proof -
  let ?max = "maxOid (map fst m)"
  have s: "sint oid = sint ?max + 1"
    using assms sint_next [of ?max] maxOid_ge [of 0 "map fst m"] by (simp add: nextIdAfterMax_maxOid)
  then have new: "oid \<notin> set (map fst m)"
    using maxOid_ge [of oid "map fst m"] by auto
  then show "map_of m oid = None" by (simp add: map_of_eq_None_iff)
  from new have "map fst (AList.update oid x m) = map fst m @ [oid]"
    by (simp add: AList.update_keys)
  then have "maxOid (map fst (AList.update oid x m)) = oid"
    using s by (simp add: maxOid_def)
  then show "nextIdAfterMax (AList.update oid x m) = oid + 1"
    by (simp add: nextIdAfterMax_maxOid)
qed

lemma nextId_update_old:
  "map_of m oid \<noteq> None \<Longrightarrow> nextIdAfterMax (AList.update oid x m) = nextIdAfterMax m"
  by (simp add: nextIdAfterMax_maxOid AList.update_keys map_of_eq_None_iff)

text \<open>There are identifiers left for \<open>n\<close> more objects.\<close>

definition oids_left :: "int32 \<Rightarrow> nat \<Rightarrow> bool" where
  "oids_left next n \<longleftrightarrow> 0 < sint next \<and> sint next + int n < 2 ^ 31"

lemma oids_left_Suc: "oids_left k (Suc n) \<Longrightarrow> oids_left (k + 1) n"
  by (simp add: oids_left_def sint_plus1)

lemma countedD:
  assumes "counted c"
  shows "cm_nextTableOid c = nextIdAfterMax (cm_tablesByOid c)" and "cm_nextColumnOid c = nextIdAfterMax (cm_columnsByOid c)"
    and "cm_nextTypeOid c = nextIdAfterMax (cm_typesByOid c)" and "cm_nextIndexOid c = nextIdAfterMax (cm_indexesByOid c)"
proof -
  have c: "recomputeNextOids c = c" using assms by (simp add: counted_def)
  show "cm_nextTableOid c = nextIdAfterMax (cm_tablesByOid c)"
    by (subst c [symmetric]) (simp add: recomputeNextOids_def)
  show "cm_nextColumnOid c = nextIdAfterMax (cm_columnsByOid c)"
    by (subst c [symmetric]) (simp add: recomputeNextOids_def)
  show "cm_nextTypeOid c = nextIdAfterMax (cm_typesByOid c)"
    by (subst c [symmetric]) (simp add: recomputeNextOids_def)
  show "cm_nextIndexOid c = nextIdAfterMax (cm_indexesByOid c)"
    by (subst c [symmetric]) (simp add: recomputeNextOids_def)
qed

lemma countedI:
  assumes "cm_nextTableOid c = nextIdAfterMax (cm_tablesByOid c)" and "cm_nextColumnOid c = nextIdAfterMax (cm_columnsByOid c)"
    and "cm_nextTypeOid c = nextIdAfterMax (cm_typesByOid c)" and "cm_nextIndexOid c = nextIdAfterMax (cm_indexesByOid c)"
  shows "counted c"
  using assms by (simp add: counted_def recomputeNextOids_def)

lemma counted_new:
  assumes "counted c"
  shows "0 < sint (cm_nextTableOid c) \<Longrightarrow> tb_oid tb = cm_nextTableOid c
      \<Longrightarrow> counted (indexTable tb (c\<lparr>cm_nextTableOid := cm_nextTableOid c + 1\<rparr>))"
    and "0 < sint (cm_nextColumnOid c) \<Longrightarrow> co_oid co = cm_nextColumnOid c
      \<Longrightarrow> counted (indexColumn co (c\<lparr>cm_nextColumnOid := cm_nextColumnOid c + 1\<rparr>))"
    and "0 < sint (cm_nextIndexOid c) \<Longrightarrow> ix_oid ix = cm_nextIndexOid c
      \<Longrightarrow> counted (indexIndex ix (c\<lparr>cm_nextIndexOid := cm_nextIndexOid c + 1\<rparr>))"
    and "map_of (cm_tablesByOid c) (tb_oid tb) \<noteq> None \<Longrightarrow> counted (indexTable tb c)"
  using countedD [OF assms]
  by (auto intro!: countedI simp: indexTable_def indexColumn_def indexIndex_def Let_def nextId_update_new nextId_update_old)

section \<open>Operations keep the correspondence\<close>

lemma seq_Ok_iff: "seq m f s = (Ok y, s'') \<longleftrightarrow> (\<exists>x s'. m s = (Ok x, s') \<and> f x s' = (Ok y, s''))"
  by (auto simp: seq_def split: prod.splits result.splits)

lemma lift_result_iff: "lift_result r s = (x, s') \<longleftrightarrow> r = x \<and> s' = s"
  by (auto simp: lift_result_def)

lemma on_cat_iff: "on_cat f db = (r, db') \<longleftrightarrow> r = Ok () \<and> db' = db\<lparr>db_cat := f (db_cat db)\<rparr>"
  by (auto simp: on_cat_def)

lemmas run_iff = seq_Ok_iff lift_result_iff on_cat_iff pure_def

lemma has_builtins_index [simp]:
  "has_builtins (indexTable tb c) = has_builtins c" "has_builtins (indexColumn co c) = has_builtins c"
  "has_builtins (indexIndex ix c) = has_builtins c" "has_builtins (recomputeNextOids c) = has_builtins c"
  "has_builtins (c\<lparr>cm_nextTableOid := n\<rparr>) = has_builtins c" "has_builtins (c\<lparr>cm_nextColumnOid := n\<rparr>) = has_builtins c"
  "has_builtins (c\<lparr>cm_nextIndexOid := n\<rparr>) = has_builtins c"
  by (simp_all add: has_builtins_def indexTable_def indexColumn_def indexIndex_def Let_def recomputeNextOids_def)

lemma sync_append:
  assumes s: "cat_sync db" and run: "cat_append F data (db\<lparr>db_cat := c\<rparr>) = (Ok u, db')" and n: "counted c"
  shows "F = tablesFile \<Longrightarrow> table_ToBytes tb = Ok data
      \<Longrightarrow> c = indexTable tb (db_cat db) \<or> c = indexTable tb ((db_cat db)\<lparr>cm_nextTableOid := k\<rparr>) \<Longrightarrow> cat_sync db' \<and> db_cat db' = c"
    and "F = columnsFile \<Longrightarrow> column_ToBytes co = Ok data
      \<Longrightarrow> c = indexColumn co ((db_cat db)\<lparr>cm_nextColumnOid := k\<rparr>) \<Longrightarrow> cat_sync db' \<and> db_cat db' = c"
    and "F = indexesFile \<Longrightarrow> index_ToBytes ix = Ok data \<Longrightarrow> ix_ok ix
      \<Longrightarrow> c = indexIndex ix ((db_cat db)\<lparr>cm_nextIndexOid := k\<rparr>) \<Longrightarrow> cat_sync db' \<and> db_cat db' = c"
proof -
  obtain tys tbs cos ixs where l: "logged db tys tbs cos ixs" and b: "has_builtins (db_cat db)"
    using s by (auto simp: cat_sync_def)
  note a = append_logged [OF l run]
  show "cat_sync db' \<and> db_cat db' = c" if "F = tablesFile" "table_ToBytes tb = Ok data"
    "c = indexTable tb (db_cat db) \<or> c = indexTable tb ((db_cat db)\<lparr>cm_nextTableOid := k\<rparr>)"
  proof -
    have "recomputeNextOids c = recomputeNextOids (indexTable tb (db_cat db))" "cm_root c = cm_root (db_cat db)"
      using that(3) recompute_index(2) [OF recompute_counters(1)] by auto
    from a(1) [OF this(2)] a(3) [OF this(2) that(1,2) this(1)] show ?thesis
      using that n b by (auto simp: cat_sync_def)
  qed
  show "cat_sync db' \<and> db_cat db' = c" if "F = columnsFile" "column_ToBytes co = Ok data"
    "c = indexColumn co ((db_cat db)\<lparr>cm_nextColumnOid := k\<rparr>)"
  proof -
    have "recomputeNextOids c = recomputeNextOids (indexColumn co (db_cat db))" "cm_root c = cm_root (db_cat db)"
      using that(3) recompute_index(3) [OF recompute_counters(2)] by auto
    from a(1) [OF this(2)] a(4) [OF this(2) that(1,2) this(1)] show ?thesis
      using that n b by (auto simp: cat_sync_def)
  qed
  show "cat_sync db' \<and> db_cat db' = c" if "F = indexesFile" "index_ToBytes ix = Ok data" "ix_ok ix"
    "c = indexIndex ix ((db_cat db)\<lparr>cm_nextIndexOid := k\<rparr>)"
  proof -
    have "recomputeNextOids c = recomputeNextOids (indexIndex ix (db_cat db))" "cm_root c = cm_root (db_cat db)"
      using that(4) recompute_index(4) [OF recompute_counters(4)] by auto
    from a(1) [OF this(2)] a(5) [OF this(2) that(1,2,3) this(1)] show ?thesis
      using that n b by (auto simp: cat_sync_def)
  qed
qed

lemma cat_syncD: "cat_sync db \<Longrightarrow> counted (db_cat db)" "cat_sync db \<Longrightarrow> has_builtins (db_cat db)"
  by (simp_all add: cat_sync_def)

lemma create_columns_sync:
  assumes "cat_sync db" and "oids_left (cm_nextColumnOid (db_cat db)) (length columns)"
    and "create_columns table position columns db = (Ok u, db')"
  shows "cat_sync db'"
  using assms
proof (induction columns arbitrary: position db)
  case (Cons proto columns)
  let ?c = "db_cat db" let ?oid = "cm_nextColumnOid ?c"
  obtain col data db1 where col: "NewColumnDefinition ?oid (tb_oid table) (co_typeOid proto) (co_name proto)
        (word_of_nat position) = Ok col"
    and data: "column_ToBytes col = Ok data"
    and app: "cat_append columnsFile data (db\<lparr>db_cat := indexColumn col (?c\<lparr>cm_nextColumnOid := ?oid + 1\<rparr>)\<rparr>) = (Ok (), db1)"
    and rest: "create_columns table (position + 1) columns db1 = (Ok u, db')"
    using Cons.prems(3) by (auto simp: run_iff Let_def)
  have oid: "co_oid col = ?oid" using col by (auto simp: NewColumnDefinition_def split: if_splits)
  have "counted (indexColumn col (?c\<lparr>cm_nextColumnOid := ?oid + 1\<rparr>))"
    using Cons.prems(2) oid by (intro counted_new(2) [OF cat_syncD(1) [OF Cons.prems(1)]]) (auto simp: oids_left_def)
  from sync_append(2) [OF Cons.prems(1) app this refl data refl]
  have "cat_sync db1" "cm_nextColumnOid (db_cat db1) = ?oid + 1" by (auto simp: indexColumn_def Let_def)
  then show ?case
    using Cons.IH [OF _ _ rest] oids_left_Suc Cons.prems(2) by simp
qed (simp add: pure_def)

lemma CreateTable_sync:
  assumes s: "cat_sync db" and "0 < sint (cm_nextTableOid (db_cat db))"
    and "oids_left (cm_nextColumnOid (db_cat db)) (length columns)"
    and run: "CreateTable name columns db = (Ok table, db')"
  shows "cat_sync db'"
proof -
  let ?c = "db_cat db" let ?oid = "cm_nextTableOid ?c"
  obtain data db1 where tb: "NewTableDefinition ?oid name ''TABLE'' (show_int (sint ?oid) @ ''.dat'') 0 = Ok table"
    and data: "table_ToBytes table = Ok data"
    and app: "cat_append tablesFile data (db\<lparr>db_cat := indexTable table (?c\<lparr>cm_nextTableOid := ?oid + 1\<rparr>)\<rparr>) = (Ok (), db1)"
    and cols: "create_columns table 0 columns db1 = (Ok (), db')"
    using run by (auto simp: CreateTable_def run_iff Let_def split: if_splits)
  have oid: "tb_oid table = ?oid" using tb by (auto simp: NewTableDefinition_def split: if_splits)
  have "counted (indexTable table (?c\<lparr>cm_nextTableOid := ?oid + 1\<rparr>))"
    using assms(2) oid by (intro counted_new(1) [OF cat_syncD(1) [OF s]]) auto
  from sync_append(1) [OF s app this refl data disjI2 [OF refl]] show ?thesis
    using create_columns_sync [OF _ _ cols] assms(3) by (auto simp: indexTable_def)
qed

lemma UpdatePagesCount_sync:
  assumes s: "cat_sync db" and "map_of (cm_tablesByOid (db_cat db)) (tb_oid table) \<noteq> None"
    and run: "UpdatePagesCount table n db = (Ok u, db')"
  shows "cat_sync db'"
proof -
  obtain t data where t: "NewTableDefinition (tb_oid table) (tb_name table) (tb_typ table) (tb_fileNode table) n = Ok t"
    and data: "table_ToBytes t = Ok data"
    and app: "cat_append tablesFile data (db\<lparr>db_cat := indexTable t (db_cat db)\<rparr>) = (Ok u, db')"
    using run by (auto simp: UpdatePagesCount_def run_iff)
  have "tb_oid t = tb_oid table" using t by (auto simp: NewTableDefinition_def split: if_splits)
  then have "counted (indexTable t (db_cat db))"
    using assms(2) by (intro counted_new(4) [OF cat_syncD(1) [OF s]]) auto
  from sync_append(1) [OF s app this refl data disjI1 [OF refl]] show ?thesis by simp
qed

lemma CreateIndex_sync:
  assumes s: "cat_sync db" and "0 < sint (cm_nextIndexOid (db_cat db))"
    and ty: "indexTyp = IndexTypeHash \<or> indexTyp = IndexTypeBTree"
    and run: "CreateIndex name tableName columnName indexTyp db = (Ok def, db')"
  shows "cat_sync db'"
proof -
  let ?c = "db_cat db" let ?oid = "cm_nextIndexOid ?c"
  obtain tab :: TableDefinition and col :: ColumnDefinition and data where ix: "NewIndexDefinition ?oid name (tb_oid tab) (co_oid col) (co_typeOid col) indexTyp
        (show_int (sint ?oid) @ ''.idx'') 0 0 = Ok def"
    and data: "index_ToBytes def = Ok data"
    and app: "cat_append indexesFile data (db\<lparr>db_cat := indexIndex def (?c\<lparr>cm_nextIndexOid := ?oid + 1\<rparr>)\<rparr>) = (Ok (), db')"
    using run by (auto simp: CreateIndex_def run_iff Let_def split: if_splits option.splits)
  have "ix_oid def = ?oid" "ix_indexType def = indexTyp"
    using ix by (auto simp: NewIndexDefinition_def split: if_splits)
  moreover from this have "ix_ok def" using ty by (auto simp: ix_ok_def IndexTypeHash_def IndexTypeBTree_def)
  moreover have "counted (indexIndex def (?c\<lparr>cm_nextIndexOid := ?oid + 1\<rparr>))"
    using assms(2) calculation(1) by (intro counted_new(3) [OF cat_syncD(1) [OF s]]) auto
  ultimately show ?thesis using sync_append(3) [OF s app _ refl data] by auto
qed

section \<open>Loading\<close>

lemma load_step:
  assumes inv: "pool_inv (db_pool db)" and root: "bp_root (db_pool db) = root"
    and h: "holds (db_pool db) F enc xs" and dec: "\<forall>bss. traverse enc xs = Ok bss \<longrightarrow> traverse dec bss = Ok xs"
    and run: "seq (readAllRecords root F (consume dec g)) k db = (r, db')"
  obtains (failed) e where "r = Err e" and "loads (db_pool db) (db_pool db')" and "\<not> fluid (db_pool db)"
  | (step) db1 where "k () db1 = (r, db')" and "loads (db_pool db) (db_pool db1)"
      and "db_cat db1 = fold g xs (db_cat db)" and "fluid (db_pool db) \<Longrightarrow> fluid (db_pool db1)"
proof -
  obtain pages where p: "log_file (db_pool db) F pages" "traverse enc xs = Ok (file_records pages)"
    using h by (auto simp: holds_def)
  obtain r1 db1 where rd: "readAllRecords root F (consume dec g) db = (r1, db1)" by force
  note s = readAllRecords_spec [OF inv p(1) root dec [rule_format, OF p(2)] rd]
  show thesis
  proof (cases r1)
    case (Ok u)
    then show ?thesis using step [of db1] s rd run by (simp add: seq_def)
  next
    case (Err e)
    then show ?thesis using failed [of e] s rd run by (auto simp: seq_def)
  qed (use s in simp)
qed

lemma decode_logs:
  "\<forall>bss. traverse type_ToBytes tys = Ok bss \<longrightarrow> traverse TypeDefinitionFromBytes bss = Ok tys"
  "\<forall>bss. traverse table_ToBytes tbs = Ok bss \<longrightarrow> traverse TableDefinitionFromBytes bss = Ok tbs"
  "\<forall>bss. traverse column_ToBytes cos = Ok bss \<longrightarrow> traverse ColumnDefinitionFromBytes bss = Ok cos"
  "\<forall>i \<in> set ixs. ix_ok i \<Longrightarrow> \<forall>bss. traverse index_ToBytes ixs = Ok bss \<longrightarrow> traverse IndexDefinitionFromBytes bss = Ok ixs"
  using type_codec.dec_all table_codec.dec_all column_codec.dec_all index_codec.dec_all by blast+

lemma loads_holds:
  assumes "loads b b'"
  shows "holds b F type_ToBytes tys \<Longrightarrow> holds b' F type_ToBytes tys"
    and "holds b F table_ToBytes tbs \<Longrightarrow> holds b' F table_ToBytes tbs"
    and "holds b F column_ToBytes cos \<Longrightarrow> holds b' F column_ToBytes cos"
    and "holds b F index_ToBytes ixs \<Longrightarrow> holds b' F index_ToBytes ixs"
  using holds_loads [OF assms] by metis+

lemma loadFromDisk_spec:
  assumes inv: "pool_inv (db_pool db)" and c: "db_cat db = empty_catalog root" and root: "bp_root (db_pool db) = root"
    and h: "holds (db_pool db) typesFile type_ToBytes tys" "holds (db_pool db) tablesFile table_ToBytes tbs"
      "holds (db_pool db) columnsFile column_ToBytes cos" "holds (db_pool db) indexesFile index_ToBytes ixs"
    and ok: "\<forall>i \<in> set ixs. ix_ok i" and run: "loadFromDisk db = (r, db')"
  shows "r = Ok () \<Longrightarrow> logged db' tys tbs cos ixs \<and> db_cat db' = recomputeNextOids (replay root tys tbs cos ixs)"
    and "fluid (db_pool db) \<Longrightarrow> r = Ok () \<and> fluid (db_pool db')"
proof -
  have "(r = Ok () \<longrightarrow> logged db' tys tbs cos ixs \<and> db_cat db' = recomputeNextOids (replay root tys tbs cos ixs))
    \<and> (fluid (db_pool db) \<longrightarrow> r = Ok () \<and> fluid (db_pool db'))" (is ?P)
    using run [unfolded loadFromDisk_def Let_def c index_root(6)]
  proof (cases rule: load_step [OF inv root h(1) decode_logs(1), consumes 1, case_names failed step])
    case (step db1)
    note l1 = step(2) and inv1 = loadsD(1,2) [OF step(2)] and c1 = step(3) and f1 = step(4)
    note h1 = loads_holds [OF l1]
    from step(1) show ?P
    proof (cases rule: load_step [OF inv1(1) inv1(2) [unfolded root] h1(2) [OF h(2)] decode_logs(2), consumes 1, case_names failed step])
      case (step db2)
      note l2 = loads_trans [OF l1 step(2)] and c2 = step(3) and f2 = step(4)
      note inv2 = loadsD(1,2) [OF l2] and h2 = loads_holds [OF l2]
      from step(1) show ?P
      proof (cases rule: load_step [OF inv2(1) inv2(2) [unfolded root] h2(3) [OF h(3)] decode_logs(3), consumes 1, case_names failed step])
        case (step db3)
        note l3 = loads_trans [OF l2 step(2)] and c3 = step(3) and f3 = step(4)
        note inv3 = loadsD(1,2) [OF l3] and h3 = loads_holds [OF l3]
        from step(1) show ?P
        proof (cases rule: load_step [OF inv3(1) inv3(2) [unfolded root] h3(4) [OF h(4)] decode_logs(4) [OF ok], consumes 1, case_names failed step])
          case (step db4)
          note l4 = loads_trans [OF l3 step(2)]
          note inv4 = loadsD(1,2) [OF l4] and h4 = loads_holds [OF l4]
          have "r = Ok ()" and db': "db' = db4\<lparr>db_cat := recomputeNextOids (db_cat db4)\<rparr>"
            using step(1) by (auto simp: on_cat_def)
          moreover have c4: "db_cat db4 = replay root tys tbs cos ixs"
            using step(3) c1 c2 c3 c by (simp add: replay_def)
          moreover have "fluid (db_pool db')" if "fluid (db_pool db)"
            using that f1 f2 f3 step(4) by (simp add: db')
          ultimately show ?P
            using inv4 root h4 h ok by (simp add: logged_def replay_root)
        qed (use f1 f2 f3 in auto)
      qed (use f1 f2 in auto)
    qed (use f1 in auto)
  qed auto
  then show "r = Ok () \<Longrightarrow> logged db' tys tbs cos ixs \<and> db_cat db' = recomputeNextOids (replay root tys tbs cos ixs)"
    "fluid (db_pool db) \<Longrightarrow> r = Ok () \<and> fluid (db_pool db')" by blast+
qed

lemma ensure_type_logged:
  assumes l: "logged db tys tbs cos ixs" and run: "ensure_type name n db = (Ok changed, db')"
  shows "\<exists>tys'. logged db' tys' tbs cos ixs" and "map_of (cm_typesByName (db_cat db')) name \<noteq> None"
    and "map_of (cm_typesByName (db_cat db)) x \<noteq> None \<Longrightarrow> map_of (cm_typesByName (db_cat db')) x \<noteq> None"
    and "\<not> changed \<Longrightarrow> db' = db"
proof -
  let ?ty = "\<lparr>ty_oid = cm_nextTypeOid (db_cat db), ty_name = name, ty_byteLength = n\<rparr>"
  have "(\<exists>tys'. logged db' tys' tbs cos ixs) \<and> map_of (cm_typesByName (db_cat db')) name \<noteq> None
    \<and> (map_of (cm_typesByName (db_cat db)) x \<noteq> None \<longrightarrow> map_of (cm_typesByName (db_cat db')) x \<noteq> None)
    \<and> (\<not> changed \<longrightarrow> db' = db)" (is ?P)
  proof (cases "map_of (cm_typesByName (db_cat db)) name")
    case (Some t)
    then show ?P using run l by (auto simp: ensure_type_def)
  next
    case None
    let ?c = "indexType ?ty ((db_cat db)\<lparr>cm_nextTypeOid := cm_nextTypeOid (db_cat db) + 1\<rparr>)"
    obtain data where d: "type_ToBytes ?ty = Ok data" and ch: "changed"
      and app: "cat_append typesFile data (db\<lparr>db_cat := ?c\<rparr>) = (Ok (), db')"
      using run None by (auto simp: ensure_type_def run_iff Let_def)
    note a = append_logged [OF l app]
    have "logged db' (tys @ [?ty]) tbs cos ixs"
      using recompute_index(1) [OF recompute_counters(3)] by (intro a(2) d) auto
    moreover have "db_cat db' = ?c" by (rule a(1)) simp
    ultimately show ?P using ch by (auto simp: indexType_def AList.update_conv')
  qed
  then show "\<exists>tys'. logged db' tys' tbs cos ixs" "map_of (cm_typesByName (db_cat db')) name \<noteq> None"
    "map_of (cm_typesByName (db_cat db)) x \<noteq> None \<Longrightarrow> map_of (cm_typesByName (db_cat db')) x \<noteq> None"
    "\<not> changed \<Longrightarrow> db' = db" by blast+
qed

lemma ensureBuiltin_sync:
  assumes l: "logged db tys tbs cos ixs" and n: "counted (db_cat db)"
    and run: "ensureBuiltinTypesPresent db = (Ok u, db')"
  shows "cat_sync db'"
proof -
  obtain c1 db1 c2 db2 where e1: "ensure_type builtinInt64 8 db = (Ok c1, db1)"
    and e2: "ensure_type builtinVarchar (-1) db1 = (Ok c2, db2)"
    and fin: "(if c1 \<or> c2 then on_cat recomputeNextOids else pure ()) db2 = (Ok u, db')"
    using run by (auto simp: ensureBuiltinTypesPresent_def seq_Ok_iff)
  obtain tys1 where l1: "logged db1 tys1 tbs cos ixs" using ensure_type_logged(1) [OF l e1] by blast
  obtain tys2 where l2: "logged db2 tys2 tbs cos ixs" using ensure_type_logged(1) [OF l1 e2] by blast
  have b: "has_builtins (db_cat db2)"
    using ensure_type_logged(2) [OF l e1] ensure_type_logged(2,3) [OF l1 e2] by (simp add: has_builtins_def)
  show ?thesis
  proof (cases "c1 \<or> c2")
    case True
    then have "db' = db2\<lparr>db_cat := recomputeNextOids (db_cat db2)\<rparr>" using fin by (simp add: on_cat_def)
    then show ?thesis
      using logged_counters [OF l2, of "recomputeNextOids (db_cat db2)"] b by (auto simp: cat_sync_def counted_def)
  next
    case False
    then have "db' = db" using fin ensure_type_logged(4) [OF l e1] ensure_type_logged(4) [OF l1 e2] by (simp add: pure_def)
    then show ?thesis
      using l n b False ensure_type_logged(4) [OF l e1] ensure_type_logged(4) [OF l1 e2] by (auto simp: cat_sync_def)
  qed
qed

text \<open>Opening the catalog over files that hold definitions: whatever it loads is in step with the
  files, and over a pool that can load every page it brings back the replay.\<close>

lemma NewCatalog_sync:
  assumes inv: "pool_inv b" and root: "bp_root b = root"
    and h: "holds b typesFile type_ToBytes tys" "holds b tablesFile table_ToBytes tbs"
      "holds b columnsFile column_ToBytes cos" "holds b indexesFile index_ToBytes ixs" "\<forall>i \<in> set ixs. ix_ok i"
    and run: "NewDefaultCatalogManager root b = (Ok u, db')"
  shows "cat_sync db'"
proof -
  let ?db = "\<lparr>db_cat = empty_catalog root, db_pool = b\<rparr>"
  obtain db1 where ld: "loadFromDisk ?db = (Ok (), db1)" and e: "ensureBuiltinTypesPresent db1 = (Ok u, db')"
    using run by (auto simp: NewDefaultCatalogManager_def seq_Ok_iff ensureCatalogDirectory_def Let_def split: if_splits)
  have "logged db1 tys tbs cos ixs \<and> db_cat db1 = recomputeNextOids (replay root tys tbs cos ixs)"
    by (rule loadFromDisk_spec(1) [OF _ _ _ _ _ _ _ _ ld]) (use inv root h in simp_all)
  then show ?thesis using ensureBuiltin_sync [OF _ _ e, of tys tbs cos ixs] by (simp add: counted_def)
qed

lemma NewCatalog_reload:
  assumes inv: "pool_inv b" and root: "bp_root b = root" and fl: "fluid b"
    and h: "holds b typesFile type_ToBytes tys" "holds b tablesFile table_ToBytes tbs"
      "holds b columnsFile column_ToBytes cos" "holds b indexesFile index_ToBytes ixs" "\<forall>i \<in> set ixs. ix_ok i"
    and bi: "has_builtins (recomputeNextOids (replay root tys tbs cos ixs))"
  obtains db' where "NewDefaultCatalogManager root b = (Ok (), db')"
    and "db_cat db' = recomputeNextOids (replay root tys tbs cos ixs)"
proof -
  let ?db = "\<lparr>db_cat = empty_catalog root, db_pool = b\<rparr>"
  obtain r db1 where ld: "loadFromDisk ?db = (r, db1)" by force
  note s = loadFromDisk_spec [of ?db root tys tbs cos ixs, OF _ _ _ _ _ _ _ _ ld]
  have r: "r = Ok ()" by (rule s(2) [THEN conjunct1]) (use inv root h fl in simp_all)
  have c: "db_cat db1 = recomputeNextOids (replay root tys tbs cos ixs)"
    by (rule s(1) [THEN conjunct2]) (use inv root h r in simp_all)
  have "ensureBuiltinTypesPresent db1 = (Ok (), db1)"
    using bi by (auto simp: ensureBuiltinTypesPresent_def ensure_type_def seq_def pure_def c has_builtins_def)
  moreover have "ensureCatalogDirectory ?db = (Ok (), ?db)"
    using fl by (simp add: ensureCatalogDirectory_def fluid_def healthy_def)
  ultimately have "NewDefaultCatalogManager root b = (Ok (), db1)"
    using ld r by (simp add: NewDefaultCatalogManager_def seq_def)
  then show thesis using that c by blast
qed

section \<open>Executions\<close>

definition catalog_files :: "string set" where
  "catalog_files = {typesFile, tablesFile, columnsFile, indexesFile}"

definition fresh_replacer :: "Replacer \<Rightarrow> bool" where
  "fresh_replacer r \<longleftrightarrow> r = LRU NewLRUReplacer \<or> r = Clock NewClockReplacer"

text \<open>
  The states of a database, from its first start on an empty directory: successful catalog
  operations, pool operations of the other components (which touch no catalog page), and restarts
  with a new pool over the disk as it is.
\<close>

inductive cat_reach :: "string \<Rightarrow> Db \<Rightarrow> bool" for root where
  start: "NewHeapBufferPoolManager n (Some rp) root d = Ok b \<Longrightarrow> fresh_replacer rp \<Longrightarrow> disk_inv d
    \<Longrightarrow> (\<forall>F \<in> catalog_files. fs_files d (path_Join root F) = None)
    \<Longrightarrow> NewDefaultCatalogManager root b = (Ok u, db) \<Longrightarrow> cat_reach root db"
| restart: "cat_reach root db \<Longrightarrow> NewHeapBufferPoolManager n (Some rp) root (bp_disk (db_pool db)) = Ok b
    \<Longrightarrow> fresh_replacer rp \<Longrightarrow> NewDefaultCatalogManager root b = (Ok u, db') \<Longrightarrow> cat_reach root db'"
| create_table: "cat_reach root db \<Longrightarrow> 0 < sint (cm_nextTableOid (db_cat db))
    \<Longrightarrow> oids_left (cm_nextColumnOid (db_cat db)) (length columns)
    \<Longrightarrow> CreateTable name columns db = (Ok table, db') \<Longrightarrow> cat_reach root db'"
| update_pages: "cat_reach root db \<Longrightarrow> map_of (cm_tablesByName (db_cat db)) (tb_name table) = Some current
    \<Longrightarrow> tb_oid current = tb_oid table
    \<Longrightarrow> UpdatePagesCount table n db = (Ok u, db') \<Longrightarrow> cat_reach root db'"
| create_index: "cat_reach root db \<Longrightarrow> 0 < sint (cm_nextIndexOid (db_cat db))
    \<Longrightarrow> ty = IndexTypeHash \<or> ty = IndexTypeBTree
    \<Longrightarrow> CreateIndex name tableName columnName ty db = (Ok def, db') \<Longrightarrow> cat_reach root db'"
| pool: "cat_reach root db \<Longrightarrow> pool_step (db_pool db) a b \<Longrightarrow> (\<forall>k \<in> op_target a. pk_fileID k \<notin> catalog_files)
    \<Longrightarrow> cat_reach root (db\<lparr>db_pool := b\<rparr>)"

lemma new_pool:
  assumes "NewHeapBufferPoolManager n (Some rp) root d = Ok b" and "fresh_replacer rp" and "disk_inv d"
  shows "pool_inv b" and "bp_root b = root" and "bp_table b = []" and "bp_disk b = d"
    and "healthy d \<Longrightarrow> fluid b"
  using assms pool_inv_new [OF assms(1,3)]
  by (auto simp: fresh_replacer_def NewHeapBufferPoolManager_def fluid_def complete_def is_pinned_def split: if_splits)

lemma new_pool_holds:
  assumes "NewHeapBufferPoolManager n (Some rp) root (bp_disk b0) = Ok b" and "fresh_replacer rp"
    and "bp_root b0 = root" and "pool_inv b0" and "holds b0 F enc xs"
  shows "holds b F enc xs"
proof -
  note n = new_pool [OF assms(1,2) pool_invD(9) [OF assms(4)]]
  have "log_file b F pages" if "log_file b0 F pages" for pages
    using that n assms(3) by (auto simp: log_except_def file_bytes_def)
  then show ?thesis using assms(5) by (meson holds_def)
qed

lemma empty_holds:
  assumes "bp_table b = []" and "fs_files (bp_disk b) (path_Join (bp_root b) F) = None"
  shows "holds b F enc []"
  unfolding holds_def by (rule exI [of _ "[]"]) (use assms in \<open>simp add: log_except_def file_bytes_def\<close>)

lemma cat_append_root: "cat_append F data db = (r, db') \<Longrightarrow> cm_root (db_cat db') = cm_root (db_cat db)"
  by (auto simp: cat_append_def on_pool_eq)

lemma sync_pool:
  assumes s: "cat_sync db" and st: "pool_step (db_pool db) a b" and t: "\<forall>k \<in> op_target a. pk_fileID k \<notin> catalog_files"
  shows "cat_sync (db\<lparr>db_pool := b\<rparr>)"
proof -
  obtain tys tbs cos ixs where l: "logged db tys tbs cos ixs" using s by (auto simp: cat_sync_def)
  note inv = loggedD(1) [OF l]
  have lg: "log_file b F pgs \<and> bp_root b = bp_root (db_pool db)" if "F \<in> catalog_files" "log_file (db_pool db) F pgs" for F pgs
    using pool_step_log [OF st inv that(2)] t that(1) by blast
  moreover obtain pgs where "log_file (db_pool db) typesFile pgs" using loggedD(3) [OF l] by (auto simp: holds_def)
  ultimately have "bp_root b = bp_root (db_pool db)" by (auto simp: catalog_files_def)
  then have "logged (db\<lparr>db_pool := b\<rparr>) tys tbs cos ixs"
    using lg pool_step_safe(1) [OF st inv] by (intro logged_pool [OF l]) (auto simp: catalog_files_def)
  then show ?thesis using s by (auto simp: cat_sync_def)
qed

lemma reload_sync:
  assumes s: "cat_sync db" and root: "cm_root (db_cat db) = root"
    and new: "NewHeapBufferPoolManager n (Some rp) root (bp_disk (db_pool db)) = Ok b" "fresh_replacer rp"
  shows "NewDefaultCatalogManager root b = (Ok u, db') \<Longrightarrow> cat_sync db'"
    and "healthy (bp_disk (db_pool db)) \<Longrightarrow> \<exists>db'. NewDefaultCatalogManager root b = (Ok (), db') \<and> db_cat db' = db_cat db"
proof -
  obtain tys tbs cos ixs where l: "logged db tys tbs cos ixs" using s by (auto simp: cat_sync_def)
  note inv = loggedD(1,2) [OF l]
  note n = new_pool [OF new pool_invD(9) [OF inv(1)]]
  have rb: "bp_root (db_pool db) = root" using inv(2) root by simp
  have h: "holds b typesFile type_ToBytes tys" "holds b tablesFile table_ToBytes tbs"
    "holds b columnsFile column_ToBytes cos" "holds b indexesFile index_ToBytes ixs" "\<forall>i \<in> set ixs. ix_ok i"
    using new_pool_holds [OF new rb inv(1) loggedD(3) [OF l]] new_pool_holds [OF new rb inv(1) loggedD(4) [OF l]]
      new_pool_holds [OF new rb inv(1) loggedD(5) [OF l]] new_pool_holds [OF new rb inv(1) loggedD(6) [OF l]] l
    by (auto simp: logged_def)
  show "cat_sync db'" if "NewDefaultCatalogManager root b = (Ok u, db')"
    using NewCatalog_sync [OF n(1,2) h that] .
  have c: "db_cat db = recomputeNextOids (replay root tys tbs cos ixs)"
    using l cat_syncD(1) [OF s] root by (simp add: logged_def counted_def)
  show "\<exists>db'. NewDefaultCatalogManager root b = (Ok (), db') \<and> db_cat db' = db_cat db" if "healthy (bp_disk (db_pool db))"
    using NewCatalog_reload [OF n(1,2,5) h] that cat_syncD(2) [OF s] by (metis c)
qed

section \<open>Well-formed catalogs\<close>

text \<open>
  The two maps of tables agree, a table's columns carry the table's identifier, stand at their
  positions, and are known by their own identifiers.
\<close>

definition tables_wf :: "Catalog \<Rightarrow> bool" where
  "tables_wf c \<longleftrightarrow> (\<forall>n t. map_of (cm_tablesByName c) n = Some t \<longrightarrow> tb_name t = n \<and> map_of (cm_tablesByOid c) (tb_oid t) = Some t)"

definition columns_wf :: "Catalog \<Rightarrow> bool" where
  "columns_wf c \<longleftrightarrow> (\<forall>k. let cs = slice_at (cm_columnsByTableOid c) k in
     (cs \<noteq> [] \<longrightarrow> map_of (cm_tablesByOid c) k \<noteq> None)
     \<and> (\<forall>i < length cs. co_tableOid (cs ! i) = k \<and> sint (co_position (cs ! i)) = int i)
     \<and> (\<forall>e \<in> set cs. map_of (cm_columnsByOid c) (co_oid e) \<noteq> None)
     \<and> distinct (map co_oid cs))"

lemma columns_wfD:
  assumes "columns_wf c"
  shows "slice_at (cm_columnsByTableOid c) k \<noteq> [] \<Longrightarrow> map_of (cm_tablesByOid c) k \<noteq> None"
    and "i < length (slice_at (cm_columnsByTableOid c) k) \<Longrightarrow> co_tableOid (slice_at (cm_columnsByTableOid c) k ! i) = k"
    and "i < length (slice_at (cm_columnsByTableOid c) k) \<Longrightarrow> sint (co_position (slice_at (cm_columnsByTableOid c) k ! i)) = int i"
    and "e \<in> set (slice_at (cm_columnsByTableOid c) k) \<Longrightarrow> map_of (cm_columnsByOid c) (co_oid e) \<noteq> None"
    and "distinct (map co_oid (slice_at (cm_columnsByTableOid c) k))"
  using assms unfolding columns_wf_def Let_def by blast+

lemma slice_at_update: "slice_at (AList.update k v m) k' = (if k' = k then v else slice_at m k')"
  by (simp add: slice_at_def AList.update_conv')

lemma indexColumn_slice:
  assumes wf: "columns_wf c" and new: "map_of (cm_columnsByOid c) (co_oid col) = None"
    and pos: "sint (co_position col) = int (length (slice_at (cm_columnsByTableOid c) (co_tableOid col)))"
  shows "slice_at (cm_columnsByTableOid (indexColumn col c)) k
    = (if k = co_tableOid col then slice_at (cm_columnsByTableOid c) k @ [col] else slice_at (cm_columnsByTableOid c) k)"
proof -
  let ?cs = "slice_at (cm_columnsByTableOid c) (co_tableOid col)"
  have "filter (\<lambda>e. co_oid e \<noteq> co_oid col) ?cs = ?cs"
    unfolding filter_id_conv using columns_wfD(4) [OF wf] new by metis
  moreover have "sorted (map (\<lambda>e. sint (co_position e)) (?cs @ [col]))"
    using columns_wfD(3) [OF wf] pos by (auto simp: sorted_iff_nth_mono nth_append less_Suc_eq)
  then have "sort_key (\<lambda>e. sint (co_position e)) (?cs @ [col]) = ?cs @ [col]"
    by (rule sort_key_id_if_sorted)
  ultimately show ?thesis
    by (simp add: indexColumn_def Let_def slice_at_update)
qed

lemma indexColumn_sel [simp]:
  "cm_tablesByName (indexColumn col c) = cm_tablesByName c" "cm_tablesByOid (indexColumn col c) = cm_tablesByOid c"
  "cm_columnsByOid (indexColumn col c) = AList.update (co_oid col) col (cm_columnsByOid c)"
  "cm_nextColumnOid (indexColumn col c) = cm_nextColumnOid c"
  by (simp_all add: indexColumn_def Let_def)

lemma columns_wf_add:
  assumes wf: "columns_wf c" and new: "map_of (cm_columnsByOid c) (co_oid col) = None"
    and pos: "sint (co_position col) = int (length (slice_at (cm_columnsByTableOid c) (co_tableOid col)))"
    and tab: "map_of (cm_tablesByOid c) (co_tableOid col) \<noteq> None"
  shows "columns_wf (indexColumn col c)"
  unfolding columns_wf_def Let_def indexColumn_slice [OF wf new pos]
  using columns_wfD [OF wf] pos tab new
  by (auto simp: nth_append less_Suc_eq AList.update_conv' dest: columns_wfD(4) [OF wf])

lemma columns_wf_cong:
  assumes "columns_wf c" and "cm_columnsByTableOid c' = cm_columnsByTableOid c" and "cm_columnsByOid c' = cm_columnsByOid c"
    and "\<And>k. map_of (cm_tablesByOid c) k \<noteq> None \<Longrightarrow> map_of (cm_tablesByOid c') k \<noteq> None"
  shows "columns_wf c'"
  using assms unfolding columns_wf_def Let_def by metis

lemma tables_wf_add:
  assumes wf: "tables_wf c" and t: "map_of (cm_tablesByOid c) (tb_oid t) = None
      \<or> (\<exists>cur. map_of (cm_tablesByName c) (tb_name t) = Some cur \<and> tb_oid cur = tb_oid t)"
  shows "tables_wf (indexTable t c)"
  unfolding tables_wf_def
proof (intro allI impI)
  fix n u
  assume u: "map_of (cm_tablesByName (indexTable t c)) n = Some u"
  show "tb_name u = n \<and> map_of (cm_tablesByOid (indexTable t c)) (tb_oid u) = Some u"
  proof (cases "n = tb_name t")
    case True
    then show ?thesis using u by (simp add: indexTable_def AList.update_conv')
  next
    case False
    then have u': "map_of (cm_tablesByName c) n = Some u" using u by (simp add: indexTable_def AList.update_conv')
    then have w: "tb_name u = n" "map_of (cm_tablesByOid c) (tb_oid u) = Some u" using wf by (auto simp: tables_wf_def)
    have "tb_oid u \<noteq> tb_oid t"
    proof
      assume e: "tb_oid u = tb_oid t"
      then obtain cur where "map_of (cm_tablesByName c) (tb_name t) = Some cur" "tb_oid cur = tb_oid t"
        using t w(2) by auto
      then have "tb_name cur = tb_name t" "map_of (cm_tablesByOid c) (tb_oid t) = Some cur"
        using wf unfolding tables_wf_def by metis+
      then show False using w e False by simp
    qed
    then show ?thesis using w by (simp add: indexTable_def AList.update_conv')
  qed
qed

lemma cat_append_cat: "cat_append F data db = (r, db') \<Longrightarrow> db_cat db' = db_cat db"
  by (auto simp: cat_append_def on_pool_eq)

text \<open>The columns \<open>CreateTable\<close> makes of its prototypes.\<close>

fun new_columns :: "int32 \<Rightarrow> int32 \<Rightarrow> nat \<Rightarrow> ColumnDefinition list \<Rightarrow> ColumnDefinition list" where
  "new_columns oid tableOid position [] = []"
| "new_columns oid tableOid position (proto # protos) =
     \<lparr>co_oid = oid, co_tableOid = tableOid, co_typeOid = co_typeOid proto, co_name = co_name proto,
      co_position = word_of_nat position\<rparr> # new_columns (oid + 1) tableOid (position + 1) protos"

lemma sint_of_nat32: "n < 2 ^ 31 \<Longrightarrow> sint (word_of_nat n :: int32) = int n"
  using sint_word_of_int32 [of "int n"] by simp

lemma create_columns_wf:
  assumes "columns_wf (db_cat db)" and "counted (db_cat db)"
    and "oids_left (cm_nextColumnOid (db_cat db)) (length columns)"
    and "position = length (slice_at (cm_columnsByTableOid (db_cat db)) (tb_oid table))"
    and "position + length columns < 2 ^ 31" and "map_of (cm_tablesByOid (db_cat db)) (tb_oid table) \<noteq> None"
    and "create_columns table position columns db = (Ok u, db')"
  shows "columns_wf (db_cat db') \<and> cm_tablesByName (db_cat db') = cm_tablesByName (db_cat db)
    \<and> cm_tablesByOid (db_cat db') = cm_tablesByOid (db_cat db)
    \<and> (\<forall>k. slice_at (cm_columnsByTableOid (db_cat db')) k = slice_at (cm_columnsByTableOid (db_cat db)) k
        @ (if k = tb_oid table then new_columns (cm_nextColumnOid (db_cat db)) (tb_oid table) position columns else []))"
  using assms
proof (induction columns arbitrary: position db)
  case Nil
  then show ?case by (simp add: pure_def)
next
  case (Cons proto columns)
  let ?c = "db_cat db" let ?oid = "cm_nextColumnOid ?c"
  let ?c1 = "?c\<lparr>cm_nextColumnOid := ?oid + 1\<rparr>"
  obtain col data db1 where col: "NewColumnDefinition ?oid (tb_oid table) (co_typeOid proto) (co_name proto)
        (word_of_nat position) = Ok col"
    and app: "cat_append columnsFile data (db\<lparr>db_cat := indexColumn col ?c1\<rparr>) = (Ok (), db1)"
    and rest: "create_columns table (position + 1) columns db1 = (Ok u, db')"
    using Cons.prems(7) by (auto simp: run_iff Let_def)
  have c1: "db_cat db1 = indexColumn col ?c1" using cat_append_cat [OF app] by simp
  have cf: "col = \<lparr>co_oid = ?oid, co_tableOid = tb_oid table, co_typeOid = co_typeOid proto, co_name = co_name proto,
      co_position = word_of_nat position\<rparr>"
    using col by (auto simp: NewColumnDefinition_def split: if_splits)
  have pos: "sint (co_position col) = int position" using Cons.prems(5) by (simp add: cf sint_of_nat32)
  have oid: "0 < sint ?oid" using Cons.prems(3) by (simp add: oids_left_def)
  have new: "map_of (cm_columnsByOid ?c) (co_oid col) = None"
    using nextId_update_new(2) [OF countedD(2) [OF Cons.prems(2)] oid] by (simp add: cf)
  have wf1: "columns_wf ?c1" by (rule columns_wf_cong [OF Cons.prems(1)]) simp_all
  have tab: "co_tableOid col = tb_oid table" by (simp add: cf)
  note sl = indexColumn_slice [OF wf1, of col] and add = columns_wf_add [OF wf1, of col]
  have len: "sint (co_position col) = int (length (slice_at (cm_columnsByTableOid ?c1) (co_tableOid col)))"
    using pos tab Cons.prems(4) by simp
  have ih: "columns_wf (db_cat db') \<and> cm_tablesByName (db_cat db') = cm_tablesByName (db_cat db1)
    \<and> cm_tablesByOid (db_cat db') = cm_tablesByOid (db_cat db1)
    \<and> (\<forall>k. slice_at (cm_columnsByTableOid (db_cat db')) k = slice_at (cm_columnsByTableOid (db_cat db1)) k
        @ (if k = tb_oid table then new_columns (cm_nextColumnOid (db_cat db1)) (tb_oid table) (position + 1) columns else []))"
  proof (rule Cons.IH [OF _ _ _ _ _ _ rest])
    show "columns_wf (db_cat db1)" unfolding c1 by (rule add) (use new len tab Cons.prems(6) in simp_all)
    show "counted (db_cat db1)"
      unfolding c1 using oid cf by (intro counted_new(2) [OF Cons.prems(2)]) simp_all
    show "oids_left (cm_nextColumnOid (db_cat db1)) (length columns)" using Cons.prems(3) oids_left_Suc by (simp add: c1)
    show "position + 1 = length (slice_at (cm_columnsByTableOid (db_cat db1)) (tb_oid table))"
      unfolding c1 using sl [OF _ len] new tab Cons.prems(4) by simp
  qed (use Cons.prems(5,6) c1 in simp_all)
  show ?case using ih sl [OF _ len] new tab by (simp add: c1 cf)
qed


lemma CreateTable_effect:
  assumes wf: "tables_wf (db_cat db)" "columns_wf (db_cat db)" and n: "counted (db_cat db)"
    and left: "0 < sint (cm_nextTableOid (db_cat db))" "oids_left (cm_nextColumnOid (db_cat db)) (length columns)"
    and run: "CreateTable name columns db = (Ok table, db')"
  shows "tables_wf (db_cat db')" and "columns_wf (db_cat db')"
    and "map_of (cm_tablesByName (db_cat db)) name = None"
    and "map_of (cm_tablesByName (db_cat db')) = (map_of (cm_tablesByName (db_cat db)))(name \<mapsto> table)"
    and "map_of (cm_tablesByOid (db_cat db)) (tb_oid table) = None"
    and "slice_at (cm_columnsByTableOid (db_cat db')) k = (if k = tb_oid table
      then new_columns (cm_nextColumnOid (db_cat db)) (tb_oid table) 0 columns else slice_at (cm_columnsByTableOid (db_cat db)) k)"
    and "cm_root (db_cat db') = cm_root (db_cat db)"
proof -
  let ?c = "db_cat db" let ?oid = "cm_nextTableOid ?c"
  let ?c1 = "indexTable table (?c\<lparr>cm_nextTableOid := ?oid + 1\<rparr>)"
  obtain data db1 where tb: "NewTableDefinition ?oid name ''TABLE'' (show_int (sint ?oid) @ ''.dat'') 0 = Ok table"
    and app: "cat_append tablesFile data (db\<lparr>db_cat := ?c1\<rparr>) = (Ok (), db1)"
    and cols: "create_columns table 0 columns db1 = (Ok (), db')"
    and name: "map_of (cm_tablesByName ?c) name = None"
    using run by (auto simp: CreateTable_def run_iff Let_def split: if_splits)
  have t: "tb_oid table = ?oid" "tb_name table = name" using tb by (auto simp: NewTableDefinition_def split: if_splits)
  have new: "map_of (cm_tablesByOid ?c) ?oid = None" by (rule nextId_update_new(2) [OF countedD(1) [OF n] left(1)])
  have c1: "db_cat db1 = ?c1" using cat_append_cat [OF app] by simp
  have none: "slice_at (cm_columnsByTableOid ?c) ?oid = []" using columns_wfD(1) [OF wf(2), of ?oid] new by auto
  have "columns_wf ?c1"
    by (rule columns_wf_cong [OF wf(2)]) (auto simp: indexTable_def AList.update_conv')
  moreover have "counted ?c1" using left(1) t by (intro counted_new(1) [OF n]) simp_all
  ultimately have e: "columns_wf (db_cat db') \<and> cm_tablesByName (db_cat db') = cm_tablesByName ?c1
    \<and> cm_tablesByOid (db_cat db') = cm_tablesByOid ?c1
    \<and> (\<forall>k. slice_at (cm_columnsByTableOid (db_cat db')) k = slice_at (cm_columnsByTableOid ?c1) k
        @ (if k = tb_oid table then new_columns (cm_nextColumnOid ?c1) (tb_oid table) 0 columns else []))"
    using create_columns_wf [of db1 columns 0 table "()" db'] left(2) none t cols
    by (auto simp: c1 indexTable_def AList.update_conv' oids_left_def)
  have "tables_wf (?c\<lparr>cm_nextTableOid := ?oid + 1\<rparr>)" using wf(1) by (simp add: tables_wf_def)
  from tables_wf_add [OF this, of table] have "tables_wf ?c1" using new t by simp
  then show "tables_wf (db_cat db')" using e unfolding tables_wf_def by metis
  show "columns_wf (db_cat db')" using e by blast
  show "map_of (cm_tablesByName ?c) name = None" by (rule name)
  show "map_of (cm_tablesByName (db_cat db')) = (map_of (cm_tablesByName ?c))(name \<mapsto> table)"
    using e t by (simp add: indexTable_def AList.update_conv')
  show "map_of (cm_tablesByOid ?c) (tb_oid table) = None" using new t by simp
  show "slice_at (cm_columnsByTableOid (db_cat db')) k = (if k = tb_oid table
      then new_columns (cm_nextColumnOid ?c) (tb_oid table) 0 columns else slice_at (cm_columnsByTableOid ?c) k)"
    using e none t by (simp add: indexTable_def)
  have "cm_root (db_cat d') = cm_root (db_cat d)" if "create_columns table p cs d = (Ok v, d')" for p cs d v d'
    using that
  proof (induction cs arbitrary: p d)
    case (Cons a cs)
    then show ?case using cat_append_cat by (fastforce simp: run_iff Let_def)
  qed (simp add: pure_def)
  from this [OF cols] show "cm_root (db_cat db') = cm_root ?c" by (simp add: c1)
qed

lemma ensureBuiltin_tables:
  assumes "ensureBuiltinTypesPresent db = (Ok u, db')"
  shows "cm_tablesByName (db_cat db') = cm_tablesByName (db_cat db)"
    and "cm_tablesByOid (db_cat db') = cm_tablesByOid (db_cat db)"
    and "cm_columnsByTableOid (db_cat db') = cm_columnsByTableOid (db_cat db)"
    and "cm_columnsByOid (db_cat db') = cm_columnsByOid (db_cat db)"
    and "cm_root (db_cat db') = cm_root (db_cat db)"
proof -
  let ?same = "\<lambda>c c'. cm_tablesByName c' = cm_tablesByName c \<and> cm_tablesByOid c' = cm_tablesByOid c
    \<and> cm_columnsByTableOid c' = cm_columnsByTableOid c \<and> cm_columnsByOid c' = cm_columnsByOid c \<and> cm_root c' = cm_root c"
  have one: "?same (db_cat d) (db_cat d')" if "ensure_type x k d = (Ok ch, d')" for x k d ch d'
    using that by (auto simp: ensure_type_def run_iff Let_def indexType_def dest!: cat_append_cat split: if_splits)
  obtain c1 d1 c2 d2 where e1: "ensure_type builtinInt64 8 db = (Ok c1, d1)" and e2: "ensure_type builtinVarchar (-1) d1 = (Ok c2, d2)"
    and "(if c1 \<or> c2 then on_cat recomputeNextOids else pure ()) d2 = (Ok u, db')"
    using assms by (auto simp: ensureBuiltinTypesPresent_def seq_Ok_iff)
  then have "?same (db_cat d2) (db_cat db')"
    by (auto simp: on_cat_def pure_def recomputeNextOids_def split: if_splits)
  with one [OF e1] one [OF e2] have "?same (db_cat db) (db_cat db')" by simp
  then show "cm_tablesByName (db_cat db') = cm_tablesByName (db_cat db)" "cm_tablesByOid (db_cat db') = cm_tablesByOid (db_cat db)"
    "cm_columnsByTableOid (db_cat db') = cm_columnsByTableOid (db_cat db)" "cm_columnsByOid (db_cat db') = cm_columnsByOid (db_cat db)"
    "cm_root (db_cat db') = cm_root (db_cat db)" by simp_all
qed

lemma NewCatalog_Ok:
  assumes inv: "pool_inv b" and root: "bp_root b = root"
    and h: "holds b typesFile type_ToBytes tys" "holds b tablesFile table_ToBytes tbs"
      "holds b columnsFile column_ToBytes cos" "holds b indexesFile index_ToBytes ixs" "\<forall>i \<in> set ixs. ix_ok i"
    and run: "NewDefaultCatalogManager root b = (Ok u, db)"
  obtains db1 where "db_cat db1 = recomputeNextOids (replay root tys tbs cos ixs)"
    and "ensureBuiltinTypesPresent db1 = (Ok u, db)"
proof -
  let ?db = "\<lparr>db_cat = empty_catalog root, db_pool = b\<rparr>"
  obtain db1 where ld: "loadFromDisk ?db = (Ok (), db1)" and e: "ensureBuiltinTypesPresent db1 = (Ok u, db)"
    using run by (auto simp: NewDefaultCatalogManager_def seq_Ok_iff ensureCatalogDirectory_def Let_def split: if_splits)
  have "db_cat db1 = recomputeNextOids (replay root tys tbs cos ixs)"
    by (rule loadFromDisk_spec(1) [OF _ _ _ _ _ _ _ _ ld, THEN conjunct2]) (use inv root h in simp_all)
  then show thesis using that e by blast
qed

lemma reload_same:
  assumes s: "cat_sync db" and root: "cm_root (db_cat db) = root"
    and new: "NewHeapBufferPoolManager n (Some rp) root (bp_disk (db_pool db)) = Ok b" "fresh_replacer rp"
    and run: "NewDefaultCatalogManager root b = (Ok u, db')"
  shows "db_cat db' = db_cat db"
proof -
  obtain tys tbs cos ixs where l: "logged db tys tbs cos ixs" using s by (auto simp: cat_sync_def)
  note inv = loggedD(1,2) [OF l]
  note n = new_pool [OF new pool_invD(9) [OF inv(1)]]
  have rb: "bp_root (db_pool db) = root" using inv(2) root by simp
  have h: "holds b typesFile type_ToBytes tys" "holds b tablesFile table_ToBytes tbs"
    "holds b columnsFile column_ToBytes cos" "holds b indexesFile index_ToBytes ixs" "\<forall>i \<in> set ixs. ix_ok i"
    using new_pool_holds [OF new rb inv(1) loggedD(3) [OF l]] new_pool_holds [OF new rb inv(1) loggedD(4) [OF l]]
      new_pool_holds [OF new rb inv(1) loggedD(5) [OF l]] new_pool_holds [OF new rb inv(1) loggedD(6) [OF l]] l
    by (auto simp: logged_def)
  obtain db1 where c1: "db_cat db1 = recomputeNextOids (replay root tys tbs cos ixs)"
    and e: "ensureBuiltinTypesPresent db1 = (Ok u, db')"
    using NewCatalog_Ok [OF n(1,2) h run] by blast
  have c: "db_cat db = db_cat db1"
    using l cat_syncD(1) [OF s] root c1 by (simp add: logged_def counted_def)
  have "db' = db1"
    using e cat_syncD(2) [OF s] by (auto simp: c ensureBuiltinTypesPresent_def ensure_type_def seq_def pure_def has_builtins_def)
  then show ?thesis using c by simp
qed

lemma cat_reach_inv:
  assumes "cat_reach root db"
  shows "cat_sync db \<and> cm_root (db_cat db) = root \<and> tables_wf (db_cat db) \<and> columns_wf (db_cat db)"
  using assms
proof (induction rule: cat_reach.induct)
  case (start n rp d b u db)
  note n = new_pool [OF start(1,2,3)]
  have h': "holds b typesFile type_ToBytes []" "holds b tablesFile table_ToBytes []" "holds b columnsFile column_ToBytes []"
      "holds b indexesFile index_ToBytes []" "\<forall>i \<in> set []. ix_ok i"
    using n start(4) by (auto intro!: empty_holds simp: catalog_files_def)
  note s = NewCatalog_sync [OF n(1,2) h' start(5)]
  obtain db1 where c1: "db_cat db1 = recomputeNextOids (replay root [] [] [] [])"
    and e: "ensureBuiltinTypesPresent db1 = (Ok u, db)"
    using NewCatalog_Ok [OF n(1,2) h' start(5)] by blast
  show ?case
    using s ensureBuiltin_tables [OF e]
    by (simp add: c1 tables_wf_def columns_wf_def replay_def empty_catalog_def recomputeNextOids_def slice_at_def)
next
  case (restart db n rp b u db')
  then show ?case
    using reload_sync(1) [OF _ _ restart(2,3,4)] reload_same [OF _ _ restart(2,3,4)] by simp
next
  case (create_table db columns name table db')
  then show ?case
    using CreateTable_sync [OF _ create_table(2,3,4)] CreateTable_effect [OF _ _ _ create_table(2,3,4)] cat_syncD(1) by auto
next
  case (update_pages db table current n u db')
  then have w: "tables_wf (db_cat db)" "columns_wf (db_cat db)" and s: "cat_sync db" by auto
  have o: "map_of (cm_tablesByOid (db_cat db)) (tb_oid table) = Some current"
    using w(1) update_pages(2,3) unfolding tables_wf_def by metis
  obtain t data where t: "NewTableDefinition (tb_oid table) (tb_name table) (tb_typ table) (tb_fileNode table) n = Ok t"
    and app: "cat_append tablesFile data (db\<lparr>db_cat := indexTable t (db_cat db)\<rparr>) = (Ok u, db')"
    using update_pages(4) by (auto simp: UpdatePagesCount_def run_iff)
  have tt: "tb_oid t = tb_oid table" "tb_name t = tb_name table" using t by (auto simp: NewTableDefinition_def split: if_splits)
  have "tables_wf (indexTable t (db_cat db))" by (rule tables_wf_add [OF w(1)]) (use tt update_pages(2,3) in auto)
  moreover have "columns_wf (indexTable t (db_cat db))"
    by (rule columns_wf_cong [OF w(2)]) (auto simp: indexTable_def AList.update_conv')
  ultimately show ?case
    using UpdatePagesCount_sync [OF s _ update_pages(4)] o cat_append_cat [OF app] update_pages.IH by simp
next
  case (create_index db ty name tableName columnName def db')
  then have "\<exists>k. db_cat db' = indexIndex def ((db_cat db)\<lparr>cm_nextIndexOid := k\<rparr>)"
    by (auto simp: CreateIndex_def run_iff Let_def dest!: cat_append_cat split: if_splits option.splits)
  then obtain k where c: "db_cat db' = indexIndex def ((db_cat db)\<lparr>cm_nextIndexOid := k\<rparr>)" by blast
  have "columns_wf (db_cat db')"
    unfolding c by (rule columns_wf_cong [of "db_cat db"]) (use create_index in \<open>auto simp: indexIndex_def Let_def\<close>)
  then show ?case
    using CreateIndex_sync [OF _ create_index(2,3,4)] create_index.IH by (simp add: c tables_wf_def indexIndex_def Let_def)
next
  case (pool db a b)
  then show ?case using sync_pool [OF _ pool(2,3)] by simp
qed

section \<open>The built-in types\<close>

text \<open>Types are only ever added by \<open>ensureBuiltinTypesPresent\<close>, so every reachable catalog has the same two.\<close>

definition int64_type :: TypeDefinition where
  "int64_type = \<lparr>ty_oid = 1, ty_name = ''INT64'', ty_byteLength = 8\<rparr>"

definition varchar_type :: TypeDefinition where
  "varchar_type = \<lparr>ty_oid = 2, ty_name = ''VARCHAR'', ty_byteLength = -1\<rparr>"

definition builtin_types :: "Catalog \<Rightarrow> bool" where
  "builtin_types c \<longleftrightarrow> map_of (cm_typesByOid c) = [1 \<mapsto> int64_type, 2 \<mapsto> varchar_type]
     \<and> map_of (cm_typesByName c) = [''INT64'' \<mapsto> int64_type, ''VARCHAR'' \<mapsto> varchar_type]"

lemma builtin_types_cong:
  "builtin_types c \<Longrightarrow> cm_typesByOid c' = cm_typesByOid c \<Longrightarrow> cm_typesByName c' = cm_typesByName c \<Longrightarrow> builtin_types c'"
  by (simp add: builtin_types_def)

lemma ensureBuiltin_types:
  assumes "ensureBuiltinTypesPresent db = (Ok u, db')"
    and "cm_typesByOid (db_cat db) = []" "cm_typesByName (db_cat db) = []" "cm_nextTypeOid (db_cat db) = 1"
  shows "builtin_types (db_cat db')"
proof -
  obtain c1 d1 c2 d2 where e1: "ensure_type builtinInt64 8 db = (Ok c1, d1)" and e2: "ensure_type builtinVarchar (-1) d1 = (Ok c2, d2)"
    and e3: "(if c1 \<or> c2 then on_cat recomputeNextOids else pure ()) d2 = (Ok u, db')"
    using assms by (auto simp: ensureBuiltinTypesPresent_def seq_Ok_iff)
  have d1: "db_cat d1 = indexType int64_type ((db_cat db)\<lparr>cm_nextTypeOid := 2\<rparr>)"
    using e1 assms(2-) by (auto simp: ensure_type_def run_iff Let_def int64_type_def builtinInt64_def dest!: cat_append_cat)
  have d2: "db_cat d2 = indexType varchar_type ((db_cat d1)\<lparr>cm_nextTypeOid := 3\<rparr>)"
    using e2 assms(2-) d1
    by (auto simp: ensure_type_def run_iff Let_def int64_type_def varchar_type_def builtinVarchar_def indexType_def AList.update_conv'
        dest!: cat_append_cat)
  have "builtin_types (db_cat d2)"
    unfolding d2 d1 builtin_types_def using assms(2-)
    by (auto simp: indexType_def int64_type_def varchar_type_def AList.update_conv')
  then show ?thesis
    using e3 by (auto intro: builtin_types_cong simp: on_cat_def pure_def recomputeNextOids_def split: if_splits)
qed

lemma create_columns_types:
  "create_columns table p cs db = (Ok u, db') \<Longrightarrow>
    cm_typesByOid (db_cat db') = cm_typesByOid (db_cat db) \<and> cm_typesByName (db_cat db') = cm_typesByName (db_cat db)"
proof (induction cs arbitrary: p db)
  case (Cons a cs)
  then show ?case using cat_append_cat by (fastforce simp: run_iff Let_def indexColumn_def)
qed (simp add: pure_def)

lemma cat_reach_types: "cat_reach root db \<Longrightarrow> builtin_types (db_cat db)"
proof (induction rule: cat_reach.induct)
  case (start n rp d b u db)
  note n = new_pool [OF start(1,2,3)]
  have h': "holds b typesFile type_ToBytes []" "holds b tablesFile table_ToBytes []" "holds b columnsFile column_ToBytes []"
      "holds b indexesFile index_ToBytes []" "\<forall>i \<in> set []. ix_ok i"
    using n start(4) by (auto intro!: empty_holds simp: catalog_files_def)
  obtain db1 where c1: "db_cat db1 = recomputeNextOids (replay root [] [] [] [])"
    and e: "ensureBuiltinTypesPresent db1 = (Ok u, db)"
    using NewCatalog_Ok [OF n(1,2) h' start(5)] by blast
  show ?case
    by (rule ensureBuiltin_types [OF e]) (simp_all add: c1 replay_def empty_catalog_def recomputeNextOids_def nextIdAfterMax_def)
next
  case (restart db n rp b u db')
  then show ?case using cat_reach_inv [OF restart(1)] reload_same [OF _ _ restart(2,3,4)] by simp
next
  case (create_table db columns name table db')
  then show ?case
    by (auto simp: CreateTable_def run_iff Let_def indexTable_def split: if_splits
        dest!: cat_append_cat create_columns_types intro: builtin_types_cong)
next
  case (update_pages db table current n u db')
  then show ?case
    by (auto simp: UpdatePagesCount_def run_iff indexTable_def dest!: cat_append_cat intro: builtin_types_cong)
next
  case (create_index db ty name tableName columnName def db')
  then show ?case
    by (auto simp: CreateIndex_def run_iff Let_def indexIndex_def dest!: cat_append_cat split: if_splits option.splits
        intro: builtin_types_cong)
qed simp

section \<open>Progress\<close>

lemma length_show_nat: "n < 10 ^ k \<Longrightarrow> 0 < k \<Longrightarrow> length (show_nat n) \<le> k"
proof (induction k arbitrary: n)
  case (Suc k)
  show ?case
  proof (cases "n < 10")
    case True
    then show ?thesis by (simp add: show_nat.simps)
  next
    case False
    have "n div 10 < 10 ^ k" using Suc.prems(1) by (simp add: div_less_iff_less_mult mult.commute)
    moreover have "0 < k" using False Suc.prems by (cases k) auto
    ultimately have "length (show_nat (n div 10)) \<le> k" using Suc.IH by blast
    then show ?thesis using False by (subst show_nat.simps) simp
  qed
qed simp

lemma length_show_oid: "0 < sint (w :: int32) \<Longrightarrow> length (show_int (sint w)) \<le> 10"
proof -
  assume "0 < sint w"
  moreover have "nat (sint w) < 10 ^ 10" using sint_lt [of w] by simp
  ultimately show ?thesis using length_show_nat [of "nat (sint w)" 10] by (simp add: show_int_def)
qed

lemma show_nat_visible: "show_nat n \<noteq> [] \<and> 48 \<le> rune_of (hd (show_nat n)) \<and> rune_of (hd (show_nat n)) < 58"
proof (induction n rule: show_nat.induct)
  case (1 n)
  show ?case
  proof (cases "n < 10")
    case True
    then have "show_nat n = [char_of (48 + n)]" by (subst show_nat.simps) simp
    then show ?thesis using True by simp
  next
    case False
    then have "show_nat n = show_nat (n div 10) @ [char_of (48 + n mod 10)]" by (subst show_nat.simps) simp
    then show ?thesis using 1 False by simp
  qed
qed

lemma fileNode_not_blank: "0 < sint (w :: int32) \<Longrightarrow> \<not> blank (show_int (sint w) @ s)"
proof -
  assume w: "0 < sint w"
  obtain c t where s: "show_int (sint w) = c # t" and "48 \<le> rune_of c" and c: "rune_of c < 58"
    using show_nat_visible [of "nat (sint w)"] w by (cases "show_nat (nat (sint w))") (auto simp: show_int_def)
  then have "\<not> IsSpace (rune_of c)" by (auto simp: IsSpace_def)
  moreover have "runes_of_string (show_int (sint w) @ s) = rune_of c # utf8_runes (map of_char (t @ s))"
    using s c by (simp add: runes_of_string_def utf8_next.simps)
  ultimately show ?thesis by (simp add: blank_def)
qed

lemma cat_append_live:
  assumes l: "logged db tys tbs cos ixs" and fl: "fluid (db_pool db)" and F: "F \<in> catalog_files"
    and len: "4 + length data \<le> 8182" and c: "cm_root c = cm_root (db_cat db)"
  obtains db' where "cat_append F data (db\<lparr>db_cat := c\<rparr>) = (Ok (), db')" and "fluid (db_pool db')"
proof -
  obtain pages where "log_file (db_pool db) F pages"
    using loggedD [OF l] F by (auto simp: holds_def catalog_files_def)
  from appendRecord_live [OF loggedD(1) [OF l] this loggedD(2) [OF l] fl len]
  obtain b' where b': "appendRecord (cm_root (db_cat db)) F data (db_pool db) = (Ok (), b')" "fluid b'" by blast
  then have "cat_append F data (db\<lparr>db_cat := c\<rparr>) = (Ok (), db\<lparr>db_cat := c, db_pool := b'\<rparr>)"
    using c by (simp add: cat_append_def on_pool_def)
  from that [OF this] b'(2) show thesis by simp
qed

lemma create_columns_live:
  assumes "cat_sync db" and "fluid (db_pool db)" and "oids_left (cm_nextColumnOid (db_cat db)) (length columns)"
    and "\<forall>p \<in> set columns. co_name p \<noteq> '''' \<and> length (co_name p) \<le> 8000"
  shows "\<exists>db'. create_columns table position columns db = (Ok (), db') \<and> fluid (db_pool db')"
  using assms
proof (induction columns arbitrary: position db)
  case Nil
  then show ?case by (simp add: pure_def)
next
  case (Cons proto columns)
  let ?c = "db_cat db" let ?oid = "cm_nextColumnOid ?c"
  define col where "col = \<lparr>co_oid = ?oid, co_tableOid = tb_oid table, co_typeOid = co_typeOid proto,
    co_name = co_name proto, co_position = word_of_nat position\<rparr>"
  let ?c1 = "indexColumn col (?c\<lparr>cm_nextColumnOid := ?oid + 1\<rparr>)"
  have new: "NewColumnDefinition ?oid (tb_oid table) (co_typeOid proto) (co_name proto) (word_of_nat position) = Ok col"
    using Cons.prems(4) by (simp add: NewColumnDefinition_def col_def)
  obtain data where data: "column_ToBytes col = Ok data" and len: "4 + length data \<le> 8182"
    using Cons.prems(4) by (simp add: column_ToBytes_def col_def)
  obtain tys tbs cos ixs where l: "logged db tys tbs cos ixs" using Cons.prems(1) by (auto simp: cat_sync_def)
  obtain db1 where app: "cat_append columnsFile data (db\<lparr>db_cat := ?c1\<rparr>) = (Ok (), db1)" and fl: "fluid (db_pool db1)"
    using cat_append_live [OF l Cons.prems(2) _ len, of columnsFile ?c1] by (auto simp: catalog_files_def)
  have "counted ?c1"
    using Cons.prems(3) by (intro counted_new(2) [OF cat_syncD(1) [OF Cons.prems(1)]]) (auto simp: oids_left_def col_def)
  from sync_append(2) [OF Cons.prems(1) app this refl data refl]
  have "cat_sync db1" "cm_nextColumnOid (db_cat db1) = ?oid + 1" by auto
  then obtain db' where "create_columns table (position + 1) columns db1 = (Ok (), db')" "fluid (db_pool db')"
    using Cons.IH [of db1 "position + 1"] fl oids_left_Suc Cons.prems(3,4) by auto
  then show ?case
    using new data app by (simp add: seq_def lift_result_def on_cat_def Let_def)
qed

lemma CreateTable_live:
  assumes s: "cat_sync db" and fl: "fluid (db_pool db)" and left: "0 < sint (cm_nextTableOid (db_cat db))"
      "oids_left (cm_nextColumnOid (db_cat db)) (length columns)"
    and name: "map_of (cm_tablesByName (db_cat db)) name = None" "\<not> blank name" "length name \<le> 8000"
    and cols: "\<forall>p \<in> set columns. co_name p \<noteq> '''' \<and> length (co_name p) \<le> 8000"
  shows "\<exists>table db'. CreateTable name columns db = (Ok table, db') \<and> fluid (db_pool db')"
proof -
  let ?c = "db_cat db" let ?oid = "cm_nextTableOid ?c"
  define table where "table = \<lparr>tb_oid = ?oid, tb_name = name, tb_typ = ''TABLE'', tb_fileNode = show_int (sint ?oid) @ ''.dat'',
    tb_pagesCount = 0\<rparr>"
  let ?c1 = "indexTable table (?c\<lparr>cm_nextTableOid := ?oid + 1\<rparr>)"
  have "\<not> blank ''TABLE''" by (simp add: blank_def runes_of_ascii IsSpace_def)
  then have new: "NewTableDefinition ?oid name ''TABLE'' (show_int (sint ?oid) @ ''.dat'') 0 = Ok table"
    using name(2) fileNode_not_blank [OF left(1)] by (simp add: NewTableDefinition_def table_def)
  obtain data where data: "table_ToBytes table = Ok data" and len: "4 + length data \<le> 8182"
    using name(3) length_show_oid [OF left(1)] by (simp add: table_ToBytes_def table_def)
  obtain tys tbs cos ixs where l: "logged db tys tbs cos ixs" using s by (auto simp: cat_sync_def)
  obtain db1 where app: "cat_append tablesFile data (db\<lparr>db_cat := ?c1\<rparr>) = (Ok (), db1)" and fl1: "fluid (db_pool db1)"
    using cat_append_live [OF l fl _ len, of tablesFile ?c1] by (auto simp: catalog_files_def)
  have "counted ?c1" using left(1) by (intro counted_new(1) [OF cat_syncD(1) [OF s]]) (auto simp: table_def)
  from sync_append(1) [OF s app this refl data disjI2 [OF refl]]
  have "cat_sync db1" "cm_nextColumnOid (db_cat db1) = cm_nextColumnOid ?c" by (auto simp: indexTable_def)
  then obtain db' where "create_columns table 0 columns db1 = (Ok (), db')" "fluid (db_pool db')"
    using create_columns_live [of db1 columns table 0] fl1 left(2) cols by auto
  then show ?thesis
    using name(1) new data app
    by (auto simp: CreateTable_def seq_def lift_result_def on_cat_def pure_def Let_def)
qed

lemma ensure_type_live:
  assumes l: "logged db tys tbs cos ixs" and fl: "fluid (db_pool db)" and "length name \<le> 8000"
  shows "\<exists>ch db'. ensure_type name n db = (Ok ch, db') \<and> fluid (db_pool db')"
proof (cases "map_of (cm_typesByName (db_cat db)) name")
  case None
  define ty where "ty = \<lparr>ty_oid = cm_nextTypeOid (db_cat db), ty_name = name, ty_byteLength = n\<rparr>"
  let ?c = "indexType ty ((db_cat db)\<lparr>cm_nextTypeOid := cm_nextTypeOid (db_cat db) + 1\<rparr>)"
  obtain data where data: "type_ToBytes ty = Ok data" and len: "4 + length data \<le> 8182"
    using assms(3) by (simp add: type_ToBytes_def ty_def)
  obtain db1 where "cat_append typesFile data (db\<lparr>db_cat := ?c\<rparr>) = (Ok (), db1)" "fluid (db_pool db1)"
    using cat_append_live [OF l fl _ len, of typesFile ?c] by (auto simp: catalog_files_def)
  then show ?thesis
    using None data by (auto simp: ensure_type_def seq_def lift_result_def on_cat_def pure_def ty_def Let_def)
qed (use fl in \<open>auto simp: ensure_type_def\<close>)

lemma NewCatalog_first:
  assumes "NewHeapBufferPoolManager n (Some rp) root d = Ok b" and "fresh_replacer rp" and "disk_inv d"
    and "\<forall>F \<in> catalog_files. fs_files d (path_Join root F) = None" and "healthy d"
  obtains db where "NewDefaultCatalogManager root b = (Ok (), db)" and "fluid (db_pool db)" and "cat_reach root db"
    and "cm_tablesByName (db_cat db) = []" and "cm_nextTableOid (db_cat db) = 1" and "cm_nextColumnOid (db_cat db) = 1"
proof -
  note n = new_pool [OF assms(1-3)]
  have h: "holds b typesFile type_ToBytes []" "holds b tablesFile table_ToBytes []" "holds b columnsFile column_ToBytes []"
      "holds b indexesFile index_ToBytes []" "\<forall>i \<in> set []. ix_ok i"
    using n assms(4) by (auto intro!: empty_holds simp: catalog_files_def)
  let ?db = "\<lparr>db_cat = empty_catalog root, db_pool = b\<rparr>"
  obtain r db1 where ld: "loadFromDisk ?db = (r, db1)" by force
  note s = loadFromDisk_spec [of ?db root "[]" "[]" "[]" "[]", OF _ _ _ _ _ _ _ _ ld]
  have r: "r = Ok ()" and fl1: "fluid (db_pool db1)" using s(2) n h assms(5) by simp_all
  have l1: "logged db1 [] [] [] []" and c1: "db_cat db1 = recomputeNextOids (replay root [] [] [] [])"
    using s(1) n h r by simp_all
  obtain ch2 db2 where e1: "ensure_type builtinInt64 8 db1 = (Ok ch2, db2)" and fl2: "fluid (db_pool db2)"
    using ensure_type_live [OF l1 fl1, of builtinInt64 8] by (auto simp: builtinInt64_def)
  obtain tys2 where l2: "logged db2 tys2 [] [] []" using ensure_type_logged(1) [OF l1 e1] by blast
  obtain ch3 db3 where e2: "ensure_type builtinVarchar (-1) db2 = (Ok ch3, db3)" and fl3: "fluid (db_pool db3)"
    using ensure_type_live [OF l2 fl2, of builtinVarchar "-1"] by (auto simp: builtinVarchar_def)
  obtain db where e: "ensureBuiltinTypesPresent db1 = (Ok (), db)" and fl: "fluid (db_pool db)"
    using e1 e2 fl3 by (cases "ch2 \<or> ch3") (auto simp: ensureBuiltinTypesPresent_def seq_def on_cat_def pure_def)
  have run: "NewDefaultCatalogManager root b = (Ok (), db)"
    using ld r e n assms(5) by (simp add: NewDefaultCatalogManager_def seq_def ensureCatalogDirectory_def healthy_def)
  have cr: "cat_reach root db" by (rule cat_reach.start [OF assms(1-4) run])
  have t: "cm_tablesByName (db_cat db) = []" "cm_tablesByOid (db_cat db) = []" "cm_columnsByOid (db_cat db) = []"
    using ensureBuiltin_tables [OF e] by (simp_all add: c1 replay_def empty_catalog_def recomputeNextOids_def)
  have "counted (db_cat db)" using cat_reach_inv [OF cr] cat_syncD(1) by blast
  from countedD(1,2) [OF this] have "cm_nextTableOid (db_cat db) = 1" "cm_nextColumnOid (db_cat db) = 1"
    by (simp_all add: t nextIdAfterMax_def)
  then show thesis using that run fl cr t(1) by blast
qed

section \<open>Properties\<close>

text \<open>C4: the catalog survives a restart. Start a database on an empty directory and run any
  successful catalog operations, pool operations of the other components and restarts; stop it
  at any moment, without any flush. Opening the catalog with a new pool over the disk succeeds if
  the disk works, and every map and every counter is as before.\<close>

theorem catalog_survives_restart:
  assumes "cat_reach root db" and "healthy (bp_disk (db_pool db))"
    and "NewHeapBufferPoolManager n (Some rp) root (bp_disk (db_pool db)) = Ok b" and "fresh_replacer rp"
  shows "\<exists>db'. NewDefaultCatalogManager root b = (Ok (), db') \<and> db_cat db' = db_cat db"
  using cat_reach_inv [OF assms(1)] reload_sync(2) [OF _ _ assms(3,4,2)] by blast

lemma new_columns_at:
  shows "map co_name (new_columns oid t p cs) = map co_name cs" and "map co_typeOid (new_columns oid t p cs) = map co_typeOid cs"
    and "map co_position (new_columns oid t p cs) = map word_of_nat [p..<p + length cs]"
  by (induction cs arbitrary: oid p) (simp_all add: upt_conv_Cons del: upt_Suc)

lemma find_first_name:
  assumes "map co_name ds = map co_name cs"
  shows "i < length cs \<Longrightarrow> co_name (cs ! i) \<notin> co_name ` set (take i cs) \<Longrightarrow> find (\<lambda>d. co_name d = co_name (cs ! i)) ds = Some (ds ! i)"
    and "n \<notin> co_name ` set cs \<Longrightarrow> find (\<lambda>d. co_name d = n) ds = None"
proof -
  have len: "length ds = length cs" using assms by (rule map_eq_imp_length_eq)
  have nth: "co_name (ds ! j) = co_name (cs ! j)" if "j < length cs" for j
    using assms that len by (metis nth_map)
  show "find (\<lambda>d. co_name d = co_name (cs ! i)) ds = Some (ds ! i)"
    if "i < length cs" "co_name (cs ! i) \<notin> co_name ` set (take i cs)"
  proof -
    have "co_name (cs ! j) \<noteq> co_name (cs ! i)" if "j < i" for j
    proof -
      have "take i cs ! j \<in> set (take i cs)" using that \<open>i < length cs\<close> by (intro nth_mem) simp
      then show ?thesis using that \<open>co_name (cs ! i) \<notin> _\<close> by (metis imageI nth_take)
    qed
    then show ?thesis using that(1) nth len by (auto simp: find_Some_iff intro!: exI [of _ i])
  qed
  have "co_name ` set ds = co_name ` set cs" using assms by (metis set_map)
  then show "find (\<lambda>d. co_name d = n) ds = None" if "n \<notin> co_name ` set cs"
    using that by (auto simp: find_None_iff)
qed

text \<open>C21: a table that was created is found. In every reachable state with table and column numbers left, a
  successful CreateTable returns a table that GetTable then finds under its name, GetColumns returns its
  columns in the order they were given, with their names and types and at positions 0, 1, 2 and so on, GetColumn
  finds the first column of a name and nothing for any other name, and every other table and its columns
  are as before.\<close>

theorem CreateTable_visible:
  assumes "cat_reach root db" and "0 < sint (cm_nextTableOid (db_cat db))"
    and "oids_left (cm_nextColumnOid (db_cat db)) (length columns)"
    and "CreateTable name columns db = (Ok table, db')"
  shows "GetTable name (db_cat db') = Ok (Some table) \<and> tb_name table = name
    \<and> GetColumns table (db_cat db') = Ok (new_columns (cm_nextColumnOid (db_cat db)) (tb_oid table) 0 columns)
    \<and> map co_name (new_columns (cm_nextColumnOid (db_cat db)) (tb_oid table) 0 columns) = map co_name columns
    \<and> map co_typeOid (new_columns (cm_nextColumnOid (db_cat db)) (tb_oid table) 0 columns) = map co_typeOid columns
    \<and> map co_position (new_columns (cm_nextColumnOid (db_cat db)) (tb_oid table) 0 columns) = map word_of_nat [0..<length columns]
    \<and> (\<forall>i < length columns. co_name (columns ! i) \<notin> co_name ` set (take i columns) \<longrightarrow>
         GetColumn table (co_name (columns ! i)) (db_cat db')
           = Ok (Some (new_columns (cm_nextColumnOid (db_cat db)) (tb_oid table) 0 columns ! i)))
    \<and> (\<forall>n. n \<notin> co_name ` set columns \<longrightarrow> GetColumn table n (db_cat db') = Ok None)
    \<and> (\<forall>other t. other \<noteq> name \<longrightarrow> GetTable other (db_cat db) = Ok (Some t)
        \<longrightarrow> GetTable other (db_cat db') = Ok (Some t) \<and> GetColumns t (db_cat db') = GetColumns t (db_cat db))"
proof -
  let ?new = "new_columns (cm_nextColumnOid (db_cat db)) (tb_oid table) 0 columns"
  have i: "tables_wf (db_cat db)" "columns_wf (db_cat db)" "counted (db_cat db)"
    using cat_reach_inv [OF assms(1)] cat_syncD(1) by auto
  note e = CreateTable_effect [OF i assms(2-4)]
  have "tb_name table = name" using e(1,4) by (simp add: tables_wf_def)
  moreover have "tb_oid t \<noteq> tb_oid table" if "map_of (cm_tablesByName (db_cat db)) other = Some t" for other t
    using that i(1) e(5) unfolding tables_wf_def by fastforce
  moreover have "GetColumn table n (db_cat db') = Ok (find (\<lambda>col. co_name col = n) ?new)" for n
    using e(6) by (simp add: GetColumn_def)
  ultimately show ?thesis
    using e(4,6) new_columns_at find_first_name [OF new_columns_at(1) [where cs = columns]]
    by (auto simp: GetTable_def GetColumns_def)
qed

text \<open>C22: CREATE TABLE makes progress. In a reachable state with table and column numbers left, over a
  working disk and a pool without pinned pages in which the replacer knows every buffered page (no write of a
  victim has failed before), a table with a new, non-blank name and non-empty column names, all of at most
  8000 bytes, is created, and the pool is in such a state again; a name that is taken is refused and changes
  nothing.\<close>

theorem CreateTable_progress:
  assumes "cat_reach root db" and "fluid (db_pool db)" and "0 < sint (cm_nextTableOid (db_cat db))"
    and "oids_left (cm_nextColumnOid (db_cat db)) (length columns)" and "\<not> blank name" and "length name \<le> 8000"
    and "\<forall>p \<in> set columns. co_name p \<noteq> '''' \<and> length (co_name p) \<le> 8000"
  shows "case GetTable name (db_cat db) of
      Ok None \<Rightarrow> (\<exists>table db'. CreateTable name columns db = (Ok table, db') \<and> cat_reach root db' \<and> fluid (db_pool db'))
    | Ok (Some _) \<Rightarrow> CreateTable name columns db = (Err (ErrTableExists name), db)
    | _ \<Rightarrow> False"
proof (cases "map_of (cm_tablesByName (db_cat db)) name")
  case None
  from CreateTable_live [OF _ assms(2-4) None assms(5-7)] cat_reach_inv [OF assms(1)]
  obtain table db' where c: "CreateTable name columns db = (Ok table, db')" "fluid (db_pool db')" by blast
  from cat_reach.create_table [OF assms(1,3,4) c(1)] c None show ?thesis by (auto simp: GetTable_def)
qed (simp add: GetTable_def CreateTable_def)

lemma sample_first:
  obtains db where "NewDefaultCatalogManager ''d'' sample_pool = (Ok (), db)" and "fluid (db_pool db)" and "cat_reach ''d'' db"
    and "cm_tablesByName (db_cat db) = []" and "cm_nextTableOid (db_cat db) = 1" and "cm_nextColumnOid (db_cat db) = 1"
  using NewCatalog_first [OF sample_new] by (auto simp: fresh_replacer_def empty_disk_def disk_inv_def healthy_def)

definition sample_proto :: ColumnDefinition where
  "sample_proto = \<lparr>co_oid = 0, co_tableOid = 0, co_typeOid = 1, co_name = ''id'', co_position = 0\<rparr>"

lemma sample_created:
  obtains db table db' where "cat_reach ''d'' db" and "fluid (db_pool db)" and "cm_nextTableOid (db_cat db) = 1" "cm_nextColumnOid (db_cat db) = 1"
    and "CreateTable ''t'' [sample_proto] db = (Ok table, db')" and "fluid (db_pool db')" and "cat_reach ''d'' db'"
proof -
  obtain db where db: "fluid (db_pool db)" "cat_reach ''d'' db" "cm_tablesByName (db_cat db) = []"
      "cm_nextTableOid (db_cat db) = 1" "cm_nextColumnOid (db_cat db) = 1"
    using sample_first by blast
  have left: "0 < sint (cm_nextTableOid (db_cat db))" "oids_left (cm_nextColumnOid (db_cat db)) (length [sample_proto])"
    by (simp_all add: db oids_left_def)
  have "\<not> blank ''t''" by (simp add: blank_def runes_of_ascii IsSpace_def)
  then obtain table db' where "CreateTable ''t'' [sample_proto] db = (Ok table, db')" "fluid (db_pool db')"
    using CreateTable_live [OF _ db(1) left, of "''t''"] cat_reach_inv [OF db(2)] db(3) by (auto simp: sample_proto_def)
  then show thesis using that [of db table db'] db cat_reach.create_table [OF db(2) left] by blast
qed

theorem catalog_survives_restart_witness:
  "\<exists>db b db'. cat_reach ''d'' db
    \<and> NewHeapBufferPoolManager 1 (Some (LRU NewLRUReplacer)) ''d'' (bp_disk (db_pool db)) = Ok b
    \<and> NewDefaultCatalogManager ''d'' b = (Ok (), db') \<and> db_cat db' = db_cat db"
proof -
  obtain db where db: "cat_reach ''d'' db" "fluid (db_pool db)" using sample_created by metis
  obtain b where b: "NewHeapBufferPoolManager 1 (Some (LRU NewLRUReplacer)) ''d'' (bp_disk (db_pool db)) = Ok b"
    by (simp add: NewHeapBufferPoolManager_def)
  have "\<exists>db'. NewDefaultCatalogManager ''d'' b = (Ok (), db') \<and> db_cat db' = db_cat db"
    by (rule catalog_survives_restart [OF db(1) _ b]) (use db(2) in \<open>simp_all add: fluid_def fresh_replacer_def\<close>)
  then show ?thesis using db(1) b by blast
qed

theorem CreateTable_visible_witness:
  "\<exists>db table db'. CreateTable ''t'' [sample_proto] db = (Ok table, db')
    \<and> GetTable ''t'' (db_cat db') = Ok (Some table)
    \<and> GetColumns table (db_cat db') = Ok (new_columns 1 (tb_oid table) 0 [sample_proto])"
proof -
  obtain db table db' where s: "cat_reach ''d'' db" "cm_nextTableOid (db_cat db) = 1" "cm_nextColumnOid (db_cat db) = 1"
      "CreateTable ''t'' [sample_proto] db = (Ok table, db')"
    using sample_created by metis
  have "oids_left (cm_nextColumnOid (db_cat db)) (length [sample_proto])" "0 < sint (cm_nextTableOid (db_cat db))"
    by (simp_all add: s oids_left_def)
  from CreateTable_visible [OF s(1) this(2,1) s(4)] show ?thesis using s(3,4) by metis
qed

theorem CreateTable_progress_witness:
  "\<exists>db. cat_reach ''d'' db \<and> (\<exists>table db'. CreateTable ''t'' [sample_proto] db = (Ok table, db')
    \<and> cat_reach ''d'' db' \<and> fluid (db_pool db'))"
proof -
  obtain db where db: "fluid (db_pool db)" "cat_reach ''d'' db" "cm_tablesByName (db_cat db) = []"
      "cm_nextTableOid (db_cat db) = 1" "cm_nextColumnOid (db_cat db) = 1"
    using sample_first by blast
  have "\<not> blank ''t''" by (simp add: blank_def runes_of_ascii IsSpace_def)
  then have "case GetTable ''t'' (db_cat db) of
      Ok None \<Rightarrow> (\<exists>table db'. CreateTable ''t'' [sample_proto] db = (Ok table, db') \<and> cat_reach ''d'' db' \<and> fluid (db_pool db'))
    | Ok (Some _) \<Rightarrow> CreateTable ''t'' [sample_proto] db = (Err (ErrTableExists ''t''), db)
    | _ \<Rightarrow> False"
    by (intro CreateTable_progress) (use db in \<open>simp_all add: oids_left_def sample_proto_def\<close>)
  then show ?thesis using db(2,3) by (auto simp: GetTable_def)
qed




end
