(* ===== verification/Serializer.thy ===== *)
theory Serializer
  imports Page Utf8
begin

text \<open>
  The tuple serializer of \<open>internal/core/memory/serializer/heap_tuple_serializer.go\<close> and the
  types of \<open>internal/core/memory/model\<close> it works on. An INT64 is eight big-endian bytes; a
  VARCHAR is a length byte followed by at most 255 bytes of text. Go's two handler maps are
  the two branches of each function, an absent key their last branch.
\<close>

text \<open>\<open>DataType\<close> is an open integer type in Go with the two constants below.\<close>

type_synonym DataType = int

definition DT_INT64 :: DataType where "DT_INT64 = 1"
definition DT_VARCHAR :: DataType where "DT_VARCHAR = 2"

record HeapTuple =
  ht_data :: "bytes option"
  ht_type :: DataType

definition int64Bytes :: nat where "int64Bytes = 8"
definition maxVarCharLength :: nat where "maxVarCharLength = 255"

section \<open>Serialising one value\<close>

fun serialize_int64 :: "gvalue \<Rightarrow> HeapTuple result" where
  "serialize_int64 (VInt64 n) = Ok \<lparr>ht_data = Some (be64 n), ht_type = DT_INT64\<rparr>"
| "serialize_int64 v = Err (ErrTypeMismatch v)"

fun serialize_varchar :: "gvalue \<Rightarrow> HeapTuple result" where
  "serialize_varchar (VString str) =
     (let b = bytes_of_string str in
      if length b > maxVarCharLength then Err (ErrVarcharTooLong (length b))
      else Ok \<lparr>ht_data = Some (word_of_nat (length b) # b), ht_type = DT_VARCHAR\<rparr>)"
| "serialize_varchar v = Err (ErrTypeMismatch v)"

definition Serialize :: "gvalue \<Rightarrow> DataType \<Rightarrow> HeapTuple result" where
  "Serialize v dt =
     (if dt = 0 then Err ErrNilType
      else if v = VNil then Err ErrNilValue
      else if dt = DT_INT64 then serialize_int64 v
      else if dt = DT_VARCHAR then serialize_varchar v
      else Err (ErrUnsupportedType dt))"

section \<open>Reading it back\<close>

definition deserialize_int64 :: "bytes \<Rightarrow> gvalue result" where
  "deserialize_int64 bs =
     (if length bs \<noteq> int64Bytes then Err (ErrBadInt64Size (length bs)) else Ok (VInt64 (un64 bs)))"

definition deserialize_varchar :: "bytes \<Rightarrow> gvalue result" where
  "deserialize_varchar bs = (case bs of [] \<Rightarrow> Err ErrVarcharEmpty | b # payload \<Rightarrow>
     let n = unat b in
     if length bs \<noteq> 1 + n then Err (ErrVarcharLenMis n (int (length bs) - 1))
     else if \<not> utf8_valid (map unat payload) then Err ErrInvalidEncoding
     else Ok (VString (string_of_bytes payload)))"

definition Deserialize :: "HeapTuple \<Rightarrow> gvalue result" where
  "Deserialize t = (case ht_data t of None \<Rightarrow> Err ErrTupleDataNil | Some bs \<Rightarrow>
     if ht_type t = 0 then Err ErrNilType
     else if ht_type t = DT_INT64 then deserialize_int64 bs
     else if ht_type t = DT_VARCHAR then deserialize_varchar bs
     else Err (ErrUnsupportedType (ht_type t)))"

section \<open>Typed values\<close>

text \<open>The values a column of a data type can hold: what \<open>Serialize\<close> accepts.\<close>

fun storable :: "DataType \<Rightarrow> gvalue \<Rightarrow> bool" where
  "storable dt (VInt64 n) \<longleftrightarrow> dt = DT_INT64"
| "storable dt (VString s) \<longleftrightarrow> dt = DT_VARCHAR \<and> length s \<le> 255"
| "storable dt _ \<longleftrightarrow> False"

text \<open>The bytes of a storable value in a row.\<close>

fun field_bytes :: "gvalue \<Rightarrow> bytes" where
  "field_bytes (VInt64 n) = be64 n"
| "field_bytes (VString s) = word_of_nat (length s) # bytes_of_string s"
| "field_bytes _ = []"

fun readable :: "gvalue \<Rightarrow> bool" where
  "readable (VString s) = valid_string s"
| "readable _ = True"

lemma map_unat_bytes_of_string: "map unat (bytes_of_string s) = map of_char s"
  by (simp add: bytes_of_string_def unat_of_char_word)

lemma Serialize_storable:
  "storable dt v \<Longrightarrow> Serialize v dt = Ok \<lparr>ht_data = Some (field_bytes v), ht_type = dt\<rparr>"
  by (cases v) (auto simp: Serialize_def DT_INT64_def DT_VARCHAR_def maxVarCharLength_def Let_def)

lemma Serialize_OkD: "Serialize v dt = Ok t \<Longrightarrow> storable dt v"
  by (cases v) (auto simp: Serialize_def maxVarCharLength_def Let_def split: if_splits)

lemma Deserialize_field:
  "storable dt v \<Longrightarrow> readable v \<Longrightarrow> Deserialize \<lparr>ht_data = Some (field_bytes v), ht_type = dt\<rparr> = Ok v"
  by (cases v) (auto simp: Deserialize_def deserialize_int64_def deserialize_varchar_def
      DT_INT64_def DT_VARCHAR_def int64Bytes_def Let_def unat_of_nat map_unat_bytes_of_string
      valid_string_def)

lemma Deserialize_unreadable:
  "storable dt v \<Longrightarrow> \<not> readable v
    \<Longrightarrow> Deserialize \<lparr>ht_data = Some (field_bytes v), ht_type = dt\<rparr> = Err ErrInvalidEncoding"
  by (cases v) (auto simp: Deserialize_def deserialize_varchar_def
      DT_INT64_def DT_VARCHAR_def Let_def unat_of_nat map_unat_bytes_of_string valid_string_def)

section \<open>Properties\<close>

text \<open>Every value that Serialize accepts and whose text is valid UTF-8 is what Deserialize returns
  for the tuple, and the tuple carries the data type asked for.\<close>

lemma Serialize_roundtrip:
  assumes "Serialize v dt = Ok t" and "readable v"
  shows "Deserialize t = Ok v \<and> ht_type t = dt"
  using Serialize_OkD [OF assms(1)] Serialize_storable [of dt v] Deserialize_field [of dt v] assms by auto

text \<open>Serialize succeeds exactly on the INT64 values for INT64 and the strings of at most 255 bytes
  for VARCHAR, with 8 bytes, or one length byte more than the text.\<close>

lemma Serialize_accepts:
  "(\<exists>t. Serialize v dt = Ok t \<and> (\<exists>bs. ht_data t = Some bs \<and> length bs =
      (case v of VString s \<Rightarrow> 1 + length s | _ \<Rightarrow> 8))) \<longleftrightarrow> storable dt v"
proof
  assume "storable dt v"
  then show "\<exists>t. Serialize v dt = Ok t \<and> (\<exists>bs. ht_data t = Some bs \<and> length bs =
      (case v of VString s \<Rightarrow> 1 + length s | _ \<Rightarrow> 8))"
    using Serialize_storable [of dt v] by (cases v) auto
qed (auto dest: Serialize_OkD)

text \<open>C36: a string of at most 255 bytes that is not valid UTF-8 is accepted by Serialize, but the
  stored value can never be read back.\<close>

theorem Serialize_accepts_unreadable:
  assumes "length s \<le> 255" and "\<not> valid_string s"
  shows "\<exists>t. Serialize (VString s) DT_VARCHAR = Ok t \<and> Deserialize t = Err ErrInvalidEncoding"
  using Serialize_storable [of DT_VARCHAR "VString s"] Deserialize_unreadable [of DT_VARCHAR "VString s"] assms
  by simp

theorem Serialize_accepts_unreadable_witness:
  "\<exists>t. Serialize (VString [CHR 0xFF]) DT_VARCHAR = Ok t \<and> Deserialize t = Err ErrInvalidEncoding"
  by (rule Serialize_accepts_unreadable) (simp_all add: valid_string_def, code_simp)

end
