(* ===== verification/TableHeap.thy ===== *)
theory TableHeap
  imports CatalogManager Serializer "HOL-Library.Multiset"
begin

text \<open>
  The table heap of \<open>internal/core/storage/table_heap.go\<close>: rows are serialized field by field and stored
  as tuples of the slotted pages of the table's file, through the shared buffer pool. The state is the
  database state of the catalog manager, since types are looked up in the catalog and the page count of
  the table is kept there. A missing type definition is dereferenced by the code and panics, as do values
  or bytes that are missing.
\<close>

section \<open>Tuple identifiers and the heap\<close>

record TID =
  tid_pageID :: int32
  tid_slotID :: int16

definition NewTID :: "int32 \<Rightarrow> int16 \<Rightarrow> TID" where
  "NewTID pageID slotID = \<lparr>tid_pageID = pageID, tid_slotID = slotID\<rparr>"

record TableHeap =
  th_root :: string
  th_table :: TableDefinition
  th_columns :: "ColumnDefinition list"

definition NewTableHeap :: "string \<Rightarrow> TableDefinition \<Rightarrow> Catalog \<Rightarrow> TableHeap result" where
  "NewTableHeap root table c = bind_result (GetColumns table c) (\<lambda>columns.
     Ok \<lparr>th_root = root, th_table = table, th_columns = columns\<rparr>)"

definition heap_pageKey :: "TableHeap \<Rightarrow> int \<Rightarrow> PageKey" where
  "heap_pageKey heap pageID = NewPageKey (tb_fileNode (th_table heap)) pageID"

section \<open>Rows as bytes\<close>

text \<open>\<open>strings.TrimRight\<close>, \<open>strings.TrimSpace\<close> and \<open>strings.ToUpper\<close> on runes. The result is only
  compared with ASCII texts, so only the runes whose upper case is ASCII matter: besides the letters, the
  dotless i and the long s.\<close>

definition trim_right :: "(rune \<Rightarrow> bool) \<Rightarrow> rune list \<Rightarrow> rune list" where
  "trim_right P rs = rev (dropWhile P (rev rs))"

definition upper_rune :: "rune \<Rightarrow> rune" where
  "upper_rune r = (if 97 \<le> r \<and> r \<le> 122 then r - 32 else if r = 0x131 then 73 else if r = 0x17F then 83 else r)"

definition ascii_runes :: "string \<Rightarrow> rune list" where
  "ascii_runes s = map of_char s"

definition typeNameToDataType :: "string \<Rightarrow> DataType" where
  "typeNameToDataType name =
     (let normalized = map upper_rune (trim_right IsSpace (dropWhile IsSpace (trim_right (\<lambda>r. r = 0) (runes_of_string name)))) in
      if normalized = ascii_runes ''INT64'' \<or> normalized = ascii_runes ''INT'' \<or> normalized = ascii_runes ''INTEGER'' then DT_INT64
      else if normalized = ascii_runes ''VARCHAR'' then DT_VARCHAR
      else 0)"

definition getFieldLength :: "DataType \<Rightarrow> bytes \<Rightarrow> nat result" where
  "getFieldLength dt data =
     (if dt = DT_INT64 then Ok 8
      else if dt = DT_VARCHAR then (case data of [] \<Rightarrow> Panic | b # _ \<Rightarrow> Ok (1 + unat b))
      else Ok 0)"

text \<open>The head of both loops: look up the type of a column; \<open>typeDef.Name()\<close> of a nil pointer panics.\<close>

definition column_DataType :: "Catalog \<Rightarrow> ColumnDefinition \<Rightarrow> DataType result" where
  "column_DataType c col =
     bind_result (GetTypeByOid (co_typeOid col) c) (\<lambda>typeDef. case typeDef of None \<Rightarrow> Panic | Some ty \<Rightarrow>
       let dt = typeNameToDataType (ty_name ty) in
       if dt = 0 then Err (ErrUnknownTypeName (ty_name ty) (ty_oid ty)) else Ok dt)"

text \<open>The loop over the columns; \<open>values[i]\<close> is the head of the values that are left.\<close>

fun serialize_fields :: "Catalog \<Rightarrow> ColumnDefinition list \<Rightarrow> gvalue list \<Rightarrow> bytes result" where
  "serialize_fields c [] values = Ok []"
| "serialize_fields c (col # cols) values =
     bind_result (column_DataType c col) (\<lambda>dt.
     case values of [] \<Rightarrow> Panic | v # vs \<Rightarrow>
     bind_result (Serialize v dt) (\<lambda>tuple.
     bind_result (serialize_fields c cols vs) (\<lambda>rest.
     Ok ((case ht_data tuple of None \<Rightarrow> [] | Some d \<Rightarrow> d) @ rest))))"

text \<open>The slice starts as nil and stays nil when nothing is appended.\<close>

definition serializeRow :: "TableHeap \<Rightarrow> Catalog \<Rightarrow> gvalue list \<Rightarrow> bytes option result" where
  "serializeRow heap c values = bind_result (serialize_fields c (th_columns heap) values)
     (\<lambda>data. Ok (if data = [] then None else Some data))"

text \<open>The loop over the columns, with \<open>data\<close> the bytes from the offset on.\<close>

fun deserialize_fields :: "Catalog \<Rightarrow> ColumnDefinition list \<Rightarrow> bytes \<Rightarrow> gvalue list result" where
  "deserialize_fields c [] data = Ok []"
| "deserialize_fields c (col # cols) data =
     bind_result (column_DataType c col) (\<lambda>dt.
     bind_result (getFieldLength dt data) (\<lambda>len.
     if len > length data then Panic
     else bind_result (Deserialize \<lparr>ht_data = Some (take len data), ht_type = dt\<rparr>) (\<lambda>v.
       bind_result (deserialize_fields c cols (drop len data)) (\<lambda>row. Ok (v # row)))))"

definition deserializeRow :: "TableHeap \<Rightarrow> Catalog \<Rightarrow> bytes \<Rightarrow> gvalue list result" where
  "deserializeRow heap c data = deserialize_fields c (th_columns heap) data"

section \<open>Operations\<close>

text \<open>The opening of every operation: fetch the page and view its buffer as a heap page. The buffer is
  shared with the slot; the writer hands the changed page to \<open>UpdatePage\<close>, which cannot fail for a page
  that is in the pool.\<close>

definition load_page :: "TableHeap \<Rightarrow> int \<Rightarrow> (Db, HeapPage) prog" where
  "load_page heap pageID =
     on_pool (seq (GetPage (heap_pageKey heap pageID)) (\<lambda>slot.
       seq (slot_Page slot) (\<lambda>pg. lift_result (NewHeapPageFromBuffer pageID (Some (hp_buf pg))))))"

text \<open>The loop over the pages from \<open>i\<close> on, \<open>n\<close> of them: pages that cannot be loaded are skipped.\<close>

fun scan_pages :: "TableHeap \<Rightarrow> nat \<Rightarrow> nat \<Rightarrow> (Db, TID list) prog" where
  "scan_pages heap i 0 = pure []"
| "scan_pages heap i (Suc n) = (\<lambda>db. case load_page heap (int i) db of
     (Ok heapPage, db1) \<Rightarrow>
       seq (lift_result (page_Size heapPage)) (\<lambda>slotCount.
       seq (scan_pages heap (i + 1) n) (\<lambda>rest.
       pure (map (\<lambda>slotID. NewTID (word_of_nat i) (word_of_nat slotID)) [0..<slotCount] @ rest))) db1
   | (Err _, db1) \<Rightarrow> scan_pages heap (i + 1) n db1
   | (Panic, db1) \<Rightarrow> (Panic, db1))"

definition ScanTids :: "TableHeap \<Rightarrow> (Db, TID list) prog" where
  "ScanTids heap = scan_pages heap 0 (nat (sint (tb_pagesCount (th_table heap))))"

definition ReadRow :: "TableHeap \<Rightarrow> TID \<Rightarrow> (Db, gvalue list) prog" where
  "ReadRow heap tid =
     seq (load_page heap (sint (tid_pageID tid))) (\<lambda>heapPage.
     seq (lift_result (page_Read heapPage (sint (tid_slotID tid)))) (\<lambda>data db.
     (deserializeRow heap (db_cat db) data, db)))"

definition tryInsertIntoPage :: "TableHeap \<Rightarrow> nat \<Rightarrow> bytes option \<Rightarrow> (Db, TID) prog" where
  "tryInsertIntoPage heap pageID data =
     seq (load_page heap (int pageID)) (\<lambda>heapPage.
     seq (lift_result (page_Size heapPage)) (\<lambda>slotID.
     seq (lift_result (page_Write heapPage data)) (\<lambda>heapPage'.
     seq (on_pool (UpdatePage (heap_pageKey heap (int pageID)) (Some heapPage'))) (\<lambda>_.
     pure (NewTID (word_of_nat pageID) (word_of_nat slotID))))))"

definition insertIntoNewPage :: "TableHeap \<Rightarrow> bytes option \<Rightarrow> (Db, TID) prog" where
  "insertIntoNewPage heap data = (let pageID = sint (tb_pagesCount (th_table heap)) in
     seq (lift_result (NewHeapPage pageID)) (\<lambda>newPage.
     seq (lift_result (page_Write newPage data)) (\<lambda>newPage'.
     seq (on_pool (NewPage (heap_pageKey heap pageID) (Some newPage'))) (\<lambda>_.
     seq (UpdatePagesCount (th_table heap) (word_of_int (pageID + 1))) (\<lambda>_.
     pure (NewTID (word_of_int pageID) 0))))))"

text \<open>The loop of \<open>InsertRow\<close>: the first page that takes the row.\<close>

fun insert_into_pages :: "TableHeap \<Rightarrow> nat \<Rightarrow> nat \<Rightarrow> bytes option \<Rightarrow> (Db, TID) prog" where
  "insert_into_pages heap i 0 data = insertIntoNewPage heap data"
| "insert_into_pages heap i (Suc n) data = (\<lambda>db. case tryInsertIntoPage heap i data db of
     (Ok tid, db1) \<Rightarrow> (Ok tid, db1)
   | (Err _, db1) \<Rightarrow> insert_into_pages heap (i + 1) n data db1
   | (Panic, db1) \<Rightarrow> (Panic, db1))"

definition InsertRow :: "TableHeap \<Rightarrow> gvalue list \<Rightarrow> (Db, TID) prog" where
  "InsertRow heap values db = (case serializeRow heap (db_cat db) values of
     Ok data \<Rightarrow> insert_into_pages heap 0 (nat (sint (tb_pagesCount (th_table heap)))) data db
   | Err e \<Rightarrow> (Err e, db)
   | Panic \<Rightarrow> (Panic, db))"

section \<open>Round trip of a row\<close>

text \<open>The row fits the columns: one storable value per column.\<close>

fun fits :: "Catalog \<Rightarrow> ColumnDefinition list \<Rightarrow> gvalue list \<Rightarrow> bool" where
  "fits c [] vs \<longleftrightarrow> vs = []"
| "fits c (col # cols) vs \<longleftrightarrow> (case vs of [] \<Rightarrow> False | v # vs' \<Rightarrow>
     (\<exists>dt. column_DataType c col = Ok dt \<and> storable dt v) \<and> fits c cols vs')"

definition row_bytes :: "gvalue list \<Rightarrow> bytes" where
  "row_bytes vs = concat (map field_bytes vs)"

lemma serialize_fits: "fits c cols vs \<Longrightarrow> serialize_fields c cols vs = Ok (row_bytes vs)"
  by (induction c cols vs rule: fits.induct) (auto simp: row_bytes_def Serialize_storable split: list.splits)

lemma field_length: "storable dt v \<Longrightarrow> getFieldLength dt (field_bytes v @ rest) = Ok (length (field_bytes v))"
  by (cases v) (auto simp: getFieldLength_def DT_INT64_def DT_VARCHAR_def unat_of_nat)

lemma deserialize_fits:
  "fits c cols vs \<Longrightarrow> \<forall>v \<in> set vs. readable v \<Longrightarrow> deserialize_fields c cols (row_bytes vs) = Ok vs"
  by (induction c cols vs rule: fits.induct)
    (auto simp: row_bytes_def field_length Deserialize_field split: list.splits)

section \<open>Pages of the heap\<close>

text \<open>A stored page: dropping its slot loses nothing, and it is a well-formed page with these tuples.\<close>

definition page_tuples :: "Pool \<Rightarrow> PageKey \<Rightarrow> bytes list \<Rightarrow> bool" where
  "page_tuples b k ts \<longleftrightarrow> safe b k \<and> (\<exists>buf. pool_view b k = Some buf \<and> page_inv (as_page buf) \<and> page_records (as_page buf) = ts)"

lemma page_tuples_keeps: "pool_keeps b b' \<Longrightarrow> page_tuples b k ts \<Longrightarrow> page_tuples b' k ts"
  using pool_keepsD(5,6) by (fastforce simp: page_tuples_def)

lemma page_tuples_length: "page_tuples b k ts \<Longrightarrow> length ts \<le> 2045"
  by (auto simp: page_tuples_def length_page_records dest: page_inv_count)

lemma load_page_spec:
  assumes inv: "pool_inv (db_pool db)" and run: "load_page heap i db = (r, db')"
  shows "db_cat db' = db_cat db" and "pool_keeps (db_pool db) (db_pool db')" and "r \<noteq> Panic"
    and "r = Ok p \<Longrightarrow> page_tuples (db_pool db) (heap_pageKey heap i) ts
      \<Longrightarrow> page_inv p \<and> page_records p = ts \<and> hp_pageID p = i \<and> bp_lookup (db_pool db') (heap_pageKey heap i) \<noteq> None"
    and "fluid (db_pool db) \<Longrightarrow> page_tuples (db_pool db) (heap_pageKey heap i) ts \<Longrightarrow> is_ok r \<and> fluid (db_pool db')"
proof -
  let ?k = "heap_pageKey heap i"
  obtain r1 b1 where g: "getPageLocked ?k (db_pool db) = (r1, b1)" by force
  note k = getPageLocked_keeps [OF inv g]
  have load: "load_page heap i db = (case r1 of
      Ok s \<Rightarrow> (NewHeapPageFromBuffer i (Some (hp_buf (bs_page (bp_store b1 s)))), db\<lparr>db_pool := b1\<rparr>)
    | Err e \<Rightarrow> (Err e, db\<lparr>db_pool := b1\<rparr>) | Panic \<Rightarrow> (Panic, db\<lparr>db_pool := b1\<rparr>))"
    by (cases r1) (simp_all add: load_page_def on_pool_def GetPage_def g seq_def slot_Page_def lift_result_def)
  then have db': "db' = db\<lparr>db_pool := b1\<rparr>" using run by (auto split: result.splits)
  then show "db_cat db' = db_cat db" "pool_keeps (db_pool db) (db_pool db')" using k(1) by simp_all
  have ok: "NewHeapPageFromBuffer i (Some (hp_buf (bs_page (bp_store b1 s)))) = Ok \<lparr>hp_pageID = i, hp_buf = hp_buf (bs_page (bp_store b1 s))\<rparr>"
    if "r1 = Ok s" for s
    using slot_okD(4) [OF pool_invD(5) [OF pool_keepsD(1) [OF k(1)] k(3) [OF that]]]
    by (simp add: NewHeapPageFromBuffer_def valid_buf_IsValid valid_buf_length)
  then show "r \<noteq> Panic" using load run k(2) by (auto split: result.splits)
  show "page_inv p \<and> page_records p = ts \<and> hp_pageID p = i \<and> bp_lookup (db_pool db') ?k \<noteq> None"
    if r: "r = Ok p" and t: "page_tuples (db_pool db) ?k ts"
  proof -
    obtain s where s: "r1 = Ok s" "p = \<lparr>hp_pageID = i, hp_buf = hp_buf (bs_page (bp_store b1 s))\<rparr>"
      using r run load ok by (cases r1) auto
    then show ?thesis
      using page_tuples_keeps [OF k(1) t] k(3) [OF s(1)] page_any_id [of p] by (auto simp: page_tuples_def pool_view_def db')
  qed
  show "is_ok r \<and> fluid (db_pool db')" if f: "fluid (db_pool db)" and t: "page_tuples (db_pool db) ?k ts"
  proof -
    have "is_ok (fst (getPageLocked ?k (db_pool db)))"
      using t fluid_room [OF inv f] f by (intro getPageLocked_live [OF inv]) (auto simp: fluid_def page_tuples_def)
    then obtain s where s: "r1 = Ok s" using g by (cases r1) auto
    have "fluid b1"
      using f k(4) s getPage_pins [OF inv g] pool_keepsD(4) [OF k(1)] by (auto simp: fluid_def healthy_def)
    then show ?thesis using s load run ok by (auto simp: db')
  qed
qed

lemma load_page_buf:
  assumes inv: "pool_inv (db_pool db)" and run: "load_page heap i db = (Ok p, db')" and "safe (db_pool db) (heap_pageKey heap i)"
    and "pool_view (db_pool db) (heap_pageKey heap i) = Some buf"
  shows "hp_buf p = buf"
proof -
  let ?k = "heap_pageKey heap i"
  obtain s b1 where g: "getPageLocked ?k (db_pool db) = (Ok s, b1)"
    and p: "NewHeapPageFromBuffer i (Some (hp_buf (bs_page (bp_store b1 s)))) = Ok p"
    using run by (auto simp: load_page_def on_pool_def GetPage_def seq_Ok_iff slot_Page_def lift_result_def split: prod.splits)
  note k = getPageLocked_keeps [OF inv g]
  have "hp_buf p = hp_buf (bs_page (bp_store b1 s))"
    using p by (auto simp: NewHeapPageFromBuffer_def Let_def bind_result_Ok split: if_splits)
  then show ?thesis using pool_keepsD(6) [OF k(1) assms(3)] k(3) [of s] assms(4) by (simp add: pool_view_def)
qed

lemma page_free_any_id: "page_free p = page_free (as_page (hp_buf p))"
  by (simp add: page_free_def pg_lower_def pg_upper_def)

lemma UpdatePage_present:
  assumes inv: "pool_inv b" and p: "page_for k p" and at: "bp_lookup b k \<noteq> None" and up: "UpdatePage k (Some p) b = (r, b')"
  shows "r = Ok ()" and "fluid b \<Longrightarrow> fluid b'"
proof -
  obtain s where s: "bp_lookup b k = Some s" using at by blast
  then show r: "r = Ok ()" using up by (auto simp: UpdatePage_def slot_or_load_def seq_def)
  have b': "b' = touch s (set_slot s ((bp_store b s)\<lparr>bs_page := p, bs_dirty := True\<rparr>) b)"
    using up s by (auto simp: UpdatePage_def slot_or_load_def seq_def)
  have "\<not> is_pinned b' j" if "fluid b" for j
    using that s by (auto simp: b' is_pinned_def fluid_def split: if_splits)
  then show "fluid b'" if "fluid b"
    using that UpdatePage_props(1,6) [OF inv p up] r pool_setsD(6) by (fastforce simp: fluid_def healthy_def)
qed

section \<open>Inserting into an existing page\<close>

abbreviation heap_file :: "TableHeap \<Rightarrow> string" where
  "heap_file heap \<equiv> tb_fileNode (th_table heap)"

text \<open>What \<open>tryInsertIntoPage\<close> does: the tuple goes to the end of the page, or nothing changes.\<close>

definition page_added :: "PageKey \<Rightarrow> bytes list \<Rightarrow> bytes \<Rightarrow> Pool \<Rightarrow> Pool \<Rightarrow> bool" where
  "page_added k ts d b b' \<longleftrightarrow> pool_sets k b b' \<and> page_tuples b' k (ts @ [d])"

lemma tryInsert_spec:
  assumes inv: "pool_inv (db_pool db)" and t: "page_tuples (db_pool db) (heap_pageKey heap (int i)) ts"
    and run: "tryInsertIntoPage heap i (Some d) db = (r, db')"
  shows "db_cat db' = db_cat db" and "r \<noteq> Panic"
    and "r = Ok tid \<Longrightarrow> tid = NewTID (word_of_nat i) (word_of_nat (length ts))
      \<and> page_added (heap_pageKey heap (int i)) ts d (db_pool db) (db_pool db')"
    and "\<not> is_ok r \<Longrightarrow> pool_keeps (db_pool db) (db_pool db')"
    and "fluid (db_pool db) \<Longrightarrow> fluid (db_pool db')"
    and "fluid (db_pool db) \<Longrightarrow> pool_view (db_pool db) (heap_pageKey heap (int i)) = Some buf
      \<Longrightarrow> 4 + length d \<le> page_free (as_page buf) \<Longrightarrow> is_ok r"
proof -
  let ?k = "heap_pageKey heap (int i)" and ?b = "db_pool db"
  obtain r1 db1 where l: "load_page heap (int i) db = (r1, db1)" by force
  note s = load_page_spec [OF inv l]
  have "db_cat db' = db_cat db \<and> r \<noteq> Panic
    \<and> (r = Ok tid \<longrightarrow> tid = NewTID (word_of_nat i) (word_of_nat (length ts)) \<and> page_added ?k ts d ?b (db_pool db'))
    \<and> (\<not> is_ok r \<longrightarrow> pool_keeps ?b (db_pool db')) \<and> (fluid ?b \<longrightarrow> fluid (db_pool db'))
    \<and> (fluid ?b \<longrightarrow> pool_view ?b ?k = Some buf \<longrightarrow> 4 + length d \<le> page_free (as_page buf) \<longrightarrow> is_ok r)" (is ?P)
  proof (cases r1)
    case (Ok p)
    have p: "page_inv p" "page_records p = ts" "hp_pageID p = int i" "bp_lookup (db_pool db1) ?k \<noteq> None"
      using s(4) [OF Ok t] by auto
    have size: "page_Size p = Ok (length ts)" using page_Size_inv [OF p(1)] length_page_records [of p] p(2) by simp
    have fl: "fluid (db_pool db1)" if "fluid ?b" using s(5) [OF that t] by simp
    show ?P
    proof (cases "page_room p d")
      case True
      obtain p' where w: "page_Write p (Some d) = Ok p'" "page_inv p'" "page_records p' = ts @ [d]" "hp_pageID p' = int i"
        using page_Write_fits [OF True] p by auto
      obtain r2 b2 where u: "UpdatePage ?k (Some p') (db_pool db1) = (r2, b2)" by force
      have pf: "page_for ?k p'" using w by (simp add: heap_pageKey_def page_for_inv)
      note inv1 = pool_keepsD(1) [OF s(2)]
      note up = UpdatePage_props [OF inv1 pf u] and pres = UpdatePage_present [OF inv1 pf p(4) u]
      have r: "r = Ok (NewTID (word_of_nat i) (word_of_nat (length ts)))" "db' = db1\<lparr>db_pool := b2\<rparr>"
        using run l Ok size w(1) u pres(1)
        by (simp_all add: tryInsertIntoPage_def seq_def lift_result_def on_pool_def pure_def)
      have "page_tuples b2 ?k (ts @ [d])"
        using up(3) pres(1) w(2,3) page_any_id [of p'] by (auto simp: page_tuples_def)
      moreover have "pool_sets ?k ?b b2" using pool_keeps_sets [OF s(2)] up(1) by (rule pool_sets_trans)
      ultimately show ?P using r s(1) fl pres(2) by (auto simp: page_added_def)
    next
      case False
      then have "page_Write p (Some d) = Err (PErrNoSpace (slotSize + length d) (int (pg_upper p) - int (pg_lower p)))"
        using p(1) by (intro page_Write_full) (auto simp: page_room_def)
      then have r: "r = Err (PErrNoSpace (slotSize + length d) (int (pg_upper p) - int (pg_lower p)))" "db' = db1"
        using run l Ok size by (simp_all add: tryInsertIntoPage_def seq_def lift_result_def)
      have "hp_buf p = buf" if "pool_view ?b ?k = Some buf"
        using load_page_buf [OF inv l [unfolded Ok]] t that by (simp add: page_tuples_def)
      then have "\<not> 4 + length d \<le> page_free (as_page buf)" if "pool_view ?b ?k = Some buf"
        using False p(1) that page_free_any_id [of p] by (auto simp: page_room_def slotSize_def)
      then show ?P using r s(1,2) fl by auto
    qed
  next
    case (Err e)
    then have "r = Err e" "db' = db1" using run l by (simp_all add: tryInsertIntoPage_def seq_def)
    then show ?P using s(1,2) s(5) [OF _ t] Err by auto
  next
    case Panic
    then show ?P using s(3) by simp
  qed
  then show "db_cat db' = db_cat db" "r \<noteq> Panic"
    "r = Ok tid \<Longrightarrow> tid = NewTID (word_of_nat i) (word_of_nat (length ts)) \<and> page_added ?k ts d ?b (db_pool db')"
    "\<not> is_ok r \<Longrightarrow> pool_keeps ?b (db_pool db')" "fluid ?b \<Longrightarrow> fluid (db_pool db')"
    "fluid ?b \<Longrightarrow> pool_view ?b ?k = Some buf \<Longrightarrow> 4 + length d \<le> page_free (as_page buf) \<Longrightarrow> is_ok r"
    by simp_all
qed

section \<open>The content of a heap\<close>

text \<open>The pages of the table, each with its tuples, and the identifiers of all tuples in scan order.\<close>

definition heap_pages :: "TableHeap \<Rightarrow> Pool \<Rightarrow> bytes list list \<Rightarrow> bool" where
  "heap_pages heap b tss \<longleftrightarrow> length tss = nat (sint (tb_pagesCount (th_table heap)))
     \<and> (\<forall>i < length tss. page_tuples b (heap_pageKey heap (int i)) (tss ! i))"

fun tuples_from :: "nat \<Rightarrow> bytes list list \<Rightarrow> (TID \<times> bytes) list" where
  "tuples_from i [] = []"
| "tuples_from i (ts # tss) =
     map (\<lambda>j. (NewTID (word_of_nat i) (word_of_nat j), ts ! j)) [0..<length ts] @ tuples_from (i + 1) tss"

lemma heap_pagesD:
  assumes "heap_pages heap b tss"
  shows "length tss = nat (sint (tb_pagesCount (th_table heap)))" and "length tss < 2 ^ 31"
    and "i < length tss \<Longrightarrow> page_tuples b (heap_pageKey heap (int i)) (tss ! i)"
    and "i < length tss \<Longrightarrow> length (tss ! i) \<le> 2045"
proof -
  show "length tss = nat (sint (tb_pagesCount (th_table heap)))" and *: "i < length tss \<Longrightarrow> page_tuples b (heap_pageKey heap (int i)) (tss ! i)"
    using assms by (simp_all add: heap_pages_def)
  show "length tss < 2 ^ 31" using assms sint_lt [of "tb_pagesCount (th_table heap)"] by (simp add: heap_pages_def)
  show "i < length tss \<Longrightarrow> length (tss ! i) \<le> 2045"
    by (rule page_tuples_length [OF *])
qed

lemma heap_pages_keeps: "pool_keeps b b' \<Longrightarrow> heap_pages heap b tss \<Longrightarrow> heap_pages heap b' tss"
  using page_tuples_keeps by (auto simp: heap_pages_def)

lemma heap_key_inj [simp]: "heap_pageKey heap i = heap_pageKey heap j \<longleftrightarrow> i = j"
  by (simp add: heap_pageKey_def NewPageKey_def)

lemma heap_pages_added:
  assumes "heap_pages heap b tss" and "i < length tss" and "page_added (heap_pageKey heap (int i)) (tss ! i) d b b'"
  shows "heap_pages heap b' (tss[i := tss ! i @ [d]])"
proof -
  have "page_tuples b' (heap_pageKey heap (int j)) (tss ! j)" if "j < length tss" "j \<noteq> i" for j
    using assms that pool_setsD(2,3) [of "heap_pageKey heap (int i)" b b' "heap_pageKey heap (int j)"]
    by (auto simp: heap_pages_def page_added_def page_tuples_def)
  then show ?thesis using assms by (auto simp: heap_pages_def page_added_def nth_list_update)
qed

lemma sint_of_nat16: "n < 2 ^ 15 \<Longrightarrow> sint (word_of_nat n :: int16) = int n"
  by (simp add: signed_of_nat signed_take_bit_int_eq_self)

lemma tuples_from_mem:
  "(tid, d) \<in> set (tuples_from i tss) \<Longrightarrow>
   \<exists>k j. k < length tss \<and> j < length (tss ! k) \<and> tid = NewTID (word_of_nat (i + k)) (word_of_nat j) \<and> d = tss ! k ! j"
proof (induction tss arbitrary: i)
  case (Cons ts tss)
  show ?case
  proof (cases "(tid, d) \<in> set (tuples_from (i + 1) tss)")
    case True
    then obtain k j where "k < length tss" "j < length (tss ! k)" "tid = NewTID (word_of_nat (i + 1 + k)) (word_of_nat j)" "d = tss ! k ! j"
      using Cons.IH by blast
    then show ?thesis by (intro exI [of _ "Suc k"] exI [of _ j]) (simp add: algebra_simps)
  next
    case False
    then obtain j where "j < length ts" "tid = NewTID (word_of_nat i) (word_of_nat j)" "d = ts ! j" using Cons.prems by auto
    then show ?thesis by (intro exI [of _ 0] exI [of _ j]) simp
  qed
qed simp

lemma load_heap_page:
  assumes "pool_inv (db_pool db)" and "fluid (db_pool db)" and "heap_pages heap (db_pool db) tss" and "i < length tss"
  obtains p db' where "load_page heap (int i) db = (Ok p, db')" and "page_inv p" and "page_records p = tss ! i"
    and "db_cat db' = db_cat db" and "pool_inv (db_pool db')" and "fluid (db_pool db')" and "heap_pages heap (db_pool db') tss"
    and "pool_keeps (db_pool db) (db_pool db')"
proof -
  obtain r db' where l: "load_page heap (int i) db = (r, db')" by force
  note s = load_page_spec [OF assms(1) l] and t = heap_pagesD(3) [OF assms(3,4)]
  obtain p where p: "r = Ok p" using s(5) [OF assms(2) t] by (cases r) auto
  show thesis
    using that [of p db'] l p s(1,2) s(4) [OF p t] s(5) [OF assms(2) t] pool_keepsD(1) [OF s(2)] heap_pages_keeps [OF s(2) assms(3)]
    by simp
qed

lemma scan_pages_spec:
  assumes "pool_inv (db_pool db)" and "fluid (db_pool db)" and "heap_pages heap (db_pool db) tss" and "i + n = length tss"
  shows "\<exists>db'. scan_pages heap i n db = (Ok (map fst (tuples_from i (drop i tss))), db')
    \<and> db_cat db' = db_cat db \<and> fluid (db_pool db') \<and> pool_keeps (db_pool db) (db_pool db')"
  using assms
proof (induction n arbitrary: i db)
  case (Suc n)
  then have i: "i < length tss" by simp
  obtain p db1 where p: "load_page heap (int i) db = (Ok p, db1)" "page_inv p" "page_records p = tss ! i"
      "db_cat db1 = db_cat db" "pool_inv (db_pool db1)" "fluid (db_pool db1)" "heap_pages heap (db_pool db1) tss"
      "pool_keeps (db_pool db) (db_pool db1)"
    by (rule load_heap_page [OF Suc.prems(1-3) i])
  obtain db' where "scan_pages heap (i + 1) n db1 = (Ok (map fst (tuples_from (i + 1) (drop (i + 1) tss))), db')"
      "db_cat db' = db_cat db1" "fluid (db_pool db')" "pool_keeps (db_pool db1) (db_pool db')"
    using Suc.IH [OF p(5-7), of "i + 1"] Suc.prems(4) by auto
  moreover have "drop i tss = tss ! i # drop (i + 1) tss" using i by (simp add: Cons_nth_drop_Suc)
  moreover have "page_Size p = Ok (length (tss ! i))" using page_Size_inv [OF p(2)] length_page_records [of p] p(3) by simp
  ultimately show ?case
    using p pool_keeps_trans [OF p(8)] by (auto simp: seq_def lift_result_def pure_def)
qed (simp add: pure_def)

lemma ReadRow_spec:
  assumes "pool_inv (db_pool db)" and "fluid (db_pool db)" and "heap_pages heap (db_pool db) tss"
    and "(tid, d) \<in> set (tuples_from 0 tss)"
  shows "\<exists>db'. ReadRow heap tid db = (deserializeRow heap (db_cat db) d, db')
    \<and> db_cat db' = db_cat db \<and> fluid (db_pool db') \<and> pool_keeps (db_pool db) (db_pool db')"
proof -
  obtain i j where ij: "i < length tss" "j < length (tss ! i)" "tid = NewTID (word_of_nat i) (word_of_nat j)" "d = tss ! i ! j"
    using tuples_from_mem [OF assms(4)] by auto
  have w: "sint (tid_pageID tid) = int i" "sint (tid_slotID tid) = int j"
    using ij heap_pagesD(2) [OF assms(3)] heap_pagesD(4) [OF assms(3) ij(1)] by (simp_all add: NewTID_def sint_of_nat32 sint_of_nat16)
  obtain p db1 where p: "load_page heap (int i) db = (Ok p, db1)" "page_inv p" "page_records p = tss ! i"
      "db_cat db1 = db_cat db" "fluid (db_pool db1)" "pool_keeps (db_pool db) (db_pool db1)"
    by (rule load_heap_page [OF assms(1-3) ij(1)])
  have "j < pg_count p" using ij(2) p(3) length_page_records [of p] by simp
  then have "page_Read p (int j) = Ok d" using page_Read_ok [OF p(2)] p(3) ij(4) by simp
  then show ?thesis using p w by (simp add: ReadRow_def seq_def lift_result_def)
qed

lemma tuples_from_add:
  "k < length tss \<Longrightarrow> \<exists>A B. tuples_from i tss = A @ B
    \<and> tuples_from i (tss[k := tss ! k @ [d]]) = A @ (NewTID (word_of_nat (i + k)) (word_of_nat (length (tss ! k))), d) # B"
proof (induction tss arbitrary: i k)
  case (Cons ts tss)
  let ?here = "\<lambda>ts. map (\<lambda>j. (NewTID (word_of_nat i) (word_of_nat j), ts ! j)) [0..<length ts]"
  show ?case
  proof (cases k)
    case 0
    have "?here (ts @ [d]) = ?here ts @ [(NewTID (word_of_nat i) (word_of_nat (length ts)), d)]"
      by (simp add: nth_append)
    then show ?thesis using 0 by (intro exI [of _ "?here ts"] exI [of _ "tuples_from (i + 1) tss"]) simp
  next
    case (Suc m)
    then obtain A B where "tuples_from (i + 1) tss = A @ B" "tuples_from (i + 1) (tss[m := tss ! m @ [d]])
        = A @ (NewTID (word_of_nat (i + 1 + m)) (word_of_nat (length (tss ! m))), d) # B"
      using Cons.IH [of m "i + 1"] Cons.prems by auto
    then show ?thesis using Suc by (intro exI [of _ "?here ts @ A"] exI [of _ B]) simp
  qed
qed simp

lemma insert_pages_spec:
  assumes "pool_inv (db_pool db)" and "fluid (db_pool db)" and "heap_pages heap (db_pool db) tss" and "i + n = length tss"
    and "\<exists>j buf. i \<le> j \<and> j < length tss \<and> pool_view (db_pool db) (heap_pageKey heap (int j)) = Some buf
      \<and> 4 + length d \<le> page_free (as_page buf)"
  shows "\<exists>j db'. j < length tss
    \<and> insert_into_pages heap i n (Some d) db = (Ok (NewTID (word_of_nat j) (word_of_nat (length (tss ! j)))), db')
    \<and> db_cat db' = db_cat db \<and> fluid (db_pool db') \<and> page_added (heap_pageKey heap (int j)) (tss ! j) d (db_pool db) (db_pool db')"
  using assms
proof (induction n arbitrary: i db)
  case (Suc n)
  then have t: "page_tuples (db_pool db) (heap_pageKey heap (int i)) (tss ! i)" using heap_pagesD(3) by simp
  obtain r db1 where l: "tryInsertIntoPage heap i (Some d) db = (r, db1)" by force
  note s = tryInsert_spec [OF Suc.prems(1) t l]
  show ?case
  proof (cases r)
    case (Ok tid)
    then show ?thesis using s(1,3,5) Suc.prems(2,4) l by (intro exI [of _ i]) auto
  next
    case (Err e)
    then have k: "pool_keeps (db_pool db) (db_pool db1)" using s(4) by simp
    have safe: "safe (db_pool db) (heap_pageKey heap (int j))" if "j < length tss" for j
      using heap_pagesD(3) [OF Suc.prems(3) that] by (simp add: page_tuples_def)
    obtain j buf where j: "i \<le> j" "j < length tss" "pool_view (db_pool db) (heap_pageKey heap (int j)) = Some buf"
        "4 + length d \<le> page_free (as_page buf)"
      using Suc.prems(5) by blast
    have "j \<noteq> i" using s(6) [OF Suc.prems(2)] j(3,4) Err by auto
    then have "\<exists>j buf. i + 1 \<le> j \<and> j < length tss \<and> pool_view (db_pool db1) (heap_pageKey heap (int j)) = Some buf
        \<and> 4 + length d \<le> page_free (as_page buf)"
      using j pool_keepsD(6) [OF k safe [OF j(2)]] by (intro exI [of _ j] exI [of _ buf]) auto
    then obtain j' db' where *: "j' < length tss" "insert_into_pages heap (i + 1) n (Some d) db1
          = (Ok (NewTID (word_of_nat j') (word_of_nat (length (tss ! j')))), db')" "db_cat db' = db_cat db1" "fluid (db_pool db')"
        "page_added (heap_pageKey heap (int j')) (tss ! j') d (db_pool db1) (db_pool db')"
      using Suc.IH [OF pool_keepsD(1) [OF k] s(5) [OF Suc.prems(2)] heap_pages_keeps [OF k Suc.prems(3)], of "i + 1"] Suc.prems(4)
      by auto
    have "page_added (heap_pageKey heap (int j')) (tss ! j') d (db_pool db) (db_pool db')"
      using *(5) pool_sets_trans [OF pool_keeps_sets [OF k]] by (simp add: page_added_def)
    then show ?thesis using * s(1) l Err by (intro exI [of _ j']) simp
  next
    case Panic
    then show ?thesis using s(2) by simp
  qed
qed auto

section \<open>A store of rows\<close>

text \<open>
  What the executors rely on: a state represents a list of identified rows; a scan lists the identifiers,
  reading one returns its row, and neither changes the content. A store that can also take rows keeps
  every row when one is added.
\<close>

fun read_all :: "('id \<Rightarrow> ('s, 'row) prog) \<Rightarrow> 'id list \<Rightarrow> ('s, 'row list) prog" where
  "read_all rd [] = pure []"
| "read_all rd (i # ids) = seq (rd i) (\<lambda>row. seq (read_all rd ids) (\<lambda>rows. pure (row # rows)))"

locale row_store =
  fixes rep :: "'s \<Rightarrow> ('id \<times> 'row) list \<Rightarrow> bool"
    and scan :: "('s, 'id list) prog"
    and rd :: "'id \<Rightarrow> ('s, 'row) prog"
  assumes scan_ids: "rep s rows \<Longrightarrow> \<exists>s'. scan s = (Ok (map fst rows), s') \<and> rep s' rows"
    and rd_row: "rep s rows \<Longrightarrow> (i, row) \<in> set rows \<Longrightarrow> \<exists>s'. rd i s = (Ok row, s') \<and> rep s' rows"
begin

lemma read_all_rows:
  assumes "rep s rows" and "set part \<subseteq> set rows"
  shows "\<exists>s'. read_all rd (map fst part) s = (Ok (map snd part), s') \<and> rep s' rows"
  using assms
proof (induction part arbitrary: s)
  case (Cons e part)
  obtain i row where e: "e = (i, row)" by (cases e)
  obtain s1 where s1: "rd i s = (Ok row, s1)" "rep s1 rows" using rd_row [OF Cons.prems(1), of i row] Cons.prems(2) e by auto
  obtain s2 where "read_all rd (map fst part) s1 = (Ok (map snd part), s2)" "rep s2 rows"
    using Cons.IH [OF s1(2)] Cons.prems(2) by auto
  then show ?case using s1(1) e by (simp add: seq_def pure_def)
qed (simp add: pure_def)

lemma scan_reads_all:
  assumes "rep s rows"
  shows "\<exists>s'. seq scan (read_all rd) s = (Ok (map snd rows), s') \<and> rep s' rows"
proof -
  obtain s1 where "scan s = (Ok (map fst rows), s1)" "rep s1 rows" using scan_ids [OF assms] by blast
  then show ?thesis using read_all_rows [of s1 rows rows] by (simp add: seq_def)
qed

end

locale growing_store = row_store rep scan rd
  for rep :: "'s \<Rightarrow> ('id \<times> 'row) list \<Rightarrow> bool" and scan :: "('s, 'id list) prog" and rd :: "'id \<Rightarrow> ('s, 'row) prog" +
  fixes room :: "'s \<Rightarrow> 'row \<Rightarrow> bool"
    and add :: "'row \<Rightarrow> ('s, 'id) prog"
  assumes add_row: "rep s rows \<Longrightarrow> room s row \<Longrightarrow> \<exists>i s' before after. add row s = (Ok i, s')
      \<and> rows = before @ after \<and> rep s' (before @ (i, row) # after)"
begin

lemma add_then_read:
  assumes "rep s rows" and "room s row"
  shows "\<exists>i s'. add row s = (Ok i, s') \<and> (\<exists>s''. rd i s' = (Ok row, s''))
    \<and> (\<exists>rows' s''. seq scan (read_all rd) s' = (Ok rows', s'') \<and> mset rows' = add_mset row (mset (map snd rows)))"
proof -
  obtain i s' before after where a: "add row s = (Ok i, s')" "rows = before @ after" "rep s' (before @ (i, row) # after)"
    using add_row [OF assms] by blast
  obtain s2 where "rd i s' = (Ok row, s2)" using rd_row [OF a(3)] by auto
  moreover obtain s3 where "seq scan (read_all rd) s' = (Ok (map snd (before @ (i, row) # after)), s3)"
    using scan_reads_all [OF a(3)] by blast
  ultimately show ?thesis using a(1,2) by auto
qed

end

text \<open>The table heap as such a store: the catalog is fixed, every tuple of every page is the encoding of a
  row that fits the columns.\<close>

definition row_ok :: "TableHeap \<Rightarrow> Catalog \<Rightarrow> gvalue list \<Rightarrow> bool" where
  "row_ok heap c vs \<longleftrightarrow> fits c (th_columns heap) vs \<and> (\<forall>v \<in> set vs. readable v)"

definition heap_rep :: "TableHeap \<Rightarrow> Catalog \<Rightarrow> Db \<Rightarrow> (TID \<times> gvalue list) list \<Rightarrow> bool" where
  "heap_rep heap c db rows \<longleftrightarrow> db_cat db = c \<and> pool_inv (db_pool db) \<and> fluid (db_pool db)
     \<and> (\<exists>tss. heap_pages heap (db_pool db) tss \<and> tuples_from 0 tss = map (apsnd row_bytes) rows)
     \<and> (\<forall>e \<in> set rows. row_ok heap c (snd e))"

definition heap_room :: "TableHeap \<Rightarrow> Catalog \<Rightarrow> Db \<Rightarrow> gvalue list \<Rightarrow> bool" where
  "heap_room heap c db vs \<longleftrightarrow> row_ok heap c vs \<and> vs \<noteq> []
     \<and> (\<exists>i buf. i < nat (sint (tb_pagesCount (th_table heap))) \<and> pool_view (db_pool db) (heap_pageKey heap (int i)) = Some buf
        \<and> 4 + length (row_bytes vs) \<le> page_free (as_page buf))"

lemma row_bytes_nonempty: "fits c cols vs \<Longrightarrow> vs \<noteq> [] \<Longrightarrow> row_bytes vs \<noteq> []"
proof -
  assume f: "fits c cols vs" "vs \<noteq> []"
  then obtain v vs' dt where "vs = v # vs'" "storable dt v" by (cases cols; cases vs) auto
  then have "0 < length (row_bytes vs)" by (cases v) (simp_all add: row_bytes_def)
  then show ?thesis by simp
qed

interpretation heap_store: growing_store "heap_rep heap c" "ScanTids heap" "ReadRow heap" "heap_room heap c" "InsertRow heap"
  for heap c
proof unfold_locales
  fix db rows
  assume r: "heap_rep heap c db rows"
  then obtain tss where t: "heap_pages heap (db_pool db) tss" "tuples_from 0 tss = map (apsnd row_bytes) rows"
    and i: "db_cat db = c" "pool_inv (db_pool db)" "fluid (db_pool db)" "\<forall>e \<in> set rows. row_ok heap c (snd e)"
    by (auto simp: heap_rep_def)
  have keep: "heap_rep heap c db' rows" if "db_cat db' = db_cat db" "fluid (db_pool db')" "pool_keeps (db_pool db) (db_pool db')" for db'
    using that t(2) i heap_pages_keeps [OF that(3) t(1)] pool_keepsD(1) [OF that(3)] by (auto simp: heap_rep_def)
  show "\<exists>db'. ScanTids heap db = (Ok (map fst rows), db') \<and> heap_rep heap c db' rows"
    using scan_pages_spec [OF i(2,3) t(1), of 0 "length tss"] t(2) keep heap_pagesD(1) [OF t(1)] by (auto simp: ScanTids_def comp_def)
  show "\<exists>db'. ReadRow heap tid db = (Ok row, db') \<and> heap_rep heap c db' rows" if "(tid, row) \<in> set rows" for tid row
  proof -
    have "(tid, row_bytes row) \<in> set (tuples_from 0 tss)" using that by (force simp: t(2))
    moreover have "deserializeRow heap c (row_bytes row) = Ok row"
      using i(4) that deserialize_fits [of c "th_columns heap" row] by (force simp: row_ok_def deserializeRow_def)
    ultimately show ?thesis using ReadRow_spec [OF i(2,3) t(1)] i(1) keep by metis
  qed
  show "\<exists>tid db' before after. InsertRow heap row db = (Ok tid, db') \<and> rows = before @ after
      \<and> heap_rep heap c db' (before @ (tid, row) # after)" if "heap_room heap c db row" for row
  proof -
    let ?d = "row_bytes row"
    have f: "row_ok heap c row" "row \<noteq> []" using that by (auto simp: heap_room_def)
    have ser: "serializeRow heap (db_cat db) row = Ok (Some ?d)"
      using f serialize_fits [of c "th_columns heap" row] row_bytes_nonempty [of c "th_columns heap" row] i(1)
      by (simp add: serializeRow_def row_ok_def)
    have "\<exists>j buf. 0 \<le> j \<and> j < length tss \<and> pool_view (db_pool db) (heap_pageKey heap (int j)) = Some buf
        \<and> 4 + length ?d \<le> page_free (as_page buf)"
      using that heap_pagesD(1) [OF t(1)] by (auto simp: heap_room_def)
    then obtain j db' where j: "j < length tss" "insert_into_pages heap 0 (length tss) (Some ?d) db
          = (Ok (NewTID (word_of_nat j) (word_of_nat (length (tss ! j)))), db')" "db_cat db' = db_cat db" "fluid (db_pool db')"
        "page_added (heap_pageKey heap (int j)) (tss ! j) ?d (db_pool db) (db_pool db')"
      using insert_pages_spec [OF i(2,3) t(1), of 0 "length tss" ?d] by auto
    let ?tid = "NewTID (word_of_nat j) (word_of_nat (length (tss ! j)))"
    have ins: "InsertRow heap row db = (Ok ?tid, db')" using ser j(2) heap_pagesD(1) [OF t(1)] by (simp add: InsertRow_def)
    obtain A B where ab: "tuples_from 0 tss = A @ B" "tuples_from 0 (tss[j := tss ! j @ [?d]]) = A @ (?tid, ?d) # B"
      using tuples_from_add [OF j(1), of 0 ?d] by auto
    then obtain before after where rows: "rows = before @ after" "A = map (apsnd row_bytes) before" "B = map (apsnd row_bytes) after"
      using t(2) by (auto simp: map_eq_append_conv)
    have "heap_rep heap c db' (before @ (?tid, row) # after)"
      using heap_pages_added [OF t(1) j(1,5)] ab(2) rows i f(1) j(3,4,5)
      by (auto simp: heap_rep_def page_added_def pool_setsD(1))
    then show ?thesis using ins rows(1) by blast
  qed
qed

section \<open>Properties\<close>

lemma serialize_fields_fits:
  "serialize_fields c cols vs = Ok d \<Longrightarrow> length vs = length cols \<Longrightarrow> fits c cols vs"
  by (induction c cols vs arbitrary: d rule: serialize_fields.induct)
    (auto simp: bind_result_Ok Serialize_OkD split: list.splits)

text \<open>C26: a row survives its encoding. When serializeRow accepts one value per column and the texts
  are valid UTF-8, deserializeRow of the bytes returns the same values, whatever the mix of types.\<close>

theorem row_roundtrip:
  assumes "serializeRow heap c vs = Ok (Some data)" and "length vs = length (th_columns heap)" and "\<forall>v \<in> set vs. readable v"
  shows "deserializeRow heap c data = Ok vs"
proof -
  have f: "fits c (th_columns heap) vs" and "data = row_bytes vs"
    using assms(1,2) serialize_fields_fits [of c "th_columns heap" vs] serialize_fits [of c "th_columns heap" vs]
    by (auto simp: serializeRow_def bind_result_Ok split: if_splits)
  then show ?thesis using deserialize_fits [OF f assms(3)] by (simp add: deserializeRow_def)
qed

text \<open>A table scan reads the whole table. In a state whose pages hold these rows, ScanTids followed
  by ReadRow of every identifier returns the rows, in page order, and leaves the table as it was, whatever
  the pool evicts and reloads meanwhile.\<close>

lemma heap_scan_complete:
  assumes "heap_rep heap c db rows"
  shows "\<exists>db'. seq (ScanTids heap) (read_all (ReadRow heap)) db = (Ok (map snd rows), db') \<and> heap_rep heap c db' rows"
  using assms by (rule heap_store.scan_reads_all)

text \<open>C6: an inserted row is there. When the row has at least one value, has for every column one value of the type of
  the column, its texts are valid UTF-8 of at most 255 bytes, and some page of the table has room for it
  (heap_room), then InsertRow succeeds, over a working disk and a pool without pinned pages in which the replacer knows
  every buffered page and every page of the table is dirty or on disk (heap_rep);
  reading the identifier it returns gives the row back, and a scan returns this row and all earlier rows,
  so that the multiset of rows grows by exactly the new one.\<close>

theorem InsertRow_stores:
  assumes "heap_rep heap c db rows" and "heap_room heap c db row"
  shows "\<exists>tid db'. InsertRow heap row db = (Ok tid, db') \<and> (\<exists>db''. ReadRow heap tid db' = (Ok row, db''))
    \<and> (\<exists>rows' db''. seq (ScanTids heap) (read_all (ReadRow heap)) db' = (Ok rows', db'')
        \<and> mset rows' = add_mset row (mset (map snd rows)))"
  using assms by (rule heap_store.add_then_read)

definition sample_catalog :: Catalog where
  "sample_catalog = indexType varchar_type (indexType int64_type (empty_catalog ''d''))"

definition sample_heap :: TableHeap where
  "sample_heap = \<lparr>th_root = ''d'',
     th_table = \<lparr>tb_oid = 1, tb_name = ''t'', tb_typ = ''TABLE'', tb_fileNode = ''t'', tb_pagesCount = 1\<rparr>,
     th_columns = [\<lparr>co_oid = 1, co_tableOid = 1, co_typeOid = 1, co_name = ''id'', co_position = 0\<rparr>,
       \<lparr>co_oid = 2, co_tableOid = 1, co_typeOid = 2, co_name = ''name'', co_position = 1\<rparr>]\<rparr>"

definition sample_row :: "gvalue list" where
  "sample_row = [VInt64 (-7), VString ''ann'']"

definition sample_heap_db :: Db where
  "sample_heap_db = \<lparr>db_cat = sample_catalog, db_pool = sample_pool2\<rparr>"

lemma sample_types:
  "typeNameToDataType ''INT64'' = DT_INT64" "typeNameToDataType ''VARCHAR'' = DT_VARCHAR"
  by (simp_all add: typeNameToDataType_def runes_of_ascii trim_right_def ascii_runes_def upper_rune_def IsSpace_def)

lemma sample_column_types:
  "co_typeOid col = 1 \<Longrightarrow> column_DataType sample_catalog col = Ok DT_INT64"
  "co_typeOid col = 2 \<Longrightarrow> column_DataType sample_catalog col = Ok DT_VARCHAR"
  by (simp_all add: column_DataType_def GetTypeByOid_def sample_catalog_def indexType_def empty_catalog_def int64_type_def
      varchar_type_def sample_types, simp_all add: DT_INT64_def DT_VARCHAR_def)

lemma sample_row_ok: "row_ok sample_heap sample_catalog sample_row"
  by (simp add: row_ok_def sample_row_def sample_heap_def sample_column_types valid_string_def) code_simp

theorem row_roundtrip_witness:
  "deserializeRow sample_heap sample_catalog (be64 (-7) @ [3, 97, 110, 110]) = Ok sample_row"
proof (rule row_roundtrip)
  show "serializeRow sample_heap sample_catalog sample_row = Ok (Some (be64 (-7) @ [3, 97, 110, 110]))"
    using serialize_fits [of sample_catalog "th_columns sample_heap" sample_row] sample_row_ok
    by (simp add: serializeRow_def row_ok_def row_bytes_def sample_row_def bytes_of_string_def)
qed (use sample_row_ok in \<open>simp_all add: row_ok_def, simp_all add: sample_row_def sample_heap_def\<close>)

lemma sample_pool2_fluid: "fluid sample_pool2"
proof (rule UpdatePage_present(2) [OF sample_pool1_inv sample_page_for _ sample_update])
  have disk: "bp_disk sample_pool1 = empty_disk" "bp_table sample_pool1 = [(sample_key 0, 0)]"
    by (simp_all add: sample_pool1_def NewPage_def seq_def ensureSpaceLocked_def add_slot_def Let_def) (simp_all add: sample_pool_def)
  have "complete sample_pool" by (simp add: complete_def sample_pool_def)
  note n = NewPage_props(3,6) [OF sample_pool_inv sample_page_for _ sample_new_page]
  show "fluid sample_pool1"
    using n(1) [OF _ refl] n(2) \<open>complete sample_pool\<close> disk by (auto simp: fluid_def is_pinned_def NewBufferSlot_def split: if_splits)
qed (simp add: sample_pool1_lookup)

lemma sample_heap_rep: "heap_rep sample_heap sample_catalog sample_heap_db []"
  and sample_heap_room: "heap_room sample_heap sample_catalog sample_heap_db sample_row"
proof -
  obtain p where p: "NewHeapPage 0 = Ok p" "page_inv p" "page_records p = []" "pg_lower p = 10" "pg_upper p = 8192"
    using NewHeapPage_ok [of 0] by blast
  then have sp: "sample_page 0 = p" by (simp add: sample_page_def)
  have v: "pool_view sample_pool2 (sample_key 0) = Some (hp_buf p)" "safe sample_pool2 (sample_key 0)"
    using UpdatePage_props(3) [OF sample_pool1_inv sample_page_for sample_update] sp by simp_all
  have k: "heap_pageKey sample_heap 0 = sample_key 0" by (simp add: heap_pageKey_def sample_heap_def sample_key_def)
  have "page_tuples sample_pool2 (sample_key 0) []"
    using v p(2,3) page_any_id [of p] by (simp add: page_tuples_def)
  moreover note sample_pool2_fluid sample_pool2_props(1)
  ultimately show "heap_rep sample_heap sample_catalog sample_heap_db []"
    by (auto simp: heap_rep_def sample_heap_db_def heap_pages_def sample_heap_def intro!: exI [of _ "[[]]"]) (use k in \<open>simp add: sample_heap_def\<close>)
  show "heap_room sample_heap sample_catalog sample_heap_db sample_row"
    using sample_row_ok v(1) k p(4,5) page_free_any_id [of p]
    by (auto simp: heap_room_def sample_heap_db_def sample_row_def row_bytes_def page_free_def sample_heap_def intro!: exI [of _ 0])
qed

theorem InsertRow_stores_witness:
  "\<exists>tid db'. InsertRow sample_heap sample_row sample_heap_db = (Ok tid, db')
    \<and> (\<exists>db''. ReadRow sample_heap tid db' = (Ok sample_row, db''))
    \<and> (\<exists>rows' db''. seq (ScanTids sample_heap) (read_all (ReadRow sample_heap)) db' = (Ok rows', db'') \<and> mset rows' = {#sample_row#})"
  using InsertRow_stores [OF sample_heap_rep sample_heap_room] by simp

end
