(* ===== verification/PagedFile.thy ===== *)
theory PagedFile
  imports CatalogFile
begin

text \<open>
  The pages of one index file as the index code sees them through the pool: a finite map from page
  numbers to buffers. \<open>file_pages F b m n\<close> says that in the pool \<open>b\<close> the pages of \<open>m\<close> can be read,
  with these contents, and are not lost by an eviction, and that no page from \<open>n\<close> on is buffered. Reading
  keeps it, updating changes one page, and a page added at \<open>n\<close> is part of the map once it was
  updated, which the index code does at once. Everything happens by pool operations on this file.
\<close>

abbreviation page_at :: "string \<Rightarrow> nat \<Rightarrow> PageKey" where
  "page_at F i \<equiv> NewPageKey F (int i)"

definition file_pages :: "string \<Rightarrow> Pool \<Rightarrow> (nat \<Rightarrow> bytes option) \<Rightarrow> nat \<Rightarrow> bool" where
  "file_pages F b m n \<longleftrightarrow> pool_inv b \<and> fluid b
     \<and> (\<forall>i buf. m i = Some buf \<longrightarrow> i < n \<and> safe b (page_at F i) \<and> pool_view b (page_at F i) = Some buf \<and> valid_buf buf)
     \<and> (\<forall>i \<ge> n. bp_lookup b (page_at F i) = None)"

fun file_op :: "string \<Rightarrow> pool_op \<Rightarrow> bool" where
  "file_op F (OpGet k) \<longleftrightarrow> pk_fileID k = F"
| "file_op F (OpNew k p) \<longleftrightarrow> pk_fileID k = F"
| "file_op F (OpUpdate k p) \<longleftrightarrow> pk_fileID k = F"
| "file_op F _ \<longleftrightarrow> False"

definition runs_on :: "string \<Rightarrow> Pool \<Rightarrow> Pool \<Rightarrow> bool" where
  "runs_on F b b' \<longleftrightarrow> (\<exists>as. pool_run b as b' \<and> (\<forall>a \<in> set as. file_op F a))"

lemma file_op_target: "file_op F a \<Longrightarrow> k \<in> op_target a \<Longrightarrow> pk_fileID k = F"
  by (cases a) auto

lemma page_at_inj [simp]: "page_at F i = page_at F j \<longleftrightarrow> i = j"
  by (simp add: NewPageKey_def)

lemma page_at_file [simp]: "pk_fileID (page_at F i) = F" "pk_pageID (page_at F i) = int i"
  by (simp_all add: NewPageKey_def)

lemma pool_run_append: "pool_run b as b' \<Longrightarrow> pool_run b' as' b'' \<Longrightarrow> pool_run b (as @ as') b''"
  by (induction rule: pool_run.induct) (auto intro: pool_run.intros)

lemma runs_on_refl [simp]: "runs_on F b b"
  by (auto simp: runs_on_def intro!: exI [of _ "[]"] pool_run.nil)

lemma runs_on_trans [trans]: "runs_on F b b' \<Longrightarrow> runs_on F b' b'' \<Longrightarrow> runs_on F b b''"
  unfolding runs_on_def by (blast intro: pool_run_append dest: Un_iff [THEN iffD1] set_append [THEN equalityD1, THEN subsetD])

lemma runs_on_step: "pool_step b a b' \<Longrightarrow> file_op F a \<Longrightarrow> runs_on F b b'"
  unfolding runs_on_def by (intro exI [of _ "[a]"]) (auto intro: pool_run.intros)

lemma runs_on_get: "getPageLocked (page_at F i) b = (r, b') \<Longrightarrow> runs_on F b b'"
  using runs_on_step [OF pool_step.get [of "page_at F i" b r b'], of F] by (simp add: GetPage_def)

lemma file_pagesD:
  assumes "file_pages F b m n"
  shows "pool_inv b" and "fluid b" and "m i = Some buf \<Longrightarrow> i < n"
    and "m i = Some buf \<Longrightarrow> safe b (page_at F i)" and "m i = Some buf \<Longrightarrow> pool_view b (page_at F i) = Some buf"
    and "m i = Some buf \<Longrightarrow> valid_buf buf" and "n \<le> i \<Longrightarrow> bp_lookup b (page_at F i) = None"
  using assms by (auto simp: file_pages_def)

text \<open>A page that is in the pool with this content, written or not.\<close>

definition buffered :: "string \<Rightarrow> Pool \<Rightarrow> nat \<Rightarrow> bytes \<Rightarrow> bool" where
  "buffered F b i buf \<longleftrightarrow> bp_lookup b (page_at F i) \<noteq> None \<and> pool_view b (page_at F i) = Some buf"

lemma getPage_lookup:
  assumes inv: "pool_inv b" and get: "getPageLocked key b = (r, b')" and k: "bp_lookup b k = None" "k \<noteq> key"
  shows "bp_lookup b' k = None"
proof (cases "bp_lookup b key")
  case None
  obtain r1 b1 where es: "ensureSpaceLocked b = (r1, b1)" by force
  note e = ensureSpace_keeps(4) [OF inv es]
  show ?thesis
  proof (cases "\<exists>pg. is_ok r1 \<and> fm_Read (pk_pageID key) (bp_path b1 key) (bp_disk b1) = Ok pg")
    case True
    then obtain pg where "add_slot key pg b1 = (r, b')"
      using get None es by (cases r1) (auto simp: getPageLocked_def seq_def)
    then show ?thesis using e [OF k(1)] k(2) by (auto simp: add_slot_def Let_def AList.update_conv')
  next
    case False
    then have "b' = b1"
      using get None es by (cases r1; cases "fm_Read (pk_pageID key) (bp_path b1 key) (bp_disk b1)")
        (auto simp: getPageLocked_def seq_def)
    then show ?thesis using e [OF k(1)] by simp
  qed
next
  case (Some s)
  then show ?thesis using get k by (auto simp: getPageLocked_def)
qed

lemma fluid_getPage: "pool_inv b \<Longrightarrow> fluid b \<Longrightarrow> getPageLocked key b = (Ok s, b') \<Longrightarrow> fluid b'"
  using getPageLocked_keeps(1,4) [of b key "Ok s" b'] getPage_pins [of b key "Ok s" b'] pool_keepsD(4) [of b b']
  by (auto simp: fluid_def healthy_def)

lemma fluid_loads:
  assumes inv: "pool_inv b" and fl: "fluid b" and page: "pool_view b key \<noteq> None"
  obtains s b' where "getPageLocked key b = (Ok s, b')" and "pool_keeps b b'" and "fluid b'" and "bp_lookup b' key = Some s"
proof -
  have "is_ok (fst (getPageLocked key b))"
    using page fluid_room [OF inv fl] fl by (intro getPageLocked_live [OF inv]) (auto simp: fluid_def)
  then obtain s b' where g: "getPageLocked key b = (Ok s, b')"
    by (cases "getPageLocked key b"; cases "fst (getPageLocked key b)") auto
  show thesis using that [OF g] getPageLocked_keeps(1,3) [OF inv g] fluid_getPage [OF inv fl g] by blast
qed

lemma file_pages_keeps:
  assumes "file_pages F b m n" and "pool_keeps b b'" and "fluid b'"
    and "\<And>i. n \<le> i \<Longrightarrow> bp_lookup b' (page_at F i) = None"
  shows "file_pages F b' m n"
  using assms pool_keepsD(1,5,6) [OF assms(2)] by (auto simp: file_pages_def)

lemma slot_page_view:
  assumes "pool_inv b" and "bp_lookup b (page_at F i) = Some s" and "pool_view b (page_at F i) = Some buf"
  shows "bs_page (bp_store b s) = \<lparr>hp_pageID = int i, hp_buf = buf\<rparr>"
  using slot_okD(2) [OF pool_invD(5) [OF assms(1,2)]] assms(2,3) by (simp add: pool_view_def)

text \<open>Reading a page.\<close>

lemma read_page:
  assumes f: "file_pages F b m n" and i: "m i = Some buf"
  obtains b' where "seq (GetPage (page_at F i)) slot_Page b = (Ok \<lparr>hp_pageID = int i, hp_buf = buf\<rparr>, b')"
    and "file_pages F b' m n" and "runs_on F b b'"
proof -
  note inv = file_pagesD(1) [OF f] and v = file_pagesD(5) [OF f i]
  obtain s b' where g: "getPageLocked (page_at F i) b = (Ok s, b')" "pool_keeps b b'" "fluid b'" "bp_lookup b' (page_at F i) = Some s"
    using fluid_loads [OF inv file_pagesD(2) [OF f]] v by blast
  have "bs_page (bp_store b' s) = \<lparr>hp_pageID = int i, hp_buf = buf\<rparr>"
    using slot_page_view [OF pool_keepsD(1) [OF g(2)] g(4)] pool_keepsD(6) [OF g(2) file_pagesD(4) [OF f i]] v by simp
  moreover have "bp_lookup b' (page_at F j) = None" if "n \<le> j" for j
    using getPage_lookup [OF inv g(1) file_pagesD(7) [OF f that]] file_pagesD(3) [OF f i] that by simp
  moreover have "runs_on F b b'"
    by (rule runs_on_get [OF g(1)])
  ultimately show thesis
    using that [of b'] g(1) file_pages_keeps [OF f g(2,3)] by (simp add: seq_def GetPage_def slot_Page_def)
qed

text \<open>Changing a page, also one that has just been added.\<close>

lemma update_page:
  assumes f: "file_pages F b m n" and i: "i < n" "m i \<noteq> None \<or> bp_lookup b (page_at F i) \<noteq> None" and buf: "valid_buf buf"
  obtains b' where "UpdatePage (page_at F i) (Some \<lparr>hp_pageID = int i, hp_buf = buf\<rparr>) b = (Ok (), b')"
    and "file_pages F b' (m(i \<mapsto> buf)) n" and "runs_on F b b'"
proof -
  let ?k = "page_at F i" and ?p = "\<lparr>hp_pageID = int i, hp_buf = buf\<rparr>"
  note inv = file_pagesD(1) [OF f] and fl = file_pagesD(2) [OF f]
  have "pool_view b ?k \<noteq> None" using i(2) file_pagesD(5) [OF f, of i] by (auto simp: pool_view_def)
  then obtain s b1 where g: "slot_or_load ?k b = (Ok s, b1)" "pool_keeps b b1" "fluid b1" "bp_lookup b1 ?k = Some s"
      and l: "\<And>j. j \<noteq> i \<Longrightarrow> bp_lookup b (page_at F j) = None \<Longrightarrow> bp_lookup b1 (page_at F j) = None"
  proof (cases "bp_lookup b ?k")
    case None
    then obtain s b1 where g: "getPageLocked ?k b = (Ok s, b1)" "pool_keeps b b1" "fluid b1" "bp_lookup b1 ?k = Some s"
      using fluid_loads [OF inv fl] \<open>pool_view b ?k \<noteq> None\<close> by blast
    then show thesis using that [of s b1] None getPage_lookup [OF inv g(1)] by (simp add: slot_or_load_def)
  next
    case (Some s)
    then show thesis using that [of s b] inv fl by (simp add: slot_or_load_def)
  qed
  obtain r b' where u: "UpdatePage ?k (Some ?p) b = (r, b')" by force
  have b': "r = Ok ()" "b' = touch s (set_slot s ((bp_store b1 s)\<lparr>bs_page := ?p, bs_dirty := True\<rparr>) b1)"
    using u g(1) by (auto simp: UpdatePage_def seq_def)
  have pf: "page_for ?k ?p" using buf by (simp add: page_for_def NewPageKey_def)
  note up = UpdatePage_props [OF inv pf u]
  have "fluid b'"
    using up(6) b'(1) fl g(3) pool_setsD(6) [OF up(1)] by (auto simp: fluid_def healthy_def b'(2) is_pinned_def split: if_splits)
  moreover have "bp_lookup b' (page_at F j) = None" if "n \<le> j" for j
    using l [of j] file_pagesD(7) [OF f that] that i(1) by (simp add: b'(2))
  ultimately have "file_pages F b' (m(i \<mapsto> buf)) n"
    using f i(1) buf up(1,3) b'(1) pool_setsD(1,2,3) [OF up(1)] by (auto simp: file_pages_def)
  moreover have "runs_on F b b'" by (rule runs_on_step [OF pool_step.update [OF pf u]]) simp
  ultimately show thesis using that u b'(1) by simp
qed

text \<open>Adding the next page; it is read back as long as nothing else happens.\<close>

lemma add_page:
  assumes f: "file_pages F b m n" and p: "valid_buf buf"
  obtains s b' where "NewPage (page_at F n) (Some \<lparr>hp_pageID = int n, hp_buf = buf\<rparr>) b = (Ok s, b')"
    and "file_pages F b' m (n + 1)" and "buffered F b' n buf" and "runs_on F b b'"
proof -
  let ?k = "page_at F n" and ?p = "\<lparr>hp_pageID = int n, hp_buf = buf\<rparr>"
  note inv = file_pagesD(1) [OF f] and fl = file_pagesD(2) [OF f]
  have new: "bp_lookup b ?k = None" using file_pagesD(7) [OF f] by simp
  obtain r b' where np: "NewPage ?k (Some ?p) b = (r, b')" by force
  have pf: "page_for ?k ?p" using p by (simp add: page_for_def NewPageKey_def)
  have "is_ok (fst (ensureSpaceLocked b))"
    using fluid_room [OF inv fl] fl by (intro ensureSpace_live [OF inv]) (auto simp: fluid_def)
  then obtain u b1 where es: "ensureSpaceLocked b = (Ok u, b1)" by (cases "ensureSpaceLocked b"; cases "fst (ensureSpaceLocked b)") auto
  note e = ensureSpace_keeps [OF inv es]
  have add: "add_slot ?k ?p b1 = (r, b')" using np es new by (simp add: NewPage_def seq_def)
  have room: "int (length (bp_table b1)) < bp_poolSize b1" using e(3) by simp
  note a = add_slot_props [OF pool_keepsD(1) [OF e(1)] e(4) [OF new] room _ add]
  have ok: "slot_ok ?k (NewBufferSlot ?k ?p)" using p by (simp add: slot_ok_def NewBufferSlot_def NewPageKey_def)
  have r: "r = Ok (bp_next b1)" using a(1) ok by simp
  note n = NewPage_props [OF inv pf _ np]
  have pid: "0 \<le> pk_pageID ?k" by (simp add: NewPageKey_def)
  have at: "bp_lookup b' ?k \<noteq> None" "pool_view b' ?k = Some buf" using n(3) [OF pid r] by simp_all
  have look: "bp_lookup b' (page_at F j) = None" if "n + 1 \<le> j" for j
    using a(3) [OF ok, of "page_at F j"] e(4) [OF file_pagesD(7) [OF f, of j]] that by simp
  have "\<not> is_pinned b' k" for k
  proof
    assume "is_pinned b' k"
    then have "is_pinned b1 k"
      using a(3) [OF ok, of k] a(4) [OF ok] by (auto simp: is_pinned_def NewBufferSlot_def split: if_splits)
    then show False using ensureSpace_pins [OF es] fl by (auto simp: fluid_def)
  qed
  then have "fluid b'"
    using n(6) [OF pid] r fl pool_setsD(6) [OF n(1) [OF pid]] by (auto simp: fluid_def healthy_def)
  then have "file_pages F b' m (n + 1)"
    using f look pool_setsD(1,2,3) [OF n(1) [OF pid]] by (fastforce simp: file_pages_def)
  moreover have "runs_on F b b'"
    by (rule runs_on_step [OF pool_step.new_page [OF pf pid np]]) simp
  ultimately show thesis using that r np at by (simp add: buffered_def)
qed

lemma read_buffered:
  assumes f: "file_pages F b m n" and i: "buffered F b i buf"
  obtains b' where "seq (GetPage (page_at F i)) slot_Page b = (Ok \<lparr>hp_pageID = int i, hp_buf = buf\<rparr>, b')"
    and "file_pages F b' m n" and "buffered F b' i buf" and "runs_on F b b'"
proof -
  note inv = file_pagesD(1) [OF f]
  obtain s where s: "bp_lookup b (page_at F i) = Some s" "pool_view b (page_at F i) = Some buf"
    using i by (auto simp: buffered_def)
  obtain r b' where g: "getPageLocked (page_at F i) b = (r, b')" by force
  note p = getPage_present [OF inv s(1) g] and k = getPageLocked_keeps [OF inv g]
  have "bs_page (bp_store b' s) = \<lparr>hp_pageID = int i, hp_buf = buf\<rparr>"
    using slot_page_view [OF pool_keepsD(1) [OF k(1)], of F i s buf] s p by simp
  moreover have "file_pages F b' m n"
    by (rule file_pages_keeps [OF f k(1)])
      (use fluid_getPage [OF inv file_pagesD(2) [OF f] g [unfolded p(1)]] file_pagesD(7) [OF f] p(2) in simp_all)
  moreover have "runs_on F b b'"
    by (rule runs_on_get [OF g])
  moreover have "buffered F b' i buf" using s p by (simp add: buffered_def)
  ultimately show thesis using that [of b'] g p(1) by (simp add: seq_def GetPage_def slot_Page_def)
qed

section \<open>What work on one file leaves alone\<close>

definition lru_pool :: "Pool \<Rightarrow> bool" where
  "lru_pool b \<longleftrightarrow> (\<exists>r. bp_replacer b = LRU r)"

lemma lru_pool_touch [simp]: "lru_pool b \<Longrightarrow> lru_pool (touch s b)"
  by (auto simp: lru_pool_def touch_def)

lemma flushSlot_frame:
  "flushSlotLocked key s b = (r, b') \<Longrightarrow> bp_table b' = bp_table b \<and> bp_replacer b' = bp_replacer b"
  by (auto simp: flushSlotLocked_def split: if_splits prod.splits result.splits)

lemma ensureSpace_frame:
  assumes "ensureSpaceLocked b = (r, b')"
  shows "lru_pool b \<Longrightarrow> lru_pool b'" and "bp_lookup b k = None \<Longrightarrow> bp_lookup b' k = None"
proof -
  obtain v rp where v: "rep_PickVictim (bp_store b) (bp_replacer b) = (v, rp)" by force
  have "lru_pool b \<Longrightarrow> \<exists>r. rp = LRU r" using v by (auto simp: lru_pool_def split: prod.splits)
  moreover have "(lru_pool b \<longrightarrow> (\<exists>r. rp = LRU r)) \<longrightarrow> (lru_pool b \<longrightarrow> lru_pool b') \<and> (bp_lookup b k = None \<longrightarrow> bp_lookup b' k = None)"
  proof (cases v)
    case None
    then show ?thesis using assms v by (auto simp: ensureSpaceLocked_def lru_pool_def split: if_splits)
  next
    case (Some s)
    let ?b1 = "b\<lparr>bp_replacer := rp\<rparr>"
    obtain r2 b2 where f: "(if bs_dirty (bp_store b s) then flushSlotLocked (bs_key (bp_store b s)) s else pure ()) ?b1 = (r2, b2)"
      by force
    have b2: "bp_table b2 = bp_table b" "bp_replacer b2 = rp"
      using f flushSlot_frame [of _ s ?b1 r2 b2] by (auto simp: pure_def split: if_splits)
    show ?thesis
      using assms v Some f b2
      by (cases r2) (auto simp: ensureSpaceLocked_def seq_def Let_def lru_pool_def delete_conv' split: if_splits)
  qed
  ultimately show "lru_pool b \<Longrightarrow> lru_pool b'" and "bp_lookup b k = None \<Longrightarrow> bp_lookup b' k = None" by auto
qed

lemma add_slot_frame:
  assumes "add_slot key p b = (r, b')"
  shows "lru_pool b \<Longrightarrow> lru_pool b'" and "bp_lookup b k = None \<Longrightarrow> k \<noteq> key \<Longrightarrow> bp_lookup b' k = None"
  using assms by (auto simp: add_slot_def Let_def AList.update_conv' lru_pool_def touch_def split: if_splits)

lemma getPage_frame:
  assumes "getPageLocked key b = (r, b')"
  shows "lru_pool b \<Longrightarrow> lru_pool b'" and "bp_lookup b k = None \<Longrightarrow> k \<noteq> key \<Longrightarrow> bp_lookup b' k = None"
proof -
  obtain r1 b1 where es: "ensureSpaceLocked b = (r1, b1)" by force
  note e = ensureSpace_frame [OF es]
  consider s where "bp_lookup b key = Some s" "b' = touch s (set_slot s (IncrementUsage (bp_store b s)) b)"
    | pg where "add_slot key pg b1 = (r, b')" | "b' = b1"
    using assms es
    by (cases "bp_lookup b key"; cases r1; cases "fm_Read (pk_pageID key) (bp_path b1 key) (bp_disk b1)")
      (auto simp: getPageLocked_def seq_def)
  then have "(lru_pool b \<longrightarrow> lru_pool b') \<and> (bp_lookup b k = None \<longrightarrow> k \<noteq> key \<longrightarrow> bp_lookup b' k = None)"
  proof cases
    case 1
    then show ?thesis by (auto simp: lru_pool_def touch_def)
  next
    case 2
    then show ?thesis using e(1) e(2) [of k] add_slot_frame(1) [OF 2] add_slot_frame(2) [OF 2, of k] by blast
  qed (use e in auto)
  then show "lru_pool b \<Longrightarrow> lru_pool b'" and "bp_lookup b k = None \<Longrightarrow> k \<noteq> key \<Longrightarrow> bp_lookup b' k = None" by auto
qed

lemma file_op_frame:
  assumes st: "pool_step b a b'" and op: "file_op F a"
  shows "lru_pool b \<Longrightarrow> lru_pool b'" and "pk_fileID k \<noteq> F \<Longrightarrow> bp_lookup b k = None \<Longrightarrow> bp_lookup b' k = None"
proof -
  have "(lru_pool b \<longrightarrow> lru_pool b') \<and> (pk_fileID k \<noteq> F \<longrightarrow> bp_lookup b k = None \<longrightarrow> bp_lookup b' k = None)"
    using st
  proof (cases rule: pool_step.cases)
    case (get key r)
    then have g: "getPageLocked key b = (r, b')" by (simp add: GetPage_def)
    show ?thesis using getPage_frame(1) [OF g] getPage_frame(2) [OF g, of k] op get(1) by auto
  next
    case (new_page key p r)
    obtain r1 b1 where es: "ensureSpaceLocked b = (r1, b1)" by force
    note e = ensureSpace_frame [OF es]
    consider "b' = b" | "b' = b1" | "add_slot key p b1 = (r, b')"
      using new_page(4) es by (cases r1) (auto simp: NewPage_def seq_def split: if_splits)
    then show ?thesis
    proof cases
      case 3
      then show ?thesis using e(1) e(2) [of k] add_slot_frame(1) [OF 3] add_slot_frame(2) [OF 3, of k] new_page(1) op by auto
    qed (use e in auto)
  next
    case (update key p r)
    obtain r1 b1 where g: "slot_or_load key b = (r1, b1)" by force
    have "(lru_pool b \<longrightarrow> lru_pool b1) \<and> (pk_fileID k \<noteq> F \<longrightarrow> bp_lookup b k = None \<longrightarrow> bp_lookup b1 k = None)"
      using g getPage_frame(1) [of key b r1 b1] getPage_frame(2) [of key b r1 b1 k] update(1) op
      by (auto simp: slot_or_load_def split: option.splits)
    moreover have "bp_table b' = bp_table b1 \<and> (lru_pool b1 \<longrightarrow> lru_pool b')"
      using update(3) g by (cases r1) (auto simp: UpdatePage_def seq_def lru_pool_def touch_def split: if_splits)
    ultimately show ?thesis by simp
  qed (use op in simp_all)
  then show "lru_pool b \<Longrightarrow> lru_pool b'" and "pk_fileID k \<noteq> F \<Longrightarrow> bp_lookup b k = None \<Longrightarrow> bp_lookup b' k = None" by auto
qed

text \<open>Work on the file \<open>F\<close>: the kind of the replacer stays, pages of other files that were not in the pool
  still are not, and the content of the safe ones is as before.\<close>

lemma runs_on_frame:
  assumes "runs_on F b b'" and "pool_inv b"
  shows "pool_inv b'" and "lru_pool b \<Longrightarrow> lru_pool b'"
    and "pk_fileID k \<noteq> F \<Longrightarrow> bp_lookup b k = None \<Longrightarrow> bp_lookup b' k = None"
    and "pk_fileID k \<noteq> F \<Longrightarrow> safe b k \<Longrightarrow> safe b' k \<and> pool_view b' k = pool_view b k"
    and "bp_poolSize b' = bp_poolSize b"
proof -
  obtain as where "pool_run b as b'" "\<forall>a \<in> set as. file_op F a" using assms(1) by (auto simp: runs_on_def)
  then have "pool_inv b \<longrightarrow> pool_inv b' \<and> (lru_pool b \<longrightarrow> lru_pool b')
      \<and> (pk_fileID k \<noteq> F \<longrightarrow> bp_lookup b k = None \<longrightarrow> bp_lookup b' k = None)
      \<and> (pk_fileID k \<noteq> F \<longrightarrow> safe b k \<longrightarrow> safe b' k \<and> pool_view b' k = pool_view b k) \<and> bp_poolSize b' = bp_poolSize b"
  proof (induction rule: pool_run.induct)
    case (cons b a b' as b'')
    have op: "file_op F a" using cons.prems by simp
    note f = file_op_frame [OF cons.hyps(1) op]
    show ?case
    proof (rule impI)
      assume inv: "pool_inv b"
      note s = pool_step_safe [OF cons.hyps(1) inv]
      have t: "pk_fileID k \<noteq> F \<Longrightarrow> safe b k \<Longrightarrow> safe b' k \<and> pool_view b' k = pool_view b k"
        using s(3) [of k] file_op_target [OF op, of k] by blast
      have "\<forall>a \<in> set as. file_op F a" using cons.prems by simp
      note ih = cons.IH [OF this, THEN mp, OF s(1)]
      show "pool_inv b'' \<and> (lru_pool b \<longrightarrow> lru_pool b'')
        \<and> (pk_fileID k \<noteq> F \<longrightarrow> bp_lookup b k = None \<longrightarrow> bp_lookup b'' k = None)
        \<and> (pk_fileID k \<noteq> F \<longrightarrow> safe b k \<longrightarrow> safe b'' k \<and> pool_view b'' k = pool_view b k) \<and> bp_poolSize b'' = bp_poolSize b"
        by (intro conjI impI) (use ih t s(2) f(1) f(2) [of k] in simp_all)
    qed
  qed simp
  with assms(2) show "pool_inv b'" and "lru_pool b \<Longrightarrow> lru_pool b'"
    and "pk_fileID k \<noteq> F \<Longrightarrow> bp_lookup b k = None \<Longrightarrow> bp_lookup b' k = None"
    and "pk_fileID k \<noteq> F \<Longrightarrow> safe b k \<Longrightarrow> safe b' k \<and> pool_view b' k = pool_view b k"
    and "bp_poolSize b' = bp_poolSize b" by blast+
qed

text \<open>So the pages of another file stay what they are.\<close>

lemma file_pages_other:
  assumes "file_pages F b m n" and "runs_on F' b b'" and "F' \<noteq> F" and "fluid b'"
  shows "file_pages F b' m n"
proof -
  note r = runs_on_frame [OF assms(2) file_pagesD(1) [OF assms(1)]]
  show ?thesis
    unfolding file_pages_def
    using r(1) assms(3,4) file_pagesD(3,4,5,6,7) [OF assms(1)] r(3) [of "page_at F _"] r(4) [of "page_at F _"] by auto
qed

end
