(* ===== verification/HashIndex.thy ===== *)
theory HashIndex
  imports TableHeap PagedFile "HOL-Library.Signed_Division"
begin

text \<open>
  The disk hash index of \<open>internal/core/index/disk_hash_index.go\<close>: linear hashing over the pages of the
  index file. Page 0 holds the meta data, pages 1 to 64 the directory of bucket heads, the others the
  bucket pages, chained by overflow pointers. A page is read by \<open>GetPage\<close>, changed in its buffer and
  handed back by \<open>UpdatePage\<close>. The loops over chains and splits may run forever on a damaged file, so
  the operations that contain them are partial.
\<close>

section \<open>Constants and state\<close>

definition hashMagic :: uint32 where "hashMagic = 0x48494458"
definition hashVersion :: uint32 where "hashVersion = 1"
definition heapHeaderSize :: nat where "heapHeaderSize = 10"
definition dirPages :: nat where "dirPages = 64"
definition dirEntryBytes :: nat where "dirEntryBytes = 4"
definition dirEntriesPerPage :: nat where "dirEntriesPerPage = (PageSize - heapHeaderSize) div dirEntryBytes"
definition dataStartPage :: nat where "dataStartPage = 1 + dirPages"
definition targetBucketEntries :: int32 where "targetBucketEntries = 64"
definition bucketHdrNextOverflowOff :: nat where "bucketHdrNextOverflowOff = heapHeaderSize"
definition bucketHdrEntryCountOff :: nat where "bucketHdrEntryCountOff = heapHeaderSize + 4"
definition bucketHdrFreeOff :: nat where "bucketHdrFreeOff = heapHeaderSize + 8"
definition bucketDataStartOff :: nat where "bucketDataStartOff = heapHeaderSize + 12"
definition metaMagicOff :: nat where "metaMagicOff = heapHeaderSize"
definition metaVersionOff :: nat where "metaVersionOff = heapHeaderSize + 4"
definition metaBucketCountOff :: nat where "metaBucketCountOff = heapHeaderSize + 8"
definition metaLowmaskOff :: nat where "metaLowmaskOff = heapHeaderSize + 12"
definition metaHighmaskOff :: nat where "metaHighmaskOff = heapHeaderSize + 16"
definition metaSplitPtrOff :: nat where "metaSplitPtrOff = heapHeaderSize + 20"
definition metaMaxBucketOff :: nat where "metaMaxBucketOff = heapHeaderSize + 24"
definition metaRecordCountOff :: nat where "metaRecordCountOff = heapHeaderSize + 28"
definition metaNextPageIDOff :: nat where "metaNextPageIDOff = heapHeaderSize + 36"

lemmas hash_consts = hashMagic_def hashVersion_def heapHeaderSize_def dirPages_def dirEntryBytes_def dirEntriesPerPage_def
  dataStartPage_def targetBucketEntries_def bucketHdrNextOverflowOff_def bucketHdrEntryCountOff_def bucketHdrFreeOff_def
  bucketDataStartOff_def metaMagicOff_def metaVersionOff_def metaBucketCountOff_def metaLowmaskOff_def metaHighmaskOff_def
  metaSplitPtrOff_def metaMaxBucketOff_def metaRecordCountOff_def metaNextPageIDOff_def

record hashMeta =
  hm_bucketCount :: int32
  hm_lowmask :: int32
  hm_highmask :: int32
  hm_splitPointer :: int32
  hm_maxBucket :: int32
  hm_recordCount :: int64
  hm_nextPageID :: int32

record hashEntry =
  he_hash :: int32
  he_key :: gvalue
  he_tid :: TID

record DiskHashIndex =
  hi_root :: string
  hi_def :: IndexDefinition
  hi_fileID :: string
  hi_keyType :: TypeDefinition
  hi_meta :: hashMeta

text \<open>The pool is shared; the index object is the receiver of every method.\<close>

record HashState =
  hx_pool :: Pool
  hx_idx :: DiskHashIndex

abbreviation hx_meta :: "HashState \<Rightarrow> hashMeta" where
  "hx_meta s \<equiv> hi_meta (hx_idx s)"

definition hx_on :: "(Pool, 'a) prog \<Rightarrow> (HashState, 'a) prog" where
  "hx_on m s = (case m (hx_pool s) of (r, b) \<Rightarrow> (r, s\<lparr>hx_pool := b\<rparr>))"

definition set_meta :: "(hashMeta \<Rightarrow> hashMeta) \<Rightarrow> (HashState, unit) prog" where
  "set_meta f s = (Ok (), s\<lparr>hx_idx := (hx_idx s)\<lparr>hi_meta := f (hx_meta s)\<rparr>\<rparr>)"

definition hash_key :: "DiskHashIndex \<Rightarrow> int \<Rightarrow> PageKey" where
  "hash_key idx pageID = NewPageKey (hi_fileID idx) pageID"

definition hash_get :: "int \<Rightarrow> (HashState, HeapPage) prog" where
  "hash_get pageID s = hx_on (seq (GetPage (hash_key (hx_idx s) pageID)) slot_Page) s"

definition hash_put :: "int \<Rightarrow> HeapPage \<Rightarrow> (HashState, unit) prog" where
  "hash_put pageID p s = hx_on (UpdatePage (hash_key (hx_idx s) pageID) (Some p)) s"

text \<open>A sequence of \<open>binary.BigEndian.Put\<close> calls on one buffer.\<close>

fun put_fields :: "(nat \<times> bytes) list \<Rightarrow> bytes \<Rightarrow> bytes result" where
  "put_fields [] buf = Ok buf"
| "put_fields ((off, bs) # rest) buf = bind_result (put_bytes buf off bs) (put_fields rest)"

section \<open>Entries\<close>

definition encodeEntry :: "TypeDefinition \<Rightarrow> hashEntry \<Rightarrow> bytes result" where
  "encodeEntry keyType entry =
     (if ty_name keyType = ''INT64'' then
        (case he_key entry of VInt64 k \<Rightarrow>
           Ok (be32 (he_hash entry) @ be64 k @ be32 (tid_pageID (he_tid entry)) @ be16 (tid_slotID (he_tid entry)))
         | _ \<Rightarrow> Panic)
      else if ty_name keyType = ''VARCHAR'' then
        (case he_key entry of VString str \<Rightarrow>
           Ok (be32 (he_hash entry) @ be16 (word_of_nat (length str)) @ bytes_of_string str
               @ be32 (tid_pageID (he_tid entry)) @ be16 (tid_slotID (he_tid entry)))
         | _ \<Rightarrow> Panic)
      else Ok [])"

definition decodeEntry :: "TypeDefinition \<Rightarrow> bytes \<Rightarrow> nat \<Rightarrow> (hashEntry \<times> nat) result" where
  "decodeEntry keyType buf off0 =
     bind_result (get_u32 buf off0) (\<lambda>hash. let off = off0 + 4 in
     bind_result
       (if ty_name keyType = ''INT64'' then bind_result (get_u64 buf off) (\<lambda>k. Ok (VInt64 k, off + 8))
        else if ty_name keyType = ''VARCHAR'' then
          bind_result (get_u16 buf off) (\<lambda>strLen.
          bind_result (get_slice buf (off + 2) (unat strLen)) (\<lambda>bs.
          Ok (VString (string_of_bytes bs), off + 2 + unat strLen)))
        else Ok (VNil, off))
       (\<lambda>(key, off).
     bind_result (get_u32 buf off) (\<lambda>pageID.
     bind_result (get_u16 buf (off + 4)) (\<lambda>slotID.
     Ok (\<lparr>he_hash = hash, he_key = key, he_tid = NewTID pageID slotID\<rparr>, off + 6)))))"

text \<open>The loop of \<open>readAllEntriesFromPage\<close>: \<open>n\<close> entries from offset \<open>off\<close> on.\<close>

fun read_entries :: "TypeDefinition \<Rightarrow> bytes \<Rightarrow> nat \<Rightarrow> nat \<Rightarrow> hashEntry list result" where
  "read_entries keyType buf off 0 = Ok []"
| "read_entries keyType buf off (Suc n) =
     bind_result (decodeEntry keyType buf off) (\<lambda>(entry, nextOff).
     bind_result (read_entries keyType buf nextOff n) (\<lambda>entries. Ok (entry # entries)))"

definition readAllEntriesFromPage :: "TypeDefinition \<Rightarrow> bytes \<Rightarrow> hashEntry list result" where
  "readAllEntriesFromPage keyType buf =
     bind_result (get_u32 buf bucketHdrEntryCountOff) (\<lambda>cnt. read_entries keyType buf bucketDataStartOff (unat cnt))"

definition compareKeys :: "TypeDefinition \<Rightarrow> gvalue \<Rightarrow> gvalue \<Rightarrow> int result" where
  "compareKeys keyType a b =
     (if ty_name keyType = ''INT64'' then
        (case (a, b) of (VInt64 av, VInt64 bv) \<Rightarrow> Ok (if av <s bv then -1 else if bv <s av then 1 else 0) | _ \<Rightarrow> Panic)
      else if ty_name keyType = ''VARCHAR'' then
        (case (a, b) of (VString av, VString bv) \<Rightarrow> Ok (if av < bv then -1 else if av > bv then 1 else 0) | _ \<Rightarrow> Panic)
      else Ok 0)"

section \<open>Hashing\<close>

fun hashFunction :: "gvalue \<Rightarrow> int32" where
  "hashFunction (VInt64 k) = ucast (k XOR signed_drop_bit 32 k) AND 0x7fffffff"
| "hashFunction (VString str) = foldl (\<lambda>h c. 31 * h + word_of_nat c) 0 (runes_of_string str) AND 0x7fffffff"
| "hashFunction _ = 0"

definition computeBucket :: "hashMeta \<Rightarrow> int32 \<Rightarrow> int32" where
  "computeBucket meta hash =
     (let bucket = hash AND hm_highmask meta in
      if hm_maxBucket meta <s bucket then hash AND hm_lowmask meta else bucket)"

text \<open>\<open>loadFactor() > maxLoadFactor\<close>: the quotient of two integers below \<open>2^53\<close>, compared with 0.75 in
  double precision. The product of the bucket count wraps at 32 bits; the quotient by zero is infinite
  or not a number. The quotient differs from 0.75 by at least \<open>2^-33\<close> or not at all, so rounding does not
  change the comparison.\<close>

definition over_max_load :: "hashMeta \<Rightarrow> bool" where
  "over_max_load meta =
     (let buckets = (if hm_bucketCount meta = 0 then 1 else hm_bucketCount meta);
          d = sint (buckets * targetBucketEntries); n = sint (hm_recordCount meta)
      in if d > 0 then 4 * n > 3 * d else if d = 0 then n > 0 else 4 * n < 3 * d)"

section \<open>Pages of the index\<close>

definition loadMeta :: "(HashState, unit) prog" where
  "loadMeta =
     seq (hash_get 0) (\<lambda>p. let buf = hp_buf p in
     seq (lift_result (get_u32 buf metaMagicOff)) (\<lambda>magic.
     if magic \<noteq> hashMagic then lift_result (Err ErrBadMagic) else
     seq (lift_result (get_u32 buf metaVersionOff)) (\<lambda>version.
     if version \<noteq> hashVersion then lift_result (Err ErrUnsupportedVersion) else
     seq (lift_result (get_u32 buf metaBucketCountOff)) (\<lambda>bucketCount.
     seq (lift_result (get_u32 buf metaLowmaskOff)) (\<lambda>lowmask.
     seq (lift_result (get_u32 buf metaHighmaskOff)) (\<lambda>highmask.
     seq (lift_result (get_u32 buf metaSplitPtrOff)) (\<lambda>splitPointer.
     seq (lift_result (get_u32 buf metaMaxBucketOff)) (\<lambda>maxBucket.
     seq (lift_result (get_u64 buf metaRecordCountOff)) (\<lambda>recordCount.
     seq (lift_result (get_u32 buf metaNextPageIDOff)) (\<lambda>nextPageID.
     set_meta (\<lambda>_. \<lparr>hm_bucketCount = bucketCount, hm_lowmask = lowmask, hm_highmask = highmask,
       hm_splitPointer = splitPointer, hm_maxBucket = maxBucket, hm_recordCount = recordCount,
       hm_nextPageID = nextPageID\<rparr>)))))))))))"

definition meta_fields :: "hashMeta \<Rightarrow> (nat \<times> bytes) list" where
  "meta_fields m = [(metaMagicOff, be32 hashMagic), (metaVersionOff, be32 hashVersion),
     (metaBucketCountOff, be32 (hm_bucketCount m)), (metaLowmaskOff, be32 (hm_lowmask m)),
     (metaHighmaskOff, be32 (hm_highmask m)), (metaSplitPtrOff, be32 (hm_splitPointer m)),
     (metaMaxBucketOff, be32 (hm_maxBucket m)), (metaRecordCountOff, be64 (hm_recordCount m)),
     (metaNextPageIDOff, be32 (hm_nextPageID m))]"

definition writeMeta :: "(HashState, unit) prog" where
  "writeMeta s =
     seq (hash_get 0) (\<lambda>p.
     seq (lift_result (put_fields (meta_fields (hx_meta s)) (hp_buf p))) (\<lambda>buf.
     hash_put 0 (p\<lparr>hp_buf := buf\<rparr>))) s"

definition allocateDataPage :: "(HashState, int32) prog" where
  "allocateDataPage s = (let pageID = hm_nextPageID (hx_meta s) in
     seq (set_meta (\<lambda>m. m\<lparr>hm_nextPageID := hm_nextPageID m + 1\<rparr>)) (\<lambda>_.
     seq (lift_result (NewHeapPage (sint pageID))) (\<lambda>newPage.
     seq (hx_on (NewPage (hash_key (hx_idx s) (sint pageID)) (Some newPage))) (\<lambda>_.
     pure pageID))) s)"

definition initBucketPage :: "int32 \<Rightarrow> (HashState, unit) prog" where
  "initBucketPage pageID =
     seq (hash_get (sint pageID)) (\<lambda>p.
     seq (lift_result (put_fields [(bucketHdrNextOverflowOff, be32 0xFFFFFFFF), (bucketHdrEntryCountOff, be32 0),
            (bucketHdrFreeOff, be32 (word_of_nat bucketDataStartOff))] (hp_buf p))) (\<lambda>buf.
     hash_put (sint pageID) (p\<lparr>hp_buf := buf\<rparr>)))"

text \<open>The directory page and offset of a bucket; Go divides towards zero. A negative offset is out of the
  buffer.\<close>

definition dir_page :: "int32 \<Rightarrow> int" where
  "dir_page bucketID = 1 + sint bucketID sdiv int dirEntriesPerPage"

definition dir_off :: "int32 \<Rightarrow> int" where
  "dir_off bucketID = int heapHeaderSize + (sint bucketID smod int dirEntriesPerPage) * int dirEntryBytes"

definition getBucketHeadPageID :: "int32 \<Rightarrow> (HashState, int32) prog" where
  "getBucketHeadPageID bucketID =
     seq (hash_get (dir_page bucketID)) (\<lambda>p.
     if dir_off bucketID < 0 then lift_result Panic
     else lift_result (get_u32 (hp_buf p) (nat (dir_off bucketID))))"

definition setBucketHeadPageID :: "int32 \<Rightarrow> int32 \<Rightarrow> (HashState, unit) prog" where
  "setBucketHeadPageID bucketID headPageID =
     seq (hash_get (dir_page bucketID)) (\<lambda>p.
     if dir_off bucketID < 0 then lift_result Panic
     else seq (lift_result (put_u32 (hp_buf p) (nat (dir_off bucketID)) headPageID)) (\<lambda>buf.
       hash_put (dir_page bucketID) (p\<lparr>hp_buf := buf\<rparr>)))"

section \<open>Chains\<close>

text \<open>Appending an entry to a page that has room at \<open>free\<close>.\<close>

definition append_entry :: "nat \<Rightarrow> bytes \<Rightarrow> bytes \<Rightarrow> bytes result" where
  "append_entry free entryBytes buf =
     bind_result (put_bytes buf free entryBytes) (\<lambda>buf1.
     bind_result (put_u32 buf1 bucketHdrFreeOff (word_of_nat (free + length entryBytes))) (\<lambda>buf2.
     bind_result (get_u32 buf2 bucketHdrEntryCountOff) (\<lambda>cnt.
     put_u32 buf2 bucketHdrEntryCountOff (cnt + 1))))"

text \<open>The end of the chain is reached: link a new overflow page to the page \<open>p\<close> and go on there.\<close>

definition add_overflow :: "int32 \<Rightarrow> HeapPage \<Rightarrow> (HashState, int32) prog" where
  "add_overflow current p =
     seq allocateDataPage (\<lambda>overflowPageID.
     seq (initBucketPage overflowPageID) (\<lambda>_.
     seq (lift_result (put_u32 (hp_buf p) bucketHdrNextOverflowOff overflowPageID)) (\<lambda>buf.
     seq (hash_put (sint current) (p\<lparr>hp_buf := buf\<rparr>)) (\<lambda>_.
     pure overflowPageID))))"

partial_function (option) insert_chain :: "bytes \<Rightarrow> int32 \<Rightarrow> (HashState, unit) oprog" where
  "insert_chain entryBytes current s =
     oseq (once (hash_get (sint current))) (\<lambda>p s1.
     oseq (once (lift_result (get_u32 (hp_buf p) bucketHdrFreeOff))) (\<lambda>free32 s2.
     if unat free32 + length entryBytes \<le> PageSize then
       once (seq (lift_result (append_entry (unat free32) entryBytes (hp_buf p))) (\<lambda>buf.
         hash_put (sint current) (p\<lparr>hp_buf := buf\<rparr>))) s2
     else
       oseq (once (lift_result (get_u32 (hp_buf p) bucketHdrNextOverflowOff))) (\<lambda>nextID s3.
       if nextID = -1
       then oseq (once (add_overflow current p)) (\<lambda>overflowPageID s4. insert_chain entryBytes overflowPageID s4) s3
       else insert_chain entryBytes nextID s3) s2) s1) s"

definition insertIntoBucketChain :: "int32 \<Rightarrow> hashEntry \<Rightarrow> (HashState, unit) oprog" where
  "insertIntoBucketChain bucketID entry s =
     oseq (once (getBucketHeadPageID bucketID)) (\<lambda>current.
     oseq (once (lift_result (encodeEntry (hi_keyType (hx_idx s)) entry))) (\<lambda>entryBytes.
     insert_chain entryBytes current)) s"

partial_function (option) drain_chain :: "hashEntry list \<Rightarrow> int32 \<Rightarrow> (HashState, hashEntry list) oprog" where
  "drain_chain entries current s =
     (if current \<noteq> -1 \<and> current \<noteq> 0 then
        oseq (once (hash_get (sint current))) (\<lambda>p s1.
        oseq (once (lift_result (readAllEntriesFromPage (hi_keyType (hx_idx s1)) (hp_buf p)))) (\<lambda>pageEntries s2.
        oseq (once (lift_result (get_u32 (hp_buf p) bucketHdrNextOverflowOff))) (\<lambda>nextID s3.
        drain_chain (entries @ pageEntries) nextID s3) s2) s1) s
      else Some (Ok entries, s))"

definition drainBucketChain :: "int32 \<Rightarrow> (HashState, hashEntry list) oprog" where
  "drainBucketChain bucketID =
     oseq (once (getBucketHeadPageID bucketID)) (\<lambda>head.
     oseq (drain_chain [] head) (\<lambda>entries.
     oseq (once (initBucketPage head)) (\<lambda>_. once (pure entries))))"

text \<open>The callback runs for each entry of a page before the next page is read.\<close>

fun run_callback :: "(hashEntry \<Rightarrow> 'a \<Rightarrow> 'a result) \<Rightarrow> hashEntry list \<Rightarrow> 'a \<Rightarrow> 'a result" where
  "run_callback fn [] acc = Ok acc"
| "run_callback fn (e # es) acc = bind_result (fn e acc) (run_callback fn es)"

partial_function (option) for_each_loop ::
    "(hashEntry \<Rightarrow> TID list \<Rightarrow> TID list result) \<Rightarrow> TID list \<Rightarrow> int32 \<Rightarrow> (HashState, TID list) oprog" where
  "for_each_loop fn acc current s =
     (if current \<noteq> -1 \<and> current \<noteq> 0 then
        oseq (once (hash_get (sint current))) (\<lambda>p s1.
        oseq (once (lift_result (readAllEntriesFromPage (hi_keyType (hx_idx s1)) (hp_buf p)))) (\<lambda>entries s2.
        oseq (once (lift_result (run_callback fn entries acc))) (\<lambda>acc' s3.
        oseq (once (lift_result (get_u32 (hp_buf p) bucketHdrNextOverflowOff))) (\<lambda>nextID s4.
        for_each_loop fn acc' nextID s4) s3) s2) s1) s
      else Some (Ok acc, s))"

definition forEachEntry :: "int32 \<Rightarrow> (hashEntry \<Rightarrow> TID list \<Rightarrow> TID list result) \<Rightarrow> (HashState, TID list) oprog" where
  "forEachEntry bucketID fn = oseq (once (getBucketHeadPageID bucketID)) (\<lambda>head. for_each_loop fn [] head)"

section \<open>Operations\<close>

fun insert_entries :: "hashEntry list \<Rightarrow> (HashState, unit) oprog" where
  "insert_entries [] s = Some (Ok (), s)"
| "insert_entries (e # es) s =
     oseq (insertIntoBucketChain (computeBucket (hx_meta s) (he_hash e)) e) (\<lambda>_. insert_entries es) s"

definition split_masks :: "hashMeta \<Rightarrow> hashMeta" where
  "split_masks m = (let newMaxBucket = hm_maxBucket m + 1;
       newHighmask = (if hm_highmask m <s newMaxBucket then push_bit 1 (hm_highmask m) OR 1 else hm_highmask m)
     in m\<lparr>hm_bucketCount := newMaxBucket + 1, hm_maxBucket := newMaxBucket, hm_highmask := newHighmask\<rparr>)"

definition split_pointer :: "hashMeta \<Rightarrow> hashMeta" where
  "split_pointer m = (let nextSplitPointer = hm_splitPointer m + 1 in
     if nextSplitPointer = hm_lowmask m + 1 then m\<lparr>hm_splitPointer := 0, hm_lowmask := hm_highmask m\<rparr>
     else m\<lparr>hm_splitPointer := nextSplitPointer\<rparr>)"

definition performSplit :: "(HashState, unit) oprog" where
  "performSplit s = (let splitBucketID = hm_splitPointer (hx_meta s); newBucketID = hm_maxBucket (hx_meta s) + 1 in
     oseq (once (seq allocateDataPage (\<lambda>newHeadPageID.
       seq (initBucketPage newHeadPageID) (\<lambda>_.
       seq (setBucketHeadPageID newBucketID newHeadPageID) (\<lambda>_.
       seq (set_meta split_masks) (\<lambda>_. writeMeta)))))) (\<lambda>_.
     oseq (drainBucketChain splitBucketID) (\<lambda>entries.
     oseq (insert_entries entries) (\<lambda>_.
     once (seq (set_meta split_pointer) (\<lambda>_. writeMeta))))) s)"

partial_function (option) hash_split_loop :: "(HashState, unit) oprog" where
  "hash_split_loop s = (if over_max_load (hx_meta s) then oseq performSplit (\<lambda>_ s1. hash_split_loop s1) s else Some (Ok (), s))"

definition hash_Insert :: "gvalue \<Rightarrow> TID \<Rightarrow> (HashState, unit) oprog" where
  "hash_Insert key tid s = (let hash = hashFunction key; bucketID = computeBucket (hx_meta s) hash;
       entry = \<lparr>he_hash = hash, he_key = key, he_tid = tid\<rparr> in
     oseq (insertIntoBucketChain bucketID entry) (\<lambda>_.
     oseq (once (seq (set_meta (\<lambda>m. m\<lparr>hm_recordCount := hm_recordCount m + 1\<rparr>)) (\<lambda>_. writeMeta))) (\<lambda>_.
     hash_split_loop)) s)"

definition search_callback :: "TypeDefinition \<Rightarrow> int32 \<Rightarrow> gvalue \<Rightarrow> hashEntry \<Rightarrow> TID list \<Rightarrow> TID list result" where
  "search_callback keyType hash key e result =
     (if he_hash e = hash
      then bind_result (compareKeys keyType key (he_key e)) (\<lambda>c. Ok (if c = 0 then result @ [he_tid e] else result))
      else Ok result)"

definition hash_Search :: "gvalue \<Rightarrow> (HashState, TID list) oprog" where
  "hash_Search key s = (let hash = hashFunction key in
     forEachEntry (computeBucket (hx_meta s) hash) (search_callback (hi_keyType (hx_idx s)) hash key) s)"

definition hash_RangeSearch :: "gvalue \<Rightarrow> bool \<Rightarrow> gvalue \<Rightarrow> bool \<Rightarrow> (HashState, TID list) oprog" where
  "hash_RangeSearch from fromInclusive to toInclusive s = Some (Err ErrRangeNotSupported, s)"

section \<open>Opening an index\<close>

fun new_dir_pages :: "nat \<Rightarrow> nat \<Rightarrow> (HashState, unit) prog" where
  "new_dir_pages i 0 = pure ()"
| "new_dir_pages i (Suc n) = (\<lambda>s.
     seq (lift_result (NewHeapPage (int i))) (\<lambda>dirPage.
     seq (hx_on (NewPage (hash_key (hx_idx s) (int i)) (Some dirPage))) (\<lambda>_.
     new_dir_pages (i + 1) n)) s)"

fun new_buckets :: "nat \<Rightarrow> nat \<Rightarrow> (HashState, unit) prog" where
  "new_buckets bucketID 0 = pure ()"
| "new_buckets bucketID (Suc n) =
     seq allocateDataPage (\<lambda>headPageID.
     seq (initBucketPage headPageID) (\<lambda>_.
     seq (setBucketHeadPageID (word_of_nat bucketID) headPageID) (\<lambda>_.
     new_buckets (bucketID + 1) n)))"

definition initial_meta :: hashMeta where
  "initial_meta = \<lparr>hm_bucketCount = 16, hm_lowmask = 15, hm_highmask = 15, hm_splitPointer = 0, hm_maxBucket = 15,
     hm_recordCount = 0, hm_nextPageID = word_of_nat dataStartPage\<rparr>"

definition initializeNew :: "(HashState, unit) prog" where
  "initializeNew s =
     seq (lift_result (NewHeapPage 0)) (\<lambda>metaPage.
     seq (hx_on (NewPage (hash_key (hx_idx s) 0) (Some metaPage))) (\<lambda>_.
     seq (new_dir_pages 1 dirPages) (\<lambda>_.
     seq (set_meta (\<lambda>_. initial_meta)) (\<lambda>_.
     seq (new_buckets 0 16) (\<lambda>_.
     writeMeta))))) s"

definition hash_initOrLoad :: "(HashState, unit) prog" where
  "hash_initOrLoad s = (let root = hi_root (hx_idx s); d = bp_disk (hx_pool s) in
     if fs_fault d root FsMkdir then (Err (ErrMkdirAll root), s)
     else case os_Stat (path_Join root (hi_fileID (hx_idx s))) d of
       Ok None \<Rightarrow> initializeNew s
     | Ok (Some sz) \<Rightarrow> if sz = 0 then initializeNew s else loadMeta s
     | _ \<Rightarrow> loadMeta s)"

definition no_hashMeta :: hashMeta where
  "no_hashMeta = \<lparr>hm_bucketCount = 0, hm_lowmask = 0, hm_highmask = 0, hm_splitPointer = 0, hm_maxBucket = 0,
     hm_recordCount = 0, hm_nextPageID = 0\<rparr>"

definition NewDiskHashIndex :: "string \<Rightarrow> Catalog \<Rightarrow> IndexDefinition \<Rightarrow> (Pool, DiskHashIndex) prog" where
  "NewDiskHashIndex root c def b =
     (if ix_indexType def \<noteq> IndexTypeHash then (Err ErrNotHashIndex, b)
      else case GetTypeByOid (ix_keyTypeOid def) c of
        Ok (Some keyType) \<Rightarrow>
          (case hash_initOrLoad \<lparr>hx_pool = b, hx_idx = \<lparr>hi_root = root, hi_def = def, hi_fileID = ix_fileNode def,
             hi_keyType = keyType, hi_meta = no_hashMeta\<rparr>\<rparr> of
            (Ok _, s) \<Rightarrow> (Ok (hx_idx s), hx_pool s)
          | (Err e, s) \<Rightarrow> (Err e, hx_pool s)
          | (Panic, s) \<Rightarrow> (Panic, hx_pool s))
      | _ \<Rightarrow> (Err ErrUnknownKeyType, b))"

section \<open>Entries in a page\<close>

text \<open>A key of the type of the index; its length fits the two length bytes and the entry an empty page.\<close>

definition key_ok :: "TypeDefinition \<Rightarrow> gvalue \<Rightarrow> bool" where
  "key_ok keyType key \<longleftrightarrow> (case key of VInt64 _ \<Rightarrow> ty_name keyType = ''INT64''
     | VString str \<Rightarrow> ty_name keyType = ''VARCHAR'' \<and> length str \<le> 8000 | _ \<Rightarrow> False)"

definition key_bytes :: "gvalue \<Rightarrow> bytes" where
  "key_bytes key = (case key of VInt64 k \<Rightarrow> be64 k
     | VString str \<Rightarrow> be16 (word_of_nat (length str)) @ bytes_of_string str | _ \<Rightarrow> [])"

definition entry_bytes :: "hashEntry \<Rightarrow> bytes" where
  "entry_bytes e = be32 (he_hash e) @ key_bytes (he_key e) @ be32 (tid_pageID (he_tid e)) @ be16 (tid_slotID (he_tid e))"

definition entries_bytes :: "hashEntry list \<Rightarrow> bytes" where
  "entries_bytes es = concat (map entry_bytes es)"

lemma entries_bytes_simps [simp]:
  "entries_bytes [] = []" "entries_bytes (e # es) = entry_bytes e @ entries_bytes es"
  "entries_bytes (es @ es') = entries_bytes es @ entries_bytes es'"
  by (simp_all add: entries_bytes_def)

lemma encodeEntry_ok: "key_ok keyType (he_key e) \<Longrightarrow> encodeEntry keyType e = Ok (entry_bytes e)"
  by (auto simp: key_ok_def encodeEntry_def entry_bytes_def key_bytes_def split: gvalue.splits)

lemma length_entry_bytes: "key_ok keyType (he_key e) \<Longrightarrow> 10 \<le> length (entry_bytes e) \<and> length (entry_bytes e) \<le> 8012"
  by (auto simp: key_ok_def entry_bytes_def key_bytes_def split: gvalue.splits)

text \<open>Reading at an offset is reading at the start of what is left.\<close>

lemma get_at:
  assumes "off \<le> length buf" and "off \<le> j"
  shows "get_u32 buf j = get_u32 (drop off buf) (j - off)" and "get_u16 buf j = get_u16 (drop off buf) (j - off)"
    and "get_u64 buf j = get_u64 (drop off buf) (j - off)" and "get_slice buf j l = get_slice (drop off buf) (j - off) l"
  using assms by (auto simp: buf_ops slice_def)

lemma get_head:
  "get_u32 (be32 v @ rest) 0 = Ok v" "get_u16 (be16 w @ rest) 0 = Ok w" "get_u64 (be64 x @ rest) 0 = Ok x"
  "n = length bs \<Longrightarrow> get_slice (bs @ rest) 0 n = Ok bs"
  by (simp_all add: buf_ops)

lemma get_skip:
  "length xs \<le> k \<Longrightarrow> get_u32 (xs @ ys) k = get_u32 ys (k - length xs)"
  "length xs \<le> k \<Longrightarrow> get_u16 (xs @ ys) k = get_u16 ys (k - length xs)"
  "length xs \<le> k \<Longrightarrow> get_u64 (xs @ ys) k = get_u64 ys (k - length xs)"
  "length xs \<le> k \<Longrightarrow> get_slice (xs @ ys) k l = get_slice ys (k - length xs) l"
  by (auto simp: buf_ops slice_append_right)

lemma decodeEntry_ok:
  assumes key: "key_ok keyType (he_key e)" and off: "off \<le> length buf" and at: "drop off buf = entry_bytes e @ rest"
  shows "decodeEntry keyType buf off = Ok (e, off + length (entry_bytes e))"
proof -
  note g = get_at [OF off, unfolded at]
  have tid: "NewTID (tid_pageID t) (tid_slotID t) = t" for t :: TID by (simp add: NewTID_def)
  show ?thesis
  proof (cases "he_key e")
    case (VInt64 k)
    then show ?thesis
      using key by (simp add: decodeEntry_def Let_def g key_ok_def entry_bytes_def key_bytes_def get_skip get_head tid)
  next
    case (VString str)
    then have len: "unat (word_of_nat (length str) :: uint16) = length str"
      using key by (simp add: key_ok_def unat_of_nat)
    show ?thesis
      using key VString len
      by (simp add: decodeEntry_def Let_def g key_ok_def entry_bytes_def key_bytes_def get_skip get_head tid)
  qed (use key in \<open>simp_all add: key_ok_def\<close>)
qed

lemma read_entries_ok:
  assumes "\<forall>e \<in> set es. key_ok keyType (he_key e)" and "off \<le> length buf" and "drop off buf = entries_bytes es @ rest"
  shows "read_entries keyType buf off (length es) = Ok es"
  using assms
proof (induction es arbitrary: off)
  case (Cons e es)
  have d: "decodeEntry keyType buf off = Ok (e, off + length (entry_bytes e))"
    using Cons.prems by (intro decodeEntry_ok [of keyType e off buf "entries_bytes es @ rest"]) simp_all
  have "length (drop off buf) \<ge> length (entry_bytes e)" using Cons.prems(3) by simp
  then have "off + length (entry_bytes e) \<le> length buf" using Cons.prems(2) by simp
  moreover have "drop (off + length (entry_bytes e)) buf = drop (length (entry_bytes e)) (drop off buf)"
    by (simp add: add.commute)
  ultimately have "read_entries keyType buf (off + length (entry_bytes e)) (length es) = Ok es"
    using Cons.prems by (intro Cons.IH) simp_all
  then show ?case using d by simp
qed simp

text \<open>A bucket page with its overflow pointer and entries.\<close>

definition bucket_page :: "TypeDefinition \<Rightarrow> bytes \<Rightarrow> int32 \<Rightarrow> hashEntry list \<Rightarrow> bool" where
  "bucket_page keyType buf nextID es \<longleftrightarrow> valid_buf buf \<and> 22 + length (entries_bytes es) \<le> 8192
     \<and> un32 (slice 10 4 buf) = nextID \<and> un32 (slice 14 4 buf) = word_of_nat (length es)
     \<and> un32 (slice 18 4 buf) = word_of_nat (22 + length (entries_bytes es))
     \<and> slice 22 (length (entries_bytes es)) buf = entries_bytes es \<and> (\<forall>e \<in> set es. key_ok keyType (he_key e))"

lemma bucket_pageD:
  assumes "bucket_page keyType buf nextID es"
  shows "valid_buf buf" and "length buf = 8192" and "22 + length (entries_bytes es) \<le> 8192"
    and "un32 (slice 10 4 buf) = nextID" and "un32 (slice 14 4 buf) = word_of_nat (length es)"
    and "un32 (slice 18 4 buf) = word_of_nat (22 + length (entries_bytes es))"
    and "slice 22 (length (entries_bytes es)) buf = entries_bytes es" and "\<forall>e \<in> set es. key_ok keyType (he_key e)"
  using assms valid_buf_length [of buf] by (auto simp: bucket_page_def PageSize_def)

lemma entries_count: "\<forall>e \<in> set es. key_ok keyType (he_key e) \<Longrightarrow> length es \<le> length (entries_bytes es)"
  using length_entry_bytes by (induction es) fastforce+

lemma bucket_page_gets:
  assumes "bucket_page keyType buf nextID es"
  shows "get_u32 buf bucketHdrNextOverflowOff = Ok nextID"
    and "\<exists>w. get_u32 buf bucketHdrFreeOff = Ok w \<and> unat w = 22 + length (entries_bytes es)"
    and "readAllEntriesFromPage keyType buf = Ok es"
proof -
  note b = bucket_pageD [OF assms]
  show "get_u32 buf bucketHdrNextOverflowOff = Ok nextID" using b by (simp add: buf_ops hash_consts)
  show "\<exists>w. get_u32 buf bucketHdrFreeOff = Ok w \<and> unat w = 22 + length (entries_bytes es)"
    using b(2,6) by (simp del: of_nat_add add: buf_ops hash_consts) (subst unat_of_nat, use b(3) in simp)
  have n: "unat (word_of_nat (length es) :: uint32) = length es"
    using entries_count [OF b(8)] b(3) by (simp add: unat_of_nat)
  have "drop 22 buf = slice 22 (length (entries_bytes es)) buf @ drop (22 + length (entries_bytes es)) buf"
    by (simp add: slice_def add.commute flip: drop_drop)
  then have d: "drop 22 buf = entries_bytes es @ drop (22 + length (entries_bytes es)) buf"
    using b(7) by simp
  have "read_entries keyType buf 22 (length es) = Ok es"
    by (rule read_entries_ok [OF b(8) _ d]) (use b(2) in simp)
  then show "readAllEntriesFromPage keyType buf = Ok es"
    using b(2,5) n by (simp add: readAllEntriesFromPage_def buf_ops hash_consts)
qed

end
