(* ===== verification/HashPages.thy ===== *)
theory HashPages
  imports HashIndex PagedFile
begin

text \<open>
  The pages of a hash index: what initialising a bucket page, adding an entry to it and setting its
  overflow pointer do to the bytes, and what reading, writing and allocating pages do to the index.
\<close>

section \<open>Changing a page\<close>

lemma valid_put:
  assumes "valid_buf buf" and "4 \<le> off" and "off + length bs \<le> 8192"
  shows "put_bytes buf off bs = Ok (put_at off bs buf)" and "valid_buf (put_at off bs buf)"
  using assms valid_buf_length [OF assms(1)]
  by (simp_all add: put_bytes_def PageSize_def valid_buf_def signatureOff_def slice_put_at_other)

lemma put_fields_valid:
  "valid_buf buf \<Longrightarrow> \<forall>(off, bs) \<in> set fs. 4 \<le> off \<and> off + length bs \<le> 8192 \<Longrightarrow> \<exists>buf'. put_fields fs buf = Ok buf' \<and> valid_buf buf'"
proof (induction fs arbitrary: buf)
  case (Cons f fs)
  obtain off bs where f: "f = (off, bs)" by (cases f)
  then show ?case using Cons valid_put [of buf off bs] by simp
qed simp

lemma init_page_bytes:
  assumes "valid_buf buf"
  obtains buf' where "put_fields [(bucketHdrNextOverflowOff, be32 0xFFFFFFFF), (bucketHdrEntryCountOff, be32 0),
      (bucketHdrFreeOff, be32 (word_of_nat bucketDataStartOff))] buf = Ok buf'" and "bucket_page keyType buf' (-1) []"
proof -
  let ?b1 = "put_at 10 (be32 0xFFFFFFFF) buf" let ?b2 = "put_at 14 (be32 0) ?b1" let ?b3 = "put_at 18 (be32 22) ?b2"
  note v1 = valid_put [OF assms, of 10 "be32 0xFFFFFFFF"]
  note v2 = valid_put [of ?b1 14 "be32 0"] and v3 = valid_put [of ?b2 18 "be32 22"]
  have len: "length buf = 8192" using valid_buf_length [OF assms] by (simp add: PageSize_def)
  have "bucket_page keyType ?b3 (-1) []"
    using v1 v2 v3 len by (simp add: bucket_page_def buf_simps slice_def [of _ 0])
  then show thesis using that [of ?b3] v1 v2 v3 by (simp add: hash_consts)
qed

lemma append_entry_bytes:
  assumes b: "bucket_page keyType buf nextID es" and e: "key_ok keyType (he_key e)"
    and fits: "22 + length (entries_bytes es) + length (entry_bytes e) \<le> 8192"
  obtains buf' where "append_entry (22 + length (entries_bytes es)) (entry_bytes e) buf = Ok buf'"
    and "bucket_page keyType buf' nextID (es @ [e])"
proof -
  note D = bucket_pageD [OF b]
  let ?free = "22 + length (entries_bytes es)" and ?eb = "entry_bytes e"
  let ?b1 = "put_at ?free ?eb buf" let ?b2 = "put_at 18 (be32 (word_of_nat (?free + length ?eb))) ?b1"
  let ?b3 = "put_at 14 (be32 (word_of_nat (length (es @ [e])))) ?b2"
  note v1 = valid_put [OF D(1), of ?free ?eb]
  note v2 = valid_put [of ?b1 18 "be32 (word_of_nat (?free + length ?eb))"] and v3 = valid_put [of ?b2 14 "be32 (word_of_nat (length (es @ [e])))"]
  have len: "length ?b1 = 8192" "length ?b2 = 8192" using D(2) fits by simp_all
  have cnt: "get_u32 ?b2 14 = Ok (word_of_nat (length es))"
    using D(2,5) len fits by (simp add: get_u32_def buf_simps)
  have app: "append_entry ?free ?eb buf = Ok ?b3"
    using v1 v2 v3 fits cnt by (simp add: append_entry_def hash_consts put_u32_def add.commute)
  have tail: "slice 22 (length (entries_bytes es) + length ?eb) ?b1 = entries_bytes es @ ?eb"
  proof -
    have "slice 22 (length (entries_bytes es) + length ?eb) ?b1 = slice 22 (length (entries_bytes es)) ?b1 @ slice ?free (length ?eb) ?b1"
      by (simp add: slice_def take_add add.commute)
    then show ?thesis using D(2,7) fits by (simp add: buf_simps)
  qed
  have "bucket_page keyType ?b3 nextID (es @ [e])"
    unfolding bucket_page_def
    using v1 v2 v3 fits D(2,4,8) len e tail by (simp add: buf_simps)
  then show thesis using that [of ?b3] app by simp
qed

lemma set_next_bytes:
  assumes b: "bucket_page keyType buf nextID es"
  obtains buf' where "put_u32 buf bucketHdrNextOverflowOff newID = Ok buf'" and "bucket_page keyType buf' newID es"
proof -
  note D = bucket_pageD [OF b] and v = valid_put [OF D(1), of 10 "be32 newID"]
  have "bucket_page keyType (put_at 10 (be32 newID) buf) newID es"
    using v D unfolding bucket_page_def by (simp add: buf_simps)
  then show thesis using that v by (simp add: put_u32_def hash_consts)
qed

section \<open>The index as pages\<close>

text \<open>The state of an index: its file, its pages and its next page number.\<close>

definition hash_file :: "string \<Rightarrow> TypeDefinition \<Rightarrow> HashState \<Rightarrow> (nat \<Rightarrow> bytes option) \<Rightarrow> nat \<Rightarrow> bool" where
  "hash_file F keyType s m n \<longleftrightarrow> hi_fileID (hx_idx s) = F \<and> hi_keyType (hx_idx s) = keyType \<and> file_pages F (hx_pool s) m n
     \<and> hm_nextPageID (hx_meta s) = word_of_nat n \<and> n < 2 ^ 31"

text \<open>What an operation may do besides: the pool runs operations on this file, the index object keeps
  everything but its meta data, whose next page number is the one that the file has.\<close>

definition hash_moves :: "HashState \<Rightarrow> HashState \<Rightarrow> bool" where
  "hash_moves s s' \<longleftrightarrow> runs_on (hi_fileID (hx_idx s)) (hx_pool s) (hx_pool s')
     \<and> (\<exists>n. hx_idx s' = (hx_idx s)\<lparr>hi_meta := (hx_meta s)\<lparr>hm_nextPageID := n\<rparr>\<rparr>)"

lemma hash_moves_pool: "hx_idx s' = hx_idx s \<Longrightarrow> runs_on (hi_fileID (hx_idx s)) (hx_pool s) (hx_pool s') \<Longrightarrow> hash_moves s s'"
  unfolding hash_moves_def by (intro conjI exI [of _ "hm_nextPageID (hx_meta s)"]) simp_all

lemma hash_moves_refl [simp]: "hash_moves s s"
  by (rule hash_moves_pool) simp_all

lemma hash_moves_trans [trans]: "hash_moves s s' \<Longrightarrow> hash_moves s' s'' \<Longrightarrow> hash_moves s s''"
  unfolding hash_moves_def by (auto intro: runs_on_trans)

lemma hash_fileD:
  assumes "hash_file F keyType s m n"
  shows "hi_fileID (hx_idx s) = F" and "hi_keyType (hx_idx s) = keyType" and "file_pages F (hx_pool s) m n"
    and "hm_nextPageID (hx_meta s) = word_of_nat n" and "n < 2 ^ 31"
  using assms by (auto simp: hash_file_def)

lemma hash_get_ok:
  assumes f: "hash_file F keyType s m n" and i: "m i = Some buf"
  obtains s' where "hash_get (int i) s = (Ok \<lparr>hp_pageID = int i, hp_buf = buf\<rparr>, s')"
    and "hash_file F keyType s' m n" and "hash_moves s s'" and "hx_idx s' = hx_idx s"
proof -
  note D = hash_fileD [OF f]
  obtain b' where b': "seq (GetPage (page_at F i)) slot_Page (hx_pool s) = (Ok \<lparr>hp_pageID = int i, hp_buf = buf\<rparr>, b')"
      "file_pages F b' m n" "runs_on F (hx_pool s) b'"
    by (rule read_page [OF D(3) i])
  show thesis
    using that [of "s\<lparr>hx_pool := b'\<rparr>"] b' D
    by (simp add: hash_get_def hx_on_def hash_key_def hash_file_def hash_moves_pool)
qed

lemma hash_put_ok:
  assumes f: "hash_file F keyType s m n" and i: "m i \<noteq> None" and buf: "valid_buf buf"
  obtains s' where "hash_put (int i) \<lparr>hp_pageID = int i, hp_buf = buf\<rparr> s = (Ok (), s')"
    and "hash_file F keyType s' (m(i \<mapsto> buf)) n" and "hash_moves s s'" and "hx_idx s' = hx_idx s"
proof -
  note D = hash_fileD [OF f]
  have "i < n" using i file_pagesD(3) [OF D(3)] by auto
  from update_page [OF D(3) this _ buf] i obtain b' where b':
      "UpdatePage (page_at F i) (Some \<lparr>hp_pageID = int i, hp_buf = buf\<rparr>) (hx_pool s) = (Ok (), b')"
      "file_pages F b' (m(i \<mapsto> buf)) n" "runs_on F (hx_pool s) b'"
    by blast
  show thesis
    using that [of "s\<lparr>hx_pool := b'\<rparr>"] b' D
    by (simp add: hash_put_def hx_on_def hash_key_def hash_file_def hash_moves_pool)
qed

text \<open>Reading a page, changing its bytes, writing it back.\<close>

lemma hash_edit_ok:
  assumes f: "hash_file F keyType s m n" and i: "m i = Some buf" and edit: "edit buf = Ok buf'" and v: "valid_buf buf'"
  obtains s' where "seq (hash_get (int i)) (\<lambda>p. seq (lift_result (edit (hp_buf p))) (\<lambda>b. hash_put (int i) (p\<lparr>hp_buf := b\<rparr>))) s = (Ok (), s')"
    and "hash_file F keyType s' (m(i \<mapsto> buf')) n" and "hash_moves s s'" and "hx_idx s' = hx_idx s"
proof -
  obtain s1 where s1: "hash_get (int i) s = (Ok \<lparr>hp_pageID = int i, hp_buf = buf\<rparr>, s1)" "hash_file F keyType s1 m n"
      "hash_moves s s1" "hx_idx s1 = hx_idx s"
    by (rule hash_get_ok [OF f i])
  obtain s2 where s2: "hash_put (int i) \<lparr>hp_pageID = int i, hp_buf = buf'\<rparr> s1 = (Ok (), s2)"
      "hash_file F keyType s2 (m(i \<mapsto> buf')) n" "hash_moves s1 s2" "hx_idx s2 = hx_idx s1"
    using hash_put_ok [OF s1(2) _ v] i by blast
  show thesis
    using that [of s2] s1 s2 edit hash_moves_trans [OF s1(3) s2(3)] by (simp add: seq_def lift_result_def)
qed

text \<open>Allocating a bucket page: it is added and initialised.\<close>

lemma sint_page: "n < 2 ^ 31 \<Longrightarrow> sint (word_of_nat n :: int32) = int n"
  by (rule sint_of_nat32)

lemma new_bucket_page:
  assumes f: "hash_file F keyType s m n" and n: "n + 1 < 2 ^ 31"
  obtains s' buf where "seq allocateDataPage (\<lambda>p. seq (initBucketPage p) (\<lambda>_. g p)) s = g (word_of_nat n) s'"
    and "hash_file F keyType s' (m(n \<mapsto> buf)) (n + 1)" and "bucket_page keyType buf (-1) []" and "hash_moves s s'"
    and "hx_idx s' = (hx_idx s)\<lparr>hi_meta := (hx_meta s)\<lparr>hm_nextPageID := word_of_nat (n + 1)\<rparr>\<rparr>"
proof -
  note D = hash_fileD [OF f]
  obtain p where p: "NewHeapPage (int n) = Ok p" "page_inv p" "hp_pageID p = int n" using NewHeapPage_ok [of "int n"] by blast
  define buf0 where "buf0 = hp_buf p"
  have pe: "p = \<lparr>hp_pageID = int n, hp_buf = buf0\<rparr>" using p(3) by (simp add: buf0_def)
  have v0: "valid_buf buf0" using page_inv_valid_buf [OF p(2)] by (simp add: buf0_def)
  obtain sl b1 where b1: "NewPage (page_at F n) (Some \<lparr>hp_pageID = int n, hp_buf = buf0\<rparr>) (hx_pool s) = (Ok sl, b1)"
      "file_pages F b1 m (n + 1)" "buffered F b1 n buf0" "runs_on F (hx_pool s) b1"
    by (rule add_page [OF D(3) v0])
  obtain b2 where b2: "seq (GetPage (page_at F n)) slot_Page b1 = (Ok \<lparr>hp_pageID = int n, hp_buf = buf0\<rparr>, b2)"
      "file_pages F b2 m (n + 1)" "buffered F b2 n buf0" "runs_on F b1 b2"
    by (rule read_buffered [OF b1(2,3)])
  obtain buf where buf: "put_fields [(bucketHdrNextOverflowOff, be32 0xFFFFFFFF), (bucketHdrEntryCountOff, be32 0),
      (bucketHdrFreeOff, be32 (word_of_nat bucketDataStartOff))] buf0 = Ok buf" "bucket_page keyType buf (-1) []"
    by (rule init_page_bytes [OF v0])
  have at2: "bp_lookup b2 (page_at F n) \<noteq> None" using b2(3) by (simp add: buffered_def)
  obtain b3 where b3: "UpdatePage (page_at F n) (Some \<lparr>hp_pageID = int n, hp_buf = buf\<rparr>) b2 = (Ok (), b3)"
      "file_pages F b3 (m(n \<mapsto> buf)) (n + 1)" "runs_on F b2 b3"
    using update_page [OF b2(2) _ _ bucket_pageD(1) [OF buf(2)], of n] at2 by auto
  let ?s' = "s\<lparr>hx_idx := (hx_idx s)\<lparr>hi_meta := (hx_meta s)\<lparr>hm_nextPageID := word_of_nat (n + 1)\<rparr>\<rparr>, hx_pool := b3\<rparr>"
  have si: "sint (word_of_nat n :: int32) = int n" using D(5) by (rule sint_page)
  have "seq allocateDataPage (\<lambda>p. seq (initBucketPage p) (\<lambda>_. g p)) s = g (word_of_nat n) ?s'"
    using D(1,4) si p(1) b1(1) b2(1) b3(1) buf(1)
    by (simp add: seq_def allocateDataPage_def initBucketPage_def set_meta_def lift_result_def pe hx_on_def hash_key_def
        hash_get_def hash_put_def pure_def Let_def add.commute)
  moreover have "hash_file F keyType ?s' (m(n \<mapsto> buf)) (n + 1)"
    using D b3(2) n by (simp add: hash_file_def)
  moreover have "hash_moves s ?s'"
    using D(1) runs_on_trans [OF runs_on_trans [OF b1(4) b2(4)] b3(3)] by (auto simp: hash_moves_def)
  ultimately show thesis using that buf(2) by fastforce
qed

end
