(* ===== verification/HashChain.thy ===== *)
theory HashChain
  imports HashPages
begin

text \<open>
  The chain of pages of a bucket: a list of page numbers with the entries of each page, linked by the
  overflow pointers. Reading a chain visits its entries in order; inserting into it adds the entry to
  one page of the chain, or to one new page at its end, and returns.
\<close>

type_synonym bucket_chain = "(nat \<times> hashEntry list) list"

fun next_of :: "bucket_chain \<Rightarrow> int32" where
  "next_of [] = -1"
| "next_of ((i, _) # _) = word_of_nat i"

fun chain :: "TypeDefinition \<Rightarrow> (nat \<Rightarrow> bytes option) \<Rightarrow> bucket_chain \<Rightarrow> bool" where
  "chain keyType m [] \<longleftrightarrow> True"
| "chain keyType m ((i, es) # rest) \<longleftrightarrow> dataStartPage \<le> i
     \<and> (\<exists>buf. m i = Some buf \<and> bucket_page keyType buf (next_of rest) es) \<and> chain keyType m rest"

abbreviation chain_pages :: "bucket_chain \<Rightarrow> nat list" where
  "chain_pages ch \<equiv> map fst ch"

definition chain_entries :: "bucket_chain \<Rightarrow> hashEntry list" where
  "chain_entries ch = concat (map snd ch)"

lemma chain_entries_simps [simp]:
  "chain_entries [] = []" "chain_entries ((i, es) # rest) = es @ chain_entries rest"
  by (simp_all add: chain_entries_def)

lemma chain_frame: "chain keyType m ch \<Longrightarrow> (\<And>i. i \<in> set (chain_pages ch) \<Longrightarrow> m' i = m i) \<Longrightarrow> chain keyType m' ch"
  by (induction keyType m ch rule: chain.induct) auto

lemma chain_entry_keys: "chain keyType m ch \<Longrightarrow> \<forall>e \<in> set (chain_entries ch). key_ok keyType (he_key e)"
  by (induction keyType m ch rule: chain.induct) (auto dest: bucket_pageD(8))

lemma chain_page_data: "chain keyType m ch \<Longrightarrow> i \<in> set (chain_pages ch) \<Longrightarrow> dataStartPage \<le> i \<and> m i \<noteq> None"
  by (induction keyType m ch rule: chain.induct) auto

lemma page_word:
  assumes "i < 2 ^ 31"
  shows "(word_of_nat i :: int32) \<noteq> -1" and "0 < i \<Longrightarrow> (word_of_nat i :: int32) \<noteq> 0"
proof -
  have s: "sint (word_of_nat i :: int32) = int i" using assms by (rule sint_page)
  show "(word_of_nat i :: int32) \<noteq> -1"
  proof
    assume "(word_of_nat i :: int32) = -1"
    then show False using s by simp
  qed
  show "(word_of_nat i :: int32) \<noteq> 0" if "0 < i"
  proof
    assume "(word_of_nat i :: int32) = 0"
    then show False using s that by simp
  qed
qed

section \<open>Reading a chain\<close>

lemma run_callback_append: "run_callback fn (es @ es') acc = bind_result (run_callback fn es acc) (run_callback fn es')"
  by (induction es arbitrary: acc) (auto simp: bind_result_def split: result.splits)

text \<open>One step of a loop over a chain: the page is read and decoded, the loop goes on.\<close>

lemma chain_step:
  assumes f: "hash_file F keyType s m n" and ch: "chain keyType m ((i, es) # rest)"
  obtains buf s1 where "next_of ((i, es) # rest) \<noteq> -1" and "next_of ((i, es) # rest) \<noteq> 0"
    and "hash_get (sint (next_of ((i, es) # rest))) s = (Ok \<lparr>hp_pageID = int i, hp_buf = buf\<rparr>, s1)"
    and "lift_result (readAllEntriesFromPage (hi_keyType (hx_idx s1)) buf) s1 = (Ok es, s1)"
    and "get_u32 buf bucketHdrNextOverflowOff = Ok (next_of rest)"
    and "hash_file F keyType s1 m n" and "hash_moves s s1" and "hx_idx s1 = hx_idx s"
proof -
  obtain buf where buf: "m i = Some buf" "bucket_page keyType buf (next_of rest) es" and i: "dataStartPage \<le> i"
    using ch by auto
  have n: "i < 2 ^ 31" using file_pagesD(3) [OF hash_fileD(3) [OF f] buf(1)] hash_fileD(5) [OF f] by simp
  have i0: "0 < i" using i by (simp add: hash_consts)
  obtain s1 where s1: "hash_get (int i) s = (Ok \<lparr>hp_pageID = int i, hp_buf = buf\<rparr>, s1)" "hash_file F keyType s1 m n"
      "hash_moves s s1" "hx_idx s1 = hx_idx s"
    by (rule hash_get_ok [OF f buf(1)])
  show thesis
    using that [of buf s1] page_word [OF n] i0 s1 bucket_page_gets [OF buf(2)] hash_fileD(2) [OF s1(2)]
    by (simp add: sint_page [OF n] lift_result_def)
qed

lemma for_each_chain:
  assumes "hash_file F keyType s m n" and "chain keyType m ch" and "run_callback fn (chain_entries ch) acc = Ok r"
  shows "\<exists>s'. for_each_loop fn acc (next_of ch) s = Some (Ok r, s') \<and> hash_file F keyType s' m n \<and> hash_moves s s' \<and> hx_idx s' = hx_idx s"
  using assms
proof (induction ch arbitrary: acc s)
  case Nil
  then show ?case by (subst for_each_loop.simps) simp
next
  case (Cons c rest)
  obtain i es where c: "c = (i, es)" by force
  obtain buf s1 where st: "next_of (c # rest) \<noteq> -1" "next_of (c # rest) \<noteq> 0"
      "hash_get (sint (next_of (c # rest))) s = (Ok \<lparr>hp_pageID = int i, hp_buf = buf\<rparr>, s1)"
      "lift_result (readAllEntriesFromPage (hi_keyType (hx_idx s1)) buf) s1 = (Ok es, s1)"
      "get_u32 buf bucketHdrNextOverflowOff = Ok (next_of rest)"
      "hash_file F keyType s1 m n" "hash_moves s s1" "hx_idx s1 = hx_idx s"
    unfolding c by (rule chain_step [OF Cons.prems(1) Cons.prems(2) [unfolded c]])
  obtain acc' where acc': "run_callback fn es acc = Ok acc'" "run_callback fn (chain_entries rest) acc' = Ok r"
    using Cons.prems(3) by (cases "run_callback fn es acc") (auto simp: c run_callback_append)
  obtain s' where s': "for_each_loop fn acc' (next_of rest) s1 = Some (Ok r, s')" "hash_file F keyType s' m n" "hash_moves s1 s'"
      "hx_idx s' = hx_idx s1"
    using Cons.IH [OF st(6) _ acc'(2)] Cons.prems(2) by (auto simp: c)
  have "for_each_loop fn acc (next_of (c # rest)) s = Some (Ok r, s')"
    using st(1-5) acc'(1) s'(1) by (subst for_each_loop.simps) (simp add: lift_result_def)
  then show ?case using s' st(8) hash_moves_trans [OF st(7) s'(3)] by auto
qed

lemma drain_chain_entries:
  assumes "hash_file F keyType s m n" and "chain keyType m ch"
  shows "\<exists>s'. drain_chain es0 (next_of ch) s = Some (Ok (es0 @ chain_entries ch), s') \<and> hash_file F keyType s' m n
    \<and> hash_moves s s' \<and> hx_idx s' = hx_idx s"
  using assms
proof (induction ch arbitrary: es0 s)
  case Nil
  then show ?case by (subst drain_chain.simps) simp
next
  case (Cons c rest)
  obtain i es where c: "c = (i, es)" by force
  obtain buf s1 where st: "next_of (c # rest) \<noteq> -1" "next_of (c # rest) \<noteq> 0"
      "hash_get (sint (next_of (c # rest))) s = (Ok \<lparr>hp_pageID = int i, hp_buf = buf\<rparr>, s1)"
      "lift_result (readAllEntriesFromPage (hi_keyType (hx_idx s1)) buf) s1 = (Ok es, s1)"
      "get_u32 buf bucketHdrNextOverflowOff = Ok (next_of rest)"
      "hash_file F keyType s1 m n" "hash_moves s s1" "hx_idx s1 = hx_idx s"
    unfolding c by (rule chain_step [OF Cons.prems(1) Cons.prems(2) [unfolded c]])
  obtain s' where s': "drain_chain (es0 @ es) (next_of rest) s1 = Some (Ok (es0 @ es @ chain_entries rest), s')" "hash_file F keyType s' m n" "hash_moves s1 s'"
      "hx_idx s' = hx_idx s1"
    using Cons.IH [OF st(6), of "es0 @ es"] Cons.prems(2) by (auto simp: c)
  have "drain_chain es0 (next_of (c # rest)) s = Some (Ok (es0 @ chain_entries (c # rest)), s')"
    using st(1-5) s'(1) by (subst drain_chain.simps) (simp add: c lift_result_def)
  then show ?case using s' st(8) hash_moves_trans [OF st(7) s'(3)] by auto
qed

section \<open>Inserting into a chain\<close>

text \<open>What an insertion does to the pages: the chain keeps its pages or gets the page \<open>n\<close> at its end, and
  every other page keeps its content.\<close>

definition chain_grows :: "(nat \<Rightarrow> bytes option) \<Rightarrow> nat \<Rightarrow> bucket_chain \<Rightarrow> (nat \<Rightarrow> bytes option) \<Rightarrow> nat \<Rightarrow> bucket_chain \<Rightarrow> bool" where
  "chain_grows m n ch m' n' ch' \<longleftrightarrow>
     (n' = n \<and> chain_pages ch' = chain_pages ch \<or> n' = n + 1 \<and> chain_pages ch' = chain_pages ch @ [n])
     \<and> (\<forall>j. j \<notin> set (chain_pages ch') \<longrightarrow> m' j = m j)"

lemma next_of_pages: "chain_pages ch' = chain_pages ch \<or> ch \<noteq> [] \<and> chain_pages ch' = chain_pages ch @ ns \<Longrightarrow> next_of ch' = next_of ch"
  by (cases ch; cases ch') auto

lemma chain_grows_next: "chain_grows m n ch m' n' ch' \<Longrightarrow> ch \<noteq> [] \<Longrightarrow> next_of ch' = next_of ch"
  unfolding chain_grows_def by (blast intro: next_of_pages)

lemma chain_grows_page: "chain_grows m n ch m' n' ch' \<Longrightarrow> i \<in> set (chain_pages ch') \<Longrightarrow> i \<in> set (chain_pages ch) \<or> i = n"
  unfolding chain_grows_def by (metis Un_iff empty_iff insert_iff list.set(1,2) set_append)

lemma chain_fits:
  assumes f: "hash_file F keyType s m n" and ch: "chain keyType m ((i, es) # rest)"
  shows "i < n" and "i < 2 ^ 31" and "sint (word_of_nat i :: int32) = int i"
proof -
  show "i < n" using ch file_pagesD(3) [OF hash_fileD(3) [OF f]] by auto
  then show "i < 2 ^ 31" using hash_fileD(5) [OF f] by simp
  then show "sint (word_of_nat i :: int32) = int i" by (rule sint_page)
qed

lemma insert_here:
  assumes f: "hash_file F keyType s m n" and ch: "chain keyType m ((i, es) # rest)" and d: "i \<notin> set (chain_pages rest)"
    and e: "key_ok keyType (he_key e)" and fits: "22 + length (entries_bytes es) + length (entry_bytes e) \<le> 8192"
  obtains s' m' where "insert_chain (entry_bytes e) (word_of_nat i) s = Some (Ok (), s')"
    and "hash_file F keyType s' m' n" and "hash_moves s s'" and "chain keyType m' ((i, es @ [e]) # rest)"
    and "\<forall>j. j \<noteq> i \<longrightarrow> m' j = m j"
proof -
  obtain buf where buf: "m i = Some buf" "bucket_page keyType buf (next_of rest) es" and i: "dataStartPage \<le> i"
    and r: "chain keyType m rest"
    using ch by auto
  note si = chain_fits(3) [OF f ch]
  obtain s1 where s1: "hash_get (int i) s = (Ok \<lparr>hp_pageID = int i, hp_buf = buf\<rparr>, s1)" "hash_file F keyType s1 m n"
      "hash_moves s s1" "hx_idx s1 = hx_idx s"
    by (rule hash_get_ok [OF f buf(1)])
  obtain w where w: "get_u32 buf bucketHdrFreeOff = Ok w" "unat w = 22 + length (entries_bytes es)"
    using bucket_page_gets(2) [OF buf(2)] by blast
  obtain buf' where app: "append_entry (22 + length (entries_bytes es)) (entry_bytes e) buf = Ok buf'"
      "bucket_page keyType buf' (next_of rest) (es @ [e])"
    by (rule append_entry_bytes [OF buf(2) e fits])
  obtain s2 where s2: "hash_put (int i) \<lparr>hp_pageID = int i, hp_buf = buf'\<rparr> s1 = (Ok (), s2)"
      "hash_file F keyType s2 (m(i \<mapsto> buf')) n" "hash_moves s1 s2" "hx_idx s2 = hx_idx s1"
    using hash_put_ok [OF s1(2) _ bucket_pageD(1) [OF app(2)]] buf(1) by blast
  have "insert_chain (entry_bytes e) (word_of_nat i) s = Some (Ok (), s2)"
    using fits by (subst insert_chain.simps)
      (simp add: si s1(1) s2(1) lift_result_def w app(1) seq_def PageSize_def once_def)
  moreover have r': "chain keyType (m(i \<mapsto> buf')) rest" by (rule chain_frame [OF r]) (use d in auto)
  have "chain keyType (m(i \<mapsto> buf')) ((i, es @ [e]) # rest)"
    using i app(2) r' by simp
  ultimately show thesis using that [of s2 "m(i \<mapsto> buf')"] s2(2) hash_moves_trans [OF s1(3) s2(3)] by simp
qed

lemma link_overflow:
  assumes f: "hash_file F keyType s m n" and n: "n + 1 < 2 ^ 31" and ch: "chain keyType m [(i, es)]"
    and buf: "m i = Some buf"
  obtains s' m' where "add_overflow (word_of_nat i) \<lparr>hp_pageID = int i, hp_buf = buf\<rparr> s = (Ok (word_of_nat n), s')"
    and "hash_file F keyType s' m' (n + 1)" and "hash_moves s s'" and "chain keyType m' [(i, es), (n, [])]"
    and "\<forall>j. j \<noteq> i \<and> j \<noteq> n \<longrightarrow> m' j = m j"
proof -
  have b: "bucket_page keyType buf (-1) es" and i: "dataStartPage \<le> i" using ch buf by auto
  note si = chain_fits(3) [OF f ch] and lt = chain_fits(1) [OF f ch]
  obtain buf' where b': "put_u32 buf bucketHdrNextOverflowOff (word_of_nat n) = Ok buf'" "bucket_page keyType buf' (word_of_nat n) es"
    by (rule set_next_bytes [OF b])
  define g where "g p = seq (lift_result (put_u32 buf bucketHdrNextOverflowOff p)) (\<lambda>b.
      seq (hash_put (int i) \<lparr>hp_pageID = int i, hp_buf = b\<rparr>) (\<lambda>_. pure p))" for p :: int32
  obtain s1 nb where s1: "seq allocateDataPage (\<lambda>p. seq (initBucketPage p) (\<lambda>_. g p)) s = g (word_of_nat n) s1"
      "hash_file F keyType s1 (m(n \<mapsto> nb)) (n + 1)" "bucket_page keyType nb (-1) []" "hash_moves s s1"
    by (rule new_bucket_page [OF f n, of g])
  have "(m(n \<mapsto> nb)) i \<noteq> None" using buf lt by simp
  then obtain s2 where s2: "hash_put (int i) \<lparr>hp_pageID = int i, hp_buf = buf'\<rparr> s1 = (Ok (), s2)"
      "hash_file F keyType s2 (m(n \<mapsto> nb, i \<mapsto> buf')) (n + 1)" "hash_moves s1 s2" "hx_idx s2 = hx_idx s1"
    using hash_put_ok [OF s1(2) _ bucket_pageD(1) [OF b'(2)]] by blast
  have "g (word_of_nat n) s1 = (Ok (word_of_nat n), s2)"
    by (simp add: g_def seq_def lift_result_def b'(1) s2(1) pure_def)
  then have "add_overflow (word_of_nat i) \<lparr>hp_pageID = int i, hp_buf = buf\<rparr> s = (Ok (word_of_nat n), s2)"
    using s1(1) by (simp add: add_overflow_def g_def si)
  moreover have "chain keyType (m(n \<mapsto> nb, i \<mapsto> buf')) [(i, es), (n, [])]"
    using b'(2) s1(3) i lt by simp
  ultimately show thesis
    using that [of s2 "m(n \<mapsto> nb, i \<mapsto> buf')"] s2(2) hash_moves_trans [OF s1(4) s2(3)] by simp
qed

lemma insert_chain_entry:
  assumes "hash_file F keyType s m n" and "n + 1 < 2 ^ 31" and "chain keyType m ch" and "ch \<noteq> []"
    and "distinct (chain_pages ch)" and e: "key_ok keyType (he_key e)"
  shows "\<exists>s' m' n' ch'. insert_chain (entry_bytes e) (next_of ch) s = Some (Ok (), s') \<and> hash_file F keyType s' m' n'
    \<and> hash_moves s s' \<and> chain keyType m' ch' \<and> chain_grows m n ch m' n' ch'
    \<and> mset (chain_entries ch') = add_mset e (mset (chain_entries ch))"
  using assms(1-5)
proof (induction ch arbitrary: s)
  case (Cons c rest)
  obtain i es where c: "c = (i, es)" by force
  obtain buf where buf: "m i = Some buf" "bucket_page keyType buf (next_of rest) es" and i: "dataStartPage \<le> i"
    and r: "chain keyType m rest" "distinct (chain_pages rest)" and d: "i \<notin> set (chain_pages rest)"
    using Cons.prems by (auto simp: c)
  note ch = Cons.prems(3) [unfolded c] and f = Cons.prems(1)
  show ?case
  proof (cases "22 + length (entries_bytes es) + length (entry_bytes e) \<le> 8192")
    case True
    obtain s' m' where "insert_chain (entry_bytes e) (word_of_nat i) s = Some (Ok (), s')" "hash_file F keyType s' m' n"
        "hash_moves s s'" "chain keyType m' ((i, es @ [e]) # rest)" "\<forall>j. j \<noteq> i \<longrightarrow> m' j = m j"
      by (rule insert_here [OF f ch d e True])
    then show ?thesis
      by (intro exI [of _ s'] exI [of _ m'] exI [of _ n] exI [of _ "(i, es @ [e]) # rest"]) (simp add: c chain_grows_def)
  next
    case False
    note si = chain_fits(3) [OF f ch]
    obtain s1 where s1: "hash_get (int i) s = (Ok \<lparr>hp_pageID = int i, hp_buf = buf\<rparr>, s1)" "hash_file F keyType s1 m n"
        "hash_moves s s1" "hx_idx s1 = hx_idx s"
      by (rule hash_get_ok [OF f buf(1)])
    obtain w where w: "get_u32 buf bucketHdrFreeOff = Ok w" "unat w = 22 + length (entries_bytes es)"
      using bucket_page_gets(2) [OF buf(2)] by blast
    have go: "insert_chain (entry_bytes e) (next_of (c # rest)) s = (if next_of rest = -1
        then oseq (once (add_overflow (word_of_nat i) \<lparr>hp_pageID = int i, hp_buf = buf\<rparr>)) (insert_chain (entry_bytes e)) s1
        else insert_chain (entry_bytes e) (next_of rest) s1)"
      using False by (subst insert_chain.simps)
        (simp add: c si s1(1) lift_result_def w bucket_page_gets(1) [OF buf(2)] PageSize_def split: prod.splits result.splits)
    show ?thesis
    proof (cases "rest = []")
      case True
      obtain s2 m2 where s2: "add_overflow (word_of_nat i) \<lparr>hp_pageID = int i, hp_buf = buf\<rparr> s1 = (Ok (word_of_nat n), s2)"
          "hash_file F keyType s2 m2 (n + 1)" "hash_moves s1 s2" "chain keyType m2 [(i, es), (n, [])]"
          "\<forall>j. j \<noteq> i \<and> j \<noteq> n \<longrightarrow> m2 j = m j"
        using link_overflow [OF s1(2) Cons.prems(2) _ buf(1)] ch True by metis
      have new: "chain keyType m2 [(n, [])]" using s2(4) by simp
      obtain s' m' where s': "insert_chain (entry_bytes e) (word_of_nat n) s2 = Some (Ok (), s')" "hash_file F keyType s' m' (n + 1)"
          "hash_moves s2 s'" "chain keyType m' ((n, [] @ [e]) # [])" "\<forall>j. j \<noteq> n \<longrightarrow> m' j = m2 j"
        using insert_here [OF s2(2) new _ e] length_entry_bytes [OF e] by auto
      have "i \<noteq> n" using chain_fits(1) [OF f ch] by simp
      then have "chain keyType m' [(i, es), (n, [e])]" using s'(4,5) s2(4) by simp
      moreover have "insert_chain (entry_bytes e) (next_of (c # rest)) s = Some (Ok (), s')"
        unfolding go using s2(1) s'(1) by (simp add: True)
      ultimately show ?thesis
        using s2(5) s'(2,5) hash_moves_trans [OF hash_moves_trans [OF s1(3) s2(3)] s'(3)]
        by (intro exI [of _ s'] exI [of _ m'] exI [of _ "n + 1"] exI [of _ "[(i, es), (n, [e])]"])
          (simp add: True c chain_grows_def)
    next
      case False
      obtain s' m' n' ch' where s': "insert_chain (entry_bytes e) (next_of rest) s1 = Some (Ok (), s')" "hash_file F keyType s' m' n'"
          "hash_moves s1 s'" "chain keyType m' ch'" "chain_grows m n rest m' n' ch'"
          "mset (chain_entries ch') = add_mset e (mset (chain_entries rest))"
        using Cons.IH [OF s1(2) Cons.prems(2) r(1) False r(2)] by blast
      have "i \<notin> set (chain_pages ch')"
        using chain_grows_page [OF s'(5)] d chain_fits(1) [OF f ch] by (metis less_irrefl)
      then have "chain keyType m' ((i, es) # ch')"
        using s'(4) chain_grows_next [OF s'(5) False] s'(5) buf i by (auto simp: chain_grows_def)
      moreover have "next_of rest \<noteq> -1"
        using r(1) False page_word(1) chain_fits(2) [OF f] by (cases rest) auto
      then have "insert_chain (entry_bytes e) (next_of (c # rest)) s = Some (Ok (), s')"
        unfolding go using s'(1) by simp
      ultimately show ?thesis
        using s'(2,5,6) hash_moves_trans [OF s1(3) s'(3)]
        by (intro exI [of _ s'] exI [of _ m'] exI [of _ n'] exI [of _ "(i, es) # ch'"]) (simp add: c chain_grows_def)
    qed
  qed
qed simp

end
