(* ===== verification/HashTable.thy ===== *)
theory HashTable
  imports HashChain
begin

text \<open>
  The hash index as linear hashing: the bucket that \<open>computeBucket\<close> selects is the textbook address, a
  split moves the entries of one bucket only, and the pages of the index file represent a table of
  buckets. Searching and inserting are stated on the multiset of keys and tuple ids of the table.
\<close>

section \<open>Addresses\<close>

text \<open>Linear hashing at level \<open>k\<close>, with the first \<open>q\<close> of the \<open>2^k\<close> buckets of the level already split.\<close>

definition linear_bucket :: "nat \<Rightarrow> nat \<Rightarrow> nat \<Rightarrow> nat" where
  "linear_bucket k q h = (if h mod 2 ^ k < q then h mod 2 ^ (k + 1) else h mod 2 ^ k)"

definition addr_shape :: "hashMeta \<Rightarrow> nat \<Rightarrow> nat \<Rightarrow> bool" where
  "addr_shape m k q \<longleftrightarrow> q \<le> 2 ^ k \<and> 2 ^ k + q < 2 ^ 31 \<and> hm_lowmask m = mask k
     \<and> hm_highmask m = mask (if q = 0 then k else k + 1) \<and> hm_maxBucket m = word_of_nat (2 ^ k + q - 1)
     \<and> hm_bucketCount m = word_of_nat (2 ^ k + q)"

definition meta_shape :: "hashMeta \<Rightarrow> nat \<Rightarrow> nat \<Rightarrow> bool" where
  "meta_shape m k q \<longleftrightarrow> addr_shape m k q \<and> q < 2 ^ k \<and> hm_splitPointer m = word_of_nat q"

lemma mod_double: "h mod 2 ^ (k + 1) = h mod 2 ^ k \<or> h mod 2 ^ (k + 1) = 2 ^ k + h mod (2 ^ k :: nat)"
proof -
  have "h mod (2 ^ k * 2) = 2 ^ k * (h div 2 ^ k mod 2) + h mod 2 ^ k" by (rule mod_mult2_eq)
  moreover have "h div 2 ^ k mod 2 = 0 \<or> h div 2 ^ k mod 2 = 1" by linarith
  ultimately show ?thesis by (auto simp: mult.commute)
qed

lemma mod_pow_less: "h mod 2 ^ k < (2 ^ k :: nat)"
  by simp

lemma linear_bucket_alt:
  "linear_bucket k q h = (if h mod 2 ^ (k + 1) < 2 ^ k + q then h mod 2 ^ (k + 1) else h mod 2 ^ k)"
  using mod_double [of h k] mod_pow_less [of h k] unfolding linear_bucket_def by (simp only: split: if_splits) linarith

lemma linear_bucket_less: "linear_bucket k q h < 2 ^ k + q"
  using mod_double [of h k] mod_pow_less [of h k] unfolding linear_bucket_def by (simp only: split: if_splits) linarith

text \<open>Splitting bucket \<open>q\<close> moves entries of that bucket only.\<close>

lemma linear_bucket_split: "linear_bucket k q h \<noteq> q \<Longrightarrow> linear_bucket k (q + 1) h = linear_bucket k q h"
  using mod_double [of h k] mod_pow_less [of h k] unfolding linear_bucket_def by (auto split: if_splits)

lemma linear_bucket_round: "linear_bucket (k + 1) 0 h = linear_bucket k (2 ^ k) h"
  by (simp add: linear_bucket_def)

lemma pow_level: "2 ^ k < (2 ^ 31 :: nat) \<Longrightarrow> k \<le> 30"
  using power_less_imp_less_exp [of "2 :: nat" k 31] by simp

lemma sint_nat_word: "unat (w :: int32) < 2 ^ 31 \<Longrightarrow> sint w = int (unat w)"
  using sint_of_nat32 [of "unat w"] by simp

lemma unat_nat_word: "n < 2 ^ 31 \<Longrightarrow> unat (word_of_nat n :: int32) = n"
  by (simp add: unat_of_nat)

lemma word_nat_eq: "a < 2 ^ 31 \<Longrightarrow> b < 2 ^ 31 \<Longrightarrow> (word_of_nat a :: int32) = word_of_nat b \<longleftrightarrow> a = b"
  using unat_nat_word [of a] unat_nat_word [of b] by metis

lemma unat_nonneg: "0 \<le> sint w \<longleftrightarrow> unat (w :: int32) < 2 ^ 31"
proof
  assume "0 \<le> sint w"
  then have "w = word_of_nat (nat (sint w))" by simp
  moreover have "nat (sint w) < 2 ^ 31" using sint_lt [of w] by simp
  ultimately show "unat w < 2 ^ 31" by (metis unat_nat_word)
qed (simp add: sint_nat_word)

lemma and_mask_nat: "(w :: int32) AND mask j = word_of_nat (unat w mod 2 ^ j)"
proof -
  have "w AND mask j = word_of_nat (unat (take_bit j w))" by (simp add: take_bit_eq_mask)
  also have "unat (take_bit j w) = unat w mod 2 ^ j" by (subst unsigned_take_bit_eq) (rule take_bit_eq_mod)
  finally show ?thesis .
qed

lemma sless_nat: "a < 2 ^ 31 \<Longrightarrow> b < 2 ^ 31 \<Longrightarrow> (word_of_nat a :: int32) <s word_of_nat b \<longleftrightarrow> a < b"
  by (simp add: word_sless_alt sint_of_nat32)

lemma computeBucket_address:
  assumes a: "addr_shape m k q" and h: "0 \<le> sint hash"
  shows "computeBucket m hash = word_of_nat (linear_bucket k q (unat hash))"
proof -
  have k: "2 ^ k + q < 2 ^ 31" using a by (auto simp: addr_shape_def)
  let ?hi = "if q = 0 then k else k + 1"
  have lt: "unat hash mod 2 ^ ?hi < 2 ^ 31"
    using h mod_less_eq_dividend [of "unat hash" "2 ^ ?hi"] by (simp only: unat_nonneg)
  have cmp: "hm_maxBucket m <s hash AND hm_highmask m \<longleftrightarrow> 2 ^ k + q - 1 < unat hash mod 2 ^ ?hi"
    using a k lt by (simp only: addr_shape_def and_mask_nat) (intro sless_nat; simp)
  have "computeBucket m hash = word_of_nat (if 2 ^ k + q - 1 < unat hash mod 2 ^ ?hi then unat hash mod 2 ^ k else unat hash mod 2 ^ ?hi)"
    using a cmp by (simp add: computeBucket_def Let_def addr_shape_def and_mask_nat)
  also have "(if 2 ^ k + q - 1 < unat hash mod 2 ^ ?hi then unat hash mod 2 ^ k else unat hash mod 2 ^ ?hi)
      = linear_bucket k q (unat hash)"
    using mod_pow_less [of "unat hash" k] mod_double [of "unat hash" k] unfolding linear_bucket_alt by (cases "q = 0") auto
  finally show ?thesis .
qed

section \<open>Splitting, as the meta data sees it\<close>

lemma mask_shift: "push_bit 1 (mask k) OR 1 = (mask (k + 1) :: int32)"
  by (simp add: mask_Suc_double or.commute mult.commute)

lemma mask_word: "(mask k :: int32) = word_of_nat (2 ^ k - 1)"
  by (metis mask_nat_def of_nat_mask_eq)

lemma split_masks_shape:
  assumes m: "meta_shape m k q" and lt: "2 ^ k + q + 1 < 2 ^ 31"
  shows "addr_shape (split_masks m) k (q + 1)" and "hm_splitPointer (split_masks m) = word_of_nat q"
    and "hm_maxBucket m + 1 = word_of_nat (2 ^ k + q)"
proof -
  note D = m [unfolded meta_shape_def addr_shape_def]
  have max: "hm_maxBucket m + 1 = word_of_nat (2 ^ k + q)"
  proof -
    have "word_of_nat (2 ^ k + q - 1) + 1 = (word_of_nat (2 ^ k + q - 1 + 1) :: int32)" by (simp only: of_nat_add of_nat_1)
    moreover have "2 ^ k + q - 1 + 1 = 2 ^ k + q" using one_le_power [of "2 :: nat" k] by linarith
    ultimately show ?thesis using D by metis
  qed
  then show "hm_maxBucket m + 1 = word_of_nat (2 ^ k + q)" .
  have cmp: "hm_highmask m <s hm_maxBucket m + 1 \<longleftrightarrow> q = 0"
  proof -
    define hi :: nat where "hi = (if q = 0 then 2 ^ k - 1 else 2 ^ (k + 1) - 1)"
    have "hi < 2 ^ 31" using D pow_level [of k] power_increasing [of k 30 "2 :: nat"] by (auto simp: hi_def)
    moreover have "hm_highmask m = word_of_nat hi" using D mask_word by (auto simp only: hi_def split: if_splits)
    ultimately have "hm_highmask m <s hm_maxBucket m + 1 \<longleftrightarrow> hi < 2 ^ k + q"
      using lt by (simp only: max) (intro sless_nat; simp)
    then show ?thesis using D by (auto simp: hi_def)
  qed
  show "addr_shape (split_masks m) k (q + 1)"
    using D lt max cmp by (auto simp: split_masks_def Let_def addr_shape_def mask_shift [simplified])
  show "hm_splitPointer (split_masks m) = word_of_nat q" using D by (simp add: split_masks_def Let_def)
qed

lemma split_pointer_shape:
  assumes a: "addr_shape m k (q + 1)" and q: "q < 2 ^ k" and p: "hm_splitPointer m = word_of_nat q"
  obtains k' q' where "meta_shape (split_pointer m) k' q'" and "2 ^ k' + q' = 2 ^ k + (q + 1)"
    and "\<And>h. linear_bucket k' q' h = linear_bucket k (q + 1) h"
proof -
  note D = a [unfolded addr_shape_def]
  have low: "hm_lowmask m + 1 = word_of_nat (2 ^ k)" using D by (simp add: mask_eq_exp_minus_1)
  have "hm_splitPointer m + 1 = word_of_nat (q + 1)" using p by (simp add: add.commute)
  moreover have "(word_of_nat (q + 1) :: int32) = word_of_nat (2 ^ k) \<longleftrightarrow> q + 1 = 2 ^ k"
    using D q by (intro word_nat_eq; simp)
  ultimately have last: "hm_splitPointer m + 1 = hm_lowmask m + 1 \<longleftrightarrow> q + 1 = 2 ^ k" by (simp only: low)
  show thesis
  proof (cases "q + 1 = 2 ^ k")
    case True
    show thesis
    proof (rule that [of "k + 1" 0])
      show "meta_shape (split_pointer m) (k + 1) 0"
      proof -
        have e: "2 ^ k + (q + 1) = 2 ^ (k + 1) + 0" using True by simp
        show ?thesis
          using D [unfolded e] last True by (auto simp del: of_nat_add of_nat_diff simp: meta_shape_def addr_shape_def split_pointer_def Let_def)
      qed
      show "linear_bucket (k + 1) 0 h = linear_bucket k (q + 1) h" for h using True linear_bucket_round by metis
    qed (use True in simp)
  next
    case False
    show thesis
    proof (rule that [of k "q + 1"])
      show "meta_shape (split_pointer m) k (q + 1)"
        using D q False last p by (auto simp: meta_shape_def addr_shape_def split_pointer_def Let_def add.commute)
    qed simp_all
  qed
qed

section \<open>The table on the pages\<close>

text \<open>The table has at most as many buckets as one directory page has entries: the other directory pages
  are written by nobody before they are needed.\<close>

definition dir_entries :: "bytes \<Rightarrow> bucket_chain list \<Rightarrow> bool" where
  "dir_entries dir chs \<longleftrightarrow> valid_buf dir \<and> length chs \<le> dirEntriesPerPage
     \<and> (\<forall>b < length chs. slice (heapHeaderSize + b * dirEntryBytes) 4 dir = be32 (next_of (chs ! b)))"

definition chains_ok :: "TypeDefinition \<Rightarrow> (nat \<Rightarrow> bytes option) \<Rightarrow> bucket_chain list \<Rightarrow> bool" where
  "chains_ok keyType m chs \<longleftrightarrow> (\<forall>b < length chs. chs ! b \<noteq> [] \<and> chain keyType m (chs ! b) \<and> distinct (chain_pages (chs ! b))
     \<and> (\<forall>c < length chs. b \<noteq> c \<longrightarrow> set (chain_pages (chs ! b)) \<inter> set (chain_pages (chs ! c)) = {}))"

definition table_pages :: "string \<Rightarrow> TypeDefinition \<Rightarrow> HashState \<Rightarrow> (nat \<Rightarrow> bytes option) \<Rightarrow> nat \<Rightarrow> bucket_chain list \<Rightarrow> bool" where
  "table_pages F keyType s m n chs \<longleftrightarrow> hash_file F keyType s m n \<and> m 0 \<noteq> None \<and> (\<exists>dir. m 1 = Some dir \<and> dir_entries dir chs)
     \<and> chains_ok keyType m chs"

lemma table_pagesD:
  assumes "table_pages F keyType s m n chs"
  shows "hash_file F keyType s m n" and "m 0 \<noteq> None" and "\<exists>dir. m 1 = Some dir \<and> dir_entries dir chs"
    and "length chs \<le> 2045" and "b < length chs \<Longrightarrow> chs ! b \<noteq> []" and "b < length chs \<Longrightarrow> chain keyType m (chs ! b)"
    and "b < length chs \<Longrightarrow> distinct (chain_pages (chs ! b))"
    and "b < length chs \<Longrightarrow> c < length chs \<Longrightarrow> b \<noteq> c \<Longrightarrow> set (chain_pages (chs ! b)) \<inter> set (chain_pages (chs ! c)) = {}"
  using assms by (auto simp: table_pages_def chains_ok_def dir_entries_def hash_consts PageSize_def)

lemma chain_page_lt:
  assumes "hash_file F keyType s m n" and "chain keyType m ch" and "i \<in> set (chain_pages ch)"
  shows "i < n" and "65 \<le> i"
  using chain_page_data [OF assms(2,3)] file_pagesD(3) [OF hash_fileD(3) [OF assms(1)], of i] by (auto simp: hash_consts)

text \<open>Changing one chain and possibly the page \<open>n\<close> leaves the other chains and the directory.\<close>

lemma chains_update:
  assumes t: "table_pages F keyType s m n chs" and b: "b < length chs" and f: "hash_file F keyType s' m' n'"
    and ch: "chain keyType m' ch'" "ch' \<noteq> []" "distinct (chain_pages ch')" "next_of ch' = next_of (chs ! b)"
    and pages: "\<And>i. i \<in> set (chain_pages ch') \<Longrightarrow> i \<in> set (chain_pages (chs ! b)) \<or> n \<le> i"
    and frame: "\<And>j. j \<notin> set (chain_pages ch') \<Longrightarrow> j < n \<Longrightarrow> m' j = m j"
  shows "table_pages F keyType s' m' n' (chs[b := ch'])"
proof -
  note D = table_pagesD [OF t]
  note lt = chain_page_lt [OF D(1) D(6)]
  have keep: "m' j = m j" if "j < 65" for j
  proof (rule frame)
    have n: "65 < n" using D(5) [OF b] lt(1) [OF b, of "fst (hd (chs ! b))"] lt(2) [OF b, of "fst (hd (chs ! b))"] by simp
    then show "j < n" using that by simp
    show "j \<notin> set (chain_pages ch')" using pages [of j] lt(2) [OF b, of j] that n by linarith
  qed
  have other: "set (chain_pages ch') \<inter> set (chain_pages (chs ! c)) = {}" if "c < length chs" "c \<noteq> b" for c
  proof -
    have "i \<notin> set (chain_pages (chs ! c))" if i: "i \<in> set (chain_pages ch')" for i
      using pages [OF i] D(8) [OF b \<open>c < length chs\<close>] lt(1) [OF \<open>c < length chs\<close>, of i] \<open>c \<noteq> b\<close>
      by (metis disjoint_iff not_le)
    then show ?thesis by (metis disjoint_iff)
  qed
  have rest: "chain keyType m' (chs ! c)" if "c < length chs" "c \<noteq> b" for c
    using other [OF that] lt(1) [OF that(1)] frame by (intro chain_frame [OF D(6) [OF that(1)]]) blast
  have "chains_ok keyType m' (chs[b := ch'])"
    unfolding chains_ok_def
  proof (intro allI impI conjI)
    fix c d
    assume c: "c < length (chs[b := ch'])"
    show "(chs[b := ch']) ! c \<noteq> []" "chain keyType m' ((chs[b := ch']) ! c)" "distinct (chain_pages ((chs[b := ch']) ! c))"
      using c ch(1-3) D(5,7) rest by (cases "c = b"; simp)+
    assume "d < length (chs[b := ch'])" "c \<noteq> d"
    then show "set (chain_pages ((chs[b := ch']) ! c)) \<inter> set (chain_pages ((chs[b := ch']) ! d)) = {}"
      using c b other [of c] other [of d] D(8) [of c d] by (cases "c = b"; cases "d = b") (simp_all del: set_map add: Int_commute)
  qed
  moreover have heads: "next_of ((chs[b := ch']) ! c) = next_of (chs ! c)" for c
    using ch(4) b by (cases "c = b") simp_all
  have "\<exists>dir. m' 1 = Some dir \<and> dir_entries dir (chs[b := ch'])"
    using D(3) keep [of 1] by (auto simp: dir_entries_def heads)
  ultimately show ?thesis using f D(2) keep [of 0] by (simp add: table_pages_def)
qed

lemma dir_address:
  assumes "b < 2045"
  shows "dir_page (word_of_nat b) = int 1" and "nat (dir_off (word_of_nat b)) = 10 + 4 * b" and "\<not> dir_off (word_of_nat b) < 0"
proof -
  have "sint (word_of_nat b :: int32) = int b" using assms by (intro sint_page) simp
  then show "dir_page (word_of_nat b) = int 1" "nat (dir_off (word_of_nat b)) = 10 + 4 * b" "\<not> dir_off (word_of_nat b) < 0"
    using assms by (auto simp: dir_page_def dir_off_def hash_consts PageSize_def signed_divide_int_def signed_modulo_int_def sgn_if)
qed

lemma bucket_head:
  assumes t: "table_pages F keyType s m n chs" and b: "b < length chs"
  obtains s' where "getBucketHeadPageID (word_of_nat b) s = (Ok (next_of (chs ! b)), s')"
    and "table_pages F keyType s' m n chs" and "hash_moves s s'" and "hx_idx s' = hx_idx s"
proof -
  note D = table_pagesD [OF t]
  obtain dir where dir: "m 1 = Some dir" "dir_entries dir chs" using D(3) by blast
  have len: "length dir = 8192" using dir(2) valid_buf_length [of dir] by (simp add: dir_entries_def PageSize_def)
  have b2: "b < 2045" using b D(4) by simp
  obtain s1 where s1: "hash_get (int 1) s = (Ok \<lparr>hp_pageID = int 1, hp_buf = dir\<rparr>, s1)" "hash_file F keyType s1 m n"
      "hash_moves s s1" "hx_idx s1 = hx_idx s"
    by (rule hash_get_ok [OF D(1) dir(1)])
  have "get_u32 dir (10 + 4 * b) = Ok (next_of (chs ! b))"
    using dir(2) b b2 len by (simp add: dir_entries_def get_u32_def hash_consts mult.commute)
  then have "getBucketHeadPageID (word_of_nat b) s = (Ok (next_of (chs ! b)), s1)"
    using s1(1) dir_address [OF b2] by (simp add: getBucketHeadPageID_def seq_def lift_result_def)
  moreover have "table_pages F keyType s1 m n chs" using t s1(2) by (simp add: table_pages_def)
  ultimately show thesis using that s1(3,4) by blast
qed

lemma table_moves:
  "table_pages F keyType s m n chs \<Longrightarrow> hash_file F keyType s' m n \<Longrightarrow> table_pages F keyType s' m n chs"
  by (simp add: table_pages_def)

section \<open>Operations on a bucket\<close>

lemma insert_bucket:
  assumes t: "table_pages F keyType s m n chs" and b: "b < length chs" and n: "n + 1 < 2 ^ 31"
    and e: "key_ok keyType (he_key e)"
  obtains s' m' n' ch' where "insertIntoBucketChain (word_of_nat b) e s = Some (Ok (), s')"
    and "table_pages F keyType s' m' n' (chs[b := ch'])" and "hash_moves s s'" and "n' \<le> n + 1"
    and "mset (chain_entries ch') = add_mset e (mset (chain_entries (chs ! b)))"
proof -
  obtain s1 where s1: "getBucketHeadPageID (word_of_nat b) s = (Ok (next_of (chs ! b)), s1)"
      "table_pages F keyType s1 m n chs" "hash_moves s s1" "hx_idx s1 = hx_idx s"
    by (rule bucket_head [OF t b])
  note D = table_pagesD [OF s1(2)]
  obtain s' m' n' ch' where i: "insert_chain (entry_bytes e) (next_of (chs ! b)) s1 = Some (Ok (), s')" "hash_file F keyType s' m' n'"
      "hash_moves s1 s'" "chain keyType m' ch'" "chain_grows m n (chs ! b) m' n' ch'"
      "mset (chain_entries ch') = add_mset e (mset (chain_entries (chs ! b)))"
    using insert_chain_entry [OF D(1) n D(6) [OF b] D(5) [OF b] D(7) [OF b] e] by blast
  have kt: "hi_keyType (hx_idx s) = keyType" using hash_fileD(2) [OF table_pagesD(1) [OF t]] .
  have "insertIntoBucketChain (word_of_nat b) e s = Some (Ok (), s')"
    using s1(1) i(1) kt encodeEntry_ok [of keyType e] e by (simp add: insertIntoBucketChain_def lift_result_def)
  moreover have "table_pages F keyType s' m' n' (chs[b := ch'])"
  proof (rule chains_update [OF s1(2) b i(2,4)])
    show "ch' \<noteq> []" using i(5) D(5) [OF b] by (auto simp: chain_grows_def)
    show "distinct (chain_pages ch')"
      using i(5) D(7) [OF b] chain_page_lt(1) [OF D(1) D(6) [OF b], of n] unfolding chain_grows_def
      by (metis distinct.simps(2) distinct_append distinct_singleton disjoint_insert(1) inf_bot_right list.set(1,2) less_irrefl)
    show "next_of ch' = next_of (chs ! b)" by (rule chain_grows_next [OF i(5) D(5) [OF b]])
    show "i \<in> set (chain_pages (chs ! b)) \<or> n \<le> i" if "i \<in> set (chain_pages ch')" for i
      using chain_grows_page [OF i(5) that] by blast
    show "m' j = m j" if "j \<notin> set (chain_pages ch')" for j using i(5) that unfolding chain_grows_def by blast
  qed
  moreover have "n' \<le> n + 1" using i(5) by (auto simp: chain_grows_def)
  ultimately show thesis using that i(6) hash_moves_trans [OF s1(3) i(3)] by blast
qed

lemma init_bucket:
  assumes f: "hash_file F keyType s m n" and i: "m i = Some buf" "i < 2 ^ 31"
  obtains s' buf' where "initBucketPage (word_of_nat i) s = (Ok (), s')" and "hash_file F keyType s' (m(i \<mapsto> buf')) n"
    and "bucket_page keyType buf' (-1) []" and "hash_moves s s'" and "hx_idx s' = hx_idx s"
proof -
  let ?fs = "[(bucketHdrNextOverflowOff, be32 0xFFFFFFFF), (bucketHdrEntryCountOff, be32 0),
      (bucketHdrFreeOff, be32 (word_of_nat bucketDataStartOff))]"
  have "valid_buf buf" by (rule file_pagesD(6) [OF hash_fileD(3) [OF f] i(1)])
  then obtain buf' where b: "put_fields ?fs buf = Ok buf'" "bucket_page keyType buf' (-1) []"
    by (rule init_page_bytes)
  obtain s' where s': "seq (hash_get (int i)) (\<lambda>p. seq (lift_result (put_fields ?fs (hp_buf p))) (\<lambda>b. hash_put (int i) (p\<lparr>hp_buf := b\<rparr>))) s = (Ok (), s')"
      "hash_file F keyType s' (m(i \<mapsto> buf')) n" "hash_moves s s'" "hx_idx s' = hx_idx s"
    by (rule hash_edit_ok [where edit = "put_fields ?fs", OF f i(1) b(1) bucket_pageD(1) [OF b(2)]])
  then show thesis using that b(2) sint_page [OF i(2)] by (simp add: initBucketPage_def)
qed

text \<open>Draining a bucket yields its entries and leaves an empty bucket; overflow pages are not reused.\<close>

lemma drain_bucket:
  assumes t: "table_pages F keyType s m n chs" and b: "b < length chs"
  obtains s' m' where "drainBucketChain (word_of_nat b) s = Some (Ok (chain_entries (chs ! b)), s')"
    and "table_pages F keyType s' m' n (chs[b := [(fst (hd (chs ! b)), [])]])" and "hash_moves s s'" and "hx_idx s' = hx_idx s"
proof -
  obtain s1 where s1: "getBucketHeadPageID (word_of_nat b) s = (Ok (next_of (chs ! b)), s1)"
      "table_pages F keyType s1 m n chs" "hash_moves s s1" "hx_idx s1 = hx_idx s"
    by (rule bucket_head [OF t b])
  note D = table_pagesD [OF s1(2)]
  obtain i es rest where c: "chs ! b = (i, es) # rest" using D(5) [OF b] by (cases "chs ! b") auto
  obtain s2 where s2: "drain_chain [] (next_of (chs ! b)) s1 = Some (Ok (chain_entries (chs ! b)), s2)" "hash_file F keyType s2 m n"
      "hash_moves s1 s2" "hx_idx s2 = hx_idx s1"
    using drain_chain_entries [OF D(1) D(6) [OF b], of "[]"] by auto
  obtain buf where buf: "m i = Some buf" and i: "dataStartPage \<le> i" using D(6) [OF b] by (auto simp: c)
  have lt: "i < 2 ^ 31" using chain_fits(2) [OF D(1) D(6) [OF b, unfolded c]] .
  obtain s3 buf' where s3: "initBucketPage (word_of_nat i) s2 = (Ok (), s3)" "hash_file F keyType s3 (m(i \<mapsto> buf')) n"
      "bucket_page keyType buf' (-1) []" "hash_moves s2 s3" "hx_idx s3 = hx_idx s2"
    by (rule init_bucket [OF s2(2) buf lt])
  have "drainBucketChain (word_of_nat b) s = Some (Ok (chain_entries (chs ! b)), s3)"
    using s1(1) s2(1) s3(1) by (simp add: drainBucketChain_def oseq_def [of "drain_chain [] w" for w] once_def pure_def c)
  moreover have "table_pages F keyType s3 (m(i \<mapsto> buf')) n (chs[b := [(i, [])]])"
    by (rule chains_update [OF s1(2) b s3(2)]) (use s3(3) i in \<open>auto simp: c\<close>)
  ultimately show thesis
    using that [of s3 "m(i \<mapsto> buf')"] hash_moves_trans [OF hash_moves_trans [OF s1(3) s2(3)] s3(4)] s1(4) s2(4) s3(5) by (simp add: c)
qed

section \<open>Adding a bucket and writing the meta data\<close>

lemma chains_frame:
  assumes "chains_ok keyType m chs" and "\<And>i. 65 \<le> i \<Longrightarrow> m i \<noteq> None \<Longrightarrow> m' i = m i"
  shows "chains_ok keyType m' chs"
proof -
  have "chain keyType m' ch" if "chain keyType m ch" for ch
    by (rule chain_frame [OF that]) (use chain_page_data [OF that] assms(2) in \<open>auto simp: hash_consts\<close>)
  then show ?thesis using assms(1) by (auto simp: chains_ok_def)
qed

lemma table_page0:
  assumes t: "table_pages F keyType s m n chs" and f: "hash_file F keyType s' (m(0 \<mapsto> buf)) n"
  shows "table_pages F keyType s' (m(0 \<mapsto> buf)) n chs"
  using t f chains_frame [of keyType m chs "m(0 \<mapsto> buf)"] by (auto simp: table_pages_def)

text \<open>What \<open>loadMeta\<close> reads from page 0.\<close>

definition meta_saved :: "(nat \<Rightarrow> bytes option) \<Rightarrow> hashMeta \<Rightarrow> bool" where
  "meta_saved m meta \<longleftrightarrow> (\<exists>buf. m 0 = Some buf \<and> get_u32 buf metaMagicOff = Ok hashMagic \<and> get_u32 buf metaVersionOff = Ok hashVersion
     \<and> get_u32 buf metaBucketCountOff = Ok (hm_bucketCount meta) \<and> get_u32 buf metaLowmaskOff = Ok (hm_lowmask meta)
     \<and> get_u32 buf metaHighmaskOff = Ok (hm_highmask meta) \<and> get_u32 buf metaSplitPtrOff = Ok (hm_splitPointer meta)
     \<and> get_u32 buf metaMaxBucketOff = Ok (hm_maxBucket meta) \<and> get_u64 buf metaRecordCountOff = Ok (hm_recordCount meta)
     \<and> get_u32 buf metaNextPageIDOff = Ok (hm_nextPageID meta))"

lemma meta_fields_saved:
  assumes "put_fields (meta_fields meta) buf = Ok buf'" and "length buf = 8192" and "m 0 = Some buf'"
  shows "meta_saved m meta"
  using assms unfolding meta_saved_def by (auto simp: meta_fields_def hash_consts put_bytes_def get_u32_def get_u64_def buf_simps)

lemma write_meta:
  assumes t: "table_pages F keyType s m n chs"
  obtains s' m' where "writeMeta s = (Ok (), s')" and "table_pages F keyType s' m' n chs" and "hash_moves s s'" and "hx_idx s' = hx_idx s"
    and "meta_saved m' (hx_meta s)"
proof -
  note D = table_pagesD [OF t]
  obtain buf where buf: "m 0 = Some buf" using D(2) by auto
  have "valid_buf buf" by (rule file_pagesD(6) [OF hash_fileD(3) [OF D(1)] buf])
  then obtain buf' where b: "put_fields (meta_fields (hx_meta s)) buf = Ok buf'" "valid_buf buf'"
    using put_fields_valid [of buf "meta_fields (hx_meta s)"] by (auto simp: meta_fields_def hash_consts)
  obtain s' where s': "seq (hash_get (int 0)) (\<lambda>p. seq (lift_result (put_fields (meta_fields (hx_meta s)) (hp_buf p)))
        (\<lambda>b. hash_put (int 0) (p\<lparr>hp_buf := b\<rparr>))) s = (Ok (), s')"
      "hash_file F keyType s' (m(0 \<mapsto> buf')) n" "hash_moves s s'" "hx_idx s' = hx_idx s"
    by (rule hash_edit_ok [where edit = "put_fields (meta_fields (hx_meta s))", OF D(1) buf b])
  have "meta_saved (m(0 \<mapsto> buf')) (hx_meta s)"
    using meta_fields_saved [OF b(1)] valid_buf_length [OF \<open>valid_buf buf\<close>] by (simp add: PageSize_def)
  then show thesis using that [OF _ table_page0 [OF t s'(2)] s'(3,4)] s'(1) by (simp add: writeMeta_def)
qed

lemma table_set_meta:
  assumes "table_pages F keyType s m n chs" and "hm_nextPageID (f (hx_meta s)) = hm_nextPageID (hx_meta s)"
  shows "table_pages F keyType (snd (set_meta f s)) m n chs"
  using assms by (simp add: table_pages_def hash_file_def set_meta_def)

lemma dir_append:
  assumes d: "dir_entries dir chs" and b: "length chs < 2045" and ch: "next_of ch = w"
  obtains dir' where "put_u32 dir (10 + 4 * length chs) w = Ok dir'" and "dir_entries dir' (chs @ [ch])"
proof -
  have v: "valid_buf dir" using d by (simp add: dir_entries_def)
  note p = valid_put [OF v, of "10 + 4 * length chs" "be32 w"] and len = valid_buf_length [OF v]
  have "slice (10 + 4 * c) 4 (put_at (10 + 4 * length chs) (be32 w) dir) = be32 (next_of ((chs @ [ch]) ! c))"
    if "c < length (chs @ [ch])" for c
    using that d b ch len by (cases "c = length chs")
      (auto simp: slice_put_at_same slice_put_at_other nth_append dir_entries_def hash_consts PageSize_def mult.commute)
  then have "dir_entries (put_at (10 + 4 * length chs) (be32 w) dir) (chs @ [ch])"
    using p(2) b by (simp add: dir_entries_def hash_consts PageSize_def mult.commute)
  then show thesis using that p(1) b by (simp add: put_u32_def)
qed

lemma add_bucket:
  assumes t: "table_pages F keyType s m n chs" and b: "length chs < 2045" and n: "65 \<le> n" "n + 1 < 2 ^ 31"
  obtains s' m' where "seq allocateDataPage (\<lambda>p. seq (initBucketPage p) (\<lambda>_. seq (setBucketHeadPageID (word_of_nat (length chs)) p) (\<lambda>_. g))) s = g s'"
    and "table_pages F keyType s' m' (n + 1) (chs @ [[(n, [])]])" and "hash_moves s s'"
    and "hx_idx s' = (hx_idx s)\<lparr>hi_meta := (hx_meta s)\<lparr>hm_nextPageID := word_of_nat (n + 1)\<rparr>\<rparr>"
proof -
  note D = table_pagesD [OF t]
  let ?b = "word_of_nat (length chs) :: int32"
  obtain s1 nb where s1: "seq allocateDataPage (\<lambda>p. seq (initBucketPage p) (\<lambda>_. seq (setBucketHeadPageID ?b p) (\<lambda>_. g))) s
        = seq (setBucketHeadPageID ?b (word_of_nat n)) (\<lambda>_. g) s1"
      "hash_file F keyType s1 (m(n \<mapsto> nb)) (n + 1)" "bucket_page keyType nb (-1) []" "hash_moves s s1"
      "hx_idx s1 = (hx_idx s)\<lparr>hi_meta := (hx_meta s)\<lparr>hm_nextPageID := word_of_nat (n + 1)\<rparr>\<rparr>"
    by (rule new_bucket_page [OF D(1) n(2)])
  obtain dir where dir: "m 1 = Some dir" "dir_entries dir chs" using D(3) by blast
  obtain dir' where d': "put_u32 dir (10 + 4 * length chs) (word_of_nat n) = Ok dir'" "dir_entries dir' (chs @ [[(n, [])]])"
    by (rule dir_append [OF dir(2) b, of "[(n, [])]" "word_of_nat n"]) simp_all
  have at1: "(m(n \<mapsto> nb)) 1 = Some dir" using dir(1) n(1) by simp
  have v': "valid_buf dir'" using d'(2) by (simp add: dir_entries_def)
  obtain s2 where s2: "seq (hash_get (int 1)) (\<lambda>p. seq (lift_result (put_u32 (hp_buf p) (10 + 4 * length chs) (word_of_nat n)))
        (\<lambda>b. hash_put (int 1) (p\<lparr>hp_buf := b\<rparr>))) s1 = (Ok (), s2)"
      "hash_file F keyType s2 (m(n \<mapsto> nb, 1 \<mapsto> dir')) (n + 1)" "hash_moves s1 s2" "hx_idx s2 = hx_idx s1"
    by (rule hash_edit_ok [where edit = "\<lambda>b. put_u32 b (10 + 4 * length chs) (word_of_nat n)", OF s1(2) at1 d'(1) v'])
  let ?m = "m(n \<mapsto> nb, 1 \<mapsto> dir')"
  have "setBucketHeadPageID ?b (word_of_nat n) s1 = (Ok (), s2)"
    using s2(1) dir_address [OF b] by (simp add: setBucketHeadPageID_def)
  then have "seq allocateDataPage (\<lambda>p. seq (initBucketPage p) (\<lambda>_. seq (setBucketHeadPageID ?b p) (\<lambda>_. g))) s = g s2"
    using s1(1) by (simp add: seq_def [of "setBucketHeadPageID ?b (word_of_nat n)"])
  moreover have "table_pages F keyType s2 ?m (n + 1) (chs @ [[(n, [])]])"
  proof -
    have old: "c < length chs \<Longrightarrow> n \<notin> set (chain_pages (chs ! c))" for c
      using chain_page_lt(1) [OF D(1) D(6), of c n] by auto
    have "chain keyType ?m (chs ! c)" if "c < length chs" for c
      by (rule chain_frame [OF D(6) [OF that]]) (use old [OF that] chain_page_lt(2) [OF D(1) D(6) [OF that], of 1] in \<open>auto simp del: set_map\<close>)
    then have "chains_ok keyType ?m (chs @ [[(n, [])]])"
      using D(5,7,8) old n(1) s1(3) unfolding chains_ok_def by (auto simp: nth_append less_Suc_eq hash_consts simp del: set_map)
    then show ?thesis using s2(2) D(2) d'(2) n(1) by (simp add: table_pages_def)
  qed
  ultimately show thesis using that hash_moves_trans [OF s1(4) s2(3)] s1(5) s2(4) by simp
qed

section \<open>Placing entries\<close>

definition table_entries :: "bucket_chain list \<Rightarrow> hashEntry list" where
  "table_entries chs = concat (map chain_entries chs)"

definition entry_ok :: "TypeDefinition \<Rightarrow> hashEntry \<Rightarrow> bool" where
  "entry_ok keyType e \<longleftrightarrow> key_ok keyType (he_key e) \<and> he_hash e = hashFunction (he_key e)"

definition placed :: "nat \<Rightarrow> nat \<Rightarrow> bucket_chain list \<Rightarrow> bool" where
  "placed k q chs \<longleftrightarrow> length chs = 2 ^ k + q \<and> (\<forall>b < length chs. \<forall>e \<in> set (chain_entries (chs ! b)).
     he_hash e = hashFunction (he_key e) \<and> linear_bucket k q (unat (hashFunction (he_key e))) = b)"

lemma table_entries_update:
  "b < length chs \<Longrightarrow> mset (table_entries (chs[b := ch])) + mset (chain_entries (chs ! b)) = mset (table_entries chs) + mset (chain_entries ch)"
proof (induction chs arbitrary: b)
  case (Cons c chs)
  then show ?case by (cases b) (simp_all add: table_entries_def)
qed simp

lemma table_entries_append [simp]: "table_entries (chs @ chs') = table_entries chs @ table_entries chs'"
  by (simp add: table_entries_def)

lemma hashFunction_nonneg: "0 \<le> sint (hashFunction key)"
proof -
  have "bit (hashFunction key) 31 = False"
    by (cases key) (simp_all add: bit_simps)
  then show ?thesis using bit_last_iff [of "hashFunction key"] by simp
qed

lemma hash_movesD:
  assumes "hash_moves s s'"
  shows "computeBucket (hx_meta s') = computeBucket (hx_meta s)" and "addr_shape (hx_meta s') k q = addr_shape (hx_meta s) k q"
    and "hm_splitPointer (hx_meta s') = hm_splitPointer (hx_meta s)" and "hm_recordCount (hx_meta s') = hm_recordCount (hx_meta s)"
    and "hm_maxBucket (hx_meta s') = hm_maxBucket (hx_meta s)" and "meta_shape (hx_meta s') k q = meta_shape (hx_meta s) k q"
    and "runs_on (hi_fileID (hx_idx s)) (hx_pool s) (hx_pool s')" and "hm_bucketCount (hx_meta s') = hm_bucketCount (hx_meta s)"
    and "hi_fileID (hx_idx s') = hi_fileID (hx_idx s)"
  using assms by (auto simp: hash_moves_def computeBucket_def Let_def fun_eq_iff addr_shape_def meta_shape_def)

lemma placed_length: "placed k q chs \<Longrightarrow> length chs = 2 ^ k + q"
  by (simp only: placed_def)

lemma placedD:
  "placed k q chs \<Longrightarrow> c < length chs \<Longrightarrow> x \<in> set (chain_entries (chs ! c))
    \<Longrightarrow> he_hash x = hashFunction (he_key x) \<and> linear_bucket k q (unat (hashFunction (he_key x))) = c"
  unfolding placed_def by blast

lemma place_entry:
  assumes p: "placed k q chs" and b: "b = linear_bucket k q (unat (hashFunction (he_key e)))" and e: "he_hash e = hashFunction (he_key e)"
    and ch: "mset (chain_entries ch) = add_mset e (mset (chain_entries (chs ! b)))"
  shows "placed k q (chs[b := ch])" and "mset (table_entries (chs[b := ch])) = add_mset e (mset (table_entries chs))"
    and "b < length chs"
proof -
  show lt: "b < length chs" using placed_length [OF p] linear_bucket_less [of k q "unat (hashFunction (he_key e))"] b by simp
  have s: "set (chain_entries ch) = insert e (set (chain_entries (chs ! b)))"
    using arg_cong [OF ch, of set_mset] by simp
  have "he_hash x = hashFunction (he_key x) \<and> linear_bucket k q (unat (hashFunction (he_key x))) = c"
    if "c < length chs" "x \<in> set (chain_entries ((chs[b := ch]) ! c))" for c x
  proof (cases "c = b \<and> x = e")
    case True
    then show ?thesis using b e by simp
  next
    case False
    then have "x \<in> set (chain_entries (chs ! c))" using that s lt by (cases "c = b") auto
    moreover have "c < length chs" using that(1) by simp
    ultimately show ?thesis by (intro placedD [OF p])
  qed
  then show "placed k q (chs[b := ch])" using placed_length [OF p] unfolding placed_def by simp
  show "mset (table_entries (chs[b := ch])) = add_mset e (mset (table_entries chs))"
    using table_entries_update [OF lt, of ch] ch by simp
qed

lemma insert_entries_ok:
  assumes "table_pages F keyType s m n chs" and "addr_shape (hx_meta s) k q" and "placed k q chs"
    and "\<forall>e \<in> set es. entry_ok keyType e" and "n + length es < 2 ^ 31"
  shows "\<exists>s' m' n' chs'. insert_entries es s = Some (Ok (), s') \<and> table_pages F keyType s' m' n' chs' \<and> hash_moves s s'
    \<and> n' \<le> n + length es \<and> placed k q chs' \<and> mset (table_entries chs') = mset es + mset (table_entries chs)"
  using assms
proof (induction es arbitrary: s m n chs)
  case Nil
  then show ?case using hash_moves_refl by (intro exI [of _ s] exI [of _ m] exI [of _ n] exI [of _ chs]) simp
next
  case (Cons e es)
  let ?b = "linear_bucket k q (unat (hashFunction (he_key e)))"
  have e: "key_ok keyType (he_key e)" "he_hash e = hashFunction (he_key e)" using Cons.prems(4) by (simp_all add: entry_ok_def)
  have lt: "?b < length chs" using placed_length [OF Cons.prems(3)] linear_bucket_less [of k q "unat (hashFunction (he_key e))"] by simp
  have n1: "n + 1 < 2 ^ 31" using Cons.prems(5) by simp
  obtain s1 m1 n1 ch1 where s1: "insertIntoBucketChain (word_of_nat ?b) e s = Some (Ok (), s1)"
      "table_pages F keyType s1 m1 n1 (chs[?b := ch1])" "hash_moves s s1" "n1 \<le> n + 1"
      "mset (chain_entries ch1) = add_mset e (mset (chain_entries (chs ! ?b)))"
    by (rule insert_bucket [OF Cons.prems(1) lt n1 e(1)])
  note pl = place_entry [OF Cons.prems(3) refl e(2) s1(5)]
  obtain s' m' n' chs' where s': "insert_entries es s1 = Some (Ok (), s')" "table_pages F keyType s' m' n' chs'" "hash_moves s1 s'"
      "n' \<le> n1 + length es" "placed k q chs'" "mset (table_entries chs') = mset es + mset (table_entries (chs[?b := ch1]))"
  proof -
    have "addr_shape (hx_meta s1) k q" using Cons.prems(2) hash_movesD(2) [OF s1(3)] by simp
    moreover have "\<forall>e \<in> set es. entry_ok keyType e" "n1 + length es < 2 ^ 31" using Cons.prems(4,5) s1(4) by simp_all
    ultimately show thesis using Cons.IH [OF s1(2) _ pl(1)] that by blast
  qed
  have "computeBucket (hx_meta s) (he_hash e) = word_of_nat ?b"
    using computeBucket_address [OF Cons.prems(2)] hashFunction_nonneg e(2) by simp
  then have "insert_entries (e # es) s = Some (Ok (), s')"
    using s1(1) s'(1) by (simp add: oseq_def)
  then show ?case
    using s'(2,4-6) s1(4) pl(2) hash_moves_trans [OF s1(3) s'(3)]
    by (intro exI [of _ s'] exI [of _ m'] exI [of _ n'] exI [of _ chs']) simp
qed

section \<open>Splitting a bucket\<close>

text \<open>The state of the table after the new bucket was added and bucket \<open>q\<close> was drained.\<close>

lemma placed_split:
  assumes p: "placed k q chs" and q: "q < length chs"
  shows "placed k (q + 1) ((chs @ [[(i, [])]])[q := [(j, [])]])"
    and "mset (table_entries ((chs @ [[(i, [])]])[q := [(j, [])]])) + mset (chain_entries (chs ! q)) = mset (table_entries chs)"
proof -
  have "he_hash x = hashFunction (he_key x) \<and> linear_bucket k (q + 1) (unat (hashFunction (he_key x))) = c"
    if "c < length ((chs @ [[(i, [])]])[q := [(j, [])]])" "x \<in> set (chain_entries ((chs @ [[(i, [])]])[q := [(j, [])]] ! c))" for c x
  proof -
    have c: "c < length chs" "c \<noteq> q" "x \<in> set (chain_entries (chs ! c))"
      using that q by (cases "c = q"; cases "c = length chs"; auto simp: nth_append nth_list_update)+
    then show ?thesis using placedD [OF p c(1,3)] linear_bucket_split [of k q "unat (hashFunction (he_key x))"] by simp
  qed
  then show "placed k (q + 1) ((chs @ [[(i, [])]])[q := [(j, [])]])"
    using placed_length [OF p] unfolding placed_def by simp
  show "mset (table_entries ((chs @ [[(i, [])]])[q := [(j, [])]])) + mset (chain_entries (chs ! q)) = mset (table_entries chs)"
    using table_entries_update [of q "chs @ [[(i, [])]]" "[(j, [])]"] q by (simp add: nth_append table_entries_def)
qed

lemma chain_entries_table: "b < length chs \<Longrightarrow> set (chain_entries (chs ! b)) \<subseteq> set (table_entries chs)"
  unfolding table_entries_def by (auto intro: nth_mem)

lemma table_entry_ok:
  assumes t: "table_pages F keyType s m n chs" and p: "placed k q chs" and e: "e \<in> set (table_entries chs)"
  shows "entry_ok keyType e"
proof -
  obtain b where b: "b < length chs" "e \<in> set (chain_entries (chs ! b))"
    using e by (auto simp: table_entries_def in_set_conv_nth [of _ chs])
  then show ?thesis using chain_entry_keys [OF table_pagesD(6) [OF t b(1)]] placedD [OF p b] by (simp add: entry_ok_def)
qed

lemma performSplit_ok:
  assumes t: "table_pages F keyType s m n chs" and sh: "meta_shape (hx_meta s) k q" and p: "placed k q chs"
    and room: "length chs < 2045" "n + 1 + length (chain_entries (chs ! q)) < 2 ^ 31"
  obtains s' m' n' chs' k' q' where "performSplit s = Some (Ok (), s')" and "table_pages F keyType s' m' n' chs'"
    and "meta_shape (hx_meta s') k' q'" and "placed k' q' chs'" and "mset (table_entries chs') = mset (table_entries chs)"
    and "length chs' = length chs + 1" and "n' \<le> n + 1 + length (chain_entries (chs ! q))"
    and "hm_recordCount (hx_meta s') = hm_recordCount (hx_meta s)" and "runs_on F (hx_pool s) (hx_pool s')"
    and "meta_saved m' (hx_meta s')"
proof -
  note F = hash_fileD(1) [OF table_pagesD(1) [OF t]]
  have len: "length chs = 2 ^ k + q" by (rule placed_length [OF p])
  have q: "q < length chs" "q < 2 ^ k" "hm_splitPointer (hx_meta s) = word_of_nat q" using sh len by (simp_all add: meta_shape_def)
  have n: "65 \<le> n" "n + 1 < 2 ^ 31"
    using chain_page_lt [OF table_pagesD(1) [OF t] table_pagesD(6) [OF t q(1)], of "fst (hd (chs ! q))"] table_pagesD(5) [OF t q(1)] room(2)
    by simp_all
  note sm = split_masks_shape [OF sh] and D = sh [unfolded meta_shape_def addr_shape_def]
  have small: "2 ^ k + q + 1 < 2 ^ 31" using len room(1) by simp
  define i where "i = fst (hd ((chs @ [[(n, [])]]) ! q))"
  obtain s1 m1 where s1: "seq allocateDataPage (\<lambda>p. seq (initBucketPage p) (\<lambda>_. seq (setBucketHeadPageID (word_of_nat (length chs)) p) (\<lambda>_.
        seq (set_meta split_masks) (\<lambda>_. writeMeta)))) s = seq (set_meta split_masks) (\<lambda>_. writeMeta) s1"
      "table_pages F keyType s1 m1 (n + 1) (chs @ [[(n, [])]])" "hash_moves s s1"
    by (rule add_bucket [OF t room(1) n])
  note h1 = hash_movesD [OF s1(3)]
  have sh1: "meta_shape (hx_meta s1) k q" using sh h1(6) by simp
  define s2 where "s2 = snd (set_meta split_masks s1)"
  have s2: "table_pages F keyType s2 m1 (n + 1) (chs @ [[(n, [])]])" "hx_meta s2 = split_masks (hx_meta s1)" "hx_pool s2 = hx_pool s1"
    "set_meta split_masks s1 = (Ok (), s2)"
    using table_set_meta [OF s1(2), of split_masks] by (simp_all add: s2_def set_meta_def split_masks_def Let_def)
  obtain s3 m3 where s3: "writeMeta s2 = (Ok (), s3)" "table_pages F keyType s3 m3 (n + 1) (chs @ [[(n, [])]])" "hash_moves s2 s3"
      "hx_idx s3 = hx_idx s2"
    by (rule write_meta [OF s2(1)])
  have q3: "q < length (chs @ [[(n, [])]])" using q(1) by simp
  obtain s4 m4 where s4: "drainBucketChain (word_of_nat q) s3 = Some (Ok (chain_entries (chs ! q)), s4)"
      "table_pages F keyType s4 m4 (n + 1) ((chs @ [[(n, [])]])[q := [(i, [])]])" "hash_moves s3 s4" "hx_idx s4 = hx_idx s3"
    using drain_bucket [OF s3(2) q3] q(1) unfolding i_def by (simp add: nth_append) blast
  note pl = placed_split [OF p q(1), of n i]
  have sh4: "addr_shape (hx_meta s4) k (q + 1)" "hm_splitPointer (hx_meta s4) = word_of_nat q"
    using split_masks_shape [OF sh1 small] s4(4) s3(4) s2(2) by simp_all
  have ok: "\<forall>e \<in> set (chain_entries (chs ! q)). entry_ok keyType e"
    using table_entry_ok [OF t p] chain_entries_table [OF q(1)] by blast
  obtain s5 m5 n5 chs' where s5: "insert_entries (chain_entries (chs ! q)) s4 = Some (Ok (), s5)" "table_pages F keyType s5 m5 n5 chs'"
      "hash_moves s4 s5" "n5 \<le> n + 1 + length (chain_entries (chs ! q))" "placed k (q + 1) chs'"
      "mset (table_entries chs') = mset (chain_entries (chs ! q)) + mset (table_entries ((chs @ [[(n, [])]])[q := [(i, [])]]))"
    using insert_entries_ok [OF s4(2) sh4(1) pl(1) ok room(2)] by blast
  note h5 = hash_movesD [OF s5(3)]
  define s6 where "s6 = snd (set_meta split_pointer s5)"
  have s6: "table_pages F keyType s6 m5 n5 chs'" "hx_meta s6 = split_pointer (hx_meta s5)" "hx_pool s6 = hx_pool s5"
    "set_meta split_pointer s5 = (Ok (), s6)"
    using table_set_meta [OF s5(2), of split_pointer] by (simp_all add: s6_def set_meta_def split_pointer_def Let_def)
  obtain s7 m7 where s7: "writeMeta s6 = (Ok (), s7)" "table_pages F keyType s7 m7 n5 chs'" "hash_moves s6 s7" "hx_idx s7 = hx_idx s6"
      "meta_saved m7 (hx_meta s6)"
    by (rule write_meta [OF s6(1)])
  have "addr_shape (hx_meta s5) k (q + 1)" "hm_splitPointer (hx_meta s5) = word_of_nat q" using sh4 h5(2,3) by simp_all
  then obtain k' q' where kq: "meta_shape (split_pointer (hx_meta s5)) k' q'" "2 ^ k' + q' = 2 ^ k + (q + 1)"
      "\<And>h. linear_bucket k' q' h = linear_bucket k (q + 1) h"
    using split_pointer_shape q(2) by blast
  note FF = s2(1) [THEN table_pagesD(1), THEN hash_fileD(1)] s3(2) [THEN table_pagesD(1), THEN hash_fileD(1)]
    s4(2) [THEN table_pagesD(1), THEN hash_fileD(1)] s6(1) [THEN table_pagesD(1), THEN hash_fileD(1)]
  have "performSplit s = Some (Ok (), s7)"
    using sm(3) [OF small] len q(3) s1(1) s2(4) s3(1) s4(1) s5(1) s6(4) s7(1)
    by (simp add: performSplit_def oseq_def once_def seq_def [of "set_meta f" for f])
  moreover have "placed k' q' chs'" using s5(5) kq(2,3) by (simp add: placed_def)
  moreover have "meta_shape (hx_meta s7) k' q'" using kq(1) s7(4) s6(2) by simp
  moreover have "mset (table_entries chs') = mset (table_entries chs)" using s5(6) pl(2) by (simp add: add.commute)
  moreover have "length chs' = length chs + 1" using placed_length [OF s5(5)] len by simp
  moreover have "hm_recordCount (hx_meta s7) = hm_recordCount (hx_meta s)"
    using h1(4) h5(4) s2(2) s3(4) s4(4) s6(2) s7(4) by (simp add: split_masks_def split_pointer_def Let_def)
  moreover have "runs_on F (hx_pool s) (hx_pool s7)"
    using h1(7) [unfolded F] hash_movesD(7) [OF s3(3), unfolded FF(1) s2(3)] hash_movesD(7) [OF s4(3), unfolded FF(2)]
      h5(7) [unfolded FF(3)] hash_movesD(7) [OF s7(3), unfolded FF(4) s6(3)]
    by (blast intro: runs_on_trans)
  ultimately show thesis using that s7(2,5) [unfolded s7(4) [symmetric]] s5(4) by blast
qed

section \<open>Addresses stay in the table\<close>

lemma initial_meta_shape: "meta_shape initial_meta 4 0"
  by (simp add: initial_meta_def meta_shape_def addr_shape_def mask_eq_exp_minus_1)

text \<open>C40: computeBucket is the address of linear hashing: with the masks of level k and q buckets already
  split, a hash that hashFunction returns goes to its value modulo 2^k, or modulo 2^(k+1) when that
  bucket was split; the result is a bucket number between 0 and maxBucket.\<close>

theorem computeBucket_linear:
  assumes "meta_shape meta k q"
  shows "sint (computeBucket meta (hashFunction key)) = int (linear_bucket k q (unat (hashFunction key)))
    \<and> 0 \<le> sint (computeBucket meta (hashFunction key))
    \<and> sint (computeBucket meta (hashFunction key)) \<le> sint (hm_maxBucket meta)"
proof -
  have a: "addr_shape meta k q" using assms by (simp add: meta_shape_def)
  then have lt: "2 ^ k + q < 2 ^ 31" and mx: "hm_maxBucket meta = word_of_nat (2 ^ k + q - 1)" by (simp_all only: addr_shape_def)
  let ?b = "linear_bucket k q (unat (hashFunction key))"
  have b: "?b < 2 ^ k + q" by (rule linear_bucket_less)
  have "sint (computeBucket meta (hashFunction key)) = int ?b"
    using computeBucket_address [OF a hashFunction_nonneg] b lt sint_page [of ?b] by simp
  moreover have "sint (hm_maxBucket meta) = int (2 ^ k + q - 1)" unfolding mx using lt by (intro sint_page) simp
  moreover have "int ?b \<le> int (2 ^ k + q - 1)" using b by linarith
  ultimately show ?thesis by (simp only: of_nat_0_le_iff simp_thms)
qed

theorem computeBucket_linear_witness:
  "sint (computeBucket initial_meta (hashFunction (VInt64 100))) = 4 \<and> sint (hm_maxBucket initial_meta) = 15"
  using computeBucket_linear [OF initial_meta_shape, of "VInt64 100"]
  by (simp add: linear_bucket_def initial_meta_def)

end
