(* ===== verification/HashSearch.thy ===== *)
theory HashSearch
  imports HashTable
begin

text \<open>
  What a hash index promises: it holds a multiset of keys with their tuple ids. Searching returns the
  ids of the key, inserting returns and adds one pair, whatever splits and overflow pages it takes.
\<close>

section \<open>The contents of an index\<close>

definition contents :: "hashEntry list \<Rightarrow> (gvalue \<times> TID) multiset" where
  "contents es = image_mset (\<lambda>e. (he_key e, he_tid e)) (mset es)"

text \<open>\<open>n\<close> is the next free page of the file, \<open>B\<close> the number of buckets.\<close>

definition hash_index :: "HashState \<Rightarrow> nat \<Rightarrow> nat \<Rightarrow> (gvalue \<times> TID) multiset \<Rightarrow> bool" where
  "hash_index s n B E \<longleftrightarrow> (\<exists>m k q chs. table_pages (hi_fileID (hx_idx s)) (hi_keyType (hx_idx s)) s m n chs
     \<and> meta_shape (hx_meta s) k q \<and> placed k q chs \<and> length chs = B \<and> hm_recordCount (hx_meta s) = word_of_nat (size E)
     \<and> meta_saved m (hx_meta s) \<and> size E \<le> 48 * B \<and> E = contents (table_entries chs))"

lemma hash_indexI:
  assumes "table_pages F keyType s m n chs" and "meta_shape (hx_meta s) k q" and "placed k q chs"
    and "E = contents (table_entries chs)" and "hm_recordCount (hx_meta s) = word_of_nat (size E)" and "size E \<le> 48 * length chs"
    and "meta_saved m (hx_meta s)"
  shows "hash_index s n (length chs) E"
  using assms hash_fileD(1,2) [OF table_pagesD(1) [OF assms(1)]] unfolding hash_index_def by blast

lemma sint_of_nat64: "n < 2 ^ 63 \<Longrightarrow> sint (word_of_nat n :: int64) = int n"
  by (simp add: sint_uint uint_nat unat_of_nat signed_take_bit_int_eq_self)

lemma over_load_nat:
  assumes "addr_shape m k q" and "2 ^ k + q \<le> 2045" and "hm_recordCount m = word_of_nat r" and "r < 2 ^ 62"
  shows "over_max_load m \<longleftrightarrow> 48 * (2 ^ k + q) < r"
proof -
  define X :: nat where "X = 2 ^ k + q"
  have X: "0 < X" "X \<le> 2045" using assms(2) by (simp_all add: X_def)
  have c: "hm_bucketCount m = word_of_nat X" using assms(1) by (simp add: addr_shape_def X_def)
  have nz: "hm_bucketCount m \<noteq> 0"
    using word_nat_eq [of X 0] X by (simp add: c)
  have "hm_bucketCount m * targetBucketEntries = word_of_nat (X * 64)" by (simp add: c targetBucketEntries_def)
  moreover have "sint (word_of_nat (X * 64) :: int32) = int (X * 64)" using X by (intro sint_of_nat32) simp
  ultimately have d: "sint (hm_bucketCount m * targetBucketEntries) = 64 * int X" by simp
  have r: "sint (hm_recordCount m) = int r" using assms(3,4) by (simp add: sint_of_nat64)
  have "over_max_load m \<longleftrightarrow> 4 * int r > 3 * (64 * int X)" using d r nz X by (simp add: over_max_load_def Let_def)
  also have "\<dots> \<longleftrightarrow> 48 * X < r" by linarith
  finally show ?thesis by (simp only: X_def)
qed

section \<open>Searching\<close>

lemma compareKeys_zero:
  assumes "key_ok keyType a" and "key_ok keyType b"
  shows "\<exists>c. compareKeys keyType a b = Ok c \<and> (c = 0 \<longleftrightarrow> a = b)"
proof -
  have w: "v <s w \<or> w <s v \<longleftrightarrow> v \<noteq> w" for v w :: int64 
    unfolding word_sless_alt by (metis less_irrefl linorder_neqE signed_word_eqI)
  show ?thesis
    using assms w by (cases a; cases b) (simp_all add: key_ok_def compareKeys_def, auto)
qed

lemma search_entries:
  assumes "key_ok keyType key" and "\<forall>e \<in> set es. entry_ok keyType e"
  shows "run_callback (search_callback keyType (hashFunction key) key) es acc
    = Ok (acc @ map he_tid (filter (\<lambda>e. he_key e = key) es))"
  using assms(2)
proof (induction es arbitrary: acc)
  case (Cons e es)
  have e: "key_ok keyType (he_key e)" "he_hash e = hashFunction (he_key e)" using Cons.prems by (auto simp: entry_ok_def)
  obtain c where "compareKeys keyType key (he_key e) = Ok c" "c = 0 \<longleftrightarrow> key = he_key e"
    using compareKeys_zero [OF assms(1) e(1)] by blast
  then have "search_callback keyType (hashFunction key) key e acc = Ok (if he_key e = key then acc @ [he_tid e] else acc)"
    using e(2) by (auto simp: search_callback_def)
  then show ?case using Cons by simp
qed simp

lemma table_search:
  assumes t: "table_pages F keyType s m n chs" and p: "placed k q chs" and b: "b = linear_bucket k q (unat (hashFunction key))"
  shows "filter_mset (\<lambda>e. he_key e = key) (mset (table_entries chs)) = mset (filter (\<lambda>e. he_key e = key) (chain_entries (chs ! b)))"
proof -
  have b': "b < length chs" using linear_bucket_less [of k q] placed_length [OF p] b by simp
  have "he_key e \<noteq> key" if "c < length chs" "e \<in> set (chain_entries (chs[b := []] ! c))" for c e
  proof (cases "c = b")
    case False
    then have "linear_bucket k q (unat (hashFunction (he_key e))) = c" using placedD [OF p that(1)] that(2) by simp
    then show ?thesis using False b by auto
  qed (use that b' in simp)
  then have "filter (\<lambda>e. he_key e = key) (table_entries (chs[b := []])) = []"
    by (fastforce simp: table_entries_def filter_empty_conv in_set_conv_nth [of _ "chs[b := []]"])
  then show ?thesis
    using table_entries_update [OF b', of "[]"] by (metis add_0 add.right_neutral chain_entries_simps(1) filter_union_mset mset.simps(1) mset_filter)
qed

lemma hash_Search_ok:
  assumes h: "hash_index s n B E" and key: "key_ok (hi_keyType (hx_idx s)) key"
  obtains tids s' where "hash_Search key s = Some (Ok tids, s')"
    and "mset tids = image_mset snd (filter_mset (\<lambda>x. fst x = key) E)"
    and "hash_index s' n B E" and "hx_idx s' = hx_idx s" and "runs_on (hi_fileID (hx_idx s)) (hx_pool s) (hx_pool s')"
proof -
  let ?F = "hi_fileID (hx_idx s)" and ?kt = "hi_keyType (hx_idx s)"
  obtain m k q chs where r: "table_pages ?F ?kt s m n chs" "meta_shape (hx_meta s) k q" "placed k q chs" "length chs = B"
      "hm_recordCount (hx_meta s) = word_of_nat (size E)" "size E \<le> 48 * B" "E = contents (table_entries chs)"
      "meta_saved m (hx_meta s)"
    using h by (auto simp: hash_index_def)
  define b where "b = linear_bucket k q (unat (hashFunction key))"
  have b: "b < length chs" using linear_bucket_less [of k q] placed_length [OF r(3)] by (simp add: b_def)
  have comp: "computeBucket (hx_meta s) (hashFunction key) = word_of_nat b"
    using computeBucket_address [of "hx_meta s" k q] r(2) hashFunction_nonneg by (simp add: meta_shape_def b_def)
  obtain s1 where s1: "getBucketHeadPageID (word_of_nat b) s = (Ok (next_of (chs ! b)), s1)"
      "table_pages ?F ?kt s1 m n chs" "hash_moves s s1" "hx_idx s1 = hx_idx s"
    by (rule bucket_head [OF r(1) b])
  note D = table_pagesD [OF s1(2)]
  have ok: "\<forall>e \<in> set (chain_entries (chs ! b)). entry_ok ?kt e"
    using table_entry_ok [OF r(1,3)] chain_entries_table [OF b] by blast
  let ?fs = "filter (\<lambda>e. he_key e = key) (chain_entries (chs ! b))"
  obtain s2 where s2: "for_each_loop (search_callback ?kt (hashFunction key) key) [] (next_of (chs ! b)) s1 = Some (Ok (map he_tid ?fs), s2)"
      "hash_file ?F ?kt s2 m n" "hash_moves s1 s2" "hx_idx s2 = hx_idx s1"
    using for_each_chain [OF D(1) D(6) [OF b], of "search_callback ?kt (hashFunction key) key" "[]"] search_entries [OF key ok, of "[]"] by auto
  have "hash_Search key s = Some (Ok (map he_tid ?fs), s2)"
    using comp s1(1) s2(1) by (simp add: hash_Search_def forEachEntry_def Let_def)
  moreover have "mset (map he_tid ?fs) = image_mset snd (filter_mset (\<lambda>x. fst x = key) E)"
    using table_search [OF r(1,3) b_def] r(7) by (simp add: contents_def filter_mset_image_mset image_mset.compositionality comp_def)
  moreover have "hash_index s2 n B E"
    unfolding r(4) [symmetric] using r(2-8) s1(4) s2(4) by (intro hash_indexI [OF table_moves [OF s1(2) s2(2)]]) simp_all
  moreover have "runs_on ?F (hx_pool s) (hx_pool s2)"
    using hash_movesD(7) [OF s1(3)] hash_movesD(7) [OF s2(3)] s1(4) by (auto intro: runs_on_trans)
  ultimately show thesis using that s1(4) s2(4) by simp
qed

section \<open>Inserting\<close>

lemma hash_split_loop_done: "\<not> over_max_load (hx_meta s) \<Longrightarrow> hash_split_loop s = Some (Ok (), s)"
  by (subst hash_split_loop.simps) simp

lemma hash_split_loop_step:
  "over_max_load (hx_meta s) \<Longrightarrow> performSplit s = Some (Ok (), s') \<Longrightarrow> hash_split_loop s = hash_split_loop s'"
  by (subst hash_split_loop.simps) (simp add: oseq_def)

lemma chain_entries_length: "b < length chs \<Longrightarrow> length (chain_entries (chs ! b)) \<le> length (table_entries chs)"
  using table_entries_update [of b chs "[]"] by (metis chain_entries_simps(1) le_add2 mset.simps(1) add.right_neutral size_mset size_union)

text \<open>The count of records after an insertion is at most one more than the load allows, so one split is
  enough.\<close>

lemma rebalance:
  assumes t: "table_pages F keyType s m n chs" and sh: "meta_shape (hx_meta s) k q" and p: "placed k q chs"
    and cnt: "hm_recordCount (hx_meta s) = word_of_nat (length (table_entries chs))" "length (table_entries chs) \<le> 48 * length chs + 1"
    and room: "length chs < 2045" "n + 1 + length (table_entries chs) < 2 ^ 31" and sv: "meta_saved m (hx_meta s)"
  obtains s' m' n' chs' k' q' where "hash_split_loop s = Some (Ok (), s')" and "table_pages F keyType s' m' n' chs'"
    and "meta_shape (hx_meta s') k' q'" and "placed k' q' chs'" and "mset (table_entries chs') = mset (table_entries chs)"
    and "length chs' \<le> length chs + 1" and "n' \<le> n + 1 + length (table_entries chs)" and "length (table_entries chs) \<le> 48 * length chs'"
    and "hm_recordCount (hx_meta s') = hm_recordCount (hx_meta s)" and "runs_on F (hx_pool s) (hx_pool s')"
    and "meta_saved m' (hx_meta s')"
proof (cases "over_max_load (hx_meta s)")
  case False
  have "length (table_entries chs) \<le> 48 * length chs"
    using False over_load_nat [of "hx_meta s" k q "length (table_entries chs)"] sh cnt room(1) placed_length [OF p] by (simp add: meta_shape_def)
  then show thesis using that [OF hash_split_loop_done [OF False] t sh p] sv by simp
next
  case True
  have q: "q < length chs" using sh placed_length [OF p] by (simp add: meta_shape_def)
  have r: "n + 1 + length (chain_entries (chs ! q)) < 2 ^ 31" using chain_entries_length [OF q] room(2) by simp
  obtain s' m' n' chs' k' q' where s': "performSplit s = Some (Ok (), s')" "table_pages F keyType s' m' n' chs'"
      "meta_shape (hx_meta s') k' q'" "placed k' q' chs'" "mset (table_entries chs') = mset (table_entries chs)"
      "length chs' = length chs + 1" "n' \<le> n + 1 + length (chain_entries (chs ! q))"
      "hm_recordCount (hx_meta s') = hm_recordCount (hx_meta s)" "runs_on F (hx_pool s) (hx_pool s')"
      "meta_saved m' (hx_meta s')"
    by (rule performSplit_ok [OF t sh p room(1) r])
  have le: "length (table_entries chs) \<le> 48 * length chs'" using cnt(2) s'(6) by simp
  have "\<not> over_max_load (hx_meta s')"
    using over_load_nat [of "hx_meta s'" k' q' "length (table_entries chs)"] s'(3,6,8) cnt room(1) placed_length [OF s'(4)] le by (simp add: meta_shape_def)
  then have "hash_split_loop s = Some (Ok (), s')"
    using hash_split_loop_step [OF True s'(1)] hash_split_loop_done by simp
  then show thesis using that s'(2-10) chain_entries_length [OF q] le by simp
qed

lemma hash_Insert_ok:
  assumes h: "hash_index s n B E" and key: "key_ok (hi_keyType (hx_idx s)) key" and room: "B < 2045" "n + size E + 4 < 2 ^ 31"
  obtains s' n' B' where "hash_Insert key tid s = Some (Ok (), s')" and "hash_index s' n' B' (add_mset (key, tid) E)"
    and "B' \<le> B + 1" and "n' \<le> n + size E + 3" and "hi_keyType (hx_idx s') = hi_keyType (hx_idx s)"
    and "hi_fileID (hx_idx s') = hi_fileID (hx_idx s)" and "runs_on (hi_fileID (hx_idx s)) (hx_pool s) (hx_pool s')"
proof -
  let ?F = "hi_fileID (hx_idx s)" and ?kt = "hi_keyType (hx_idx s)"
  define e where "e = \<lparr>he_hash = hashFunction key, he_key = key, he_tid = tid\<rparr>"
  obtain m k q chs where r: "table_pages ?F ?kt s m n chs" "meta_shape (hx_meta s) k q" "placed k q chs" "length chs = B"
      "hm_recordCount (hx_meta s) = word_of_nat (size E)" "size E \<le> 48 * B" "E = contents (table_entries chs)"
      "meta_saved m (hx_meta s)"
    using h by (auto simp: hash_index_def)
  define b where "b = linear_bucket k q (unat (hashFunction key))"
  have b: "b < length chs" using linear_bucket_less [of k q] placed_length [OF r(3)] by (simp add: b_def)
  have comp: "computeBucket (hx_meta s) (hashFunction key) = word_of_nat b"
    using computeBucket_address [of "hx_meta s" k q] r(2) hashFunction_nonneg by (simp add: meta_shape_def b_def)
  have e: "key_ok ?kt (he_key e)" "he_hash e = hashFunction (he_key e)" "b = linear_bucket k q (unat (hashFunction (he_key e)))"
    using key by (simp_all add: e_def b_def)
  have n1: "n + 1 < 2 ^ 31" using room(2) by simp
  obtain s1 m1 n1 ch1 where s1: "insertIntoBucketChain (word_of_nat b) e s = Some (Ok (), s1)"
      "table_pages ?F ?kt s1 m1 n1 (chs[b := ch1])" "hash_moves s s1" "n1 \<le> n + 1"
      "mset (chain_entries ch1) = add_mset e (mset (chain_entries (chs ! b)))"
    by (rule insert_bucket [OF r(1) b n1 e(1)])
  note h1 = hash_movesD [OF s1(3)] and pl = place_entry [OF r(3) e(3,2) s1(5)]
  let ?f = "\<lambda>m. m\<lparr>hm_recordCount := hm_recordCount m + 1\<rparr>"
  define s2 where "s2 = snd (set_meta ?f s1)"
  have s2: "table_pages ?F ?kt s2 m1 n1 (chs[b := ch1])" "hx_meta s2 = ?f (hx_meta s1)" "hx_pool s2 = hx_pool s1"
    "set_meta ?f s1 = (Ok (), s2)"
    using table_set_meta [OF s1(2), of ?f] by (simp_all add: s2_def set_meta_def)
  obtain s3 m3 where s3: "writeMeta s2 = (Ok (), s3)" "table_pages ?F ?kt s3 m3 n1 (chs[b := ch1])" "hash_moves s2 s3" "hx_idx s3 = hx_idx s2"
      "meta_saved m3 (hx_meta s2)"
    by (rule write_meta [OF s2(1)])
  have sizeE: "size E = length (table_entries chs)" using r(7) by (simp add: contents_def)
  have len: "length (table_entries (chs[b := ch1])) = size E + 1"
    using arg_cong [OF pl(2), of size] sizeE by simp
  have sh3: "meta_shape (hx_meta s3) k q"
  proof -
    have "meta_shape (hx_meta s1) k q" using r(2) h1(6) by simp
    then show ?thesis using s3(4) s2(2) by (simp add: meta_shape_def addr_shape_def)
  qed
  have cnt3: "hm_recordCount (hx_meta s3) = word_of_nat (length (table_entries (chs[b := ch1])))"
    using s3(4) s2(2) h1(4) r(5) len by (simp add: add.commute)
  obtain s' m' n' chs' k' q' where s': "hash_split_loop s3 = Some (Ok (), s')" "table_pages ?F ?kt s' m' n' chs'"
      "meta_shape (hx_meta s') k' q'" "placed k' q' chs'" "mset (table_entries chs') = mset (table_entries (chs[b := ch1]))"
      "length chs' \<le> length (chs[b := ch1]) + 1" "n' \<le> n1 + 1 + length (table_entries (chs[b := ch1]))"
      "length (table_entries (chs[b := ch1])) \<le> 48 * length chs'"
      "hm_recordCount (hx_meta s') = hm_recordCount (hx_meta s3)" "runs_on ?F (hx_pool s3) (hx_pool s')"
      "meta_saved m' (hx_meta s')"
    by (rule rebalance [OF s3(2) sh3 pl(1) cnt3]) (use r(4,6) room len s1(4) s3(4,5) in simp_all)
  have "hash_Insert key tid s = Some (Ok (), s')"
    using comp s1(1) s2(4) s3(1) s'(1)
    by (simp add: hash_Insert_def Let_def e_def oseq_def [of "insertIntoBucketChain x y" for x y] seq_def)
  moreover have "hash_index s' n' (length chs') (add_mset (key, tid) E)"
  proof (rule hash_indexI [OF s'(2-4)])
    show "add_mset (key, tid) E = contents (table_entries chs')"
      using s'(5) pl(2) r(7) by (simp add: contents_def e_def)
  qed (use s'(8,9,11) cnt3 len in simp_all)
  moreover have "runs_on ?F (hx_pool s) (hx_pool s')"
    using h1(7) s2(3) hash_movesD(7) [OF s3(3)] hash_fileD(1) [OF table_pagesD(1) [OF s2(1)]] s'(10) by (auto intro: runs_on_trans)
  ultimately show thesis
    using that s'(6,7) r(4) s1(4) len hash_fileD(1,2) [OF table_pagesD(1) [OF s'(2)]] by simp
qed

end
