(* ===== verification/ResidentPages.thy ===== *)
theory ResidentPages
  imports PagedFile
begin

text \<open>
  A new index file in a pool with room: the index code adds pages that it does not change at once, and a
  page that was added but not changed is lost by an eviction. As long as the pool has room for all the
  pages to come nothing is evicted, and all pages of the file stay in the pool.
\<close>

definition resident :: "string \<Rightarrow> Pool \<Rightarrow> nat \<Rightarrow> (nat \<Rightarrow> bytes) \<Rightarrow> nat \<Rightarrow> bool" where
  "resident F b n c r \<longleftrightarrow> (\<forall>i < n. buffered F b i (c i)) \<and> int (length (bp_table b)) + int r \<le> bp_poolSize b"

lemma buffered_slot:
  "buffered F b i buf \<longleftrightarrow> (\<exists>s. bp_lookup b (page_at F i) = Some s \<and> hp_buf (bs_page (bp_store b s)) = buf)"
  by (auto simp: buffered_def pool_view_def)

lemma residentD:
  "resident F b n c r \<Longrightarrow> i < n \<Longrightarrow> \<exists>s. bp_lookup b (page_at F i) = Some s \<and> hp_buf (bs_page (bp_store b s)) = c i"
  by (simp add: resident_def buffered_slot)

lemma resident_valid: "pool_inv b \<Longrightarrow> resident F b n c r \<Longrightarrow> i < n \<Longrightarrow> valid_buf (c i)"
  using residentD [of F b n c r i] slot_okD(4) [OF pool_invD(5)] by metis

lemma slots_differ:
  assumes "pool_inv b" and "bp_lookup b k = Some s" and "bp_lookup b k' = Some s'" and "k \<noteq> k'"
  shows "s \<noteq> s'"
  using slot_okD(1) [OF pool_invD(5) [OF assms(1,2)]] slot_okD(1) [OF pool_invD(5) [OF assms(1,3)]] assms(4) by auto

lemma NewPage_roomy:
  assumes "bp_lookup b key = None" and "int (length (bp_table b)) < bp_poolSize b"
  shows "NewPage key (Some p) b = add_slot key p b"
  using assms by (simp add: NewPage_def seq_def ensureSpaceLocked_def)

lemma resident_new:
  assumes f: "file_pages F b m n" and r: "resident F b n c (Suc r)" and p: "valid_buf buf"
  obtains s b' where "NewPage (page_at F n) (Some \<lparr>hp_pageID = int n, hp_buf = buf\<rparr>) b = (Ok s, b')"
    and "file_pages F b' m (n + 1)" and "resident F b' (n + 1) (c(n := buf)) r" and "runs_on F b b'"
proof -
  let ?k = "page_at F n" and ?p = "\<lparr>hp_pageID = int n, hp_buf = buf\<rparr>"
  note inv = file_pagesD(1) [OF f]
  obtain s b' where np: "NewPage ?k (Some ?p) b = (Ok s, b')" "file_pages F b' m (n + 1)" "buffered F b' n buf" "runs_on F b b'"
    by (rule add_page [OF f p])
  have new: "bp_lookup b ?k = None" using file_pagesD(7) [OF f] by simp
  have room: "int (length (bp_table b)) < bp_poolSize b" using r by (simp add: resident_def)
  have add: "add_slot ?k ?p b = (Ok s, b')" using np(1) NewPage_roomy [OF new room] by simp
  have ok: "slot_ok ?k (NewBufferSlot ?k ?p)" using p by (simp add: slot_ok_def NewBufferSlot_def NewPageKey_def)
  note a = add_slot_props [OF inv new room ok add]
  have "buffered F b' i (c i)" if i: "i < n" for i
  proof -
    obtain s' where s': "bp_lookup b (page_at F i) = Some s'" "hp_buf (bs_page (bp_store b s')) = c i"
      using residentD [OF r i] by blast
    then show ?thesis using i a(3) [of "page_at F i"] a(4) pool_invD(4) [OF inv s'(1)] by (simp add: buffered_slot)
  qed
  moreover have "length (bp_table b') = Suc (length (bp_table b))"
    using add new by (auto simp: add_slot_def Let_def length_update_new map_of_eq_None_iff)
  ultimately have "resident F b' (n + 1) (c(n := buf)) r"
    using np(3) r a(7) by (auto simp: resident_def less_Suc_eq)
  then show thesis using that np by blast
qed

lemma resident_get:
  assumes f: "file_pages F b m n" and r: "resident F b n c r" and i: "i < n"
  obtains b' where "seq (GetPage (page_at F i)) slot_Page b = (Ok \<lparr>hp_pageID = int i, hp_buf = c i\<rparr>, b')"
    and "file_pages F b' m n" and "resident F b' n c r" and "runs_on F b b'"
proof -
  have at: "buffered F b i (c i)" using r i by (simp add: resident_def)
  obtain b' where b': "seq (GetPage (page_at F i)) slot_Page b = (Ok \<lparr>hp_pageID = int i, hp_buf = c i\<rparr>, b')"
      "file_pages F b' m n" "runs_on F b b'"
    by (rule read_buffered [OF f at])
  obtain s where s: "bp_lookup b (page_at F i) = Some s" using at by (auto simp: buffered_def)
  obtain q b1 where g: "getPageLocked (page_at F i) b = (q, b1)" by force
  note p = getPage_present [OF file_pagesD(1) [OF f] s g]
  have "b1 = b'" using b'(1) g p(1) by (auto simp: seq_def GetPage_def slot_Page_def)
  then have "resident F b' n c r"
    using r p(2,3) g s by (auto simp: resident_def buffered_def getPageLocked_def)
  then show thesis using that b' by blast
qed

lemma resident_update:
  assumes f: "file_pages F b m n" and r: "resident F b n c r" and i: "i < n" and buf: "valid_buf buf"
  obtains b' where "UpdatePage (page_at F i) (Some \<lparr>hp_pageID = int i, hp_buf = buf\<rparr>) b = (Ok (), b')"
    and "file_pages F b' (m(i \<mapsto> buf)) n" and "resident F b' n (c(i := buf)) r" and "runs_on F b b'"
proof -
  let ?k = "page_at F i" and ?p = "\<lparr>hp_pageID = int i, hp_buf = buf\<rparr>"
  obtain s where s: "bp_lookup b ?k = Some s" using r i by (auto simp: resident_def buffered_def)
  then have "m i \<noteq> None \<or> bp_lookup b ?k \<noteq> None" by simp
  then obtain b' where b': "UpdatePage ?k (Some ?p) b = (Ok (), b')" "file_pages F b' (m(i \<mapsto> buf)) n" "runs_on F b b'"
    by (rule update_page [OF f i _ buf])
  have e: "b' = touch s (set_slot s ((bp_store b s)\<lparr>bs_page := ?p, bs_dirty := True\<rparr>) b)"
    using b'(1) s by (simp add: UpdatePage_def slot_or_load_def seq_def)
  have "buffered F b' j ((c(i := buf)) j)" if j: "j < n" for j
  proof (cases "j = i")
    case False
    obtain s' where s': "bp_lookup b (page_at F j) = Some s'" "hp_buf (bs_page (bp_store b s')) = c j"
      using residentD [OF r j] by blast
    then show ?thesis using slots_differ [OF file_pagesD(1) [OF f] s s'(1)] False by (simp add: buffered_slot e)
  qed (simp add: buffered_slot e s)
  then have "resident F b' n (c(i := buf)) r" using r by (simp add: resident_def e)
  then show thesis using that b' by blast
qed

text \<open>The directory of the pool never changes.\<close>

lemma pool_step_root:
  assumes "pool_step b a b'" and "pool_inv b"
  shows "bp_root b' = bp_root b"
  using assms(1)
proof (cases rule: pool_step.cases)
  case (get k r)
  then show ?thesis using getPageLocked_keeps(1) [OF assms(2)] by (auto simp: GetPage_def pool_keeps_def)
next
  case (new_page k p r)
  then show ?thesis using NewPage_props(1) [OF assms(2) new_page(2,3,4)] by (simp add: pool_sets_def)
next
  case (update k p r)
  then show ?thesis using UpdatePage_props(1) [OF assms(2) update(2,3)] by (simp add: pool_sets_def)
next
  case (pin k r)
  then show ?thesis using PinPage_props(1) [OF assms(2)] by (auto simp: pool_keeps_def)
next
  case (unpin k r)
  then show ?thesis using UnpinPage_props [OF assms(2)] by (auto simp: pool_sets_def)
next
  case (flush k r)
  then show ?thesis using FlushPage_props(1) [OF assms(2)] by (auto simp: pool_keeps_def)
next
  case (flush_all order r)
  then show ?thesis using FlushAllPages_props [OF assms(2)] by (auto simp: pool_keeps_def)
next
  case (batch n order)
  then show ?thesis using flushBatch_loop_keeps [OF assms(2)] by (auto simp: flushBatch_def pool_keeps_def)
qed simp

lemma pool_run_root: "pool_run b as b' \<Longrightarrow> pool_inv b \<Longrightarrow> bp_root b' = bp_root b"
proof (induction rule: pool_run.induct)
  case (cons b a b' as b'')
  then show ?case using pool_step_root [OF cons.hyps(1) cons.prems] pool_step_safe(1) [OF cons.hyps(1) cons.prems] by simp
qed simp

lemma runs_on_root: "runs_on F b b' \<Longrightarrow> pool_inv b \<Longrightarrow> bp_root b' = bp_root b"
  unfolding runs_on_def by (blast dest: pool_run_root)

end
