(* ===== verification/HashCreate.thy ===== *)
theory HashCreate
  imports HashSearch ResidentPages
begin

text \<open>
  Creating and reopening a hash index. In a pool with room for its first 81 pages a new index is
  created and is empty; an index whose meta page was written is the same index when it is opened
  again. With these, the promises of searching and inserting are stated as properties.
\<close>

section \<open>Pages of a new index\<close>

definition new_pages :: "string \<Rightarrow> TypeDefinition \<Rightarrow> HashState \<Rightarrow> (nat \<Rightarrow> bytes option) \<Rightarrow> nat \<Rightarrow> (nat \<Rightarrow> bytes) \<Rightarrow> nat \<Rightarrow> bool" where
  "new_pages F keyType s m n c r \<longleftrightarrow> hi_fileID (hx_idx s) = F \<and> hi_keyType (hx_idx s) = keyType
     \<and> file_pages F (hx_pool s) m n \<and> resident F (hx_pool s) n c r"

lemma new_pagesD:
  assumes "new_pages F keyType s m n c r"
  shows "hi_fileID (hx_idx s) = F" and "hi_keyType (hx_idx s) = keyType" and "file_pages F (hx_pool s) m n"
    and "resident F (hx_pool s) n c r" and "i < n \<Longrightarrow> valid_buf (c i)"
proof -
  show f: "file_pages F (hx_pool s) m n" "resident F (hx_pool s) n c r" "hi_fileID (hx_idx s) = F" "hi_keyType (hx_idx s) = keyType"
    using assms by (simp_all only: new_pages_def)
  show "valid_buf (c i)" if "i < n" by (rule resident_valid [OF file_pagesD(1) [OF f(1)] f(2) that])
qed

text \<open>What a step may change besides: the pool, by operations on the file.\<close>

definition pool_moves :: "HashState \<Rightarrow> HashState \<Rightarrow> bool" where
  "pool_moves s s' \<longleftrightarrow> hx_idx s' = hx_idx s \<and> runs_on (hi_fileID (hx_idx s)) (hx_pool s) (hx_pool s')"

lemma pool_moves_trans [trans]: "pool_moves s s' \<Longrightarrow> pool_moves s' s'' \<Longrightarrow> pool_moves s s''"
  unfolding pool_moves_def by (auto intro: runs_on_trans)

lemma pool_movesD: "pool_moves s s' \<Longrightarrow> hx_idx s' = hx_idx s" "pool_moves s s' \<Longrightarrow> runs_on (hi_fileID (hx_idx s)) (hx_pool s) (hx_pool s')"
  by (simp_all add: pool_moves_def)

lemma add_new_page:
  assumes f: "new_pages F keyType s m n c (Suc r)"
  obtains p sl s' where "NewHeapPage (int n) = Ok p" and "hx_on (NewPage (page_at F n) (Some p)) s = (Ok sl, s')"
    and "new_pages F keyType s' m (n + 1) (c(n := hp_buf p)) r" and "pool_moves s s'"
proof -
  note D = new_pagesD [OF f]
  obtain p where p: "NewHeapPage (int n) = Ok p" "page_inv p" "hp_pageID p = int n" using NewHeapPage_ok [of "int n"] by blast
  have v: "valid_buf (hp_buf p)" by (rule page_inv_valid_buf [OF p(2)])
  have pe: "p = \<lparr>hp_pageID = int n, hp_buf = hp_buf p\<rparr>" using p(3) by simp
  obtain sl b' where b': "NewPage (page_at F n) (Some \<lparr>hp_pageID = int n, hp_buf = hp_buf p\<rparr>) (hx_pool s) = (Ok sl, b')"
      "file_pages F b' m (n + 1)" "resident F b' (n + 1) (c(n := hp_buf p)) r" "runs_on F (hx_pool s) b'"
    by (rule resident_new [OF D(3,4) v])
  then show thesis
    using that [OF p(1), of sl "s\<lparr>hx_pool := b'\<rparr>"] D(1,2) pe by (simp add: hx_on_def new_pages_def pool_moves_def)
qed

lemma edit_new_page:
  assumes f: "new_pages F keyType s m n c r" and i: "i < n" and e: "edit (c i) = Ok buf" "valid_buf buf"
  obtains s' where "seq (hash_get (int i)) (\<lambda>p. seq (lift_result (edit (hp_buf p))) (\<lambda>b. hash_put (int i) (p\<lparr>hp_buf := b\<rparr>))) s = (Ok (), s')"
    and "new_pages F keyType s' (m(i \<mapsto> buf)) n (c(i := buf)) r" and "pool_moves s s'"
proof -
  note D = new_pagesD [OF f]
  obtain b1 where b1: "seq (GetPage (page_at F i)) slot_Page (hx_pool s) = (Ok \<lparr>hp_pageID = int i, hp_buf = c i\<rparr>, b1)"
      "file_pages F b1 m n" "resident F b1 n c r" "runs_on F (hx_pool s) b1"
    by (rule resident_get [OF D(3,4) i])
  obtain b2 where b2: "UpdatePage (page_at F i) (Some \<lparr>hp_pageID = int i, hp_buf = buf\<rparr>) b1 = (Ok (), b2)"
      "file_pages F b2 (m(i \<mapsto> buf)) n" "resident F b2 n (c(i := buf)) r" "runs_on F b1 b2"
    by (rule resident_update [OF b1(2,3) i e(2)])
  show thesis
    using that [of "s\<lparr>hx_pool := b2\<rparr>"] D(1,2) b1 b2 e(1) runs_on_trans [OF b1(4) b2(4)]
    by (simp add: hash_get_def hash_put_def hx_on_def hash_key_def seq_def lift_result_def new_pages_def pool_moves_def)
qed

lemma new_dir_pages_ok:
  assumes "new_pages F keyType s m i c (k + r)"
  shows "\<exists>s' c'. new_dir_pages i k s = (Ok (), s') \<and> new_pages F keyType s' m (i + k) c' r \<and> pool_moves s s'"
  using assms
proof (induction k arbitrary: i s c)
  case 0
  then show ?case by (auto simp: pure_def pool_moves_def)
next
  case (Suc k)
  obtain p sl s1 where s1: "NewHeapPage (int i) = Ok p" "hx_on (NewPage (page_at F i) (Some p)) s = (Ok sl, s1)"
      "new_pages F keyType s1 m (i + 1) (c(i := hp_buf p)) (k + r)" "pool_moves s s1"
    using add_new_page [of F keyType s m i c "k + r"] Suc.prems by auto
  obtain s' c' where s': "new_dir_pages (i + 1) k s1 = (Ok (), s')" "new_pages F keyType s' m (i + 1 + k) c' r" "pool_moves s1 s'"
    using Suc.IH [OF s1(3)] by blast
  have "new_dir_pages i (Suc k) s = (Ok (), s')"
    using s1(1,2) s'(1) new_pagesD(1) [OF Suc.prems] by (simp add: seq_def lift_result_def hash_key_def)
  then show ?case using s'(2) pool_moves_trans [OF s1(4) s'(3)] by auto
qed

section \<open>The first buckets\<close>

definition first_chains :: "nat \<Rightarrow> bucket_chain list" where
  "first_chains j = map (\<lambda>i. [(65 + i, [])]) [0..<j]"

lemma first_chains_simps [simp]: "length (first_chains j) = j" "first_chains (Suc j) = first_chains j @ [[(65 + j, [])]]"
    "i < j \<Longrightarrow> first_chains j ! i = [(65 + i, [])]" "first_chains 0 = []"
  by (simp_all add: first_chains_def)

definition first_table :: "TypeDefinition \<Rightarrow> (nat \<Rightarrow> bytes option) \<Rightarrow> (nat \<Rightarrow> bytes) \<Rightarrow> nat \<Rightarrow> bool" where
  "first_table keyType m c j \<longleftrightarrow> dir_entries (c 1) (first_chains j) \<and> (0 < j \<longrightarrow> m 1 = Some (c 1))
     \<and> (\<forall>i < j. \<exists>buf. m (65 + i) = Some buf \<and> bucket_page keyType buf (-1) [])"

lemma new_bucket_ok:
  assumes f: "new_pages F keyType s m (65 + j) c (Suc r)" and t: "first_table keyType m c j" and j: "j < 16"
    and nx: "hm_nextPageID (hx_meta s) = word_of_nat (65 + j)"
  obtains s' m' c' where "seq allocateDataPage (\<lambda>p. seq (initBucketPage p) (\<lambda>_. seq (setBucketHeadPageID (word_of_nat j) p) (\<lambda>_. g))) s = g s'"
    and "new_pages F keyType s' m' (65 + Suc j) c' r" and "first_table keyType m' c' (Suc j)"
    and "hx_idx s' = (hx_idx s)\<lparr>hi_meta := (hx_meta s)\<lparr>hm_nextPageID := word_of_nat (65 + Suc j)\<rparr>\<rparr>"
    and "runs_on F (hx_pool s) (hx_pool s')"
proof -
  let ?n = "65 + j"
  let ?s0 = "s\<lparr>hx_idx := (hx_idx s)\<lparr>hi_meta := (hx_meta s)\<lparr>hm_nextPageID := word_of_nat (65 + Suc j)\<rparr>\<rparr>\<rparr>"
  have f0: "new_pages F keyType ?s0 m ?n c (Suc r)" using f by (simp add: new_pages_def)
  have si: "sint (word_of_nat ?n :: int32) = int ?n" using j by (intro sint_page) simp
  obtain p sl s1 where s1: "NewHeapPage (int ?n) = Ok p" "hx_on (NewPage (page_at F ?n) (Some p)) ?s0 = (Ok sl, s1)"
      "new_pages F keyType s1 m (?n + 1) (c(?n := hp_buf p)) r" "pool_moves ?s0 s1"
    by (rule add_new_page [OF f0])
  have v1: "valid_buf (hp_buf p)" using new_pagesD(5) [OF s1(3), of ?n] by simp
  let ?fs = "[(bucketHdrNextOverflowOff, be32 0xFFFFFFFF), (bucketHdrEntryCountOff, be32 0),
      (bucketHdrFreeOff, be32 (word_of_nat bucketDataStartOff))]"
  obtain buf where b: "put_fields ?fs (hp_buf p) = Ok buf" "bucket_page keyType buf (-1) []" by (rule init_page_bytes [OF v1])
  obtain s2 where s2: "seq (hash_get (int ?n)) (\<lambda>p. seq (lift_result (put_fields ?fs (hp_buf p))) (\<lambda>b. hash_put (int ?n) (p\<lparr>hp_buf := b\<rparr>))) s1 = (Ok (), s2)"
      "new_pages F keyType s2 (m(?n \<mapsto> buf)) (?n + 1) (c(?n := buf)) r" "pool_moves s1 s2"
    using edit_new_page [where edit = "put_fields ?fs", OF s1(3), of ?n buf] b bucket_pageD(1) [OF b(2)] by auto
  have d: "dir_entries (c 1) (first_chains j)" using t by (simp add: first_table_def)
  obtain dir where dir: "put_u32 (c 1) (10 + 4 * length (first_chains j)) (word_of_nat ?n) = Ok dir"
      "dir_entries dir (first_chains j @ [[(?n, [])]])"
    by (rule dir_append [OF d, of "[(?n, [])]" "word_of_nat ?n"]) (use j in simp_all)
  let ?c = "c(?n := buf, 1 := dir)" and ?m = "m(?n \<mapsto> buf, 1 \<mapsto> dir)"
  have vd: "valid_buf dir" using dir(2) by (simp add: dir_entries_def)
  obtain s3 where s3: "seq (hash_get (int 1)) (\<lambda>p. seq (lift_result (put_u32 (hp_buf p) (10 + 4 * j) (word_of_nat ?n)))
        (\<lambda>b. hash_put (int 1) (p\<lparr>hp_buf := b\<rparr>))) s2 = (Ok (), s3)"
      "new_pages F keyType s3 ?m (?n + 1) ?c r" "pool_moves s2 s3"
    using edit_new_page [where edit = "\<lambda>b. put_u32 b (10 + 4 * j) (word_of_nat ?n)", OF s2(2), of 1 dir] dir(1) vd by auto
  have j2: "j < 2045" using j by simp
  have "hm_nextPageID (hx_meta s) + 1 = word_of_nat (65 + Suc j)" using nx by simp
  then have "allocateDataPage s = (Ok (word_of_nat ?n), s1)"
    using s1(1,2) si nx new_pagesD(1) [OF f]
    by (simp add: allocateDataPage_def Let_def seq_def set_meta_def lift_result_def hash_key_def pure_def del: of_nat_add of_nat_Suc)
  moreover have "initBucketPage (word_of_nat ?n) s1 = (Ok (), s2)" using s2(1) si by (simp add: initBucketPage_def del: of_nat_add)
  moreover have "setBucketHeadPageID (word_of_nat j) (word_of_nat ?n) s2 = (Ok (), s3)"
    using s3(1) dir_address [OF j2] by (simp add: setBucketHeadPageID_def del: of_nat_add)
  ultimately have "seq allocateDataPage (\<lambda>p. seq (initBucketPage p) (\<lambda>_. seq (setBucketHeadPageID (word_of_nat j) p) (\<lambda>_. g))) s = g s3"
    by (simp add: seq_def del: of_nat_add)
  moreover have "first_table keyType ?m ?c (Suc j)"
    using t dir(2) b(2) by (auto simp: first_table_def less_Suc_eq)
  moreover have "hx_idx s3 = hx_idx ?s0" "runs_on F (hx_pool s) (hx_pool s3)"
    using pool_movesD [OF pool_moves_trans [OF pool_moves_trans [OF s1(4) s2(3)] s3(3)]] new_pagesD(1) [OF f] by simp_all
  ultimately show thesis using that s3(2) by simp
qed

lemma new_buckets_ok:
  assumes "new_pages F keyType s m (65 + j) c (k + r)" and "first_table keyType m c j" and "j + k = 16"
    and "hm_nextPageID (hx_meta s) = word_of_nat (65 + j)"
  shows "\<exists>s' m' c'. new_buckets j k s = (Ok (), s') \<and> new_pages F keyType s' m' 81 c' r \<and> first_table keyType m' c' 16
    \<and> hx_idx s' = (hx_idx s)\<lparr>hi_meta := (hx_meta s)\<lparr>hm_nextPageID := 81\<rparr>\<rparr> \<and> runs_on F (hx_pool s) (hx_pool s')"
  using assms
proof (induction k arbitrary: j s m c)
  case 0
  then have "hx_idx s = (hx_idx s)\<lparr>hi_meta := (hx_meta s)\<lparr>hm_nextPageID := 81\<rparr>\<rparr>" by simp
  then show ?case using 0 by (intro exI [of _ s] exI [of _ m] exI [of _ c]) (simp add: pure_def)
next
  case (Suc k)
  have j: "j < 16" using Suc.prems(3) by simp
  have f: "new_pages F keyType s m (65 + j) c (Suc (k + r))" using Suc.prems(1) by simp
  obtain s1 m1 c1 where s1: "seq allocateDataPage (\<lambda>p. seq (initBucketPage p) (\<lambda>_. seq (setBucketHeadPageID (word_of_nat j) p)
        (\<lambda>_. new_buckets (j + 1) k))) s = new_buckets (j + 1) k s1"
      "new_pages F keyType s1 m1 (65 + Suc j) c1 (k + r)" "first_table keyType m1 c1 (Suc j)"
      "hx_idx s1 = (hx_idx s)\<lparr>hi_meta := (hx_meta s)\<lparr>hm_nextPageID := word_of_nat (65 + Suc j)\<rparr>\<rparr>"
      "runs_on F (hx_pool s) (hx_pool s1)"
    by (rule new_bucket_ok [OF f Suc.prems(2) j Suc.prems(4)])
  obtain s' m' c' where s': "new_buckets (Suc j) k s1 = (Ok (), s')" "new_pages F keyType s' m' 81 c' r" "first_table keyType m' c' 16"
      "hx_idx s' = (hx_idx s1)\<lparr>hi_meta := (hx_meta s1)\<lparr>hm_nextPageID := 81\<rparr>\<rparr>" "runs_on F (hx_pool s1) (hx_pool s')"
    using Suc.IH [OF s1(2,3)] Suc.prems(3) s1(4) by auto
  have "new_buckets j (Suc k) s = (Ok (), s')" using s1(1) s'(1) by simp
  then show ?case using s'(2-4) s1(4) runs_on_trans [OF s1(5) s'(5)] by auto
qed

lemma first_table_pages:
  assumes f: "new_pages F keyType s m 81 c r" and t: "first_table keyType m c 16" and nx: "hm_nextPageID (hx_meta s) = 81" and m0: "m 0 \<noteq> None"
  shows "table_pages F keyType s m 81 (first_chains 16)" and "placed 4 0 (first_chains 16)" and "table_entries (first_chains 16) = []"
proof -
  have "chains_ok keyType m (first_chains 16)"
    using t by (auto simp: chains_ok_def first_table_def hash_consts)
  then show "table_pages F keyType s m 81 (first_chains 16)"
    using new_pagesD(1-3) [OF f] t nx m0 by (auto simp: table_pages_def hash_file_def first_table_def)
  show "placed 4 0 (first_chains 16)" by (simp add: placed_def)
  show "table_entries (first_chains 16) = []" by (simp add: table_entries_def first_chains_def)
qed

lemma initializeNew_ok:
  assumes f: "new_pages F keyType s Map.empty 0 c 81"
  obtains s' where "initializeNew s = (Ok (), s')" and "hash_index s' 81 16 {#}" and "hi_fileID (hx_idx s') = F"
    and "hi_keyType (hx_idx s') = keyType" and "runs_on F (hx_pool s) (hx_pool s')"
proof -
  obtain p sl s1 where s1: "NewHeapPage 0 = Ok p" "hx_on (NewPage (page_at F 0) (Some p)) s = (Ok sl, s1)"
      "new_pages F keyType s1 Map.empty 1 (c(0 := hp_buf p)) 80" "pool_moves s s1"
    using add_new_page [of F keyType s Map.empty 0 c 80] f by auto
  obtain s2 c2 where s2: "new_dir_pages 1 64 s1 = (Ok (), s2)" "new_pages F keyType s2 Map.empty 65 c2 16" "pool_moves s1 s2"
    using new_dir_pages_ok [of F keyType s1 Map.empty 1 "c(0 := hp_buf p)" 64 16] s1(3) by auto
  define s3 where "s3 = snd (set_meta (\<lambda>_. initial_meta) s2)"
  have s3: "set_meta (\<lambda>_. initial_meta) s2 = (Ok (), s3)" "new_pages F keyType s3 Map.empty (65 + 0) c2 (16 + 0)"
      "hx_meta s3 = initial_meta" "hx_pool s3 = hx_pool s2"
    using s2(2) by (simp_all add: s3_def set_meta_def new_pages_def)
  have t0: "first_table keyType Map.empty c2 0"
    using new_pagesD(5) [OF s2(2), of 1] by (simp add: first_table_def dir_entries_def)
  obtain s4 m4 c4 where s4: "new_buckets 0 16 s3 = (Ok (), s4)" "new_pages F keyType s4 m4 81 c4 0" "first_table keyType m4 c4 16"
      "hx_idx s4 = (hx_idx s3)\<lparr>hi_meta := (hx_meta s3)\<lparr>hm_nextPageID := 81\<rparr>\<rparr>" "runs_on F (hx_pool s3) (hx_pool s4)"
    using new_buckets_ok [OF s3(2) t0] s3(3) by (auto simp: initial_meta_def hash_consts)
  let ?meta = "initial_meta\<lparr>hm_nextPageID := 81\<rparr>"
  have meta4: "hx_meta s4 = ?meta" using s4(4) s3(3) by simp
  have v4: "valid_buf (c4 0)" using new_pagesD(5) [OF s4(2)] by simp
  obtain buf where b: "put_fields (meta_fields ?meta) (c4 0) = Ok buf" "valid_buf buf"
    using put_fields_valid [OF v4, of "meta_fields ?meta"] by (auto simp: meta_fields_def hash_consts)
  obtain s5 where s5: "seq (hash_get (int 0)) (\<lambda>p. seq (lift_result (put_fields (meta_fields ?meta) (hp_buf p)))
        (\<lambda>b. hash_put (int 0) (p\<lparr>hp_buf := b\<rparr>))) s4 = (Ok (), s5)"
      "new_pages F keyType s5 (m4(0 \<mapsto> buf)) 81 (c4(0 := buf)) 0" "pool_moves s4 s5"
    using edit_new_page [where edit = "put_fields (meta_fields ?meta)", OF s4(2) _ b] by auto
  have "writeMeta s4 = (Ok (), s5)" using s5(1) by (simp add: writeMeta_def meta4)
  then have "initializeNew s = (Ok (), s5)"
    using s1(1,2) s2(1) s3(1) s4(1) new_pagesD(1) [OF f]
    by (simp add: initializeNew_def seq_def lift_result_def hash_key_def hash_consts)
  moreover have "hash_index s5 81 16 {#}"
  proof -
    have meta5: "hx_meta s5 = ?meta" using pool_movesD(1) [OF s5(3)] meta4 by simp
    have t5: "first_table keyType (m4(0 \<mapsto> buf)) (c4(0 := buf)) 16" using s4(3) by (auto simp: first_table_def)
    note T = first_table_pages [OF s5(2) t5]
    have "hash_index s5 81 (length (first_chains 16)) {#}"
    proof (rule hash_indexI)
      show "table_pages F keyType s5 (m4(0 \<mapsto> buf)) 81 (first_chains 16)" using T(1) meta5 by simp
      show "meta_shape (hx_meta s5) 4 0" using initial_meta_shape meta5 by (simp add: meta_shape_def addr_shape_def)
      show "placed 4 0 (first_chains 16)" using T(2) meta5 by simp
      show "{#} = contents (table_entries (first_chains 16))" using T(3) meta5 by (simp add: contents_def)
      show "meta_saved (m4(0 \<mapsto> buf)) (hx_meta s5)"
        unfolding meta5 using meta_fields_saved [OF b(1)] valid_buf_length [OF v4] by (simp add: PageSize_def)
    qed (simp_all add: meta5 initial_meta_def)
    then show ?thesis by simp
  qed
  moreover have "runs_on F (hx_pool s) (hx_pool s5)"
    using pool_movesD(2) [OF s1(4)] pool_movesD(2) [OF s2(3)] s3(4) s4(5) pool_movesD(2) [OF s5(3)]
      new_pagesD(1) [OF f] new_pagesD(1) [OF s1(3)] new_pagesD(1) [OF s4(2)] by (auto intro: runs_on_trans)
  ultimately show thesis using that new_pagesD(1,2) [OF s5(2)] by blast
qed

section \<open>Opening an index again\<close>

lemma hash_get_idx:
  assumes "hi_fileID x = hi_fileID (hx_idx s)"
  shows "hash_get i (s\<lparr>hx_idx := x\<rparr>) = (case hash_get i s of (r, s') \<Rightarrow> (r, s'\<lparr>hx_idx := x\<rparr>))"
  using assms by (simp add: hash_get_def hx_on_def hash_key_def split: prod.splits)

text \<open>Any index object of this file and key type becomes the index that was saved.\<close>

lemma loadMeta_ok:
  assumes h: "hash_index s n B E" and x: "hi_fileID x = hi_fileID (hx_idx s)" "hi_keyType x = hi_keyType (hx_idx s)"
  obtains s' where "loadMeta (s\<lparr>hx_idx := x\<rparr>) = (Ok (), s')" and "hash_index s' n B E"
    and "hx_idx s' = x\<lparr>hi_meta := hx_meta s\<rparr>"
proof -
  obtain m k q chs where r: "table_pages (hi_fileID (hx_idx s)) (hi_keyType (hx_idx s)) s m n chs" "meta_shape (hx_meta s) k q"
      "placed k q chs" "length chs = B" "E = contents (table_entries chs)" "hm_recordCount (hx_meta s) = word_of_nat (size E)" "size E \<le> 48 * B"
      "meta_saved m (hx_meta s)"
    using h by (auto simp: hash_index_def)
  obtain buf where buf: "m 0 = Some buf" using table_pagesD(2) [OF r(1)] by auto
  obtain s1 where s1: "hash_get (int 0) s = (Ok \<lparr>hp_pageID = int 0, hp_buf = buf\<rparr>, s1)"
      "hash_file (hi_fileID (hx_idx s)) (hi_keyType (hx_idx s)) s1 m n" "hash_moves s s1" "hx_idx s1 = hx_idx s"
    by (rule hash_get_ok [OF table_pagesD(1) [OF r(1)] buf])
  let ?s' = "s1\<lparr>hx_idx := x\<lparr>hi_meta := hx_meta s\<rparr>\<rparr>"
  have l: "loadMeta (s\<lparr>hx_idx := x\<rparr>) = (Ok (), ?s')"
    using r(8) buf s1(1) x(1) by (auto simp: loadMeta_def meta_saved_def hash_get_idx seq_def lift_result_def set_meta_def)
  have "table_pages (hi_fileID (hx_idx s)) (hi_keyType (hx_idx s)) ?s' m n chs"
    using table_moves [OF r(1) s1(2)] s1(4) x by (simp add: table_pages_def hash_file_def)
  then have "hash_index ?s' n B E" unfolding r(4) [symmetric] by (rule hash_indexI) (use r(2-8) in simp_all)
  then show thesis using that l by simp
qed

section \<open>The promises\<close>

text \<open>C8: over a working disk and a pool without pinned pages in which the replacer knows every buffered page,
  searching an index that holds the pairs E returns, whatever the pool evicts meanwhile, exactly the
  tuple ids stored under the key, as often as they were inserted, and leaves the index as it was.\<close>

theorem hash_Search_exact:
  assumes "hash_index s n B E" and "key_ok (hi_keyType (hx_idx s)) key"
  shows "\<exists>tids s'. hash_Search key s = Some (Ok tids, s') \<and> mset tids = image_mset snd (filter_mset (\<lambda>x. fst x = key) E)
    \<and> hash_index s' n B E \<and> hx_idx s' = hx_idx s"
  using hash_Search_ok [OF assms] by metis

text \<open>C7: over a working disk and a pool without pinned pages in which the replacer knows every buffered page,
  inserting into an index that holds the pairs E returns without error and the index then holds one
  pair more, through overflow pages and bucket splits: at most one bucket is added and the pages that are
  allocated are bounded by the number of pairs. The bucket count is limited by the directory pages that
  are ever written, the pages by their 32-bit numbers; a text key has at most 8000 bytes.\<close>

theorem hash_Insert_adds:
  assumes "hash_index s n B E" and "key_ok (hi_keyType (hx_idx s)) key" and "B < 2045" and "n + size E + 4 < 2 ^ 31"
  shows "\<exists>s' n' B'. hash_Insert key tid s = Some (Ok (), s') \<and> hash_index s' n' B' (add_mset (key, tid) E)
    \<and> B' \<le> B + 1 \<and> n' \<le> n + size E + 3"
  using hash_Insert_ok [OF assms] by metis

text \<open>No page of the file is in the pool, which has room for some.\<close>

definition fresh_file :: "string \<Rightarrow> nat \<Rightarrow> Pool \<Rightarrow> bool" where
  "fresh_file F r b \<longleftrightarrow> pool_inv b \<and> fluid b \<and> (\<forall>i. bp_lookup b (page_at F i) = None)
     \<and> int (length (bp_table b)) + int r \<le> bp_poolSize b"

definition new_hash :: "string \<Rightarrow> IndexDefinition \<Rightarrow> TypeDefinition \<Rightarrow> DiskHashIndex" where
  "new_hash root def keyType = \<lparr>hi_root = root, hi_def = def, hi_fileID = ix_fileNode def, hi_keyType = keyType, hi_meta = no_hashMeta\<rparr>"

lemma hash_state_eta [simp]: "\<lparr>hx_pool = hx_pool s, hx_idx = hx_idx s\<rparr> = s"
  by (cases s) simp

lemma hash_state_new: "s\<lparr>hx_pool := b, hx_idx := x\<rparr> = \<lparr>hx_pool = b, hx_idx = x\<rparr>"
  by (cases s) simp

lemma NewDiskHashIndex_open:
  assumes "ix_indexType def = IndexTypeHash" and "GetTypeByOid (ix_keyTypeOid def) c = Ok (Some keyType)"
    and "hash_initOrLoad \<lparr>hx_pool = b, hx_idx = new_hash root def keyType\<rparr> = (Ok (), s)"
  shows "NewDiskHashIndex root c def b = (Ok (hx_idx s), hx_pool s)"
  using assms by (simp add: NewDiskHashIndex_def new_hash_def)

lemma healthy_stat:
  assumes "healthy d"
  shows "os_Stat path d = Ok (map_option length (fs_files d path))" and "\<not> fs_fault d path op"
  using assms by (simp_all add: os_Stat_def healthy_def)

lemma NewDiskHashIndex_creates:
  assumes "ix_indexType def = IndexTypeHash" and "GetTypeByOid (ix_keyTypeOid def) c = Ok (Some keyType)"
    and "fresh_file (ix_fileNode def) 81 b" and "fs_files (bp_disk b) (path_Join root (ix_fileNode def)) = None"
  shows "\<exists>idx b'. NewDiskHashIndex root c def b = (Ok idx, b') \<and> hash_index \<lparr>hx_pool = b', hx_idx = idx\<rparr> 81 16 {#}
    \<and> hi_keyType idx = keyType \<and> hi_fileID idx = ix_fileNode def \<and> bp_root b' = bp_root b
    \<and> runs_on (ix_fileNode def) b b'"
proof -
  let ?s = "\<lparr>hx_pool = b, hx_idx = new_hash root def keyType\<rparr>"
  have "new_pages (ix_fileNode def) keyType ?s Map.empty 0 c0 81" for c0
    using assms(3) by (simp add: new_pages_def new_hash_def file_pages_def fresh_file_def resident_def)
  then obtain s' where s': "initializeNew ?s = (Ok (), s')" "hash_index s' 81 16 {#}" "hi_fileID (hx_idx s') = ix_fileNode def"
      "hi_keyType (hx_idx s') = keyType" "runs_on (ix_fileNode def) (hx_pool ?s) (hx_pool s')"
    using initializeNew_ok by blast
  have "bp_root (hx_pool s') = bp_root b" using runs_on_root [OF s'(5)] assms(3) by (simp add: fresh_file_def)
  moreover have h: "healthy (bp_disk b)" using assms(3) by (simp add: fresh_file_def fluid_def)
  have "hash_initOrLoad ?s = (Ok (), s')"
    using s'(1) assms(4) healthy_stat [OF h] by (simp add: hash_initOrLoad_def new_hash_def)
  then have "NewDiskHashIndex root c def b = (Ok (hx_idx s'), hx_pool s')" by (rule NewDiskHashIndex_open [OF assms(1,2)])
  ultimately show ?thesis using s'(2-5) by (intro exI [of _ "hx_idx s'"] exI [of _ "hx_pool s'"]) simp
qed

lemma restarted_pages:
  assumes f: "file_pages F b m n" and fl: "FlushAllPages order b = (Ok u, b')" "set order = fst ` set (bp_table b)"
    and new: "NewHeapBufferPoolManager n0 (Some rp) (bp_root b) (bp_disk b') = Ok b2" "fresh_replacer rp"
  shows "file_pages F b2 m n"
proof -
  note inv = file_pagesD(1) [OF f] and p = FlushAllPages_props [OF file_pagesD(1) [OF f] fl(1)]
  have k: "pool_keeps b b'" using p by blast
  note np = new_pool [OF new pool_invD(9) [OF pool_keepsD(1) [OF k]]]
  have "healthy (bp_disk b')" using file_pagesD(2) [OF f] pool_keepsD(4) [OF k] by (simp add: fluid_def healthy_def)
  then have "fluid b2" by (rule np(5))
  moreover have "pool_view b2 (page_at F i) = pool_view b (page_at F i)" if "m i = Some buf" for i buf
    by (rule flushed_view [OF inv fl file_pagesD(4) [OF f that] new(1)])
  ultimately show ?thesis using f np(1,3) by (auto simp: file_pages_def safe_def)
qed

text \<open>C9: a hash index survives a shutdown: after FlushAllPages succeeded, opening the index in a new pool
  over the disk gives an index with the same pairs.\<close>

theorem hash_index_survives_restart:
  assumes h: "hash_index s n B E" and idx: "hi_fileID (hx_idx s) = ix_fileNode def" "hi_keyType (hx_idx s) = keyType"
    and def: "ix_indexType def = IndexTypeHash" "GetTypeByOid (ix_keyTypeOid def) c = Ok (Some keyType)"
    and fl: "FlushAllPages order (hx_pool s) = (Ok u, b1)" "set order = fst ` set (bp_table (hx_pool s))"
    and new: "NewHeapBufferPoolManager n0 (Some rp) (bp_root (hx_pool s)) (bp_disk b1) = Ok b2" "fresh_replacer rp"
  shows "\<exists>idx b3. NewDiskHashIndex (bp_root (hx_pool s)) c def b2 = (Ok idx, b3)
    \<and> hash_index \<lparr>hx_pool = b3, hx_idx = idx\<rparr> n B E"
proof -
  let ?r = "bp_root (hx_pool s)" and ?F = "hi_fileID (hx_idx s)" and ?kt = "hi_keyType (hx_idx s)"
  let ?s2 = "s\<lparr>hx_pool := b2\<rparr>"
  obtain m k q chs where r: "table_pages ?F ?kt s m n chs" "meta_shape (hx_meta s) k q"
      "placed k q chs" "length chs = B" "E = contents (table_entries chs)" "hm_recordCount (hx_meta s) = word_of_nat (size E)" "size E \<le> 48 * B"
      "meta_saved m (hx_meta s)"
    using h by (auto simp: hash_index_def)
  note f = hash_fileD(3) [OF table_pagesD(1) [OF r(1)]]
  have f2: "file_pages ?F b2 m n" by (rule restarted_pages [OF f fl new])
  have h2: "hash_index ?s2 n B E"
    unfolding r(4) [symmetric]
  proof (rule hash_indexI)
    show "table_pages ?F ?kt ?s2 m n chs" using r(1) f2 by (simp add: table_pages_def hash_file_def)
  qed (use r in simp_all)
  obtain s3 where s3: "loadMeta (?s2\<lparr>hx_idx := new_hash ?r def keyType\<rparr>) = (Ok (), s3)" "hash_index s3 n B E"
    by (rule loadMeta_ok [where x = "new_hash ?r def keyType", OF h2]) (use idx in \<open>simp_all add: new_hash_def\<close>)
  note h2' = file_pagesD(2) [OF f2]
  then have hd: "healthy (bp_disk b2)" by (simp add: fluid_def)
  have root2: "bp_root b2 = ?r" "bp_table b2 = []"
    using new by (auto simp: NewHeapBufferPoolManager_def split: if_splits)
  obtain buf where "m 0 = Some buf" using table_pagesD(2) [OF r(1)] by auto
  then have "on_disk b2 (page_at ?F 0) = Some buf" using file_pagesD(5) [OF f2, of 0 buf] root2 by (simp add: pool_view_def)
  then obtain fl where fl: "fs_files (bp_disk b2) (path_Join ?r (ix_fileNode def)) = Some fl" "PageSize \<le> length fl"
    using idx root2 by (auto simp: on_disk_def stored_page_def bp_path_def file_page_def page_offset_def NewPageKey_def new_hash_def bind_eq_Some_conv split: if_splits)
  have "hash_initOrLoad \<lparr>hx_pool = b2, hx_idx = new_hash ?r def keyType\<rparr> = (Ok (), s3)"
    using s3(1) healthy_stat [OF hd] fl by (auto simp: hash_initOrLoad_def new_hash_def PageSize_def hash_state_new)
  then have "NewDiskHashIndex ?r c def b2 = (Ok (hx_idx s3), hx_pool s3)" by (rule NewDiskHashIndex_open [OF def])
  then show ?thesis using s3(2) by (intro exI [of _ "hx_idx s3"] exI [of _ "hx_pool s3"]) simp
qed

section \<open>An index of integers\<close>

definition sample_hash_def :: IndexDefinition where
  "sample_hash_def = \<lparr>ix_oid = 1, ix_name = ''i'', ix_tableOid = 1, ix_columnOid = 1, ix_keyTypeOid = 1,
     ix_indexType = IndexTypeHash, ix_fileNode = ''i.idx'', ix_metaPageId = 0, ix_rootPageId = 0\<rparr>"

definition sample_hash_pool :: Pool where
  "sample_hash_pool = \<lparr>bp_poolSize = 100, bp_replacer = LRU NewLRUReplacer, bp_root = ''d'', bp_table = [],
     bp_store = (\<lambda>_. no_slot), bp_next = 0, bp_disk = empty_disk\<rparr>"

lemma sample_hash_pool_fresh: "r \<le> 100 \<Longrightarrow> fresh_file F r sample_hash_pool" "fs_files (bp_disk sample_hash_pool) path = None"
proof -
  have new: "NewHeapBufferPoolManager 100 (Some (LRU NewLRUReplacer)) ''d'' empty_disk = Ok sample_hash_pool"
    by (simp add: NewHeapBufferPoolManager_def sample_hash_pool_def)
  note p = new_pool [OF new _ empty_disk_inv(1)]
  show "fresh_file F r sample_hash_pool" if "r \<le> 100"
    using that p by (simp add: fresh_replacer_def fresh_file_def) (simp add: sample_hash_pool_def)
  show "fs_files (bp_disk sample_hash_pool) path = None" by (simp add: sample_hash_pool_def empty_disk_def)
qed

definition sample_hash :: HashState where
  "sample_hash = (case NewDiskHashIndex ''d'' sample_catalog sample_hash_def sample_hash_pool of
     (Ok idx, b) \<Rightarrow> \<lparr>hx_pool = b, hx_idx = idx\<rparr> | (_, b) \<Rightarrow> \<lparr>hx_pool = b, hx_idx = new_hash ''d'' sample_hash_def int64_type\<rparr>)"

lemma sample_hash_type:
  "ix_indexType sample_hash_def = IndexTypeHash" "GetTypeByOid (ix_keyTypeOid sample_hash_def) sample_catalog = Ok (Some int64_type)"
  by (simp_all add: sample_hash_def_def GetTypeByOid_def sample_catalog_def indexType_def empty_catalog_def int64_type_def varchar_type_def)

lemma sample_hash_ok: "hash_index sample_hash 81 16 {#}" "hi_keyType (hx_idx sample_hash) = int64_type" "hi_fileID (hx_idx sample_hash) = ''i.idx''"
    "bp_root (hx_pool sample_hash) = ''d''" "runs_on ''i.idx'' sample_hash_pool (hx_pool sample_hash)"
  using NewDiskHashIndex_creates [OF sample_hash_type sample_hash_pool_fresh(1) sample_hash_pool_fresh(2), of "''d''"]
  by (auto simp: sample_hash_def) (simp_all add: sample_hash_def_def sample_hash_pool_def)

lemma sample_key_ok: "key_ok int64_type (VInt64 k)"
  by (simp add: key_ok_def int64_type_def)

lemma sample_insert:
  obtains s n B where "hash_Insert (VInt64 7) (NewTID 3 4) sample_hash = Some (Ok (), s)"
    and "hash_index s n B {#(VInt64 7, NewTID 3 4)#}" and "hi_keyType (hx_idx s) = int64_type"
    and "hi_fileID (hx_idx s) = ix_fileNode sample_hash_def" and "bp_root (hx_pool s) = ''d''"
proof -
  obtain m n chs where m: "table_pages (hi_fileID (hx_idx sample_hash)) (hi_keyType (hx_idx sample_hash)) sample_hash m n chs"
    using sample_hash_ok(1) by (auto simp: hash_index_def)
  have r: "runs_on F (hx_pool sample_hash) b \<Longrightarrow> bp_root b = ''d''" for F b
    using runs_on_root [OF _ file_pagesD(1) [OF hash_fileD(3) [OF table_pagesD(1) [OF m]]]] sample_hash_ok(4) by simp
  have k: "key_ok (hi_keyType (hx_idx sample_hash)) (VInt64 7)" by (simp add: sample_hash_ok(2) sample_key_ok)
  show thesis
    by (rule hash_Insert_ok [where tid = "NewTID 3 4", OF sample_hash_ok(1) k])
      (use that sample_hash_ok(2,3) r in \<open>simp_all add: sample_hash_def_def\<close>)
qed

theorem hash_Insert_adds_witness:
  "\<exists>s' n' B'. hash_Insert (VInt64 7) (NewTID 3 4) sample_hash = Some (Ok (), s')
    \<and> hash_index s' n' B' {#(VInt64 7, NewTID 3 4)#} \<and> B' \<le> 17 \<and> n' \<le> 84"
  using hash_Insert_adds [OF sample_hash_ok(1), of "VInt64 7" "NewTID 3 4"] sample_hash_ok(2) sample_key_ok by simp

theorem hash_Search_exact_witness:
  "\<exists>s s'. hash_Insert (VInt64 7) (NewTID 3 4) sample_hash = Some (Ok (), s) \<and> hash_Search (VInt64 7) s = Some (Ok [NewTID 3 4], s')"
proof -
  obtain s n' B' where s: "hash_Insert (VInt64 7) (NewTID 3 4) sample_hash = Some (Ok (), s)"
      "hash_index s n' B' {#(VInt64 7, NewTID 3 4)#}" "hi_keyType (hx_idx s) = int64_type"
    using sample_insert by metis
  have "key_ok (hi_keyType (hx_idx s)) (VInt64 7)" by (simp add: s(3) sample_key_ok)
  then show ?thesis using hash_Search_exact [OF s(2), of "VInt64 7"] s(1) by auto
qed

theorem hash_index_survives_restart_witness:
  "\<exists>s n B b1 b2 idx b3. hash_Insert (VInt64 7) (NewTID 3 4) sample_hash = Some (Ok (), s)
    \<and> FlushAllPages (map fst (bp_table (hx_pool s))) (hx_pool s) = (Ok (), b1)
    \<and> NewHeapBufferPoolManager 1 (Some (LRU NewLRUReplacer)) (bp_root (hx_pool s)) (bp_disk b1) = Ok b2
    \<and> NewDiskHashIndex (bp_root (hx_pool s)) sample_catalog sample_hash_def b2 = (Ok idx, b3)
    \<and> hash_index \<lparr>hx_pool = b3, hx_idx = idx\<rparr> n B {#(VInt64 7, NewTID 3 4)#}"
proof -
  obtain s n B where s: "hash_Insert (VInt64 7) (NewTID 3 4) sample_hash = Some (Ok (), s)"
      "hash_index s n B {#(VInt64 7, NewTID 3 4)#}" "hi_keyType (hx_idx s) = int64_type" "hi_fileID (hx_idx s) = ix_fileNode sample_hash_def"
      "bp_root (hx_pool s) = ''d''"
    using sample_insert by metis
  obtain m chs where m: "table_pages (hi_fileID (hx_idx s)) (hi_keyType (hx_idx s)) s m n chs" using s(2) by (auto simp: hash_index_def)
  note f = hash_fileD(3) [OF table_pagesD(1) [OF m]]
  let ?o = "map fst (bp_table (hx_pool s))"
  obtain r b1 where fl: "FlushAllPages ?o (hx_pool s) = (r, b1)" by force
  have r: "r = Ok ()" using FlushAllPages_props [OF file_pagesD(1) [OF f] fl] file_pagesD(2) [OF f] by (simp add: fluid_def)
  obtain b2 where b2: "NewHeapBufferPoolManager 1 (Some (LRU NewLRUReplacer)) (bp_root (hx_pool s)) (bp_disk b1) = Ok b2"
    using s(5) by (simp add: NewHeapBufferPoolManager_def)
  obtain idx b3 where "NewDiskHashIndex (bp_root (hx_pool s)) sample_catalog sample_hash_def b2 = (Ok idx, b3)"
      "hash_index \<lparr>hx_pool = b3, hx_idx = idx\<rparr> n B {#(VInt64 7, NewTID 3 4)#}"
    using hash_index_survives_restart [OF s(2,4,3) sample_hash_type _ _ b2, of ?o "()"] fl r by (auto simp: fresh_replacer_def)
  then show ?thesis using s(1) fl r b2 by blast
qed

end
