(* ===== verification/BTreeIndex.thy ===== *)
theory BTreeIndex
  imports HashIndex
begin

text \<open>
  The disk B-tree index of \<open>internal/core/index/disk_btree_index.go\<close>. Page 0 holds the meta data, every
  other page one node; the leaves are linked by sibling numbers and hold, per key, the list of its tuple
  ids. A node is read into a record, changed there and written back as a whole. The descent from the
  root and the walk along the leaves may run forever on a damaged file and are partial; an error that the
  code ignores while it descends is a nil node, whose use panics.
\<close>

section \<open>Constants and state\<close>

definition btreeMagic :: uint32 where "btreeMagic = 0x42494458"
definition btreeVersion :: uint32 where "btreeVersion = 1"
definition nodeMagic :: uint32 where "nodeMagic = 0x424E4F44"
definition btreeHeapHeaderSize :: nat where "btreeHeapHeaderSize = 10"
definition btreePageCapacity :: nat where "btreePageCapacity = PageSize - btreeHeapHeaderSize"
definition btreeMetaMagicOff :: nat where "btreeMetaMagicOff = btreeHeapHeaderSize"
definition btreeMetaVersionOff :: nat where "btreeMetaVersionOff = btreeHeapHeaderSize + 4"
definition btreeMetaRootOff :: nat where "btreeMetaRootOff = btreeHeapHeaderSize + 8"
definition btreeMetaHeightOff :: nat where "btreeMetaHeightOff = btreeHeapHeaderSize + 12"
definition btreeMetaLeftmostLeafOff :: nat where "btreeMetaLeftmostLeafOff = btreeHeapHeaderSize + 16"
definition btreeMetaNextPageIDOff :: nat where "btreeMetaNextPageIDOff = btreeHeapHeaderSize + 20"
definition nodeIsLeafOff :: nat where "nodeIsLeafOff = btreeHeapHeaderSize + 4"
definition nodeParentOff :: nat where "nodeParentOff = btreeHeapHeaderSize + 8"
definition nodeLeftSibOff :: nat where "nodeLeftSibOff = btreeHeapHeaderSize + 12"
definition nodeRightSibOff :: nat where "nodeRightSibOff = btreeHeapHeaderSize + 16"
definition nodeKeyCountOff :: nat where "nodeKeyCountOff = btreeHeapHeaderSize + 20"
definition nodeDataStartOff :: nat where "nodeDataStartOff = btreeHeapHeaderSize + 24"

lemmas btree_consts = btreeMagic_def btreeVersion_def nodeMagic_def btreeHeapHeaderSize_def btreePageCapacity_def
  btreeMetaMagicOff_def btreeMetaVersionOff_def btreeMetaRootOff_def btreeMetaHeightOff_def btreeMetaLeftmostLeafOff_def
  btreeMetaNextPageIDOff_def nodeIsLeafOff_def nodeParentOff_def nodeLeftSibOff_def nodeRightSibOff_def nodeKeyCountOff_def
  nodeDataStartOff_def

record btreeMeta =
  bm_rootPageID :: int32
  bm_height :: int32
  bm_leftmostLeafID :: int32
  bm_nextPageID :: int32

record btreeNode =
  bn_pageID :: int32
  bn_isLeaf :: bool
  bn_parentPageID :: int32
  bn_leftSibPageID :: int32
  bn_rightSibPageID :: int32
  bn_keys :: "gvalue list"
  bn_values :: "TID list list"
  bn_children :: "int32 list"

record DiskBTreeIndex =
  bi_root :: string
  bi_def :: IndexDefinition
  bi_fileID :: string
  bi_keyType :: TypeDefinition
  bi_meta :: btreeMeta

record BTreeState =
  tx_pool :: Pool
  tx_idx :: DiskBTreeIndex

abbreviation tx_meta :: "BTreeState \<Rightarrow> btreeMeta" where
  "tx_meta s \<equiv> bi_meta (tx_idx s)"

abbreviation tx_keyType :: "BTreeState \<Rightarrow> TypeDefinition" where
  "tx_keyType s \<equiv> bi_keyType (tx_idx s)"

definition tx_on :: "(Pool, 'a) prog \<Rightarrow> (BTreeState, 'a) prog" where
  "tx_on m s = (case m (tx_pool s) of (r, b) \<Rightarrow> (r, s\<lparr>tx_pool := b\<rparr>))"

definition set_btreeMeta :: "(btreeMeta \<Rightarrow> btreeMeta) \<Rightarrow> (BTreeState, unit) prog" where
  "set_btreeMeta f s = (Ok (), s\<lparr>tx_idx := (tx_idx s)\<lparr>bi_meta := f (tx_meta s)\<rparr>\<rparr>)"

definition btree_key :: "DiskBTreeIndex \<Rightarrow> int \<Rightarrow> PageKey" where
  "btree_key idx pageID = NewPageKey (bi_fileID idx) pageID"

definition btree_get :: "int \<Rightarrow> (BTreeState, HeapPage) prog" where
  "btree_get pageID s = tx_on (seq (GetPage (btree_key (tx_idx s) pageID)) slot_Page) s"

definition btree_put :: "int \<Rightarrow> HeapPage \<Rightarrow> (BTreeState, unit) prog" where
  "btree_put pageID p s = tx_on (UpdatePage (btree_key (tx_idx s) pageID) (Some p)) s"

section \<open>Keys\<close>

definition btree_compareKeys :: "TypeDefinition \<Rightarrow> gvalue \<Rightarrow> gvalue \<Rightarrow> int result" where
  "btree_compareKeys keyType a b =
     (if ty_name keyType = ''INT64'' then
        (case (a, b) of (VInt64 av, VInt64 bv) \<Rightarrow> Ok (if av <s bv then -1 else if bv <s av then 1 else 0) | _ \<Rightarrow> Panic)
      else if ty_name keyType = ''VARCHAR'' then
        (case (a, b) of (VString av, VString bv) \<Rightarrow> Ok (if av < bv then -1 else if av > bv then 1 else 0) | _ \<Rightarrow> Panic)
      else Ok 0)"

definition keySize :: "TypeDefinition \<Rightarrow> gvalue \<Rightarrow> nat result" where
  "keySize keyType key =
     (if ty_name keyType = ''INT64'' then Ok 8
      else if ty_name keyType = ''VARCHAR'' then (case key of VString str \<Rightarrow> Ok (2 + length str) | _ \<Rightarrow> Panic)
      else Ok 0)"

text \<open>\<open>copy(buf[off:], s)\<close> copies what fits; slicing past the end panics.\<close>

definition copy_bytes :: "bytes \<Rightarrow> nat \<Rightarrow> bytes \<Rightarrow> bytes result" where
  "copy_bytes buf off bs = (if off \<le> length buf then Ok (put_at off (take (length buf - off) bs) buf) else Panic)"

definition encodeKey :: "TypeDefinition \<Rightarrow> bytes \<Rightarrow> nat \<Rightarrow> gvalue \<Rightarrow> (bytes \<times> nat) result" where
  "encodeKey keyType buf off key =
     (if ty_name keyType = ''INT64'' then
        (case key of VInt64 k \<Rightarrow> bind_result (put_u64 buf off k) (\<lambda>buf1. Ok (buf1, off + 8)) | _ \<Rightarrow> Panic)
      else if ty_name keyType = ''VARCHAR'' then
        (case key of VString str \<Rightarrow>
           bind_result (put_u16 buf off (word_of_nat (length str))) (\<lambda>buf1.
           bind_result (copy_bytes buf1 (off + 2) (bytes_of_string str)) (\<lambda>buf2.
           Ok (buf2, off + 2 + length str))) | _ \<Rightarrow> Panic)
      else Ok (buf, off))"

definition decodeKey :: "TypeDefinition \<Rightarrow> bytes \<Rightarrow> nat \<Rightarrow> (gvalue \<times> nat) result" where
  "decodeKey keyType buf off =
     (if ty_name keyType = ''INT64'' then bind_result (get_u64 buf off) (\<lambda>k. Ok (VInt64 k, off + 8))
      else if ty_name keyType = ''VARCHAR'' then
        bind_result (get_u16 buf off) (\<lambda>strLen.
        bind_result (get_slice buf (off + 2) (unat strLen)) (\<lambda>bs.
        Ok (VString (string_of_bytes bs), off + 2 + unat strLen)))
      else Ok (VNil, off))"

text \<open>Binary search: the first position whose key is not below, or is above, the key.\<close>

function bound_loop :: "(int \<Rightarrow> bool) \<Rightarrow> TypeDefinition \<Rightarrow> gvalue list \<Rightarrow> gvalue \<Rightarrow> nat \<Rightarrow> nat \<Rightarrow> nat result" where
  "bound_loop right keyType keys key lo hi =
     (if lo < hi then let mid = (lo + hi) div 2 in
        (case btree_compareKeys keyType (keys ! mid) key of
           Ok c \<Rightarrow> if right c then bound_loop right keyType keys key (mid + 1) hi else bound_loop right keyType keys key lo mid
         | Err e \<Rightarrow> Err e
         | Panic \<Rightarrow> Panic)
      else Ok lo)"
  by pat_completeness auto
termination by (relation "measure (\<lambda>(_, _, _, _, lo, hi). hi - lo)") auto

declare bound_loop.simps [simp del]

definition lowerBound :: "TypeDefinition \<Rightarrow> gvalue list \<Rightarrow> gvalue \<Rightarrow> nat result" where
  "lowerBound keyType keys key = bound_loop (\<lambda>c. c < 0) keyType keys key 0 (length keys)"

definition upperBound :: "TypeDefinition \<Rightarrow> gvalue list \<Rightarrow> gvalue \<Rightarrow> nat result" where
  "upperBound keyType keys key = bound_loop (\<lambda>c. c \<le> 0) keyType keys key 0 (length keys)"

text \<open>Inserting into a slice at a position; past the end it panics. \<open>xs[pos]\<close> of a slice.\<close>

definition insert_at :: "nat \<Rightarrow> 'a \<Rightarrow> 'a list \<Rightarrow> 'a list result" where
  "insert_at pos x xs = (if pos \<le> length xs then Ok (take pos xs @ x # drop pos xs) else Panic)"

definition index_at :: "'a list \<Rightarrow> nat \<Rightarrow> 'a result" where
  "index_at xs pos = (if pos < length xs then Ok (xs ! pos) else Panic)"

section \<open>Nodes in pages\<close>

fun read_keys :: "TypeDefinition \<Rightarrow> bytes \<Rightarrow> nat \<Rightarrow> nat \<Rightarrow> (gvalue list \<times> nat) result" where
  "read_keys keyType buf off 0 = Ok ([], off)"
| "read_keys keyType buf off (Suc n) =
     bind_result (decodeKey keyType buf off) (\<lambda>(key, off1).
     bind_result (read_keys keyType buf off1 n) (\<lambda>(keys, off2). Ok (key # keys, off2)))"

fun read_tids :: "bytes \<Rightarrow> nat \<Rightarrow> nat \<Rightarrow> (TID list \<times> nat) result" where
  "read_tids buf off 0 = Ok ([], off)"
| "read_tids buf off (Suc n) =
     bind_result (get_u32 buf off) (\<lambda>pageID.
     bind_result (get_u16 buf (off + 4)) (\<lambda>slotID.
     bind_result (read_tids buf (off + 6) n) (\<lambda>(tids, off1). Ok (NewTID pageID slotID # tids, off1))))"

fun read_values :: "bytes \<Rightarrow> nat \<Rightarrow> nat \<Rightarrow> TID list list result" where
  "read_values buf off 0 = Ok []"
| "read_values buf off (Suc n) =
     bind_result (get_u32 buf off) (\<lambda>tidCount.
     bind_result (read_tids buf (off + 4) (unat tidCount)) (\<lambda>(tids, off1).
     bind_result (read_values buf off1 n) (\<lambda>values. Ok (tids # values))))"

fun read_children :: "bytes \<Rightarrow> nat \<Rightarrow> nat \<Rightarrow> int32 list result" where
  "read_children buf off 0 = Ok []"
| "read_children buf off (Suc n) =
     bind_result (get_u32 buf off) (\<lambda>child.
     bind_result (read_children buf (off + 4) n) (\<lambda>children. Ok (child # children)))"

text \<open>What \<open>readNode\<close> does with the buffer of the page.\<close>

definition parse_node :: "TypeDefinition \<Rightarrow> int32 \<Rightarrow> bytes \<Rightarrow> btreeNode result" where
  "parse_node keyType pageID buf =
     bind_result (get_slice buf nodeIsLeafOff 1) (\<lambda>leafByte. let isLeaf = leafByte = [1] in
     bind_result (get_u32 buf nodeParentOff) (\<lambda>parent.
     bind_result (get_u32 buf nodeLeftSibOff) (\<lambda>leftSib.
     bind_result (get_u32 buf nodeRightSibOff) (\<lambda>rightSib.
     bind_result (get_u32 buf nodeKeyCountOff) (\<lambda>keyCount.
     bind_result (read_keys keyType buf nodeDataStartOff (unat keyCount)) (\<lambda>(keys, off).
     bind_result (if isLeaf then read_values buf off (unat keyCount) else Ok []) (\<lambda>values.
     bind_result (if isLeaf then Ok [] else read_children buf off (unat keyCount + 1)) (\<lambda>children.
     Ok \<lparr>bn_pageID = pageID, bn_isLeaf = isLeaf, bn_parentPageID = parent, bn_leftSibPageID = leftSib,
         bn_rightSibPageID = rightSib, bn_keys = keys, bn_values = values, bn_children = children\<rparr>))))))))"

definition readNode :: "int32 \<Rightarrow> (BTreeState, btreeNode) prog" where
  "readNode pageID s =
     seq (btree_get (sint pageID)) (\<lambda>p. lift_result (parse_node (tx_keyType s) pageID (hp_buf p))) s"

fun write_keys :: "TypeDefinition \<Rightarrow> bytes \<Rightarrow> nat \<Rightarrow> gvalue list \<Rightarrow> (bytes \<times> nat) result" where
  "write_keys keyType buf off [] = Ok (buf, off)"
| "write_keys keyType buf off (key # keys) =
     bind_result (encodeKey keyType buf off key) (\<lambda>(buf1, off1). write_keys keyType buf1 off1 keys)"

fun write_tids :: "bytes \<Rightarrow> nat \<Rightarrow> TID list \<Rightarrow> (bytes \<times> nat) result" where
  "write_tids buf off [] = Ok (buf, off)"
| "write_tids buf off (tid # tids) =
     bind_result (put_u32 buf off (tid_pageID tid)) (\<lambda>buf1.
     bind_result (put_u16 buf1 (off + 4) (tid_slotID tid)) (\<lambda>buf2. write_tids buf2 (off + 6) tids))"

fun write_values :: "bytes \<Rightarrow> nat \<Rightarrow> TID list list \<Rightarrow> bytes result" where
  "write_values buf off [] = Ok buf"
| "write_values buf off (tids # values) =
     bind_result (put_u32 buf off (word_of_nat (length tids))) (\<lambda>buf1.
     bind_result (write_tids buf1 (off + 4) tids) (\<lambda>(buf2, off1). write_values buf2 off1 values))"

fun write_children :: "bytes \<Rightarrow> nat \<Rightarrow> int32 list \<Rightarrow> bytes result" where
  "write_children buf off [] = Ok buf"
| "write_children buf off (child # children) =
     bind_result (put_u32 buf off child) (\<lambda>buf1. write_children buf1 (off + 4) children)"

definition print_node :: "TypeDefinition \<Rightarrow> btreeNode \<Rightarrow> bytes \<Rightarrow> bytes result" where
  "print_node keyType node buf =
     bind_result (put_fields [(btreeHeapHeaderSize, be32 nodeMagic), (nodeIsLeafOff, [if bn_isLeaf node then 1 else 0]),
       (nodeParentOff, be32 (bn_parentPageID node)), (nodeLeftSibOff, be32 (bn_leftSibPageID node)),
       (nodeRightSibOff, be32 (bn_rightSibPageID node)), (nodeKeyCountOff, be32 (word_of_nat (length (bn_keys node))))] buf) (\<lambda>buf1.
     bind_result (write_keys keyType buf1 nodeDataStartOff (bn_keys node)) (\<lambda>(buf2, off).
     if bn_isLeaf node then write_values buf2 off (bn_values node) else write_children buf2 off (bn_children node)))"

definition writeNode :: "btreeNode \<Rightarrow> (BTreeState, unit) prog" where
  "writeNode node s =
     seq (btree_get (sint (bn_pageID node))) (\<lambda>p.
     seq (lift_result (print_node (tx_keyType s) node (hp_buf p))) (\<lambda>buf.
     btree_put (sint (bn_pageID node)) (p\<lparr>hp_buf := buf\<rparr>))) s"

fun sum_sizes :: "TypeDefinition \<Rightarrow> gvalue list \<Rightarrow> nat result" where
  "sum_sizes keyType [] = Ok 0"
| "sum_sizes keyType (key # keys) = bind_result (keySize keyType key) (\<lambda>n.
     bind_result (sum_sizes keyType keys) (\<lambda>m. Ok (n + m)))"

definition estimateSize :: "TypeDefinition \<Rightarrow> btreeNode \<Rightarrow> nat result" where
  "estimateSize keyType node = bind_result (sum_sizes keyType (bn_keys node)) (\<lambda>n.
     Ok (nodeDataStartOff + n + (if bn_isLeaf node then sum_list (map (\<lambda>tids. 4 + length tids * 6) (bn_values node))
       else length (bn_children node) * 4)))"

section \<open>Meta data\<close>

definition btree_loadMeta :: "(BTreeState, unit) prog" where
  "btree_loadMeta =
     seq (btree_get 0) (\<lambda>p. let buf = hp_buf p in
     seq (lift_result (get_u32 buf btreeMetaMagicOff)) (\<lambda>magic.
     if magic \<noteq> btreeMagic then lift_result (Err ErrBadMagic) else
     seq (lift_result (get_u32 buf btreeMetaVersionOff)) (\<lambda>version.
     if version \<noteq> btreeVersion then lift_result (Err ErrUnsupportedVersion) else
     seq (lift_result (get_u32 buf btreeMetaRootOff)) (\<lambda>rootID.
     seq (lift_result (get_u32 buf btreeMetaHeightOff)) (\<lambda>height.
     seq (lift_result (get_u32 buf btreeMetaLeftmostLeafOff)) (\<lambda>leftmost.
     seq (lift_result (get_u32 buf btreeMetaNextPageIDOff)) (\<lambda>nextPageID.
     set_btreeMeta (\<lambda>_. \<lparr>bm_rootPageID = rootID, bm_height = height, bm_leftmostLeafID = leftmost,
       bm_nextPageID = nextPageID\<rparr>))))))))"

definition btree_meta_fields :: "btreeMeta \<Rightarrow> (nat \<times> bytes) list" where
  "btree_meta_fields m = [(btreeMetaMagicOff, be32 btreeMagic), (btreeMetaVersionOff, be32 btreeVersion),
     (btreeMetaRootOff, be32 (bm_rootPageID m)), (btreeMetaHeightOff, be32 (bm_height m)),
     (btreeMetaLeftmostLeafOff, be32 (bm_leftmostLeafID m)), (btreeMetaNextPageIDOff, be32 (bm_nextPageID m))]"

definition btree_writeMeta :: "(BTreeState, unit) prog" where
  "btree_writeMeta s =
     seq (btree_get 0) (\<lambda>p.
     seq (lift_result (put_fields (btree_meta_fields (tx_meta s)) (hp_buf p))) (\<lambda>buf.
     btree_put 0 (p\<lparr>hp_buf := buf\<rparr>))) s"

section \<open>Searching\<close>

text \<open>A node that cannot be read is nil, and looking at it panics.\<close>

definition must_read :: "int32 \<Rightarrow> (BTreeState, btreeNode) prog" where
  "must_read pageID s = (case readNode pageID s of (Err _, s') \<Rightarrow> (Panic, s') | other \<Rightarrow> other)"

partial_function (option) find_leaf_loop :: "gvalue \<Rightarrow> int32 list \<Rightarrow> int32 \<Rightarrow> (BTreeState, btreeNode \<times> int32 list) oprog" where
  "find_leaf_loop key path current s =
     oseq (once (must_read current)) (\<lambda>node s1.
     if bn_isLeaf node then Some (Ok (node, path @ [current]), s1)
     else oseq (once (lift_result (upperBound (tx_keyType s1) (bn_keys node) key))) (\<lambda>pos s2.
       oseq (once (lift_result (index_at (bn_children node) pos))) (\<lambda>child s3.
       find_leaf_loop key (path @ [current]) child s3) s2) s1) s"

definition findLeaf :: "gvalue \<Rightarrow> (BTreeState, btreeNode \<times> int32 list) oprog" where
  "findLeaf key s = find_leaf_loop key [] (bm_rootPageID (tx_meta s)) s"

definition btree_Search :: "gvalue \<Rightarrow> (BTreeState, TID list) oprog" where
  "btree_Search key =
     oseq (findLeaf key) (\<lambda>(leaf, _) s.
     once (lift_result (bind_result (lowerBound (tx_keyType s) (bn_keys leaf) key) (\<lambda>pos.
       if length (bn_keys leaf) \<le> pos then Ok []
       else bind_result (btree_compareKeys (tx_keyType s) (bn_keys leaf ! pos) key) (\<lambda>c.
         if c \<noteq> 0 then Ok [] else index_at (bn_values leaf) pos)))) s)"

text \<open>The scan of one leaf from a position on: \<open>Inl\<close> is the return from within the loop.\<close>

function scan_leaf :: "TypeDefinition \<Rightarrow> gvalue \<Rightarrow> bool \<Rightarrow> gvalue \<Rightarrow> bool \<Rightarrow> btreeNode \<Rightarrow> nat \<Rightarrow> TID list \<Rightarrow> (TID list + TID list) result" where
  "scan_leaf keyType from fromInclusive to toInclusive leaf pos result =
     (if pos < length (bn_keys leaf) then let k = bn_keys leaf ! pos in
        bind_result (if from \<noteq> VNil then bind_result (btree_compareKeys keyType k from) (\<lambda>cmp.
          Ok (cmp < 0 \<or> \<not> fromInclusive \<and> cmp = 0)) else Ok False) (\<lambda>skip.
        if skip then scan_leaf keyType from fromInclusive to toInclusive leaf (pos + 1) result
        else bind_result (if to \<noteq> VNil then bind_result (btree_compareKeys keyType k to) (\<lambda>cmp.
            Ok (cmp > 0 \<or> \<not> toInclusive \<and> cmp = 0)) else Ok False) (\<lambda>stop.
          if stop then Ok (Inl result)
          else bind_result (index_at (bn_values leaf) pos) (\<lambda>tids.
            scan_leaf keyType from fromInclusive to toInclusive leaf (pos + 1) (result @ tids))))
      else Ok (Inr result))"
  by pat_completeness auto
termination by (relation "measure (\<lambda>(_, _, _, _, _, leaf, pos, _). length (bn_keys leaf) - pos)") auto

declare scan_leaf.simps [simp del]

partial_function (option) range_loop :: "gvalue \<Rightarrow> bool \<Rightarrow> gvalue \<Rightarrow> bool \<Rightarrow> int32 \<Rightarrow> nat \<Rightarrow> TID list \<Rightarrow> (BTreeState, TID list) oprog" where
  "range_loop from fromInclusive to toInclusive current pos result s =
     (if current \<noteq> -1 then
        oseq (once (readNode current)) (\<lambda>leaf s1.
        oseq (once (lift_result (scan_leaf (tx_keyType s1) from fromInclusive to toInclusive leaf pos result))) (\<lambda>scan s2.
        case scan of Inl found \<Rightarrow> Some (Ok found, s2)
          | Inr result' \<Rightarrow> range_loop from fromInclusive to toInclusive (bn_rightSibPageID leaf) 0 result' s2) s1) s
      else Some (Ok result, s))"

definition range_start :: "gvalue \<Rightarrow> (BTreeState, int32 \<times> nat) oprog" where
  "range_start from s =
     (if from = VNil then Some (Ok (bm_leftmostLeafID (tx_meta s), 0), s)
      else oseq (findLeaf from) (\<lambda>(leaf, _) s1.
        once (lift_result (bind_result (lowerBound (tx_keyType s1) (bn_keys leaf) from) (\<lambda>pos. Ok (bn_pageID leaf, pos)))) s1) s)"

definition btree_RangeSearch :: "gvalue \<Rightarrow> bool \<Rightarrow> gvalue \<Rightarrow> bool \<Rightarrow> (BTreeState, TID list) oprog" where
  "btree_RangeSearch from fromInclusive to toInclusive s =
     oseq (once (lift_result (if from \<noteq> VNil \<and> to \<noteq> VNil
       then bind_result (btree_compareKeys (tx_keyType s) from to) (\<lambda>c. Ok (c > 0)) else Ok False))) (\<lambda>empty.
     if empty then once (pure [])
     else oseq (range_start from) (\<lambda>(leafPageID, startPos).
       range_loop from fromInclusive to toInclusive leafPageID startPos [])) s"

section \<open>Inserting\<close>

definition insertIntoLeaf :: "TypeDefinition \<Rightarrow> btreeNode \<Rightarrow> gvalue \<Rightarrow> TID \<Rightarrow> btreeNode result" where
  "insertIntoLeaf keyType leaf key tid =
     bind_result (lowerBound keyType (bn_keys leaf) key) (\<lambda>pos.
     bind_result (if pos < length (bn_keys leaf)
       then bind_result (btree_compareKeys keyType (bn_keys leaf ! pos) key) (\<lambda>c. Ok (c = 0)) else Ok False) (\<lambda>present.
     if present then bind_result (index_at (bn_values leaf) pos) (\<lambda>tids.
       Ok (leaf\<lparr>bn_values := (bn_values leaf)[pos := tids @ [tid]]\<rparr>))
     else bind_result (insert_at pos key (bn_keys leaf)) (\<lambda>keys.
       bind_result (insert_at pos [tid] (bn_values leaf)) (\<lambda>values.
       Ok (leaf\<lparr>bn_keys := keys, bn_values := values\<rparr>)))))"

text \<open>\<open>newPageID := meta.nextPageID; meta.nextPageID++\<close> and the new page, the opening of every split.\<close>

definition alloc_node :: "(BTreeState, int32) prog" where
  "alloc_node s = (let newPageID = bm_nextPageID (tx_meta s) in
     seq (set_btreeMeta (\<lambda>m. m\<lparr>bm_nextPageID := bm_nextPageID m + 1\<rparr>)) (\<lambda>_.
     seq (lift_result (NewHeapPage (sint newPageID))) (\<lambda>newPage.
     seq (tx_on (NewPage (btree_key (tx_idx s) (sint newPageID)) (Some newPage))) (\<lambda>_.
     pure newPageID))) s)"

definition createNewRoot :: "btreeNode \<Rightarrow> gvalue \<Rightarrow> btreeNode \<Rightarrow> (BTreeState, unit) prog" where
  "createNewRoot left key right =
     seq alloc_node (\<lambda>newRootID.
     let newRoot = \<lparr>bn_pageID = newRootID, bn_isLeaf = False, bn_parentPageID = -1, bn_leftSibPageID = -1,
       bn_rightSibPageID = -1, bn_keys = [key], bn_values = [], bn_children = [bn_pageID left, bn_pageID right]\<rparr> in
     seq (writeNode newRoot) (\<lambda>_.
     seq (writeNode (left\<lparr>bn_parentPageID := newRootID\<rparr>)) (\<lambda>_.
     seq (writeNode (right\<lparr>bn_parentPageID := newRootID\<rparr>)) (\<lambda>_.
     seq (set_btreeMeta (\<lambda>m. m\<lparr>bm_rootPageID := newRootID, bm_height := bm_height m + 1\<rparr>)) (\<lambda>_.
     btree_writeMeta)))))"

text \<open>The loop of \<open>splitInternal\<close> over the children of the new node.\<close>

fun reparent :: "int32 \<Rightarrow> int32 list \<Rightarrow> (BTreeState, unit) prog" where
  "reparent newPageID [] = pure ()"
| "reparent newPageID (childID # children) =
     seq (readNode childID) (\<lambda>child.
     seq (writeNode (child\<lparr>bn_parentPageID := newPageID\<rparr>)) (\<lambda>_.
     reparent newPageID children))"

text \<open>The two halves of an internal node around its middle key.\<close>

definition split_halves :: "btreeNode \<Rightarrow> int32 \<Rightarrow> (btreeNode \<times> gvalue \<times> btreeNode) result" where
  "split_halves node newPageID = (let mid = length (bn_keys node) div 2 in
     bind_result (index_at (bn_keys node) mid) (\<lambda>splitKey.
     if mid + 1 \<le> length (bn_children node) then Ok
       (node\<lparr>bn_keys := take mid (bn_keys node), bn_children := take (mid + 1) (bn_children node), bn_rightSibPageID := newPageID\<rparr>,
        splitKey,
        \<lparr>bn_pageID = newPageID, bn_isLeaf = False, bn_parentPageID = bn_parentPageID node, bn_leftSibPageID = bn_pageID node,
         bn_rightSibPageID = bn_rightSibPageID node, bn_keys = drop (mid + 1) (bn_keys node), bn_values = [],
         bn_children = drop (mid + 1) (bn_children node)\<rparr>)
     else Panic))"

text \<open>The parent with the key and the new child; the position is that of the key.\<close>

definition parent_with :: "TypeDefinition \<Rightarrow> btreeNode \<Rightarrow> gvalue \<Rightarrow> int32 \<Rightarrow> btreeNode result" where
  "parent_with keyType parent key rightID =
     bind_result (upperBound keyType (bn_keys parent) key) (\<lambda>pos.
     bind_result (insert_at pos key (bn_keys parent)) (\<lambda>keys.
     bind_result (insert_at (pos + 1) rightID (bn_children parent)) (\<lambda>children.
     Ok (parent\<lparr>bn_keys := keys, bn_children := children\<rparr>))))"

text \<open>
  \<open>splitInternal\<close> and \<open>insertIntoParent\<close> call each other: the call upwards with the shorter path is an
  argument of the former.
\<close>

definition splitInternal :: "(btreeNode \<Rightarrow> gvalue \<Rightarrow> btreeNode \<Rightarrow> (BTreeState, unit) prog) \<Rightarrow> btreeNode \<Rightarrow> (BTreeState, unit) prog" where
  "splitInternal insert_up node =
     seq (if bn_keys node = [] then lift_result Panic else alloc_node) (\<lambda>newPageID.
     seq (lift_result (split_halves node newPageID)) (\<lambda>(left, splitKey, right).
     seq (reparent newPageID (bn_children right)) (\<lambda>_.
     seq (writeNode left) (\<lambda>_.
     seq (writeNode right) (\<lambda>_.
     insert_up left splitKey right)))))"

function insertIntoParent :: "btreeNode \<Rightarrow> gvalue \<Rightarrow> btreeNode \<Rightarrow> int32 list \<Rightarrow> (BTreeState, unit) prog" where
  "insertIntoParent left key right path =
     (if bn_parentPageID left = -1 then createNewRoot left key right
      else seq (readNode (bn_parentPageID left)) (\<lambda>parent s.
        seq (lift_result (parent_with (tx_keyType s) parent key (bn_pageID right))) (\<lambda>parent'.
        seq (writeNode (right\<lparr>bn_parentPageID := bn_pageID parent\<rparr>)) (\<lambda>_.
        seq (lift_result (estimateSize (tx_keyType s) parent')) (\<lambda>size'.
        if size' \<le> btreePageCapacity then writeNode parent'
        else if path = [] then lift_result Panic
        else splitInternal (\<lambda>left key right. insertIntoParent left key right (butlast path)) parent'))) s))"
  by pat_completeness auto
termination by (relation "measure (\<lambda>(_, _, _, path). length path)") (auto simp: neq_Nil_conv)

declare insertIntoParent.simps [simp del]

definition leaf_halves :: "btreeNode \<Rightarrow> int32 \<Rightarrow> (btreeNode \<times> btreeNode) result" where
  "leaf_halves leaf newPageID = (let mid = length (bn_keys leaf) div 2 in
     if mid \<le> length (bn_values leaf) then Ok
       (leaf\<lparr>bn_keys := take mid (bn_keys leaf), bn_values := take mid (bn_values leaf), bn_rightSibPageID := newPageID\<rparr>,
        \<lparr>bn_pageID = newPageID, bn_isLeaf = True, bn_parentPageID = bn_parentPageID leaf, bn_leftSibPageID = bn_pageID leaf,
         bn_rightSibPageID = bn_rightSibPageID leaf, bn_keys = drop mid (bn_keys leaf), bn_values = drop mid (bn_values leaf),
         bn_children = []\<rparr>)
     else Panic)"

text \<open>The right neighbour of the new leaf points back to it.\<close>

definition link_right :: "int32 \<Rightarrow> int32 \<Rightarrow> (BTreeState, unit) prog" where
  "link_right rightSibID newPageID =
     (if rightSibID = -1 then pure ()
      else seq (readNode rightSibID) (\<lambda>rightSib. writeNode (rightSib\<lparr>bn_leftSibPageID := newPageID\<rparr>)))"

definition splitLeaf :: "btreeNode \<Rightarrow> int32 list \<Rightarrow> (BTreeState, unit) prog" where
  "splitLeaf leaf path =
     seq alloc_node (\<lambda>newPageID.
     seq (lift_result (leaf_halves leaf newPageID)) (\<lambda>(left, newLeaf).
     seq (writeNode left) (\<lambda>_.
     seq (writeNode newLeaf) (\<lambda>_.
     seq (link_right (bn_rightSibPageID newLeaf) newPageID) (\<lambda>_.
     seq (lift_result (index_at (bn_keys newLeaf) 0)) (\<lambda>splitKey.
     insertIntoParent left splitKey newLeaf path))))))"

definition btree_Insert :: "gvalue \<Rightarrow> TID \<Rightarrow> (BTreeState, unit) oprog" where
  "btree_Insert key tid =
     oseq (findLeaf key) (\<lambda>(leaf, path) s.
     once (seq (lift_result (insertIntoLeaf (tx_keyType s) leaf key tid)) (\<lambda>leaf'.
       seq (lift_result (estimateSize (tx_keyType s) leaf')) (\<lambda>size'.
       if size' \<le> btreePageCapacity then writeNode leaf' else splitLeaf leaf' path))) s)"

section \<open>Opening an index\<close>

definition btree_initializeNew :: "(BTreeState, unit) prog" where
  "btree_initializeNew s =
     seq (lift_result (NewHeapPage 0)) (\<lambda>metaPage.
     seq (tx_on (NewPage (btree_key (tx_idx s) 0) (Some metaPage))) (\<lambda>_.
     seq (lift_result (NewHeapPage 1)) (\<lambda>rootLeaf.
     seq (tx_on (NewPage (btree_key (tx_idx s) 1) (Some rootLeaf))) (\<lambda>_.
     seq (set_btreeMeta (\<lambda>_. \<lparr>bm_rootPageID = 1, bm_height = 1, bm_leftmostLeafID = 1, bm_nextPageID = 2\<rparr>)) (\<lambda>_.
     seq (writeNode \<lparr>bn_pageID = 1, bn_isLeaf = True, bn_parentPageID = -1, bn_leftSibPageID = -1, bn_rightSibPageID = -1,
       bn_keys = [], bn_values = [], bn_children = []\<rparr>) (\<lambda>_.
     btree_writeMeta)))))) s"

definition btree_initOrLoad :: "(BTreeState, unit) prog" where
  "btree_initOrLoad s = (let root = bi_root (tx_idx s); d = bp_disk (tx_pool s) in
     if fs_fault d root FsMkdir then (Err (ErrMkdirAll root), s)
     else case os_Stat (path_Join root (bi_fileID (tx_idx s))) d of
       Ok None \<Rightarrow> btree_initializeNew s
     | Ok (Some sz) \<Rightarrow> if sz = 0 then btree_initializeNew s else btree_loadMeta s
     | _ \<Rightarrow> btree_loadMeta s)"

definition no_btreeMeta :: btreeMeta where
  "no_btreeMeta = \<lparr>bm_rootPageID = 0, bm_height = 0, bm_leftmostLeafID = 0, bm_nextPageID = 0\<rparr>"

definition NewDiskBTreeIndex :: "string \<Rightarrow> Catalog \<Rightarrow> IndexDefinition \<Rightarrow> (Pool, DiskBTreeIndex) prog" where
  "NewDiskBTreeIndex root c def b =
     (if ix_indexType def \<noteq> IndexTypeBTree then (Err ErrNotBTreeIndex, b)
      else case GetTypeByOid (ix_keyTypeOid def) c of
        Ok (Some keyType) \<Rightarrow>
          (case btree_initOrLoad \<lparr>tx_pool = b, tx_idx = \<lparr>bi_root = root, bi_def = def, bi_fileID = ix_fileNode def,
             bi_keyType = keyType, bi_meta = no_btreeMeta\<rparr>\<rparr> of
            (Ok _, s) \<Rightarrow> (Ok (tx_idx s), tx_pool s)
          | (Err e, s) \<Rightarrow> (Err e, tx_pool s)
          | (Panic, s) \<Rightarrow> (Panic, tx_pool s))
      | _ \<Rightarrow> (Err ErrUnknownKeyType, b))"

end
