(* ===== verification/BTreeNodes.thy ===== *)
theory BTreeNodes
  imports BTreeIndex
begin

text \<open>
  The nodes of the B-tree as bytes: a node whose estimated size fits the page is printed into it without a
  panic, and parsing the page gives the node back, whatever was in the page before.
\<close>

definition tid_bytes :: "TID \<Rightarrow> bytes" where
  "tid_bytes t = be32 (tid_pageID t) @ be16 (tid_slotID t)"

definition tids_bytes :: "TID list \<Rightarrow> bytes" where
  "tids_bytes ts = concat (map tid_bytes ts)"

definition value_bytes :: "TID list \<Rightarrow> bytes" where
  "value_bytes ts = be32 (word_of_nat (length ts)) @ tids_bytes ts"

definition keys_bytes :: "gvalue list \<Rightarrow> bytes" where
  "keys_bytes ks = concat (map key_bytes ks)"

definition values_bytes :: "TID list list \<Rightarrow> bytes" where
  "values_bytes vs = concat (map value_bytes vs)"

definition children_bytes :: "int32 list \<Rightarrow> bytes" where
  "children_bytes cs = concat (map be32 cs)"

lemma btree_bytes_simps [simp]:
  "tids_bytes [] = []" "tids_bytes (t # ts) = tid_bytes t @ tids_bytes ts"
  "keys_bytes [] = []" "keys_bytes (k # ks) = key_bytes k @ keys_bytes ks"
  "values_bytes [] = []" "values_bytes (v # vs) = value_bytes v @ values_bytes vs"
  "children_bytes [] = []" "children_bytes (c # cs) = be32 c @ children_bytes cs"
  by (simp_all add: tids_bytes_def keys_bytes_def values_bytes_def children_bytes_def)

lemma length_tids_bytes [simp]: "length (tids_bytes ts) = 6 * length ts"
  by (induction ts) (simp_all add: tid_bytes_def)

lemma length_value_bytes [simp]: "length (value_bytes ts) = 4 + 6 * length ts"
  by (simp add: value_bytes_def)

lemma length_children_bytes [simp]: "length (children_bytes cs) = 4 * length cs"
  by (induction cs) simp_all

section \<open>Sizes\<close>

definition body_bytes :: "btreeNode \<Rightarrow> bytes" where
  "body_bytes node = keys_bytes (bn_keys node)
     @ (if bn_isLeaf node then values_bytes (bn_values node) else children_bytes (bn_children node))"

definition node_size :: "btreeNode \<Rightarrow> nat" where
  "node_size node = 34 + length (body_bytes node)"

definition node_shape :: "TypeDefinition \<Rightarrow> btreeNode \<Rightarrow> bool" where
  "node_shape keyType node \<longleftrightarrow> (\<forall>k \<in> set (bn_keys node). key_ok keyType k)
     \<and> (if bn_isLeaf node then length (bn_values node) = length (bn_keys node) \<and> bn_children node = []
        else bn_values node = [] \<and> length (bn_children node) = Suc (length (bn_keys node)))"

lemma keySize_ok: "key_ok keyType k \<Longrightarrow> keySize keyType k = Ok (length (key_bytes k))"
  by (auto simp: key_ok_def keySize_def key_bytes_def split: gvalue.splits)

lemma sum_sizes_ok: "\<forall>k \<in> set ks. key_ok keyType k \<Longrightarrow> sum_sizes keyType ks = Ok (length (keys_bytes ks))"
  by (induction ks) (simp_all add: keySize_ok)

lemma length_values_bytes: "length (values_bytes vs) = sum_list (map (\<lambda>tids. 4 + length tids * 6) vs)"
  by (induction vs) simp_all

lemma estimateSize_ok: "node_shape keyType node \<Longrightarrow> estimateSize keyType node = Ok (node_size node)"
  by (simp add: estimateSize_def node_shape_def sum_sizes_ok node_size_def body_bytes_def length_values_bytes btree_consts)

lemma key_bytes_pos: "key_ok keyType k \<Longrightarrow> 2 \<le> length (key_bytes k)"
  by (auto simp: key_ok_def key_bytes_def split: gvalue.splits)

lemma keys_count: "\<forall>k \<in> set ks. key_ok keyType k \<Longrightarrow> 2 * length ks \<le> length (keys_bytes ks)"
  using key_bytes_pos by (induction ks) fastforce+

section \<open>Printing\<close>

lemma put_at_nil [simp]: "put_at off [] buf = buf"
  by (simp add: put_at_def)

lemma put_at_append:
  assumes "off + length xs + length ys \<le> length buf"
  shows "put_at (off + length xs) ys (put_at off xs buf) = put_at off (xs @ ys) buf"
proof -
  have "take (off + length xs) (put_at off xs buf) = take off buf @ xs" using assms by (simp add: put_at_def)
  moreover have "drop (off + length xs + length ys) (put_at off xs buf) = drop (off + length (xs @ ys)) buf"
    using assms by (simp add: put_at_def add.commute add.left_commute)
  ultimately show ?thesis by (simp add: put_at_def)
qed

lemma put_at_append2: "off' = off + length xs \<Longrightarrow> off' + length ys \<le> length buf \<Longrightarrow> put_at off' ys (put_at off xs buf) = put_at off (xs @ ys) buf"
  using put_at_append [of off xs ys buf] by simp

lemma encodeKey_ok:
  assumes "key_ok keyType k" and "off + length (key_bytes k) \<le> length buf"
  shows "encodeKey keyType buf off k = Ok (put_at off (key_bytes k) buf, off + length (key_bytes k))"
  using assms
  by (auto simp: key_ok_def encodeKey_def key_bytes_def buf_ops copy_bytes_def put_at_append2 split: gvalue.splits)

lemma write_keys_ok:
  assumes "\<forall>k \<in> set ks. key_ok keyType k" and "off + length (keys_bytes ks) \<le> length buf"
  shows "write_keys keyType buf off ks = Ok (put_at off (keys_bytes ks) buf, off + length (keys_bytes ks))"
  using assms
  by (induction ks arbitrary: buf off) (simp_all add: encodeKey_ok put_at_append2 add.assoc)

lemma write_tids_ok:
  assumes "off + length (tids_bytes ts) \<le> length buf"
  shows "write_tids buf off ts = Ok (put_at off (tids_bytes ts) buf, off + length (tids_bytes ts))"
  using assms
proof (induction ts arbitrary: buf off)
  case (Cons t ts)
  have "put_u16 (put_at off (be32 (tid_pageID t)) buf) (off + 4) (tid_slotID t) = Ok (put_at off (tid_bytes t) buf)"
    using Cons.prems by (simp add: buf_ops tid_bytes_def put_at_append2)
  then show ?case using Cons.prems Cons.IH [of "off + 6" "put_at off (tid_bytes t) buf"]
    by (simp add: buf_ops put_at_append2 tid_bytes_def)
qed simp

lemma write_values_ok:
  assumes "off + length (values_bytes vs) \<le> length buf"
  shows "write_values buf off vs = Ok (put_at off (values_bytes vs) buf)"
  using assms
proof (induction vs arbitrary: buf off)
  case (Cons v vs)
  have "write_tids (put_at off (be32 (word_of_nat (length v))) buf) (off + 4) v
      = Ok (put_at off (value_bytes v) buf, off + length (value_bytes v))"
    using Cons.prems by (simp add: write_tids_ok value_bytes_def put_at_append2)
  then show ?case using Cons.prems Cons.IH [of "off + length (value_bytes v)" "put_at off (value_bytes v) buf"]
    by (simp add: buf_ops put_at_append2)
qed simp

lemma write_children_ok:
  assumes "off + length (children_bytes cs) \<le> length buf"
  shows "write_children buf off cs = Ok (put_at off (children_bytes cs) buf)"
  using assms by (induction cs arbitrary: buf off) (simp_all add: buf_ops put_at_append2)

section \<open>Parsing\<close>

lemma drop_step: "drop off buf = xs @ rest \<Longrightarrow> drop (off + length xs) buf = rest"
  by (metis add.commute append_eq_conv_conj drop_drop)

lemma drop_bound: "drop off buf = xs @ rest \<Longrightarrow> off \<le> length buf \<Longrightarrow> off + length xs \<le> length buf"
  by (metis length_append length_drop le_add1 le_diff_conv2 add.commute)

lemma decodeKey_ok:
  assumes key: "key_ok keyType k" and off: "off \<le> length buf" and at: "drop off buf = key_bytes k @ rest"
  shows "decodeKey keyType buf off = Ok (k, off + length (key_bytes k))"
proof -
  note g = get_at [OF off, unfolded at]
  have "unat (word_of_nat (length str) :: uint16) = length str" if "k = VString str" for str
    using key that by (simp add: key_ok_def unat_of_nat)
  then show ?thesis
    using key by (auto simp: key_ok_def decodeKey_def g key_bytes_def get_skip get_head split: gvalue.splits)
qed

lemma read_keys_ok:
  assumes "\<forall>k \<in> set ks. key_ok keyType k" and "off \<le> length buf" and "drop off buf = keys_bytes ks @ rest"
  shows "read_keys keyType buf off (length ks) = Ok (ks, off + length (keys_bytes ks))"
  using assms
proof (induction ks arbitrary: off)
  case (Cons k ks)
  have at: "drop off buf = key_bytes k @ (keys_bytes ks @ rest)" using Cons.prems(3) by simp
  have "read_keys keyType buf (off + length (key_bytes k)) (length ks) = Ok (ks, off + length (key_bytes k) + length (keys_bytes ks))"
    using Cons.prems(1) by (intro Cons.IH drop_bound [OF at Cons.prems(2)] drop_step [OF at]) simp
  then show ?case using decodeKey_ok [OF _ Cons.prems(2) at] Cons.prems(1) by (simp add: add.assoc)
qed simp

lemma read_tids_ok:
  assumes "off \<le> length buf" and "drop off buf = tids_bytes ts @ rest"
  shows "read_tids buf off (length ts) = Ok (ts, off + length (tids_bytes ts))"
  using assms
proof (induction ts arbitrary: off)
  case (Cons t ts)
  have at: "drop off buf = tid_bytes t @ (tids_bytes ts @ rest)" using Cons.prems(2) by simp
  have len: "length (tid_bytes t) = 6" by (simp add: tid_bytes_def)
  have "read_tids buf (off + 6) (length ts) = Ok (ts, off + 6 + length (tids_bytes ts))"
    using Cons.IH [of "off + 6"] drop_bound [OF at Cons.prems(1)] drop_step [OF at] len by simp
  moreover have "get_u32 buf off = Ok (tid_pageID t)" "get_u16 buf (off + 4) = Ok (tid_slotID t)"
    by (simp_all add: get_at [OF Cons.prems(1), unfolded at] tid_bytes_def get_head get_skip)
  ultimately show ?case using len by (simp add: NewTID_def)
qed simp

lemma read_values_ok:
  assumes "off \<le> length buf" and "drop off buf = values_bytes vs @ rest" and "\<forall>v \<in> set vs. length v < 2 ^ 32"
  shows "read_values buf off (length vs) = Ok vs"
  using assms
proof (induction vs arbitrary: off)
  case (Cons v vs)
  have at: "drop off buf = be32 (word_of_nat (length v)) @ (tids_bytes v @ (values_bytes vs @ rest))"
    using Cons.prems(2) by (simp add: value_bytes_def)
  note at1 = drop_step [OF at, simplified]
  have b: "off + 4 \<le> length buf" using drop_bound [OF at Cons.prems(1)] by simp
  have "get_u32 buf off = Ok (word_of_nat (length v))"
    by (simp add: get_at [OF Cons.prems(1), unfolded at] get_head)
  moreover have "unat (word_of_nat (length v) :: uint32) = length v" using Cons.prems(3) by (simp add: unat_of_nat)
  moreover have "read_tids buf (off + 4) (length v) = Ok (v, off + 4 + 6 * length v)"
    using read_tids_ok [OF b at1] by simp
  moreover have "read_values buf (off + 4 + 6 * length v) (length vs) = Ok vs"
    using Cons.IH [of "off + 4 + 6 * length v"] drop_bound [OF at1 b] drop_step [OF at1] Cons.prems(3) by simp
  ultimately show ?case by (simp del: of_nat_numeral)
qed simp

lemma read_children_ok:
  assumes "off \<le> length buf" and "drop off buf = children_bytes cs @ rest"
  shows "read_children buf off (length cs) = Ok cs"
  using assms
proof (induction cs arbitrary: off)
  case (Cons c cs)
  have at: "drop off buf = be32 c @ (children_bytes cs @ rest)" using Cons.prems(2) by simp
  have "read_children buf (off + 4) (length cs) = Ok cs"
    using Cons.IH [of "off + 4"] drop_bound [OF at Cons.prems(1)] drop_step [OF at] by simp
  then show ?case by (simp add: get_at [OF Cons.prems(1), unfolded at] get_head)
qed simp

section \<open>Round trip\<close>

definition node_ok :: "TypeDefinition \<Rightarrow> btreeNode \<Rightarrow> bool" where
  "node_ok keyType node \<longleftrightarrow> node_shape keyType node \<and> node_size node \<le> 8192"

text \<open>A page that holds a node.\<close>

definition node_page :: "TypeDefinition \<Rightarrow> bytes \<Rightarrow> btreeNode \<Rightarrow> bool" where
  "node_page keyType buf node \<longleftrightarrow> valid_buf buf \<and> parse_node keyType (bn_pageID node) buf = Ok node"

lemma slice_drop: "off + n \<le> length buf \<Longrightarrow> drop off buf = slice off n buf @ drop (off + n) buf"
  by (simp add: slice_def add.commute flip: drop_drop)

lemma print_node_ok:
  assumes ok: "node_ok keyType node" and buf: "valid_buf buf"
  shows "\<exists>buf'. print_node keyType node buf = Ok buf' \<and> node_page keyType buf' node"
proof -
  let ?ks = "bn_keys node" and ?b = "body_bytes node"
  have len: "length buf = 8192" using valid_buf_length [OF buf] by (simp add: PageSize_def)
  have size': "34 + length ?b \<le> 8192" and shape: "node_shape keyType node"
    using ok by (simp_all add: node_ok_def node_size_def)
  have keys: "\<forall>k \<in> set ?ks. key_ok keyType k" using shape by (simp add: node_shape_def)
  define hdr where "hdr = put_at 30 (be32 (word_of_nat (length ?ks))) (put_at 26 (be32 (bn_rightSibPageID node))
    (put_at 22 (be32 (bn_leftSibPageID node)) (put_at 18 (be32 (bn_parentPageID node))
    (put_at 14 [if bn_isLeaf node then 1 else 0] (put_at 10 (be32 nodeMagic) buf)))))"
  have hlen: "length hdr = 8192" using len by (simp add: hdr_def)
  have hdr: "put_fields [(btreeHeapHeaderSize, be32 nodeMagic), (nodeIsLeafOff, [if bn_isLeaf node then 1 else 0]),
       (nodeParentOff, be32 (bn_parentPageID node)), (nodeLeftSibOff, be32 (bn_leftSibPageID node)),
       (nodeRightSibOff, be32 (bn_rightSibPageID node)), (nodeKeyCountOff, be32 (word_of_nat (length ?ks)))] buf = Ok hdr"
    using len by (simp add: btree_consts buf_ops hdr_def)
  have start: "nodeDataStartOff = 34" by (simp add: btree_consts)
  define buf' where "buf' = put_at 34 ?b hdr"
  have blen: "length buf' = 8192" using hlen size' by (simp add: buf'_def)
  have kb: "34 + length (keys_bytes ?ks) + length (if bn_isLeaf node then values_bytes (bn_values node)
      else children_bytes (bn_children node)) \<le> 8192" using size' by (simp add: body_bytes_def)
  have "print_node keyType node buf = Ok buf'"
    unfolding print_node_def hdr using kb hlen keys
    by (cases "bn_isLeaf node")
      (simp_all add: write_keys_ok write_values_ok write_children_ok put_at_append2 buf'_def body_bytes_def start)
  moreover have valid: "valid_buf buf'"
    using buf size' hlen len by (simp add: valid_buf_def buf'_def hdr_def PageSize_def signatureOff_def buf_simps)
  have at: "drop 34 buf' = keys_bytes ?ks @ (if bn_isLeaf node then values_bytes (bn_values node)
      else children_bytes (bn_children node)) @ drop (34 + length ?b) buf'"
    using slice_drop [of 34 "length ?b" buf'] blen size' hlen by (simp add: buf'_def body_bytes_def buf_simps)
  have kr: "read_keys keyType buf' 34 (length ?ks) = Ok (?ks, 34 + length (keys_bytes ?ks))"
    using read_keys_ok [OF keys _ at] blen by simp
  note at2 = drop_step [OF at]
  have small: "length v < 2 ^ 32" if "v \<in> set vs" "length (values_bytes vs) \<le> 8192" for v vs
    using that by (induction vs) auto
  have n: "unat (word_of_nat (length ?ks) :: uint32) = length ?ks"
    using keys_count [OF keys] kb by (simp add: unat_of_nat)
  have fields: "get_slice buf' 14 1 = Ok [if bn_isLeaf node then 1 else 0]" "get_u32 buf' 18 = Ok (bn_parentPageID node)"
    "get_u32 buf' 22 = Ok (bn_leftSibPageID node)" "get_u32 buf' 26 = Ok (bn_rightSibPageID node)"
    "get_u32 buf' 30 = Ok (word_of_nat (length ?ks))"
    using blen size' hlen len by (simp_all add: buf_ops buf'_def hdr_def buf_simps)
  have "parse_node keyType (bn_pageID node) buf' = Ok node"
  proof (cases "bn_isLeaf node")
    case True
    have "read_values buf' (34 + length (keys_bytes ?ks)) (length ?ks) = Ok (bn_values node)"
      using read_values_ok [of "34 + length (keys_bytes ?ks)" buf' "bn_values node"] at2 small [of _ "bn_values node"] kb True shape blen
      by (simp add: node_shape_def)
    then show ?thesis using True shape fields kr n by (simp add: parse_node_def btree_consts node_shape_def)
  next
    case False
    have "read_children buf' (34 + length (keys_bytes ?ks)) (Suc (length ?ks)) = Ok (bn_children node)"
      using read_children_ok [of "34 + length (keys_bytes ?ks)" buf' "bn_children node"] at2 kb False shape blen
      by (simp add: node_shape_def)
    then show ?thesis using False shape fields kr n by (simp add: parse_node_def btree_consts node_shape_def)
  qed
  ultimately show ?thesis using valid by (simp add: node_page_def)
qed

end
