(* ===== verification/BTreeShape.thy ===== *)
theory BTreeShape
  imports BTreeNodes
begin

text \<open>
  The abstract B-tree: leaves with their entries and inner nodes with separators, each with its page number.
  Keys are ordered as the index compares them. A place in a tree is a list of frames, the innermost first,
  and \<open>plug\<close> puts a tree there; what a change at one place does to the order, the entries, the leaves and
  the pages of the whole tree is stated once for \<open>plug\<close>.
\<close>

section \<open>The order of keys\<close>

lemma int64_sint_eq [simp]: "sint a = sint b \<longleftrightarrow> a = b" for a b :: int64
  by (auto intro: signed_word_eqI)

instantiation gvalue :: linorder
begin

fun gv_tag :: "gvalue \<Rightarrow> nat" where
  "gv_tag VNil = 0" | "gv_tag (VInt64 _) = 1" | "gv_tag (VString _) = 2" | "gv_tag (VBool _) = 3"

fun gv_le :: "gvalue \<Rightarrow> gvalue \<Rightarrow> bool" where
  "gv_le (VInt64 a) (VInt64 b) \<longleftrightarrow> sint a \<le> sint b"
| "gv_le (VString s) (VString t) \<longleftrightarrow> s \<le> t"
| "gv_le (VBool p) (VBool q) \<longleftrightarrow> p \<le> q"
| "gv_le a b \<longleftrightarrow> gv_tag a \<le> gv_tag b"

definition less_eq_gvalue :: "gvalue \<Rightarrow> gvalue \<Rightarrow> bool" where
  "less_eq_gvalue = gv_le"

definition less_gvalue :: "gvalue \<Rightarrow> gvalue \<Rightarrow> bool" where
  "less_gvalue a b \<longleftrightarrow> a \<le> b \<and> \<not> b \<le> a"

instance
proof
  fix a b c :: gvalue
  show "a < b \<longleftrightarrow> a \<le> b \<and> \<not> b \<le> a" by (rule less_gvalue_def)
  show "a \<le> a" by (cases a) (simp_all add: less_eq_gvalue_def)
  show "a \<le> b \<Longrightarrow> b \<le> c \<Longrightarrow> a \<le> c" by (cases a; cases b; cases c) (auto simp: less_eq_gvalue_def)
  show "a \<le> b \<Longrightarrow> b \<le> a \<Longrightarrow> a = b" by (cases a; cases b) (auto simp: less_eq_gvalue_def)
  show "a \<le> b \<or> b \<le> a" by (cases a; cases b) (auto simp: less_eq_gvalue_def)
qed

end

lemma gvalue_less_simps [simp]:
  "VInt64 a \<le> VInt64 b \<longleftrightarrow> sint a \<le> sint b" "VInt64 a < VInt64 b \<longleftrightarrow> sint a < sint b"
  "VString s \<le> VString t \<longleftrightarrow> s \<le> t" "VString s < VString t \<longleftrightarrow> s < t"
  by (auto simp: less_eq_gvalue_def less_gvalue_def)

lemma btree_compareKeys_ok:
  assumes "key_ok keyType a" and "key_ok keyType b"
  shows "\<exists>c. btree_compareKeys keyType a b = Ok c \<and> (c < 0 \<longleftrightarrow> a < b) \<and> (c > 0 \<longleftrightarrow> b < a) \<and> (c = 0 \<longleftrightarrow> a = b)"
  using assms
  by (auto simp: key_ok_def btree_compareKeys_def word_sless_alt not_less not_less_iff_gr_or_eq
      split: gvalue.splits)

section \<open>Trees\<close>

type_synonym entry = "gvalue \<times> TID list"

datatype bt = Lf nat "entry list" | Nd nat "gvalue list" "bt list"

fun bt_page :: "bt \<Rightarrow> nat" where
  "bt_page (Lf i _) = i" | "bt_page (Nd i _ _) = i"

fun entries :: "bt \<Rightarrow> entry list" where
  "entries (Lf i es) = es"
| "entries (Nd i ks ts) = concat (map entries ts)"

fun leaves :: "bt \<Rightarrow> (nat \<times> entry list) list" where
  "leaves (Lf i es) = [(i, es)]"
| "leaves (Nd i ks ts) = concat (map leaves ts)"

fun pages :: "bt \<Rightarrow> nat list" where
  "pages (Lf i es) = [i]"
| "pages (Nd i ks ts) = i # concat (map pages ts)"

text \<open>Bounds, with no bound as \<open>None\<close>: keys are at least the lower and less than the upper one.\<close>

definition above :: "gvalue option \<Rightarrow> gvalue \<Rightarrow> bool" where
  "above lo k \<longleftrightarrow> (\<forall>l. lo = Some l \<longrightarrow> l \<le> k)"

definition below :: "gvalue option \<Rightarrow> gvalue \<Rightarrow> bool" where
  "below hi k \<longleftrightarrow> (\<forall>h. hi = Some h \<longrightarrow> k < h)"

definition upto_bound :: "gvalue option \<Rightarrow> gvalue \<Rightarrow> bool" where
  "upto_bound hi k \<longleftrightarrow> (\<forall>h. hi = Some h \<longrightarrow> k \<le> h)"

lemma bounds_simps [simp]:
  "above None k" "below None k" "upto_bound None k" "above (Some l) k \<longleftrightarrow> l \<le> k" "below (Some h) k \<longleftrightarrow> k < h"
  "upto_bound (Some h) k \<longleftrightarrow> k \<le> h"
  by (simp_all add: above_def below_def upto_bound_def)

definition leaf_ordered :: "gvalue option \<Rightarrow> gvalue option \<Rightarrow> entry list \<Rightarrow> bool" where
  "leaf_ordered lo hi es \<longleftrightarrow> sorted_wrt (<) (map fst es) \<and> (\<forall>k \<in> set (map fst es). above lo k \<and> below hi k)"

fun ordered :: "gvalue option \<Rightarrow> gvalue option \<Rightarrow> bt \<Rightarrow> bool"
  and ordered_seq :: "gvalue option \<Rightarrow> gvalue option \<Rightarrow> gvalue list \<Rightarrow> bt list \<Rightarrow> bool" where
  "ordered lo hi (Lf i es) \<longleftrightarrow> leaf_ordered lo hi es"
| "ordered lo hi (Nd i ks ts) \<longleftrightarrow> ordered_seq lo hi ks ts"
| "ordered_seq lo hi [] [t] \<longleftrightarrow> ordered lo hi t"
| "ordered_seq lo hi (k # ks) (t # ts) \<longleftrightarrow> above lo k \<and> upto_bound hi k \<and> ordered lo (Some k) t \<and> ordered_seq (Some k) hi ks ts"
| "ordered_seq lo hi _ _ \<longleftrightarrow> False"

lemma above_mono: "above (Some l) k \<Longrightarrow> above lo l \<Longrightarrow> above lo k"
  by (auto simp: above_def)

lemma ordered_seq_length: "ordered_seq lo hi ks ts \<Longrightarrow> length ts = Suc (length ks)"
proof (induction ks arbitrary: lo ts)
  case Nil
  then show ?case by (cases ts; cases "tl ts") auto
next
  case (Cons k ks)
  then show ?case by (cases ts) auto
qed

section \<open>Places\<close>

record frame =
  fr_page :: nat
  fr_ksL :: "gvalue list"
  fr_tsL :: "bt list"
  fr_ksR :: "gvalue list"
  fr_tsR :: "bt list"

definition fill :: "frame \<Rightarrow> bt \<Rightarrow> bt" where
  "fill f t = Nd (fr_page f) (fr_ksL f @ fr_ksR f) (fr_tsL f @ t # fr_tsR f)"

fun plug :: "frame list \<Rightarrow> bt \<Rightarrow> bt" where
  "plug [] t = t"
| "plug (f # fs) t = plug fs (fill f t)"

text \<open>The bounds at a place and the page of the node above it.\<close>

fun place_bounds :: "frame list \<Rightarrow> gvalue option \<times> gvalue option" where
  "place_bounds [] = (None, None)"
| "place_bounds (f # fs) = (if fr_ksL f = [] then fst (place_bounds fs) else Some (last (fr_ksL f)),
     if fr_ksR f = [] then snd (place_bounds fs) else Some (hd (fr_ksR f)))"

abbreviation place_lo :: "frame list \<Rightarrow> gvalue option" where "place_lo fs \<equiv> fst (place_bounds fs)"
abbreviation place_hi :: "frame list \<Rightarrow> gvalue option" where "place_hi fs \<equiv> snd (place_bounds fs)"

text \<open>The part of a sequence left of a place, with its upper bound, and the part right of it.\<close>

fun seq_left :: "gvalue option \<Rightarrow> gvalue option \<Rightarrow> gvalue list \<Rightarrow> bt list \<Rightarrow> bool" where
  "seq_left lo hi [] [] \<longleftrightarrow> True"
| "seq_left lo hi (k # ks) (t # ts) \<longleftrightarrow> above lo k \<and> upto_bound hi k \<and> ordered lo (Some k) t \<and> seq_left (Some k) hi ks ts"
| "seq_left lo hi _ _ \<longleftrightarrow> False"

definition seq_right :: "gvalue option \<Rightarrow> gvalue option \<Rightarrow> gvalue list \<Rightarrow> bt list \<Rightarrow> bool" where
  "seq_right lo hi ks ts \<longleftrightarrow> (case ks of [] \<Rightarrow> ts = [] | k # ks' \<Rightarrow> above lo k \<and> upto_bound hi k \<and> ordered_seq (Some k) hi ks' ts)"

lemma seq_left_length: "seq_left lo hi ks ts \<Longrightarrow> length ts = length ks"
  by (induction lo hi ks ts rule: seq_left.induct) auto

lemma seq_right_length: "seq_right lo hi ks ts \<Longrightarrow> length ts = length ks"
  using ordered_seq_length by (auto simp: seq_right_def split: list.splits)

lemma ordered_seq_split:
  assumes "length tsL = length ksL"
  shows "ordered_seq lo hi (ksL @ ksR) (tsL @ t # tsR) \<longleftrightarrow>
    seq_left lo hi ksL tsL \<and> ordered (if ksL = [] then lo else Some (last ksL)) (if ksR = [] then hi else Some (hd ksR)) t
    \<and> seq_right (if ksL = [] then lo else Some (last ksL)) hi ksR tsR"
  using assms
proof (induction ksL arbitrary: lo tsL)
  case Nil
  then show ?case by (cases ksR; cases tsR) (auto simp: seq_right_def)
next
  case (Cons k ksL)
  then show ?case by (cases tsL) auto
qed

definition frame_ordered :: "gvalue option \<Rightarrow> gvalue option \<Rightarrow> frame \<Rightarrow> bool" where
  "frame_ordered lo hi f \<longleftrightarrow> length (fr_tsL f) = length (fr_ksL f) \<and> seq_left lo hi (fr_ksL f) (fr_tsL f)
     \<and> seq_right (if fr_ksL f = [] then lo else Some (last (fr_ksL f))) hi (fr_ksR f) (fr_tsR f)"

fun frames_ordered :: "frame list \<Rightarrow> bool" where
  "frames_ordered [] \<longleftrightarrow> True"
| "frames_ordered (f # fs) \<longleftrightarrow> frame_ordered (place_lo fs) (place_hi fs) f \<and> frames_ordered fs"

lemma ordered_plug:
  "frames_ordered fs \<Longrightarrow> ordered (place_lo fs) (place_hi fs) t \<Longrightarrow> ordered None None (plug fs t)"
  by (induction fs arbitrary: t) (auto simp: frame_ordered_def fill_def ordered_seq_split)

section \<open>What a place leaves and right of it holds\<close>

fun left_of :: "(bt \<Rightarrow> 'a list) \<Rightarrow> frame list \<Rightarrow> 'a list" where
  "left_of g [] = []"
| "left_of g (f # fs) = left_of g fs @ concat (map g (fr_tsL f))"

fun right_of :: "(bt \<Rightarrow> 'a list) \<Rightarrow> frame list \<Rightarrow> 'a list" where
  "right_of g [] = []"
| "right_of g (f # fs) = concat (map g (fr_tsR f)) @ right_of g fs"

fun frames_pages :: "frame list \<Rightarrow> nat list" where
  "frames_pages [] = []"
| "frames_pages (f # fs) = fr_page f # concat (map pages (fr_tsL f)) @ concat (map pages (fr_tsR f)) @ frames_pages fs"

lemma plug_concat:
  assumes "\<And>i ks ts. g (Nd i ks ts) = concat (map g ts)"
  shows "g (plug fs t) = left_of g fs @ g t @ right_of g fs"
  by (induction fs arbitrary: t) (simp_all add: fill_def assms)

lemmas entries_plug = plug_concat [of entries, OF entries.simps(2)]
lemmas leaves_plug = plug_concat [of leaves, OF leaves.simps(2)]

lemma pages_plug: "mset (pages (plug fs t)) = mset (pages t) + mset (frames_pages fs)"
  by (induction fs arbitrary: t) (simp_all add: fill_def)

lemma entries_within:
  "ordered lo hi t \<Longrightarrow> e \<in> set (entries t) \<Longrightarrow> above lo (fst e) \<and> below hi (fst e)"
  "ordered_seq lo hi ks ts \<Longrightarrow> e \<in> set (concat (map entries ts)) \<Longrightarrow> above lo (fst e) \<and> below hi (fst e)"
proof (induction lo hi t and lo hi ks ts rule: ordered_ordered_seq.induct)
  case (4 lo hi k ks t ts)
  have o: "above lo k" "upto_bound hi k" "ordered lo (Some k) t" "ordered_seq (Some k) hi ks ts" using "4.prems"(1) by simp_all
  show ?case
  proof (cases "e \<in> set (entries t)")
    case True
    then have "above lo (fst e)" "fst e < k" using "4.IH"(1) [OF o(3)] by simp_all
    then show ?thesis using o(2) by (auto simp: below_def upto_bound_def intro: less_le_trans)
  next
    case False
    then have "k \<le> fst e" "below hi (fst e)" using "4.IH"(2) [OF o(4)] "4.prems"(2) by simp_all
    then show ?thesis using o(1) above_mono [of k "fst e" lo] by simp
  qed
qed (auto simp: leaf_ordered_def)

lemma seq_left_last: "seq_left lo hi ks ts \<Longrightarrow> ks \<noteq> [] \<Longrightarrow> above lo (last ks) \<and> upto_bound hi (last ks)"
proof (induction lo hi ks ts rule: seq_left.induct)
  case (2 lo hi k ks t ts)
  then show ?case using above_mono [of k "last ks" lo] by auto
qed auto

lemma seq_left_entries:
  "seq_left lo hi ks ts \<Longrightarrow> e \<in> set (concat (map entries ts)) \<Longrightarrow> ks \<noteq> [] \<and> fst e < last ks"
proof (induction lo hi ks ts rule: seq_left.induct)
  case (2 lo hi k ks t ts)
  have o: "ordered lo (Some k) t" "seq_left (Some k) hi ks ts" using "2.prems"(1) by simp_all
  show ?case
  proof (cases "e \<in> set (entries t)")
    case True
    then have "fst e < k" using entries_within(1) [OF o(1)] by simp
    moreover have "k \<le> last ks" if "ks \<noteq> []" using seq_left_last [OF o(2)] that by simp
    ultimately show ?thesis by auto
  next
    case False
    then show ?thesis using "2.IH" [OF o(2)] "2.prems"(2) by simp
  qed
qed auto

lemma seq_right_entries:
  assumes "seq_right lo hi ks ts" and "e \<in> set (concat (map entries ts))"
  shows "ks \<noteq> [] \<and> hd ks \<le> fst e"
  using assms entries_within(2) [of "Some (hd ks)" hi "tl ks" ts e] by (cases ks) (auto simp: seq_right_def)

lemma place_lo_mono: "frame_ordered lo hi f \<Longrightarrow> fr_ksL f \<noteq> [] \<Longrightarrow> above lo (last (fr_ksL f))"
  using seq_left_last by (auto simp: frame_ordered_def)

lemma place_hi_mono: "frame_ordered lo hi f \<Longrightarrow> fr_ksR f \<noteq> [] \<Longrightarrow> upto_bound hi (hd (fr_ksR f))"
  by (auto simp: frame_ordered_def seq_right_def split: list.splits)

lemma left_entries: "frames_ordered fs \<Longrightarrow> e \<in> set (left_of entries fs) \<Longrightarrow> \<exists>l. place_lo fs = Some l \<and> fst e < l"
proof (induction fs)
  case (Cons f fs)
  have f: "frame_ordered (place_lo fs) (place_hi fs) f" using Cons.prems(1) by simp
  show ?case
  proof (cases "e \<in> set (left_of entries fs)")
    case True
    then obtain l where l: "place_lo fs = Some l" "fst e < l" using Cons by auto
    then show ?thesis using place_lo_mono [OF f] by (auto intro: less_le_trans)
  next
    case False
    then have e: "e \<in> set (concat (map entries (fr_tsL f)))" using Cons.prems(2) by simp
    have "seq_left (place_lo fs) (place_hi fs) (fr_ksL f) (fr_tsL f)" using f by (simp add: frame_ordered_def)
    then show ?thesis using seq_left_entries [OF _ e] by simp
  qed
qed simp

lemma right_entries: "frames_ordered fs \<Longrightarrow> e \<in> set (right_of entries fs) \<Longrightarrow> \<exists>h. place_hi fs = Some h \<and> h \<le> fst e"
proof (induction fs)
  case (Cons f fs)
  have f: "frame_ordered (place_lo fs) (place_hi fs) f" using Cons.prems(1) by simp
  show ?case
  proof (cases "e \<in> set (right_of entries fs)")
    case True
    then obtain h where h: "place_hi fs = Some h" "h \<le> fst e" using Cons by auto
    then show ?thesis using place_hi_mono [OF f] by (auto intro: order_trans)
  next
    case False
    then have e: "e \<in> set (concat (map entries (fr_tsR f)))" using Cons.prems(2) by simp
    from f have "\<exists>lo. seq_right lo (place_hi fs) (fr_ksR f) (fr_tsR f)" unfolding frame_ordered_def by blast
    then show ?thesis using seq_right_entries [OF _ e] by auto
  qed
qed simp

text \<open>The entries of a tree in order are sorted by key.\<close>

lemma entries_sorted:
  "ordered lo hi t \<Longrightarrow> sorted_wrt (<) (map fst (entries t))"
  "ordered_seq lo hi ks ts \<Longrightarrow> sorted_wrt (<) (map fst (concat (map entries ts)))"
proof (induction lo hi t and lo hi ks ts rule: ordered_ordered_seq.induct)
  case (4 lo hi k ks t ts)
  have "fst a < fst b" if "a \<in> set (entries t)" "b \<in> set (concat (map entries ts))" for a b
    using entries_within(1) [of lo "Some k" t a] entries_within(2) [of "Some k" hi ks ts b] that "4.prems" by auto
  then show ?case using 4 by (simp add: sorted_wrt_append del: map_concat) blast
qed (auto simp: leaf_ordered_def)

end
