(* ===== verification/RecentPages.thy ===== *)
theory RecentPages
  imports ResidentPages
begin

text \<open>
  The page that was used last stays in a pool with the LRU policy and room for two pages when one more page
  is brought in. That is what a B-tree split relies on: the node to be split is still in the pool
  when the new page, which nothing would write to disk, has been added.
\<close>

definition recent :: "Pool \<Rightarrow> PageKey \<Rightarrow> bool" where
  "recent b k \<longleftrightarrow> (\<exists>r s. bp_replacer b = LRU r \<and> bp_lookup b k = Some s \<and> lru_order r \<noteq> [] \<and> last (lru_order r) = s)"

lemma lru_Push_last:
  assumes "lru_inv st0 r" and "\<not> bs_pinned (st s)"
  shows "lru_order (lru_Push st (Some s) r) \<noteq> [] \<and> last (lru_order (lru_Push st (Some s) r)) = s"
proof (cases "lru_map r (bs_key (st s))")
  case None
  then show ?thesis using assms(2) by (simp add: lru_Push_def lru_order_def Let_def)
next
  case (Some el)
  obtain e where e: "(el, e) \<in> set (lru_list r)" by (rule lru_hitE [OF assms(1) Some])
  let ?xs = "filter (\<lambda>x. fst x = el) (elem_set_slot el s (lru_list r))"
  have ne: "?xs \<noteq> []" using e by (force simp: elem_set_slot_def filter_empty_conv)
  have "le_slot (snd x) = s" if "x \<in> set ?xs" for x
  proof -
    let ?g = "\<lambda>(h, e). if h = el then (h, e\<lparr>le_slot := s\<rparr>) else (h, e)"
    have "x \<in> ?g ` set (lru_list r)" and x: "fst x = el" using that by (simp_all add: elem_set_slot_def)
    then obtain y where y: "x = ?g y" by blast
    then show ?thesis using x by (cases y) (simp split: if_splits)
  qed
  then have "le_slot (snd (last ?xs)) = s" using last_in_set [OF ne] by blast
  then show ?thesis using assms(2) Some ne by (simp add: lru_Push_def lru_order_def list_MoveToBack_def last_map)
qed

lemma touch_recent:
  assumes "lru_pool b" and "rep_inv st0 (bp_replacer b)" and "\<not> bs_pinned (bp_store b s)" and "bp_lookup b k = Some s"
  shows "recent (touch s b) k"
proof -
  obtain r where r: "bp_replacer b = LRU r" using assms(1) by (auto simp: lru_pool_def)
  then have "lru_inv st0 r" using assms(2) by simp
  from lru_Push_last [where st = "bp_store b", OF this assms(3)] show ?thesis
    using r assms(3,4) by (simp add: recent_def touch_def)
qed

lemma getPage_recent:
  assumes inv: "pool_inv b" and fl: "fluid b" and lru: "lru_pool b" and get: "getPageLocked key b = (Ok s, b')"
  shows "recent b' key"
proof (cases "bp_lookup b key")
  case (Some s')
  have "\<not> bs_pinned (bp_store b s')" using fl Some by (auto simp: fluid_def is_pinned_def)
  then show ?thesis
    using get Some lru pool_inv_def [of b] inv
    by (auto simp: getPageLocked_def lru_pool_def IncrementUsage_def intro!: touch_recent [where ?st0.0 = "bp_store b"])
next
  case None
  obtain r1 b1 where es: "ensureSpaceLocked b = (r1, b1)" by force
  note e = ensureSpace_keeps [OF inv es] and f = ensureSpace_frame [OF es]
  obtain pg where add: "add_slot key pg b1 = (Ok s, b')"
    using get None es by (cases r1; cases "fm_Read (pk_pageID key) (bp_path b1 key) (bp_disk b1)") (auto simp: getPageLocked_def seq_def)
  have "rep_inv (bp_store b1) (bp_replacer b1)" using pool_keepsD(1) [OF e(1)] by (simp add: pool_inv_def)
  then show ?thesis
    using add f(1) [OF lru]
    by (auto simp: add_slot_def Let_def lru_pool_def NewBufferSlot_def AList.update_conv' intro!: touch_recent [where ?st0.0 = "bp_store b1"])
qed

lemma read_recent:
  assumes "pool_inv b" and "fluid b" and "lru_pool b" and "seq (GetPage key) slot_Page b = (Ok p, b')"
  shows "recent b' key"
proof -
  obtain s where "getPageLocked key b = (Ok s, b')"
    using assms(4) by (cases "getPageLocked key b"; cases "fst (getPageLocked key b)") (auto simp: seq_def GetPage_def slot_Page_def)
  then show ?thesis by (rule getPage_recent [OF assms(1-3)])
qed

lemma recent_kept:
  assumes inv: "pool_inv b" and fl: "fluid b" and rec: "recent b k" and room: "2 \<le> bp_poolSize b"
    and es: "ensureSpaceLocked b = (Ok u, b')"
  shows "bp_lookup b' k = bp_lookup b k"
proof (cases "int (length (bp_table b)) < bp_poolSize b")
  case True
  then show ?thesis using es by (simp add: ensureSpaceLocked_def)
next
  case False
  obtain r s where r: "bp_replacer b = LRU r" "bp_lookup b k = Some s" "lru_order r \<noteq> []" "last (lru_order r) = s"
    using rec by (auto simp: recent_def)
  have li: "lru_inv (bp_store b) r" using inv r(1) by (simp add: pool_inv_def)
  have cand: "s' \<in> set (lru_order r)" if "bp_lookup b k' = Some s'" for k' s'
    using fl that r(1) by (auto simp: fluid_def complete_def is_pinned_def lru_cands_def)
  have "2 \<le> length (map fst (bp_table b))" "distinct (map fst (bp_table b))" using False room inv by (auto simp: pool_inv_def)
  then obtain k' where k': "k' \<in> set (map fst (bp_table b))" "k' \<noteq> k"
    by (metis (no_types) card_le_Suc0_iff_eq distinct_card finite_set not_less_eq_eq numeral_2_eq_2)
  then obtain s' where s': "bp_lookup b k' = Some s'" by (metis (no_types) map_of_eq_None_iff not_None_eq set_map)
  have ne: "s' \<noteq> s" using slots_differ [OF inv s' r(2)] k'(2) by auto
  obtain v r' where v: "lru_PickVictim r = (Some v, r')" "v = hd (lru_order r)"
    using r(3) by (cases "lru_list r") (auto simp: lru_PickVictim_def lru_order_def split: prod.splits)
  have "v \<noteq> s"
  proof
    assume "v = s"
    then have "hd (lru_order r) = last (lru_order r)" using v(2) r(4) by simp
    then have "tl (lru_order r) = []"
      using lru_distinct_order [OF li] r(3) by (cases "lru_order r") (auto split: if_splits)
    then have "lru_order r = [s]" using r(3) v(2) \<open>v = s\<close> by (cases "lru_order r") auto
    then show False using cand [OF s'] ne by simp
  qed
  have "v \<in> rep_cands (bp_replacer b)" using v(2) r(1,3) by (simp add: lru_cands_def)
  then have "bp_lookup b (bs_key (bp_store b v)) = Some v" using inv by (simp add: pool_inv_def)
  then have key: "bs_key (bp_store b v) \<noteq> k" using r(2) \<open>v \<noteq> s\<close> by auto
  let ?b1 = "b\<lparr>bp_replacer := LRU r'\<rparr>"
  obtain r2 b2 where f: "(if bs_dirty (bp_store b v) then flushSlotLocked (bs_key (bp_store b v)) v else pure ()) ?b1 = (r2, b2)"
    by force
  have "bp_table b2 = bp_table b" using f flushSlot_frame [of _ v ?b1 r2 b2] by (auto simp: pure_def split: if_splits)
  then show ?thesis
    using es False v(1) r(1) f key by (cases r2) (auto simp: ensureSpaceLocked_def seq_def Let_def delete_conv' split: if_splits)
qed

section \<open>Pages that are in the pool\<close>

lemma get_resident:
  assumes f: "file_pages F b m n" and at: "buffered F b i buf"
  obtains b' where "seq (GetPage (page_at F i)) slot_Page b = (Ok \<lparr>hp_pageID = int i, hp_buf = buf\<rparr>, b')"
    and "file_pages F b' m n" and "runs_on F b b'" and "\<And>j c. buffered F b j c \<Longrightarrow> buffered F b' j c"
proof -
  obtain b' where b': "seq (GetPage (page_at F i)) slot_Page b = (Ok \<lparr>hp_pageID = int i, hp_buf = buf\<rparr>, b')"
      "file_pages F b' m n" "buffered F b' i buf" "runs_on F b b'"
    by (rule read_buffered [OF f at])
  obtain s where s: "bp_lookup b (page_at F i) = Some s" using at by (auto simp: buffered_def)
  obtain r b1 where g: "getPageLocked (page_at F i) b = (r, b1)" by force
  note p = getPage_present [OF file_pagesD(1) [OF f] s g]
  have "b1 = b'" using b'(1) g p(1) by (auto simp: seq_def GetPage_def slot_Page_def)
  then have "buffered F b' j c" if "buffered F b j c" for j c using that p(2,3) by (simp add: buffered_def)
  then show thesis using that b'(1,2,4) by blast
qed

lemma update_resident:
  assumes f: "file_pages F b m n" and at: "buffered F b i buf" and i: "i < n" and v: "valid_buf buf'"
  obtains b' where "UpdatePage (page_at F i) (Some \<lparr>hp_pageID = int i, hp_buf = buf'\<rparr>) b = (Ok (), b')"
    and "file_pages F b' (m(i \<mapsto> buf')) n" and "runs_on F b b'" and "\<And>j c. j \<noteq> i \<Longrightarrow> buffered F b j c \<Longrightarrow> buffered F b' j c"
proof -
  let ?k = "page_at F i" and ?p = "\<lparr>hp_pageID = int i, hp_buf = buf'\<rparr>"
  obtain s where s: "bp_lookup b ?k = Some s" using at by (auto simp: buffered_def)
  then have "m i \<noteq> None \<or> bp_lookup b ?k \<noteq> None" by simp
  then obtain b' where b': "UpdatePage ?k (Some ?p) b = (Ok (), b')" "file_pages F b' (m(i \<mapsto> buf')) n" "runs_on F b b'"
    by (rule update_page [OF f i _ v])
  have e: "b' = touch s (set_slot s ((bp_store b s)\<lparr>bs_page := ?p, bs_dirty := True\<rparr>) b)"
    using b'(1) s by (simp add: UpdatePage_def slot_or_load_def seq_def)
  have "buffered F b' j c" if j: "j \<noteq> i" "buffered F b j c" for j c
  proof -
    obtain s' where s': "bp_lookup b (page_at F j) = Some s'" "hp_buf (bs_page (bp_store b s')) = c"
      using j(2) by (auto simp: buffered_slot)
    then show ?thesis using slots_differ [OF file_pagesD(1) [OF f] s s'(1)] j(1) by (simp add: buffered_slot e)
  qed
  then show thesis using that b' by blast
qed

text \<open>Adding a page right after another page of the file was used: both are in the pool afterwards.\<close>

lemma add_page_recent:
  assumes f: "file_pages F b m n" and p: "valid_buf buf" and rec: "recent b (page_at F i)" and room: "2 \<le> bp_poolSize b"
    and i: "m i = Some c"
  obtains s b' where "NewPage (page_at F n) (Some \<lparr>hp_pageID = int n, hp_buf = buf\<rparr>) b = (Ok s, b')"
    and "file_pages F b' m (n + 1)" and "buffered F b' n buf" and "buffered F b' i c" and "runs_on F b b'"
proof -
  let ?k = "page_at F n" and ?p = "\<lparr>hp_pageID = int n, hp_buf = buf\<rparr>"
  note inv = file_pagesD(1) [OF f]
  obtain s b' where np: "NewPage ?k (Some ?p) b = (Ok s, b')" "file_pages F b' m (n + 1)" "buffered F b' n buf" "runs_on F b b'"
    by (rule add_page [OF f p])
  have new: "bp_lookup b ?k = None" using file_pagesD(7) [OF f] by simp
  obtain u b1 where es: "ensureSpaceLocked b = (Ok u, b1)" "add_slot ?k ?p b1 = (Ok s, b')"
    using np(1) new by (cases "ensureSpaceLocked b"; cases "fst (ensureSpaceLocked b)") (auto simp: NewPage_def seq_def)
  have "bp_lookup b1 (page_at F i) = bp_lookup b (page_at F i)" by (rule recent_kept [OF inv file_pagesD(2) [OF f] rec room es(1)])
  moreover have "bp_lookup b (page_at F i) \<noteq> None" using rec by (auto simp: recent_def)
  moreover have "i \<noteq> n" using file_pagesD(3) [OF f i] by simp
  ultimately have "bp_lookup b' (page_at F i) \<noteq> None"
    using es(2) by (auto simp: add_slot_def Let_def touch_def AList.update_conv' split: if_splits)
  then have "buffered F b' i c" using file_pagesD(5) [OF np(2) i] by (simp add: buffered_def)
  then show thesis using that np by blast
qed

end
