(* ===== verification/BTreeSearch.thy ===== *)
theory BTreeSearch
  imports BTreeShape RecentPages
begin

text \<open>
  A B-tree in the pages of a file, and searching it. \<open>node_store\<close> says which nodes the pages of the index
  file hold, \<open>stored\<close> that they form a given tree, \<open>chained\<close> that the leaves are linked in order. On such a
  file the descent ends in the leaf whose bounds hold the key, \<open>Search\<close> returns the tuple ids of the key and
  \<open>RangeSearch\<close> those of the keys in the range, in key order.
\<close>

section \<open>Binary search\<close>

lemma bound_loop_ok:
  assumes "\<forall>k \<in> set ks. key_ok keyType k" and "key_ok keyType key" and "p \<le> length ks"
    and "\<And>j c. j < length ks \<Longrightarrow> btree_compareKeys keyType (ks ! j) key = Ok c \<Longrightarrow> right c \<longleftrightarrow> j < p"
    and "lo \<le> p" and "p \<le> hi" and "hi \<le> length ks"
  shows "bound_loop right keyType ks key lo hi = Ok p"
  using assms(5,6,7)
proof (induction "hi - lo" arbitrary: lo hi rule: less_induct)
  case less
  show ?case
  proof (cases "lo < hi")
    case True
    let ?mid = "(lo + hi) div 2"
    have mid: "lo \<le> ?mid" "?mid < hi" using True by auto
    then have "key_ok keyType (ks ! ?mid)" using assms(1) less.prems(3) by simp
    then obtain c where c: "btree_compareKeys keyType (ks ! ?mid) key = Ok c" using btree_compareKeys_ok assms(2) by blast
    have r: "right c \<longleftrightarrow> ?mid < p" using assms(4) [OF _ c] mid less.prems(3) by simp
    have "bound_loop right keyType ks key (?mid + 1) hi = Ok p" if "?mid < p"
      using less.hyps [of hi "?mid + 1"] mid that less.prems by simp
    moreover have "bound_loop right keyType ks key lo ?mid = Ok p" if "\<not> ?mid < p"
      using less.hyps [of ?mid lo] mid that less.prems by simp
    ultimately show ?thesis using True c r by (subst bound_loop.simps) (simp add: Let_def)
  next
    case False
    then show ?thesis using less.prems by (subst bound_loop.simps) simp
  qed
qed

lemma takeWhile_length_iff:
  assumes "sorted ks" and "\<And>a b. a \<le> b \<Longrightarrow> P b \<Longrightarrow> P a" and "j < length ks"
  shows "P (ks ! j) \<longleftrightarrow> j < length (takeWhile P ks)"
  using assms(1,3)
proof (induction ks arbitrary: j)
  case (Cons k ks)
  show ?case
  proof (cases j)
    case (Suc i)
    then show ?thesis using Cons assms(2) [of k "ks ! i"] by (cases "P k") auto
  qed (use Cons in auto)
qed simp

lemma upperBound_ok:
  assumes "\<forall>k \<in> set ks. key_ok keyType k" and "key_ok keyType key" and "sorted ks"
  shows "upperBound keyType ks key = Ok (length (takeWhile (\<lambda>k. k \<le> key) ks))"
  unfolding upperBound_def
proof (rule bound_loop_ok [OF assms(1,2)])
  fix j c
  assume j: "j < length ks" "btree_compareKeys keyType (ks ! j) key = Ok c"
  then have "c \<le> 0 \<longleftrightarrow> ks ! j \<le> key" using btree_compareKeys_ok [of keyType "ks ! j" key] assms(1,2) by (auto simp: not_less [symmetric])
  then show "c \<le> 0 \<longleftrightarrow> j < length (takeWhile (\<lambda>k. k \<le> key) ks)"
    using takeWhile_length_iff [OF assms(3) _ j(1), of "\<lambda>k. k \<le> key"] by auto
qed (simp_all add: length_takeWhile_le)

lemma lowerBound_ok:
  assumes "\<forall>k \<in> set ks. key_ok keyType k" and "key_ok keyType key" and "sorted ks"
  shows "lowerBound keyType ks key = Ok (length (takeWhile (\<lambda>k. k < key) ks))"
  unfolding lowerBound_def
proof (rule bound_loop_ok [OF assms(1,2)])
  fix j c
  assume j: "j < length ks" "btree_compareKeys keyType (ks ! j) key = Ok c"
  then have "c < 0 \<longleftrightarrow> ks ! j < key" using btree_compareKeys_ok [of keyType "ks ! j" key] assms(1,2) by auto
  then show "c < 0 \<longleftrightarrow> j < length (takeWhile (\<lambda>k. k < key) ks)"
    using takeWhile_length_iff [OF assms(3) _ j(1), of "\<lambda>k. k < key"] by auto
qed (simp_all add: length_takeWhile_le)

section \<open>Nodes in a file\<close>

definition node_store :: "BTreeState \<Rightarrow> (nat \<Rightarrow> btreeNode option) \<Rightarrow> nat \<Rightarrow> bool" where
  "node_store s N n \<longleftrightarrow> n < 2 ^ 31 \<and> (\<exists>m. file_pages (bi_fileID (tx_idx s)) (tx_pool s) m n \<and> m 0 \<noteq> None
     \<and> (\<forall>i node. N i = Some node \<longrightarrow> 0 < i \<and> bn_pageID node = word_of_nat i
        \<and> (\<exists>buf. m i = Some buf \<and> node_page (tx_keyType s) buf node)))"

text \<open>The pool worked on the pages of the index only, and the index is the same.\<close>

definition tx_works :: "BTreeState \<Rightarrow> BTreeState \<Rightarrow> bool" where
  "tx_works s s' \<longleftrightarrow> tx_idx s' = tx_idx s \<and> runs_on (bi_fileID (tx_idx s)) (tx_pool s) (tx_pool s')"

lemma tx_works_refl [simp]: "tx_works s s"
  by (simp add: tx_works_def)

lemma tx_works_trans: "tx_works s s' \<Longrightarrow> tx_works s' s'' \<Longrightarrow> tx_works s s''"
  by (auto simp: tx_works_def intro: runs_on_trans)

lemma tx_works_lru:
  assumes "tx_works s s'" and "node_store s N n" and "lru_pool (tx_pool s)"
  shows "lru_pool (tx_pool s')"
  using assms runs_on_frame(2) [of "bi_fileID (tx_idx s)" "tx_pool s" "tx_pool s'"] file_pagesD(1)
  by (auto simp: tx_works_def node_store_def)

lemma sint_node: "i < 2 ^ 31 \<Longrightarrow> sint (word_of_nat i :: int32) = int i"
  by (simp add: sint_uint uint_nat unat_of_nat signed_take_bit_int_eq_self)

lemma btree_get_page:
  assumes f: "file_pages (bi_fileID (tx_idx s)) (tx_pool s) m n" and i: "m i = Some buf"
  obtains s' where "btree_get (int i) s = (Ok \<lparr>hp_pageID = int i, hp_buf = buf\<rparr>, s')"
    and "file_pages (bi_fileID (tx_idx s')) (tx_pool s') m n" and "tx_works s s'"
    and "lru_pool (tx_pool s) \<Longrightarrow> recent (tx_pool s') (page_at (bi_fileID (tx_idx s)) i)"
proof -
  obtain b' where b': "seq (GetPage (page_at (bi_fileID (tx_idx s)) i)) slot_Page (tx_pool s) = (Ok \<lparr>hp_pageID = int i, hp_buf = buf\<rparr>, b')"
      "file_pages (bi_fileID (tx_idx s)) b' m n" "runs_on (bi_fileID (tx_idx s)) (tx_pool s) b'"
    by (rule read_page [OF f i])
  note rec = read_recent [OF file_pagesD(1,2) [OF f] _ b'(1)]
  show thesis by (rule that [of "s\<lparr>tx_pool := b'\<rparr>"]) (use b' rec in \<open>simp_all add: btree_get_def tx_on_def btree_key_def tx_works_def\<close>)
qed

lemma readNode_ok:
  assumes st: "node_store s N n" and i: "N i = Some node"
  obtains s' where "readNode (word_of_nat i) s = (Ok node, s')" and "node_store s' N n" and "tx_works s s'"
    and "lru_pool (tx_pool s) \<Longrightarrow> recent (tx_pool s') (page_at (bi_fileID (tx_idx s)) i)"
proof -
  obtain m buf where m: "file_pages (bi_fileID (tx_idx s)) (tx_pool s) m n" "m 0 \<noteq> None" "m i = Some buf" "node_page (tx_keyType s) buf node"
      "\<forall>i node. N i = Some node \<longrightarrow> 0 < i \<and> bn_pageID node = word_of_nat i \<and> (\<exists>buf. m i = Some buf \<and> node_page (tx_keyType s) buf node)"
      "bn_pageID node = word_of_nat i" "n < 2 ^ 31"
    using st i unfolding node_store_def by blast
  obtain s' where s': "btree_get (int i) s = (Ok \<lparr>hp_pageID = int i, hp_buf = buf\<rparr>, s')"
      "file_pages (bi_fileID (tx_idx s')) (tx_pool s') m n" "tx_works s s'"
      "lru_pool (tx_pool s) \<Longrightarrow> recent (tx_pool s') (page_at (bi_fileID (tx_idx s)) i)"
    using btree_get_page [OF m(1,3)] by metis
  have "sint (word_of_nat i :: int32) = int i" using file_pagesD(3) [OF m(1,3)] m(7) by (intro sint_node) simp
  moreover have "node_store s' N n" using s'(2,3) m(2,5,7) by (auto simp: node_store_def tx_works_def)
  ultimately show thesis
    using that [of s'] s' m(4,6) by (simp add: readNode_def seq_def lift_result_def node_page_def tx_works_def)
qed

section \<open>Trees in a file\<close>

definition node_fits :: "TypeDefinition \<Rightarrow> btreeNode \<Rightarrow> bool" where
  "node_fits keyType node \<longleftrightarrow> node_shape keyType node \<and> node_size node \<le> btreePageCapacity"

fun stored :: "TypeDefinition \<Rightarrow> (nat \<Rightarrow> btreeNode option) \<Rightarrow> int32 \<Rightarrow> bt \<Rightarrow> bool" where
  "stored keyType N p (Lf i es) \<longleftrightarrow> (\<exists>node. N i = Some node \<and> node_fits keyType node \<and> bn_isLeaf node
     \<and> bn_parentPageID node = p \<and> bn_keys node = map fst es \<and> bn_values node = map snd es)"
| "stored keyType N p (Nd i ks ts) \<longleftrightarrow> (\<exists>node. N i = Some node \<and> node_fits keyType node \<and> \<not> bn_isLeaf node
     \<and> bn_parentPageID node = p \<and> bn_keys node = ks \<and> bn_children node = map (\<lambda>t. word_of_nat (bt_page t)) ts)
     \<and> (\<forall>t \<in> set ts. stored keyType N (word_of_nat i) t)"

lemma ordered_seq_sorted: "ordered_seq lo hi ks ts \<Longrightarrow> sorted ks \<and> (\<forall>k \<in> set ks. above lo k)"
proof (induction ks arbitrary: lo ts)
  case (Cons k ks)
  then obtain t ts' where "ts = t # ts'" by (cases ts) auto
  then have k: "above lo k" "ordered_seq (Some k) hi ks ts'" using Cons.prems by auto
  then show ?case using Cons.IH [OF k(2)] above_mono [of k _ lo] by auto
qed simp

text \<open>The way down to the child that holds a key.\<close>

lemma descend_frame:
  assumes "ordered_seq lo hi ks ts" and "above lo key" and "below hi key" and "pos = length (takeWhile (\<lambda>k. k \<le> key) ks)"
  shows "\<exists>f. fill f (ts ! pos) = Nd i ks ts \<and> fr_page f = i \<and> pos < length ts \<and> frame_ordered lo hi f
    \<and> (let lo' = (if fr_ksL f = [] then lo else Some (last (fr_ksL f))); hi' = (if fr_ksR f = [] then hi else Some (hd (fr_ksR f)))
       in above lo' key \<and> below hi' key \<and> ordered lo' hi' (ts ! pos))"
proof -
  let ?f = "\<lparr>fr_page = i, fr_ksL = take pos ks, fr_tsL = take pos ts, fr_ksR = drop pos ks, fr_tsR = drop (Suc pos) ts\<rparr>"
  have len: "length ts = Suc (length ks)" by (rule ordered_seq_length [OF assms(1)])
  have pos: "pos \<le> length ks" using assms(4) by (simp add: length_takeWhile_le)
  have ts: "take pos ts @ ts ! pos # drop (Suc pos) ts = ts" by (rule id_take_nth_drop [symmetric]) (use len pos in simp)
  have tk: "take pos ks = takeWhile (\<lambda>k. k \<le> key) ks" "drop pos ks = dropWhile (\<lambda>k. k \<le> key) ks"
    unfolding assms(4) by (rule takeWhile_eq_take [symmetric], rule dropWhile_eq_drop [symmetric])
  have "fill ?f (ts ! pos) = Nd i ks ts" using ts by (simp add: fill_def)
  moreover have "ordered_seq lo hi (take pos ks @ drop pos ks) (take pos ts @ ts ! pos # drop (Suc pos) ts)"
    using assms(1) ts by simp
  moreover have "last (take pos ks) \<le> key" if "take pos ks \<noteq> []"
    using that set_takeWhileD [of "last (take pos ks)" "\<lambda>k. k \<le> key" ks] last_in_set [OF that] tk(1) by simp
  moreover have "key < hd (drop pos ks)" if "drop pos ks \<noteq> []"
    using hd_dropWhile [of "\<lambda>k. k \<le> key" ks] that tk(2) by auto
  ultimately show ?thesis
    using assms(2,3) len pos ordered_seq_split [of "take pos ts" "take pos ks" lo hi "drop pos ks" "ts ! pos" "drop (Suc pos) ts"]
    by (intro exI [of _ ?f]) (auto simp: frame_ordered_def Let_def)
qed

text \<open>The page number above a place, and what the frames say about the pages.\<close>

fun place_parent :: "frame list \<Rightarrow> int32" where
  "place_parent [] = -1"
| "place_parent (f # fs) = word_of_nat (fr_page f)"

definition frame_stored :: "TypeDefinition \<Rightarrow> (nat \<Rightarrow> btreeNode option) \<Rightarrow> int32 \<Rightarrow> frame \<Rightarrow> nat \<Rightarrow> bool" where
  "frame_stored keyType N p f r \<longleftrightarrow> (\<exists>node. N (fr_page f) = Some node \<and> node_fits keyType node \<and> \<not> bn_isLeaf node
     \<and> bn_parentPageID node = p \<and> bn_keys node = fr_ksL f @ fr_ksR f
     \<and> bn_children node = map (\<lambda>t. word_of_nat (bt_page t)) (fr_tsL f) @ word_of_nat r # map (\<lambda>t. word_of_nat (bt_page t)) (fr_tsR f))
     \<and> (\<forall>t \<in> set (fr_tsL f) \<union> set (fr_tsR f). stored keyType N (word_of_nat (fr_page f)) t)"

fun frames_stored :: "TypeDefinition \<Rightarrow> (nat \<Rightarrow> btreeNode option) \<Rightarrow> frame list \<Rightarrow> nat \<Rightarrow> bool" where
  "frames_stored keyType N [] r \<longleftrightarrow> True"
| "frames_stored keyType N (f # fs) r \<longleftrightarrow> frame_stored keyType N (place_parent fs) f r \<and> frames_stored keyType N fs (fr_page f)"

lemma stored_fill:
  "stored keyType N p (fill f t) \<longleftrightarrow> frame_stored keyType N p f (bt_page t) \<and> stored keyType N (word_of_nat (fr_page f)) t"
  by (auto simp: fill_def frame_stored_def)

lemma stored_plug:
  "stored keyType N (-1) (plug fs t) \<longleftrightarrow> frames_stored keyType N fs (bt_page t) \<and> stored keyType N (place_parent fs) t"
proof (induction fs arbitrary: t)
  case (Cons f fs)
  have "bt_page (fill f t) = fr_page f" by (simp add: fill_def)
  then show ?case using Cons.IH [of "fill f t"] by (auto simp: stored_fill)
qed simp

lemma stored_keys:
  assumes "stored keyType N p t" shows "\<forall>k \<in> set (map fst (entries t)). key_ok keyType k"
  using assms by (induction t arbitrary: p) (auto simp: node_fits_def node_shape_def, fastforce)

lemma must_read_ok: "readNode i s = (Ok node, s') \<Longrightarrow> must_read i s = (Ok node, s')"
  by (simp add: must_read_def)

definition at_leaf_of :: "bt \<Rightarrow> gvalue \<Rightarrow> frame list \<Rightarrow> nat \<Rightarrow> entry list \<Rightarrow> bool" where
  "at_leaf_of t key fs i es \<longleftrightarrow> t = plug fs (Lf i es) \<and> frames_ordered fs \<and> leaf_ordered (place_lo fs) (place_hi fs) es
     \<and> above (place_lo fs) key \<and> below (place_hi fs) key"

lemma find_leaf_ok:
  assumes "node_store s N n" and "stored (tx_keyType s) N p t" and "frames_ordered fs" and "ordered (place_lo fs) (place_hi fs) t"
    and "above (place_lo fs) key" and "below (place_hi fs) key" and "key_ok (tx_keyType s) key"
  shows "\<exists>fs' i es node path' s'. find_leaf_loop key path (word_of_nat (bt_page t)) s = Some (Ok (node, path'), s')
    \<and> path' \<noteq> [] \<and> node_store s' N n \<and> tx_works s s' \<and> at_leaf_of (plug fs t) key fs' i es \<and> N i = Some node
    \<and> (lru_pool (tx_pool s) \<longrightarrow> recent (tx_pool s') (page_at (bi_fileID (tx_idx s)) i))"
  using assms
proof (induction t arbitrary: p fs s path)
  case (Lf i es)
  then obtain node where node: "N i = Some node" "bn_isLeaf node" by auto
  obtain s' where s': "readNode (word_of_nat i) s = (Ok node, s')" "node_store s' N n" "tx_works s s'"
      "lru_pool (tx_pool s) \<Longrightarrow> recent (tx_pool s') (page_at (bi_fileID (tx_idx s)) i)"
    using readNode_ok [OF Lf.prems(1) node(1)] by metis
  have "find_leaf_loop key path (word_of_nat i) s = Some (Ok (node, path @ [word_of_nat i]), s')"
    using node(2) by (subst find_leaf_loop.simps) (simp add: must_read_ok [OF s'(1)])
  moreover have "at_leaf_of (plug fs (Lf i es)) key fs i es" using Lf.prems by (simp add: at_leaf_of_def)
  ultimately show ?case using s'(2,3,4) node(1) by auto
next
  case (Nd i ks ts)
  then obtain node where node: "N i = Some node" "\<not> bn_isLeaf node" "bn_keys node = ks"
      "bn_children node = map (\<lambda>t. word_of_nat (bt_page t)) ts" "node_fits (tx_keyType s) node" by auto
  obtain s1 where s1: "readNode (word_of_nat i) s = (Ok node, s1)" "node_store s1 N n" "tx_works s s1"
    by (rule readNode_ok [OF Nd.prems(1) node(1)])
  have kt: "tx_keyType s1 = tx_keyType s" and fid: "bi_fileID (tx_idx s1) = bi_fileID (tx_idx s)"
    using s1(3) by (simp_all add: tx_works_def)
  define pos where "pos = length (takeWhile (\<lambda>k. k \<le> key) ks)"
  have seq: "ordered_seq (place_lo fs) (place_hi fs) ks ts" using Nd.prems(4) by simp
  have keys: "\<forall>k \<in> set ks. key_ok (tx_keyType s) k" using node(3,5) by (simp add: node_fits_def node_shape_def)
  obtain f where f: "fill f (ts ! pos) = Nd i ks ts" "fr_page f = i" "pos < length ts" "frame_ordered (place_lo fs) (place_hi fs) f"
      "above (place_lo (f # fs)) key" "below (place_hi (f # fs)) key" "ordered (place_lo (f # fs)) (place_hi (f # fs)) (ts ! pos)"
    using descend_frame [OF seq Nd.prems(5,6) pos_def, of i] by (auto simp: Let_def)
  have up: "upperBound (tx_keyType s) ks key = Ok pos"
    using upperBound_ok [OF keys Nd.prems(7)] ordered_seq_sorted [OF seq] by (simp add: pos_def)
  have mem: "ts ! pos \<in> set ts" using f(3) by simp
  have st: "stored (tx_keyType s1) N (word_of_nat i) (ts ! pos)" using Nd.prems(2) mem kt by simp
  have "find_leaf_loop key path (word_of_nat i) s = find_leaf_loop key (path @ [word_of_nat i]) (word_of_nat (bt_page (ts ! pos))) s1"
    using node(2,3,4) kt up f(3)
    by (subst find_leaf_loop.simps) (simp add: must_read_ok [OF s1(1)] lift_result_def index_at_def)
  then show ?case
    using Nd.IH [OF mem s1(2) st, of "f # fs" "path @ [word_of_nat i]"] f Nd.prems(3,7) kt tx_works_trans [OF s1(3)]
      tx_works_lru [OF s1(3) Nd.prems(1)] fid by simp metis
qed

section \<open>The index\<close>

text \<open>The leaves in order, each linked to the next one.\<close>

fun chained :: "(nat \<Rightarrow> btreeNode option) \<Rightarrow> nat list \<Rightarrow> bool" where
  "chained N [] \<longleftrightarrow> True"
| "chained N [i] \<longleftrightarrow> (\<exists>node. N i = Some node \<and> bn_rightSibPageID node = -1)"
| "chained N (i # j # is) \<longleftrightarrow> (\<exists>node. N i = Some node \<and> bn_rightSibPageID node = word_of_nat j) \<and> chained N (j # is)"

definition tree_in :: "BTreeState \<Rightarrow> (nat \<Rightarrow> btreeNode option) \<Rightarrow> nat \<Rightarrow> bt \<Rightarrow> bool" where
  "tree_in s N n t \<longleftrightarrow> node_store s N n \<and> stored (tx_keyType s) N (-1) t \<and> ordered None None t \<and> distinct (pages t)
     \<and> (\<forall>e \<in> set (entries t). snd e \<noteq> []) \<and> set (pages t) \<subseteq> {1..<n} \<and> chained N (map fst (leaves t)) \<and> bm_rootPageID (tx_meta s) = word_of_nat (bt_page t)
     \<and> bm_leftmostLeafID (tx_meta s) = word_of_nat (fst (hd (leaves t))) \<and> bm_nextPageID (tx_meta s) = word_of_nat n"

text \<open>The content of the index: the keys in order, each with its tuple ids in the order of their insertion.\<close>

definition btree_index :: "BTreeState \<Rightarrow> nat \<Rightarrow> entry list \<Rightarrow> bool" where
  "btree_index s n E \<longleftrightarrow> (\<exists>N t. tree_in s N n t \<and> entries t = E)"

definition lookup_tids :: "entry list \<Rightarrow> gvalue \<Rightarrow> TID list" where
  "lookup_tids E key = (case map_of E key of None \<Rightarrow> [] | Some tids \<Rightarrow> tids)"

lemma tree_in_reads: "tree_in s N n t \<Longrightarrow> node_store s' N n \<Longrightarrow> tx_works s s' \<Longrightarrow> tree_in s' N n t"
  by (simp add: tree_in_def tx_works_def)

lemma findLeaf_ok:
  assumes t: "tree_in s N n t" and key: "key_ok (tx_keyType s) key"
  obtains fs i es node path s' where "findLeaf key s = Some (Ok (node, path), s')" and "path \<noteq> []" and "tree_in s' N n t"
    and "tx_works s s'" and "at_leaf_of t key fs i es" and "N i = Some node"
    and "lru_pool (tx_pool s) \<Longrightarrow> recent (tx_pool s') (page_at (bi_fileID (tx_idx s)) i)"
proof -
  have "\<exists>fs' i es node path' s'. find_leaf_loop key [] (word_of_nat (bt_page t)) s = Some (Ok (node, path'), s')
    \<and> path' \<noteq> [] \<and> node_store s' N n \<and> tx_works s s' \<and> at_leaf_of (plug [] t) key fs' i es \<and> N i = Some node
    \<and> (lru_pool (tx_pool s) \<longrightarrow> recent (tx_pool s') (page_at (bi_fileID (tx_idx s)) i))"
    using t key by (intro find_leaf_ok [of s N n "-1" t "[]"]) (simp_all add: tree_in_def)
  then show thesis using that t tree_in_reads [OF t] by (auto simp: findLeaf_def tree_in_def)
qed

lemma leaf_node:
  assumes "tree_in s N n t" and "at_leaf_of t key fs i es" and "N i = Some node"
  shows "bn_isLeaf node" and "bn_keys node = map fst es" and "bn_values node = map snd es"
    and "\<forall>k \<in> set (map fst es). key_ok (tx_keyType s) k" and "bn_pageID node = word_of_nat i" and "sorted_wrt (<) (map fst es)"
    and "node_fits (tx_keyType s) node" and "bn_parentPageID node = place_parent fs" and "frames_stored (tx_keyType s) N fs i"
proof -
  have st: "frames_stored (tx_keyType s) N fs i \<and> stored (tx_keyType s) N (place_parent fs) (Lf i es)"
    using assms(1,2) stored_plug [of "tx_keyType s" N fs "Lf i es"] by (simp add: tree_in_def at_leaf_of_def)
  then show "bn_isLeaf node" "bn_keys node = map fst es" "bn_values node = map snd es" "node_fits (tx_keyType s) node"
    "bn_parentPageID node = place_parent fs" "frames_stored (tx_keyType s) N fs i" using assms(3) by auto
  then show "\<forall>k \<in> set (map fst es). key_ok (tx_keyType s) k" by (simp add: node_fits_def node_shape_def)
  show "bn_pageID node = word_of_nat i" using assms(1,3) by (auto simp: tree_in_def node_store_def)
  show "sorted_wrt (<) (map fst es)" using assms(2) by (simp add: at_leaf_of_def leaf_ordered_def)
qed

lemma strict_sorted: "sorted_wrt (<) ks \<Longrightarrow> sorted ks" for ks :: "gvalue list"
  by (rule sorted_wrt_mono_rel [of ks "(<)"]) simp_all

text \<open>In a sorted leaf the first key that is not below the key tells whether the key is there.\<close>

lemma leaf_lookup:
  assumes "sorted_wrt (<) (map fst es)" and "pos = length (takeWhile (\<lambda>k. k < key) (map fst es))"
  shows "lookup_tids es key = (if pos < length es \<and> fst (es ! pos) = key then snd (es ! pos) else [])"
  using assms
proof (induction es arbitrary: pos)
  case (Cons e es)
  obtain k v where e: "e = (k, v)" by (cases e)
  consider "k < key" | "k = key" | "key < k" by fastforce
  then show ?case
  proof cases
    case 3
    have "map_of es key = None" using Cons.prems(1) e 3 by (force simp: map_of_eq_None_iff)
    moreover have "\<not> k < key" "k \<noteq> key" using 3 by auto
    ultimately show ?thesis using Cons.prems(2) e by (simp add: lookup_tids_def)
  qed (use Cons e in \<open>auto simp: lookup_tids_def\<close>)
qed (simp add: lookup_tids_def)

lemma lookup_outside:
  "(\<And>e. e \<in> set A \<Longrightarrow> fst e \<noteq> key) \<Longrightarrow> (\<And>e. e \<in> set B \<Longrightarrow> fst e \<noteq> key) \<Longrightarrow> lookup_tids (A @ E @ B) key = lookup_tids E key"
proof -
  assume a: "\<And>e. e \<in> set A \<Longrightarrow> fst e \<noteq> key" "\<And>e. e \<in> set B \<Longrightarrow> fst e \<noteq> key"
  have "map_of A key = None" "map_of B key = None" using a by (auto simp: map_of_eq_None_iff)
  then show ?thesis by (auto simp: lookup_tids_def map_add_def split: option.splits)
qed

lemma at_leaf_lookup:
  assumes "at_leaf_of t key fs i es"
  shows "lookup_tids (entries t) key = lookup_tids es key"
proof -
  have o: "frames_ordered fs" "above (place_lo fs) key" "below (place_hi fs) key" using assms by (simp_all add: at_leaf_of_def)
  have "lookup_tids (left_of entries fs @ es @ right_of entries fs) key = lookup_tids es key"
    by (rule lookup_outside) (use left_entries [OF o(1)] right_entries [OF o(1)] o(2,3) in fastforce)+
  then show ?thesis using assms by (simp add: at_leaf_of_def entries_plug)
qed

lemma btree_Search_ok:
  assumes b: "btree_index s n E" and key: "key_ok (tx_keyType s) key"
  obtains s' where "btree_Search key s = Some (Ok (lookup_tids E key), s')" and "btree_index s' n E" and "tx_works s s'"
proof -
  obtain N t where t: "tree_in s N n t" "entries t = E" using b by (auto simp: btree_index_def)
  obtain fs i es node path s' where f: "findLeaf key s = Some (Ok (node, path), s')" "tree_in s' N n t" "tx_works s s'"
      "at_leaf_of t key fs i es" "N i = Some node"
    by (rule findLeaf_ok [OF t(1) key])
  note l = leaf_node [OF f(2,4,5)]
  have kt: "tx_keyType s' = tx_keyType s" using f(3) by (simp add: tx_works_def)
  let ?pos = "length (takeWhile (\<lambda>k. k < key) (map fst es))"
  have lb: "lowerBound (tx_keyType s') (bn_keys node) key = Ok ?pos"
    using lowerBound_ok [of "map fst es" "tx_keyType s'" key] l key kt strict_sorted by simp
  have "lookup_tids E key = (if ?pos < length es \<and> fst (es ! ?pos) = key then snd (es ! ?pos) else [])"
    using at_leaf_lookup [OF f(4)] leaf_lookup [OF l(6) refl, of key] t(2) by simp
  moreover have "\<exists>c. btree_compareKeys (tx_keyType s') (fst (es ! ?pos)) key = Ok c \<and> (c = 0 \<longleftrightarrow> fst (es ! ?pos) = key)"
    if "?pos < length es"
    using btree_compareKeys_ok [of "tx_keyType s'" "fst (es ! ?pos)" key] l(4) that key kt by auto
  ultimately have "btree_Search key s = Some (Ok (lookup_tids E key), s')"
    using f(1) lb l(2,3) by (auto simp: btree_Search_def oseq_def once_def lift_result_def index_at_def)
  then show thesis using that f(2,3) t(2) by (auto simp: btree_index_def)
qed

section \<open>Ranges\<close>

definition in_bounds :: "gvalue \<Rightarrow> bool \<Rightarrow> gvalue \<Rightarrow> bool \<Rightarrow> gvalue \<Rightarrow> bool" where
  "in_bounds from fromInclusive to toInclusive k \<longleftrightarrow> (from = VNil \<or> from < k \<or> fromInclusive \<and> from = k)
     \<and> (to = VNil \<or> k < to \<or> toInclusive \<and> to = k)"

definition range_tids :: "(gvalue \<Rightarrow> bool) \<Rightarrow> entry list \<Rightarrow> TID list" where
  "range_tids P es = concat (map snd (filter (\<lambda>e. P (fst e)) es))"

lemma range_tids_append [simp]: "range_tids P (es @ es') = range_tids P es @ range_tids P es'"
  by (simp add: range_tids_def)

lemma range_tids_none: "(\<And>e. e \<in> set es \<Longrightarrow> \<not> P (fst e)) \<Longrightarrow> range_tids P es = []"
  by (auto simp: range_tids_def filter_empty_conv)

text \<open>Scanning a leaf: it stops at the first key behind the range.\<close>

lemma scan_leaf_ok:
  assumes "bn_keys leaf = map fst es" and "bn_values leaf = map snd es" and "\<forall>k \<in> set (map fst es). key_ok keyType k"
    and "from \<noteq> VNil \<Longrightarrow> key_ok keyType from" and "to \<noteq> VNil \<Longrightarrow> key_ok keyType to" and "sorted_wrt (<) (map fst es)"
  shows "\<exists>r. scan_leaf keyType from fi to ti leaf pos acc = Ok r
    \<and> (r = Inr (acc @ range_tids (in_bounds from fi to ti) (drop pos es))
       \<or> r = Inl (acc @ range_tids (in_bounds from fi to ti) (drop pos es)) \<and> to \<noteq> VNil \<and> (\<exists>k \<in> set (map fst es). to \<le> k))"
  using assms
proof (induction keyType "from" fi to ti leaf pos acc rule: scan_leaf.induct)
  case (1 keyType "from" fi to ti leaf pos acc)
  show ?case
  proof (cases "pos < length es")
    case True
    define k where "k = fst (es ! pos)"
    have k: "bn_keys leaf ! pos = k" "key_ok keyType k" "k \<in> set (map fst es)"
      using True "1.prems"(1,3) by (auto simp: k_def)
    have es: "drop pos es = (k, snd (es ! pos)) # drop (pos + 1) es" using True by (simp add: Cons_nth_drop_Suc k_def)
    have len: "pos < length (bn_keys leaf)" using True "1.prems"(1) by simp
    define skip where "skip \<longleftrightarrow> from \<noteq> VNil \<and> (k < from \<or> \<not> fi \<and> k = from)"
    have skip: "(if from \<noteq> VNil then bind_result (btree_compareKeys keyType k from) (\<lambda>cmp. Ok (cmp < 0 \<or> \<not> fi \<and> cmp = 0)) else Ok False) = Ok skip"
      using btree_compareKeys_ok [OF k(2) "1.prems"(4)] by (auto simp: skip_def)
    define stop where "stop \<longleftrightarrow> to \<noteq> VNil \<and> (to < k \<or> \<not> ti \<and> k = to)"
    have stop: "(if to \<noteq> VNil then bind_result (btree_compareKeys keyType k to) (\<lambda>cmp. Ok (cmp > 0 \<or> \<not> ti \<and> cmp = 0)) else Ok False) = Ok stop"
      using btree_compareKeys_ok [OF k(2) "1.prems"(5)] by (auto simp: stop_def)
    have mem: "in_bounds from fi to ti k \<longleftrightarrow> \<not> skip \<and> \<not> stop" by (auto simp: in_bounds_def skip_def stop_def)
    have unfold: "scan_leaf keyType from fi to ti leaf pos acc =
        (if skip then scan_leaf keyType from fi to ti leaf (pos + 1) acc
         else if stop then Ok (Inl acc) else scan_leaf keyType from fi to ti leaf (pos + 1) (acc @ snd (es ! pos)))"
      by (subst scan_leaf.simps) (use len k(1) skip stop True "1.prems"(2) in \<open>simp add: Let_def index_at_def\<close>)
    note IH = "1.IH" [OF len refl]
    consider "skip" | "\<not> skip" "stop" | "\<not> skip" "\<not> stop" by blast
    then show ?thesis
    proof cases
      case 1
      then show ?thesis using "1.prems" IH(1) [of True] unfold es mem k(1) skip by (simp add: range_tids_def)
    next
      case 2
      have "\<not> in_bounds from fi to ti (fst e)" if "e \<in> set (drop (pos + 1) es)" for e
      proof -
        have "sorted_wrt (<) (map fst (drop pos es))" using "1.prems"(6) by (simp flip: drop_map add: sorted_wrt_drop)
        then have "k < fst e" using that es by simp
        then show ?thesis using 2(2) by (auto simp: stop_def in_bounds_def)
      qed
      then have "range_tids (in_bounds from fi to ti) (drop pos es) = []"
        using es mem 2 by (intro range_tids_none) auto
      moreover have "to \<noteq> VNil" "to \<le> k" using 2(2) by (auto simp: stop_def)
      ultimately show ?thesis using unfold 2 k(3) by auto
    next
      case 3
      then show ?thesis using "1.prems" IH(2) [of False False "snd (es ! pos)"] unfold es mem k(1) skip stop True
        by (simp add: range_tids_def index_at_def)
    qed
  next
    case False
    then show ?thesis using "1.prems"(1) by (subst scan_leaf.simps) (simp add: range_tids_def)
  qed
qed

lemma leaves_stored:
  assumes "stored keyType N p t" and "(i, es) \<in> set (leaves t)"
  shows "\<exists>node. N i = Some node \<and> node_fits keyType node \<and> bn_isLeaf node \<and> bn_keys node = map fst es \<and> bn_values node = map snd es"
  using assms by (induction t arbitrary: p) auto

lemma entries_leaves: "entries t = concat (map snd (leaves t))"
proof (induction t)
  case (Nd i ks ts)
  then show ?case by (induction ts) simp_all
qed simp

lemma right_entries_leaves: "concat (map snd (right_of leaves fs)) = right_of entries fs"
proof (induction fs)
  case (Cons f fs)
  then show ?case using entries_leaves [of "Nd 0 [] (fr_tsR f)"] by simp
qed simp

lemma chained_tail: "chained N (xs @ i # ys) \<Longrightarrow> chained N (i # ys)"
proof (induction xs)
  case (Cons x xs)
  then show ?case by (cases "xs @ i # ys") auto
qed simp

lemma chained_next:
  assumes "chained N (i # ys)" and "N i = Some node"
  shows "bn_rightSibPageID node = (if ys = [] then -1 else word_of_nat (hd ys))" and "chained N ys"
  using assms by (cases ys; simp)+

lemma page_not_nil: "0 < i \<Longrightarrow> i < 2 ^ 31 \<Longrightarrow> (word_of_nat i :: int32) \<noteq> -1"
  using sint_node [of i] by (metis less_irrefl of_int_eq_iff of_nat_0_le_iff neg_0_le_iff_le not_one_le_zero sint_n1)

text \<open>The walk along the leaves collects what is in the range.\<close>

lemma range_loop_ok:
  assumes "node_store s N n" and "\<forall>(i, es) \<in> set L. \<exists>node. N i = Some node \<and> node_fits (tx_keyType s) node
      \<and> bn_keys node = map fst es \<and> bn_values node = map snd es"
    and "chained N (map fst L)" and "\<forall>l \<in> set L. 0 < fst l \<and> fst l < n" and "L \<noteq> []"
    and "from \<noteq> VNil \<Longrightarrow> key_ok (tx_keyType s) from" and "to \<noteq> VNil \<Longrightarrow> key_ok (tx_keyType s) to"
    and "sorted_wrt (<) (map fst (concat (map snd L)))"
  shows "\<exists>s'. range_loop from fi to ti (word_of_nat (fst (hd L))) pos acc s
      = Some (Ok (acc @ range_tids (in_bounds from fi to ti) (drop pos (snd (hd L)) @ concat (map snd (tl L)))), s')
    \<and> node_store s' N n \<and> tx_works s s'"
  using assms
proof (induction L arbitrary: s pos acc)
  case (Cons l L)
  obtain i es where l: "l = (i, es)" by (cases l)
  obtain node where node: "N i = Some node" "node_fits (tx_keyType s) node" "bn_keys node = map fst es" "bn_values node = map snd es"
    using Cons.prems(2) l by auto
  obtain s1 where s1: "readNode (word_of_nat i) s = (Ok node, s1)" "node_store s1 N n" "tx_works s s1"
    by (rule readNode_ok [OF Cons.prems(1) node(1)])
  have kt: "tx_keyType s1 = tx_keyType s" using s1(3) by (simp add: tx_works_def)
  have keys: "\<forall>k \<in> set (map fst es). key_ok (tx_keyType s) k" using node(2,3) by (simp add: node_fits_def node_shape_def)
  have sorted: "sorted_wrt (<) (map fst es)" "sorted_wrt (<) (map fst (concat (map snd L)))"
    using Cons.prems(8) l by (simp_all add: sorted_wrt_append)
  have later: "fst a < fst b" if "a \<in> set es" "b \<in> set (concat (map snd L))" for a b
    using Cons.prems(8) l that by (simp add: sorted_wrt_append del: map_concat set_concat)
  let ?P = "in_bounds from fi to ti"
  obtain r where r: "scan_leaf (tx_keyType s) from fi to ti node pos acc = Ok r"
      "r = Inr (acc @ range_tids ?P (drop pos es))
       \<or> r = Inl (acc @ range_tids ?P (drop pos es)) \<and> to \<noteq> VNil \<and> (\<exists>k \<in> set (map fst es). to \<le> k)"
    using scan_leaf_ok [OF node(3,4) keys Cons.prems(6,7) sorted(1), of fi ti pos acc] by blast
  have i: "(word_of_nat i :: int32) \<noteq> -1" using Cons.prems(1,4) l by (intro page_not_nil) (auto simp: node_store_def)
  have unfold: "range_loop from fi to ti (word_of_nat i) pos acc s = (case r of Inl found \<Rightarrow> Some (Ok found, s1)
      | Inr acc' \<Rightarrow> range_loop from fi to ti (bn_rightSibPageID node) 0 acc' s1)"
    using i s1(1) r(1) kt by (subst range_loop.simps) (simp add: lift_result_def)
  from r(2) show ?case
  proof
    assume inl: "r = Inl (acc @ range_tids ?P (drop pos es)) \<and> to \<noteq> VNil \<and> (\<exists>k \<in> set (map fst es). to \<le> k)"
    have "\<not> ?P (fst e)" if "e \<in> set (concat (map snd L))" for e
      using later [OF _ that] inl by (fastforce simp: in_bounds_def)
    then have "range_tids ?P (concat (map snd L)) = []" by (rule range_tids_none)
    then show ?case using inl unfold l s1(2,3) by simp
  next
    assume inr: "r = Inr (acc @ range_tids ?P (drop pos es))"
    have right: "bn_rightSibPageID node = (if L = [] then -1 else word_of_nat (fst (hd L)))" "chained N (map fst L)"
      using chained_next [of N i "map fst L" node] Cons.prems(3) node(1) l by (auto simp: hd_map)
    show ?case
    proof (cases "L = []")
      case True
      then show ?thesis using inr unfold l s1(2,3) right(1) by (subst (asm) range_loop.simps) simp
    next
      case False
      have "\<exists>s'. range_loop from fi to ti (word_of_nat (fst (hd L))) 0 (acc @ range_tids ?P (drop pos es)) s1
          = Some (Ok ((acc @ range_tids ?P (drop pos es)) @ range_tids ?P (drop 0 (snd (hd L)) @ concat (map snd (tl L)))), s')
        \<and> node_store s' N n \<and> tx_works s1 s'"
        by (rule Cons.IH) (use Cons.prems s1(2) right(2) False kt sorted(2) in auto)
      moreover have "snd (hd L) @ concat (map snd (tl L)) = concat (map snd L)" using False by (cases L) simp_all
      ultimately show ?thesis using inr unfold l right(1) False tx_works_trans [OF s1(3)] by auto
    qed
  qed
qed simp

lemma leaves_nonempty: "stored keyType N p t \<Longrightarrow> leaves t \<noteq> []"
proof (induction t arbitrary: p)
  case (Nd i ks ts)
  then have "ts \<noteq> []" by (auto simp: node_fits_def node_shape_def)
  then show ?case using Nd by (cases ts) auto
qed simp

lemma leaves_pages: "l \<in> set (leaves t) \<Longrightarrow> fst l \<in> set (pages t)"
  by (induction t) auto

lemma btree_RangeSearch_ok:
  assumes b: "btree_index s n E" and keys: "from \<noteq> VNil \<Longrightarrow> key_ok (tx_keyType s) from" "to \<noteq> VNil \<Longrightarrow> key_ok (tx_keyType s) to"
  obtains s' where "btree_RangeSearch from fi to ti s = Some (Ok (range_tids (in_bounds from fi to ti) E), s')"
    and "btree_index s' n E" and "tx_works s s'"
proof -
  obtain N t where t: "tree_in s N n t" "entries t = E" using b by (auto simp: btree_index_def)
  let ?P = "in_bounds from fi to ti"
  define empty where "empty \<longleftrightarrow> from \<noteq> VNil \<and> to \<noteq> VNil \<and> to < from"
  have e: "(if from \<noteq> VNil \<and> to \<noteq> VNil then bind_result (btree_compareKeys (tx_keyType s) from to) (\<lambda>c. Ok (c > 0)) else Ok False) = Ok empty"
    using btree_compareKeys_ok [OF keys] by (auto simp: empty_def)
  have sorted: "sorted_wrt (<) (map fst (concat (map snd (leaves t))))"
    using t(1) entries_sorted(1) [of None None t] by (simp add: tree_in_def entries_leaves del: map_concat)
  have nodes: "\<exists>node. N i = Some node \<and> node_fits (tx_keyType s) node \<and> bn_keys node = map fst es \<and> bn_values node = map snd es"
    if "(i, es) \<in> set (leaves t)" for i es
  proof -
    have "stored (tx_keyType s) N (-1) t" using t(1) by (simp add: tree_in_def)
    then show ?thesis using leaves_stored that by blast
  qed
  have pages: "0 < fst l \<and> fst l < n" if "l \<in> set (leaves t)" for l
    using t(1) leaves_pages [OF that] by (auto simp: tree_in_def)
  show thesis
  proof (cases empty)
    case True
    then have "range_tids ?P E = []" by (intro range_tids_none) (auto simp: in_bounds_def empty_def)
    then have "btree_RangeSearch from fi to ti s = Some (Ok (range_tids ?P E), s)"
      using e True by (simp add: btree_RangeSearch_def lift_result_def once_def pure_def)
    then show thesis using that b by simp
  next
    case False
    have "\<exists>L pos s1. range_start from s = Some (Ok (word_of_nat (fst (hd L)), pos), s1) \<and> tree_in s1 N n t \<and> tx_works s s1
        \<and> L \<noteq> [] \<and> set L \<subseteq> set (leaves t) \<and> chained N (map fst L) \<and> sorted_wrt (<) (map fst (concat (map snd L)))
        \<and> range_tids ?P E = range_tids ?P (drop pos (snd (hd L)) @ concat (map snd (tl L)))"
    proof (cases "from = VNil")
      case True
      have ne: "leaves t \<noteq> []" using t(1) leaves_nonempty by (auto simp: tree_in_def)
      then have "snd (hd (leaves t)) @ concat (map snd (tl (leaves t))) = E" using t(2) entries_leaves [of t] by (cases "leaves t") simp_all
      then show ?thesis using True t(1) ne sorted
        by (intro exI [of _ "leaves t"] exI [of _ 0] exI [of _ s]) (simp add: range_start_def tree_in_def)
    next
      case False
      obtain fs i es node path s1 where f: "findLeaf from s = Some (Ok (node, path), s1)" "tree_in s1 N n t" "tx_works s s1"
          "at_leaf_of t from fs i es" "N i = Some node"
        by (rule findLeaf_ok [OF t(1) keys(1) [OF False]])
      note l = leaf_node [OF f(2,4,5)]
      have kt: "tx_keyType s1 = tx_keyType s" using f(3) by (simp add: tx_works_def)
      let ?pos = "length (takeWhile (\<lambda>k. k < from) (map fst es))" and ?L = "(i, es) # right_of leaves fs"
      have lb: "lowerBound (tx_keyType s1) (bn_keys node) from = Ok ?pos"
        using lowerBound_ok [of "map fst es" "tx_keyType s1" "from"] l keys(1) [OF False] kt strict_sorted by simp
      have tree: "t = plug fs (Lf i es)" "frames_ordered fs" "above (place_lo fs) from" using f(4) by (simp_all add: at_leaf_of_def)
      have lv: "leaves t = left_of leaves fs @ ?L" using tree(1) leaves_plug [of fs "Lf i es"] by simp
      have E: "E = left_of entries fs @ es @ concat (map snd (right_of leaves fs))"
        using t(2) tree(1) entries_plug [of fs "Lf i es"] by (simp add: right_entries_leaves)
      have "range_tids ?P (left_of entries fs) = []"
        using left_entries [OF tree(2)] tree(3) False by (intro range_tids_none) (fastforce simp: in_bounds_def)
      moreover have "range_tids ?P (take ?pos es) = []"
      proof (rule range_tids_none)
        fix x assume "x \<in> set (take ?pos es)"
        then have "fst x \<in> set (take ?pos (map fst es))" by (simp add: take_map)
        then have "fst x \<in> set (takeWhile (\<lambda>k. k < from) (map fst es))" by (simp flip: takeWhile_eq_take)
        then have "fst x < from" by (rule set_takeWhileD [THEN conjunct2])
        then show "\<not> ?P (fst x)" using False by (auto simp: in_bounds_def)
      qed
      moreover have "range_tids ?P es = range_tids ?P (take ?pos es) @ range_tids ?P (drop ?pos es)"
        by (simp flip: range_tids_append)
      ultimately have "range_tids ?P E = range_tids ?P (drop ?pos es @ concat (map snd (right_of leaves fs)))"
        using E by simp
      moreover have "chained N (map fst ?L)" using t(1) lv chained_tail [of N "map fst (left_of leaves fs)" i] by (simp add: tree_in_def)
      moreover have "sorted_wrt (<) (map fst (concat (map snd ?L)))" using sorted lv by (simp add: sorted_wrt_append)
      ultimately show ?thesis using f(1,2,3) lb l(5) False lv
        by (intro exI [of _ ?L] exI [of _ ?pos] exI [of _ s1]) (auto simp: range_start_def oseq_def once_def lift_result_def)
    qed
    then obtain L pos s1 where L: "range_start from s = Some (Ok (word_of_nat (fst (hd L)), pos), s1)" "tree_in s1 N n t" "tx_works s s1"
        "L \<noteq> []" "set L \<subseteq> set (leaves t)" "chained N (map fst L)" "sorted_wrt (<) (map fst (concat (map snd L)))"
        "range_tids ?P E = range_tids ?P (drop pos (snd (hd L)) @ concat (map snd (tl L)))" by blast
    have kt: "tx_keyType s1 = tx_keyType s" using L(3) by (simp add: tx_works_def)
    have "\<exists>s'. range_loop from fi to ti (word_of_nat (fst (hd L))) pos [] s1
        = Some (Ok ([] @ range_tids ?P (drop pos (snd (hd L)) @ concat (map snd (tl L)))), s') \<and> node_store s' N n \<and> tx_works s1 s'"
      by (rule range_loop_ok) (use L keys kt nodes pages in \<open>auto simp: tree_in_def\<close>)
    then obtain s' where s': "range_loop from fi to ti (word_of_nat (fst (hd L))) pos [] s1 = Some (Ok (range_tids ?P E), s')"
        "node_store s' N n" "tx_works s1 s'" using L(8) by auto
    have "btree_RangeSearch from fi to ti s = Some (Ok (range_tids ?P E), s')"
      using e False L(1) s'(1) by (simp add: btree_RangeSearch_def lift_result_def oseq_def once_def)
    moreover have "btree_index s' n E" using tree_in_reads [OF L(2) s'(2,3)] t(2) by (auto simp: btree_index_def)
    ultimately show thesis using that tx_works_trans [OF L(3) s'(3)] by blast
  qed
qed

end
