(* ===== verification/BTreeWrite.thy ===== *)
theory BTreeWrite
  imports BTreeSearch HashPages
begin

text \<open>
  Writing to a B-tree: the entry list with a tuple id added, what \<open>insertIntoLeaf\<close> makes of a leaf, the size of
  nodes with INT64 keys, and the pages that \<open>writeNode\<close> and the opening of a split leave behind.
\<close>

section \<open>Entries\<close>

fun add_tid :: "entry list \<Rightarrow> gvalue \<Rightarrow> TID \<Rightarrow> entry list" where
  "add_tid [] key tid = [(key, [tid])]"
| "add_tid ((k, tids) # es) key tid = (if k = key then (k, tids @ [tid]) # es
     else if key < k then (key, [tid]) # (k, tids) # es else (k, tids) # add_tid es key tid)"

lemma add_tid_right:
  "(\<And>e. e \<in> set B \<Longrightarrow> key < fst e) \<Longrightarrow> add_tid (es @ B) key tid = add_tid es key tid @ B"
proof (induction es)
  case Nil
  then show ?case by (cases B) (fastforce dest: less_imp_neq)+
next
  case (Cons e es)
  then show ?case by (cases e) auto
qed

lemma add_tid_left:
  "(\<And>e. e \<in> set A \<Longrightarrow> fst e < key) \<Longrightarrow> add_tid (A @ es) key tid = A @ add_tid es key tid"
proof (induction A)
  case (Cons e A)
  have "fst e < key" using Cons.prems by simp
  moreover have "add_tid (A @ es) key tid = A @ add_tid es key tid" using Cons by simp
  ultimately show ?case by (cases e) auto
qed simp

lemma add_tid_keys: "set (map fst (add_tid es key tid)) = insert key (set (map fst es))"
  by (induction es key tid rule: add_tid.induct) auto

lemma add_tid_sorted: "sorted_wrt (<) (map fst es) \<Longrightarrow> sorted_wrt (<) (map fst (add_tid es key tid))"
proof (induction es key tid rule: add_tid.induct)
  case (2 k tids es key tid)
  have later: "\<forall>x \<in> set (map fst es). k < x" and es: "sorted_wrt (<) (map fst es)" using "2.prems" by simp_all
  have "\<forall>x \<in> set (map fst (add_tid es key tid)). k < x" if "k < key" unfolding add_tid_keys using later that by auto
  moreover have "\<forall>x \<in> set (map fst es). key < x" if "key < k" using later that by (auto intro: less_trans)
  ultimately show ?case using "2.IH" es later by auto
qed simp

lemma add_tid_nonempty: "\<forall>e \<in> set es. snd e \<noteq> [] \<Longrightarrow> \<forall>e \<in> set (add_tid es key tid). snd e \<noteq> []"
  by (induction es key tid rule: add_tid.induct) auto

lemma leaf_ordered_add:
  "leaf_ordered lo hi es \<Longrightarrow> above lo key \<Longrightarrow> below hi key \<Longrightarrow> leaf_ordered lo hi (add_tid es key tid)"
  unfolding leaf_ordered_def add_tid_keys using add_tid_sorted by auto

lemma add_tid_found: "sorted_wrt (<) (map fst es) \<Longrightarrow> pos = length (takeWhile (\<lambda>k. k < key) (map fst es)) \<Longrightarrow>
   add_tid es key tid = (if pos < length es \<and> fst (es ! pos) = key then es[pos := (key, snd (es ! pos) @ [tid])]
     else take pos es @ (key, [tid]) # drop pos es)"
proof (induction es arbitrary: pos)
  case (Cons e es)
  obtain k v where e: "e = (k, v)" by (cases e)
  consider "k < key" | "k = key" | "key < k" by fastforce
  then show ?case
  proof cases
    case 1
    then show ?thesis using Cons e by auto
  next
    case 3
    then have "\<not> k < key" "k \<noteq> key" by auto
    then show ?thesis using Cons.prems 3 e by simp
  qed (use Cons e in auto)
qed simp

text \<open>The size of a leaf with INT64 keys.\<close>

definition leaf_body :: "entry list \<Rightarrow> nat" where
  "leaf_body es = sum_list (map (\<lambda>e. 12 + 6 * length (snd e)) es)"

lemma leaf_body_append [simp]: "leaf_body [] = 0" "leaf_body (e # es) = 12 + 6 * length (snd e) + leaf_body es"
  "leaf_body (xs @ ys) = leaf_body xs + leaf_body ys"
  by (simp_all add: leaf_body_def)

lemma leaf_body_add: "leaf_body (add_tid es key tid) \<le> leaf_body es + 18"
  by (induction es key tid rule: add_tid.induct) auto

lemma leaf_body_min: "\<forall>e \<in> set es. snd e \<noteq> [] \<Longrightarrow> 18 * length es \<le> leaf_body es"
proof (induction es)
  case (Cons e es)
  then have "1 \<le> length (snd e)" by (cases "snd e") auto
  then show ?case using Cons by simp
qed simp

lemma int64_key_bytes: "ty_name keyType = ''INT64'' \<Longrightarrow> key_ok keyType k \<Longrightarrow> length (key_bytes k) = 8"
  by (auto simp: key_ok_def key_bytes_def split: gvalue.splits)

lemma int64_keys_bytes:
  "ty_name keyType = ''INT64'' \<Longrightarrow> \<forall>k \<in> set ks. key_ok keyType k \<Longrightarrow> length (keys_bytes ks) = 8 * length ks"
  by (induction ks) (simp_all add: int64_key_bytes)

lemma leaf_size:
  assumes "ty_name keyType = ''INT64''" and "\<forall>k \<in> set (map fst es). key_ok keyType k"
    and "bn_isLeaf node" and "bn_keys node = map fst es" and "bn_values node = map snd es"
  shows "node_size node = 34 + leaf_body es"
proof -
  have "length (values_bytes (map snd es)) + 8 * length es = leaf_body es"
    by (induction es) simp_all
  then show ?thesis using assms int64_keys_bytes [OF assms(1,2)] by (simp add: node_size_def body_bytes_def)
qed

lemma inner_size:
  assumes "ty_name keyType = ''INT64''" and "\<forall>k \<in> set (bn_keys node). key_ok keyType k" and "\<not> bn_isLeaf node"
  shows "node_size node = 34 + 8 * length (bn_keys node) + 4 * length (bn_children node)"
  using assms int64_keys_bytes [OF assms(1,2)] by (simp add: node_size_def body_bytes_def)

lemma insertIntoLeaf_ok:
  assumes "bn_keys leaf = map fst es" and "bn_values leaf = map snd es" and "\<forall>k \<in> set (map fst es). key_ok keyType k"
    and "key_ok keyType key" and "sorted_wrt (<) (map fst es)"
  shows "insertIntoLeaf keyType leaf key tid
    = Ok (leaf\<lparr>bn_keys := map fst (add_tid es key tid), bn_values := map snd (add_tid es key tid)\<rparr>)"
proof -
  let ?pos = "length (takeWhile (\<lambda>k. k < key) (map fst es))"
  have lb: "lowerBound keyType (bn_keys leaf) key = Ok ?pos"
    using lowerBound_ok [of "map fst es" keyType key] assms strict_sorted by simp
  have le: "?pos \<le> length es" using length_takeWhile_le [of "\<lambda>k. k < key" "map fst es"] by simp
  have c: "\<exists>c. btree_compareKeys keyType (fst (es ! ?pos)) key = Ok c \<and> (c = 0 \<longleftrightarrow> fst (es ! ?pos) = key)"
    if "?pos < length es" using btree_compareKeys_ok [of keyType "fst (es ! ?pos)" key] assms(3,4) that by auto
  note a = add_tid_found [OF assms(5) refl, of key tid]
  show ?thesis
  proof (cases "?pos < length es \<and> fst (es ! ?pos) = key")
    case True
    have "map fst (es[?pos := (key, snd (es ! ?pos) @ [tid])]) = map fst es"
      using True by (metis list_update_id map_update fst_conv nth_map)
    then show ?thesis
      using True lb c a assms(1,2) by (auto simp: insertIntoLeaf_def index_at_def map_update)
  next
    case False
    then show ?thesis
      using lb c a assms(1,2) le by (auto simp: insertIntoLeaf_def insert_at_def take_map drop_map)
  qed
qed

section \<open>Writing nodes\<close>

text \<open>A page has been added to the file and is in the pool, but nothing has been written to it.\<close>

definition node_fresh :: "BTreeState \<Rightarrow> (nat \<Rightarrow> btreeNode option) \<Rightarrow> nat \<Rightarrow> bool" where
  "node_fresh s N n \<longleftrightarrow> n + 1 < 2 ^ 31 \<and> (\<exists>m buf. file_pages (bi_fileID (tx_idx s)) (tx_pool s) m (n + 1) \<and> m 0 \<noteq> None
     \<and> (\<forall>i node. N i = Some node \<longrightarrow> 0 < i \<and> bn_pageID node = word_of_nat i
        \<and> (\<exists>buf. m i = Some buf \<and> node_page (tx_keyType s) buf node))
     \<and> buffered (bi_fileID (tx_idx s)) (tx_pool s) n buf \<and> valid_buf buf)"

text \<open>Work on the file of the index that may also change the meta data.\<close>

definition tx_moves :: "BTreeState \<Rightarrow> BTreeState \<Rightarrow> bool" where
  "tx_moves s s' \<longleftrightarrow> (\<exists>meta. tx_idx s' = (tx_idx s)\<lparr>bi_meta := meta\<rparr>) \<and> runs_on (bi_fileID (tx_idx s)) (tx_pool s) (tx_pool s')"

lemma tx_moves_trans: "tx_moves s s' \<Longrightarrow> tx_moves s' s'' \<Longrightarrow> tx_moves s s''"
  by (auto simp: tx_moves_def intro: runs_on_trans)

lemma tx_works_moves: "tx_works s s' \<Longrightarrow> tx_moves s s'"
  by (auto simp: tx_works_def tx_moves_def intro: exI [of _ "tx_meta s"])

lemma tx_moves_idx: "tx_moves s s' \<Longrightarrow> bi_fileID (tx_idx s') = bi_fileID (tx_idx s) \<and> tx_keyType s' = tx_keyType s"
  by (auto simp: tx_moves_def)

lemma writeNode_ok:
  assumes st: "node_store s N n" and i: "N i = Some old" and ok: "node_ok (tx_keyType s) node" and pid: "bn_pageID node = word_of_nat i"
  obtains s' where "writeNode node s = (Ok (), s')" and "node_store s' (N(i \<mapsto> node)) n" and "tx_works s s'"
proof -
  let ?F = "bi_fileID (tx_idx s)"
  obtain m buf where m: "file_pages ?F (tx_pool s) m n" "m 0 \<noteq> None" "m i = Some buf" "0 < i" "n < 2 ^ 31"
      "\<forall>i node. N i = Some node \<longrightarrow> 0 < i \<and> bn_pageID node = word_of_nat i \<and> (\<exists>buf. m i = Some buf \<and> node_page (tx_keyType s) buf node)"
    using st i unfolding node_store_def by blast
  have lt: "i < n" by (rule file_pagesD(3) [OF m(1,3)])
  have si: "sint (word_of_nat i :: int32) = int i" using lt m(5) by (intro sint_node) simp
  obtain b1 where b1: "seq (GetPage (page_at ?F i)) slot_Page (tx_pool s) = (Ok \<lparr>hp_pageID = int i, hp_buf = buf\<rparr>, b1)"
      "file_pages ?F b1 m n" "runs_on ?F (tx_pool s) b1"
    by (rule read_page [OF m(1,3)])
  obtain buf' where buf': "print_node (tx_keyType s) node buf = Ok buf'" "node_page (tx_keyType s) buf' node"
    using print_node_ok [OF ok file_pagesD(6) [OF m(1,3)]] by blast
  have vb: "valid_buf buf'" using buf'(2) by (simp add: node_page_def)
  have "m i \<noteq> None \<or> bp_lookup b1 (page_at ?F i) \<noteq> None" using m(3) by simp
  then obtain b2 where b2: "UpdatePage (page_at ?F i) (Some \<lparr>hp_pageID = int i, hp_buf = buf'\<rparr>) b1 = (Ok (), b2)"
      "file_pages ?F b2 (m(i \<mapsto> buf')) n" "runs_on ?F b1 b2"
    by (rule update_page [OF b1(2) lt _ vb])
  have "writeNode node s = (Ok (), s\<lparr>tx_pool := b2\<rparr>)"
    using b1(1) b2(1) buf'(1) pid si
    by (simp add: writeNode_def seq_def btree_get_def btree_put_def tx_on_def btree_key_def lift_result_def)
  moreover have "node_store (s\<lparr>tx_pool := b2\<rparr>) (N(i \<mapsto> node)) n"
    unfolding node_store_def using m(2,4,5,6) b2(2) buf'(2) pid by (auto intro!: exI [of _ "m(i \<mapsto> buf')"])
  ultimately show thesis using that runs_on_trans [OF b1(3) b2(3)] by (simp add: tx_works_def)
qed

text \<open>Writing a node that is in the pool keeps the fresh page there; writing the fresh page makes it a node.\<close>

lemma writeNode_fresh:
  assumes st: "node_fresh s N n" and at: "buffered (bi_fileID (tx_idx s)) (tx_pool s) i buf" and v: "valid_buf buf"
    and ok: "node_ok (tx_keyType s) node" and pid: "bn_pageID node = word_of_nat i" and i: "0 < i" "i \<le> n"
  obtains s' where "writeNode node s = (Ok (), s')" and "tx_works s s'"
    and "i < n \<Longrightarrow> node_fresh s' (N(i \<mapsto> node)) n" and "node_store s' (N(i \<mapsto> node)) (n + 1)"
proof -
  let ?F = "bi_fileID (tx_idx s)"
  obtain m buf0 where m: "file_pages ?F (tx_pool s) m (n + 1)" "m 0 \<noteq> None" "n + 1 < 2 ^ 31"
      "\<forall>i node. N i = Some node \<longrightarrow> 0 < i \<and> bn_pageID node = word_of_nat i \<and> (\<exists>buf. m i = Some buf \<and> node_page (tx_keyType s) buf node)"
      "buffered ?F (tx_pool s) n buf0" "valid_buf buf0"
    using st unfolding node_fresh_def by blast
  have si: "sint (word_of_nat i :: int32) = int i" using i m(3) by (intro sint_node) simp
  obtain b1 where b1: "seq (GetPage (page_at ?F i)) slot_Page (tx_pool s) = (Ok \<lparr>hp_pageID = int i, hp_buf = buf\<rparr>, b1)"
      "file_pages ?F b1 m (n + 1)" "runs_on ?F (tx_pool s) b1" "\<And>j c. buffered ?F (tx_pool s) j c \<Longrightarrow> buffered ?F b1 j c"
    using get_resident [OF m(1) at] by metis
  obtain buf' where buf': "print_node (tx_keyType s) node buf = Ok buf'" "node_page (tx_keyType s) buf' node"
    using print_node_ok [OF ok v] by blast
  obtain b2 where b2: "UpdatePage (page_at ?F i) (Some \<lparr>hp_pageID = int i, hp_buf = buf'\<rparr>) b1 = (Ok (), b2)"
      "file_pages ?F b2 (m(i \<mapsto> buf')) (n + 1)" "runs_on ?F b1 b2" "\<And>j c. j \<noteq> i \<Longrightarrow> buffered ?F b1 j c \<Longrightarrow> buffered ?F b2 j c"
    using update_resident [OF b1(2) b1(4) [OF at], of buf'] i(2) buf'(2) by (auto simp: node_page_def)
  have w: "writeNode node s = (Ok (), s\<lparr>tx_pool := b2\<rparr>)"
    using b1(1) b2(1) buf'(1) pid si
    by (simp add: writeNode_def seq_def btree_get_def btree_put_def tx_on_def btree_key_def lift_result_def)
  have nodes: "\<forall>j node'. (N(i \<mapsto> node)) j = Some node' \<longrightarrow> 0 < j \<and> bn_pageID node' = word_of_nat j
      \<and> (\<exists>buf. (m(i \<mapsto> buf')) j = Some buf \<and> node_page (tx_keyType s) buf node')"
    using m(4) buf'(2) pid i(1) by auto
  have zero: "(m(i \<mapsto> buf')) 0 \<noteq> None" using m(2) i(1) by simp
  have "node_fresh (s\<lparr>tx_pool := b2\<rparr>) (N(i \<mapsto> node)) n" if "i < n"
    unfolding node_fresh_def using m(3,6) b2(2) nodes zero b2(4) [OF _ b1(4) [OF m(5)]] that
    by (intro conjI exI [of _ "m(i \<mapsto> buf')"] exI [of _ buf0]) simp_all
  moreover have "node_store (s\<lparr>tx_pool := b2\<rparr>) (N(i \<mapsto> node)) (n + 1)"
    unfolding node_store_def using m(3) b2(2) nodes zero by (intro conjI exI [of _ "m(i \<mapsto> buf')"]) simp_all
  moreover have "tx_works s (s\<lparr>tx_pool := b2\<rparr>)" using runs_on_trans [OF b1(3) b2(3)] by (simp add: tx_works_def)
  ultimately show thesis using that w by blast
qed

lemma alloc_node_ok:
  assumes st: "node_store s N n" and next_id: "bm_nextPageID (tx_meta s) = word_of_nat n" and room: "n + 1 < 2 ^ 31"
  obtains s' where "alloc_node s = (Ok (word_of_nat n), s')" and "node_fresh s' N n" and "tx_moves s s'"
    and "tx_meta s' = (tx_meta s)\<lparr>bm_nextPageID := word_of_nat (n + 1)\<rparr>"
    and "\<exists>buf. buffered (bi_fileID (tx_idx s)) (tx_pool s') n buf \<and> valid_buf buf"
    and "N i = Some old \<Longrightarrow> recent (tx_pool s) (page_at (bi_fileID (tx_idx s)) i) \<Longrightarrow> 2 \<le> bp_poolSize (tx_pool s)
      \<Longrightarrow> \<exists>buf. buffered (bi_fileID (tx_idx s)) (tx_pool s') i buf \<and> valid_buf buf"
proof -
  let ?F = "bi_fileID (tx_idx s)"
  obtain m where m: "file_pages ?F (tx_pool s) m n" "m 0 \<noteq> None"
      "\<forall>i node. N i = Some node \<longrightarrow> 0 < i \<and> bn_pageID node = word_of_nat i \<and> (\<exists>buf. m i = Some buf \<and> node_page (tx_keyType s) buf node)"
    using st unfolding node_store_def by blast
  obtain p where p: "NewHeapPage (int n) = Ok p" "page_inv p" "hp_pageID p = int n" using NewHeapPage_ok [of "int n"] by blast
  have v: "valid_buf (hp_buf p)" by (rule page_inv_valid_buf [OF p(2)])
  have pe: "p = \<lparr>hp_pageID = int n, hp_buf = hp_buf p\<rparr>" using p(3) by simp
  have sn: "sint (word_of_nat n :: int32) = int n" using room by (intro sint_node) simp
  have "\<exists>sl b'. NewPage (page_at ?F n) (Some p) (tx_pool s) = (Ok sl, b') \<and> file_pages ?F b' m (n + 1)
      \<and> buffered ?F b' n (hp_buf p) \<and> runs_on ?F (tx_pool s) b'
      \<and> (N i = Some old \<and> recent (tx_pool s) (page_at ?F i) \<and> 2 \<le> bp_poolSize (tx_pool s)
          \<longrightarrow> (\<exists>buf. buffered ?F b' i buf \<and> valid_buf buf))"
  proof (cases "N i = Some old \<and> recent (tx_pool s) (page_at ?F i) \<and> 2 \<le> bp_poolSize (tx_pool s)")
    case True
    then obtain c where c: "m i = Some c" using m(3) by blast
    have "valid_buf c" by (rule file_pagesD(6) [OF m(1) c])
    then show ?thesis using add_page_recent [OF m(1) v _ _ c] True pe by metis
  next
    case False
    then show ?thesis using add_page [OF m(1) v] pe by metis
  qed
  then obtain sl b' where b': "NewPage (page_at ?F n) (Some p) (tx_pool s) = (Ok sl, b')" "file_pages ?F b' m (n + 1)"
      "buffered ?F b' n (hp_buf p)" "runs_on ?F (tx_pool s) b'"
      "N i = Some old \<Longrightarrow> recent (tx_pool s) (page_at ?F i) \<Longrightarrow> 2 \<le> bp_poolSize (tx_pool s)
          \<Longrightarrow> \<exists>buf. buffered ?F b' i buf \<and> valid_buf buf" by blast
  let ?s = "\<lparr>tx_pool = b', tx_idx = (tx_idx s)\<lparr>bi_meta := (tx_meta s)\<lparr>bm_nextPageID := word_of_nat (n + 1)\<rparr>\<rparr>\<rparr>"
  have "alloc_node s = (Ok (word_of_nat n), ?s)"
    using next_id p(1) sn b'(1)
    by (simp add: alloc_node_def Let_def seq_def set_btreeMeta_def lift_result_def tx_on_def btree_key_def pure_def ac_simps)
  moreover have "node_fresh ?s N n"
    unfolding node_fresh_def using m(2,3) b'(2,3) v room by (intro conjI exI [of _ m] exI [of _ "hp_buf p"]) simp_all
  moreover have "tx_moves s ?s" using b'(4) by (auto simp: tx_moves_def)
  ultimately show thesis using that [of ?s] b'(3,5) v by auto
qed

end
