(* ===== verification/BTreeInsert.thy ===== *)
theory BTreeInsert
  imports BTreeWrite
begin

text \<open>
  Insertion into the B-tree. A leaf with room is written back; a full one is split, and its parent, or a new
  root, takes the new separator. The theorem is about INT64 keys, the LRU policy and a file of fewer than 680
  pages: then the halves of a leaf always fit, the leaf is still in the pool when its new neighbour has been
  added, and no inner node has to be split.
\<close>

section \<open>Changed nodes\<close>

text \<open>The left neighbour of a node matters to no search.\<close>

definition relinked :: "(nat \<Rightarrow> btreeNode option) \<Rightarrow> (nat \<Rightarrow> btreeNode option) \<Rightarrow> nat \<Rightarrow> bool" where
  "relinked N N' i \<longleftrightarrow> N' i = N i \<or> (\<exists>node x. N i = Some node \<and> N' i = Some (node\<lparr>bn_leftSibPageID := x\<rparr>))"

lemma relinked_same [simp]: "relinked N N i" "j \<noteq> i \<Longrightarrow> relinked N (N'(j \<mapsto> node)) i = relinked N N' i"
  by (simp_all add: relinked_def)

lemma relinkedE:
  assumes "relinked N N' i" and "N i = Some node"
  obtains x where "N' i = Some (node\<lparr>bn_leftSibPageID := x\<rparr>)"
  using assms that [of "bn_leftSibPageID node"] by (auto simp: relinked_def)

lemma fits_relink [simp]:
  "node_fits keyType (node\<lparr>bn_leftSibPageID := x\<rparr>) = node_fits keyType node"
  "node_fits keyType (node\<lparr>bn_rightSibPageID := x\<rparr>) = node_fits keyType node"
  "node_fits keyType (node\<lparr>bn_parentPageID := x\<rparr>) = node_fits keyType node"
  "node_ok keyType (node\<lparr>bn_leftSibPageID := x\<rparr>) = node_ok keyType node"
  "node_ok keyType (node\<lparr>bn_parentPageID := x\<rparr>) = node_ok keyType node"
  by (simp_all add: node_fits_def node_ok_def node_shape_def node_size_def body_bytes_def)

lemma fits_ok: "node_fits keyType node \<Longrightarrow> node_ok keyType node"
  by (simp add: node_fits_def node_ok_def btree_consts PageSize_def)

lemma stored_relinked:
  "stored keyType N p t \<Longrightarrow> \<forall>i \<in> set (pages t). relinked N N' i \<Longrightarrow> stored keyType N' p t"
proof (induction t arbitrary: p)
  case (Lf i es)
  then have "relinked N N' i" by simp
  then show ?case using Lf.prems(1) by (auto simp: relinked_def)
next
  case (Nd i ks ts)
  have "relinked N N' i" using Nd.prems(2) by simp
  moreover have "stored keyType N' (word_of_nat i) t" if "t \<in> set ts" for t
    using Nd.IH [OF that] Nd.prems that by simp
  ultimately show ?case using Nd.prems(1) by (auto simp: relinked_def)
qed

lemma frame_stored_relinked:
  assumes "frame_stored keyType N p f r" and "relinked N N' (fr_page f)"
    and "\<forall>t \<in> set (fr_tsL f) \<union> set (fr_tsR f). \<forall>i \<in> set (pages t). relinked N N' i"
  shows "frame_stored keyType N' p f r"
proof -
  have kids: "\<forall>t \<in> set (fr_tsL f) \<union> set (fr_tsR f). stored keyType N' (word_of_nat (fr_page f)) t"
    using stored_relinked [of keyType N "word_of_nat (fr_page f)" _ N'] assms(1,3) unfolding frame_stored_def by blast
  obtain node where node: "N (fr_page f) = Some node" "node_fits keyType node" "\<not> bn_isLeaf node"
     "bn_parentPageID node = p" "bn_keys node = fr_ksL f @ fr_ksR f"
     "bn_children node = map (\<lambda>t. word_of_nat (bt_page t)) (fr_tsL f) @ word_of_nat r # map (\<lambda>t. word_of_nat (bt_page t)) (fr_tsR f)"
    using assms(1) unfolding frame_stored_def by blast
  obtain x where x: "N' (fr_page f) = Some (node\<lparr>bn_leftSibPageID := x\<rparr>)" by (rule relinkedE [OF assms(2) node(1)])
  show ?thesis unfolding frame_stored_def
    by (rule conjI [OF exI [of _ "node\<lparr>bn_leftSibPageID := x\<rparr>"] kids]) (simp add: x node)
qed

lemma frames_stored_relinked:
  "frames_stored keyType N fs r \<Longrightarrow> \<forall>i \<in> set (frames_pages fs). relinked N N' i \<Longrightarrow> frames_stored keyType N' fs r"
proof (induction fs arbitrary: r)
  case (Cons f fs)
  have "frame_stored keyType N' (place_parent fs) f r"
    by (rule frame_stored_relinked [of keyType N]) (use Cons.prems in auto)
  moreover have "frames_stored keyType N' fs (fr_page f)" by (rule Cons.IH) (use Cons.prems in simp_all)
  ultimately show ?case by simp
qed simp

text \<open>Linking a new leaf in behind another one.\<close>

definition same_right :: "(nat \<Rightarrow> btreeNode option) \<Rightarrow> (nat \<Rightarrow> btreeNode option) \<Rightarrow> nat \<Rightarrow> bool" where
  "same_right N N' i \<longleftrightarrow> map_option bn_rightSibPageID (N' i) = map_option bn_rightSibPageID (N i)"

lemma relinked_right: "relinked N N' i \<Longrightarrow> same_right N N' i"
  by (auto simp: relinked_def same_right_def)

lemma chained_same: "\<forall>i \<in> set is. same_right N N' i \<Longrightarrow> chained N is \<Longrightarrow> chained N' is"
  by (induction N "is" rule: chained.induct) (auto simp: same_right_def)

lemma chained_insert:
  assumes "chained N (A @ i # B)" and "\<forall>j \<in> set A \<union> set B. same_right N N' j"
    and "\<exists>node. N' i = Some node \<and> bn_rightSibPageID node = word_of_nat n" and "same_right (N(n := N i)) N' n"
  shows "chained N' (A @ i # n # B)"
  using assms
proof (induction A)
  case Nil
  have "chained N' B" using Nil chained_same [of B N N'] by (cases B) auto
  then show ?case using Nil by (cases B) (auto simp: same_right_def)
next
  case (Cons a A)
  have "chained N (A @ i # B)" using Cons.prems(1) by (cases A) auto
  then have "chained N' (A @ i # n # B)" using Cons by simp
  then show ?case using Cons.prems(1,2) by (cases A) (auto simp: same_right_def)
qed

lemma chained_successor:
  assumes "chained N (A @ i # B)" and "N i = Some node"
  shows "B = [] \<and> bn_rightSibPageID node = -1 \<or> (\<exists>j B'. B = j # B' \<and> bn_rightSibPageID node = word_of_nat j \<and> N j \<noteq> None)"
  using assms
proof (induction A)
  case Nil
  then show ?case by (cases B; cases "tl B") auto
next
  case (Cons a A)
  then show ?case by (cases A) auto
qed

section \<open>Trees with a leaf split\<close>

lemma leaf_ordered_split:
  assumes "leaf_ordered lo hi es" and "mid < length es" and "k = fst (es ! mid)"
  shows "leaf_ordered lo (Some k) (take mid es)" and "leaf_ordered (Some k) hi (drop mid es)" and "above lo k" and "below hi k"
proof -
  have e: "es = take mid es @ es ! mid # drop (Suc mid) es" by (rule id_take_nth_drop [OF assms(2)])
  have d: "drop mid es = es ! mid # drop (Suc mid) es" using assms(2) by (simp add: Cons_nth_drop_Suc)
  have "sorted_wrt (<) (map fst (take mid es @ es ! mid # drop (Suc mid) es))"
    and b: "\<forall>k \<in> set (map fst (take mid es @ es ! mid # drop (Suc mid) es)). above lo k \<and> below hi k"
    using assms(1) e unfolding leaf_ordered_def by metis+
  then have s: "sorted_wrt (<) (map fst (take mid es))" "\<forall>x \<in> fst ` set (take mid es). x < k"
      "\<forall>x \<in> fst ` set (drop (Suc mid) es). k < x" "sorted_wrt (<) (map fst (drop (Suc mid) es))"
    by (simp_all add: sorted_wrt_append assms(3))
  show "leaf_ordered lo (Some k) (take mid es)" using s(1,2) b by (simp add: leaf_ordered_def)
  show "leaf_ordered (Some k) hi (drop mid es)" unfolding d using s(3,4) b assms(3) by (auto simp: leaf_ordered_def)
  show "above lo k" "below hi k" using b assms(3) by simp_all
qed

text \<open>A second leaf behind the first one, as a child of the same node.\<close>

definition frame_with :: "frame \<Rightarrow> gvalue \<Rightarrow> bt \<Rightarrow> frame" where
  "frame_with f k t = f\<lparr>fr_ksR := k # fr_ksR f, fr_tsR := t # fr_tsR f\<rparr>"

lemma frame_with_ordered:
  assumes "frames_ordered (f # fs)" and "above (place_lo (f # fs)) k" and "below (place_hi (f # fs)) k"
    and "leaf_ordered (Some k) (place_hi (f # fs)) es"
  shows "frames_ordered (frame_with f k (Lf n es) # fs)"
    and "place_lo (frame_with f k (Lf n es) # fs) = place_lo (f # fs)" and "place_hi (frame_with f k (Lf n es) # fs) = Some k"
proof -
  have f: "frame_ordered (place_lo fs) (place_hi fs) f" "frames_ordered fs" using assms(1) by simp_all
  have up: "upto_bound (place_hi fs) k"
    using assms(3) place_hi_mono [OF f(1)] by (auto simp: below_def upto_bound_def split: if_splits intro: less_imp_le order_trans)
  have "ordered_seq (Some k) (place_hi fs) (fr_ksR f) (Lf n es # fr_tsR f)"
  proof (cases "fr_ksR f")
    case Nil
    then show ?thesis using f(1) assms(4) by (simp add: frame_ordered_def seq_right_def)
  next
    case (Cons h ks)
    have "k < h" "leaf_ordered (Some k) (Some h) es" using assms(3,4) Cons by simp_all
    then show ?thesis using f(1) Cons by (simp add: frame_ordered_def seq_right_def)
  qed
  then show "frames_ordered (frame_with f k (Lf n es) # fs)"
    using f up assms(2) by (auto simp: frame_with_def frame_ordered_def seq_right_def)
  show "place_lo (frame_with f k (Lf n es) # fs) = place_lo (f # fs)" "place_hi (frame_with f k (Lf n es) # fs) = Some k"
    by (simp_all add: frame_with_def)
qed

lemma plug_frame_with:
  "entries (plug (frame_with f k (Lf n R) # fs) (Lf i L)) = entries (plug (f # fs) (Lf i (L @ R)))"
  "leaves (plug (frame_with f k (Lf n R) # fs) (Lf i L)) = left_of leaves (f # fs) @ (i, L) # (n, R) # right_of leaves (f # fs)"
  "mset (pages (plug (frame_with f k (Lf n R) # fs) (Lf i L))) = add_mset n (mset (pages (plug (f # fs) (Lf i es))))"
  by (simp_all add: entries_plug leaves_plug pages_plug frame_with_def del: plug.simps(2))

section \<open>Splitting a leaf\<close>

lemma leaf_halves_fit:
  assumes ty: "ty_name keyType = ''INT64''" and keys: "\<forall>k \<in> set (map fst es). key_ok keyType k"
    and leaf: "bn_isLeaf node" "bn_keys node = map fst es" "bn_values node = map snd es" "bn_children node = []"
    and body: "leaf_body es \<le> 8148"
  shows "node_fits keyType node"
  using leaf_size [OF ty keys leaf(1-3)] assms(2-) by (simp add: node_fits_def node_shape_def btree_consts PageSize_def)

lemma half_bodies:
  assumes "\<forall>e \<in> set es. snd e \<noteq> []" and "leaf_body es \<le> 8166" and "0 < mid" and "mid < length es"
  shows "leaf_body (take mid es) \<le> 8148" and "leaf_body (drop mid es) \<le> 8148"
proof -
  have "leaf_body es = leaf_body (take mid es) + leaf_body (drop mid es)"
    by (simp flip: leaf_body_append(3))
  moreover have "18 * length (take mid es) \<le> leaf_body (take mid es)" "18 * length (drop mid es) \<le> leaf_body (drop mid es)"
    using assms(1) by (intro leaf_body_min; auto dest: in_set_takeD in_set_dropD)+
  ultimately show "leaf_body (take mid es) \<le> 8148" "leaf_body (drop mid es) \<le> 8148" using assms(2-4) by auto
qed

lemma splitLeaf_ok:
  fixes s :: BTreeState and es' :: "entry list"
  defines "mid \<equiv> length es' div 2"
  assumes st: "node_store s N n" and leaf: "N i = Some leaf" and chain: "chained N (A @ i # B)"
    and fresh: "N n = None" and next_id: "bm_nextPageID (tx_meta s) = word_of_nat n" and room: "n + 1 < 2 ^ 31"
    and rec: "recent (tx_pool s) (page_at (bi_fileID (tx_idx s)) i)" and pool: "2 \<le> bp_poolSize (tx_pool s)"
    and ne: "i \<notin> set B"
    and lf: "bn_isLeaf leaf" "bn_pageID leaf = word_of_nat i" "bn_children leaf = []"
    and fits: "\<And>node h. h = take mid es' \<or> h = drop mid es' \<Longrightarrow> bn_isLeaf node \<Longrightarrow> bn_children node = [] \<Longrightarrow> bn_keys node = map fst h
      \<Longrightarrow> bn_values node = map snd h \<Longrightarrow> node_fits (tx_keyType s) node" and two: "2 \<le> length es'"
    and others: "\<And>j node. j \<in> set B \<Longrightarrow> N j = Some node \<Longrightarrow> node_fits (tx_keyType s) node"
  obtains s' N' left right where
    "splitLeaf (leaf\<lparr>bn_keys := map fst es', bn_values := map snd es'\<rparr>) path s = insertIntoParent left (fst (es' ! mid)) right path s'"
    and "node_store s' N' (n + 1)" and "tx_moves s s'" and "tx_meta s' = (tx_meta s)\<lparr>bm_nextPageID := word_of_nat (n + 1)\<rparr>"
    and "N' i = Some left" and "left = leaf\<lparr>bn_keys := map fst (take mid es'), bn_values := map snd (take mid es'), bn_rightSibPageID := word_of_nat n\<rparr>"
    and "N' n = Some right" and "bn_isLeaf right" and "bn_pageID right = word_of_nat n" and "bn_parentPageID right = bn_parentPageID leaf"
    and "bn_keys right = map fst (drop mid es')" and "bn_values right = map snd (drop mid es')" and "bn_children right = []"
    and "bn_rightSibPageID right = bn_rightSibPageID leaf"
    and "\<And>j. j \<noteq> i \<Longrightarrow> j \<noteq> n \<Longrightarrow> relinked N N' j"
proof -
  let ?F = "bi_fileID (tx_idx s)"
  define left where "left = leaf\<lparr>bn_keys := map fst (take mid es'), bn_values := map snd (take mid es'), bn_rightSibPageID := word_of_nat n\<rparr>"
  define right where "right = \<lparr>bn_pageID = word_of_nat n, bn_isLeaf = True, bn_parentPageID = bn_parentPageID leaf, bn_leftSibPageID = word_of_nat i,
         bn_rightSibPageID = bn_rightSibPageID leaf, bn_keys = map fst (drop mid es'), bn_values = map snd (drop mid es'), bn_children = []\<rparr>"
  obtain s1 bufi where s1: "alloc_node s = (Ok (word_of_nat n), s1)" "node_fresh s1 N n" "tx_moves s s1"
      "tx_meta s1 = (tx_meta s)\<lparr>bm_nextPageID := word_of_nat (n + 1)\<rparr>"
      "buffered ?F (tx_pool s1) i bufi" "valid_buf bufi"
    using alloc_node_ok [OF st next_id room] leaf rec pool by metis
  have id1: "bi_fileID (tx_idx s1) = ?F" "tx_keyType s1 = tx_keyType s" using tx_moves_idx [OF s1(3)] by auto
  have in_: "0 < i" "i < n" using st leaf by (auto simp: node_store_def dest: file_pagesD(3))
  have okl: "node_ok (tx_keyType s) left" and okr: "node_ok (tx_keyType s) right"
    using fits [of "take mid es'" left] fits [of "drop mid es'" right] lf by (auto simp: left_def right_def intro!: fits_ok)
  obtain s2 where s2: "writeNode left s1 = (Ok (), s2)" "tx_works s1 s2" "node_fresh s2 (N(i \<mapsto> left)) n"
    using writeNode_fresh [OF s1(2) _ s1(6), of i left] s1(5) id1 okl lf(2) in_ by (auto simp: left_def)
  have id2: "tx_idx s2 = tx_idx s1" using s2(2) by (simp add: tx_works_def)
  obtain buf where buf: "buffered ?F (tx_pool s2) n buf" "valid_buf buf"
    using s2(3) id1 id2 unfolding node_fresh_def by auto
  have n0: "0 < n" using in_ by simp
  obtain s3 where s3: "writeNode right s2 = (Ok (), s3)" "tx_works s2 s3" "node_store s3 (N(i \<mapsto> left, n \<mapsto> right)) (n + 1)"
    using writeNode_fresh [OF s2(3) _ buf(2), of n right] buf(1) id1 id2 okr n0 by (auto simp: right_def)
  have id3: "tx_idx s3 = tx_idx s1" using s3(2) id2 by (simp add: tx_works_def)
  let ?N = "N(i \<mapsto> left, n \<mapsto> right)"
  obtain s4 N' where s4: "link_right (bn_rightSibPageID right) (word_of_nat n) s3 = (Ok (), s4)" "tx_works s3 s4" "node_store s4 N' (n + 1)"
      "N' i = Some left" "N' n = Some right" "\<And>j. j \<noteq> i \<Longrightarrow> j \<noteq> n \<Longrightarrow> relinked N N' j"
  proof (cases B)
    case Nil
    then have "bn_rightSibPageID leaf = -1" using chained_successor [OF chain leaf] by auto
    then show thesis by (intro that [of s3 ?N]) (use s3(3) in_ in \<open>simp_all add: link_right_def right_def pure_def\<close>)
  next
    case (Cons j B')
    then obtain sib where j: "bn_rightSibPageID leaf = word_of_nat j" "N j = Some sib" using chained_successor [OF chain leaf] by auto
    have jn: "j \<noteq> i" "j \<noteq> n" "0 < j" "j < n"
      using Cons ne fresh j(2) st by (auto simp: node_store_def dest: file_pagesD(3))
    have Nj: "?N j = Some sib" using j(2) jn by simp
    have pid: "bn_pageID (sib\<lparr>bn_leftSibPageID := word_of_nat n\<rparr>) = word_of_nat j" using st j(2) by (auto simp: node_store_def)
    obtain s' where s': "readNode (word_of_nat j) s3 = (Ok sib, s')" "node_store s' ?N (n + 1)" "tx_works s3 s'"
      by (rule readNode_ok [OF s3(3) Nj])
    have "tx_keyType s' = tx_keyType s" using s'(3) id3 id1 by (simp add: tx_works_def)
    then have ok: "node_ok (tx_keyType s') (sib\<lparr>bn_leftSibPageID := word_of_nat n\<rparr>)" using fits_ok [OF others [OF _ j(2)]] Cons by simp
    obtain s'' where s'': "writeNode (sib\<lparr>bn_leftSibPageID := word_of_nat n\<rparr>) s' = (Ok (), s'')"
        "node_store s'' (?N(j \<mapsto> sib\<lparr>bn_leftSibPageID := word_of_nat n\<rparr>)) (n + 1)" "tx_works s' s''"
      by (rule writeNode_ok [OF s'(2) Nj ok pid])
    have "word_of_nat j \<noteq> (-1 :: int32)" using page_not_nil [of j] jn room by simp
    then have "link_right (bn_rightSibPageID right) (word_of_nat n) s3 = (Ok (), s'')"
      using j(1) s'(1) s''(1) by (simp add: link_right_def right_def seq_def)
    moreover have "relinked N (?N(j \<mapsto> sib\<lparr>bn_leftSibPageID := word_of_nat n\<rparr>)) k" if "k \<noteq> i" "k \<noteq> n" for k
      using j(2) that by (auto simp: relinked_def)
    ultimately show thesis using that [OF _ tx_works_trans [OF s'(3) s''(3)] s''(2)] jn in_ by simp
  qed
  have half: "mid < length es'" "take mid (map fst es') = map fst (take mid es')" "drop mid (map snd es') = map snd (drop mid es')"
    using two by (auto simp: mid_def take_map drop_map)
  have "leaf_halves (leaf\<lparr>bn_keys := map fst es', bn_values := map snd es'\<rparr>) (word_of_nat n) = Ok (left, right)"
    using lf by (simp add: leaf_halves_def Let_def left_def right_def take_map drop_map flip: mid_def) (simp add: mid_def)
  moreover have "index_at (bn_keys right) 0 = Ok (fst (es' ! mid))" using half(1) by (simp add: index_at_def right_def)
  ultimately have "splitLeaf (leaf\<lparr>bn_keys := map fst es', bn_values := map snd es'\<rparr>) path s = insertIntoParent left (fst (es' ! mid)) right path s4"
    using s1(1) s2(1) s3(1) s4(1) by (simp add: splitLeaf_def seq_def lift_result_def)
  moreover have "tx_moves s s4" using tx_moves_trans [OF s1(3) tx_works_moves [OF tx_works_trans [OF s2(2) tx_works_trans [OF s3(2) s4(2)]]]] .
  moreover have "tx_meta s4 = tx_meta s1" using s4(2) id3 by (simp add: tx_works_def)
  ultimately show thesis
    using that [OF _ s4(3) _ _ s4(4) left_def s4(5) _ _ _ _ _ _ _ s4(6)] s1(4) by (simp add: right_def)
qed

section \<open>The parent\<close>

lemma page_no_parent: "p < 2 ^ 31 \<Longrightarrow> word_of_nat p \<noteq> (-1 :: int32)"
  using sint_node [of p] by auto

lemma parent_with_ok:
  assumes keys: "bn_keys parent = ksL @ ksR" "\<forall>k \<in> set (ksL @ ksR). key_ok keyType k" "key_ok keyType key" "sorted (ksL @ ksR)"
    and place: "\<forall>k \<in> set ksL. k \<le> key" "\<forall>k \<in> set ksR. key < k"
    and kids: "bn_children parent = csL @ c # csR" "length csL = length ksL"
  shows "parent_with keyType parent key r = Ok (parent\<lparr>bn_keys := ksL @ key # ksR, bn_children := csL @ c # r # csR\<rparr>)"
proof -
  have "takeWhile (\<lambda>k. k \<le> key) (ksL @ ksR) = ksL"
    using place by (cases ksR) (simp_all add: takeWhile_append2 not_le)
  then have "upperBound keyType (bn_keys parent) key = Ok (length ksL)"
    using upperBound_ok [OF keys(2-4)] keys(1) by simp
  moreover have "insert_at (length ksL) key (bn_keys parent) = Ok (ksL @ key # ksR)" using keys(1) by (simp add: insert_at_def)
  moreover have "insert_at (length ksL + 1) r (bn_children parent) = Ok (csL @ c # r # csR)"
    unfolding kids(1) kids(2) [symmetric] by (simp add: insert_at_def)
  ultimately show ?thesis by (simp add: parent_with_def)
qed

lemma insertIntoParent_ok:
  assumes st: "node_store s N n" and p: "N p = Some parent" "word_of_nat p = bn_parentPageID left" "bn_parentPageID right = bn_parentPageID left"
    and r: "N r = Some right" "node_fits (tx_keyType s) right" and rp: "r \<noteq> p"
    and new: "parent_with (tx_keyType s) parent key (word_of_nat r) = Ok parent'" and fits: "node_fits (tx_keyType s) parent'"
    and pid: "bn_pageID parent' = bn_pageID parent"
  obtains s' where "insertIntoParent left key right path s = (Ok (), s')" and "node_store s' (N(p \<mapsto> parent')) n" and "tx_works s s'"
proof -
  have ids: "bn_pageID parent = word_of_nat p" "bn_pageID right = word_of_nat r" "p < n" "n < 2 ^ 31"
    using st p(1) r(1) by (auto simp: node_store_def dest: file_pagesD(3))
  have no: "bn_parentPageID left \<noteq> -1" using page_no_parent [of p] ids(3,4) p(2) by simp
  obtain s1 where s1: "readNode (word_of_nat p) s = (Ok parent, s1)" "node_store s1 N n" "tx_works s s1"
    by (rule readNode_ok [OF st p(1)])
  have k1: "tx_keyType s1 = tx_keyType s" using s1(3) by (simp add: tx_works_def)
  have re: "right\<lparr>bn_parentPageID := bn_pageID parent\<rparr> = right" using p(2,3) ids(1) by simp
  obtain s2 where s2: "writeNode right s1 = (Ok (), s2)" "node_store s2 (N(r \<mapsto> right)) n" "tx_works s1 s2"
    using writeNode_ok [OF s1(2) r(1)] fits_ok r(2) ids(2) k1 by metis
  have "N(r \<mapsto> right) = N" using r(1) by auto
  then have st2: "node_store s2 N n" using s2(2) by simp
  have k2: "tx_keyType s2 = tx_keyType s" using s2(3) k1 by (simp add: tx_works_def)
  have "node_ok (tx_keyType s2) parent'" "bn_pageID parent' = word_of_nat p" using fits_ok [OF fits] k2 pid ids(1) by simp_all
  then obtain s3 where s3: "writeNode parent' s2 = (Ok (), s3)" "node_store s3 (N(p \<mapsto> parent')) n" "tx_works s2 s3"
    by (rule writeNode_ok [OF st2 p(1)])
  have "estimateSize (tx_keyType s) parent' = Ok (node_size parent')" "node_size parent' \<le> btreePageCapacity"
    using fits estimateSize_ok by (auto simp: node_fits_def)
  then have "insertIntoParent left key right path s = (Ok (), s3)"
    using no s1(1) s2(1) s3(1) new re ids(2) k1 p(2)
    by (subst insertIntoParent.simps) (simp add: seq_def lift_result_def)
  then show thesis using that s3(2) tx_works_trans [OF s1(3) tx_works_trans [OF s2(3) s3(3)]] by blast
qed

text \<open>The number of nodes bounds the number of children of a node.\<close>

lemma pages_count:
  assumes "distinct (pages t)" and "set (pages t) \<subseteq> {1..<n}"
  shows "length (pages t) < n \<or> n = 0"
proof -
  have "length (pages t) \<le> card {1..<n}" using assms by (metis card_mono distinct_card finite_atLeastLessThan)
  then show ?thesis by auto
qed

lemma bt_page_in [simp]: "bt_page t \<in> set (pages t)"
  by (cases t) simp_all

lemma pages_length: "length ts \<le> length (concat (map pages ts))"
proof (induction ts)
  case (Cons t ts)
  have "1 \<le> length (pages t)" by (cases t) simp_all
  then show ?case using Cons by simp
qed simp

lemma pages_frame:
  "length (pages (plug fs t)) = length (pages t) + length (frames_pages fs)"
  "distinct (pages (plug fs t)) \<longleftrightarrow> distinct (pages t) \<and> distinct (frames_pages fs) \<and> set (pages t) \<inter> set (frames_pages fs) = {}"
  "set (pages (plug fs t)) = set (pages t) \<union> set (frames_pages fs)"
proof -
  have m: "mset (pages (plug fs t)) = mset (pages t @ frames_pages fs)" by (simp add: pages_plug)
  show "length (pages (plug fs t)) = length (pages t) + length (frames_pages fs)" using mset_eq_length [OF m] by simp
  show "set (pages (plug fs t)) = set (pages t) \<union> set (frames_pages fs)" using mset_eq_setD [OF m] by simp
  show "distinct (pages (plug fs t)) \<longleftrightarrow> distinct (pages t) \<and> distinct (frames_pages fs) \<and> set (pages t) \<inter> set (frames_pages fs) = {}"
    using mset_eq_imp_distinct_iff [OF m] by simp
qed

lemma inner_fits:
  assumes ty: "ty_name keyType = ''INT64''" and "\<forall>k \<in> set (bn_keys node). key_ok keyType k" and "\<not> bn_isLeaf node"
    and "bn_values node = []" and "length (bn_children node) = Suc (length (bn_keys node))" and "length (bn_children node) \<le> 678"
  shows "node_fits keyType node"
  using inner_size [OF ty assms(2,3)] assms(2-) by (simp add: node_fits_def node_shape_def btree_consts PageSize_def)

section \<open>The tree afterwards\<close>

lemma bt_page_plug: "bt_page t = bt_page t' \<Longrightarrow> bt_page (plug fs t) = bt_page (plug fs t')"
  by (induction fs arbitrary: t t') (simp_all add: fill_def)

lemma leaf_replaced:
  assumes t: "tree_in s N n (plug fs (Lf i es))" and fo: "frames_ordered fs" and node: "N i = Some node"
    and lo: "leaf_ordered (place_lo fs) (place_hi fs) es'" and node': "node' = node\<lparr>bn_keys := map fst es', bn_values := map snd es'\<rparr>"
    and fits: "node_fits (tx_keyType s) node'" and s': "node_store s' (N(i \<mapsto> node')) n" "tx_works s s'"
    and ne: "\<forall>e \<in> set es'. snd e \<noteq> []"
  shows "tree_in s' (N(i \<mapsto> node')) n (plug fs (Lf i es'))"
proof -
  let ?N = "N(i \<mapsto> node')"
  have id': "tx_idx s' = tx_idx s" using s'(2) by (simp add: tx_works_def)
  have pg: "set (pages (plug fs (Lf i es'))) = set (pages (plug fs (Lf i es)))" "distinct (pages (plug fs (Lf i es')))" "i \<notin> set (frames_pages fs)"
    using t by (simp_all add: tree_in_def pages_frame)
  have old: "frames_stored (tx_keyType s) N fs i" "stored (tx_keyType s) N (place_parent fs) (Lf i es)"
    using t by (simp_all add: tree_in_def stored_plug)
  have "frames_stored (tx_keyType s) ?N fs i"
  proof (rule frames_stored_relinked [OF old(1)], rule ballI)
    fix j assume "j \<in> set (frames_pages fs)"
    then have "i \<noteq> j" using pg(3) by auto
    then show "relinked N ?N j" by simp
  qed
  then have "stored (tx_keyType s) ?N (-1) (plug fs (Lf i es'))"
    using old(2) node fits by (simp add: stored_plug node')
  moreover have "chained ?N (map fst (leaves (plug fs (Lf i es'))))"
  proof -
    have "map fst (leaves (plug fs (Lf i es'))) = map fst (leaves (plug fs (Lf i es)))" by (simp add: leaves_plug)
    moreover have "\<forall>j. same_right N ?N j" using node by (simp add: same_right_def node')
    ultimately show ?thesis using t chained_same [of _ N ?N] by (simp add: tree_in_def)
  qed
  moreover have "ordered None None (plug fs (Lf i es'))" using ordered_plug [OF fo] lo by simp
  moreover have "bt_page (plug fs (Lf i es')) = bt_page (plug fs (Lf i es))" "fst (hd (leaves (plug fs (Lf i es')))) = fst (hd (leaves (plug fs (Lf i es))))"
    using bt_page_plug [of "Lf i es'" "Lf i es" fs] by (simp_all add: leaves_plug hd_append)
  moreover have "\<forall>e \<in> set (entries (plug fs (Lf i es'))). snd e \<noteq> []" using t ne by (auto simp: tree_in_def entries_plug)
  ultimately show ?thesis using t s'(1) pg(1,2) id' by (simp add: tree_in_def)
qed

text \<open>The nodes of a leaf and its new right neighbour under a common parent.\<close>

definition leaf_pair :: "TypeDefinition \<Rightarrow> (nat \<Rightarrow> btreeNode option) \<Rightarrow> (nat \<Rightarrow> btreeNode option) \<Rightarrow> int32 \<Rightarrow> nat \<Rightarrow> entry list \<Rightarrow> nat \<Rightarrow> entry list \<Rightarrow> bool" where
  "leaf_pair keyType N N' p i L n R \<longleftrightarrow> stored keyType N' p (Lf i L) \<and> stored keyType N' p (Lf n R)
     \<and> (\<exists>left. N' i = Some left \<and> bn_rightSibPageID left = word_of_nat n) \<and> same_right (N(n := N i)) N' n"

lemma pair_chained:
  assumes "leaf_pair keyType N N' p i L n R" and "chained N (map fst (A @ (i, es) # B))"
    and "\<forall>j \<in> set (map fst A) \<union> set (map fst B). same_right N N' j"
  shows "chained N' (map fst (A @ (i, L) # (n, R) # B))"
  using chained_insert [of N "map fst A" i "map fst B" N' n] assms by (auto simp: leaf_pair_def)

lemma stored_leaf: "stored keyType N p t \<Longrightarrow> (i, es) \<in> set (leaves t) \<Longrightarrow> \<exists>node. N i = Some node \<and> bn_isLeaf node"
  by (induction t arbitrary: p) auto

lemma leaves_distinct: "distinct (pages t) \<Longrightarrow> distinct (map fst (leaves t))"
proof (induction t)
  case (Nd i ks ts)
  then show ?case
  proof (induction ts)
    case (Cons t ts)
    have disj: "set (pages t) \<inter> set (concat (map pages ts)) = {}" using Cons.prems(2) by simp
    have "fst ` set (leaves t) \<subseteq> set (pages t)" "fst ` set (concat (map leaves ts)) \<subseteq> set (concat (map pages ts))"
      using leaves_pages by fastforce+
    with disj have "set (map fst (leaves t)) \<inter> set (map fst (concat (map leaves ts))) = {}"
      using disj unfolding set_map by blast
    moreover have "distinct (map fst (concat (map leaves ts)))" using Cons by simp
    moreover have "distinct (map fst (leaves t))" using Cons.prems by simp
    ultimately show ?case by simp
  qed simp
qed simp

lemma pair_under_frame:
  assumes t: "tree_in s N n (plug (f # fs) (Lf i es))" and fo: "frames_ordered (f # fs)"
    and lo: "leaf_ordered (place_lo (f # fs)) (Some k) L" "leaf_ordered (Some k) (place_hi (f # fs)) R"
      "above (place_lo (f # fs)) k" "below (place_hi (f # fs)) k"
    and pair: "leaf_pair (tx_keyType s) N N' (word_of_nat (fr_page f)) i L n R"
    and parent: "N' (fr_page f) = Some parent'" "node_fits (tx_keyType s) parent'" "\<not> bn_isLeaf parent'" "bn_parentPageID parent' = place_parent fs"
      "bn_keys parent' = fr_ksL f @ k # fr_ksR f" "bn_children parent' = map (\<lambda>t. word_of_nat (bt_page t)) (fr_tsL f)
        @ word_of_nat i # word_of_nat n # map (\<lambda>t. word_of_nat (bt_page t)) (fr_tsR f)"
    and others: "\<And>j. j \<noteq> i \<Longrightarrow> j \<noteq> n \<Longrightarrow> j \<noteq> fr_page f \<Longrightarrow> relinked N N' j"
    and s': "node_store s' N' (n + 1)" "tx_keyType s' = tx_keyType s" "tx_meta s' = (tx_meta s)\<lparr>bm_nextPageID := word_of_nat (n + 1)\<rparr>"
    and ne: "\<forall>e \<in> set (L @ R). snd e \<noteq> []"
  shows "tree_in s' N' (n + 1) (plug (frame_with f k (Lf n R) # fs) (Lf i L))"
proof -
  let ?p = "fr_page f" and ?f = "frame_with f k (Lf n R)" and ?t = "plug (f # fs) (Lf i es)"
  let ?t' = "plug (?f # fs) (Lf i L)"
  have pg: "distinct (pages ?t)" "set (pages ?t) \<subseteq> {1..<n}" using t by (simp_all add: tree_in_def)
  have n: "n \<notin> set (pages ?t)" using pg(2) by auto
  have dj: "i \<notin> set (frames_pages (f # fs))" "distinct (frames_pages (f # fs))" using pg(1) by (simp_all add: pages_frame del: plug.simps(2) frames_pages.simps)
  have nf: "n \<notin> set (frames_pages (f # fs))" using n by (simp add: pages_frame del: plug.simps(2) frames_pages.simps)
  have old: "frame_stored (tx_keyType s) N (place_parent fs) f i" "frames_stored (tx_keyType s) N fs ?p"
    using t stored_plug [of "tx_keyType s" N "f # fs" "Lf i es"] by (simp_all add: tree_in_def)
  have rel: "relinked N N' j" if "j \<in> set (frames_pages (f # fs)) - {?p}" for j
    by (rule others) (use dj(1) nf that in \<open>metis DiffD1 DiffD2 singletonI\<close>)+
  have above: "frames_stored (tx_keyType s) N' fs ?p"
    by (rule frames_stored_relinked [OF old(2)], rule ballI, rule rel) (use dj(2) in auto)
  have kids: "stored (tx_keyType s) N' (word_of_nat ?p) t'" if "t' \<in> set (fr_tsL f) \<union> set (fr_tsR f)" for t'
  proof (rule stored_relinked)
    show "stored (tx_keyType s) N (word_of_nat ?p) t'" using old(1) that by (simp add: frame_stored_def)
    show "\<forall>j \<in> set (pages t'). relinked N N' j" by (rule ballI, rule rel) (use that dj(2) in auto)
  qed
  have pp: "stored (tx_keyType s) N' (word_of_nat ?p) (Lf i L)" "stored (tx_keyType s) N' (word_of_nat ?p) (Lf n R)"
    using pair by (simp_all add: leaf_pair_def del: stored.simps)
  have "frame_stored (tx_keyType s) N' (place_parent fs) ?f i"
    unfolding frame_stored_def
    by (rule conjI, rule exI [of _ parent']) (use parent kids pp(2) in \<open>auto simp: frame_with_def simp del: stored.simps\<close>)
  then have st: "stored (tx_keyType s) N' (-1) ?t'"
    using above pp(1) stored_plug [of "tx_keyType s" N' "?f # fs" "Lf i L"] by (simp add: frame_with_def del: stored.simps plug.simps(2))
  have lv: "leaves ?t = left_of leaves (f # fs) @ (i, es) # right_of leaves (f # fs)" by (simp add: leaves_plug del: plug.simps(2))
  have right: "same_right N N' j" if j: "j \<in> fst ` set (leaves ?t)" "j \<noteq> i" for j
  proof (rule relinked_right, rule others)
    show "j \<noteq> i" by (rule j(2))
    show "j \<noteq> n" using j(1) n leaves_pages [of _ ?t] by auto
    show "j \<noteq> ?p"
    proof
      assume "j = ?p"
      moreover obtain x where x: "x \<in> set (leaves ?t)" "j = fst x" using j(1) by blast
      moreover have "(j, snd x) \<in> set (leaves ?t)" using x by (simp only: prod.collapse)
      moreover have "stored (tx_keyType s) N (-1) ?t" using t by (simp add: tree_in_def)
      ultimately have "\<exists>node. N ?p = Some node \<and> bn_isLeaf node" using stored_leaf by blast
      then show False using old(1) by (auto simp: frame_stored_def)
    qed
  qed
  have di: "distinct (map fst (leaves ?t))" by (rule leaves_distinct [OF pg(1)])
  have "chained N' (map fst (leaves ?t'))" unfolding plug_frame_with(2)
    by (rule pair_chained [OF pair]) (use t lv right di in \<open>auto simp: tree_in_def simp del: plug.simps(2) left_of.simps right_of.simps\<close>)
  moreover have "ordered None None ?t'"
    by (rule ordered_plug) (use frame_with_ordered [OF fo lo(3,4,2)] lo(1) in simp_all)
  moreover have "distinct (pages ?t')" "set (pages ?t') \<subseteq> {1..<n+1}"
  proof -
    have m: "mset (pages ?t') = mset (n # pages ?t)" using plug_frame_with(3) by simp
    show "distinct (pages ?t')" using mset_eq_imp_distinct_iff [OF m] pg(1) n by simp
    have "bt_page ?t \<in> {1..<n}" by (rule subsetD [OF pg(2) bt_page_in])
    then have "n > 0" by simp
    then show "set (pages ?t') \<subseteq> {1..<n+1}" using mset_eq_setD [OF m] pg(2) by auto
  qed
  moreover have "bt_page ?t' = bt_page ?t"
    using bt_page_plug [of "fill ?f (Lf i L)" "fill f (Lf i es)" fs] by (simp add: fill_def frame_with_def)
  moreover have "fst (hd (leaves ?t')) = fst (hd (leaves ?t))" unfolding plug_frame_with(2) lv by (simp add: hd_append)
  moreover have "\<forall>e \<in> set (entries ?t'). snd e \<noteq> []"
    unfolding plug_frame_with(1) using t ne by (auto simp: tree_in_def entries_plug simp del: plug.simps(2))
  ultimately show ?thesis using st s' t unfolding tree_in_def by simp
qed

section \<open>A new root\<close>

lemma btree_writeMeta_ok:
  assumes st: "node_store s N n"
  obtains s' where "btree_writeMeta s = (Ok (), s')" and "node_store s' N n" and "tx_works s s'"
proof -
  let ?F = "bi_fileID (tx_idx s)"
  obtain m buf where m: "file_pages ?F (tx_pool s) m n" "m 0 = Some buf" "n < 2 ^ 31"
      "\<forall>i node. N i = Some node \<longrightarrow> 0 < i \<and> bn_pageID node = word_of_nat i \<and> (\<exists>buf. m i = Some buf \<and> node_page (tx_keyType s) buf node)"
    using st unfolding node_store_def by blast
  obtain s1 where s1: "btree_get (int 0) s = (Ok \<lparr>hp_pageID = int 0, hp_buf = buf\<rparr>, s1)"
      "file_pages (bi_fileID (tx_idx s1)) (tx_pool s1) m n" "tx_works s s1"
    using btree_get_page [OF m(1,2)] by metis
  have id1: "tx_idx s1 = tx_idx s" using s1(3) by (simp add: tx_works_def)
  obtain buf' where buf': "put_fields (btree_meta_fields (tx_meta s)) buf = Ok buf'" "valid_buf buf'"
    using put_fields_valid [OF file_pagesD(6) [OF m(1,2)], of "btree_meta_fields (tx_meta s)"] by (auto simp: btree_meta_fields_def btree_consts)
  have "m 0 \<noteq> None \<or> bp_lookup (tx_pool s1) (page_at ?F 0) \<noteq> None" using m(2) by simp
  then obtain b2 where b2: "UpdatePage (page_at ?F 0) (Some \<lparr>hp_pageID = int 0, hp_buf = buf'\<rparr>) (tx_pool s1) = (Ok (), b2)"
      "file_pages ?F b2 (m(0 \<mapsto> buf')) n" "runs_on ?F (tx_pool s1) b2"
    by (rule update_page [OF s1(2) [unfolded id1] file_pagesD(3) [OF m(1,2)] _ buf'(2)])
  have "btree_writeMeta s = (Ok (), s1\<lparr>tx_pool := b2\<rparr>)"
    using s1(1) buf'(1) b2(1) id1
    by (simp add: btree_writeMeta_def seq_def btree_put_def tx_on_def btree_key_def lift_result_def)
  moreover have "node_store (s1\<lparr>tx_pool := b2\<rparr>) N n"
    unfolding node_store_def using m(3,4) b2(2) id1 by (intro conjI exI [of _ "m(0 \<mapsto> buf')"]) auto
  moreover have "tx_works s (s1\<lparr>tx_pool := b2\<rparr>)"
    using s1(3) b2(3) id1 by (auto simp: tx_works_def intro: runs_on_trans)
  ultimately show thesis using that by blast
qed

lemma createNewRoot_ok:
  assumes st: "node_store s N n" and nodes: "N i = Some left" "N j = Some right"
    and fits: "node_fits (tx_keyType s) left" "node_fits (tx_keyType s) right"
    and key: "key_ok (tx_keyType s) key" and ty: "ty_name (tx_keyType s) = ''INT64''"
    and next_id: "bm_nextPageID (tx_meta s) = word_of_nat n" and room: "n + 1 < 2 ^ 31" and ij: "i \<noteq> j"
  obtains s' root where "createNewRoot left key right s = (Ok (), s')" and "tx_moves s s'"
    and "root = \<lparr>bn_pageID = word_of_nat n, bn_isLeaf = False, bn_parentPageID = -1, bn_leftSibPageID = -1,
       bn_rightSibPageID = -1, bn_keys = [key], bn_values = [], bn_children = [word_of_nat i, word_of_nat j]\<rparr>"
    and "node_fits (tx_keyType s) root"
    and "node_store s' (N(n \<mapsto> root, i \<mapsto> left\<lparr>bn_parentPageID := word_of_nat n\<rparr>, j \<mapsto> right\<lparr>bn_parentPageID := word_of_nat n\<rparr>)) (n + 1)"
    and "tx_meta s' = (tx_meta s)\<lparr>bm_rootPageID := word_of_nat n, bm_height := bm_height (tx_meta s) + 1, bm_nextPageID := word_of_nat (n + 1)\<rparr>"
proof -
  let ?F = "bi_fileID (tx_idx s)"
  let ?left = "left\<lparr>bn_parentPageID := word_of_nat n\<rparr>" and ?right = "right\<lparr>bn_parentPageID := word_of_nat n\<rparr>"
  define root where "root = \<lparr>bn_pageID = word_of_nat n, bn_isLeaf = False, bn_parentPageID = -1, bn_leftSibPageID = -1,
       bn_rightSibPageID = -1, bn_keys = [key], bn_values = [], bn_children = [word_of_nat i, word_of_nat j]\<rparr>"
  have pids: "bn_pageID left = word_of_nat i" "bn_pageID right = word_of_nat j" "0 < i" "i < n" "j < n"
    using st nodes by (auto simp: node_store_def dest: file_pagesD(3))
  have root: "node_fits (tx_keyType s) root" by (rule inner_fits [OF ty]) (use key in \<open>simp_all add: root_def\<close>)
  obtain s1 where s1: "alloc_node s = (Ok (word_of_nat n), s1)" "node_fresh s1 N n" "tx_moves s s1"
      "tx_meta s1 = (tx_meta s)\<lparr>bm_nextPageID := word_of_nat (n + 1)\<rparr>"
    using alloc_node_ok [OF st next_id room] by metis
  have id1: "bi_fileID (tx_idx s1) = ?F" "tx_keyType s1 = tx_keyType s" using tx_moves_idx [OF s1(3)] by auto
  obtain buf where buf: "buffered (bi_fileID (tx_idx s1)) (tx_pool s1) n buf" "valid_buf buf"
    using s1(2) unfolding node_fresh_def by auto
  obtain s2 where s2: "writeNode root s1 = (Ok (), s2)" "node_store s2 (N(n \<mapsto> root)) (n + 1)" "tx_works s1 s2"
    using writeNode_fresh [OF s1(2) buf, of root] fits_ok [OF root] id1 pids by (auto simp: root_def)
  have id2: "tx_idx s2 = tx_idx s1" using s2(3) by (simp add: tx_works_def)
  have N2: "(N(n \<mapsto> root)) i = Some left" using nodes(1) pids by simp
  have ok2: "node_ok (tx_keyType s2) ?left" "bn_pageID ?left = word_of_nat i" using fits_ok [OF fits(1)] id1 id2 pids by simp_all
  obtain s3 where s3: "writeNode ?left s2 = (Ok (), s3)" "node_store s3 (N(n \<mapsto> root, i \<mapsto> ?left)) (n + 1)" "tx_works s2 s3"
    by (rule writeNode_ok [OF s2(2) N2 ok2])
  have id3: "tx_idx s3 = tx_idx s1" using s3(3) id2 by (simp add: tx_works_def)
  have N3: "(N(n \<mapsto> root, i \<mapsto> ?left)) j = Some right" using nodes(2) pids ij by simp
  have ok3: "node_ok (tx_keyType s3) ?right" "bn_pageID ?right = word_of_nat j" using fits_ok [OF fits(2)] id1 id3 pids by simp_all
  obtain s4 where s4: "writeNode ?right s3 = (Ok (), s4)" "node_store s4 (N(n \<mapsto> root, i \<mapsto> ?left, j \<mapsto> ?right)) (n + 1)" "tx_works s3 s4"
    by (rule writeNode_ok [OF s3(2) N3 ok3])
  have id4: "tx_idx s4 = tx_idx s1" using s4(3) id3 by (simp add: tx_works_def)
  let ?meta = "(tx_meta s1)\<lparr>bm_rootPageID := word_of_nat n, bm_height := bm_height (tx_meta s1) + 1\<rparr>"
  let ?s5 = "s4\<lparr>tx_idx := (tx_idx s4)\<lparr>bi_meta := ?meta\<rparr>\<rparr>"
  have "node_store ?s5 (N(n \<mapsto> root, i \<mapsto> ?left, j \<mapsto> ?right)) (n + 1)" using s4(2) by (simp add: node_store_def)
  then obtain s6 where s6: "btree_writeMeta ?s5 = (Ok (), s6)" "node_store s6 (N(n \<mapsto> root, i \<mapsto> ?left, j \<mapsto> ?right)) (n + 1)" "tx_works ?s5 s6"
    by (rule btree_writeMeta_ok)
  have "createNewRoot left key right s = (Ok (), s6)"
    using s1(1) s2(1) s3(1) s4(1) s6(1) id4 pids
    by (simp add: createNewRoot_def Let_def seq_def set_btreeMeta_def root_def)
  moreover have "tx_moves s s6"
  proof -
    have "tx_moves s4 ?s5" by (auto simp: tx_moves_def)
    then show ?thesis using s1(3) s2(3) s3(3) s4(3) s6(3) tx_works_moves tx_moves_trans by meson
  qed
  moreover have "tx_meta s6 = ?meta" using s6(3) by (simp add: tx_works_def)
  ultimately show thesis using that [OF _ _ root_def root s6(2)] s1(4) by simp
qed

section \<open>Insertion\<close>

text \<open>The tree after the only leaf was split: a root over two leaves.\<close>

lemma pair_under_root:
  assumes t: "tree_in s N n (Lf i es)" and lo: "leaf_ordered None (Some k) L" "leaf_ordered (Some k) None R"
    and pair: "leaf_pair keyType N N' (word_of_nat (n + 1)) i L n R"
    and root: "N' (n + 1) = Some root" "node_fits keyType root" "\<not> bn_isLeaf root" "bn_parentPageID root = -1" "bn_keys root = [k]"
      "bn_children root = [word_of_nat i, word_of_nat n]"
    and s': "node_store s' N' (n + 2)" "tx_keyType s' = keyType" "bm_rootPageID (tx_meta s') = word_of_nat (n + 1)"
      "bm_leftmostLeafID (tx_meta s') = bm_leftmostLeafID (tx_meta s)" "bm_nextPageID (tx_meta s') = word_of_nat (n + 2)"
    and ne: "\<forall>e \<in> set (L @ R). snd e \<noteq> []"
  shows "tree_in s' N' (n + 2) (Nd (n + 1) [k] [Lf i L, Lf n R])"
proof -
  have i: "0 < i" "i < n" using t by (auto simp: tree_in_def)
  have "chained N' (map fst ([] @ (i, L) # (n, R) # []))"
    by (rule pair_chained [OF pair, where es = es]) (use t in \<open>simp_all add: tree_in_def\<close>)
  moreover have "stored keyType N' (-1) (Nd (n + 1) [k] [Lf i L, Lf n R])"
    using pair root by (auto simp: leaf_pair_def simp del: stored.simps(1))
  ultimately show ?thesis using lo s' i ne t by (auto simp: tree_in_def)
qed

lemma frame_keys:
  assumes f: "frame_ordered lo hi f" and k: "above (if fr_ksL f = [] then lo else Some (last (fr_ksL f))) k"
    "below (if fr_ksR f = [] then hi else Some (hd (fr_ksR f))) k"
  shows "sorted (fr_ksL f @ fr_ksR f)" and "\<forall>k' \<in> set (fr_ksL f). k' \<le> k" and "\<forall>k' \<in> set (fr_ksR f). k < k'"
proof -
  have "ordered_seq lo hi (fr_ksL f @ fr_ksR f) (fr_tsL f @ Lf 0 [] # fr_tsR f)"
    using f by (simp add: frame_ordered_def ordered_seq_split leaf_ordered_def)
  then show s: "sorted (fr_ksL f @ fr_ksR f)" by (rule ordered_seq_sorted [THEN conjunct1])
  show "\<forall>k' \<in> set (fr_ksL f). k' \<le> k"
  proof (cases "fr_ksL f" rule: rev_cases)
    case (snoc ks x)
    have "sorted (ks @ x # fr_ksR f)" using s by (simp add: snoc)
    then have "\<forall>y \<in> set ks. y \<le> x" by (simp add: sorted_append)
    moreover have "x \<le> k" using k(1) snoc by simp
    ultimately show ?thesis using snoc by (auto intro: order_trans)
  qed simp
  show "\<forall>k' \<in> set (fr_ksR f). k < k'"
  proof (cases "fr_ksR f")
    case (Cons x ks)
    have "\<forall>y \<in> set ks. x \<le> y" using s by (simp add: Cons sorted_append)
    moreover have "k < x" using k(2) Cons by simp
    ultimately show ?thesis using Cons by (auto intro: less_le_trans)
  qed simp
qed

lemma tx_works_poolSize: "tx_works s s' \<Longrightarrow> node_store s N n \<Longrightarrow> bp_poolSize (tx_pool s') = bp_poolSize (tx_pool s)"
  unfolding tx_works_def node_store_def using runs_on_frame(5) file_pagesD(1) by blast

lemma node_store_page: "node_store s N n \<Longrightarrow> N j = Some node \<Longrightarrow> j < n \<and> bn_pageID node = word_of_nat j"
  by (auto simp: node_store_def dest: file_pagesD(3))

text \<open>After the split of a leaf its parent, or a new root, takes the new leaf.\<close>

lemma split_ok:
  assumes t: "tree_in s N n (plug fs (Lf i es))" and fo: "frames_ordered fs" and leaf: "N i = Some leaf"
    and lo: "leaf_ordered (place_lo fs) (place_hi fs) es'" and keys: "\<forall>k \<in> set (map fst es'). key_ok (tx_keyType s) k"
    and ne: "\<forall>e \<in> set es'. snd e \<noteq> []" and two: "2 \<le> length es'" and body: "leaf_body es' \<le> 8166"
    and ty: "ty_name (tx_keyType s) = ''INT64''" and n: "n < 680"
    and rec: "recent (tx_pool s) (page_at (bi_fileID (tx_idx s)) i)" and pool: "2 \<le> bp_poolSize (tx_pool s)"
  obtains s' n' where "splitLeaf (leaf\<lparr>bn_keys := map fst es', bn_values := map snd es'\<rparr>) path s = (Ok (), s')"
    and "btree_index s' n' (entries (plug fs (Lf i es')))" and "tx_moves s s'" and "n < n'" and "n' \<le> n + 2"
proof -
  let ?mid = "length es' div 2"
  define k where "k = fst (es' ! ?mid)"
  have mid: "0 < ?mid" "?mid < length es'" using two by auto
  note lo' = leaf_ordered_split [OF lo mid(2) k_def]
  have keyk: "key_ok (tx_keyType s) k" using keys mid(2) by (simp add: k_def)
  have st: "node_store s N n" and stored: "stored (tx_keyType s) N (-1) (plug fs (Lf i es))" and di: "distinct (pages (plug fs (Lf i es)))"
    and sub: "set (pages (plug fs (Lf i es))) \<subseteq> {1..<n}" and chain: "chained N (map fst (left_of leaves fs) @ i # map fst (right_of leaves fs))"
    and next_id: "bm_nextPageID (tx_meta s) = word_of_nat n" using t by (simp_all add: tree_in_def leaves_plug)
  have leaf': "node_fits (tx_keyType s) leaf" "bn_isLeaf leaf" "bn_parentPageID leaf = place_parent fs"
      and frames: "frames_stored (tx_keyType s) N fs i" using stored leaf by (simp_all add: stored_plug)
  have pid: "bn_pageID leaf = word_of_nat i" using node_store_page [OF st leaf] by simp
  have fresh: "N n = None" using node_store_page [OF st, of n] by (cases "N n") auto
  have kids: "bn_children leaf = []" using leaf' by (simp add: node_fits_def node_shape_def)
  have sibs: "i \<notin> set (map fst (right_of leaves fs))" using leaves_distinct [OF di] by (simp add: leaves_plug)
  have fit: "node_fits (tx_keyType s) node" if h: "h = take ?mid es' \<or> h = drop ?mid es'" "bn_isLeaf node" "bn_children node = []"
      "bn_keys node = map fst h" "bn_values node = map snd h" for node h
  proof (rule leaf_halves_fit [OF ty _ h(2,4,5,3)])
    show "\<forall>k \<in> set (map fst h). key_ok (tx_keyType s) k" using h(1) keys by (auto dest: in_set_takeD in_set_dropD)
    show "leaf_body h \<le> 8148" using half_bodies [OF ne body mid] h(1) by auto
  qed
  have others: "node_fits (tx_keyType s) node" if j: "j \<in> set (map fst (right_of leaves fs))" "N j = Some node" for j node
  proof -
    obtain es0 where "(j, es0) \<in> set (right_of leaves fs)" using j(1) by auto
    then have "(j, es0) \<in> set (leaves (plug fs (Lf i es)))" by (simp add: leaves_plug)
    then show ?thesis using leaves_stored [OF stored] j(2) by fastforce
  qed
  obtain s1 N1 left right where s1:
    "splitLeaf (leaf\<lparr>bn_keys := map fst es', bn_values := map snd es'\<rparr>) path s = insertIntoParent left k right path s1"
    "node_store s1 N1 (n + 1)" "tx_moves s s1" "tx_meta s1 = (tx_meta s)\<lparr>bm_nextPageID := word_of_nat (n + 1)\<rparr>"
    "N1 i = Some left" "left = leaf\<lparr>bn_keys := map fst (take ?mid es'), bn_values := map snd (take ?mid es'), bn_rightSibPageID := word_of_nat n\<rparr>"
    "N1 n = Some right" "bn_isLeaf right" "bn_pageID right = word_of_nat n" "bn_parentPageID right = bn_parentPageID leaf"
    "bn_keys right = map fst (drop ?mid es')" "bn_values right = map snd (drop ?mid es')" "bn_children right = []"
    "bn_rightSibPageID right = bn_rightSibPageID leaf" "\<And>j. j \<noteq> i \<Longrightarrow> j \<noteq> n \<Longrightarrow> relinked N N1 j"
    unfolding k_def
    by (rule splitLeaf_ok [OF st leaf chain fresh next_id _ rec pool sibs leaf'(2) pid kids fit two others]) (use n in auto)
  have kt: "tx_keyType s1 = tx_keyType s" using tx_moves_idx [OF s1(3)] by simp
  have in_: "0 < i" "i < n" using sub by (simp_all add: pages_frame)
  have fl: "node_fits (tx_keyType s) left" by (rule fit [of "take ?mid es'"]) (simp_all add: s1(6) leaf'(2) kids)
  have fr: "node_fits (tx_keyType s) right" by (rule fit [of "drop ?mid es'"]) (simp_all add: s1)
  have split_es: "take ?mid es' @ drop ?mid es' = es'" by simp
  show thesis
  proof (cases fs)
    case Nil
    have par: "bn_parentPageID left = -1" using leaf'(3) Nil by (simp add: s1(6))
    have ni: "i \<noteq> n" using in_ by simp
    obtain s2 root where s2: "createNewRoot left k right s1 = (Ok (), s2)" "tx_moves s1 s2"
      "root = \<lparr>bn_pageID = word_of_nat (n + 1), bn_isLeaf = False, bn_parentPageID = -1, bn_leftSibPageID = -1,
         bn_rightSibPageID = -1, bn_keys = [k], bn_values = [], bn_children = [word_of_nat i, word_of_nat n]\<rparr>"
      "node_fits (tx_keyType s1) root"
      "node_store s2 (N1(n + 1 \<mapsto> root, i \<mapsto> left\<lparr>bn_parentPageID := word_of_nat (n + 1)\<rparr>, n \<mapsto> right\<lparr>bn_parentPageID := word_of_nat (n + 1)\<rparr>)) (n + 1 + 1)"
      "tx_meta s2 = (tx_meta s1)\<lparr>bm_rootPageID := word_of_nat (n + 1), bm_height := bm_height (tx_meta s1) + 1, bm_nextPageID := word_of_nat (n + 1 + 1)\<rparr>"
      by (rule createNewRoot_ok [OF s1(2,5,7) fl [folded kt] fr [folded kt] keyk [folded kt] ty [folded kt] _ _ ni]) (use s1(4) n in simp_all)
    let ?N = "N1(n + 1 \<mapsto> root, i \<mapsto> left\<lparr>bn_parentPageID := word_of_nat (n + 1)\<rparr>, n \<mapsto> right\<lparr>bn_parentPageID := word_of_nat (n + 1)\<rparr>)"
    have run: "splitLeaf (leaf\<lparr>bn_keys := map fst es', bn_values := map snd es'\<rparr>) path s = (Ok (), s2)"
      using s1(1) s2(1) par by (simp add: insertIntoParent.simps)
    have pair: "leaf_pair (tx_keyType s1) N ?N (word_of_nat (n + 1)) i (take ?mid es') n (drop ?mid es')"
      using fl fr kt in_ leaf'(2) s1(6,8,11,12,14) leaf by (simp add: leaf_pair_def same_right_def)
    have "tree_in s2 ?N (n + 2) (Nd (n + 1) [k] [Lf i (take ?mid es'), Lf n (drop ?mid es')])"
    proof (rule pair_under_root [OF t [unfolded Nil plug.simps] _ _ pair, where root = root])
      show "tx_keyType s2 = tx_keyType s1" using tx_moves_idx [OF s2(2)] by simp
    qed (use lo'(1,2) Nil in_ s2 s1(4) ne in \<open>simp_all del: set_append add: split_es\<close>)
    moreover have "entries (Nd (n + 1) [k] [Lf i (take ?mid es'), Lf n (drop ?mid es')]) = entries (plug fs (Lf i es'))"
      using Nil by simp
    ultimately have "btree_index s2 (n + 2) (entries (plug fs (Lf i es')))" unfolding btree_index_def by blast
    then show thesis using that run tx_moves_trans [OF s1(3) s2(2)] by simp
  next
    case (Cons f fs')
    let ?p = "fr_page f"
    have dp: "?p \<noteq> i" "?p \<noteq> n" "?p < n" using di sub Cons by (auto simp: pages_frame simp del: plug.simps(2))
    obtain parent where parent: "N ?p = Some parent" "node_fits (tx_keyType s) parent" "\<not> bn_isLeaf parent" "bn_parentPageID parent = place_parent fs'"
        "bn_keys parent = fr_ksL f @ fr_ksR f" "bn_children parent = map (\<lambda>t. word_of_nat (bt_page t)) (fr_tsL f) @ word_of_nat i # map (\<lambda>t. word_of_nat (bt_page t)) (fr_tsR f)"
      using frames Cons by (auto simp: frame_stored_def)
    obtain x where p1: "N1 ?p = Some (parent\<lparr>bn_leftSibPageID := x\<rparr>)" using relinkedE [OF s1(15) parent(1)] dp by metis
    let ?parent = "parent\<lparr>bn_leftSibPageID := x\<rparr>"
    have fo': "frame_ordered (place_lo fs') (place_hi fs') f" using fo Cons by simp
    have len: "length (fr_tsL f) = length (fr_ksL f)" using fo' by (simp add: frame_ordered_def)
    note pk = frame_keys [OF fo' lo'(3,4) [unfolded Cons place_bounds.simps fst_conv snd_conv]]
    have ks: "\<forall>k \<in> set (fr_ksL f @ fr_ksR f). key_ok (tx_keyType s) k" using parent(2,5) by (simp add: node_fits_def node_shape_def)
    define parent' where "parent' = ?parent\<lparr>bn_keys := fr_ksL f @ k # fr_ksR f, bn_children := map (\<lambda>t. word_of_nat (bt_page t)) (fr_tsL f)
       @ word_of_nat i # word_of_nat n # map (\<lambda>t. word_of_nat (bt_page t)) (fr_tsR f)\<rparr>"
    have new: "parent_with (tx_keyType s1) ?parent k (word_of_nat n) = Ok parent'"
      unfolding parent'_def by (rule parent_with_ok) (use parent(5,6) ks kt keyk pk len in simp_all)
    have fp: "node_fits (tx_keyType s1) parent'"
    proof (rule inner_fits [OF ty [folded kt]])
      have "length (pages (plug fs (Lf i es))) < n" using pages_count [OF di sub] in_ by simp
      then have "length (frames_pages (f # fs')) + 1 < n" by (simp add: pages_frame Cons del: plug.simps(2) frames_pages.simps)
      then show "length (bn_children parent') \<le> 678"
        using pages_length [of "fr_tsL f"] pages_length [of "fr_tsR f"] n by (simp add: parent'_def)
    qed (use parent(2,3,5) ks kt keyk len fo' seq_right_length in \<open>auto simp: parent'_def node_fits_def node_shape_def frame_ordered_def\<close>)
    have pl: "word_of_nat ?p = bn_parentPageID left" "bn_parentPageID right = bn_parentPageID left"
      using leaf'(3) Cons by (simp_all add: s1(6,10))
    obtain s2 where s2: "insertIntoParent left k right path s1 = (Ok (), s2)" "node_store s2 (N1(?p \<mapsto> parent')) (n + 1)" "tx_works s1 s2"
      by (rule insertIntoParent_ok [OF s1(2) p1 pl s1(7) fr [folded kt] _ new fp])
        (use dp in \<open>simp_all add: parent'_def\<close>)
    let ?N = "N1(?p \<mapsto> parent')"
    have pair: "leaf_pair (tx_keyType s) N ?N (word_of_nat ?p) i (take ?mid es') n (drop ?mid es')"
      using fl fr in_ dp leaf' Cons s1(5-14) leaf by (simp add: leaf_pair_def same_right_def)
    have "tree_in s2 ?N (n + 1) (plug (frame_with f k (Lf n (drop ?mid es')) # fs') (Lf i (take ?mid es')))"
    proof (rule pair_under_frame [OF t [unfolded Cons] fo [unfolded Cons] _ _ _ _ pair, where parent' = parent'])
      show "relinked N ?N j" if "j \<noteq> i" "j \<noteq> n" "j \<noteq> ?p" for j using s1(15) [OF that(1,2)] that(3) by simp
      show "tx_keyType s2 = tx_keyType s" "tx_meta s2 = (tx_meta s)\<lparr>bm_nextPageID := word_of_nat (n + 1)\<rparr>"
        using s2(3) kt s1(4) by (simp_all add: tx_works_def)
      show "\<forall>e \<in> set (take ?mid es' @ drop ?mid es'). snd e \<noteq> []" using ne split_es by simp
    qed (use lo' Cons s2(2) fp kt parent(3,4) in \<open>simp_all add: parent'_def\<close>)
    then have "btree_index s2 (n + 1) (entries (plug fs (Lf i es')))" unfolding btree_index_def Cons
      using plug_frame_with(1) [of f k n "drop ?mid es'" fs' i "take ?mid es'"] split_es by metis
    then show thesis using that [OF _ _ tx_moves_trans [OF s1(3) tx_works_moves [OF s2(3)]]] s1(1) s2(1) by simp
  qed
qed

lemma add_tid_short:
  assumes "\<not> 2 \<le> length (add_tid es key tid)"
  shows "leaf_body (add_tid es key tid) = 18 + 6 * length (lookup_tids es key)"
proof (cases es)
  case (Cons e es0)
  obtain k tids where e: "e = (k, tids)" by (cases e)
  have "add_tid es0 key tid \<noteq> []" by (induction es0 key tid rule: add_tid.induct) auto
  then have "es0 = [] \<and> k = key" using assms Cons e by (cases es0; cases "add_tid es0 key tid") (auto split: if_splits)
  then show ?thesis using Cons e by (simp add: lookup_tids_def)
qed (simp add: lookup_tids_def)

lemma btree_Insert_ok:
  assumes b: "btree_index s n E" and key: "key_ok (tx_keyType s) key" and ty: "ty_name (tx_keyType s) = ''INT64''"
    and lru: "lru_pool (tx_pool s)" and pool: "2 \<le> bp_poolSize (tx_pool s)" and n: "n < 680"
    and dup: "length (lookup_tids E key) < 1356"
  obtains s' n' where "btree_Insert key tid s = Some (Ok (), s')" and "btree_index s' n' (add_tid E key tid)" and "tx_moves s s'"
    and "n \<le> n'" and "n' \<le> n + 2"
proof -
  obtain N t where t: "tree_in s N n t" "entries t = E" using b by (auto simp: btree_index_def)
  obtain fs i es leaf path s1 where f: "findLeaf key s = Some (Ok (leaf, path), s1)" "tree_in s1 N n t" "tx_works s s1"
      "at_leaf_of t key fs i es" "N i = Some leaf" "recent (tx_pool s1) (page_at (bi_fileID (tx_idx s)) i)"
    using findLeaf_ok [OF t(1) key, of thesis] lru by metis
  note l = leaf_node [OF f(2,4,5)]
  have kt: "tx_idx s1 = tx_idx s" using f(3) by (simp add: tx_works_def)
  have tf: "t = plug fs (Lf i es)" "frames_ordered fs" "leaf_ordered (place_lo fs) (place_hi fs) es"
      "above (place_lo fs) key" "below (place_hi fs) key" using f(4) by (simp_all add: at_leaf_of_def)
  define es' where "es' = add_tid es key tid"
  have E: "entries (plug fs (Lf i es')) = add_tid E key tid"
  proof -
    have "E = left_of entries fs @ es @ right_of entries fs" using t(2) tf(1) by (simp add: entries_plug)
    moreover have "fst e < key" if "e \<in> set (left_of entries fs)" for e using left_entries [OF tf(2) that] tf(4) by fastforce
    moreover have "key < fst e" if "e \<in> set (right_of entries fs)" for e using right_entries [OF tf(2) that] tf(5) by fastforce
    ultimately show ?thesis by (simp add: entries_plug es'_def add_tid_left add_tid_right)
  qed
  have es': "leaf_ordered (place_lo fs) (place_hi fs) es'" "\<forall>k \<in> set (map fst es'). key_ok (tx_keyType s1) k" "\<forall>e \<in> set es'. snd e \<noteq> []"
    unfolding es'_def
    using leaf_ordered_add [OF tf(3,4,5)] l(4) key kt add_tid_keys [of es key tid] add_tid_nonempty [of es key tid] f(2) tf(1)
    by (auto simp: tree_in_def entries_plug)
  have ins: "insertIntoLeaf (tx_keyType s1) leaf key tid = Ok (leaf\<lparr>bn_keys := map fst es', bn_values := map snd es'\<rparr>)" (is "_ = Ok ?leaf")
    unfolding es'_def by (rule insertIntoLeaf_ok [OF l(2,3,4) _ l(6)]) (use key kt in simp)
  have fits: "node_fits (tx_keyType s1) leaf" and kids: "bn_children leaf = []" using l(1,7) by (auto simp: node_fits_def node_shape_def)
  have body: "leaf_body es' \<le> leaf_body es + 18" "leaf_body es \<le> 8148"
    using leaf_body_add [of es key tid] leaf_size [OF _ l(4,1,2,3)] ty kt fits
    by (simp_all add: es'_def node_fits_def btree_consts PageSize_def)
  have size': "node_size ?leaf = 34 + leaf_body es'" by (rule leaf_size [OF _ es'(2)]) (use ty kt l(1) in simp_all)
  have shape: "node_shape (tx_keyType s1) ?leaf" using es'(2) l(1) kids by (simp add: node_shape_def)
  have run: "btree_Insert key tid s = once (if node_size ?leaf \<le> btreePageCapacity then writeNode ?leaf else splitLeaf ?leaf path) s1"
    using f(1) ins estimateSize_ok [OF shape] by (simp add: btree_Insert_def oseq_def once_def seq_def lift_result_def)
  show thesis
  proof (cases "node_size ?leaf \<le> btreePageCapacity")
    case True
    then have nf: "node_fits (tx_keyType s1) ?leaf" using shape by (simp add: node_fits_def)
    have st: "node_store s1 N n" using f(2) by (simp add: tree_in_def)
    obtain s2 where s2: "writeNode ?leaf s1 = (Ok (), s2)" "node_store s2 (N(i \<mapsto> ?leaf)) n" "tx_works s1 s2"
      using writeNode_ok [OF st f(5) fits_ok [OF nf]] l(5) by auto
    have "tree_in s2 (N(i \<mapsto> ?leaf)) n (plug fs (Lf i es'))"
      by (rule leaf_replaced [OF f(2) [unfolded tf(1)] tf(2) f(5) es'(1) refl nf s2(2,3) es'(3)])
    then have "btree_index s2 n (add_tid E key tid)" using E by (auto simp: btree_index_def)
    then show thesis using that [of s2 n] run True s2(1) tx_works_moves [OF tx_works_trans [OF f(3) s2(3)]] by (simp add: once_def)
  next
    case False
    then have full: "8148 < leaf_body es'" using size' by (simp add: btree_consts PageSize_def)
    have two: "2 \<le> length es'"
    proof (rule ccontr)
      assume "\<not> 2 \<le> length es'"
      moreover have "lookup_tids E key = lookup_tids es key" using at_leaf_lookup [OF f(4)] t(2) by simp
      ultimately show False using full dup add_tid_short [of es key tid] by (simp add: es'_def)
    qed
    have pool1: "bp_poolSize (tx_pool s1) = bp_poolSize (tx_pool s)"
      using tx_works_poolSize [OF f(3), of N n] t(1) by (simp add: tree_in_def)
    obtain s2 n' where s2: "splitLeaf ?leaf path s1 = (Ok (), s2)" "btree_index s2 n' (add_tid E key tid)" "tx_moves s1 s2" "n < n'" "n' \<le> n + 2"
      by (rule split_ok [OF f(2) [unfolded tf(1)] tf(2) f(5) es' two _ _ n, of path]) (use body ty kt f(6) pool pool1 E in simp_all)
    then show thesis using that [OF _ s2(2)] run False tx_moves_trans [OF tx_works_moves [OF f(3)] s2(3)] by (simp add: once_def)
  qed
qed

end
