(* ===== verification/BTreeCreate.thy ===== *)
theory BTreeCreate
  imports BTreeInsert HashCreate
begin

text \<open>
  A new B-tree index, and the promises of the B-tree index: a new one is empty, an insertion adds the tuple id
  to its key, a search returns the tuple ids of the key and a range search those of the range in key order.
\<close>

section \<open>A new index\<close>

definition new_btree :: "string \<Rightarrow> IndexDefinition \<Rightarrow> TypeDefinition \<Rightarrow> DiskBTreeIndex" where
  "new_btree root def keyType = \<lparr>bi_root = root, bi_def = def, bi_fileID = ix_fileNode def, bi_keyType = keyType, bi_meta = no_btreeMeta\<rparr>"

lemma btree_initializeNew_ok:
  assumes f: "file_pages (bi_fileID (tx_idx s)) (tx_pool s) Map.empty 0" and r: "resident (bi_fileID (tx_idx s)) (tx_pool s) 0 c 2"
  obtains s' where "btree_initializeNew s = (Ok (), s')" and "btree_index s' 2 []" and "tx_moves s s'"
proof -
  let ?F = "bi_fileID (tx_idx s)"
  define meta where "meta = \<lparr>bm_rootPageID = 1, bm_height = 1, bm_leftmostLeafID = 1, bm_nextPageID = (2 :: int32)\<rparr>"
  define leaf where "leaf = \<lparr>bn_pageID = (1 :: int32), bn_isLeaf = True, bn_parentPageID = -1, bn_leftSibPageID = -1, bn_rightSibPageID = -1,
       bn_keys = [], bn_values = [], bn_children = []\<rparr>"
  obtain p0 where p0: "NewHeapPage (int 0) = Ok p0" "page_inv p0" "hp_pageID p0 = int 0" using NewHeapPage_ok [of "int 0"] by blast
  obtain p1 where p1: "NewHeapPage (int 1) = Ok p1" "page_inv p1" "hp_pageID p1 = int 1" using NewHeapPage_ok [of "int 1"] by blast
  have two: "(0::nat) < 2" "(1::nat) < 2" by simp_all
  note v = page_inv_valid_buf [OF p0(2)] page_inv_valid_buf [OF p1(2)]
  have pe: "p0 = \<lparr>hp_pageID = int 0, hp_buf = hp_buf p0\<rparr>" "p1 = \<lparr>hp_pageID = int 1, hp_buf = hp_buf p1\<rparr>" using p0(3) p1(3) by simp_all
  obtain sl0 b0 where b0: "NewPage (page_at ?F 0) (Some p0) (tx_pool s) = (Ok sl0, b0)" "file_pages ?F b0 Map.empty 1"
      "resident ?F b0 1 (c(0 := hp_buf p0)) 1" "runs_on ?F (tx_pool s) b0"
    using resident_new [OF f r [unfolded numeral_2_eq_2] v(1)] pe(1) by (metis One_nat_def add_0)
  obtain sl1 b1 where b1: "NewPage (page_at ?F 1) (Some p1) b0 = (Ok sl1, b1)" "file_pages ?F b1 Map.empty 2"
      "resident ?F b1 2 (c(0 := hp_buf p0, 1 := hp_buf p1)) 0" "runs_on ?F b0 b1"
    using resident_new [OF b0(2,3) [unfolded One_nat_def] v(2)] pe(2) by (auto simp: numeral_2_eq_2)
  let ?c = "c(0 := hp_buf p0, 1 := hp_buf p1)"
  obtain b2 where b2: "seq (GetPage (page_at ?F 1)) slot_Page b1 = (Ok \<lparr>hp_pageID = int 1, hp_buf = ?c 1\<rparr>, b2)"
      "file_pages ?F b2 Map.empty 2" "resident ?F b2 2 ?c 0" "runs_on ?F b1 b2"
    by (rule resident_get [OF b1(2,3) two(2)])
  have "node_ok (tx_keyType s) leaf" by (simp add: leaf_def node_ok_def node_shape_def node_size_def body_bytes_def)
  then obtain buf1 where buf1: "print_node (tx_keyType s) leaf (hp_buf p1) = Ok buf1" "node_page (tx_keyType s) buf1 leaf"
    using print_node_ok v(2) by blast
  have v1: "valid_buf buf1" using buf1(2) by (simp add: node_page_def)
  obtain b3 where b3: "UpdatePage (page_at ?F 1) (Some \<lparr>hp_pageID = int 1, hp_buf = buf1\<rparr>) b2 = (Ok (), b3)"
      "file_pages ?F b3 [1 \<mapsto> buf1] 2" "resident ?F b3 2 (?c(1 := buf1)) 0" "runs_on ?F b2 b3"
    by (rule resident_update [OF b2(2,3) two(2) v1])
  obtain b4 where b4: "seq (GetPage (page_at ?F 0)) slot_Page b3 = (Ok \<lparr>hp_pageID = int 0, hp_buf = (?c(1 := buf1)) 0\<rparr>, b4)"
      "file_pages ?F b4 [1 \<mapsto> buf1] 2" "resident ?F b4 2 (?c(1 := buf1)) 0" "runs_on ?F b3 b4"
    by (rule resident_get [OF b3(2,3) two(1)])
  obtain buf0 where buf0: "put_fields (btree_meta_fields meta) (hp_buf p0) = Ok buf0" "valid_buf buf0"
    using put_fields_valid [OF v(1), of "btree_meta_fields meta"] by (auto simp: btree_meta_fields_def btree_consts)
  obtain b5 where b5: "UpdatePage (page_at ?F 0) (Some \<lparr>hp_pageID = int 0, hp_buf = buf0\<rparr>) b4 = (Ok (), b5)"
      "file_pages ?F b5 [1 \<mapsto> buf1, 0 \<mapsto> buf0] 2" "runs_on ?F b4 b5"
    by (rule resident_update [OF b4(2,3) two(1) buf0(2)])
  let ?s = "\<lparr>tx_pool = b5, tx_idx = (tx_idx s)\<lparr>bi_meta := meta\<rparr>\<rparr>"
  let ?I = "(tx_idx s)\<lparr>bi_meta := meta\<rparr>"
  have lp: "bn_pageID leaf = 1" by (simp add: leaf_def)
  have w: "writeNode leaf \<lparr>tx_pool = b1, tx_idx = ?I\<rparr> = (Ok (), \<lparr>tx_pool = b3, tx_idx = ?I\<rparr>)"
    using b2(1) b3(1) buf1(1) lp
    by (simp add: writeNode_def seq_def btree_get_def btree_put_def tx_on_def btree_key_def lift_result_def)
  have m: "btree_writeMeta \<lparr>tx_pool = b3, tx_idx = ?I\<rparr> = (Ok (), ?s)"
    using b4(1) b5(1) buf0(1)
    by (simp add: btree_writeMeta_def seq_def btree_get_def btree_put_def tx_on_def btree_key_def lift_result_def)
  have a: "tx_on (NewPage (btree_key (tx_idx s) 0) (Some p0)) s = (Ok sl0, \<lparr>tx_pool = b0, tx_idx = tx_idx s\<rparr>)"
    "tx_on (NewPage (btree_key (tx_idx s) 1) (Some p1)) \<lparr>tx_pool = b0, tx_idx = tx_idx s\<rparr> = (Ok sl1, \<lparr>tx_pool = b1, tx_idx = tx_idx s\<rparr>)"
    using b0(1) b1(1) by (cases s; simp add: tx_on_def btree_key_def)+
  have "btree_initializeNew s = (Ok (), ?s)"
    using p0(1) p1(1) a w m unfolding btree_initializeNew_def meta_def [symmetric] leaf_def [symmetric]
    by (simp add: seq_def lift_result_def set_btreeMeta_def)
  moreover have "btree_index ?s 2 []"
  proof -
    have "node_store ?s [1 \<mapsto> leaf] 2"
      unfolding node_store_def using b5(2) buf1(2) by (auto simp: leaf_def intro!: exI [of _ "[1 \<mapsto> buf1, 0 \<mapsto> buf0]"])
    moreover have "stored (tx_keyType s) [1 \<mapsto> leaf] (-1) (Lf 1 [])"
      by (simp add: leaf_def node_fits_def node_shape_def node_size_def body_bytes_def btree_consts PageSize_def)
    ultimately have "tree_in ?s [1 \<mapsto> leaf] 2 (Lf 1 [])"
      by (simp add: tree_in_def meta_def leaf_ordered_def) (simp add: leaf_def)
    then show ?thesis unfolding btree_index_def by (intro exI [of _ "[1 \<mapsto> leaf]"] exI [of _ "Lf 1 []"]) simp
  qed
  moreover have "tx_moves s ?s"
  proof -
    have "runs_on ?F (tx_pool s) b5" using b0(4) b1(4) b2(4) b3(4) b4(4) b5(3) by (meson runs_on_trans)
    then show ?thesis by (auto simp: tx_moves_def)
  qed
  ultimately show thesis using that by blast
qed

lemma NewDiskBTreeIndex_creates:
  assumes "ix_indexType def = IndexTypeBTree" and "GetTypeByOid (ix_keyTypeOid def) c = Ok (Some keyType)"
    and "fresh_file (ix_fileNode def) 2 b" and "fs_files (bp_disk b) (path_Join root (ix_fileNode def)) = None"
  shows "\<exists>idx b'. NewDiskBTreeIndex root c def b = (Ok idx, b') \<and> btree_index \<lparr>tx_pool = b', tx_idx = idx\<rparr> 2 []
    \<and> bi_keyType idx = keyType \<and> bi_fileID idx = ix_fileNode def \<and> runs_on (ix_fileNode def) b b'"
proof -
  let ?s = "\<lparr>tx_pool = b, tx_idx = new_btree root def keyType\<rparr>"
  have F: "bi_fileID (tx_idx ?s) = ix_fileNode def" by (simp add: new_btree_def)
  have "file_pages (ix_fileNode def) b Map.empty 0" "resident (ix_fileNode def) b 0 c0 2" for c0
    using assms(3) by (simp_all add: file_pages_def fresh_file_def resident_def)
  then obtain s' where s': "btree_initializeNew ?s = (Ok (), s')" "btree_index s' 2 []" "tx_moves ?s s'"
    using btree_initializeNew_ok [of ?s] F by (metis BTreeState.select_convs(1))
  have "healthy (bp_disk b)" using assms(3) by (simp add: fresh_file_def fluid_def)
  then have "btree_initOrLoad ?s = (Ok (), s')"
    using s'(1) assms(4) healthy_stat by (simp add: btree_initOrLoad_def new_btree_def)
  then have "NewDiskBTreeIndex root c def b = (Ok (tx_idx s'), tx_pool s')" using assms(1,2) by (simp add: NewDiskBTreeIndex_def new_btree_def)
  moreover have "\<lparr>tx_pool = tx_pool s', tx_idx = tx_idx s'\<rparr> = s'" by simp
  moreover have "bi_keyType (tx_idx s') = keyType" "bi_fileID (tx_idx s') = ix_fileNode def" "runs_on (ix_fileNode def) b (tx_pool s')"
    using s'(3) F by (auto simp: tx_moves_def new_btree_def)
  ultimately show ?thesis using s'(2) by metis
qed

section \<open>The promises\<close>

text \<open>Adding a tuple id changes what is found under its key only.\<close>

lemma add_tid_lookup:
  "sorted_wrt (<) (map fst E) \<Longrightarrow> lookup_tids (add_tid E key tid) k = lookup_tids E k @ (if k = key then [tid] else [])"
proof (induction E key tid rule: add_tid.induct)
  case (2 k' tids es key tid)
  have ih: "lookup_tids (add_tid es key tid) k = lookup_tids es k @ (if k = key then [tid] else [])" if "k' < key"
    using 2 that by (auto dest: less_imp_neq)
  have "map_of es key = None" if "\<not> k' < key" using 2(2) that by (force simp: map_of_eq_None_iff)
  then show ?case using ih by (auto simp: lookup_tids_def not_less_iff_gr_or_eq)
qed (simp add: lookup_tids_def)

lemma btree_index_sorted: "btree_index s n E \<Longrightarrow> sorted_wrt (<) (map fst E)"
  by (auto simp: btree_index_def tree_in_def entries_sorted)

text \<open>C25: a node survives its page. Writing a node whose keys have the type of the index (texts of at most 8000 bytes)
  and that fits into a page gives a page from which the same node is read, whatever the page held before.\<close>

theorem btree_node_roundtrip:
  assumes "node_ok keyType node" and "valid_buf buf"
  shows "\<exists>buf'. print_node keyType node buf = Ok buf' \<and> valid_buf buf' \<and> parse_node keyType (bn_pageID node) buf' = Ok node"
  using print_node_ok [OF assms] by (auto simp: node_page_def)

text \<open>C12: over a working disk and a pool without pinned pages in which the replacer knows every buffered page,
  searching a B-tree that holds the entries E ends and returns, whatever the pool evicts meanwhile,
  exactly the tuple ids of the key, in the order in which they were inserted, and leaves the index as it was.\<close>

theorem btree_Search_exact:
  assumes "btree_index s n E" and "key_ok (tx_keyType s) key"
  shows "\<exists>s'. btree_Search key s = Some (Ok (lookup_tids E key), s') \<and> btree_index s' n E \<and> tx_idx s' = tx_idx s"
  by (rule btree_Search_ok [OF assms]) (auto simp: tx_works_def)

text \<open>C11: over a working disk and a pool without pinned pages in which the replacer knows every buffered page,
  a range search ends and returns exactly the tuple ids of the keys within the bounds, in key order;
  a nil bound is no bound, and bounds in the wrong order give nothing.\<close>

theorem btree_RangeSearch_exact:
  assumes "btree_index s n E" and "from \<noteq> VNil \<Longrightarrow> key_ok (tx_keyType s) from" and "to \<noteq> VNil \<Longrightarrow> key_ok (tx_keyType s) to"
  shows "\<exists>s'. btree_RangeSearch from fi to ti s = Some (Ok (range_tids (in_bounds from fi to ti) E), s')
    \<and> btree_index s' n E \<and> tx_idx s' = tx_idx s"
  by (rule btree_RangeSearch_ok [OF assms]) (auto simp: tx_works_def)

text \<open>C10: over a working disk and a pool without pinned pages in which the replacer knows every buffered page,
  inserting into a B-tree with INT64 keys that holds the entries E ends without error; afterwards the
  tree holds E with the tuple id behind those of its key and all other keys as before, through splits of
  leaves and new roots, of which at most two pages are added. The pool uses LRU and holds at least two
  pages; fewer than 680 pages keep inner nodes from splitting, fewer than 1356 ids a key from filling a leaf.\<close>

theorem btree_Insert_adds:
  assumes "btree_index s n E" and "key_ok (tx_keyType s) key" and "ty_name (tx_keyType s) = ''INT64''"
    and "lru_pool (tx_pool s)" and "2 \<le> bp_poolSize (tx_pool s)" and "n < 680" and "length (lookup_tids E key) < 1356"
  shows "\<exists>s' n' E'. btree_Insert key tid s = Some (Ok (), s') \<and> btree_index s' n' E' \<and> n' \<le> n + 2
    \<and> (\<forall>k. lookup_tids E' k = lookup_tids E k @ (if k = key then [tid] else []))"
proof (rule btree_Insert_ok [OF assms, where tid = tid])
  fix s' n'
  assume "btree_Insert key tid s = Some (Ok (), s')" "btree_index s' n' (add_tid E key tid)" "n' \<le> n + 2"
  then show ?thesis using add_tid_lookup [OF btree_index_sorted [OF assms(1)]] by blast
qed

section \<open>An index of integers\<close>

definition sample_btree_def :: IndexDefinition where
  "sample_btree_def = sample_hash_def\<lparr>ix_indexType := IndexTypeBTree\<rparr>"

definition sample_btree :: BTreeState where
  "sample_btree = (case NewDiskBTreeIndex ''d'' sample_catalog sample_btree_def sample_hash_pool of
     (Ok idx, b) \<Rightarrow> \<lparr>tx_pool = b, tx_idx = idx\<rparr> | (_, b) \<Rightarrow> \<lparr>tx_pool = b, tx_idx = new_btree ''d'' sample_btree_def int64_type\<rparr>)"

lemma sample_btree_ok:
  "btree_index sample_btree 2 []" "tx_keyType sample_btree = int64_type" "lru_pool (tx_pool sample_btree)" "bp_poolSize (tx_pool sample_btree) = 100"
proof -
  have ty: "ix_indexType sample_btree_def = IndexTypeBTree" "GetTypeByOid (ix_keyTypeOid sample_btree_def) sample_catalog = Ok (Some int64_type)"
    using sample_hash_type(2) by (simp_all add: sample_btree_def_def)
  obtain idx b' where i: "NewDiskBTreeIndex ''d'' sample_catalog sample_btree_def sample_hash_pool = (Ok idx, b')"
      "btree_index \<lparr>tx_pool = b', tx_idx = idx\<rparr> 2 []" "bi_keyType idx = int64_type" "runs_on (ix_fileNode sample_btree_def) sample_hash_pool b'"
    using NewDiskBTreeIndex_creates [OF ty sample_hash_pool_fresh(1) sample_hash_pool_fresh(2), of "''d''"] by auto
  have inv: "pool_inv sample_hash_pool" using sample_hash_pool_fresh(1) [of 2 "''f''"] by (simp add: fresh_file_def)
  have "lru_pool sample_hash_pool" "bp_poolSize sample_hash_pool = 100" by (simp_all add: lru_pool_def sample_hash_pool_def)
  then have "lru_pool b'" "bp_poolSize b' = 100" using runs_on_frame(2,5) [OF i(4) inv] by simp_all
  moreover have eq: "sample_btree = \<lparr>tx_pool = b', tx_idx = idx\<rparr>" by (simp add: sample_btree_def i(1))
  ultimately show "btree_index sample_btree 2 []" "tx_keyType sample_btree = int64_type" "lru_pool (tx_pool sample_btree)"
      "bp_poolSize (tx_pool sample_btree) = 100"
    using i(2,3) unfolding eq by simp_all
qed

definition sample_leaf :: btreeNode where
  "sample_leaf = \<lparr>bn_pageID = 1, bn_isLeaf = True, bn_parentPageID = -1, bn_leftSibPageID = -1, bn_rightSibPageID = -1,
     bn_keys = [VInt64 7], bn_values = [[NewTID 3 4]], bn_children = []\<rparr>"

theorem btree_node_roundtrip_witness:
  "\<exists>buf buf'. print_node int64_type sample_leaf buf = Ok buf' \<and> parse_node int64_type 1 buf' = Ok sample_leaf"
proof -
  obtain p where "page_inv p" using NewHeapPage_ok [of 0] by blast
  moreover have "node_ok int64_type sample_leaf" "bn_pageID sample_leaf = 1"
    by (simp_all add: sample_leaf_def node_ok_def node_shape_def node_size_def body_bytes_def sample_key_ok key_bytes_def)
  ultimately show ?thesis using btree_node_roundtrip [of int64_type sample_leaf "hp_buf p"] page_inv_valid_buf by metis
qed

theorem btree_Insert_adds_witness:
  "\<exists>s' n' E'. btree_Insert (VInt64 7) (NewTID 3 4) sample_btree = Some (Ok (), s') \<and> btree_index s' n' E' \<and> n' \<le> 4
    \<and> lookup_tids E' (VInt64 7) = [NewTID 3 4]"
proof -
  have "ty_name int64_type = ''INT64''" by (simp add: int64_type_def)
  then show ?thesis
    using btree_Insert_adds [OF sample_btree_ok(1), of "VInt64 7" "NewTID 3 4"] sample_btree_ok(2-4) sample_key_ok
    by (force simp: lookup_tids_def)
qed

lemma sample_btree_insert:
  obtains s n where "btree_Insert (VInt64 7) (NewTID 3 4) sample_btree = Some (Ok (), s)" and "tx_keyType s = int64_type"
    and "btree_index s n [(VInt64 7, [NewTID 3 4])]"
proof -
  have ty: "ty_name (tx_keyType sample_btree) = ''INT64''" by (simp add: sample_btree_ok(2) int64_type_def)
  have k: "key_ok (tx_keyType sample_btree) (VInt64 7)" by (simp add: sample_btree_ok(2) sample_key_ok)
  show thesis
    by (rule btree_Insert_ok [where tid = "NewTID 3 4", OF sample_btree_ok(1) k ty sample_btree_ok(3)])
      (use that sample_btree_ok(2,4) tx_moves_idx in \<open>auto simp: lookup_tids_def\<close>)
qed

theorem btree_Search_exact_witness:
  "\<exists>s s'. btree_Insert (VInt64 7) (NewTID 3 4) sample_btree = Some (Ok (), s) \<and> btree_Search (VInt64 7) s = Some (Ok [NewTID 3 4], s')"
proof -
  obtain s n where s: "btree_Insert (VInt64 7) (NewTID 3 4) sample_btree = Some (Ok (), s)" "tx_keyType s = int64_type"
      "btree_index s n [(VInt64 7, [NewTID 3 4])]"
    by (rule sample_btree_insert)
  then show ?thesis using btree_Search_exact [OF s(3), of "VInt64 7"] sample_key_ok by (auto simp: lookup_tids_def)
qed

theorem btree_RangeSearch_exact_witness:
  "\<exists>s s'. btree_Insert (VInt64 7) (NewTID 3 4) sample_btree = Some (Ok (), s)
    \<and> btree_RangeSearch (VInt64 5) False VNil True s = Some (Ok [NewTID 3 4], s')"
proof -
  obtain s n where s: "btree_Insert (VInt64 7) (NewTID 3 4) sample_btree = Some (Ok (), s)" "tx_keyType s = int64_type"
      "btree_index s n [(VInt64 7, [NewTID 3 4])]"
    by (rule sample_btree_insert)
  have "sint (5 :: int64) < sint (7 :: int64)" by simp
  then show ?thesis
    using btree_RangeSearch_exact [OF s(3), of "VInt64 5" VNil False True] s(1,2) sample_key_ok
    by (auto simp: range_tids_def in_bounds_def)
qed

end
