(* ===== verification/Footprint.thy ===== *)
theory Footprint
  imports HashCreate BTreeCreate TableHeap
begin

text \<open>
  What a piece of work may touch. \<open>runs_in Fs\<close> says that the pool only ran operations on pages of the files
  \<open>Fs\<close>; everything kept in other files stays as it was. The operations of a table heap run in the file of
  the heap, and writing all pages back changes no file at all.
\<close>

section \<open>Work on a set of files\<close>

definition runs_in :: "string set \<Rightarrow> Pool \<Rightarrow> Pool \<Rightarrow> bool" where
  "runs_in Fs = (\<lambda>b b'. \<exists>F \<in> Fs. runs_on F b b')\<^sup>*\<^sup>*"

lemma runs_in_refl [simp]: "runs_in Fs b b"
  by (simp add: runs_in_def)

lemma runs_in_trans [trans]: "runs_in Fs b b' \<Longrightarrow> runs_in Fs b' b'' \<Longrightarrow> runs_in Fs b b''"
  by (simp add: runs_in_def)

lemma runs_in_one: "runs_on F b b' \<Longrightarrow> F \<in> Fs \<Longrightarrow> runs_in Fs b b'"
  unfolding runs_in_def by blast

lemma runs_in_mono: "runs_in Fs b b' \<Longrightarrow> Fs \<subseteq> Gs \<Longrightarrow> runs_in Gs b b'"
  unfolding runs_in_def by (erule rtranclp_mono [THEN predicate2D, rotated]) blast

lemma runs_in_frame:
  assumes "runs_in Fs b b'" and "pool_inv b"
  shows "pool_inv b'" and "lru_pool b \<Longrightarrow> lru_pool b'"
    and "pk_fileID k \<notin> Fs \<Longrightarrow> bp_lookup b k = None \<Longrightarrow> bp_lookup b' k = None"
    and "pk_fileID k \<notin> Fs \<Longrightarrow> safe b k \<Longrightarrow> safe b' k \<and> pool_view b' k = pool_view b k"
    and "bp_poolSize b' = bp_poolSize b"
proof -
  have "pool_inv b' \<and> (lru_pool b \<longrightarrow> lru_pool b') \<and> (pk_fileID k \<notin> Fs \<longrightarrow> bp_lookup b k = None \<longrightarrow> bp_lookup b' k = None)
      \<and> (pk_fileID k \<notin> Fs \<longrightarrow> safe b k \<longrightarrow> safe b' k \<and> pool_view b' k = pool_view b k) \<and> bp_poolSize b' = bp_poolSize b"
    using assms(1) unfolding runs_in_def
  proof (induction rule: rtranclp_induct)
    case (step b1 b2)
    then obtain F where F: "F \<in> Fs" "runs_on F b1 b2" by blast
    have "pool_inv b1" using step.IH by blast
    note f = runs_on_frame [OF F(2) this]
    have "pk_fileID k \<notin> Fs \<Longrightarrow> pk_fileID k \<noteq> F" using F(1) by blast
    then show ?case using step.IH f(1,2,5) f(3) [of k] f(4) [of k] by auto
  qed (use assms(2) in simp)
  then show "pool_inv b'" "lru_pool b \<Longrightarrow> lru_pool b'"
      "pk_fileID k \<notin> Fs \<Longrightarrow> bp_lookup b k = None \<Longrightarrow> bp_lookup b' k = None"
      "pk_fileID k \<notin> Fs \<Longrightarrow> safe b k \<Longrightarrow> safe b' k \<and> pool_view b' k = pool_view b k" "bp_poolSize b' = bp_poolSize b"
    by auto
qed

text \<open>A change of the pool that leaves the pages of a file alone; the laws of frames that everything kept in pages
  follows.\<close>

definition file_kept :: "string \<Rightarrow> Pool \<Rightarrow> Pool \<Rightarrow> bool" where
  "file_kept F b b' \<longleftrightarrow> pool_inv b' \<and> (fluid b \<longrightarrow> fluid b') \<and> (lru_pool b \<longrightarrow> lru_pool b') \<and> bp_poolSize b' = bp_poolSize b
     \<and> (\<forall>k. pk_fileID k = F \<longrightarrow> (bp_lookup b k = None \<longrightarrow> bp_lookup b' k = None)
          \<and> (safe b k \<longrightarrow> safe b' k \<and> pool_view b' k = pool_view b k))"

lemma runs_in_kept: "runs_in Fs b b' \<Longrightarrow> pool_inv b \<Longrightarrow> F \<notin> Fs \<Longrightarrow> fluid b' \<Longrightarrow> file_kept F b b'"
  using runs_in_frame [of Fs b b'] by (auto simp: file_kept_def)

lemma file_pages_kept: "file_pages F b m n \<Longrightarrow> file_kept F b b' \<Longrightarrow> file_pages F b' m n"
  unfolding file_pages_def file_kept_def by auto

lemma file_kept_refl [simp]: "pool_inv b \<Longrightarrow> file_kept F b b"
  by (simp add: file_kept_def)

lemma file_kept_trans [trans]: "file_kept F b b' \<Longrightarrow> file_kept F b' b'' \<Longrightarrow> file_kept F b b''"
  unfolding file_kept_def by auto

lemma heap_rep_kept:
  assumes h: "heap_rep heap c db rows" and k: "file_kept (tb_fileNode (th_table heap)) (db_pool db) (db_pool db')" and c: "db_cat db' = db_cat db"
  shows "heap_rep heap c db' rows"
proof -
  have "page_tuples (db_pool db') (heap_pageKey heap i) ts" if "page_tuples (db_pool db) (heap_pageKey heap i) ts" for i ts
  proof -
    have "pk_fileID (heap_pageKey heap i) = tb_fileNode (th_table heap)" by (simp add: heap_pageKey_def NewPageKey_def)
    then show ?thesis using that k unfolding page_tuples_def file_kept_def by metis
  qed
  then have "heap_pages heap (db_pool db') tss" if "heap_pages heap (db_pool db) tss" for tss using that by (simp add: heap_pages_def)
  then show ?thesis using h k c by (auto simp: heap_rep_def file_kept_def)
qed

section \<open>Writing everything back\<close>

lemma flush_all_state:
  assumes "pool_inv b" and "FlushAllPages order b = (r, b')"
  shows "bp_replacer b' = bp_replacer b" and "bs_pinned (bp_store b' s) = bs_pinned (bp_store b s)"
proof -
  have "bp_replacer b' = bp_replacer b \<and> bs_pinned (bp_store b' s) = bs_pinned (bp_store b s)"
    using assms
  proof (induction order arbitrary: b)
    case (Cons k order)
    show ?case
    proof (cases "bp_lookup b k")
      case None
      then show ?thesis using Cons by simp
    next
      case (Some sl)
      obtain r1 b1 where b1: "flushSlotLocked k sl b = (r1, b1)" by force
      note f = flush_keeps [OF Cons.prems(1) Some b1]
      show ?thesis
      proof (cases r1)
        case (Ok u)
        then have "FlushAllPages order b1 = (r, b')" using Cons.prems(2) Some b1 by (simp add: seq_def)
        then show ?thesis using Cons.IH [OF pool_keepsD(1) [OF f(1)]] f(4) f(5) [of s] by simp
      qed (use Cons.prems(2) Some b1 f(4) f(5) [of s] in \<open>simp_all add: seq_def\<close>)
    qed
  qed simp
  then show "bp_replacer b' = bp_replacer b" "bs_pinned (bp_store b' s) = bs_pinned (bp_store b s)" by simp_all
qed

lemma flush_all_fluid:
  assumes inv: "pool_inv b" and fl: "fluid b" and run: "FlushAllPages order b = (r, b')"
  shows "fluid b'" and "bp_replacer b' = bp_replacer b"
proof -
  have p: "pool_keeps b b'" "bp_table b' = bp_table b" using FlushAllPages_props [OF inv run] by blast+
  note s = flush_all_state [OF inv run]
  show "bp_replacer b' = bp_replacer b" by (rule s(1))
  show "fluid b'"
    using fl p(2) s pool_keepsD(4) [OF p(1)] by (simp add: fluid_def complete_def is_pinned_def healthy_def)
qed

lemma flush_all_kept:
  assumes inv: "pool_inv b" and fl: "fluid b" and run: "FlushAllPages order b = (r, b')"
  shows "file_kept F b b'" and "r = Ok ()"
proof -
  note p = FlushAllPages_props [OF inv run] and q = flush_all_fluid [OF inv fl run]
  have k: "pool_keeps b b'" "bp_table b' = bp_table b" using p by blast+
  have "bp_lookup b' k = bp_lookup b k" for k using k(2) by simp
  then show "file_kept F b b'" using k(1) q pool_keepsD [OF k(1)] by (auto simp: file_kept_def lru_pool_def)
  show "r = Ok ()" using p fl by (simp add: fluid_def)
qed

section \<open>The work of a table heap\<close>

abbreviation heap_file :: "TableHeap \<Rightarrow> string" where
  "heap_file heap \<equiv> tb_fileNode (th_table heap)"

lemma heap_key_file [simp]: "pk_fileID (heap_pageKey heap i) = heap_file heap"
  by (simp add: heap_pageKey_def NewPageKey_def)

lemma load_page_runs:
  assumes "load_page heap i db = (r, db')"
  shows "runs_on (heap_file heap) (db_pool db) (db_pool db')"
proof -
  obtain r1 b1 where g: "GetPage (heap_pageKey heap i) (db_pool db) = (r1, b1)" by force
  have "db_pool db' = b1"
    using assms g by (cases r1) (auto simp: load_page_def on_pool_def seq_def slot_Page_def lift_result_def)
  then show ?thesis using runs_on_step [OF pool_step.get [OF g], of "heap_file heap"] by simp
qed

lemma ReadRow_runs: "ReadRow heap tid db = (r, db') \<Longrightarrow> runs_on (heap_file heap) (db_pool db) (db_pool db')"
proof -
  assume run: "ReadRow heap tid db = (r, db')"
  obtain r1 db1 where l: "load_page heap (sint (tid_pageID tid)) db = (r1, db1)" by force
  have "db' = db1" using run l by (auto simp: ReadRow_def seq_def lift_result_def split: result.splits)
  then show ?thesis using load_page_runs [OF l] by simp
qed

lemma scan_pages_runs: "scan_pages heap i n db = (r, db') \<Longrightarrow> runs_on (heap_file heap) (db_pool db) (db_pool db')"
proof (induction n arbitrary: i db r db')
  case (Suc n)
  obtain r1 db1 where l: "load_page heap (int i) db = (r1, db1)" by force
  obtain r2 db2 where s: "scan_pages heap (i + 1) n db1 = (r2, db2)" by force
  have "db' = db1 \<or> db' = db2"
    using Suc.prems l s by (auto simp: seq_def lift_result_def pure_def split: result.splits prod.splits)
  then show ?case using load_page_runs [OF l] runs_on_trans [OF load_page_runs [OF l] Suc.IH [OF s]] by auto
qed (simp add: pure_def)

lemma ScanTids_runs: "ScanTids heap db = (r, db') \<Longrightarrow> runs_on (heap_file heap) (db_pool db) (db_pool db')"
  unfolding ScanTids_def by (rule scan_pages_runs)

lemma tryInsert_runs:
  assumes inv: "pool_inv (db_pool db)" and t: "page_tuples (db_pool db) (heap_pageKey heap (int i)) ts"
    and run: "tryInsertIntoPage heap i (Some d) db = (r, db')"
  shows "runs_on (heap_file heap) (db_pool db) (db_pool db')"
proof -
  let ?k = "heap_pageKey heap (int i)"
  obtain r1 db1 where l: "load_page heap (int i) db = (r1, db1)" by force
  note s = load_page_spec [OF inv l] and w = load_page_runs [OF l]
  show ?thesis
  proof (cases "\<exists>p p'. r1 = Ok p \<and> page_Write p (Some d) = Ok p'")
    case True
    then obtain p p' where p: "r1 = Ok p" "page_Write p (Some d) = Ok p'" by blast
    have "page_inv p" "hp_pageID p = int i" using s(4) [OF p(1) t] by simp_all
    moreover from this have "page_room p d" using p(2) page_Write_full [of p d] by (cases "page_room p d") (auto simp: page_room_def)
    ultimately have pf: "page_for ?k p'"
      using page_Write_fits [of p d] p(2) by (auto simp: heap_pageKey_def page_for_inv)
    obtain r2 b2 where u: "UpdatePage ?k (Some p') (db_pool db1) = (r2, b2)" by force
    have "db_pool db' = db_pool db1 \<or> db_pool db' = b2"
      using run l p u by (auto simp: tryInsertIntoPage_def seq_def lift_result_def on_pool_def pure_def split: result.splits)
    moreover have "runs_on (heap_file heap) (db_pool db1) b2" using runs_on_step [OF pool_step.update [OF pf u]] by simp
    ultimately show ?thesis using w runs_on_trans [OF w] by auto
  next
    case False
    then have "db' = db1" using run l by (auto simp: tryInsertIntoPage_def seq_def lift_result_def split: result.splits)
    then show ?thesis using w by simp
  qed
qed

lemma insert_pages_runs:
  assumes "pool_inv (db_pool db)" and "fluid (db_pool db)" and "heap_pages heap (db_pool db) tss" and "i + n = length tss"
    and "\<exists>j buf. i \<le> j \<and> j < length tss \<and> pool_view (db_pool db) (heap_pageKey heap (int j)) = Some buf
      \<and> 4 + length d \<le> page_free (as_page buf)"
    and "insert_into_pages heap i n (Some d) db = (r, db')"
  shows "runs_on (heap_file heap) (db_pool db) (db_pool db')"
  using assms
proof (induction n arbitrary: i db)
  case (Suc n)
  then have t: "page_tuples (db_pool db) (heap_pageKey heap (int i)) (tss ! i)" using heap_pagesD(3) by simp
  obtain r1 db1 where l: "tryInsertIntoPage heap i (Some d) db = (r1, db1)" by force
  note s = tryInsert_spec [OF Suc.prems(1) t l] and w = tryInsert_runs [OF Suc.prems(1) t l]
  show ?case
  proof (cases r1)
    case (Err e)
    then have k: "pool_keeps (db_pool db) (db_pool db1)" using s(4) by simp
    have safe: "safe (db_pool db) (heap_pageKey heap (int j))" if "j < length tss" for j
      using heap_pagesD(3) [OF Suc.prems(3) that] by (simp add: page_tuples_def)
    obtain j buf where j: "i \<le> j" "j < length tss" "pool_view (db_pool db) (heap_pageKey heap (int j)) = Some buf"
        "4 + length d \<le> page_free (as_page buf)"
      using Suc.prems(5) by blast
    have "j \<noteq> i" using s(6) [OF Suc.prems(2)] j(3,4) Err by auto
    then have "\<exists>j buf. i + 1 \<le> j \<and> j < length tss \<and> pool_view (db_pool db1) (heap_pageKey heap (int j)) = Some buf
        \<and> 4 + length d \<le> page_free (as_page buf)"
      using j pool_keepsD(6) [OF k safe [OF j(2)]] by (intro exI [of _ j] exI [of _ buf]) auto
    then have "runs_on (heap_file heap) (db_pool db1) (db_pool db')"
      using Suc.IH [OF pool_keepsD(1) [OF k] s(5) [OF Suc.prems(2)] heap_pages_keeps [OF k Suc.prems(3)], of "i + 1"] Suc.prems(4,6) l Err
      by simp
    then show ?thesis using runs_on_trans [OF w] by blast
  qed (use w Suc.prems(6) l in auto)
qed auto

lemma InsertRow_runs:
  assumes h: "heap_rep heap c db rows" and room: "heap_room heap c db vs" and run: "InsertRow heap vs db = (r, db')"
  shows "runs_on (heap_file heap) (db_pool db) (db_pool db')"
proof -
  obtain tss where t: "heap_pages heap (db_pool db) tss" and i: "db_cat db = c" "pool_inv (db_pool db)" "fluid (db_pool db)"
    using h by (auto simp: heap_rep_def)
  have f: "row_ok heap c vs" "vs \<noteq> []" using room by (auto simp: heap_room_def)
  then have "serializeRow heap (db_cat db) vs = Ok (Some (row_bytes vs))"
    using serialize_fits [of c "th_columns heap" vs] row_bytes_nonempty [of c "th_columns heap" vs] i(1)
    by (simp add: serializeRow_def row_ok_def)
  then have "insert_into_pages heap 0 (length tss) (Some (row_bytes vs)) db = (r, db')"
    using run heap_pagesD(1) [OF t] by (simp add: InsertRow_def)
  then show ?thesis
    using insert_pages_runs [OF i(2,3) t, of 0 "length tss" "row_bytes vs"] room heap_pagesD(1) [OF t] by (auto simp: heap_room_def)
qed

end
