(* ===== verification/IndexManager.thy ===== *)
theory IndexManager
  imports HashIndex BTreeIndex
begin

text \<open>
  The index manager of \<open>internal/core/index/index_manager.go\<close> and the interface of \<open>index.go\<close>. The manager
  keeps one object per index name; whoever uses an index holds that object, here its name. An open index is
  a hash or a B-tree index, and a call through the interface runs the operation of its kind on the pool of
  the database and stores the changed object back.
\<close>

datatype Index = OpenHash DiskHashIndex | OpenBTree DiskBTreeIndex

record IndexManager =
  im_root :: string
  im_byName :: "(string \<times> Index) list"

definition NewIndexManager :: "string \<Rightarrow> IndexManager" where
  "NewIndexManager root = \<lparr>im_root = root, im_byName = []\<rparr>"

text \<open>The catalog and the pool, with the open indexes.\<close>

record Engine =
  en_db :: Db
  en_im :: IndexManager

definition on_db :: "(Db, 'a) prog \<Rightarrow> (Engine, 'a) prog" where
  "on_db m en = (case m (en_db en) of (r, db) \<Rightarrow> (r, en\<lparr>en_db := db\<rparr>))"

definition Index_Definition :: "Index \<Rightarrow> IndexDefinition" where
  "Index_Definition idx = (case idx of OpenHash h \<Rightarrow> hi_def h | OpenBTree t \<Rightarrow> bi_def t)"

section \<open>The manager\<close>

text \<open>The factory of a type of index, if there is one.\<close>

definition index_factory :: "IndexType \<Rightarrow> (string \<Rightarrow> Catalog \<Rightarrow> IndexDefinition \<Rightarrow> (Pool, Index) prog) option" where
  "index_factory ty =
     (if ty = IndexTypeHash then Some (\<lambda>root c def. seq (NewDiskHashIndex root c def) (\<lambda>h. pure (OpenHash h)))
      else if ty = IndexTypeBTree then Some (\<lambda>root c def. seq (NewDiskBTreeIndex root c def) (\<lambda>t. pure (OpenBTree t)))
      else None)"

definition set_index :: "string \<Rightarrow> Index \<Rightarrow> (Engine, unit) prog" where
  "set_index name idx en =
     (Ok (), en\<lparr>en_im := (en_im en)\<lparr>im_byName := AList.update name idx (im_byName (en_im en))\<rparr>\<rparr>)"

text \<open>The index of a definition, opened on first use; the result is the name under which it is kept.\<close>

definition GetOrCreate :: "IndexDefinition \<Rightarrow> (Engine, string) prog" where
  "GetOrCreate def en =
     (if map_of (im_byName (en_im en)) (ix_name def) \<noteq> None then (Ok (ix_name def), en)
      else case index_factory (ix_indexType def) of
        None \<Rightarrow> (Err ErrNotHashIndex, en)
      | Some factory \<Rightarrow>
          seq (on_db (on_pool (factory (im_root (en_im en)) (db_cat (en_db en)) def))) (\<lambda>idx.
          seq (set_index (ix_name def) idx) (\<lambda>_. pure (ix_name def))) en)"

definition Get :: "string \<Rightarrow> IndexManager \<Rightarrow> Index result" where
  "Get indexName m = (case map_of (im_byName m) indexName of Some idx \<Rightarrow> Ok idx | None \<Rightarrow> Err ErrIndexNotLoaded)"

section \<open>Calls through the interface\<close>

text \<open>
  Running an operation of a hash or a B-tree index on the database. The name was returned by
  \<open>GetOrCreate\<close> and names are never removed; a call on a nil index would panic.
\<close>

definition on_index :: "(HashState, 'a) oprog \<Rightarrow> (BTreeState, 'a) oprog \<Rightarrow> string \<Rightarrow> (Engine, 'a) oprog" where
  "on_index hash_op btree_op name en = (let pool = db_pool (en_db en) in
     case map_of (im_byName (en_im en)) name of
       Some (OpenHash h) \<Rightarrow> map_option (\<lambda>(r, s). (r, snd (set_index name (OpenHash (hx_idx s))
           (en\<lparr>en_db := (en_db en)\<lparr>db_pool := hx_pool s\<rparr>\<rparr>)))) (hash_op \<lparr>hx_pool = pool, hx_idx = h\<rparr>)
     | Some (OpenBTree t) \<Rightarrow> map_option (\<lambda>(r, s). (r, snd (set_index name (OpenBTree (tx_idx s))
           (en\<lparr>en_db := (en_db en)\<lparr>db_pool := tx_pool s\<rparr>\<rparr>)))) (btree_op \<lparr>tx_pool = pool, tx_idx = t\<rparr>)
     | None \<Rightarrow> Some (Panic, en))"

definition Index_Insert :: "string \<Rightarrow> gvalue \<Rightarrow> TID \<Rightarrow> (Engine, unit) oprog" where
  "Index_Insert name key tid = on_index (hash_Insert key tid) (btree_Insert key tid) name"

definition Index_Search :: "string \<Rightarrow> gvalue \<Rightarrow> (Engine, TID list) oprog" where
  "Index_Search name key = on_index (hash_Search key) (btree_Search key) name"

definition Index_RangeSearch :: "string \<Rightarrow> gvalue \<Rightarrow> bool \<Rightarrow> gvalue \<Rightarrow> bool \<Rightarrow> (Engine, TID list) oprog" where
  "Index_RangeSearch name from fromInclusive to toInclusive =
     on_index (hash_RangeSearch from fromInclusive to toInclusive) (btree_RangeSearch from fromInclusive to toInclusive) name"

end
