(* ===== verification/Semantic.thy ===== *)
theory Semantic
  imports CatalogManager
begin

text \<open>
  The semantic analyzer of \<open>internal/core/sql/semantic\<close>: it resolves the names of a statement against
  the catalog and checks types. The dispatch tables over node types are case distinctions, the maps
  of operators and type names are lists. The declarative type system \<open>typed\<close> says which WHERE
  clauses are accepted; \<open>resolveExpr\<close> is shown to decide it and to produce annotated trees that
  satisfy \<open>resolved\<close>, the contract the planner, optimizer and executors rely on.
\<close>

section \<open>Resolved trees\<close>

datatype ExprType = ExprTypeInt64 | ExprTypeVarchar | ExprTypeBool

datatype ResolvedExpr =
    ResolvedConst gvalue ExprType
  | ResolvedColumnRef ColumnDefinition ExprType
  | ResolvedBinaryExpr string ResolvedExpr ResolvedExpr ExprType

fun exprTypeOf :: "ResolvedExpr \<Rightarrow> ExprType" where
  "exprTypeOf (ResolvedConst v t) = t"
| "exprTypeOf (ResolvedColumnRef col t) = t"
| "exprTypeOf (ResolvedBinaryExpr op l r t) = t"

record ResolvedCreateColumn =
  rc_name :: SqlIdent
  rc_typeDef :: TypeDefinition

datatype QueryTree =
    CreateTableQueryTree SqlIdent "ResolvedCreateColumn list"
  | InsertQueryTree TableDefinition "ColumnDefinition list" "gvalue list"
  | SelectQueryTree TableDefinition "ColumnDefinition list" "ResolvedExpr option"
  | CreateIndexQueryTree SqlIdent TableDefinition ColumnDefinition IndexType
  | ExplainQueryTree QueryTree

datatype QueryType = QueryTypeCreateTable | QueryTypeInsert | QueryTypeSelect | QueryTypeCreateIndex | QueryTypeExplain

fun query_Type :: "QueryTree \<Rightarrow> QueryType" where
  "query_Type (CreateTableQueryTree _ _) = QueryTypeCreateTable"
| "query_Type (InsertQueryTree _ _ _) = QueryTypeInsert"
| "query_Type (SelectQueryTree _ _ _) = QueryTypeSelect"
| "query_Type (CreateIndexQueryTree _ _ _ _) = QueryTypeCreateIndex"
| "query_Type (ExplainQueryTree _) = QueryTypeExplain"

fun QueryType_String :: "QueryType \<Rightarrow> string" where
  "QueryType_String QueryTypeCreateTable = ''CREATE_TABLE''"
| "QueryType_String QueryTypeInsert = ''INSERT''"
| "QueryType_String QueryTypeSelect = ''SELECT''"
| "QueryType_String QueryTypeCreateIndex = ''CREATE_INDEX''"
| "QueryType_String QueryTypeExplain = ''EXPLAIN''"

section \<open>Errors\<close>

definition sem_errorf :: "string \<Rightarrow> 'a result" where
  "sem_errorf message = Err (SemanticError message None)"

definition errorAt :: "string \<Rightarrow> SqlIdent \<Rightarrow> 'a result" where
  "errorAt message ident = Err (SemanticError message (Some (id_offset ident, id_line ident, id_column ident)))"

text \<open>\<open>Error()\<close> of the error value: the position is shown when there is one.\<close>

fun SemanticError_Error :: "string \<Rightarrow> (nat \<times> nat \<times> nat) option \<Rightarrow> string" where
  "SemanticError_Error message (Some (offset, line, column)) =
     message @ '' at line '' @ show_nat line @ '', column '' @ show_nat column"
| "SemanticError_Error message None = message"

text \<open>\<open>%v\<close> of an expression type: its number.\<close>

definition show_exprType :: "ExprType \<Rightarrow> string" where
  "show_exprType t = (case t of ExprTypeInt64 \<Rightarrow> ''0'' | ExprTypeVarchar \<Rightarrow> ''1'' | ExprTypeBool \<Rightarrow> ''2'')"

text \<open>The lookup pattern \<open>x, err := f(); if err != nil || x == nil\<close>.\<close>

definition found :: "'a option result \<Rightarrow> 'a option" where
  "found r = (case r of Ok x \<Rightarrow> x | _ \<Rightarrow> None)"

section \<open>Types and literals\<close>

definition semComparisonOps :: "string list" where
  "semComparisonOps = [''='', ''<>'', ''<'', ''<='', ''>'', ''>='']"

definition semLogicalOps :: "string list" where
  "semLogicalOps = [''AND'', ''OR'']"

definition typeNames :: "(string \<times> string) list" where
  "typeNames = [(''INT'', ''INT64''), (''INTEGER'', ''INT64'')]"

definition exprTypes :: "(string \<times> ExprType) list" where
  "exprTypes = [(''INT64'', ExprTypeInt64), (''VARCHAR'', ExprTypeVarchar)]"

definition toExprType :: "TypeDefinition \<Rightarrow> ExprType" where
  "toExprType typeDef = (case map_of exprTypes (ty_name typeDef) of Some typ \<Rightarrow> typ | None \<Rightarrow> ExprTypeInt64)"

definition normalizeTypeName :: "string \<Rightarrow> string" where
  "normalizeTypeName typeName = (let upper = ToUpper typeName in
     case map_of typeNames upper of Some normalized \<Rightarrow> normalized | None \<Rightarrow> upper)"

fun resolveLiteral :: "Expr \<Rightarrow> (gvalue \<times> ExprType) result" where
  "resolveLiteral (LiteralInt64Expr n) = Ok (VInt64 n, ExprTypeInt64)"
| "resolveLiteral (LiteralStringExpr s) = Ok (VString s, ExprTypeVarchar)"
| "resolveLiteral _ = sem_errorf ''Only literal values are supported in INSERT''"

section \<open>Expressions\<close>

definition resolveColumnRef :: "Catalog \<Rightarrow> TableDefinition \<Rightarrow> SqlIdent \<Rightarrow> ResolvedExpr result" where
  "resolveColumnRef c table name =
     (case found (GetColumn table (id_text name) c) of
       None \<Rightarrow> errorAt (''Column not found: '' @ tb_name table @ ''.'' @ id_text name) name
     | Some col \<Rightarrow>
       (case found (GetTypeByOid (co_typeOid col) c) of
         None \<Rightarrow> sem_errorf (''Unknown type oid: '' @ show_int (sint (co_typeOid col)))
       | Some typeDef \<Rightarrow> Ok (ResolvedColumnRef col (toExprType typeDef))))"

text \<open>The part of \<open>resolveBinary\<close> after both operands are resolved.\<close>

definition combineBinary :: "string \<Rightarrow> ResolvedExpr \<Rightarrow> ResolvedExpr \<Rightarrow> ResolvedExpr result" where
  "combineBinary op left right =
     (if op \<in> set semLogicalOps then
        if exprTypeOf left \<noteq> ExprTypeBool then sem_errorf (''Left operand of '' @ op @ '' must be BOOL'')
        else if exprTypeOf right \<noteq> ExprTypeBool then sem_errorf (''Right operand of '' @ op @ '' must be BOOL'')
        else Ok (ResolvedBinaryExpr op left right ExprTypeBool)
      else if op \<in> set semComparisonOps then
        if exprTypeOf left \<noteq> exprTypeOf right then
          sem_errorf (''Type mismatch in comparison: '' @ show_exprType (exprTypeOf left) @ '' vs ''
            @ show_exprType (exprTypeOf right))
        else if exprTypeOf left = ExprTypeBool then sem_errorf ''Cannot compare BOOL values''
        else Ok (ResolvedBinaryExpr op left right ExprTypeBool)
      else sem_errorf (''Unsupported operator: '' @ op))"

fun resolveExpr :: "Catalog \<Rightarrow> TableDefinition \<Rightarrow> Expr \<Rightarrow> ResolvedExpr result" where
  "resolveExpr c table (ColumnRefExpr name) = resolveColumnRef c table name"
| "resolveExpr c table (LiteralInt64Expr n) = Ok (ResolvedConst (VInt64 n) ExprTypeInt64)"
| "resolveExpr c table (LiteralStringExpr s) = Ok (ResolvedConst (VString s) ExprTypeVarchar)"
| "resolveExpr c table (BinaryExpr op l r) =
     bind_result (resolveExpr c table l) (\<lambda>left.
     bind_result (resolveExpr c table r) (\<lambda>right. combineBinary op left right))"

section \<open>Statements\<close>

fun resolve_create_columns :: "Catalog \<Rightarrow> string list \<Rightarrow> ColumnDef list \<Rightarrow> ResolvedCreateColumn list result" where
  "resolve_create_columns c seen [] = Ok []"
| "resolve_create_columns c seen (cd # cds) = (let colName = id_text (cd_name cd) in
     if colName \<in> set seen then errorAt (''Duplicate column: '' @ colName) (cd_name cd)
     else case found (GetTypeByName (normalizeTypeName (cd_typeName cd)) c) of
       None \<Rightarrow> errorAt (''Unknown type: '' @ cd_typeName cd) (cd_name cd)
     | Some typeDef \<Rightarrow> bind_result (resolve_create_columns c (colName # seen) cds)
         (\<lambda>cols. Ok (\<lparr>rc_name = cd_name cd, rc_typeDef = typeDef\<rparr> # cols)))"

definition analyzeCreateTable :: "Catalog \<Rightarrow> SqlIdent \<Rightarrow> ColumnDef list \<Rightarrow> QueryTree result" where
  "analyzeCreateTable c tableName columns =
     (if found (GetTable (id_text tableName) c) \<noteq> None
      then errorAt (''Table already exists: '' @ id_text tableName) tableName
      else bind_result (resolve_create_columns c [] columns) (\<lambda>cols. Ok (CreateTableQueryTree tableName cols)))"

fun resolve_values :: "Catalog \<Rightarrow> ColumnDefinition list \<Rightarrow> Expr list \<Rightarrow> gvalue list result" where
  "resolve_values c (col # cols) (expr # exprs) =
     (case found (GetTypeByOid (co_typeOid col) c) of
       None \<Rightarrow> sem_errorf (''Unknown type oid: '' @ show_int (sint (co_typeOid col)))
     | Some typeDef \<Rightarrow>
       bind_result (resolveLiteral expr) (\<lambda>(val, valType). let colType = toExprType typeDef in
       if valType \<noteq> colType then
         sem_errorf (''Type mismatch for column '' @ co_name col @ '': expected '' @ show_exprType colType
           @ '' got '' @ show_exprType valType)
       else bind_result (resolve_values c cols exprs) (\<lambda>vals. Ok (val # vals))))"
| "resolve_values c _ _ = Ok []"

text \<open>\<open>GetColumns\<close> of the catalog never fails; the analyzer would wrap its error.\<close>

definition analyzeInsert :: "Catalog \<Rightarrow> SqlIdent \<Rightarrow> Expr list \<Rightarrow> QueryTree result" where
  "analyzeInsert c tableName values =
     (case found (GetTable (id_text tableName) c) of
       None \<Rightarrow> errorAt (''Table not found: '' @ id_text tableName) tableName
     | Some table \<Rightarrow>
       (case GetColumns table c of
         Ok columns \<Rightarrow>
           if length values \<noteq> length columns
           then errorAt (''Values count mismatch: expected '' @ show_nat (length columns) @ '' got ''
                  @ show_nat (length values)) tableName
           else bind_result (resolve_values c columns values) (\<lambda>vals. Ok (InsertQueryTree table columns vals))
       | _ \<Rightarrow> sem_errorf ''Failed to get columns''))"

fun resolve_target_columns :: "Catalog \<Rightarrow> TableDefinition \<Rightarrow> string \<Rightarrow> SqlIdent list \<Rightarrow> ColumnDefinition list result" where
  "resolve_target_columns c table tableName [] = Ok []"
| "resolve_target_columns c table tableName (colName # colNames) =
     (case found (GetColumn table (id_text colName) c) of
       None \<Rightarrow> errorAt (''Column not found: '' @ tableName @ ''.'' @ id_text colName) colName
     | Some col \<Rightarrow> bind_result (resolve_target_columns c table tableName colNames) (\<lambda>cols. Ok (col # cols)))"

definition analyzeSelect :: "Catalog \<Rightarrow> bool \<Rightarrow> SqlIdent list \<Rightarrow> SqlIdent \<Rightarrow> Expr option \<Rightarrow> QueryTree result" where
  "analyzeSelect c selectAll columns tableName whereClause =
     (case found (GetTable (id_text tableName) c) of
       None \<Rightarrow> errorAt (''Table not found: '' @ id_text tableName) tableName
     | Some table \<Rightarrow>
       bind_result (if selectAll
           then (case GetColumns table c of Ok cols \<Rightarrow> Ok cols | _ \<Rightarrow> sem_errorf ''Failed to get columns'')
           else resolve_target_columns c table (id_text tableName) columns) (\<lambda>outCols.
       (case whereClause of
         None \<Rightarrow> Ok (SelectQueryTree table outCols None)
       | Some e \<Rightarrow> bind_result (resolveExpr c table e) (\<lambda>f.
           if exprTypeOf f \<noteq> ExprTypeBool then sem_errorf ''WHERE clause must be boolean''
           else Ok (SelectQueryTree table outCols (Some f))))))"

definition analyzeCreateIndex :: "Catalog \<Rightarrow> SqlIdent \<Rightarrow> SqlIdent \<Rightarrow> SqlIdent \<Rightarrow> IndexType \<Rightarrow> QueryTree result" where
  "analyzeCreateIndex c indexName tableName columnName typ =
     (if found (GetIndex (id_text indexName) c) \<noteq> None
      then errorAt (''Index already exists: '' @ id_text indexName) indexName
      else case found (GetTable (id_text tableName) c) of
        None \<Rightarrow> errorAt (''Table not found: '' @ id_text tableName) tableName
      | Some table \<Rightarrow>
        (case found (GetColumn table (id_text columnName) c) of
          None \<Rightarrow> errorAt (''Column not found: '' @ id_text tableName @ ''.'' @ id_text columnName) columnName
        | Some col \<Rightarrow> Ok (CreateIndexQueryTree indexName table col typ)))"

fun Analyze :: "Catalog \<Rightarrow> Statement \<Rightarrow> QueryTree result" where
  "Analyze c (ExplainStmt inner) = bind_result (Analyze c inner) (\<lambda>q. Ok (ExplainQueryTree q))"
| "Analyze c (CreateTableStmt t cols) = analyzeCreateTable c t cols"
| "Analyze c (InsertStmt t vs) = analyzeInsert c t vs"
| "Analyze c (SelectStmt star cols t w) = analyzeSelect c star cols t w"
| "Analyze c (CreateIndexStmt i t col ty) = analyzeCreateIndex c i t col ty"

section \<open>Typing rules\<close>

definition logical_op :: "string \<Rightarrow> bool" where
  "logical_op op \<longleftrightarrow> op = ''AND'' \<or> op = ''OR''"

definition comparison_op :: "string \<Rightarrow> bool" where
  "comparison_op op \<longleftrightarrow> op \<in> {''='', ''<>'', ''<'', ''<='', ''>'', ''>=''}"

lemma op_sets: "op \<in> set semLogicalOps \<longleftrightarrow> logical_op op" "op \<in> set semComparisonOps \<longleftrightarrow> comparison_op op"
  by (simp_all add: semLogicalOps_def semComparisonOps_def logical_op_def comparison_op_def)

lemma ops_disjoint: "logical_op op \<Longrightarrow> \<not> comparison_op op"
  by (auto simp: logical_op_def comparison_op_def)

text \<open>Which WHERE expressions have which type, independent of the order in which the analyzer checks.\<close>

inductive typed :: "Catalog \<Rightarrow> TableDefinition \<Rightarrow> Expr \<Rightarrow> ExprType \<Rightarrow> bool" for c table where
  t_int: "typed c table (LiteralInt64Expr n) ExprTypeInt64"
| t_string: "typed c table (LiteralStringExpr s) ExprTypeVarchar"
| t_column: "GetColumn table (id_text name) c = Ok (Some col) \<Longrightarrow> GetTypeByOid (co_typeOid col) c = Ok (Some ty)
    \<Longrightarrow> typed c table (ColumnRefExpr name) (toExprType ty)"
| t_logical: "logical_op op \<Longrightarrow> typed c table l ExprTypeBool \<Longrightarrow> typed c table r ExprTypeBool
    \<Longrightarrow> typed c table (BinaryExpr op l r) ExprTypeBool"
| t_comparison: "comparison_op op \<Longrightarrow> typed c table l t \<Longrightarrow> typed c table r t
    \<Longrightarrow> t \<noteq> ExprTypeBool \<Longrightarrow> typed c table (BinaryExpr op l r) ExprTypeBool"

inductive_cases typed_columnE: "typed c table (ColumnRefExpr name) t"
inductive_cases typed_binaryE: "typed c table (BinaryExpr op l r) t"
inductive_simps typed_literal_simps: "typed c table (LiteralInt64Expr n) t" "typed c table (LiteralStringExpr s) t"

text \<open>What the later stages rely on: the annotations of a resolved tree are right.\<close>

fun value_type :: "gvalue \<Rightarrow> ExprType \<Rightarrow> bool" where
  "value_type (VInt64 _) t \<longleftrightarrow> t = ExprTypeInt64"
| "value_type (VString _) t \<longleftrightarrow> t = ExprTypeVarchar"
| "value_type (VBool _) t \<longleftrightarrow> t = ExprTypeBool"
| "value_type VNil t \<longleftrightarrow> False"

definition columns_of :: "Catalog \<Rightarrow> TableDefinition \<Rightarrow> ColumnDefinition list" where
  "columns_of c table = slice_at (cm_columnsByTableOid c) (tb_oid table)"

definition column_type :: "Catalog \<Rightarrow> ColumnDefinition \<Rightarrow> ExprType option" where
  "column_type c col = map_option toExprType (map_of (cm_typesByOid c) (co_typeOid col))"

fun resolved :: "Catalog \<Rightarrow> TableDefinition \<Rightarrow> ResolvedExpr \<Rightarrow> bool" where
  "resolved c table (ResolvedConst v t) \<longleftrightarrow> value_type v t"
| "resolved c table (ResolvedColumnRef col t) \<longleftrightarrow> col \<in> set (columns_of c table) \<and> column_type c col = Some t"
| "resolved c table (ResolvedBinaryExpr op l r t) \<longleftrightarrow> resolved c table l \<and> resolved c table r \<and> t = ExprTypeBool
     \<and> (logical_op op \<and> exprTypeOf l = ExprTypeBool \<and> exprTypeOf r = ExprTypeBool
        \<or> comparison_op op \<and> exprTypeOf l = exprTypeOf r \<and> exprTypeOf l \<noteq> ExprTypeBool)"

lemma combineBinary_Ok:
  "combineBinary op l r = Ok e \<longleftrightarrow> e = ResolvedBinaryExpr op l r ExprTypeBool
     \<and> (logical_op op \<and> exprTypeOf l = ExprTypeBool \<and> exprTypeOf r = ExprTypeBool
        \<or> comparison_op op \<and> exprTypeOf l = exprTypeOf r \<and> exprTypeOf l \<noteq> ExprTypeBool)"
  by (auto simp: combineBinary_def op_sets sem_errorf_def dest: ops_disjoint)

lemma found_Some [simp]: "found (Ok x) = x"
  by (simp add: found_def)

lemma resolveColumnRef_Ok:
  "resolveColumnRef c table name = Ok e \<longleftrightarrow> (\<exists>col ty. GetColumn table (id_text name) c = Ok (Some col)
     \<and> GetTypeByOid (co_typeOid col) c = Ok (Some ty) \<and> e = ResolvedColumnRef col (toExprType ty))"
  by (auto simp: resolveColumnRef_def GetColumn_def GetTypeByOid_def errorAt_def sem_errorf_def split: option.splits)

lemma resolve_sound: "resolveExpr c table e = Ok r \<Longrightarrow> typed c table e (exprTypeOf r) \<and> resolved c table r"
proof (induction e arbitrary: r)
  case (ColumnRefExpr name)
  then obtain col ty where col: "GetColumn table (id_text name) c = Ok (Some col)"
      "GetTypeByOid (co_typeOid col) c = Ok (Some ty)" "r = ResolvedColumnRef col (toExprType ty)"
    by (auto simp: resolveColumnRef_Ok)
  then have "col \<in> set (columns_of c table)" "column_type c col = Some (toExprType ty)"
    by (auto simp: GetColumn_def GetTypeByOid_def columns_of_def column_type_def find_Some_iff)
  then show ?case using col t_column by simp
next
  case (BinaryExpr op e1 e2)
  then obtain l' r' where lr: "resolveExpr c table e1 = Ok l'" "resolveExpr c table e2 = Ok r'" "combineBinary op l' r' = Ok r"
    by (auto simp: bind_result_Ok)
  note ih = BinaryExpr.IH(1) [OF lr(1)] BinaryExpr.IH(2) [OF lr(2)]
  from lr(3) show ?case
    unfolding combineBinary_Ok using ih t_logical [of op c table e1 e2] t_comparison [of op c table e1 "exprTypeOf l'" e2]
    by auto
qed (auto intro: typed.intros)

lemma resolve_complete: "typed c table e t \<Longrightarrow> \<exists>r. resolveExpr c table e = Ok r \<and> exprTypeOf r = t"
proof (induction rule: typed.induct)
  case (t_column name col ty)
  then show ?case by (auto simp: resolveColumnRef_Ok)
next
  case (t_logical op l r)
  then show ?case by (auto simp: bind_result_Ok combineBinary_Ok)
next
  case (t_comparison op l t r)
  then show ?case by (auto simp: bind_result_Ok combineBinary_Ok)
qed simp_all

section \<open>Properties\<close>

text \<open>C15: the type checker is sound and complete for the typing rules: an expression resolves, to a
  tree of type t, exactly if the rules give it type t. So a WHERE clause is accepted exactly if it is
  a well-typed boolean, whatever its nesting.\<close>

theorem resolveExpr_typing:
  "typed c table e t \<longleftrightarrow> (\<exists>r. resolveExpr c table e = Ok r \<and> exprTypeOf r = t)"
  using resolve_sound resolve_complete by blast

text \<open>What \<open>Analyze\<close> promises of the query tree it returns.\<close>

fun wf_query :: "Catalog \<Rightarrow> QueryTree \<Rightarrow> bool" where
  "wf_query c (CreateTableQueryTree name cols) \<longleftrightarrow> GetTable (id_text name) c = Ok None
     \<and> distinct (map (\<lambda>rc. id_text (rc_name rc)) cols)
     \<and> (\<forall>rc \<in> set cols. rc_typeDef rc \<in> snd ` set (cm_typesByName c))"
| "wf_query c (InsertQueryTree table cols vals) \<longleftrightarrow> table \<in> snd ` set (cm_tablesByName c) \<and> cols = columns_of c table
     \<and> list_all2 (\<lambda>col v. \<exists>t. column_type c col = Some t \<and> value_type v t) cols vals"
| "wf_query c (SelectQueryTree table cols f) \<longleftrightarrow> table \<in> snd ` set (cm_tablesByName c) \<and> set cols \<subseteq> set (columns_of c table)
     \<and> (case f of None \<Rightarrow> True | Some e \<Rightarrow> resolved c table e \<and> exprTypeOf e = ExprTypeBool)"
| "wf_query c (CreateIndexQueryTree name table col ty) \<longleftrightarrow> GetIndex (id_text name) c = Ok None
     \<and> table \<in> snd ` set (cm_tablesByName c) \<and> col \<in> set (columns_of c table)"
| "wf_query c (ExplainQueryTree q) \<longleftrightarrow> wf_query c q"

definition semantic_result :: "('a \<Rightarrow> bool) \<Rightarrow> 'a result \<Rightarrow> bool" where
  "semantic_result P r \<longleftrightarrow> (case r of Ok x \<Rightarrow> P x | Err e \<Rightarrow> (\<exists>m p. e = SemanticError m p) | Panic \<Rightarrow> False)"

lemma semantic_result_simps [simp]:
  "semantic_result P (Ok x) = P x" "semantic_result P (sem_errorf m)" "semantic_result P (errorAt m i)"
  by (simp_all add: semantic_result_def sem_errorf_def errorAt_def)

lemma semantic_bind:
  "semantic_result Q r \<Longrightarrow> (\<And>x. r = Ok x \<Longrightarrow> Q x \<Longrightarrow> semantic_result P (f x)) \<Longrightarrow> semantic_result P (bind_result r f)"
  by (cases r) (auto simp: semantic_result_def)

lemma combineBinary_result: "semantic_result (\<lambda>_. True) (combineBinary op l r)"
  by (simp add: combineBinary_def)

lemma resolveExpr_result: "semantic_result (resolved c table) (resolveExpr c table e)"
proof -
  have "semantic_result (\<lambda>_. True) (resolveExpr c table e)"
  proof (induction e)
    case (ColumnRefExpr name)
    then show ?case by (simp add: resolveColumnRef_def split: option.splits)
  next
    case (BinaryExpr op e1 e2)
    show ?case
      unfolding resolveExpr.simps
      by (rule semantic_bind [OF BinaryExpr.IH(1)], rule semantic_bind [OF BinaryExpr.IH(2)], rule combineBinary_result)
  qed simp_all
  then show ?thesis
    using resolve_sound [of c table e] by (cases "resolveExpr c table e") (auto simp: semantic_result_def)
qed

lemma create_columns_result:
  "semantic_result (\<lambda>cols. distinct (map (\<lambda>rc. id_text (rc_name rc)) cols) \<and> set (map (\<lambda>rc. id_text (rc_name rc)) cols) \<inter> set seen = {}
     \<and> (\<forall>rc \<in> set cols. rc_typeDef rc \<in> snd ` set (cm_typesByName c))) (resolve_create_columns c seen cds)"
proof (induction cds arbitrary: seen)
  case (Cons cd cds)
  show ?case
  proof (cases "id_text (cd_name cd) \<in> set seen")
    case False
    then show ?thesis
      using Cons [of "id_text (cd_name cd) # seen"]
      by (auto simp: Let_def GetTypeByName_def split: option.splits intro!: semantic_bind [OF Cons [of "id_text (cd_name cd) # seen"]]
          dest!: map_of_SomeD) (force intro: rev_image_eqI)
  qed simp
qed simp

lemma resolveLiteral_result: "semantic_result (\<lambda>(v, t). value_type v t) (resolveLiteral e)"
  by (cases e) simp_all

lemma values_result:
  "length cols = length exprs \<Longrightarrow>
   semantic_result (list_all2 (\<lambda>col v. \<exists>t. column_type c col = Some t \<and> value_type v t) cols) (resolve_values c cols exprs)"
proof (induction cols exprs rule: list_induct2)
  case (Cons col cols e exprs)
  then show ?case
    by (auto simp: GetTypeByOid_def column_type_def Let_def split: option.splits
        intro!: semantic_bind [OF resolveLiteral_result] semantic_bind [OF Cons.IH])
qed simp

lemma target_columns_result:
  "semantic_result (\<lambda>cols. set cols \<subseteq> set (columns_of c table)) (resolve_target_columns c table n names)"
proof (induction names)
  case (Cons name names)
  then show ?case
    by (auto simp: GetColumn_def columns_of_def find_Some_iff split: option.splits intro!: semantic_bind [OF Cons.IH])
qed simp

lemma table_found: "found (GetTable n c) = Some t \<Longrightarrow> t \<in> snd ` set (cm_tablesByName c)"
  by (force simp: GetTable_def dest: map_of_SomeD)

lemma column_found: "found (GetColumn t n c) = Some col \<Longrightarrow> col \<in> set (columns_of c t)"
  by (auto simp: GetColumn_def columns_of_def find_Some_iff)

lemma Analyze_semantic: "semantic_result (wf_query c) (Analyze c stmt)"
proof (induction stmt)
  case (CreateTableStmt t cols)
  then show ?case
    using create_columns_result [of "[]" c cols]
    by (auto simp: analyzeCreateTable_def GetTable_def intro!: semantic_bind)
next
  case (CreateIndexStmt i t col ty)
  then show ?case
    using table_found column_found by (auto simp: analyzeCreateIndex_def GetIndex_def split: option.splits)
next
  case (InsertStmt t vs)
  have "semantic_result (\<lambda>vals. list_all2 (\<lambda>col v. \<exists>t. column_type c col = Some t \<and> value_type v t) (columns_of c tab) vals)
      (resolve_values c (columns_of c tab) vs)" if "length vs = length (columns_of c tab)" for tab
    using values_result [of "columns_of c tab" vs c] that by simp
  then show ?case
    using table_found
    by (auto simp: analyzeInsert_def GetColumns_def columns_of_def [symmetric] split: option.splits intro!: semantic_bind)
next
  case (SelectStmt star cols t w)
  show ?case
  proof (cases "found (GetTable (id_text t) c)")
    case (Some tab)
    have targets: "semantic_result (\<lambda>cs. set cs \<subseteq> set (columns_of c tab)) (if star
        then (case GetColumns tab c of Ok cols \<Rightarrow> Ok cols | _ \<Rightarrow> sem_errorf ''Failed to get columns'')
        else resolve_target_columns c tab (id_text t) cols)"
      using target_columns_result by (auto simp: GetColumns_def columns_of_def)
    have filt: "semantic_result (wf_query c) (bind_result (resolveExpr c tab e) (\<lambda>f.
        if exprTypeOf f \<noteq> ExprTypeBool then sem_errorf ''WHERE clause must be boolean''
        else Ok (SelectQueryTree tab outCols (Some f))))" if "set outCols \<subseteq> set (columns_of c tab)" for e outCols
      using that table_found [OF Some] by (intro semantic_bind [OF resolveExpr_result]) simp
    show ?thesis
      unfolding Analyze.simps analyzeSelect_def Some option.case
      by (rule semantic_bind [OF targets]) (cases w; use table_found [OF Some] filt in simp)
  qed (simp add: analyzeSelect_def)
next
  case (ExplainStmt stmt)
  then show ?case by (auto intro!: semantic_bind)
qed

text \<open>C18: Analyze never panics. It reports a semantic error or returns a query tree that fits the
  catalog: tables, columns and types are catalog objects, names to be created are free, the column
  names of a new table differ, inserted values have the types of their columns, one per column, and
  the filter is a well-typed boolean.\<close>

theorem Analyze_wf:
  "case Analyze c stmt of Ok q \<Rightarrow> wf_query c q | Err e \<Rightarrow> (\<exists>m p. e = SemanticError m p) | Panic \<Rightarrow> False"
  using Analyze_semantic [of c stmt] by (simp add: semantic_result_def)

end
