(* ===== verification/Planner.thy ===== *)
theory Planner
  imports Semantic
begin

text \<open>
  The logical planner of \<open>internal/core/planner\<close>: query trees become plans of scan, filter and project
  nodes. A node that holds a query tree holds the fields of that tree. \<open>DisplayName\<close>, \<open>Children\<close> and
  the printer are those of \<open>nodes\<close>.
\<close>

datatype LogicalPlanNode =
    ScanNode TableDefinition
  | FilterNode LogicalPlanNode ResolvedExpr
  | ProjectNode LogicalPlanNode "ColumnDefinition list"
  | CreateTableNode SqlIdent "ResolvedCreateColumn list"
  | CreateIndexNode SqlIdent TableDefinition ColumnDefinition IndexType
  | InsertNode TableDefinition "ColumnDefinition list" "gvalue list"
  | ExplainNode LogicalPlanNode

definition planSelect :: "TableDefinition \<Rightarrow> ColumnDefinition list \<Rightarrow> ResolvedExpr option \<Rightarrow> LogicalPlanNode" where
  "planSelect table targetColumns filt =
     (let node = ScanNode table;
          node = (case filt of None \<Rightarrow> node | Some f \<Rightarrow> FilterNode node f)
      in ProjectNode node targetColumns)"

fun Plan :: "QueryTree \<Rightarrow> LogicalPlanNode" where
  "Plan (CreateTableQueryTree name cols) = CreateTableNode name cols"
| "Plan (InsertQueryTree table cols vals) = InsertNode table cols vals"
| "Plan (CreateIndexQueryTree name table col ty) = CreateIndexNode name table col ty"
| "Plan (SelectQueryTree table cols f) = planSelect table cols f"
| "Plan (ExplainQueryTree inner) = ExplainNode (Plan inner)"

section \<open>Printing\<close>

text \<open>\<open>strings.Join(names, ",")\<close>.\<close>

fun join_comma :: "string list \<Rightarrow> string" where
  "join_comma [] = ''''"
| "join_comma [x] = x"
| "join_comma (x # xs) = x @ '','' @ join_comma xs"

fun logical_DisplayName :: "LogicalPlanNode \<Rightarrow> string" where
  "logical_DisplayName (ScanNode table) = ''Scan('' @ tb_name table @ '')''"
| "logical_DisplayName (FilterNode _ _) = ''Filter''"
| "logical_DisplayName (ProjectNode _ cols) = ''Project('' @ join_comma (map co_name cols) @ '')''"
| "logical_DisplayName (CreateTableNode name _) = ''CreateTable('' @ id_text name @ '')''"
| "logical_DisplayName (CreateIndexNode name _ _ _) = ''CreateIndex('' @ id_text name @ '')''"
| "logical_DisplayName (InsertNode table _ _) = ''Insert('' @ tb_name table @ '')''"
| "logical_DisplayName (ExplainNode _) = ''Explain''"

fun logical_Children :: "LogicalPlanNode \<Rightarrow> LogicalPlanNode list" where
  "logical_Children (FilterNode child _) = [child]"
| "logical_Children (ProjectNode child _) = [child]"
| "logical_Children (ExplainNode inner) = [inner]"
| "logical_Children _ = []"

lemma logical_Children_size [termination_simp]: "child \<in> set (logical_Children node) \<Longrightarrow> size child < size node"
  by (cases node) auto

function logical_printNode :: "nat \<Rightarrow> LogicalPlanNode \<Rightarrow> string" where
  "logical_printNode indent node = concat (replicate indent ''  '') @ logical_DisplayName node @ [CHR 0x0A]
     @ concat (map (logical_printNode (indent + 1)) (logical_Children node))"
  by pat_completeness auto
termination by (relation "measure (\<lambda>(_, node). size node)") (auto simp: logical_Children_size)

declare logical_printNode.simps [simp del]

definition logical_PrintPlan :: "LogicalPlanNode \<Rightarrow> string" where
  "logical_PrintPlan node = logical_printNode 0 node"

end
