(* ===== verification/FilterEval.thy ===== *)
theory FilterEval
  imports Semantic
begin

text \<open>
  Evaluation of WHERE clauses, from \<open>internal/core/execution/executors/filter_executor.go\<close>. Values are
  Go's \<open>any\<close>: indexing a row out of its range and asserting the wrong type of an operand panic. The
  reference semantics \<open>truth\<close> is total; on resolved clauses and rows of the table's types, the
  evaluator computes it and never panics.
\<close>

section \<open>The evaluator\<close>

definition cmp3 :: "'a::linorder \<Rightarrow> 'a \<Rightarrow> int" where
  "cmp3 a b = (if a < b then -1 else if a > b then 1 else 0)"

fun compare_values :: "gvalue \<Rightarrow> gvalue \<Rightarrow> int result" where
  "compare_values (VInt64 a) (VInt64 b) = Ok (if a <s b then -1 else if b <s a then 1 else 0)"
| "compare_values (VInt64 _) _ = Panic"
| "compare_values (VString a) (VString b) = Ok (cmp3 a b)"
| "compare_values (VString _) _ = Panic"
| "compare_values _ _ = Ok 0"

text \<open>\<open>row[pos]\<close> with a signed position.\<close>

definition row_index :: "gvalue list \<Rightarrow> int32 \<Rightarrow> gvalue result" where
  "row_index row pos = (if 0 \<le> sint pos \<and> sint pos < int (length row) then Ok (row ! nat (sint pos)) else Panic)"

text \<open>\<open>if b, ok := v.(bool); ok { return b }; return false\<close>.\<close>

fun as_bool :: "gvalue \<Rightarrow> bool" where
  "as_bool (VBool b) = b"
| "as_bool _ = False"

definition evalOperator :: "string \<Rightarrow> gvalue \<Rightarrow> gvalue \<Rightarrow> gvalue result" where
  "evalOperator op left right =
     (if op = ''='' then Ok (VBool (left = right))
      else if op = ''<>'' then Ok (VBool (left \<noteq> right))
      else bind_result (compare_values left right) (\<lambda>cmp. Ok (VBool (
        if op = ''<'' then cmp < 0 else if op = ''<='' then cmp \<le> 0
        else if op = ''>'' then cmp > 0 else if op = ''>='' then cmp \<ge> 0 else False))))"

fun eval :: "ResolvedExpr \<Rightarrow> gvalue list \<Rightarrow> gvalue result" where
  "eval (ResolvedConst v _) row = Ok v"
| "eval (ResolvedColumnRef col _) row = row_index row (co_position col)"
| "eval (ResolvedBinaryExpr op l r _) row =
     (if op = ''AND'' then bind_result (eval l row) (\<lambda>v.
        if as_bool v then bind_result (eval r row) (\<lambda>w. Ok (VBool (as_bool w))) else Ok (VBool False))
      else if op = ''OR'' then bind_result (eval l row) (\<lambda>v.
        if as_bool v then Ok (VBool True) else bind_result (eval r row) (\<lambda>w. Ok (VBool (as_bool w))))
      else bind_result (eval l row) (\<lambda>left. bind_result (eval r row) (\<lambda>right. evalOperator op left right)))"

definition evalBool :: "ResolvedExpr \<Rightarrow> gvalue list \<Rightarrow> bool result" where
  "evalBool e row = bind_result (eval e row) (\<lambda>v. Ok (as_bool v))"

section \<open>Reference semantics\<close>

text \<open>Integers compare as signed numbers, texts byte by byte; values of different types do not compare.\<close>

fun v_less :: "gvalue \<Rightarrow> gvalue \<Rightarrow> bool" where
  "v_less (VInt64 a) (VInt64 b) \<longleftrightarrow> sint a < sint b"
| "v_less (VString a) (VString b) \<longleftrightarrow> a < b"
| "v_less _ _ \<longleftrightarrow> False"

definition relation_holds :: "string \<Rightarrow> gvalue \<Rightarrow> gvalue \<Rightarrow> bool" where
  "relation_holds op a b \<longleftrightarrow>
     op = ''='' \<and> a = b \<or> op = ''<>'' \<and> a \<noteq> b \<or> op = ''<'' \<and> v_less a b \<or> op = ''>'' \<and> v_less b a
     \<or> op = ''<='' \<and> (v_less a b \<or> a = b) \<or> op = ''>='' \<and> (v_less b a \<or> a = b)"

definition column_value :: "ColumnDefinition \<Rightarrow> gvalue list \<Rightarrow> gvalue" where
  "column_value col row = row ! nat (sint (co_position col))"

fun operand :: "ResolvedExpr \<Rightarrow> gvalue list \<Rightarrow> gvalue" where
  "operand (ResolvedConst v _) row = v"
| "operand (ResolvedColumnRef col _) row = column_value col row"
| "operand (ResolvedBinaryExpr _ _ _ _) row = VNil"

fun truth :: "ResolvedExpr \<Rightarrow> gvalue list \<Rightarrow> bool" where
  "truth (ResolvedBinaryExpr op l r _) row \<longleftrightarrow>
     (if op = ''AND'' then truth l row \<and> truth r row
      else if op = ''OR'' then truth l row \<or> truth r row
      else relation_holds op (operand l row) (operand r row))"
| "truth (ResolvedConst v _) row \<longleftrightarrow> v = VBool True"
| "truth (ResolvedColumnRef _ _) row \<longleftrightarrow> False"

text \<open>A row of a table: one value per column, of the column's type.\<close>

definition row_of :: "Catalog \<Rightarrow> TableDefinition \<Rightarrow> gvalue list \<Rightarrow> bool" where
  "row_of c table row \<longleftrightarrow>
     list_all2 (\<lambda>col v. \<exists>t. column_type c col = Some t \<and> value_type v t) (columns_of c table) row"

lemma sless_sint: "a <s b \<longleftrightarrow> sint a < sint b" for a b :: int64
  by (simp add: word_sless_alt)

lemma sint_eq: "sint a = sint b \<longleftrightarrow> a = b" for a b :: int64
  by (auto intro: signed_word_eqI)

lemma compare_values_typed:
  assumes "value_type a t" and "value_type b t" and "t \<noteq> ExprTypeBool"
  shows "\<exists>n. compare_values a b = Ok n \<and> (n < 0 \<longleftrightarrow> v_less a b) \<and> (n > 0 \<longleftrightarrow> v_less b a) \<and> (n = 0 \<longleftrightarrow> a = b)"
  using assms by (cases a; cases b) (auto simp: cmp3_def sless_sint not_less sint_eq [symmetric])

lemma relation_typed:
  assumes "comparison_op op" and "value_type a t" and "value_type b t" and "t \<noteq> ExprTypeBool"
  shows "evalOperator op a b = Ok (VBool (relation_holds op a b))"
proof -
  obtain n where n: "compare_values a b = Ok n" "n < 0 \<longleftrightarrow> v_less a b" "n > 0 \<longleftrightarrow> v_less b a" "n = 0 \<longleftrightarrow> a = b"
    using compare_values_typed [OF assms(2-4)] by blast
  then have "n \<le> 0 \<longleftrightarrow> v_less a b \<or> a = b" "n \<ge> 0 \<longleftrightarrow> v_less b a \<or> a = b" by linarith+
  then show ?thesis
    using n assms(1) unfolding comparison_op_def evalOperator_def relation_holds_def by auto
qed

lemma column_typed:
  assumes "columns_wf c" and "row_of c table row" and "col \<in> set (columns_of c table)" and "column_type c col = Some t"
  shows "row_index row (co_position col) = Ok (column_value col row) \<and> value_type (column_value col row) t"
proof -
  obtain i where i: "i < length (columns_of c table)" "columns_of c table ! i = col"
    using assms(3) by (auto simp: in_set_conv_nth)
  have "sint (co_position col) = int i"
    using columns_wfD(3) [OF assms(1), of i "tb_oid table"] i by (simp add: columns_of_def)
  moreover have "i < length row" "\<exists>t. column_type c col = Some t \<and> value_type (row ! i) t"
    using assms(2) i by (auto simp: row_of_def list_all2_conv_all_nth)
  ultimately show ?thesis
    using assms(4) by (simp add: row_index_def column_value_def)
qed

lemma column_not_bool: "column_type c col \<noteq> Some ExprTypeBool"
  by (auto simp: column_type_def toExprType_def exprTypes_def split: option.splits if_splits)

lemma eval_typed:
  assumes "columns_wf c" and "row_of c table row"
  shows "resolved c table e \<Longrightarrow>
    (exprTypeOf e = ExprTypeBool \<longrightarrow> eval e row = Ok (VBool (truth e row)))
    \<and> (exprTypeOf e \<noteq> ExprTypeBool \<longrightarrow> eval e row = Ok (operand e row) \<and> value_type (operand e row) (exprTypeOf e))"
proof (induction e)
  case (ResolvedConst v t)
  then show ?case by (cases v) auto
next
  case (ResolvedColumnRef col t)
  then show ?case using column_typed [OF assms] column_not_bool by auto
next
  case (ResolvedBinaryExpr op l r t)
  show ?case
  proof (cases "logical_op op")
    case True
    then show ?thesis
      using ResolvedBinaryExpr ops_disjoint [OF True] by (auto simp: logical_op_def)
  next
    case False
    then have "comparison_op op" "exprTypeOf l = exprTypeOf r" "exprTypeOf l \<noteq> ExprTypeBool"
      and "op \<noteq> ''AND''" "op \<noteq> ''OR''"
      using ResolvedBinaryExpr.prems by (auto simp: logical_op_def)
    then show ?thesis
      using ResolvedBinaryExpr relation_typed [of op "operand l row" "exprTypeOf l" "operand r row"] by simp
  qed
qed

text \<open>C13: a WHERE clause that the analyzer accepted never panics. In every reachable catalog, on every
  row with one value per column, of the column's type, the evaluator returns the truth value of the
  clause: integers compare as signed numbers, texts byte by byte, AND and OR are the connectives.\<close>

theorem evalBool_correct:
  assumes "cat_reach root db" and "resolveExpr (db_cat db) table w = Ok e" and "exprTypeOf e = ExprTypeBool"
    and "row_of (db_cat db) table row"
  shows "evalBool e row = Ok (truth e row)"
  using eval_typed [OF _ assms(4), of e] resolve_sound [OF assms(2)] cat_reach_inv [OF assms(1)] assms(3)
  by (simp add: evalBool_def)

lemma sample_table:
  obtains db table where "cat_reach ''d'' db" and "fluid (db_pool db)" and "GetTable ''t'' (db_cat db) = Ok (Some table)"
    and "columns_of (db_cat db) table = new_columns 1 (tb_oid table) 0 [sample_proto]"
    and "map_of (cm_typesByOid (db_cat db)) 1 = Some int64_type"
proof -
  obtain db0 table db where s: "cat_reach ''d'' db0" "cm_nextTableOid (db_cat db0) = 1" "cm_nextColumnOid (db_cat db0) = 1"
      "CreateTable ''t'' [sample_proto] db0 = (Ok table, db)" "fluid (db_pool db)" "cat_reach ''d'' db"
    using sample_created by metis
  have left: "oids_left (cm_nextColumnOid (db_cat db0)) (length [sample_proto])" "0 < sint (cm_nextTableOid (db_cat db0))"
    by (simp_all add: s oids_left_def)
  have "tables_wf (db_cat db0)" "columns_wf (db_cat db0)" "counted (db_cat db0)"
    using cat_reach_inv [OF s(1)] cat_syncD(1) by auto
  note e = CreateTable_effect [OF this left(2,1) s(4)]
  have "GetTable ''t'' (db_cat db) = Ok (Some table)"
    and "columns_of (db_cat db) table = new_columns 1 (tb_oid table) 0 [sample_proto]"
    using e(4,6) s(3) by (simp_all add: GetTable_def columns_of_def)
  then show thesis using that s(5,6) cat_reach_types [OF s(6)] by (simp add: builtin_types_def)
qed

definition sample_where :: Expr where
  "sample_where = BinaryExpr ''<'' (ColumnRefExpr (plain_ident ''id'')) (LiteralInt64Expr 5)"

lemma sample_where_eval:
  assumes "columns_of c table = new_columns 1 (tb_oid table) 0 [sample_proto]" and "map_of (cm_typesByOid c) 1 = Some int64_type"
  obtains col where "resolveExpr c table sample_where = Ok (ResolvedBinaryExpr ''<'' (ResolvedColumnRef col ExprTypeInt64)
      (ResolvedConst (VInt64 5) ExprTypeInt64) ExprTypeBool)"
    and "co_position col = 0" and "\<And>n. row_of c table [VInt64 n]"
proof -
  obtain col where col: "columns_of c table = [col]" "co_typeOid col = 1" "co_name col = ''id''" "co_position col = 0"
    using assms(1) by (simp add: sample_proto_def)
  have "resolveExpr c table sample_where = Ok (ResolvedBinaryExpr ''<'' (ResolvedColumnRef col ExprTypeInt64)
      (ResolvedConst (VInt64 5) ExprTypeInt64) ExprTypeBool)"
    using col assms(2) by (simp add: sample_where_def resolveColumnRef_def GetColumn_def columns_of_def [symmetric] GetTypeByOid_def
        plain_ident_def int64_type_def toExprType_def exprTypes_def combineBinary_def semLogicalOps_def semComparisonOps_def)
  moreover have "row_of c table [VInt64 n]" for n
    using col assms(2) by (simp add: row_of_def column_type_def int64_type_def toExprType_def exprTypes_def)
  ultimately show thesis using that col(4) by blast
qed

lemma sample_where_resolved:
  assumes "cat_reach root db" and "columns_of (db_cat db) table = new_columns 1 (tb_oid table) 0 [sample_proto]"
    and "map_of (cm_typesByOid (db_cat db)) 1 = Some int64_type"
  shows "\<exists>e. resolveExpr (db_cat db) table sample_where = Ok e \<and> exprTypeOf e = ExprTypeBool
    \<and> (\<forall>n. row_of (db_cat db) table [VInt64 n]) \<and> (\<forall>n. evalBool e [VInt64 n] = Ok (sint n < 5))"
proof -
  obtain col where col: "resolveExpr (db_cat db) table sample_where = Ok (ResolvedBinaryExpr ''<'' (ResolvedColumnRef col ExprTypeInt64)
      (ResolvedConst (VInt64 5) ExprTypeInt64) ExprTypeBool)" (is "_ = Ok ?e")
    and "co_position col = 0" and "\<And>n. row_of (db_cat db) table [VInt64 n]"
    using sample_where_eval [OF assms(2,3)] by metis
  then have "evalBool ?e [VInt64 n] = Ok (sint n < 5)" for n
    using eval_typed [of "db_cat db" table "[VInt64 n]" ?e] resolve_sound [OF col] cat_reach_inv [OF assms(1)]
    by (simp add: evalBool_def relation_holds_def column_value_def)
  then show ?thesis using col \<open>\<And>n. row_of (db_cat db) table [VInt64 n]\<close> by (metis exprTypeOf.simps(3))
qed

theorem evalBool_correct_witness:
  "\<exists>(db :: Db) table e. resolveExpr (db_cat db) table sample_where = Ok e \<and> evalBool e [VInt64 (-3)] = Ok True
     \<and> evalBool e [VInt64 5] = Ok False"
proof -
  obtain db table where s: "cat_reach ''d'' db"
      "columns_of (db_cat db) table = new_columns 1 (tb_oid table) 0 [sample_proto]"
      "map_of (cm_typesByOid (db_cat db)) 1 = Some int64_type"
    using sample_table by metis
  obtain col where r: "resolveExpr (db_cat db) table sample_where = Ok (ResolvedBinaryExpr ''<'' (ResolvedColumnRef col ExprTypeInt64)
      (ResolvedConst (VInt64 5) ExprTypeInt64) ExprTypeBool)" (is "_ = Ok ?e")
    and col: "co_position col = 0" and row: "\<And>n. row_of (db_cat db) table [VInt64 n]"
    using sample_where_eval [OF s(2,3)] by metis
  have ev: "evalBool ?e [VInt64 n] = Ok (sint n < 5)" for n
    using evalBool_correct [OF s(1) r _ row, of n] col by (simp add: relation_holds_def column_value_def)
  have "evalBool ?e [VInt64 (-3)] = Ok True" "evalBool ?e [VInt64 5] = Ok False"
    using ev [of "-3"] ev [of 5] by simp_all
  then show ?thesis using r by blast
qed

end
