(* ===== verification/Optimizer.thy ===== *)
theory Optimizer
  imports Planner FilterEval
begin

text \<open>
  The optimizer of \<open>internal/core/optimizer\<close>: it turns a logical plan into a physical one and replaces
  the scan under a filter by a hash index lookup, for an equality of a column and a constant, or by a
  B-tree range scan, for comparisons of one column joined by AND. The filter stays above the scan. The
  missing bounds and missing results that are \<open>nil\<close> in the code are \<open>VNil\<close> and \<open>None\<close>; comparing
  values of different types panics.
\<close>

section \<open>Physical plans\<close>

datatype PhysicalPlanNode =
    SeqScanNode TableDefinition
  | HashIndexScanNode TableDefinition IndexDefinition gvalue
  | BTreeIndexScanNode TableDefinition IndexDefinition gvalue bool gvalue bool
  | PhysicalFilterNode PhysicalPlanNode ResolvedExpr
  | PhysicalProjectNode PhysicalPlanNode "ColumnDefinition list"
  | PhysicalCreateTableNode SqlIdent "ResolvedCreateColumn list"
  | PhysicalCreateIndexNode SqlIdent TableDefinition ColumnDefinition IndexType
  | PhysicalInsertNode TableDefinition "ColumnDefinition list" "gvalue list"
  | PhysicalExplainNode PhysicalPlanNode

text \<open>\<open>%v\<close> of a value and of a truth value.\<close>

definition show_bool :: "bool \<Rightarrow> string" where
  "show_bool b = (if b then ''true'' else ''false'')"

fun show_value :: "gvalue \<Rightarrow> string" where
  "show_value VNil = ''<nil>''"
| "show_value (VInt64 n) = show_int (sint n)"
| "show_value (VString s) = s"
| "show_value (VBool b) = show_bool b"

definition show_bound :: "gvalue \<Rightarrow> string" where
  "show_bound v = (if v \<noteq> VNil then show_value v else ''nil'')"

fun physical_DisplayName :: "PhysicalPlanNode \<Rightarrow> string" where
  "physical_DisplayName (SeqScanNode table) = ''SeqScan('' @ tb_name table @ '')''"
| "physical_DisplayName (HashIndexScanNode table idx v) =
     ''HashIndexScan('' @ tb_name table @ '', idx='' @ ix_name idx @ '', value='' @ show_value v @ '')''"
| "physical_DisplayName (BTreeIndexScanNode table idx from fromInclusive to toInclusive) =
     ''BTreeIndexScan('' @ tb_name table @ '', idx='' @ ix_name idx @ '', from='' @ show_bound from @ '' inc='' @ show_bool fromInclusive
       @ '', to='' @ show_bound to @ '' inc='' @ show_bool toInclusive @ '')''"
| "physical_DisplayName (PhysicalFilterNode _ _) = ''Filter''"
| "physical_DisplayName (PhysicalProjectNode _ cols) = ''Project('' @ join_comma (map co_name cols) @ '')''"
| "physical_DisplayName (PhysicalCreateTableNode name _) = ''CreateTable('' @ id_text name @ '')''"
| "physical_DisplayName (PhysicalCreateIndexNode name _ _ _) = ''CreateIndex('' @ id_text name @ '')''"
| "physical_DisplayName (PhysicalInsertNode table _ _) = ''Insert('' @ tb_name table @ '')''"
| "physical_DisplayName (PhysicalExplainNode _) = ''Explain''"

fun physical_Children :: "PhysicalPlanNode \<Rightarrow> PhysicalPlanNode list" where
  "physical_Children (PhysicalFilterNode child _) = [child]"
| "physical_Children (PhysicalProjectNode child _) = [child]"
| "physical_Children (PhysicalExplainNode inner) = [inner]"
| "physical_Children _ = []"

lemma physical_Children_size: "child \<in> set (physical_Children node) \<Longrightarrow> size child < size node"
  by (cases node) auto

function physical_printNode :: "nat \<Rightarrow> PhysicalPlanNode \<Rightarrow> string" where
  "physical_printNode indent node = concat (replicate indent ''  '') @ physical_DisplayName node @ [CHR 0x0A]
     @ concat (map (physical_printNode (indent + 1)) (physical_Children node))"
  by pat_completeness auto
termination by (relation "measure (\<lambda>(_, node). size node)") (auto simp: physical_Children_size)

declare physical_printNode.simps [simp del]

definition physical_PrintPlan :: "PhysicalPlanNode \<Rightarrow> string" where
  "physical_PrintPlan node = physical_printNode 0 node"

section \<open>Ranges\<close>

record rangeInfo =
  ri_column :: ColumnDefinition
  ri_from :: gvalue
  ri_fromInclusive :: bool
  ri_to :: gvalue
  ri_toInclusive :: bool

definition new_range :: "ColumnDefinition \<Rightarrow> rangeInfo" where
  "new_range col = \<lparr>ri_column = col, ri_from = VNil, ri_fromInclusive = False, ri_to = VNil, ri_toInclusive = False\<rparr>"

definition buildEqRange :: "gvalue \<Rightarrow> rangeInfo \<Rightarrow> rangeInfo" where
  "buildEqRange v r = r\<lparr>ri_from := v, ri_to := v, ri_fromInclusive := True, ri_toInclusive := True\<rparr>"

definition buildGtRange :: "gvalue \<Rightarrow> rangeInfo \<Rightarrow> rangeInfo" where
  "buildGtRange v r = r\<lparr>ri_from := v, ri_fromInclusive := False\<rparr>"

definition buildGteRange :: "gvalue \<Rightarrow> rangeInfo \<Rightarrow> rangeInfo" where
  "buildGteRange v r = r\<lparr>ri_from := v, ri_fromInclusive := True\<rparr>"

definition buildLtRange :: "gvalue \<Rightarrow> rangeInfo \<Rightarrow> rangeInfo" where
  "buildLtRange v r = r\<lparr>ri_to := v, ri_toInclusive := False\<rparr>"

definition buildLteRange :: "gvalue \<Rightarrow> rangeInfo \<Rightarrow> rangeInfo" where
  "buildLteRange v r = r\<lparr>ri_to := v, ri_toInclusive := True\<rparr>"

definition compareInt64 :: "int64 \<Rightarrow> int64 \<Rightarrow> int" where
  "compareInt64 a b = (if a <s b then -1 else if b <s a then 1 else 0)"

definition compareString :: "string \<Rightarrow> string \<Rightarrow> int" where
  "compareString a b = (if a < b then -1 else if a > b then 1 else 0)"

fun compareAny :: "gvalue \<Rightarrow> gvalue \<Rightarrow> int result" where
  "compareAny (VInt64 a) (VInt64 b) = Ok (compareInt64 a b)"
| "compareAny (VInt64 _) _ = Panic"
| "compareAny (VString a) (VString b) = Ok (compareString a b)"
| "compareAny (VString _) _ = Panic"
| "compareAny _ _ = Ok 0"

definition mergeFrom :: "rangeInfo \<Rightarrow> rangeInfo \<Rightarrow> (gvalue \<times> bool) result" where
  "mergeFrom left right =
     (if ri_from left = VNil then Ok (ri_from right, ri_fromInclusive right)
      else if ri_from right = VNil then Ok (ri_from left, ri_fromInclusive left)
      else bind_result (compareAny (ri_from left) (ri_from right)) (\<lambda>cmp.
        if cmp > 0 then Ok (ri_from left, ri_fromInclusive left)
        else if cmp < 0 then Ok (ri_from right, ri_fromInclusive right)
        else Ok (ri_from left, ri_fromInclusive left \<and> ri_fromInclusive right)))"

definition mergeTo :: "rangeInfo \<Rightarrow> rangeInfo \<Rightarrow> (gvalue \<times> bool) result" where
  "mergeTo left right =
     (if ri_to left = VNil then Ok (ri_to right, ri_toInclusive right)
      else if ri_to right = VNil then Ok (ri_to left, ri_toInclusive left)
      else bind_result (compareAny (ri_to left) (ri_to right)) (\<lambda>cmp.
        if cmp < 0 then Ok (ri_to left, ri_toInclusive left)
        else if cmp > 0 then Ok (ri_to right, ri_toInclusive right)
        else Ok (ri_to left, ri_toInclusive left \<and> ri_toInclusive right)))"

definition mergeRanges :: "rangeInfo \<Rightarrow> rangeInfo \<Rightarrow> rangeInfo option result" where
  "mergeRanges left right =
     bind_result (mergeFrom left right) (\<lambda>(from, fromInclusive).
     bind_result (mergeTo left right) (\<lambda>(to, toInclusive).
     let merged = \<lparr>ri_column = ri_column left, ri_from = from, ri_fromInclusive = fromInclusive,
                   ri_to = to, ri_toInclusive = toInclusive\<rparr> in
     if from \<noteq> VNil \<and> to \<noteq> VNil
     then bind_result (compareAny from to) (\<lambda>cmp. if cmp > 0 then Ok None else Ok (Some merged))
     else Ok (Some merged)))"

section \<open>What a predicate says about a column\<close>

fun tryExtractColVal :: "ResolvedExpr \<Rightarrow> ResolvedExpr \<Rightarrow> (ColumnDefinition \<times> gvalue) option" where
  "tryExtractColVal (ResolvedColumnRef col _) (ResolvedConst v _) = Some (col, v)"
| "tryExtractColVal _ _ = None"

fun extractEquality :: "ResolvedExpr \<Rightarrow> (ColumnDefinition \<times> gvalue) option" where
  "extractEquality (ResolvedBinaryExpr op l r _) =
     (if op \<noteq> ''='' then None
      else case tryExtractColVal l r of Some cv \<Rightarrow> Some cv | None \<Rightarrow> tryExtractColVal r l)"
| "extractEquality _ = None"

definition invertedOps :: "(string \<times> string) list" where
  "invertedOps = [(''<'', ''>''), (''<='', ''>=''), (''>'', ''<''), (''>='', ''<='')]"

definition invertOp :: "string \<Rightarrow> string" where
  "invertOp op = (case map_of invertedOps op of Some inverted \<Rightarrow> inverted | None \<Rightarrow> op)"

definition rangeBuilders :: "(string \<times> (gvalue \<Rightarrow> rangeInfo \<Rightarrow> rangeInfo)) list" where
  "rangeBuilders = [(''='', buildEqRange), (''>'', buildGtRange), (''>='', buildGteRange), (''<'', buildLtRange),
     (''<='', buildLteRange)]"

definition extractColValOp :: "string \<Rightarrow> ResolvedExpr \<Rightarrow> ResolvedExpr \<Rightarrow> (ColumnDefinition \<times> gvalue \<times> string) option" where
  "extractColValOp op l r =
     (case tryExtractColVal l r of Some (col, v) \<Rightarrow> Some (col, v, op)
      | None \<Rightarrow> (case tryExtractColVal r l of Some (col, v) \<Rightarrow> Some (col, v, invertOp op) | None \<Rightarrow> None))"

definition extractSingleRange :: "string \<Rightarrow> ResolvedExpr \<Rightarrow> ResolvedExpr \<Rightarrow> rangeInfo option" where
  "extractSingleRange bop l r =
     (case extractColValOp bop l r of None \<Rightarrow> None
      | Some (col, v, op) \<Rightarrow>
        (case map_of rangeBuilders op of None \<Rightarrow> None | Some builder \<Rightarrow> Some (builder v (new_range col))))"

definition mergeAndRanges :: "rangeInfo option \<Rightarrow> rangeInfo option \<Rightarrow> rangeInfo option result" where
  "mergeAndRanges left right =
     (case (left, right) of
       (None, r) \<Rightarrow> Ok r
     | (Some l, None) \<Rightarrow> Ok (Some l)
     | (Some l, Some r) \<Rightarrow> if co_oid (ri_column l) \<noteq> co_oid (ri_column r) then Ok None else mergeRanges l r)"

fun extractRange :: "ResolvedExpr \<Rightarrow> rangeInfo option result" where
  "extractRange (ResolvedBinaryExpr op l r _) =
     (if op = ''AND''
      then bind_result (extractRange l) (\<lambda>left. bind_result (extractRange r) (\<lambda>right. mergeAndRanges left right))
      else Ok (extractSingleRange op l r))"
| "extractRange _ = Ok None"

section \<open>Choosing a scan\<close>

definition findIndex :: "Catalog \<Rightarrow> TableDefinition \<Rightarrow> ColumnDefinition \<Rightarrow> IndexType \<Rightarrow> IndexDefinition option" where
  "findIndex c table col t = (case ListIndexes table c of
       Ok indexes \<Rightarrow> find (\<lambda>idx. ix_indexType idx = t \<and> ix_columnOid idx = co_oid col) indexes
     | _ \<Rightarrow> None)"

definition tryHashScan :: "Catalog \<Rightarrow> TableDefinition \<Rightarrow> ResolvedExpr \<Rightarrow> PhysicalPlanNode option" where
  "tryHashScan c table pred = (case extractEquality pred of None \<Rightarrow> None
     | Some (col, v) \<Rightarrow> (case findIndex c table col IndexTypeHash of None \<Rightarrow> None
        | Some idx \<Rightarrow> Some (HashIndexScanNode table idx v)))"

definition tryBTreeScan :: "Catalog \<Rightarrow> TableDefinition \<Rightarrow> ResolvedExpr \<Rightarrow> PhysicalPlanNode option result" where
  "tryBTreeScan c table pred = bind_result (extractRange pred) (\<lambda>rng. case rng of None \<Rightarrow> Ok None
     | Some r \<Rightarrow> (case findIndex c table (ri_column r) IndexTypeBTree of None \<Rightarrow> Ok None
        | Some idx \<Rightarrow> Ok (Some (BTreeIndexScanNode table idx (ri_from r) (ri_fromInclusive r) (ri_to r) (ri_toInclusive r)))))"

definition chooseBestScan :: "Catalog \<Rightarrow> TableDefinition \<Rightarrow> ResolvedExpr \<Rightarrow> PhysicalPlanNode result" where
  "chooseBestScan c table pred = (case tryHashScan c table pred of Some node \<Rightarrow> Ok node
     | None \<Rightarrow> bind_result (tryBTreeScan c table pred) (\<lambda>b. case b of Some node \<Rightarrow> Ok node
        | None \<Rightarrow> Ok (SeqScanNode table)))"

fun Optimize :: "Catalog \<Rightarrow> LogicalPlanNode \<Rightarrow> PhysicalPlanNode result" where
  "Optimize c (ExplainNode inner) = bind_result (Optimize c inner) (\<lambda>p. Ok (PhysicalExplainNode p))"
| "Optimize c (CreateTableNode name cols) = Ok (PhysicalCreateTableNode name cols)"
| "Optimize c (CreateIndexNode name table col ty) = Ok (PhysicalCreateIndexNode name table col ty)"
| "Optimize c (InsertNode table cols vals) = Ok (PhysicalInsertNode table cols vals)"
| "Optimize c (ProjectNode child cols) = bind_result (Optimize c child) (\<lambda>p. Ok (PhysicalProjectNode p cols))"
| "Optimize c (FilterNode child pred) = (case child of
       ScanNode table \<Rightarrow> bind_result (chooseBestScan c table pred) (\<lambda>best. Ok (PhysicalFilterNode best pred))
     | _ \<Rightarrow> bind_result (Optimize c child) (\<lambda>p. Ok (PhysicalFilterNode p pred)))"
| "Optimize c (ScanNode table) = Ok (SeqScanNode table)"

section \<open>Ranges and values\<close>

lemma compareAny_compare: "compareAny a b = compare_values a b"
  by (cases a; cases b) (simp_all add: compareInt64_def compareString_def cmp3_def)

definition within :: "gvalue \<Rightarrow> bool \<Rightarrow> gvalue \<Rightarrow> bool \<Rightarrow> gvalue \<Rightarrow> bool" where
  "within from fromInclusive to toInclusive v \<longleftrightarrow>
     (from \<noteq> VNil \<longrightarrow> v_less from v \<or> fromInclusive \<and> v = from)
     \<and> (to \<noteq> VNil \<longrightarrow> v_less v to \<or> toInclusive \<and> v = to)"

definition in_range :: "rangeInfo \<Rightarrow> gvalue \<Rightarrow> bool" where
  "in_range r v = within (ri_from r) (ri_fromInclusive r) (ri_to r) (ri_toInclusive r) v"

definition lower :: "gvalue \<Rightarrow> bool \<Rightarrow> gvalue \<Rightarrow> bool" where
  "lower from inc v \<longleftrightarrow> from \<noteq> VNil \<longrightarrow> v_less from v \<or> inc \<and> v = from"

definition upper :: "gvalue \<Rightarrow> bool \<Rightarrow> gvalue \<Rightarrow> bool" where
  "upper to inc v \<longleftrightarrow> to \<noteq> VNil \<longrightarrow> v_less v to \<or> inc \<and> v = to"

lemma within_iff: "within from fi to ti v \<longleftrightarrow> lower from fi v \<and> upper to ti v"
  by (simp add: within_def lower_def upper_def)

lemma v_less_trans: "v_less a b \<Longrightarrow> v_less b c \<Longrightarrow> v_less a c"
  by (cases a; cases b; cases c) auto

definition bound_typed :: "ExprType \<Rightarrow> gvalue \<Rightarrow> bool" where
  "bound_typed t b \<longleftrightarrow> b = VNil \<or> value_type b t"

lemma mergeFrom_spec:
  assumes "bound_typed t (ri_from l)" and "bound_typed t (ri_from r)" and "t \<noteq> ExprTypeBool"
  shows "\<exists>f inc. mergeFrom l r = Ok (f, inc) \<and> bound_typed t f
    \<and> (\<forall>v. lower (ri_from l) (ri_fromInclusive l) v \<and> lower (ri_from r) (ri_fromInclusive r) v \<longrightarrow> lower f inc v)"
proof (cases "ri_from l = VNil \<or> ri_from r = VNil")
  case False
  then have "value_type (ri_from l) t" "value_type (ri_from r) t" using assms by (auto simp: bound_typed_def)
  from compare_values_typed [OF this assms(3)] show ?thesis
    using False assms(1,2) by (auto simp: mergeFrom_def compareAny_compare lower_def)
qed (use assms in \<open>auto simp: mergeFrom_def lower_def bound_typed_def\<close>)

lemma mergeTo_spec:
  assumes "bound_typed t (ri_to l)" and "bound_typed t (ri_to r)" and "t \<noteq> ExprTypeBool"
  shows "\<exists>f inc. mergeTo l r = Ok (f, inc) \<and> bound_typed t f
    \<and> (\<forall>v. upper (ri_to l) (ri_toInclusive l) v \<and> upper (ri_to r) (ri_toInclusive r) v \<longrightarrow> upper f inc v)"
proof (cases "ri_to l = VNil \<or> ri_to r = VNil")
  case False
  then have "value_type (ri_to l) t" "value_type (ri_to r) t" using assms by (auto simp: bound_typed_def)
  from compare_values_typed [OF this assms(3)] show ?thesis
    using False assms(1,2) by (auto simp: mergeTo_def compareAny_compare upper_def)
qed (use assms in \<open>auto simp: mergeTo_def upper_def bound_typed_def\<close>)

text \<open>A range of a table: its column is a column of the table and its bounds have the column's type.\<close>

definition range_ok :: "Catalog \<Rightarrow> TableDefinition \<Rightarrow> rangeInfo \<Rightarrow> bool" where
  "range_ok c table r \<longleftrightarrow> ri_column r \<in> set (columns_of c table)
     \<and> (\<exists>t. column_type c (ri_column r) = Some t \<and> bound_typed t (ri_from r) \<and> bound_typed t (ri_to r))"

text \<open>Both ranges are ranges of one column: merging succeeds and what lies in both lies in the result.\<close>

lemma mergeRanges_spec:
  assumes l: "range_ok c table l" and r: "range_ok c table r" and col: "ri_column l = ri_column r"
  shows "\<exists>m. mergeRanges l r = Ok m \<and> (\<forall>ri. m = Some ri \<longrightarrow> range_ok c table ri \<and> ri_column ri = ri_column l
    \<and> (\<forall>v. in_range l v \<and> in_range r v \<longrightarrow> in_range ri v))"
proof -
  obtain t where t: "column_type c (ri_column l) = Some t" "bound_typed t (ri_from l)" "bound_typed t (ri_to l)"
      "bound_typed t (ri_from r)" "bound_typed t (ri_to r)" "t \<noteq> ExprTypeBool"
    using l r col column_not_bool [of c "ri_column l"] by (auto simp: range_ok_def)
  obtain f fi where f: "mergeFrom l r = Ok (f, fi)" "bound_typed t f"
      "\<And>v. lower (ri_from l) (ri_fromInclusive l) v \<Longrightarrow> lower (ri_from r) (ri_fromInclusive r) v \<Longrightarrow> lower f fi v"
    using mergeFrom_spec [OF t(2,4,6)] by blast
  obtain u ui where u: "mergeTo l r = Ok (u, ui)" "bound_typed t u"
      "\<And>v. upper (ri_to l) (ri_toInclusive l) v \<Longrightarrow> upper (ri_to r) (ri_toInclusive r) v \<Longrightarrow> upper u ui v"
    using mergeTo_spec [OF t(3,5,6)] by blast
  let ?m = "\<lparr>ri_column = ri_column l, ri_from = f, ri_fromInclusive = fi, ri_to = u, ri_toInclusive = ui\<rparr>"
  have m: "range_ok c table ?m \<and> (\<forall>v. in_range l v \<and> in_range r v \<longrightarrow> in_range ?m v)"
    using l t(1) f(2,3) u(2,3) by (auto simp: range_ok_def in_range_def within_iff)
  have "\<exists>n. compareAny f u = Ok n" if "f \<noteq> VNil" "u \<noteq> VNil"
    using compare_values_typed [of f t u] f(2) u(2) t(6) that by (auto simp: bound_typed_def compareAny_compare)
  then show ?thesis
    using m by (auto simp: mergeRanges_def f(1) u(1) Let_def)
qed

lemma invertOp_relation: "comparison_op op \<Longrightarrow> relation_holds op a b \<Longrightarrow> relation_holds (invertOp op) b a"
  by (auto simp: comparison_op_def relation_holds_def invertOp_def invertedOps_def)

lemma tryExtractColVal_Some:
  "tryExtractColVal l r = Some (col, v) \<Longrightarrow> \<exists>t t'. l = ResolvedColumnRef col t \<and> r = ResolvedConst v t'"
  by (cases l; cases r) auto

text \<open>An equality or comparison of a column and a constant, in either order.\<close>

lemma extractColValOp_spec:
  assumes "extractColValOp op l r = Some (col, v, op')" and "resolved c table (ResolvedBinaryExpr op l r ExprTypeBool)"
  shows "col \<in> set (columns_of c table)" and "\<exists>t. column_type c col = Some t \<and> value_type v t"
    and "truth (ResolvedBinaryExpr op l r ExprTypeBool) row \<Longrightarrow> relation_holds op' (column_value col row) v"
proof -
  have *: "col \<in> set (columns_of c table) \<and> (\<exists>t. column_type c col = Some t \<and> value_type v t)
    \<and> (truth (ResolvedBinaryExpr op l r ExprTypeBool) row \<longrightarrow> relation_holds op' (column_value col row) v)"
  proof (cases "tryExtractColVal l r")
    case (Some cv)
    then have "tryExtractColVal l r = Some (col, v)" and op': "op' = op"
      using assms(1) by (auto simp: extractColValOp_def split: prod.splits)
    then obtain t t' where "l = ResolvedColumnRef col t" "r = ResolvedConst v t'" using tryExtractColVal_Some by blast
    then show ?thesis using assms(2) column_not_bool by (auto simp: op' logical_op_def)
  next
    case None
    then have "tryExtractColVal r l = Some (col, v)" and op': "op' = invertOp op"
      using assms(1) by (auto simp: extractColValOp_def split: option.splits prod.splits)
    then obtain t t' where lr: "r = ResolvedColumnRef col t" "l = ResolvedConst v t'" using tryExtractColVal_Some by blast
    then have cmp: "comparison_op op" "\<not> logical_op op" using assms(2) column_not_bool ops_disjoint by auto
    then show ?thesis
      using assms(2) lr invertOp_relation [OF cmp(1), of v "column_value col row"] by (auto simp: op' logical_op_def)
  qed
  then show "col \<in> set (columns_of c table)" "\<exists>t. column_type c col = Some t \<and> value_type v t"
    "truth (ResolvedBinaryExpr op l r ExprTypeBool) row \<Longrightarrow> relation_holds op' (column_value col row) v" by auto
qed

lemma range_of_relation:
  assumes "map_of rangeBuilders op = Some builder" and "value_type v t" and "relation_holds op a v"
  shows "in_range (builder v (new_range col)) a"
  using assms
  by (auto simp: rangeBuilders_def in_range_def within_def relation_holds_def new_range_def buildEqRange_def
      buildGtRange_def buildGteRange_def buildLtRange_def buildLteRange_def split: if_splits)

lemma builder_range:
  assumes "map_of rangeBuilders op = Some builder" and "value_type v t"
  shows "ri_column (builder v (new_range col)) = col" "bound_typed t (ri_from (builder v (new_range col)))"
    "bound_typed t (ri_to (builder v (new_range col)))"
  using assms
  by (auto simp: rangeBuilders_def new_range_def buildEqRange_def bound_typed_def
      buildGtRange_def buildGteRange_def buildLtRange_def buildLteRange_def split: if_splits)

lemma same_column:
  assumes "columns_wf c" and "col \<in> set (columns_of c table)" and "col' \<in> set (columns_of c table)" and "co_oid col = co_oid col'"
  shows "col = col'"
  using assms columns_wfD(5) [OF assms(1), of "tb_oid table"]
  by (auto simp: columns_of_def distinct_map dest: inj_onD)

fun bound_by :: "rangeInfo option \<Rightarrow> gvalue list \<Rightarrow> bool" where
  "bound_by None row \<longleftrightarrow> True"
| "bound_by (Some ri) row \<longleftrightarrow> in_range ri (column_value (ri_column ri) row)"

lemma mergeAndRanges_spec:
  assumes "columns_wf c" and "\<And>ri. ml = Some ri \<Longrightarrow> range_ok c table ri" and "\<And>ri. mr = Some ri \<Longrightarrow> range_ok c table ri"
  shows "\<exists>m. mergeAndRanges ml mr = Ok m \<and> (\<forall>ri. m = Some ri \<longrightarrow> range_ok c table ri
    \<and> (\<forall>row. bound_by ml row \<and> bound_by mr row \<longrightarrow> in_range ri (column_value (ri_column ri) row)))"
proof (cases ml)
  case (Some l)
  show ?thesis
  proof (cases mr)
    case (Some r)
    have ok: "range_ok c table l" "range_ok c table r" using assms(2,3) Some \<open>ml = _\<close> by auto
    show ?thesis
    proof (cases "co_oid (ri_column l) = co_oid (ri_column r)")
      case True
      then have col: "ri_column l = ri_column r" using same_column [OF assms(1)] ok unfolding range_ok_def by blast
      obtain m where m: "mergeRanges l r = Ok m" "\<And>ri. m = Some ri \<Longrightarrow> range_ok c table ri \<and> ri_column ri = ri_column l
          \<and> (\<forall>v. in_range l v \<and> in_range r v \<longrightarrow> in_range ri v)"
        using mergeRanges_spec [OF ok col] by blast
      have "mergeAndRanges ml mr = Ok m" using True Some \<open>ml = _\<close> m(1) by (simp add: mergeAndRanges_def)
      moreover have "in_range ri (column_value (ri_column ri) row)" if "m = Some ri" "bound_by ml row" "bound_by mr row" for ri row
        using m(2) [OF that(1)] that(2,3) Some \<open>ml = _\<close> col by simp
      ultimately show ?thesis using m(2) by blast
    qed (simp add: mergeAndRanges_def Some \<open>ml = _\<close>)
  qed (use assms(2) Some in \<open>simp add: mergeAndRanges_def\<close>)
qed (use assms(3) in \<open>simp add: mergeAndRanges_def\<close>)

lemma extractRange_spec:
  assumes "columns_wf c"
  shows "resolved c table e \<Longrightarrow> \<exists>m. extractRange e = Ok m \<and> (\<forall>ri. m = Some ri \<longrightarrow> range_ok c table ri
    \<and> (\<forall>row. truth e row \<longrightarrow> in_range ri (column_value (ri_column ri) row)))"
proof (induction e)
  case (ResolvedBinaryExpr op l r t)
  show ?case
  proof (cases "op = ''AND''")
    case True
    obtain ml mr where m: "extractRange l = Ok ml" "extractRange r = Ok mr"
      and ml: "\<And>ri. ml = Some ri \<Longrightarrow> range_ok c table ri \<and> (\<forall>row. truth l row \<longrightarrow> in_range ri (column_value (ri_column ri) row))"
      and mr: "\<And>ri. mr = Some ri \<Longrightarrow> range_ok c table ri \<and> (\<forall>row. truth r row \<longrightarrow> in_range ri (column_value (ri_column ri) row))"
      using ResolvedBinaryExpr by auto
    from mergeAndRanges_spec [OF assms, of ml table mr] ml mr obtain m' where "mergeAndRanges ml mr = Ok m'"
        "\<And>ri. m' = Some ri \<Longrightarrow> range_ok c table ri
          \<and> (\<forall>row. bound_by ml row \<and> bound_by mr row \<longrightarrow> in_range ri (column_value (ri_column ri) row))"
      by blast
    moreover have "bound_by ml row" if "truth l row" for row using ml that by (cases ml) simp_all
    moreover have "bound_by mr row" if "truth r row" for row using mr that by (cases mr) simp_all
    ultimately show ?thesis using True m by simp
  next
    case False
    have t: "t = ExprTypeBool" using ResolvedBinaryExpr.prems by simp
    note spec = extractColValOp_spec [OF _ ResolvedBinaryExpr.prems [unfolded t]]
    have "range_ok c table ri \<and> (\<forall>row. truth (ResolvedBinaryExpr op l r t) row \<longrightarrow> in_range ri (column_value (ri_column ri) row))"
      if single: "extractSingleRange op l r = Some ri" for ri
    proof -
      obtain col v op' builder where x: "extractColValOp op l r = Some (col, v, op')" "map_of rangeBuilders op' = Some builder"
          "ri = builder v (new_range col)"
        using single by (auto simp: extractSingleRange_def split: option.splits)
      obtain t' where t': "column_type c col = Some t'" "value_type v t'" using spec(2) [OF x(1)] by blast
      show ?thesis
        using spec(1,3) [OF x(1)] t' builder_range [OF x(2) t'(2), of col] range_of_relation [OF x(2) t'(2)]
        by (auto simp: x(3) range_ok_def t)
    qed
    then show ?thesis using False by simp
  qed
qed simp_all

section \<open>The chosen scan\<close>

text \<open>The rows a scan asks for, in terms of the indexed column, and the table and index it reads.\<close>

definition index_column :: "Catalog \<Rightarrow> TableDefinition \<Rightarrow> IndexDefinition \<Rightarrow> ColumnDefinition option" where
  "index_column c table idx = find (\<lambda>col. co_oid col = ix_columnOid idx) (columns_of c table)"

fun admits :: "Catalog \<Rightarrow> PhysicalPlanNode \<Rightarrow> gvalue list \<Rightarrow> bool" where
  "admits c (SeqScanNode table) row \<longleftrightarrow> True"
| "admits c (HashIndexScanNode table idx v) row \<longleftrightarrow>
     (case index_column c table idx of None \<Rightarrow> False | Some col \<Rightarrow> column_value col row = v)"
| "admits c (BTreeIndexScanNode table idx from fi to ti) row \<longleftrightarrow>
     (case index_column c table idx of None \<Rightarrow> False | Some col \<Rightarrow> within from fi to ti (column_value col row))"
| "admits c _ row \<longleftrightarrow> False"

fun scan_of :: "Catalog \<Rightarrow> TableDefinition \<Rightarrow> PhysicalPlanNode \<Rightarrow> bool" where
  "scan_of c table (SeqScanNode t) \<longleftrightarrow> t = table"
| "scan_of c table (HashIndexScanNode t idx v) \<longleftrightarrow> t = table \<and> ListIndexes table c = Ok (slice_at (cm_indexesByTableOid c) (tb_oid table))
     \<and> idx \<in> set (slice_at (cm_indexesByTableOid c) (tb_oid table)) \<and> ix_indexType idx = IndexTypeHash
     \<and> (\<exists>col t. index_column c table idx = Some col \<and> column_type c col = Some t \<and> value_type v t)"
| "scan_of c table (BTreeIndexScanNode t idx from fi to ti) \<longleftrightarrow> t = table
     \<and> idx \<in> set (slice_at (cm_indexesByTableOid c) (tb_oid table)) \<and> ix_indexType idx = IndexTypeBTree
     \<and> (\<exists>col t. index_column c table idx = Some col \<and> column_type c col = Some t \<and> bound_typed t from \<and> bound_typed t to)"
| "scan_of c table _ \<longleftrightarrow> False"

lemma findIndex_Some:
  assumes "columns_wf c" and "findIndex c table col ty = Some idx" and "col \<in> set (columns_of c table)"
  shows "idx \<in> set (slice_at (cm_indexesByTableOid c) (tb_oid table))" and "ix_indexType idx = ty"
    and "index_column c table idx = Some col"
proof -
  have i: "idx \<in> set (slice_at (cm_indexesByTableOid c) (tb_oid table)) \<and> ix_indexType idx = ty \<and> ix_columnOid idx = co_oid col"
    using assms(2) by (auto simp: findIndex_def ListIndexes_def find_Some_iff)
  obtain col' where col': "index_column c table idx = Some col'"
    using assms(3) i by (cases "index_column c table idx") (auto simp: index_column_def find_None_iff)
  then have "col' \<in> set (columns_of c table)" "co_oid col' = co_oid col"
    using i by (auto simp: index_column_def find_Some_iff)
  with same_column [OF assms(1) _ assms(3)] col' show "index_column c table idx = Some col" by simp
qed (use assms(2) in \<open>auto simp: findIndex_def ListIndexes_def find_Some_iff\<close>)

lemma tryHashScan_spec:
  assumes "columns_wf c" and "resolved c table e" and "tryHashScan c table e = Some node"
  shows "scan_of c table node \<and> (\<forall>row. truth e row \<longrightarrow> admits c node row)"
proof -
  obtain col v idx where x: "extractEquality e = Some (col, v)" "findIndex c table col IndexTypeHash = Some idx"
      "node = HashIndexScanNode table idx v"
    using assms(3) by (auto simp: tryHashScan_def split: option.splits)
  obtain l r t where e: "e = ResolvedBinaryExpr ''='' l r t"
    using x(1) by (cases e rule: extractEquality.cases) (auto split: if_splits)
  have t: "t = ExprTypeBool" using assms(2) e by simp
  have "extractColValOp ''='' l r = Some (col, v, ''='')"
    using x(1) by (auto simp: e extractColValOp_def invertOp_def invertedOps_def split: option.splits)
  note s = extractColValOp_spec [OF this, of c table]
  have res: "resolved c table (ResolvedBinaryExpr ''='' l r ExprTypeBool)" using assms(2) by (simp only: e t)
  note f = findIndex_Some [OF assms(1) x(2) s(1) [OF res]]
  have "truth e row \<Longrightarrow> column_value col row = v" for row
    using s(3) [OF res, of row] by (simp add: e t relation_holds_def)
  then show ?thesis
    using s(2) [OF res] f by (auto simp: x(3) ListIndexes_def)
qed

lemma tryBTreeScan_spec:
  assumes "columns_wf c" and "resolved c table e"
  shows "\<exists>m. tryBTreeScan c table e = Ok m
    \<and> (\<forall>node. m = Some node \<longrightarrow> scan_of c table node \<and> (\<forall>row. truth e row \<longrightarrow> admits c node row))"
proof -
  obtain m where m: "extractRange e = Ok m" and ri: "\<And>ri. m = Some ri \<Longrightarrow> range_ok c table ri
      \<and> (\<forall>row. truth e row \<longrightarrow> in_range ri (column_value (ri_column ri) row))"
    using extractRange_spec [OF assms] by blast
  show ?thesis
  proof (cases m)
    case (Some r)
    show ?thesis
    proof (cases "findIndex c table (ri_column r) IndexTypeBTree")
      case (Some idx)
      have "ri_column r \<in> set (columns_of c table)" using ri [OF \<open>m = _\<close>] by (simp add: range_ok_def)
      note f = findIndex_Some [OF assms(1) Some this]
      show ?thesis
        using ri [OF \<open>m = _\<close>] f Some m \<open>m = _\<close> by (auto simp: tryBTreeScan_def range_ok_def in_range_def)
    qed (use m Some in \<open>simp add: tryBTreeScan_def\<close>)
  qed (use m in \<open>simp add: tryBTreeScan_def\<close>)
qed

lemma chooseBestScan_spec:
  assumes "columns_wf c" and "resolved c table e"
  shows "\<exists>node. chooseBestScan c table e = Ok node \<and> scan_of c table node \<and> (\<forall>row. truth e row \<longrightarrow> admits c node row)"
proof (cases "tryHashScan c table e")
  case None
  obtain m where m: "tryBTreeScan c table e = Ok m"
      "\<And>node. m = Some node \<Longrightarrow> scan_of c table node \<and> (\<forall>row. truth e row \<longrightarrow> admits c node row)"
    using tryBTreeScan_spec [OF assms] by blast
  then show ?thesis using None by (cases m) (auto simp: chooseBestScan_def)
qed (use tryHashScan_spec [OF assms] in \<open>simp add: chooseBestScan_def\<close>)

lemma Analyze_Ok: "Analyze c stmt = Ok q \<Longrightarrow> wf_query c q"
  using Analyze_semantic [of c stmt] by simp

lemma Optimize_wf:
  assumes "columns_wf c" and "wf_query c q"
  shows "\<exists>p. Optimize c (Plan q) = Ok p"
  using assms(2)
proof (induction q)
  case (SelectQueryTree table cols f)
  then show ?case
    using chooseBestScan_spec [OF assms(1), of table] by (cases f) (fastforce simp: planSelect_def)+
qed auto

section \<open>Properties\<close>

text \<open>In every reachable catalog, every statement the analyzer accepts is planned and optimized
  without a panic: the ranges that are merged belong to one column, so the values that are compared have
  one type.\<close>

lemma Optimize_never_panics:
  assumes "cat_reach root db" and "Analyze (db_cat db) stmt = Ok q"
  shows "\<exists>p. Optimize (db_cat db) (Plan q) = Ok p"
  using Optimize_wf Analyze_Ok [OF assms(2)] cat_reach_inv [OF assms(1)] by blast

text \<open>C5: replacing a sequential scan by an index scan loses no row. For an accepted SELECT with a WHERE
  clause, the physical plan projects a filter with the same clause over a scan of the table, which is
  sequential or reads an index of that table, and every row of the table on which the clause evaluates to
  true has, in the indexed column, the value looked up or a value in the range that is scanned.\<close>

theorem Optimize_scan_sound:
  assumes "cat_reach root db" and "Analyze (db_cat db) stmt = Ok (SelectQueryTree table cols (Some e))"
  shows "\<exists>scan. Optimize (db_cat db) (Plan (SelectQueryTree table cols (Some e)))
        = Ok (PhysicalProjectNode (PhysicalFilterNode scan e) cols)
    \<and> scan_of (db_cat db) table scan
    \<and> (\<forall>row. row_of (db_cat db) table row \<longrightarrow> evalBool e row = Ok True \<longrightarrow> admits (db_cat db) scan row)"
proof -
  let ?c = "db_cat db"
  have wf: "columns_wf ?c" using cat_reach_inv [OF assms(1)] by blast
  have e: "resolved ?c table e" "exprTypeOf e = ExprTypeBool" using Analyze_Ok [OF assms(2)] by simp_all
  obtain scan where s: "chooseBestScan ?c table e = Ok scan" "scan_of ?c table scan" "\<And>row. truth e row \<Longrightarrow> admits ?c scan row"
    using chooseBestScan_spec [OF wf e(1)] by blast
  have "truth e row" if "row_of ?c table row" "evalBool e row = Ok True" for row
    using eval_typed [OF wf that(1) e(1)] e(2) that(2) by (simp add: evalBool_def)
  then show ?thesis using s by (simp add: planSelect_def)
qed

definition sample_select :: Statement where
  "sample_select = SelectStmt True [] (plain_ident ''t'') (Some sample_where)"

lemma sample_select_Ok:
  obtains db table cols e where "cat_reach ''d'' db" and "Analyze (db_cat db) sample_select = Ok (SelectQueryTree table cols (Some e))"
    and "\<And>n. row_of (db_cat db) table [VInt64 n]" and "\<And>n. evalBool e [VInt64 n] = Ok (sint n < 5)"
proof -
  obtain db table where s: "cat_reach ''d'' db" "GetTable ''t'' (db_cat db) = Ok (Some table)"
      "columns_of (db_cat db) table = new_columns 1 (tb_oid table) 0 [sample_proto]"
      "map_of (cm_typesByOid (db_cat db)) 1 = Some int64_type"
    using sample_table by metis
  obtain e where e: "resolveExpr (db_cat db) table sample_where = Ok e" "exprTypeOf e = ExprTypeBool"
      "\<And>n. row_of (db_cat db) table [VInt64 n]" "\<And>n. evalBool e [VInt64 n] = Ok (sint n < 5)"
    using sample_where_resolved [OF s(1,3,4)] by blast
  have "Analyze (db_cat db) sample_select = Ok (SelectQueryTree table (columns_of (db_cat db) table) (Some e))"
    using s(2) e by (simp add: sample_select_def analyzeSelect_def plain_ident_def GetColumns_def columns_of_def)
  then show thesis using that s(1) e(3,4) by blast
qed

theorem Optimize_scan_sound_witness:
  "\<exists>(db :: Db) table cols e scan. Analyze (db_cat db) sample_select = Ok (SelectQueryTree table cols (Some e))
    \<and> Optimize (db_cat db) (Plan (SelectQueryTree table cols (Some e))) = Ok (PhysicalProjectNode (PhysicalFilterNode scan e) cols)
    \<and> scan_of (db_cat db) table scan \<and> admits (db_cat db) scan [VInt64 (-3)]"
proof -
  obtain db table cols e where s: "cat_reach ''d'' db" "Analyze (db_cat db) sample_select = Ok (SelectQueryTree table cols (Some e))"
      "\<And>n. row_of (db_cat db) table [VInt64 n]" "\<And>n. evalBool e [VInt64 n] = Ok (sint n < 5)"
    using sample_select_Ok by metis
  have "evalBool e [VInt64 (-3)] = Ok True" using s(4) [of "-3"] by simp
  with Optimize_scan_sound [OF s(1,2)] s(2,3) show ?thesis by blast
qed

end
