(* ===== verification/Executors.thy ===== *)
theory Executors
  imports IndexManager Optimizer TableHeap
begin

text \<open>
  The executors of \<open>internal/core/execution\<close>: a tree of operators that is opened, asked for one row after the
  other and closed. An executor is a value here, and an operation returns the changed executor beside the
  changed database. A row is a slice; the nil slice, which says that there are no more rows, is \<open>None\<close>, and
  it is also what a row without columns is read as. Only the code that asks the indexes may run forever.
\<close>

type_synonym row = "gvalue list option"

definition row_slice :: "gvalue list \<Rightarrow> row" where
  "row_slice vs = (if vs = [] then None else Some vs)"

text \<open>Operations on an executor and the database: one that only changes the database, and one that changes
  the executor.\<close>

definition in_engine :: "(Engine, 'a) prog \<Rightarrow> ('e \<times> Engine, 'a) prog" where
  "in_engine m = (\<lambda>(ex, en). case m en of (r, en') \<Rightarrow> (r, (ex, en')))"

definition in_engine_o :: "(Engine, 'a) oprog \<Rightarrow> ('e \<times> Engine, 'a) oprog" where
  "in_engine_o m = (\<lambda>(ex, en). map_option (\<lambda>(r, en'). (r, (ex, en'))) (m en))"

definition set_exec :: "('e \<Rightarrow> 'e) \<Rightarrow> ('e \<times> Engine, unit) prog" where
  "set_exec f = (\<lambda>(ex, en). (Ok (), (f ex, en)))"

section \<open>Scans\<close>

text \<open>What the three scan executors have in common: the identifiers they found and how many are read.\<close>

record ScanCursor =
  sc_tableHeap :: TableHeap
  sc_tids :: "TID list"
  sc_cursor :: nat
  sc_isOpen :: bool

type_synonym SeqScanExecutor = ScanCursor

record HashIndexScanExecutor = ScanCursor +
  hs_idx :: string
  hs_searchKey :: gvalue

record BTreeIndexScanExecutor = ScanCursor +
  ts_idx :: string
  ts_from :: gvalue
  ts_fromInclusive :: bool
  ts_to :: gvalue
  ts_toInclusive :: bool

definition NewSeqScanExecutor :: "TableHeap \<Rightarrow> SeqScanExecutor" where
  "NewSeqScanExecutor heap = \<lparr>sc_tableHeap = heap, sc_tids = [], sc_cursor = 0, sc_isOpen = False\<rparr>"

definition NewHashIndexScanExecutor :: "string \<Rightarrow> gvalue \<Rightarrow> TableHeap \<Rightarrow> HashIndexScanExecutor" where
  "NewHashIndexScanExecutor idx searchKey heap = \<lparr>sc_tableHeap = heap, sc_tids = [], sc_cursor = 0, sc_isOpen = False,
     hs_idx = idx, hs_searchKey = searchKey\<rparr>"

definition NewBTreeIndexScanExecutor ::
    "string \<Rightarrow> gvalue \<Rightarrow> bool \<Rightarrow> gvalue \<Rightarrow> bool \<Rightarrow> TableHeap \<Rightarrow> BTreeIndexScanExecutor" where
  "NewBTreeIndexScanExecutor idx from fromInclusive to toInclusive heap =
     \<lparr>sc_tableHeap = heap, sc_tids = [], sc_cursor = 0, sc_isOpen = False, ts_idx = idx, ts_from = from,
      ts_fromInclusive = fromInclusive, ts_to = to, ts_toInclusive = toInclusive\<rparr>"

definition start_cursor :: "TID list \<Rightarrow> ('a ScanCursor_scheme \<times> Engine, unit) prog" where
  "start_cursor tids = set_exec (\<lambda>ex. ex\<lparr>sc_tids := tids, sc_cursor := 0, sc_isOpen := True\<rparr>)"

definition cursor_Next :: "('a ScanCursor_scheme \<times> Engine, row) prog" where
  "cursor_Next = (\<lambda>(ex, en).
     if \<not> sc_isOpen ex then (Err ErrNotOpen, (ex, en))
     else if length (sc_tids ex) \<le> sc_cursor ex then (Ok None, (ex, en))
     else let tid = sc_tids ex ! sc_cursor ex in
       seq (set_exec (\<lambda>ex. ex\<lparr>sc_cursor := sc_cursor ex + 1\<rparr>)) (\<lambda>_.
       in_engine (on_db (seq (ReadRow (sc_tableHeap ex) tid) (\<lambda>row. pure (row_slice row))))) (ex, en))"

definition cursor_Close :: "'a ScanCursor_scheme \<Rightarrow> 'a ScanCursor_scheme" where
  "cursor_Close ex = ex\<lparr>sc_isOpen := False, sc_tids := []\<rparr>"

definition seq_scan_Open :: "(SeqScanExecutor \<times> Engine, unit) prog" where
  "seq_scan_Open = (\<lambda>(ex, en). seq (in_engine (on_db (ScanTids (sc_tableHeap ex)))) start_cursor (ex, en))"

definition seq_scan_Next :: "(SeqScanExecutor \<times> Engine, row) prog" where
  "seq_scan_Next = cursor_Next"

definition seq_scan_Close :: "SeqScanExecutor \<Rightarrow> SeqScanExecutor" where
  "seq_scan_Close = cursor_Close"

definition hash_scan_Open :: "(HashIndexScanExecutor \<times> Engine, unit) oprog" where
  "hash_scan_Open = (\<lambda>(ex, en).
     oseq (in_engine_o (Index_Search (hs_idx ex) (hs_searchKey ex))) (\<lambda>tids. once (start_cursor tids)) (ex, en))"

definition hash_scan_Next :: "(HashIndexScanExecutor \<times> Engine, row) prog" where
  "hash_scan_Next = cursor_Next"

definition hash_scan_Close :: "HashIndexScanExecutor \<Rightarrow> HashIndexScanExecutor" where
  "hash_scan_Close = cursor_Close"

definition btree_scan_Open :: "(BTreeIndexScanExecutor \<times> Engine, unit) oprog" where
  "btree_scan_Open = (\<lambda>(ex, en).
     oseq (in_engine_o (Index_RangeSearch (ts_idx ex) (ts_from ex) (ts_fromInclusive ex) (ts_to ex) (ts_toInclusive ex)))
       (\<lambda>tids. once (start_cursor tids)) (ex, en))"

definition btree_scan_Next :: "(BTreeIndexScanExecutor \<times> Engine, row) prog" where
  "btree_scan_Next = cursor_Next"

definition btree_scan_Close :: "BTreeIndexScanExecutor \<Rightarrow> BTreeIndexScanExecutor" where
  "btree_scan_Close = cursor_Close"

section \<open>Statements that run once\<close>

record InsertExecutor =
  ie_tableHeap :: TableHeap
  ie_table :: TableDefinition
  ie_columns :: "ColumnDefinition list"
  ie_values :: "gvalue list"
  ie_executed :: bool

record CreateTableExecutor =
  te_tableName :: SqlIdent
  te_columns :: "ResolvedCreateColumn list"
  te_executed :: bool

record CreateIndexExecutor =
  xe_root :: string
  xe_indexName :: SqlIdent
  xe_table :: TableDefinition
  xe_column :: ColumnDefinition
  xe_indexType :: IndexType
  xe_executed :: bool

text \<open>The position of the first column with an oid, the loops that leave \<open>colPos\<close> at -1 when there is none.\<close>

fun column_position :: "ColumnDefinition list \<Rightarrow> int32 \<Rightarrow> nat option" where
  "column_position [] oid = None"
| "column_position (col # cols) oid = (if co_oid col = oid then Some 0 else map_option Suc (column_position cols oid))"

fun update_indexes :: "ColumnDefinition list \<Rightarrow> gvalue list \<Rightarrow> TID \<Rightarrow> IndexDefinition list \<Rightarrow> (Engine, unit) oprog" where
  "update_indexes columns values tid [] = once (pure ())"
| "update_indexes columns values tid (def # defs) =
     oseq (once (GetOrCreate def)) (\<lambda>idx.
     case column_position columns (ix_columnOid def) of
       None \<Rightarrow> once (lift_result (Err (ErrIndexPositionNotFound (ix_name def))))
     | Some colPos \<Rightarrow>
         if length values \<le> colPos then once (lift_result (Err (ErrIndexPositionNotFound (ix_name def))))
         else oseq (Index_Insert idx (values ! colPos) tid) (\<lambda>_. update_indexes columns values tid defs))"

definition insert_run :: "InsertExecutor \<Rightarrow> (Engine, row) oprog" where
  "insert_run ex =
     oseq (once (on_db (InsertRow (ie_tableHeap ex) (ie_values ex)))) (\<lambda>tid en.
     oseq (once (lift_result (ListIndexes (ie_table ex) (db_cat (en_db en))))) (\<lambda>indexes.
     oseq (update_indexes (ie_columns ex) (ie_values ex) tid indexes) (\<lambda>_. once (pure None))) en)"

fun proto_columns :: "nat \<Rightarrow> ResolvedCreateColumn list \<Rightarrow> ColumnDefinition list result" where
  "proto_columns i [] = Ok []"
| "proto_columns i (c # cs) =
     bind_result (NewColumnDefinition 0 0 (ty_oid (rc_typeDef c)) (id_text (rc_name c)) (word_of_nat i)) (\<lambda>col.
     bind_result (proto_columns (i + 1) cs) (\<lambda>cols. Ok (col # cols)))"

definition create_table_run :: "CreateTableExecutor \<Rightarrow> (Engine, row) prog" where
  "create_table_run ex =
     seq (lift_result (proto_columns 0 (te_columns ex))) (\<lambda>columns.
     seq (on_db (CreateTable (id_text (te_tableName ex)) columns)) (\<lambda>_. pure None))"

text \<open>The loop of \<open>CREATE INDEX\<close> over the rows that are in the table.\<close>

fun backfill :: "TableHeap \<Rightarrow> nat \<Rightarrow> string \<Rightarrow> TID list \<Rightarrow> (Engine, unit) oprog" where
  "backfill heap colPos idx [] = once (pure ())"
| "backfill heap colPos idx (tid # tids) =
     oseq (once (on_db (ReadRow heap tid))) (\<lambda>row.
     if length row \<le> colPos then once (lift_result (Err (ErrIndexPosition (int colPos))))
     else oseq (Index_Insert idx (row ! colPos) tid) (\<lambda>_. backfill heap colPos idx tids))"

definition create_index_run :: "CreateIndexExecutor \<Rightarrow> (Engine, row) oprog" where
  "create_index_run ex =
     oseq (once (on_db (CreateIndex (id_text (xe_indexName ex)) (tb_name (xe_table ex)) (co_name (xe_column ex)) (xe_indexType ex)))) (\<lambda>def.
     oseq (once (GetOrCreate def)) (\<lambda>idx en. let c = db_cat (en_db en) in
     oseq (once (lift_result (NewTableHeap (xe_root ex) (xe_table ex) c))) (\<lambda>heap.
     oseq (once (lift_result (GetColumns (xe_table ex) c))) (\<lambda>columns.
     case column_position columns (co_oid (xe_column ex)) of
       None \<Rightarrow> once (lift_result (Err (ErrIndexColumn (co_name (xe_column ex)))))
     | Some colPos \<Rightarrow>
         oseq (once (on_db (ScanTids heap))) (\<lambda>tids.
         oseq (backfill heap colPos idx tids) (\<lambda>_. once (pure None))))) en))"

text \<open>The guard of \<open>Next\<close>: the statement runs on the first call only, whether it succeeds or not.\<close>

definition run_once :: "('e \<Rightarrow> bool) \<Rightarrow> ('e \<Rightarrow> 'e) \<Rightarrow> ('e \<Rightarrow> (Engine, row) oprog) \<Rightarrow> ('e \<times> Engine, row) oprog" where
  "run_once executed mark run = (\<lambda>(ex, en).
     if executed ex then Some (Ok None, (ex, en))
     else oseq (once (set_exec mark)) (\<lambda>_. in_engine_o (run ex)) (ex, en))"

definition insert_Next :: "(InsertExecutor \<times> Engine, row) oprog" where
  "insert_Next = run_once ie_executed (\<lambda>ex. ex\<lparr>ie_executed := True\<rparr>) insert_run"

definition create_table_Next :: "(CreateTableExecutor \<times> Engine, row) oprog" where
  "create_table_Next = run_once te_executed (\<lambda>ex. ex\<lparr>te_executed := True\<rparr>) (\<lambda>ex. once (create_table_run ex))"

definition create_index_Next :: "(CreateIndexExecutor \<times> Engine, row) oprog" where
  "create_index_Next = run_once xe_executed (\<lambda>ex. ex\<lparr>xe_executed := True\<rparr>) create_index_run"

section \<open>The tree of executors\<close>

datatype Executor =
    SeqScanExec SeqScanExecutor
  | HashIndexScanExec HashIndexScanExecutor
  | BTreeIndexScanExec BTreeIndexScanExecutor
  | InsertExec InsertExecutor
  | CreateTableExec CreateTableExecutor
  | CreateIndexExec CreateIndexExecutor
  | FilterExec Executor ResolvedExpr bool
  | ProjectExec Executor "int32 list" bool

definition NewFilterExecutor :: "Executor \<Rightarrow> ResolvedExpr \<Rightarrow> Executor" where
  "NewFilterExecutor child predicate = FilterExec child predicate False"

definition NewProjectExecutor :: "Executor \<Rightarrow> ColumnDefinition list \<Rightarrow> Executor" where
  "NewProjectExecutor child columns = ProjectExec child (map co_position columns) False"

text \<open>An operation of one kind of executor on the tree that consists of it.\<close>

definition at_leaf :: "('e \<Rightarrow> Executor) \<Rightarrow> ('e \<times> Engine, 'a) oprog \<Rightarrow> 'e \<Rightarrow> Engine \<Rightarrow> ('a result \<times> Executor \<times> Engine) option" where
  "at_leaf C m ex en = map_option (\<lambda>(r, ex', en'). (r, C ex', en')) (m (ex, en))"

text \<open>Filter and project open their child and, when that succeeds, themselves.\<close>

fun exec_Open :: "Executor \<Rightarrow> Engine \<Rightarrow> (unit result \<times> Executor \<times> Engine) option" where
  "exec_Open (SeqScanExec ex) en = at_leaf SeqScanExec (once seq_scan_Open) ex en"
| "exec_Open (HashIndexScanExec ex) en = at_leaf HashIndexScanExec hash_scan_Open ex en"
| "exec_Open (BTreeIndexScanExec ex) en = at_leaf BTreeIndexScanExec btree_scan_Open ex en"
| "exec_Open (InsertExec ex) en = Some (Ok (), InsertExec ex, en)"
| "exec_Open (CreateTableExec ex) en = Some (Ok (), CreateTableExec ex, en)"
| "exec_Open (CreateIndexExec ex) en = Some (Ok (), CreateIndexExec ex, en)"
| "exec_Open (FilterExec child predicate isOpen) en =
     map_option (\<lambda>(r, child', en'). (r, FilterExec child' predicate (isOpen \<or> is_ok r), en')) (exec_Open child en)"
| "exec_Open (ProjectExec child positions isOpen) en =
     map_option (\<lambda>(r, child', en'). (r, ProjectExec child' positions (isOpen \<or> is_ok r), en')) (exec_Open child en)"

text \<open>The row a projection makes of a row: indexing out of its range panics.\<close>

definition project_row :: "int32 list \<Rightarrow> gvalue list \<Rightarrow> gvalue list result" where
  "project_row positions row = traverse (row_index row) positions"

text \<open>\<open>Next\<close>: filter asks its child until a row satisfies the predicate.\<close>

partial_function (option) exec_Next :: "Executor \<Rightarrow> Engine \<Rightarrow> (row result \<times> Executor \<times> Engine) option" where
  "exec_Next exec en = (case exec of
     SeqScanExec ex \<Rightarrow> at_leaf SeqScanExec (once seq_scan_Next) ex en
   | HashIndexScanExec ex \<Rightarrow> at_leaf HashIndexScanExec (once hash_scan_Next) ex en
   | BTreeIndexScanExec ex \<Rightarrow> at_leaf BTreeIndexScanExec (once btree_scan_Next) ex en
   | InsertExec ex \<Rightarrow> at_leaf InsertExec insert_Next ex en
   | CreateTableExec ex \<Rightarrow> at_leaf CreateTableExec create_table_Next ex en
   | CreateIndexExec ex \<Rightarrow> at_leaf CreateIndexExec create_index_Next ex en
   | FilterExec child predicate isOpen \<Rightarrow>
       if \<not> isOpen then Some (Err ErrNotOpen, FilterExec child predicate isOpen, en)
       else Option.bind (exec_Next child en) (\<lambda>(r, child', en').
         case r of Ok (Some row) \<Rightarrow> (case evalBool predicate row of
             Ok b \<Rightarrow> if b then Some (Ok (Some row), FilterExec child' predicate isOpen, en')
               else exec_Next (FilterExec child' predicate isOpen) en'
           | Err e \<Rightarrow> Some (Err e, FilterExec child' predicate isOpen, en')
           | Panic \<Rightarrow> Some (Panic, FilterExec child' predicate isOpen, en'))
         | other \<Rightarrow> Some (other, FilterExec child' predicate isOpen, en'))
   | ProjectExec child positions isOpen \<Rightarrow>
       if \<not> isOpen then Some (Err ErrNotOpen, ProjectExec child positions isOpen, en)
       else Option.bind (exec_Next child en) (\<lambda>(r, child', en').
         Some (bind_result r (\<lambda>row. case row of None \<Rightarrow> Ok None
             | Some row \<Rightarrow> bind_result (project_row positions row) (\<lambda>out. Ok (Some out))),
           ProjectExec child' positions isOpen, en')))"

fun exec_Close :: "Executor \<Rightarrow> Executor" where
  "exec_Close (SeqScanExec ex) = SeqScanExec (seq_scan_Close ex)"
| "exec_Close (HashIndexScanExec ex) = HashIndexScanExec (hash_scan_Close ex)"
| "exec_Close (BTreeIndexScanExec ex) = BTreeIndexScanExec (btree_scan_Close ex)"
| "exec_Close (FilterExec child predicate isOpen) = FilterExec (exec_Close child) predicate False"
| "exec_Close (ProjectExec child positions isOpen) = ProjectExec (exec_Close child) positions False"
| "exec_Close exec = exec"

section \<open>From plans to executors\<close>

text \<open>
  The factory: one creator per node type. Every type of node has a creator, so the error for an
  unsupported node cannot occur.
\<close>

definition createSeqScan :: "string \<Rightarrow> TableDefinition \<Rightarrow> (Engine, Executor) prog" where
  "createSeqScan root table en =
     seq (lift_result (NewTableHeap root table (db_cat (en_db en)))) (\<lambda>heap. pure (SeqScanExec (NewSeqScanExecutor heap))) en"

definition createHashIndexScan :: "string \<Rightarrow> TableDefinition \<Rightarrow> IndexDefinition \<Rightarrow> gvalue \<Rightarrow> (Engine, Executor) prog" where
  "createHashIndexScan root table index_def v en =
     seq (lift_result (NewTableHeap root table (db_cat (en_db en)))) (\<lambda>heap.
     seq (GetOrCreate index_def) (\<lambda>idx. pure (HashIndexScanExec (NewHashIndexScanExecutor idx v heap)))) en"

definition createBTreeIndexScan ::
    "string \<Rightarrow> TableDefinition \<Rightarrow> IndexDefinition \<Rightarrow> gvalue \<Rightarrow> bool \<Rightarrow> gvalue \<Rightarrow> bool \<Rightarrow> (Engine, Executor) prog" where
  "createBTreeIndexScan root table index_def from fromInclusive to toInclusive en =
     seq (lift_result (NewTableHeap root table (db_cat (en_db en)))) (\<lambda>heap.
     seq (GetOrCreate index_def) (\<lambda>idx.
       pure (BTreeIndexScanExec (NewBTreeIndexScanExecutor idx from fromInclusive to toInclusive heap)))) en"

definition createInsert :: "string \<Rightarrow> TableDefinition \<Rightarrow> ColumnDefinition list \<Rightarrow> gvalue list \<Rightarrow> (Engine, Executor) prog" where
  "createInsert root table columns values en =
     seq (lift_result (NewTableHeap root table (db_cat (en_db en)))) (\<lambda>heap.
     pure (InsertExec \<lparr>ie_tableHeap = heap, ie_table = table, ie_columns = columns, ie_values = values, ie_executed = False\<rparr>)) en"

fun CreateExecutor :: "string \<Rightarrow> PhysicalPlanNode \<Rightarrow> (Engine, Executor) prog" where
  "CreateExecutor root (PhysicalExplainNode inner) = CreateExecutor root inner"
| "CreateExecutor root (PhysicalCreateTableNode name cols) =
     pure (CreateTableExec \<lparr>te_tableName = name, te_columns = cols, te_executed = False\<rparr>)"
| "CreateExecutor root (PhysicalCreateIndexNode name table col ty) =
     pure (CreateIndexExec \<lparr>xe_root = root, xe_indexName = name, xe_table = table, xe_column = col, xe_indexType = ty, xe_executed = False\<rparr>)"
| "CreateExecutor root (PhysicalInsertNode table cols vals) = createInsert root table cols vals"
| "CreateExecutor root (PhysicalProjectNode child cols) =
     seq (CreateExecutor root child) (\<lambda>ex. pure (NewProjectExecutor ex cols))"
| "CreateExecutor root (PhysicalFilterNode child pred) =
     seq (CreateExecutor root child) (\<lambda>ex. pure (NewFilterExecutor ex pred))"
| "CreateExecutor root (SeqScanNode table) = createSeqScan root table"
| "CreateExecutor root (HashIndexScanNode table index_def v) = createHashIndexScan root table index_def v"
| "CreateExecutor root (BTreeIndexScanNode table index_def from fromInclusive to toInclusive) =
     createBTreeIndexScan root table index_def from fromInclusive to toInclusive"

section \<open>The engine\<close>

partial_function (option) fetch_rows ::
    "gvalue list list \<Rightarrow> Executor \<Rightarrow> Engine \<Rightarrow> (gvalue list list result \<times> Executor \<times> Engine) option" where
  "fetch_rows rows exec en = Option.bind (exec_Next exec en) (\<lambda>(r, exec', en').
     case r of Ok (Some row) \<Rightarrow> fetch_rows (rows @ [row]) exec' en'
     | Ok None \<Rightarrow> Some (Ok rows, exec', en')
     | Err e \<Rightarrow> Some (Err e, exec', en')
     | Panic \<Rightarrow> Some (Panic, exec', en'))"

text \<open>An executor that was opened is closed whatever happens.\<close>

definition engine_Execute :: "Executor \<Rightarrow> Engine \<Rightarrow> (gvalue list list result \<times> Executor \<times> Engine) option" where
  "engine_Execute exec en = Option.bind (exec_Open exec en) (\<lambda>(r, exec', en').
     case r of Ok _ \<Rightarrow> map_option (\<lambda>(r', exec'', en''). (r', exec_Close exec'', en'')) (fetch_rows [] exec' en')
     | Err e \<Rightarrow> Some (Err e, exec', en')
     | Panic \<Rightarrow> Some (Panic, exec', en'))"

end
