(* ===== verification/Parser.thy ===== *)
theory Parser
  imports Ast
begin

text \<open>
  The recursive descent parser of \<open>internal/core/sql/parser/sql_parser.go\<close>. The parser object is
  its tokens and a position; \<open>current\<close> clamps the position to the last token, so on a token list
  that does not end with the end-of-file token the code may recurse for ever (for example on a
  single \<open>EXPLAIN\<close>). A parser is therefore a function to an option: \<open>None\<close> says that it does not
  return within the fuel, which counts nested calls and loop passes. Fuel larger than the number of
  tokens is enough for every list that \<open>Tokenize\<close> returns.
\<close>

record SqlParser =
  ps_tokens :: "Token list"
  ps_pos :: nat

type_synonym 'a parser = "SqlParser \<Rightarrow> ('a result \<times> SqlParser) option"

definition preturn :: "'a \<Rightarrow> 'a parser" where
  "preturn x p = Some (Ok x, p)"

definition pbind :: "'a parser \<Rightarrow> ('a \<Rightarrow> 'b parser) \<Rightarrow> 'b parser" where
  "pbind f g p = (case f p of None \<Rightarrow> None | Some (Ok x, p') \<Rightarrow> g x p'
     | Some (Err e, p') \<Rightarrow> Some (Err e, p') | Some (Panic, p') \<Rightarrow> Some (Panic, p'))"

definition ps_current :: "SqlParser \<Rightarrow> Token" where
  "ps_current p = ps_tokens p ! min (ps_pos p) (length (ps_tokens p) - 1)"

definition ps_advance :: "SqlParser \<Rightarrow> SqlParser" where
  "ps_advance p = p\<lparr>ps_pos := ps_pos p + 1\<rparr>"

definition currentType :: "SqlParser \<Rightarrow> TokenType" where
  "currentType p = tok_type (ps_current p)"

definition padvance :: "unit parser" where
  "padvance p = Some (Ok (), ps_advance p)"

definition pmatch :: "TokenType \<Rightarrow> bool parser" where
  "pmatch ty p = (if currentType p = ty then Some (Ok True, ps_advance p) else Some (Ok False, p))"

definition perrorf :: "string \<Rightarrow> 'a parser" where
  "perrorf msg p = (let t = ps_current p in
     Some (Err (SqlSyntaxError msg (tok_start t) (tok_line t) (tok_column t)), p))"

definition pexpect :: "TokenType \<Rightarrow> unit parser" where
  "pexpect ty p =
     (if currentType p \<noteq> ty
      then perrorf (''Expected '' @ TokenType_String ty @ '', got '' @ TokenType_String (currentType p)) p
      else Some (Ok (), ps_advance p))"

definition expectIdent :: "SqlIdent parser" where
  "expectIdent p = (let t = ps_current p in
     pbind (pexpect TK_IDENT) (\<lambda>_. preturn
       \<lparr>id_text = tok_text t, id_offset = tok_start t, id_line = tok_line t, id_column = tok_column t\<rparr>) p)"

section \<open>Lists\<close>

fun commaList_loop :: "nat \<Rightarrow> 'a parser \<Rightarrow> 'a list \<Rightarrow> 'a list parser" where
  "commaList_loop 0 parse items p = None"
| "commaList_loop (Suc n) parse items p =
     pbind (pmatch TK_COMMA) (\<lambda>m. if m
       then pbind parse (\<lambda>item. commaList_loop n parse (items @ [item])) else preturn items) p"

definition parseCommaList :: "nat \<Rightarrow> 'a parser \<Rightarrow> 'a list parser" where
  "parseCommaList n parse = pbind parse (\<lambda>item. commaList_loop n parse [item])"

definition parseParenList :: "nat \<Rightarrow> 'a parser \<Rightarrow> 'a list parser" where
  "parseParenList n parse =
     pbind (pexpect TK_LPAREN) (\<lambda>_. pbind (parseCommaList n parse) (\<lambda>items.
     pbind (pexpect TK_RPAREN) (\<lambda>_. preturn items)))"

section \<open>Expressions\<close>

text \<open>\<open>strconv.ParseInt(s, 10, 64)\<close>: an optional sign and decimal digits, in range.\<close>

definition digit_value :: "char \<Rightarrow> nat option" where
  "digit_value c = (let r = of_char c in if isDigit r then Some (r - 48) else None)"

fun dec_value :: "nat \<Rightarrow> string \<Rightarrow> nat option" where
  "dec_value acc [] = Some acc"
| "dec_value acc (c # cs) = (case digit_value c of None \<Rightarrow> None | Some d \<Rightarrow> dec_value (10 * acc + d) cs)"

definition ParseInt :: "string \<Rightarrow> int64 option" where
  "ParseInt s =
     (let neg = (s \<noteq> [] \<and> hd s = CHR ''-'');
          digits = (if s \<noteq> [] \<and> (hd s = CHR ''-'' \<or> hd s = CHR ''+'') then tl s else s) in
      if digits = [] then None
      else case dec_value 0 digits of None \<Rightarrow> None | Some v \<Rightarrow>
        let i = (if neg then - int v else int v) in
        if - (2 ^ 63) \<le> i \<and> i < 2 ^ 63 then Some (word_of_int i) else None)"

definition parseLiteral :: "Expr parser" where
  "parseLiteral p = (let t = ps_current p; p1 = ps_advance p in
     if tok_type t = TK_NUMBER
     then case ParseInt (tok_text t) of
            None \<Rightarrow> perrorf (''Invalid number: '' @ tok_text t) p1
          | Some v \<Rightarrow> Some (Ok (LiteralInt64Expr v), p1)
     else Some (Ok (LiteralStringExpr (tok_text t)), p1))"

fun comparisonOps :: "TokenType \<Rightarrow> string option" where
  "comparisonOps TK_EQ = Some ''=''"
| "comparisonOps TK_NE = Some ''<>''"
| "comparisonOps TK_LT = Some ''<''"
| "comparisonOps TK_LE = Some ''<=''"
| "comparisonOps TK_GT = Some ''>''"
| "comparisonOps TK_GE = Some ''>=''"
| "comparisonOps _ = None"

definition parsePrimary :: "Expr parser \<Rightarrow> Expr parser" where
  "parsePrimary expr p = (let ty = currentType p in
     if ty = TK_IDENT then pbind expectIdent (\<lambda>i. preturn (ColumnRefExpr i)) p
     else if ty = TK_NUMBER \<or> ty = TK_STRING then parseLiteral p
     else if ty = TK_LPAREN
     then pbind padvance (\<lambda>_. pbind expr (\<lambda>e. pbind (pexpect TK_RPAREN) (\<lambda>_. preturn e))) p
     else perrorf (''Unexpected token: '' @ TokenType_String ty) p)"

definition parseComparison :: "Expr parser \<Rightarrow> Expr parser" where
  "parseComparison expr = pbind (parsePrimary expr) (\<lambda>left p.
     case comparisonOps (currentType p) of
       Some op \<Rightarrow> pbind padvance (\<lambda>_. pbind (parsePrimary expr) (\<lambda>right.
                    preturn (BinaryExpr op left right))) p
     | None \<Rightarrow> preturn left p)"

fun binaryLeft_loop :: "nat \<Rightarrow> Expr parser \<Rightarrow> TokenType \<Rightarrow> string \<Rightarrow> Expr \<Rightarrow> Expr parser" where
  "binaryLeft_loop 0 nxt op opStr left p = None"
| "binaryLeft_loop (Suc n) nxt op opStr left p =
     pbind (pmatch op) (\<lambda>m. if m
       then pbind nxt (\<lambda>right. binaryLeft_loop n nxt op opStr (BinaryExpr opStr left right))
       else preturn left) p"

definition parseBinaryLeft :: "nat \<Rightarrow> Expr parser \<Rightarrow> TokenType \<Rightarrow> string \<Rightarrow> Expr parser" where
  "parseBinaryLeft n nxt op opStr = pbind nxt (\<lambda>left. binaryLeft_loop n nxt op opStr left)"

fun parseExpr :: "nat \<Rightarrow> Expr parser" where
  "parseExpr 0 = (\<lambda>p. None)"
| "parseExpr (Suc n) =
     parseBinaryLeft (Suc n) (parseBinaryLeft (Suc n) (parseComparison (parseExpr n)) TK_AND ''AND'')
       TK_OR ''OR''"

section \<open>Statements\<close>

definition parseColumnDef :: "ColumnDef parser" where
  "parseColumnDef = pbind expectIdent (\<lambda>name p.
     if currentType p \<notin> {TK_INT64, TK_VARCHAR, TK_IDENT}
     then perrorf (''Expected type name, got '' @ TokenType_String (currentType p)) p
     else let typeName = ToUpper (tok_text (ps_current p)) in
       pbind padvance (\<lambda>_. preturn \<lparr>cd_name = name, cd_typeName = typeName\<rparr>) p)"

definition parseCreateTable :: "nat \<Rightarrow> Statement parser" where
  "parseCreateTable n = pbind padvance (\<lambda>_. pbind expectIdent (\<lambda>tableName.
     pbind (parseParenList n parseColumnDef) (\<lambda>columns.
     pbind (pmatch TK_SEMICOLON) (\<lambda>_. preturn (CreateTableStmt tableName columns)))))"

fun indexTypes :: "TokenType \<Rightarrow> IndexType option" where
  "indexTypes TK_HASH = Some IndexTypeHash"
| "indexTypes TK_BTREE = Some IndexTypeBTree"
| "indexTypes _ = None"

definition parseCreateIndex :: "Statement parser" where
  "parseCreateIndex = pbind padvance (\<lambda>_. pbind expectIdent (\<lambda>indexName.
     pbind (pexpect TK_ON) (\<lambda>_. pbind expectIdent (\<lambda>tableName.
     pbind (pexpect TK_LPAREN) (\<lambda>_. pbind expectIdent (\<lambda>columnName.
     pbind (pexpect TK_RPAREN) (\<lambda>_. pbind (pexpect TK_USING) (\<lambda>_ p.
       case indexTypes (currentType p) of
         None \<Rightarrow> perrorf (''Expected HASH or BTREE, got '' @ TokenType_String (currentType p)) p
       | Some idxType \<Rightarrow> pbind padvance (\<lambda>_. pbind (pmatch TK_SEMICOLON) (\<lambda>_.
           preturn (CreateIndexStmt indexName tableName columnName idxType))) p))))))))"

definition parseCreate :: "nat \<Rightarrow> Statement parser" where
  "parseCreate n = pbind padvance (\<lambda>_ p.
     if currentType p = TK_TABLE then parseCreateTable n p
     else if currentType p = TK_INDEX then parseCreateIndex p
     else perrorf (''Expected TABLE or INDEX, got '' @ TokenType_String (currentType p)) p)"

definition parseInsert :: "nat \<Rightarrow> Statement parser" where
  "parseInsert n = pbind padvance (\<lambda>_. pbind (pexpect TK_INTO) (\<lambda>_. pbind expectIdent (\<lambda>tableName.
     pbind (pexpect TK_VALUES) (\<lambda>_. pbind (parseParenList n parseLiteral) (\<lambda>values.
     pbind (pmatch TK_SEMICOLON) (\<lambda>_. preturn (InsertStmt tableName values)))))))"

definition parseSelect :: "nat \<Rightarrow> Statement parser" where
  "parseSelect n = pbind padvance (\<lambda>_. pbind (pmatch TK_ASTERISK) (\<lambda>all.
     pbind (if all then preturn [] else parseCommaList n expectIdent) (\<lambda>columns.
     pbind (pexpect TK_FROM) (\<lambda>_. pbind expectIdent (\<lambda>tableName.
     pbind (pmatch TK_WHERE) (\<lambda>w.
     pbind (if w then pbind (parseExpr n) (\<lambda>e. preturn (Some e)) else preturn None) (\<lambda>whr.
     pbind (pmatch TK_SEMICOLON) (\<lambda>_. preturn (SelectStmt all columns tableName whr)))))))))"

fun parseStatement :: "nat \<Rightarrow> Statement parser" where
  "parseStatement 0 p = None"
| "parseStatement (Suc n) p =
     (if currentType p = TK_EXPLAIN
      then pbind padvance (\<lambda>_. pbind (parseStatement n) (\<lambda>inner.
             pbind (pmatch TK_SEMICOLON) (\<lambda>_. preturn (ExplainStmt inner)))) p
      else if currentType p = TK_CREATE then parseCreate n p
      else if currentType p = TK_INSERT then parseInsert n p
      else if currentType p = TK_SELECT then parseSelect n p
      else perrorf (''Unexpected token: '' @ TokenType_String (currentType p)) p)"

definition parse_fuel :: "nat \<Rightarrow> Token list \<Rightarrow> Statement result option" where
  "parse_fuel n tokens =
     (if tokens = [] then Some Panic
      else map_option fst (pbind (parseStatement n) (\<lambda>stmt. pbind (pexpect TK_EOF) (\<lambda>_. preturn stmt))
             \<lparr>ps_tokens = tokens, ps_pos = 0\<rparr>))"

definition Parse :: "Token list \<Rightarrow> Statement result option" where
  "Parse tokens = parse_fuel (length tokens + 2) tokens"

section \<open>Every parser returns\<close>

definition ps_ok :: "SqlParser \<Rightarrow> bool" where
  "ps_ok p \<longleftrightarrow> ps_tokens p \<noteq> [] \<and> tok_type (last (ps_tokens p)) = TK_EOF"

definition ps_rem :: "SqlParser \<Rightarrow> nat" where
  "ps_rem p = length (ps_tokens p) - ps_pos p"

text \<open>\<open>returns p out\<close>: from \<open>p\<close>, the outcome is a value or a syntax error and the parser moved forward;
  \<open>total_at k f\<close>: so is that of \<open>f\<close> whenever at most \<open>k\<close> tokens are left.\<close>

definition returns :: "SqlParser \<Rightarrow> ('a result \<times> SqlParser) option \<Rightarrow> bool" where
  "returns p out \<longleftrightarrow> (\<exists>r p'. out = Some (r, p') \<and> r \<noteq> Panic \<and> ps_tokens p' = ps_tokens p
     \<and> ps_pos p \<le> ps_pos p')"

definition total_at :: "nat \<Rightarrow> 'a parser \<Rightarrow> bool" where
  "total_at k f \<longleftrightarrow> (\<forall>p. ps_ok p \<longrightarrow> ps_rem p \<le> k \<longrightarrow> returns p (f p))"

named_theorems total_intros "parsers that return"

lemma total_atI: "(\<And>p. ps_ok p \<Longrightarrow> ps_rem p \<le> k \<Longrightarrow> returns p (f p)) \<Longrightarrow> total_at k f"
  by (simp add: total_at_def)

lemma total_atD: "total_at k f \<Longrightarrow> ps_ok p \<Longrightarrow> ps_rem p \<le> k \<Longrightarrow> returns p (f p)"
  by (simp add: total_at_def)

lemma returnsE:
  assumes "returns p out"
  obtains r p' where "out = Some (r, p')" and "r \<noteq> Panic" and "ps_tokens p' = ps_tokens p"
    and "ps_pos p \<le> ps_pos p'"
  using assms unfolding returns_def by blast

lemma total_at_mono: "total_at k f \<Longrightarrow> j \<le> k \<Longrightarrow> total_at j f"
  unfolding total_at_def by (meson order_trans)

lemma total_preturn [total_intros]: "total_at k (preturn x)"
  by (simp add: total_at_def preturn_def returns_def)

lemma total_pbind [total_intros]:
  assumes "total_at k f" and "\<And>x. total_at k (g x)"
  shows "total_at k (pbind f g)"
proof (rule total_atI)
  fix p
  assume p: "ps_ok p" "ps_rem p \<le> k"
  obtain r p' where f: "f p = Some (r, p')" "r \<noteq> Panic" "ps_tokens p' = ps_tokens p" "ps_pos p \<le> ps_pos p'"
    using returnsE [OF total_atD [OF assms(1) p]] .
  have p': "ps_ok p'" "ps_rem p' \<le> k"
    using p f(3,4) by (auto simp: ps_ok_def ps_rem_def)
  show "returns p (pbind f g p)"
  proof (cases r)
    case (Ok x)
    from total_atD [OF assms(2) p', of x] show ?thesis
      using f Ok by (auto simp: pbind_def returns_def)
  qed (use f in \<open>simp_all add: pbind_def returns_def\<close>)
qed

lemma total_if [total_intros]: "total_at k f \<Longrightarrow> total_at k g \<Longrightarrow> total_at k (if b then f else g)"
  by simp

lemma total_test:
  "total_at k f \<Longrightarrow> total_at k g \<Longrightarrow> total_at k (\<lambda>p. if P p then f p else g p)"
  by (simp add: total_at_def)

lemma total_dep: "(\<And>x. total_at k (f x)) \<Longrightarrow> total_at k (\<lambda>p. f (h p) p)"
  by (simp add: total_at_def)

lemma total_option:
  "total_at k g \<Longrightarrow> (\<And>y. total_at k (h y))
    \<Longrightarrow> total_at k (\<lambda>p. case ob p of None \<Rightarrow> g p | Some y \<Rightarrow> h y p)"
  by (simp add: total_at_def split: option.splits)

lemma ps_advance_sel [simp]: "ps_tokens (ps_advance p) = ps_tokens p" "ps_pos (ps_advance p) = ps_pos p + 1"
  by (simp_all add: ps_advance_def)

lemma total_basic [total_intros]:
  "total_at k padvance" "total_at k (pmatch ty)" "total_at k (perrorf msg)" "total_at k (pexpect ty)"
  by (simp_all add: total_at_def returns_def padvance_def pmatch_def perrorf_def pexpect_def Let_def)

lemma total_expectIdent [total_intros]: "total_at k expectIdent"
  unfolding expectIdent_def Let_def
  by (rule total_dep [where h = ps_current and f = "\<lambda>t. pbind (pexpect TK_IDENT) (\<lambda>_. preturn (_ t))"])
     (intro total_intros)

lemma total_parseLiteral [total_intros]: "total_at k parseLiteral"
  by (simp add: total_at_def returns_def parseLiteral_def perrorf_def Let_def split: option.splits)

text \<open>A token that is not the end of file is followed by another one.\<close>

lemma current_not_EOF:
  assumes "ps_ok p" and "currentType p \<noteq> TK_EOF"
  shows "ps_pos p + 1 < length (ps_tokens p)"
proof (rule ccontr)
  assume "\<not> ?thesis"
  then have "min (ps_pos p) (length (ps_tokens p) - 1) = length (ps_tokens p) - 1" by simp
  then have "ps_current p = last (ps_tokens p)"
    using assms(1) by (simp add: ps_current_def ps_ok_def last_conv_nth)
  then show False using assms by (simp add: currentType_def ps_ok_def)
qed

lemma total_after_token:
  assumes tot: "\<And>j. j < k \<Longrightarrow> total_at j f" and p: "ps_ok p" "ps_rem p \<le> k" and tok: "currentType p \<noteq> TK_EOF"
  shows "returns p (f (ps_advance p))"
proof -
  have l: "ps_pos p + 1 < length (ps_tokens p)" using current_not_EOF p(1) tok .
  then have "ps_rem (ps_advance p) < k" "ps_ok (ps_advance p)"
    using p by (simp_all add: ps_rem_def ps_ok_def)
  then have "returns (ps_advance p) (f (ps_advance p))"
    using tot total_atD by blast
  then show ?thesis by (auto simp: returns_def)
qed

lemma pbind_Ok: "f p = Some (Ok x, p') \<Longrightarrow> pbind f g p = g x p'"
  by (simp add: pbind_def)

lemma pbind_padvance: "pbind padvance (\<lambda>_. f) p = f (ps_advance p)"
  by (simp add: pbind_def padvance_def)

lemma pbind_pmatch: "pbind (pmatch ty) f p = (if currentType p = ty then f True (ps_advance p) else f False p)"
  by (simp add: pbind_def pmatch_def)

lemma total_binaryLeft_loop:
  assumes "total_at k nxt" and "k < n" and "op \<noteq> TK_EOF"
  shows "total_at k (binaryLeft_loop n nxt op opStr left)"
  using assms
proof (induction n arbitrary: k left)
  case (Suc n)
  have "total_at j (pbind nxt (\<lambda>right. binaryLeft_loop n nxt op opStr (BinaryExpr opStr left right)))"
    if "j < k" for j
    using Suc.IH Suc.prems that total_at_mono [OF Suc.prems(1), of j] by (intro total_pbind) auto
  from total_after_token [OF this] show ?case
    using Suc.prems(3) by (intro total_atI) (auto simp: pbind_pmatch preturn_def returns_def [of _ "Some _"])
qed simp

lemma total_commaList_loop:
  assumes "total_at k parse" and "k < n"
  shows "total_at k (commaList_loop n parse items)"
  using assms
proof (induction n arbitrary: k items)
  case (Suc n)
  have "total_at j (pbind parse (\<lambda>item. commaList_loop n parse (items @ [item])))" if "j < k" for j
    using Suc.IH Suc.prems that total_at_mono [OF Suc.prems(1), of j] by (intro total_pbind) auto
  from total_after_token [OF this] show ?case
    by (intro total_atI) (auto simp: pbind_pmatch preturn_def returns_def [of _ "Some _"])
qed simp

lemma total_lists [total_intros]:
  "total_at k parse \<Longrightarrow> k < n \<Longrightarrow> total_at k (parseCommaList n parse)"
  "total_at k parse \<Longrightarrow> k < n \<Longrightarrow> total_at k (parseParenList n parse)"
  by (auto simp: parseCommaList_def parseParenList_def intro!: total_intros total_commaList_loop)

lemma total_parsePrimary:
  assumes "\<And>j. j < k \<Longrightarrow> total_at j expr"
  shows "total_at k (parsePrimary expr)"
proof (rule total_atI)
  fix p
  assume p: "ps_ok p" "ps_rem p \<le> k"
  let ?f = "pbind expr (\<lambda>e. pbind (pexpect TK_RPAREN) (\<lambda>_. preturn e))"
  have "returns p (pbind expectIdent (\<lambda>i. preturn (ColumnRefExpr i)) p)" "returns p (parseLiteral p)"
    by (rule total_atD [OF _ p], intro total_intros)+
  moreover have "returns p (?f (ps_advance p))" if "currentType p = TK_LPAREN"
    by (rule total_after_token [OF _ p]) (use that in \<open>auto intro!: total_intros assms\<close>)
  moreover have "returns p ((perrorf m :: Expr parser) p)" for m
    by (rule total_atD [OF total_basic(3) p])
  ultimately show "returns p (parsePrimary expr p)"
    unfolding parsePrimary_def Let_def pbind_padvance by (simp del: append.simps)
qed

lemma total_parseComparison:
  assumes "\<And>j. j < k \<Longrightarrow> total_at j expr"
  shows "total_at k (parseComparison expr)"
proof -
  note pr = total_parsePrimary [OF assms]
  have "total_at k (\<lambda>p. case comparisonOps (currentType p) of
       Some op \<Rightarrow> pbind padvance (\<lambda>_. pbind (parsePrimary expr) (\<lambda>right.
                    preturn (BinaryExpr op left right))) p
     | None \<Rightarrow> preturn left p)" for left
    by (intro total_option total_intros pr)
  then show ?thesis unfolding parseComparison_def by (intro total_pbind pr)
qed

lemma total_parseExpr: "k < n \<Longrightarrow> total_at k (parseExpr n)"
proof (induction n arbitrary: k)
  case (Suc n)
  have c: "total_at k (parseComparison (parseExpr n))"
    using Suc by (intro total_parseComparison) auto
  show ?case
    unfolding parseExpr.simps parseBinaryLeft_def
    by (intro total_pbind total_binaryLeft_loop c Suc.prems) simp_all
qed simp

lemma total_parseColumnDef: "total_at k parseColumnDef"
proof -
  have "total_at k (\<lambda>p. perrorf (''Expected type name, got '' @ TokenType_String (currentType p)) p)"
    by (rule total_dep [where h = currentType]) (rule total_basic)
  moreover have "total_at k (\<lambda>p. pbind padvance (\<lambda>_. preturn
      \<lparr>cd_name = name, cd_typeName = ToUpper (tok_text (ps_current p))\<rparr>) p)" for name
    by (rule total_dep [where h = ps_current and f = "\<lambda>t. pbind padvance (\<lambda>_. preturn (_ t))"])
       (intro total_intros)
  ultimately show ?thesis
    unfolding parseColumnDef_def Let_def by (intro total_pbind total_expectIdent total_test)
qed

lemma total_parseCreateIndex: "total_at k parseCreateIndex"
proof -
  have "total_at k (\<lambda>p. perrorf (''Expected HASH or BTREE, got '' @ TokenType_String (currentType p)) p)"
    by (rule total_dep [where h = currentType]) (rule total_basic)
  then show ?thesis
    unfolding parseCreateIndex_def by (intro total_option total_intros)
qed

lemma total_parseCreate: "k < n \<Longrightarrow> total_at k (parseCreate n)"
proof -
  assume kn: "k < n"
  have "total_at k (\<lambda>p. perrorf (''Expected TABLE or INDEX, got '' @ TokenType_String (currentType p)) p)"
    by (rule total_dep [where h = currentType]) (rule total_basic)
  moreover have "total_at k (parseCreateTable n)"
    unfolding parseCreateTable_def by (intro total_intros total_parseColumnDef kn)
  ultimately show ?thesis
    unfolding parseCreate_def by (intro total_pbind total_basic total_test total_parseCreateIndex)
qed

lemma total_parseInsert: "k < n \<Longrightarrow> total_at k (parseInsert n)"
  unfolding parseInsert_def by (intro total_intros)

lemma total_parseSelect: "k < n \<Longrightarrow> total_at k (parseSelect n)"
  unfolding parseSelect_def by (intro total_intros total_parseExpr)

lemma total_parseStatement: "k + 1 < n \<Longrightarrow> total_at k (parseStatement n)"
proof (induction n arbitrary: k)
  case (Suc n)
  let ?ex = "pbind (parseStatement n) (\<lambda>inner. pbind (pmatch TK_SEMICOLON) (\<lambda>_. preturn (ExplainStmt inner)))"
  have kn: "k < n" using Suc.prems by simp
  have "total_at j ?ex" if "j < k" for j
    using Suc.prems that by (intro total_intros Suc.IH) simp
  note ex = total_after_token [OF this]
  show ?case
  proof (rule total_atI)
    fix p
    assume p: "ps_ok p" "ps_rem p \<le> k"
    have "returns p ((perrorf m :: Statement parser) p)" for m
      by (rule total_atD [OF total_basic(3) p])
    then show "returns p (parseStatement (Suc n) p)"
      using ex [OF _ p] total_atD [OF total_parseCreate p] total_atD [OF total_parseInsert p]
        total_atD [OF total_parseSelect p] kn
      by (simp add: pbind_padvance)
  qed
qed simp

lemma parse_fuel_total:
  assumes "tokens \<noteq> []" and "tok_type (last tokens) = TK_EOF" and "length tokens + 1 < n"
  shows "\<exists>r. parse_fuel n tokens = Some r \<and> r \<noteq> Panic"
proof -
  let ?p = "\<lparr>ps_tokens = tokens, ps_pos = 0\<rparr>"
  have "total_at (length tokens) (pbind (parseStatement n) (\<lambda>stmt. pbind (pexpect TK_EOF) (\<lambda>_. preturn stmt)))"
    using assms(3) by (intro total_intros total_parseStatement)
  moreover have "ps_ok ?p" "ps_rem ?p \<le> length tokens"
    using assms by (simp_all add: ps_ok_def ps_rem_def)
  ultimately have "returns ?p (pbind (parseStatement n) (\<lambda>stmt. pbind (pexpect TK_EOF) (\<lambda>_. preturn stmt)) ?p)"
    by (rule total_atD)
  then show ?thesis
    using assms(1) by (auto simp: parse_fuel_def returns_def)
qed

section \<open>Printing statements\<close>

definition show_int64 :: "int64 \<Rightarrow> string" where
  "show_int64 w = (let i = sint w in
     if i < 0 then CHR ''-'' # show_nat (nat (- i)) else show_nat (nat i))"

definition cmp_lexemes :: "(string \<times> lexeme) list" where
  "cmp_lexemes = [(''='', (TK_EQ, ''='')), (''<>'', (TK_NE, ''<>'')), (''<'', (TK_LT, ''<'')),
     (''<='', (TK_LE, ''<='')), (''>'', (TK_GT, ''>'')), (''>='', (TK_GE, ''>=''))]"

definition cmp_lexeme :: "string \<Rightarrow> lexeme" where
  "cmp_lexeme op = (case map_of cmp_lexemes op of Some l \<Rightarrow> l | None \<Rightarrow> (TK_EOF, ''''))"

definition ident_lexeme :: "SqlIdent \<Rightarrow> lexeme" where
  "ident_lexeme i = (TK_IDENT, id_text i)"

text \<open>The binding strength of an expression: OR, AND, comparison, primary.\<close>

fun level :: "Expr \<Rightarrow> nat" where
  "level (BinaryExpr op l r) = (if op = ''OR'' then 0 else if op = ''AND'' then 1 else 2)"
| "level _ = 3"

text \<open>Parentheses are printed where the binding strength asks for them, and only there.\<close>

fun print_body :: "Expr \<Rightarrow> lexeme list" and print_expr :: "nat \<Rightarrow> Expr \<Rightarrow> lexeme list" where
  "print_body (ColumnRefExpr i) = [ident_lexeme i]"
| "print_body (LiteralInt64Expr n) = [(TK_NUMBER, show_int64 n)]"
| "print_body (LiteralStringExpr s) = [(TK_STRING, s)]"
| "print_body (BinaryExpr op l r) =
     (if op = ''OR'' then print_expr 0 l @ (TK_OR, ''OR'') # print_expr 1 r
      else if op = ''AND'' then print_expr 1 l @ (TK_AND, ''AND'') # print_expr 2 r
      else print_expr 3 l @ cmp_lexeme op # print_expr 3 r)"
| "print_expr k e = (if level e < k then (TK_LPAREN, ''('') # print_body e @ [(TK_RPAREN, '')'')]
     else print_body e)"

declare print_expr.simps [simp del]

fun wf_expr :: "Expr \<Rightarrow> bool" where
  "wf_expr (ColumnRefExpr i) = wf_lexeme (ident_lexeme i)"
| "wf_expr (LiteralInt64Expr n) = True"
| "wf_expr (LiteralStringExpr s) = wf_lexeme (TK_STRING, s)"
| "wf_expr (BinaryExpr op l r) =
     (op \<in> set (''OR'' # ''AND'' # map fst cmp_lexemes) \<and> wf_expr l \<and> wf_expr r)"

fun esize :: "Expr \<Rightarrow> nat" where
  "esize (BinaryExpr op l r) = esize l + esize r + 1"
| "esize _ = 1"

lemma print_expr_size: "esize e \<le> length (print_body e) \<and> esize e \<le> length (print_expr k e)"
proof (induction e arbitrary: k)
  case (BinaryExpr op l r)
  have "esize (BinaryExpr op l r) \<le> length (print_body (BinaryExpr op l r))"
    using BinaryExpr(1)[of 0] BinaryExpr(1)[of 1] BinaryExpr(1)[of 3]
      BinaryExpr(2)[of 1] BinaryExpr(2)[of 2] BinaryExpr(2)[of 3] by auto
  then show ?case by (simp add: print_expr.simps del: print_body.simps esize.simps)
qed (simp_all add: print_expr.simps)

section \<open>Parsing what was printed\<close>

definition at :: "SqlParser \<Rightarrow> lexeme list \<Rightarrow> bool" where
  "at p ls \<longleftrightarrow> map tok_lexeme (drop (ps_pos p) (ps_tokens p)) = ls"

text \<open>\<open>parses strip F f ls x\<close>: on the lexemes \<open>ls\<close>, followed by a token in \<open>F\<close>, the parser \<open>f\<close> consumes
  exactly \<open>ls\<close> and returns \<open>x\<close> up to positions.\<close>

definition parses :: "('a \<Rightarrow> 'a) \<Rightarrow> (TokenType \<Rightarrow> bool) \<Rightarrow> 'a parser \<Rightarrow> lexeme list \<Rightarrow> 'a \<Rightarrow> bool" where
  "parses strip F f ls x \<longleftrightarrow> (\<forall>p l rest. at p (ls @ l # rest) \<longrightarrow> F (fst l) \<longrightarrow>
     (\<exists>x' p'. f p = Some (Ok x', p') \<and> strip x' = strip x \<and> at p' (l # rest)))"

lemma parsesD:
  assumes "parses strip F f ls x" and "at p (ls @ l # rest)" and "F (fst l)"
  obtains x' p' where "f p = Some (Ok x', p')" and "strip x' = strip x" and "at p' (l # rest)"
  using assms unfolding parses_def by blast

lemma parsesI:
  assumes "\<And>p l rest. at p (ls @ l # rest) \<Longrightarrow> F (fst l) \<Longrightarrow>
     \<exists>x' p'. f p = Some (Ok x', p') \<and> strip x' = strip x \<and> at p' (l # rest)"
  shows "parses strip F f ls x"
  using assms unfolding parses_def by blast

lemma at_Cons:
  assumes "at p ((ty, tx) # ls)"
  shows "currentType p = ty" and "tok_text (ps_current p) = tx" and "at (ps_advance p) ls"
proof -
  have len: "ps_pos p < length (ps_tokens p)"
    using assms by (metis at_def drop_all list.distinct(1) list.simps(8) not_le)
  then have "min (ps_pos p) (length (ps_tokens p) - 1) = ps_pos p" by simp
  then have cur: "ps_current p = ps_tokens p ! ps_pos p" by (simp add: ps_current_def)
  have d: "drop (ps_pos p) (ps_tokens p) = ps_tokens p ! ps_pos p # drop (Suc (ps_pos p)) (ps_tokens p)"
    using len by (simp add: Cons_nth_drop_Suc)
  then show "currentType p = ty" "tok_text (ps_current p) = tx" "at (ps_advance p) ls"
    using assms by (simp_all add: at_def currentType_def cur tok_lexeme_def)
qed

lemma pexpect_at: "at p ((ty, tx) # ls) \<Longrightarrow> pexpect ty p = Some (Ok (), ps_advance p)"
  by (simp add: pexpect_def at_Cons)

lemma expectIdent_at:
  assumes "at p (ident_lexeme i # ls)"
  shows "\<exists>i'. expectIdent p = Some (Ok i', ps_advance p) \<and> strip_ident i' = strip_ident i"
proof -
  have a: "at p ((TK_IDENT, id_text i) # ls)" using assms by (simp add: ident_lexeme_def)
  show ?thesis
    using at_Cons(2) [OF a] by (simp add: expectIdent_def pbind_def pexpect_at [OF a] preturn_def strip_ident_def Let_def)
qed

text \<open>Comma separated lists.\<close>

fun sep_by :: "lexeme \<Rightarrow> ('a \<Rightarrow> lexeme list) \<Rightarrow> 'a list \<Rightarrow> lexeme list" where
  "sep_by s pr [] = []"
| "sep_by s pr (x # xs) = pr x @ concat (map (\<lambda>y. s # pr y) xs)"

lemma commaList_loop_at:
  assumes "\<forall>y \<in> set ys. parses strip F parse (pr y) y" and "F TK_COMMA" and "length ys < n"
    and "at p (concat (map (\<lambda>y. (TK_COMMA, '','') # pr y) ys) @ l # rest)" and "F (fst l)" and "fst l \<noteq> TK_COMMA"
  shows "\<exists>zs p'. commaList_loop n parse items p = Some (Ok (items @ zs), p') \<and> map strip zs = map strip ys
    \<and> at p' (l # rest)"
  using assms
proof (induction ys arbitrary: n p items)
  case Nil
  then obtain m where n: "n = Suc m" by (cases n) auto
  have "currentType p \<noteq> TK_COMMA"
    using at_Cons(1) [of p "fst l" "snd l" rest] Nil.prems(4,6) by simp
  then show ?case using Nil.prems(4) by (auto simp: n pbind_pmatch preturn_def)
next
  case (Cons y ys)
  then obtain m where n: "n = Suc m" and m: "length ys < m" by (cases n) auto
  let ?tail = "concat (map (\<lambda>y. (TK_COMMA, '','') # pr y) ys) @ l # rest"
  have a: "at p ((TK_COMMA, '','') # pr y @ ?tail)" using Cons.prems(4) by simp
  obtain l1 rest1 where t: "?tail = l1 # rest1" and F1: "F (fst l1)"
    using Cons.prems(2,5) by (cases ys) auto
  have "at (ps_advance p) (pr y @ l1 # rest1)" using at_Cons(3) [OF a] t by simp
  then obtain y' p1 where y': "parse (ps_advance p) = Some (Ok y', p1)" "strip y' = strip y" "at p1 (l1 # rest1)"
    using parsesD [of strip F parse "pr y" y] Cons.prems(1) F1 by (metis list.set_intros(1))
  have ys: "\<forall>y \<in> set ys. parses strip F parse (pr y) y" using Cons.prems(1) by simp
  obtain zs p' where "commaList_loop m parse (items @ [y']) p1 = Some (Ok ((items @ [y']) @ zs), p')"
      "map strip zs = map strip ys" "at p' (l # rest)"
    using Cons.IH [OF ys Cons.prems(2) m y'(3) [folded t] Cons.prems(5,6), of "items @ [y']"] by blast
  then show ?case
    using y' at_Cons(1) [OF a] by (intro exI [of _ "y' # zs"] exI [of _ p']) (simp add: n pbind_pmatch pbind_Ok)
qed

lemma parseCommaList_at:
  assumes "xs \<noteq> []" and "\<forall>y \<in> set xs. parses strip F parse (pr y) y" and "F TK_COMMA" and "length xs \<le> n"
  shows "parses (map strip) (\<lambda>t. F t \<and> t \<noteq> TK_COMMA) (parseCommaList n parse)
    (sep_by (TK_COMMA, '','') pr xs) xs"
proof (rule parsesI)
  fix p l rest
  assume a: "at p (sep_by (TK_COMMA, '','') pr xs @ l # rest)" and F: "F (fst l) \<and> fst l \<noteq> TK_COMMA"
  obtain x ys where xs: "xs = x # ys" using assms(1) by (cases xs) auto
  let ?tail = "concat (map (\<lambda>y. (TK_COMMA, '','') # pr y) ys) @ l # rest"
  obtain l1 rest1 where t: "?tail = l1 # rest1" and F1: "F (fst l1)"
    using assms(3) F by (cases ys) auto
  have "at p (pr x @ l1 # rest1)" using a xs t by simp
  then obtain x' p1 where x': "parse p = Some (Ok x', p1)" "strip x' = strip x" "at p1 (l1 # rest1)"
    using parsesD [of strip F parse "pr x" x] assms(2) F1 xs by (metis list.set_intros(1))
  obtain zs p' where "commaList_loop n parse [x'] p1 = Some (Ok ([x'] @ zs), p')"
      "map strip zs = map strip ys" "at p' (l # rest)"
    using commaList_loop_at [of ys strip F parse pr n p1 l rest "[x']"] assms(2-4) F x'(3) t xs by auto
  then show "\<exists>x' p'. parseCommaList n parse p = Some (Ok x', p') \<and> map strip x' = map strip xs \<and> at p' (l # rest)"
    using x' xs by (simp add: parseCommaList_def pbind_def)
qed

text \<open>Numbers.\<close>

lemma digit_value_char: "d < 10 \<Longrightarrow> digit_value (char_of (48 + d)) = Some d"
  by (simp add: digit_value_def Let_def isDigit_def)

lemma dec_value_append: "dec_value a (xs @ ys) = (case dec_value a xs of None \<Rightarrow> None | Some v \<Rightarrow> dec_value v ys)"
  by (induction xs arbitrary: a) (auto split: option.splits)

lemma dec_value_show: "dec_value 0 (show_nat n) = Some n"
proof (induction n rule: show_nat.induct)
  case (1 n)
  show ?case
  proof (cases "n < 10")
    case True
    then show ?thesis by (subst show_nat.simps) (simp add: digit_value_char)
  next
    case False
    then show ?thesis
      using 1 digit_value_char [of "n mod 10"] by (subst show_nat.simps) (simp add: dec_value_append)
  qed
qed

lemma show_nat_digits: "show_nat n \<noteq> [] \<and> (\<forall>c \<in> set (show_nat n). isDigit (of_char c))"
proof (induction n rule: show_nat.induct)
  case (1 n)
  have "n mod 10 < 10" by simp
  then show ?case
    using 1 by (subst show_nat.simps, subst (2) show_nat.simps) (auto simp: isDigit_def)
qed

lemma show_nat_hd: "hd (show_nat n) \<noteq> CHR ''-''" "hd (show_nat n) \<noteq> CHR ''+''"
  using show_nat_digits [of n] by (auto simp: isDigit_def dest!: hd_in_set)

lemma sint64_range: "- (2 ^ 63) \<le> sint (w :: int64) \<and> sint w < 2 ^ 63"
  using sint_range_size [of w] by (simp add: word_size)

lemma ParseInt_show: "ParseInt (show_int64 w) = Some w"
proof (cases "sint w < 0")
  case True
  then have s: "show_int64 w = CHR ''-'' # show_nat (nat (- sint w))" by (simp add: show_int64_def Let_def)
  have "int (nat (- sint w)) = - sint w" using True by simp
  then show ?thesis
    using show_nat_digits [of "nat (- sint w)"] sint64_range [of w] by (simp add: ParseInt_def s dec_value_show)
next
  case False
  then have s: "show_int64 w = show_nat (nat (sint w))" by (simp add: show_int64_def Let_def)
  have "int (nat (sint w)) = sint w" using False by simp
  then show ?thesis
    using show_nat_digits [of "nat (sint w)"] sint64_range [of w] show_nat_hd [of "nat (sint w)"]
    by (simp add: ParseInt_def s dec_value_show)
qed

lemma show_int64_number: "wf_lexeme (TK_NUMBER, show_int64 w)"
proof -
  have n: "wf_number (text_runes (show_nat n)) \<and> (\<forall>c \<in> set (text_runes (show_nat n)). isDigit c)
      \<and> text_runes (show_nat n) \<noteq> []" for n
    using show_nat_digits [of n] by (cases "show_nat n") (auto simp: text_runes_def list_all_iff isDigit_def)
  then show ?thesis
    by (auto simp: show_int64_def Let_def text_runes_def list_all_iff)
qed

text \<open>Left associative operators: the operands of the spine of an expression.\<close>

lemma binaryLeft_loop_at:
  assumes "\<forall>y \<in> set ys. parses strip_expr F nxt (pr y) y" and "F op" and "length ys < n"
    and "at p (concat (map (\<lambda>y. (op, opS) # pr y) ys) @ l # rest)" and "F (fst l)" and "fst l \<noteq> op"
    and "strip_expr left = strip_expr e"
  shows "\<exists>e' p'. binaryLeft_loop n nxt op opS left p = Some (Ok e', p')
    \<and> strip_expr e' = strip_expr (foldl (BinaryExpr opS) e ys) \<and> at p' (l # rest)"
  using assms
proof (induction ys arbitrary: n p left e)
  case Nil
  then obtain m where n: "n = Suc m" by (cases n) auto
  have "currentType p \<noteq> op"
    using at_Cons(1) [of p "fst l" "snd l" rest] Nil.prems(4,6) by simp
  then show ?case using Nil.prems(4,7) by (auto simp: n pbind_pmatch preturn_def)
next
  case (Cons y ys)
  then obtain m where n: "n = Suc m" and m: "length ys < m" by (cases n) auto
  let ?tail = "concat (map (\<lambda>y. (op, opS) # pr y) ys) @ l # rest"
  have a: "at p ((op, opS) # pr y @ ?tail)" using Cons.prems(4) by simp
  obtain l1 rest1 where t: "?tail = l1 # rest1" and F1: "F (fst l1)"
    using Cons.prems(2,5) by (cases ys) auto
  have "at (ps_advance p) (pr y @ l1 # rest1)" using at_Cons(3) [OF a] t by simp
  then obtain y' p1 where y': "nxt (ps_advance p) = Some (Ok y', p1)" "strip_expr y' = strip_expr y" "at p1 (l1 # rest1)"
    using parsesD [of strip_expr F nxt "pr y" y] Cons.prems(1) F1 by (metis list.set_intros(1))
  have ys: "\<forall>y \<in> set ys. parses strip_expr F nxt (pr y) y" using Cons.prems(1) by simp
  have "strip_expr (BinaryExpr opS left y') = strip_expr (BinaryExpr opS e y)"
    using y'(2) Cons.prems(7) by simp
  then obtain e' p' where "binaryLeft_loop m nxt op opS (BinaryExpr opS left y') p1 = Some (Ok e', p')"
      "strip_expr e' = strip_expr (foldl (BinaryExpr opS) (BinaryExpr opS e y) ys)" "at p' (l # rest)"
    using Cons.IH [OF ys Cons.prems(2) m y'(3) [folded t] Cons.prems(5,6)] by blast
  then show ?case
    using y' at_Cons(1) [OF a] by (intro exI [of _ e'] exI [of _ p']) (simp add: n pbind_pmatch pbind_Ok)
qed

fun spine :: "string \<Rightarrow> Expr \<Rightarrow> Expr list" where
  "spine op (BinaryExpr o' l r) = (if o' = op then spine op l @ [r] else [BinaryExpr o' l r])"
| "spine op e = [e]"

lemma spine_not_Nil [simp]: "spine op e \<noteq> []"
  by (cases e) auto

lemma spine_foldl: "foldl (BinaryExpr op) (hd (spine op e)) (tl (spine op e)) = e"
  by (induction op e rule: spine.induct) (auto simp: hd_append)

lemma spine_length: "length (spine op e) \<le> esize e"
  by (induction op e rule: spine.induct) (auto simp: Suc_le_eq add_strict_increasing2)

lemma esize_pos [simp]: "0 < esize e"
  by (cases e) auto

lemma spine_size: "x \<in> set (spine op e) \<Longrightarrow> esize x < esize e \<or> spine op e = [e] \<and> x = e"
proof (induction op e rule: spine.induct)
  case (1 op o' l r)
  then show ?case using esize_pos [of l] esize_pos [of r] by (auto split: if_splits)
qed auto

lemma spine_wf: "wf_expr e \<Longrightarrow> x \<in> set (spine op e) \<Longrightarrow> wf_expr x"
  by (induction op e rule: spine.induct) (auto split: if_splits)

lemma print_or: "print_expr 0 e = sep_by (TK_OR, ''OR'') (print_expr 1) (spine ''OR'' e)"
proof (induction "''OR''" e rule: spine.induct)
  case (1 o' l r)
  show ?case
  proof (cases "o' = ''OR''")
    case True
    obtain x xs where s: "spine ''OR'' l = x # xs" by (cases "spine ''OR'' l") auto
    show ?thesis using 1 True s by (simp add: print_expr.simps)
  qed (simp add: print_expr.simps)
qed (simp_all add: print_expr.simps)

lemma print_and: "print_expr 1 e = sep_by (TK_AND, ''AND'') (print_expr 2) (spine ''AND'' e)"
proof (induction "''AND''" e rule: spine.induct)
  case (1 o' l r)
  show ?case
  proof (cases "o' = ''AND''")
    case True
    obtain x xs where s: "spine ''AND'' l = x # xs" by (cases "spine ''AND'' l") auto
    show ?thesis using 1 True s by (simp add: print_expr.simps)
  qed (simp add: print_expr.simps)
qed (simp_all add: print_expr.simps)

lemma parseBinaryLeft_at:
  assumes "\<forall>y \<in> set (spine opS e). parses strip_expr F nxt (pr y) y" and "F op" and "esize e \<le> n"
  shows "parses strip_expr (\<lambda>t. F t \<and> t \<noteq> op) (parseBinaryLeft n nxt op opS)
    (sep_by (op, opS) pr (spine opS e)) e"
proof (rule parsesI)
  fix p l rest
  assume a: "at p (sep_by (op, opS) pr (spine opS e) @ l # rest)" and F: "F (fst l) \<and> fst l \<noteq> op"
  obtain x ys where xs: "spine opS e = x # ys" by (cases "spine opS e") auto
  let ?tail = "concat (map (\<lambda>y. (op, opS) # pr y) ys) @ l # rest"
  obtain l1 rest1 where t: "?tail = l1 # rest1" and F1: "F (fst l1)"
    using assms(2) F by (cases ys) auto
  have "at p (pr x @ l1 # rest1)" using a xs t by simp
  then obtain x' p1 where x': "nxt p = Some (Ok x', p1)" "strip_expr x' = strip_expr x" "at p1 (l1 # rest1)"
    using parsesD [of strip_expr F nxt "pr x" x] assms(1) F1 xs by (metis list.set_intros(1))
  have n: "length ys < n" using spine_length [of opS e] xs assms(3) by simp
  obtain e' p' where "binaryLeft_loop n nxt op opS x' p1 = Some (Ok e', p')"
      "strip_expr e' = strip_expr (foldl (BinaryExpr opS) x ys)" "at p' (l # rest)"
    using binaryLeft_loop_at [of ys F nxt pr op n p1 opS l rest x' x] assms(1,2) n F x'(2,3) t xs by auto
  then show "\<exists>x' p'. parseBinaryLeft n nxt op opS p = Some (Ok x', p') \<and> strip_expr x' = strip_expr e \<and> at p' (l # rest)"
    using x' xs spine_foldl [of opS e] by (simp add: parseBinaryLeft_def pbind_Ok)
qed

text \<open>Primary expressions, comparisons, expressions.\<close>

abbreviation any_tok :: "TokenType \<Rightarrow> bool" where "any_tok \<equiv> \<lambda>_. True"
abbreviation no_cmp :: "TokenType \<Rightarrow> bool" where "no_cmp \<equiv> \<lambda>t. comparisonOps t = None"

lemma print_primary: "level e = 3 \<Longrightarrow> print_expr k e = print_body e \<or> k > 3"
  by (simp add: print_expr.simps)

lemma parsePrimary_at:
  assumes wf: "wf_expr e"
    and sub: "level e \<noteq> 3 \<Longrightarrow> parses strip_expr (\<lambda>t. (no_cmp t \<and> t \<noteq> TK_AND) \<and> t \<noteq> TK_OR) expr (print_expr 0 e) e"
  shows "parses strip_expr any_tok (parsePrimary expr) (print_expr 3 e) e"
proof (rule parsesI)
  fix p l rest
  assume a: "at p (print_expr 3 e @ l # rest)"
  show "\<exists>x' p'. parsePrimary expr p = Some (Ok x', p') \<and> strip_expr x' = strip_expr e \<and> at p' (l # rest)"
  proof (cases "level e = 3")
    case True
    then show ?thesis
    proof (cases e)
      case (ColumnRefExpr i)
      have a': "at p (ident_lexeme i # l # rest)" using a ColumnRefExpr by (simp add: print_expr.simps)
      obtain i' where "expectIdent p = Some (Ok i', ps_advance p)" "strip_ident i' = strip_ident i"
        using expectIdent_at [OF a'] by blast
      then show ?thesis
        using at_Cons [OF a' [unfolded ident_lexeme_def]] ColumnRefExpr
        by (simp add: parsePrimary_def pbind_Ok preturn_def)
    next
      case (LiteralInt64Expr n)
      have "at p ((TK_NUMBER, show_int64 n) # l # rest)" using a LiteralInt64Expr by (simp add: print_expr.simps)
      from at_Cons [OF this] show ?thesis
        using LiteralInt64Expr by (simp add: parsePrimary_def parseLiteral_def currentType_def ParseInt_show)
    next
      case (LiteralStringExpr s)
      have "at p ((TK_STRING, s) # l # rest)" using a LiteralStringExpr by (simp add: print_expr.simps)
      from at_Cons [OF this] show ?thesis
        using LiteralStringExpr by (simp add: parsePrimary_def parseLiteral_def currentType_def)
    next
      case (BinaryExpr op l' r')
      then show ?thesis using True by (auto split: if_splits)
    qed
  next
    case False
    then have lt: "level e < 3" by (cases e) (auto split: if_splits)
    then have pr: "print_expr 3 e = (TK_LPAREN, ''('') # print_expr 0 e @ [(TK_RPAREN, '')'')]"
      by (simp add: print_expr.simps)
    have a1: "at p ((TK_LPAREN, ''('') # print_expr 0 e @ (TK_RPAREN, '')'') # l # rest)"
      using a pr by simp
    obtain e' p1 where e': "expr (ps_advance p) = Some (Ok e', p1)" "strip_expr e' = strip_expr e"
        "at p1 ((TK_RPAREN, '')'') # l # rest)"
      using parsesD [OF sub [OF False] at_Cons(3) [OF a1]] by auto
    show ?thesis
      using at_Cons [OF a1] e' pexpect_at [OF e'(3)] at_Cons(3) [OF e'(3)]
      by (simp add: parsePrimary_def pbind_padvance pbind_Ok preturn_def)
  qed
qed

lemma cmp_lexeme_ops: "op \<in> set (map fst cmp_lexemes) \<Longrightarrow> comparisonOps (fst (cmp_lexeme op)) = Some op"
  by (auto simp: cmp_lexemes_def cmp_lexeme_def)

lemma parseComparison_at:
  assumes wf: "wf_expr e"
    and prim: "level e \<noteq> 2 \<Longrightarrow> parses strip_expr any_tok (parsePrimary expr) (print_expr 3 e) e"
    and subs: "\<And>op l r. e = BinaryExpr op l r \<Longrightarrow> level e = 2 \<Longrightarrow>
        parses strip_expr any_tok (parsePrimary expr) (print_expr 3 l) l
      \<and> parses strip_expr any_tok (parsePrimary expr) (print_expr 3 r) r"
  shows "parses strip_expr no_cmp (parseComparison expr) (print_expr 2 e) e"
proof (rule parsesI)
  fix p l rest
  assume a: "at p (print_expr 2 e @ l # rest)" and F: "comparisonOps (fst l) = None"
  show "\<exists>x' p'. parseComparison expr p = Some (Ok x', p') \<and> strip_expr x' = strip_expr e \<and> at p' (l # rest)"
  proof (cases "level e = 2")
    case True
    then obtain op x y where e: "e = BinaryExpr op x y" by (cases e) auto
    then have op: "op \<in> set (map fst cmp_lexemes)"
      using wf True by (auto split: if_splits)
    obtain ty tx where c: "cmp_lexeme op = (ty, tx)" by force
    have ops: "comparisonOps ty = Some op" using cmp_lexeme_ops [OF op] c by simp
    have a': "at p (print_expr 3 x @ (ty, tx) # print_expr 3 y @ l # rest)"
      using a e True c by (auto simp: print_expr.simps [of 2] split: if_splits)
    note s = subs [OF e True]
    obtain x' p1 where x': "parsePrimary expr p = Some (Ok x', p1)" "strip_expr x' = strip_expr x"
        "at p1 ((ty, tx) # print_expr 3 y @ l # rest)"
      using parsesD [OF s [THEN conjunct1] a'] by auto
    obtain y' p2 where y': "parsePrimary expr (ps_advance p1) = Some (Ok y', p2)" "strip_expr y' = strip_expr y"
        "at p2 (l # rest)"
      using parsesD [OF s [THEN conjunct2] at_Cons(3) [OF x'(3)]] by auto
    show ?thesis
      using x' y' at_Cons(1) [OF x'(3)] ops e
      by (simp add: parseComparison_def pbind_Ok pbind_padvance preturn_def)
  next
    case False
    then have "print_expr 2 e = print_expr 3 e" by (auto simp: print_expr.simps)
    then have a': "at p (print_expr 3 e @ l # rest)" using a by simp
    obtain e' p1 where e': "parsePrimary expr p = Some (Ok e', p1)" "strip_expr e' = strip_expr e" "at p1 (l # rest)"
      using parsesD [OF prim [OF False] a'] by auto
    then show ?thesis
      using at_Cons(1) [of p1 "fst l" "snd l" rest] F
      by (simp add: parseComparison_def pbind_Ok preturn_def)
  qed
qed

lemma spine_level: "spine op e = [e] \<Longrightarrow> op = ''AND'' \<Longrightarrow> level e \<noteq> 1"
  by (cases e) (auto split: if_splits)

lemma spine_level_or: "spine op e = [e] \<Longrightarrow> op = ''OR'' \<Longrightarrow> level e \<noteq> 0"
  by (cases e) (auto split: if_splits)

lemma parseExpr_at:
  "wf_expr e \<Longrightarrow> esize e < n \<Longrightarrow>
    parses strip_expr (\<lambda>t. (no_cmp t \<and> t \<noteq> TK_AND) \<and> t \<noteq> TK_OR) (parseExpr n) (print_expr 0 e) e"
proof (induction "esize e" arbitrary: e n rule: less_induct)
  case less
  then obtain m where n: "n = Suc m" and m: "esize e \<le> m" by (cases n) auto
  let ?ex = "parseExpr m"
  have prim: "parses strip_expr any_tok (parsePrimary ?ex) (print_expr 3 y) y"
    if "wf_expr y" "esize y < esize e \<or> level y = 3" for y
    using that less.hyps [of y m] m by (intro parsePrimary_at) auto
  have cmp: "parses strip_expr no_cmp (parseComparison ?ex) (print_expr 2 y) y"
    if y: "wf_expr y" "esize y < esize e \<or> esize y = esize e \<and> 2 \<le> level y" for y
  proof (rule parseComparison_at [OF y(1)])
    assume "level y \<noteq> 2"
    moreover have "level y \<le> 3" by (cases y) auto
    ultimately have "esize y < esize e \<or> level y = 3" using y(2) by auto
    then show "parses strip_expr any_tok (parsePrimary ?ex) (print_expr 3 y) y" using prim y(1) by blast
  next
    fix op a b
    assume e: "y = BinaryExpr op a b"
    then have "esize a < esize e" "esize b < esize e" "wf_expr a" "wf_expr b" using y by auto
    then show "parses strip_expr any_tok (parsePrimary ?ex) (print_expr 3 a) a
      \<and> parses strip_expr any_tok (parsePrimary ?ex) (print_expr 3 b) b" using prim by blast
  qed
  have conj: "parses strip_expr (\<lambda>t. no_cmp t \<and> t \<noteq> TK_AND)
      (parseBinaryLeft (Suc m) (parseComparison ?ex) TK_AND ''AND'') (print_expr 1 x) x"
    if x: "wf_expr x" "esize x < esize e \<or> esize x = esize e \<and> 1 \<le> level x" for x
    unfolding print_and
  proof (rule parseBinaryLeft_at)
    show "\<forall>y \<in> set (spine ''AND'' x). parses strip_expr no_cmp (parseComparison ?ex) (print_expr 2 y) y"
    proof
      fix y
      assume y: "y \<in> set (spine ''AND'' x)"
      have "esize y < esize e \<or> esize y = esize e \<and> 2 \<le> level y"
        using spine_size [OF y] x(2) spine_level [of "''AND''" x] by auto
      then show "parses strip_expr no_cmp (parseComparison ?ex) (print_expr 2 y) y"
        using cmp spine_wf [OF x(1) y] by blast
    qed
  qed (use x m in auto)
  show ?case
    unfolding n parseExpr.simps print_or
  proof (rule parseBinaryLeft_at)
    show "\<forall>x \<in> set (spine ''OR'' e). parses strip_expr (\<lambda>t. no_cmp t \<and> t \<noteq> TK_AND)
      (parseBinaryLeft (Suc m) (parseComparison ?ex) TK_AND ''AND'') (print_expr 1 x) x"
    proof
      fix x
      assume x: "x \<in> set (spine ''OR'' e)"
      have "esize x < esize e \<or> esize x = esize e \<and> 1 \<le> level x"
        using spine_size [OF x] spine_level_or [of "''OR''" e] by auto
      then show "parses strip_expr (\<lambda>t. no_cmp t \<and> t \<noteq> TK_AND)
          (parseBinaryLeft (Suc m) (parseComparison ?ex) TK_AND ''AND'') (print_expr 1 x) x"
        using conj spine_wf [OF less.prems(1) x] by blast
    qed
  qed (use m in auto)
qed

section \<open>Statements\<close>

definition kw :: "string \<Rightarrow> lexeme" where
  "kw s = (case map_of sql_keywords s of Some t \<Rightarrow> t | None \<Rightarrow> TK_IDENT, s)"

abbreviation lparen :: lexeme where "lparen \<equiv> (TK_LPAREN, ''('')"
abbreviation rparen :: lexeme where "rparen \<equiv> (TK_RPAREN, '')'')"
abbreviation comma :: lexeme where "comma \<equiv> (TK_COMMA, '','')"

definition print_coldef :: "ColumnDef \<Rightarrow> lexeme list" where
  "print_coldef c = [ident_lexeme (cd_name c), kw (cd_typeName c)]"

fun print_stmt :: "Statement \<Rightarrow> lexeme list" where
  "print_stmt (CreateTableStmt t cols) =
     kw ''CREATE'' # kw ''TABLE'' # ident_lexeme t # lparen # sep_by comma print_coldef cols @ [rparen]"
| "print_stmt (CreateIndexStmt i t c ty) =
     [kw ''CREATE'', kw ''INDEX'', ident_lexeme i, kw ''ON'', ident_lexeme t, lparen, ident_lexeme c, rparen,
      kw ''USING'', (if ty = IndexTypeHash then kw ''HASH'' else kw ''BTREE'')]"
| "print_stmt (InsertStmt t vs) =
     kw ''INSERT'' # kw ''INTO'' # ident_lexeme t # kw ''VALUES'' # lparen # sep_by comma print_body vs @ [rparen]"
| "print_stmt (SelectStmt all cols t w) =
     kw ''SELECT'' # (if all then [(TK_ASTERISK, ''*'')] else sep_by comma (\<lambda>i. [ident_lexeme i]) cols)
     @ kw ''FROM'' # ident_lexeme t # (case w of None \<Rightarrow> [] | Some e \<Rightarrow> kw ''WHERE'' # print_expr 0 e)"
| "print_stmt (ExplainStmt s) = kw ''EXPLAIN'' # print_stmt s"

definition wf_ident :: "SqlIdent \<Rightarrow> bool" where
  "wf_ident i = wf_lexeme (ident_lexeme i)"

definition wf_coldef :: "ColumnDef \<Rightarrow> bool" where
  "wf_coldef c \<longleftrightarrow> wf_ident (cd_name c) \<and> wf_word (text_runes (cd_typeName c))
     \<and> ToUpper (cd_typeName c) = cd_typeName c
     \<and> fst (kw (cd_typeName c)) \<in> {TK_INT64, TK_VARCHAR, TK_IDENT}"

fun wf_stmt :: "Statement \<Rightarrow> bool" where
  "wf_stmt (CreateTableStmt t cols) \<longleftrightarrow> wf_ident t \<and> cols \<noteq> [] \<and> list_all wf_coldef cols"
| "wf_stmt (CreateIndexStmt i t c ty) \<longleftrightarrow> ty \<in> {IndexTypeHash, IndexTypeBTree} \<and> wf_ident i \<and> wf_ident t \<and> wf_ident c"
| "wf_stmt (InsertStmt t vs) \<longleftrightarrow> wf_ident t \<and> vs \<noteq> []
     \<and> list_all (\<lambda>v. wf_expr v \<and> (case v of LiteralInt64Expr _ \<Rightarrow> True | LiteralStringExpr _ \<Rightarrow> True | _ \<Rightarrow> False)) vs"
| "wf_stmt (SelectStmt all cols t w) \<longleftrightarrow> wf_ident t \<and> (all \<longleftrightarrow> cols = []) \<and> list_all wf_ident cols
     \<and> (case w of None \<Rightarrow> True | Some e \<Rightarrow> wf_expr e)"
| "wf_stmt (ExplainStmt s) \<longleftrightarrow> wf_stmt s"

lemma kw_simps [simp]:
  "kw ''CREATE'' = (TK_CREATE, ''CREATE'')" "kw ''TABLE'' = (TK_TABLE, ''TABLE'')"
  "kw ''INDEX'' = (TK_INDEX, ''INDEX'')" "kw ''ON'' = (TK_ON, ''ON'')" "kw ''USING'' = (TK_USING, ''USING'')"
  "kw ''HASH'' = (TK_HASH, ''HASH'')" "kw ''BTREE'' = (TK_BTREE, ''BTREE'')"
  "kw ''INSERT'' = (TK_INSERT, ''INSERT'')" "kw ''INTO'' = (TK_INTO, ''INTO'')"
  "kw ''VALUES'' = (TK_VALUES, ''VALUES'')" "kw ''SELECT'' = (TK_SELECT, ''SELECT'')"
  "kw ''FROM'' = (TK_FROM, ''FROM'')" "kw ''WHERE'' = (TK_WHERE, ''WHERE'')"
  "kw ''EXPLAIN'' = (TK_EXPLAIN, ''EXPLAIN'')"
  by (simp_all add: kw_def sql_keywords_def)

lemma expectIdent_parses: "parses strip_ident any_tok expectIdent [ident_lexeme i] i"
proof (rule parsesI)
  fix p l rest
  assume "at p ([ident_lexeme i] @ l # rest)"
  then have a: "at p (ident_lexeme i # l # rest)" by simp
  from expectIdent_at [OF a] at_Cons(3) [OF a [unfolded ident_lexeme_def]]
  show "\<exists>x' p'. expectIdent p = Some (Ok x', p') \<and> strip_ident x' = strip_ident i \<and> at p' (l # rest)"
    by blast
qed

lemma parseColumnDef_parses: "wf_coldef c \<Longrightarrow> parses strip_coldef any_tok parseColumnDef (print_coldef c) c"
proof (rule parsesI)
  fix p l rest
  assume wf: "wf_coldef c" and "at p (print_coldef c @ l # rest)"
  then have a: "at p ([ident_lexeme (cd_name c)] @ kw (cd_typeName c) # l # rest)"
    by (simp add: print_coldef_def)
  obtain i p1 where i: "expectIdent p = Some (Ok i, p1)" "strip_ident i = strip_ident (cd_name c)"
      "at p1 (kw (cd_typeName c) # l # rest)"
    using parsesD [OF expectIdent_parses a] by auto
  obtain ty where k: "kw (cd_typeName c) = (ty, cd_typeName c)" by (simp add: kw_def)
  note a1 = at_Cons [OF i(3) [unfolded k]]
  show "\<exists>x' p'. parseColumnDef p = Some (Ok x', p') \<and> strip_coldef x' = strip_coldef c \<and> at p' (l # rest)"
    using i a1 k wf
    by (auto simp: parseColumnDef_def pbind_Ok pbind_padvance preturn_def strip_coldef_def wf_coldef_def Let_def)
qed

lemma parseLiteral_parses:
  assumes "case v of LiteralInt64Expr _ \<Rightarrow> True | LiteralStringExpr _ \<Rightarrow> True | _ \<Rightarrow> False"
  shows "parses strip_expr any_tok parseLiteral (print_body v) v"
proof (rule parsesI)
  fix p l rest
  assume a: "at p (print_body v @ l # rest)"
  obtain ty tx where t: "print_body v = [(ty, tx)]" using assms by (cases v) auto
  note c = at_Cons [OF a [unfolded t append.simps]]
  show "\<exists>x' p'. parseLiteral p = Some (Ok x', p') \<and> strip_expr x' = strip_expr v \<and> at p' (l # rest)"
  proof (cases v)
    case (LiteralInt64Expr n)
    then have "ParseInt (tok_text (ps_current p)) = Some n" using c(2) t ParseInt_show [of n] by auto
    then show ?thesis using c t LiteralInt64Expr by (simp add: parseLiteral_def currentType_def)
  qed (use c t assms in \<open>simp_all add: parseLiteral_def currentType_def\<close>)
qed

lemma parseParenList_at:
  assumes xs: "xs \<noteq> []" "\<forall>y \<in> set xs. parses strip any_tok parse (pr y) y" and n: "length xs \<le> n"
    and a: "at p (lparen # sep_by comma pr xs @ rparen # rest)"
  shows "\<exists>zs p'. parseParenList n parse p = Some (Ok zs, p') \<and> map strip zs = map strip xs \<and> at p' rest"
proof -
  note c = at_Cons [OF a]
  obtain zs p1 where z: "parseCommaList n parse (ps_advance p) = Some (Ok zs, p1)" "map strip zs = map strip xs"
      "at p1 (rparen # rest)"
    using parsesD [OF parseCommaList_at [OF xs _ n] c(3)] by auto
  show ?thesis
    using pexpect_at [OF a] z pexpect_at [OF z(3)] at_Cons(3) [OF z(3)]
    by (simp add: parseParenList_def pbind_Ok preturn_def)
qed

lemma parseCreateTable_at:
  assumes wf: "wf_stmt (CreateTableStmt t cols)" and n: "length cols \<le> n"
    and a: "at p (print_stmt (CreateTableStmt t cols) @ (TK_EOF, tx) # rest)"
  shows "\<exists>s p'. parseCreate n p = Some (Ok s, p') \<and> strip_stmt s = strip_stmt (CreateTableStmt t cols)
    \<and> at p' ((TK_EOF, tx) # rest)"
proof -
  have a0: "at p ((TK_CREATE, ''CREATE'') # (TK_TABLE, ''TABLE'') # ident_lexeme t
      # lparen # sep_by comma print_coldef cols @ rparen # (TK_EOF, tx) # rest)"
    using a by simp
  note c0 = at_Cons [OF a0] and c1 = at_Cons [OF at_Cons(3) [OF a0]]
  obtain t' where t': "expectIdent (ps_advance (ps_advance p)) = Some (Ok t', ps_advance (ps_advance (ps_advance p)))"
      "strip_ident t' = strip_ident t"
    using expectIdent_at [OF c1(3)] by blast
  note c2 = at_Cons(3) [OF c1(3) [unfolded ident_lexeme_def]]
  have "\<forall>y \<in> set cols. parses strip_coldef any_tok parseColumnDef (print_coldef y) y"
    using wf parseColumnDef_parses by (auto simp: list_all_iff)
  then obtain cs p1 where cs: "parseParenList n parseColumnDef (ps_advance (ps_advance (ps_advance p))) = Some (Ok cs, p1)"
      "map strip_coldef cs = map strip_coldef cols" "at p1 ((TK_EOF, tx) # rest)"
    using parseParenList_at [OF _ _ n c2, of strip_coldef parseColumnDef] wf by auto
  show ?thesis
    using c1(1) t' cs at_Cons(1) [OF cs(3)]
    by (simp add: parseCreate_def parseCreateTable_def pbind_padvance pbind_Ok pbind_pmatch preturn_def)
qed

lemma parseCreateIndex_at:
  assumes wf: "wf_stmt (CreateIndexStmt i t c ty)"
    and a: "at p (print_stmt (CreateIndexStmt i t c ty) @ (TK_EOF, tx) # rest)"
  shows "\<exists>s p'. parseCreate n p = Some (Ok s, p') \<and> strip_stmt s = strip_stmt (CreateIndexStmt i t c ty)
    \<and> at p' ((TK_EOF, tx) # rest)"
proof -
  obtain kt ks where k: "(if ty = IndexTypeHash then kw ''HASH'' else kw ''BTREE'') = (kt, ks)"
      "indexTypes kt = Some ty"
    using wf by (cases "ty = IndexTypeHash") auto
  have a0: "at p ((TK_CREATE, ''CREATE'') # (TK_INDEX, ''INDEX'') # ident_lexeme i # (TK_ON, ''ON'') # ident_lexeme t
      # lparen # ident_lexeme c # rparen # (TK_USING, ''USING'') # (kt, ks) # (TK_EOF, tx) # rest)"
    using a k by simp
  note c1 = at_Cons [OF at_Cons(3) [OF a0]]
  obtain i' where i': "expectIdent (ps_advance (ps_advance p)) = Some (Ok i', (ps_advance ^^ 3) p)" "strip_ident i' = strip_ident i"
    using expectIdent_at [OF c1(3)] by (auto simp: numeral_3_eq_3)
  have a3: "at ((ps_advance ^^ 3) p) ((TK_ON, ''ON'') # ident_lexeme t # lparen # ident_lexeme c # rparen
      # (TK_USING, ''USING'') # (kt, ks) # (TK_EOF, tx) # rest)"
    using at_Cons(3) [OF c1(3) [unfolded ident_lexeme_def]] by (simp add: numeral_3_eq_3 ident_lexeme_def)
  define p4 where "p4 = ps_advance ((ps_advance ^^ 3) p)"
  note a4 = at_Cons(3) [OF a3, folded p4_def]
  obtain t' where t': "expectIdent p4 = Some (Ok t', ps_advance p4)" "strip_ident t' = strip_ident t"
    using expectIdent_at [OF a4] by blast
  note a5 = at_Cons(3) [OF a4 [unfolded ident_lexeme_def], folded ident_lexeme_def]
  note a6 = at_Cons(3) [OF a5]
  obtain c' where c': "expectIdent (ps_advance (ps_advance p4)) = Some (Ok c', ps_advance (ps_advance (ps_advance p4)))"
      "strip_ident c' = strip_ident c"
    using expectIdent_at [OF a6] by blast
  note a7 = at_Cons(3) [OF a6 [unfolded ident_lexeme_def], folded ident_lexeme_def]
  note a8 = at_Cons(3) [OF a7] note a9 = at_Cons(3) [OF a8] note a10 = at_Cons [OF a9]
  show ?thesis
    using c1(1) i' t' c' k(2) a10(1,3) at_Cons(1) [OF a10(3)]
      pexpect_at [OF a3] pexpect_at [OF a5] pexpect_at [OF a7] pexpect_at [OF a8]
    by (simp add: parseCreate_def parseCreateIndex_def pbind_padvance pbind_Ok pbind_pmatch preturn_def p4_def)
qed

lemma parseInsert_at:
  assumes wf: "wf_stmt (InsertStmt t vs)" and n: "length vs \<le> n"
    and a: "at p (print_stmt (InsertStmt t vs) @ (TK_EOF, tx) # rest)"
  shows "\<exists>s p'. parseInsert n p = Some (Ok s, p') \<and> strip_stmt s = strip_stmt (InsertStmt t vs)
    \<and> at p' ((TK_EOF, tx) # rest)"
proof -
  have a0: "at p ((TK_INSERT, ''INSERT'') # (TK_INTO, ''INTO'') # ident_lexeme t # (TK_VALUES, ''VALUES'')
      # lparen # sep_by comma print_body vs @ rparen # (TK_EOF, tx) # rest)"
    using a by simp
  note a1 = at_Cons(3) [OF a0]
  note a2 = at_Cons(3) [OF a1]
  obtain t' where t': "expectIdent (ps_advance (ps_advance p)) = Some (Ok t', ps_advance (ps_advance (ps_advance p)))"
      "strip_ident t' = strip_ident t"
    using expectIdent_at [OF a2] by blast
  note a3 = at_Cons(3) [OF a2 [unfolded ident_lexeme_def]]
  note a4 = at_Cons(3) [OF a3]
  have "\<forall>v \<in> set vs. parses strip_expr any_tok parseLiteral (print_body v) v"
    using wf parseLiteral_parses by (auto simp: list_all_iff)
  then obtain es p1 where es: "parseParenList n parseLiteral (ps_advance (ps_advance (ps_advance (ps_advance p)))) = Some (Ok es, p1)"
      "map strip_expr es = map strip_expr vs" "at p1 ((TK_EOF, tx) # rest)"
    using parseParenList_at [OF _ _ n a4, of strip_expr parseLiteral] wf by auto
  show ?thesis
    using t' es at_Cons(1) [OF es(3)] pexpect_at [OF a1] pexpect_at [OF a3]
    by (simp add: parseInsert_def pbind_padvance pbind_Ok pbind_pmatch preturn_def)
qed

lemma parse_where_at:
  assumes wf: "case w of None \<Rightarrow> True | Some e \<Rightarrow> wf_expr e \<and> esize e < n"
    and a: "at p ((case w of None \<Rightarrow> [] | Some e \<Rightarrow> kw ''WHERE'' # print_expr 0 e) @ (TK_EOF, tx) # rest)"
  shows "\<exists>w' p'. pbind (pmatch TK_WHERE) (\<lambda>m. pbind (if m then pbind (parseExpr n) (\<lambda>e. preturn (Some e)) else preturn None) (\<lambda>whr. f whr)) p = f w' p'
    \<and> map_option strip_expr w' = map_option strip_expr w \<and> at p' ((TK_EOF, tx) # rest)"
proof (cases w)
  case None
  then have "at p ((TK_EOF, tx) # rest)" using a by simp
  moreover from at_Cons(1) [OF this] have "currentType p \<noteq> TK_WHERE" by simp
  ultimately show ?thesis
    using None by (auto simp: pbind_pmatch pbind_def [of "preturn None"] preturn_def)
next
  case (Some e)
  then have a': "at p ((TK_WHERE, ''WHERE'') # print_expr 0 e @ (TK_EOF, tx) # rest)" using a by simp
  note c = at_Cons [OF a']
  obtain e' p1 where "parseExpr n (ps_advance p) = Some (Ok e', p1)" "strip_expr e' = strip_expr e"
      "at p1 ((TK_EOF, tx) # rest)"
    using parsesD [OF parseExpr_at [of e n] c(3)] wf Some by auto
  then show ?thesis
    using c(1) Some by (intro exI [of _ "Some e'"] exI [of _ p1]) (simp add: pbind_pmatch pbind_Ok preturn_def)
qed

lemma parse_columns_at:
  assumes wf: "all \<longleftrightarrow> cols = []" and n: "length cols \<le> n"
    and a: "at p ((if all then [(TK_ASTERISK, ''*'')] else sep_by comma (\<lambda>i. [ident_lexeme i]) cols) @ kw ''FROM'' # rest)"
  shows "\<exists>cs p'. pbind (pmatch TK_ASTERISK) (\<lambda>m. pbind (if m then preturn [] else parseCommaList n expectIdent) (\<lambda>cs. f m cs)) p = f all cs p'
    \<and> map strip_ident cs = map strip_ident cols \<and> at p' ((TK_FROM, ''FROM'') # rest)"
proof (cases all)
  case True
  then have a': "at p ((TK_ASTERISK, ''*'') # (TK_FROM, ''FROM'') # rest)" using a by simp
  then show ?thesis
    using at_Cons [OF a'] True wf by (auto simp: pbind_pmatch pbind_def [of "preturn _"] preturn_def)
next
  case False
  then obtain i js where cols: "cols = i # js" using wf by (cases cols) auto
  have a': "at p (sep_by comma (\<lambda>i. [ident_lexeme i]) cols @ (TK_FROM, ''FROM'') # rest)" using a False by simp
  then have c: "currentType p \<noteq> TK_ASTERISK"
    using at_Cons(1) [of p TK_IDENT "id_text i"] by (simp add: cols ident_lexeme_def)
  have "\<forall>y \<in> set cols. parses strip_ident any_tok expectIdent [ident_lexeme y] y"
    using expectIdent_parses by blast
  then obtain cs p1 where "parseCommaList n expectIdent p = Some (Ok cs, p1)" "map strip_ident cs = map strip_ident cols"
      "at p1 ((TK_FROM, ''FROM'') # rest)"
    using parsesD [OF parseCommaList_at [of cols strip_ident any_tok expectIdent "\<lambda>i. [ident_lexeme i]" n] a'] n cols by auto
  then show ?thesis
    using c False by (intro exI [of _ cs] exI [of _ p1]) (simp add: pbind_pmatch pbind_Ok)
qed

lemma parseSelect_at:
  assumes wf: "wf_stmt (SelectStmt all cols t w)" and n: "length cols \<le> n"
    and ne: "case w of None \<Rightarrow> True | Some e \<Rightarrow> esize e < n"
    and a: "at p (print_stmt (SelectStmt all cols t w) @ (TK_EOF, tx) # rest)"
  shows "\<exists>s p'. parseSelect n p = Some (Ok s, p') \<and> strip_stmt s = strip_stmt (SelectStmt all cols t w)
    \<and> at p' ((TK_EOF, tx) # rest)"
proof -
  let ?w = "(case w of None \<Rightarrow> [] | Some e \<Rightarrow> kw ''WHERE'' # print_expr 0 e) @ (TK_EOF, tx) # rest"
  have a0: "at p ((TK_SELECT, ''SELECT'') # (if all then [(TK_ASTERISK, ''*'')] else sep_by comma (\<lambda>i. [ident_lexeme i]) cols)
      @ kw ''FROM'' # ident_lexeme t # ?w)"
    using a by simp
  note a1 = at_Cons(3) [OF a0]
  let ?f3 = "\<lambda>all columns tableName whr. pbind (pmatch TK_SEMICOLON) (\<lambda>_. preturn (SelectStmt all columns tableName whr))"
  let ?f = "\<lambda>all columns. pbind (pexpect TK_FROM) (\<lambda>_. pbind expectIdent (\<lambda>tableName.
     pbind (pmatch TK_WHERE) (\<lambda>w. pbind (if w then pbind (parseExpr n) (\<lambda>e. preturn (Some e)) else preturn None) (\<lambda>whr.
     ?f3 all columns tableName whr))))"
  have wc: "all \<longleftrightarrow> cols = []" using wf by simp
  obtain cs p1 where cs: "parseSelect n p = ?f all cs p1" "map strip_ident cs = map strip_ident cols"
      "at p1 ((TK_FROM, ''FROM'') # ident_lexeme t # ?w)"
    using parse_columns_at [OF wc n a1, of ?f] unfolding parseSelect_def pbind_padvance by blast
  note a2 = at_Cons(3) [OF cs(3)]
  obtain t' where t': "expectIdent (ps_advance p1) = Some (Ok t', ps_advance (ps_advance p1))" "strip_ident t' = strip_ident t"
    using expectIdent_at [OF a2] by blast
  note a3 = at_Cons(3) [OF a2 [unfolded ident_lexeme_def]]
  have ww: "case w of None \<Rightarrow> True | Some e \<Rightarrow> wf_expr e \<and> esize e < n"
    using wf ne by (cases w) auto
  have s: "parseSelect n p = pbind (pmatch TK_WHERE) (\<lambda>w. pbind (if w then pbind (parseExpr n) (\<lambda>e. preturn (Some e)) else preturn None) (\<lambda>whr.
     ?f3 all cs t' whr)) (ps_advance (ps_advance p1))"
    unfolding cs(1) using pexpect_at [OF cs(3)] t'(1) by (simp only: pbind_Ok)
  obtain w' p2 where w': "parseSelect n p = ?f3 all cs t' w' p2" "map_option strip_expr w' = map_option strip_expr w"
      "at p2 ((TK_EOF, tx) # rest)"
    using parse_where_at [OF ww a3, of "?f3 all cs t'"] unfolding s by blast
  then show ?thesis
    using at_Cons(1) [OF w'(3)] cs(2) t'(2) by (simp add: pbind_pmatch preturn_def)
qed

lemma sep_by_length: "(\<And>x. x \<in> set xs \<Longrightarrow> pr x \<noteq> []) \<Longrightarrow> length xs \<le> length (sep_by s pr xs)"
proof (cases xs)
  case (Cons x ys)
  assume ne: "\<And>x. x \<in> set xs \<Longrightarrow> pr x \<noteq> []"
  have "length zs \<le> length (concat (map (\<lambda>y. s # pr y) zs))" for zs by (induction zs) auto
  then show ?thesis using ne [of x] Cons by (cases "pr x") (auto simp: le_SucI add_le_mono trans_le_add2)
qed simp

lemma parseStatement_at:
  assumes "wf_stmt s" and "length (print_stmt s) < n" and "at p (print_stmt s @ (TK_EOF, tx) # rest)"
  shows "\<exists>s' p'. parseStatement n p = Some (Ok s', p') \<and> strip_stmt s' = strip_stmt s
    \<and> at p' ((TK_EOF, tx) # rest)"
  using assms
proof (induction s arbitrary: n p)
  case (CreateTableStmt t cols)
  obtain m where n: "n = Suc m" using CreateTableStmt.prems(2) by (cases n) auto
  have "length cols \<le> length (sep_by comma print_coldef cols)"
    by (rule sep_by_length) (simp add: print_coldef_def)
  then have m: "length cols \<le> m" using CreateTableStmt.prems(2) n by simp
  have "currentType p = TK_CREATE" using at_Cons(1) [of p TK_CREATE] CreateTableStmt.prems(3) by simp
  then show ?case using parseCreateTable_at [OF CreateTableStmt.prems(1) m CreateTableStmt.prems(3)] n by simp
next
  case (CreateIndexStmt i t c ty)
  obtain m where n: "n = Suc m" using CreateIndexStmt.prems(2) by (cases n) auto
  have "currentType p = TK_CREATE" using at_Cons(1) [of p TK_CREATE] CreateIndexStmt.prems(3) by simp
  then show ?case using parseCreateIndex_at [OF CreateIndexStmt.prems(1,3), of m] n by simp
next
  case (InsertStmt t vs)
  obtain m where n: "n = Suc m" using InsertStmt.prems(2) by (cases n) auto
  have "length vs \<le> length (sep_by comma print_body vs)"
    using print_expr_size by (intro sep_by_length) (metis esize_pos length_0_conv not_le)
  then have m: "length vs \<le> m" using InsertStmt.prems(2) n by simp
  have "currentType p = TK_INSERT" using at_Cons(1) [of p TK_INSERT] InsertStmt.prems(3) by simp
  then show ?case using parseInsert_at [OF InsertStmt.prems(1) m InsertStmt.prems(3)] n by simp
next
  case (SelectStmt all cols t w)
  obtain m where n: "n = Suc m" using SelectStmt.prems(2) by (cases n) auto
  have "length cols \<le> length (sep_by comma (\<lambda>i. [ident_lexeme i]) cols)"
    by (rule sep_by_length) simp
  then have m: "length cols \<le> m" using SelectStmt.prems(1,2) n by (cases all) auto
  have e: "case w of None \<Rightarrow> True | Some e \<Rightarrow> esize e < m"
  proof (cases w)
    case (Some e)
    then show ?thesis using print_expr_size [of e 0] SelectStmt.prems(2) n by simp
  qed simp
  have "currentType p = TK_SELECT" using at_Cons(1) [of p TK_SELECT] SelectStmt.prems(3) by simp
  then show ?case using parseSelect_at [OF SelectStmt.prems(1) m e SelectStmt.prems(3)] n by simp
next
  case (ExplainStmt s)
  obtain m where n: "n = Suc m" using ExplainStmt.prems(2) by (cases n) auto
  have a: "at p ((TK_EXPLAIN, ''EXPLAIN'') # print_stmt s @ (TK_EOF, tx) # rest)" using ExplainStmt.prems(3) by simp
  note c = at_Cons [OF a]
  obtain s' p1 where s': "parseStatement m (ps_advance p) = Some (Ok s', p1)" "strip_stmt s' = strip_stmt s"
      "at p1 ((TK_EOF, tx) # rest)"
    using ExplainStmt.IH [OF _ _ c(3), of m] ExplainStmt.prems n by auto
  then show ?case using c(1) at_Cons(1) [OF s'(3)] n by (simp add: pbind_padvance pbind_Ok pbind_pmatch preturn_def)
qed

text \<open>The lexemes of a printed statement are lexemes of the lexer.\<close>

lemma wf_lexeme_consts [simp]:
  "wf_lexeme lparen" "wf_lexeme rparen" "wf_lexeme comma" "wf_lexeme (TK_ASTERISK, ''*'')"
  by (simp_all add: punctuation_def)

lemma wf_lexeme_word:
  assumes "wf_word (text_runes s)" and "ToUpper s = s"
  shows "wf_lexeme (kw s)"
proof (cases "map_of sql_keywords s")
  case None
  then show ?thesis using assms by (simp add: kw_def)
next
  case (Some t)
  then have "t \<notin> {TK_EOF, TK_STRING, TK_NUMBER, TK_IDENT}"
    by (auto simp: sql_keywords_def split: if_splits)
  then show ?thesis using Some assms by (simp add: kw_def)
qed

lemma ToUpper_keyword: "s \<in> fst ` set sql_keywords \<Longrightarrow> ToUpper s = s \<and> wf_word (text_runes s)"
  by (auto simp: sql_keywords_def ToUpper_def ascii_upper_def text_runes_def isIdentStart_def isIdentPart_def isDigit_def)

lemma wf_lexeme_kw: "s \<in> fst ` set sql_keywords \<Longrightarrow> wf_lexeme (kw s)"
  using wf_lexeme_word ToUpper_keyword by blast

lemma wf_kw [simp]:
  "wf_lexeme (TK_CREATE, ''CREATE'')" "wf_lexeme (TK_TABLE, ''TABLE'')" "wf_lexeme (TK_INDEX, ''INDEX'')"
  "wf_lexeme (TK_ON, ''ON'')" "wf_lexeme (TK_USING, ''USING'')" "wf_lexeme (TK_HASH, ''HASH'')"
  "wf_lexeme (TK_BTREE, ''BTREE'')" "wf_lexeme (TK_INSERT, ''INSERT'')" "wf_lexeme (TK_INTO, ''INTO'')"
  "wf_lexeme (TK_VALUES, ''VALUES'')" "wf_lexeme (TK_SELECT, ''SELECT'')" "wf_lexeme (TK_FROM, ''FROM'')"
  "wf_lexeme (TK_WHERE, ''WHERE'')" "wf_lexeme (TK_EXPLAIN, ''EXPLAIN'')"
  using wf_lexeme_kw [of "''CREATE''"] wf_lexeme_kw [of "''TABLE''"] wf_lexeme_kw [of "''INDEX''"]
    wf_lexeme_kw [of "''ON''"] wf_lexeme_kw [of "''USING''"] wf_lexeme_kw [of "''HASH''"] wf_lexeme_kw [of "''BTREE''"]
    wf_lexeme_kw [of "''INSERT''"] wf_lexeme_kw [of "''INTO''"] wf_lexeme_kw [of "''VALUES''"]
    wf_lexeme_kw [of "''SELECT''"] wf_lexeme_kw [of "''FROM''"] wf_lexeme_kw [of "''WHERE''"]
    wf_lexeme_kw [of "''EXPLAIN''"]
  by (simp_all add: sql_keywords_def del: wf_lexeme.simps)

lemma wf_op [simp]: "wf_lexeme (TK_OR, ''OR'')" "wf_lexeme (TK_AND, ''AND'')"
  using wf_lexeme_kw [of "''OR''"] wf_lexeme_kw [of "''AND''"]
  by (simp_all add: sql_keywords_def kw_def del: wf_lexeme.simps)

lemma wf_cmp_lexeme: "op \<in> set (map fst cmp_lexemes) \<Longrightarrow> wf_lexeme (cmp_lexeme op)"
  by (auto simp: cmp_lexemes_def cmp_lexeme_def punctuation_def)

declare wf_lexeme.simps [simp del]

lemma print_expr_wf: "wf_expr e \<Longrightarrow> list_all wf_lexeme (print_body e) \<and> list_all wf_lexeme (print_expr k e)"
proof (induction e arbitrary: k)
  case (BinaryExpr op l r)
  have "list_all wf_lexeme (print_body (BinaryExpr op l r))"
    using BinaryExpr.IH BinaryExpr.prems wf_cmp_lexeme [of op] by auto
  then show ?case by (simp add: print_expr.simps del: print_body.simps)
qed (simp_all add: print_expr.simps show_int64_number)

lemma sep_by_wf: "wf_lexeme s \<Longrightarrow> \<forall>x \<in> set xs. list_all wf_lexeme (pr x) \<Longrightarrow> list_all wf_lexeme (sep_by s pr xs)"
  by (cases xs) (auto simp: list_all_iff)

lemma print_stmt_wf: "wf_stmt s \<Longrightarrow> list_all wf_lexeme (print_stmt s)"
proof (induction s)
  case (CreateTableStmt t cols)
  then have "list_all wf_lexeme (sep_by comma print_coldef cols)"
    by (intro sep_by_wf) (auto simp: list_all_iff print_coldef_def wf_coldef_def wf_ident_def wf_lexeme_word)
  then show ?case using CreateTableStmt by (simp add: wf_ident_def)
next
  case (CreateIndexStmt i t c ty)
  then show ?case by (cases "ty = IndexTypeHash") (simp_all add: wf_ident_def)
next
  case (InsertStmt t vs)
  then have "list_all wf_lexeme (sep_by comma print_body vs)"
    using print_expr_wf by (intro sep_by_wf) (auto simp: list_all_iff)
  then show ?case using InsertStmt by (simp add: wf_ident_def)
next
  case (SelectStmt all cols t w)
  then have "list_all wf_lexeme (sep_by comma (\<lambda>i. [ident_lexeme i]) cols)"
    by (intro sep_by_wf) (auto simp: list_all_iff wf_ident_def)
  then show ?case using SelectStmt print_expr_wf by (cases w) (auto simp: wf_ident_def)
qed simp

lemma parse_tokens:
  assumes "map tok_lexeme ts = ls @ [(TK_EOF, '''')]"
    and "\<And>p. at p (ls @ [(TK_EOF, '''')]) \<Longrightarrow> \<exists>s' p'. parseStatement (length ts + 2) p = Some (Ok s', p') \<and> Q s'
      \<and> at p' [(TK_EOF, '''')]"
  shows "\<exists>s'. Parse ts = Some (Ok s') \<and> Q s'"
proof -
  have "at \<lparr>ps_tokens = ts, ps_pos = 0\<rparr> (ls @ [(TK_EOF, '''')])" using assms(1) by (simp add: at_def)
  from assms(2) [OF this] obtain s' p' where s': "parseStatement (length ts + 2) \<lparr>ps_tokens = ts, ps_pos = 0\<rparr> = Some (Ok s', p')"
      "Q s'" "at p' [(TK_EOF, '''')]"
    by blast
  have "ts \<noteq> []" using assms(1) by auto
  then show ?thesis
    using s' pexpect_at [OF s'(3)] by (simp add: Parse_def parse_fuel_def pbind_Ok preturn_def)
qed

text \<open>A printed statement parses to itself, up to source positions.\<close>

lemma parse_printed:
  assumes "wf_stmt s"
  shows "\<exists>ts s'. Tokenize (print_lexemes (print_stmt s)) = Ok ts \<and> Parse ts = Some (Ok s')
    \<and> strip_stmt s' = strip_stmt s"
proof -
  obtain ts where ts: "Tokenize (print_lexemes (print_stmt s)) = Ok ts"
      "map tok_lexeme ts = print_stmt s @ [(TK_EOF, '''')]"
    using tokenize_print [OF print_stmt_wf [OF assms]] by blast
  have "length (print_stmt s) < length ts + 2"
    using arg_cong [OF ts(2), of length] by simp
  then have "\<exists>s'. Parse ts = Some (Ok s') \<and> strip_stmt s' = strip_stmt s"
    using parseStatement_at [OF assms] by (intro parse_tokens [OF ts(2)]) blast
  then show ?thesis using ts(1) by blast
qed

section \<open>Properties\<close>

text \<open>C27: parsing what the lexer returned always ends, with a statement or a syntax error; it neither
  runs for ever nor panics, for any SQL text.\<close>

theorem Parse_returns:
  "case Tokenize sql of Ok ts \<Rightarrow> Parse ts \<notin> {None, Some Panic} | Err e \<Rightarrow> True | Panic \<Rightarrow> False"
proof (cases "Tokenize sql")
  case (Ok ts)
  then have "ts \<noteq> [] \<and> tok_type (last ts) = TK_EOF"
    using tokenize_spec [of sql] tiles_last by auto
  then show ?thesis
    using parse_fuel_total [of ts "length ts + 2"] Ok by (auto simp: Parse_def)
qed (use tokenize_spec [of sql] in auto)

text \<open>C14: printing a statement as SQL text, with parentheses only where precedence and left
  associativity of OR, AND and the comparisons ask for them, and tokenizing and parsing that text
  gives the statement back, up to source positions.\<close>

theorem Parse_roundtrip:
  assumes "wf_stmt s"
  shows "\<exists>ts s'. Tokenize (print_lexemes (print_stmt s)) = Ok ts \<and> Parse ts = Some (Ok s')
    \<and> strip_stmt s' = strip_stmt s"
  using assms by (rule parse_printed)

definition sample_stmt :: Statement where
  "sample_stmt = ExplainStmt (SelectStmt False [plain_ident ''a''] (plain_ident ''t'')
     (Some (BinaryExpr ''AND'' (BinaryExpr ''OR'' (ColumnRefExpr (plain_ident ''a'')) (LiteralInt64Expr (- 5)))
       (BinaryExpr ''<='' (ColumnRefExpr (plain_ident ''b'')) (LiteralStringExpr ''x'')))))"

theorem Parse_roundtrip_witness:
  "\<exists>ts s'. Tokenize (print_lexemes (print_stmt sample_stmt)) = Ok ts \<and> Parse ts = Some (Ok s')
    \<and> strip_stmt s' = strip_stmt sample_stmt"
  by (rule Parse_roundtrip)
     (simp add: sample_stmt_def wf_ident_def wf_lexeme.simps ident_lexeme_def plain_ident_def text_runes_def
       isIdentStart_def sql_keywords_def ToUpper_def ascii_upper_def cmp_lexemes_def runes_of_ascii
       string_of_ascii_runes char_of_def bit_Suc_0_iff)

text \<open>C37: the value list of an INSERT accepts any token as a literal: an identifier, a keyword or a
  punctuation mark between the parentheses becomes a string literal with its text.\<close>

theorem Insert_accepts_any_token:
  assumes "wf_ident t" and "wf_lexeme (ty, tx)" and "ty \<noteq> TK_NUMBER"
  shows "\<exists>ts i. Tokenize (print_lexemes [kw ''INSERT'', kw ''INTO'', ident_lexeme t, kw ''VALUES'', lparen, (ty, tx), rparen]) = Ok ts
    \<and> Parse ts = Some (Ok (InsertStmt i [LiteralStringExpr tx])) \<and> strip_ident i = strip_ident t"
proof -
  let ?ls = "[kw ''INSERT'', kw ''INTO'', ident_lexeme t, kw ''VALUES'', lparen, (ty, tx), rparen]"
  have "list_all wf_lexeme ?ls" using assms(1,2) by (simp add: wf_ident_def)
  then obtain ts where ts: "Tokenize (print_lexemes ?ls) = Ok ts" "map tok_lexeme ts = ?ls @ [(TK_EOF, '''')]"
    using tokenize_print by blast
  define k where "k = length ts"
  have "\<exists>s'. Parse ts = Some (Ok s') \<and> (\<exists>i. s' = InsertStmt i [LiteralStringExpr tx] \<and> strip_ident i = strip_ident t)"
  proof (rule parse_tokens [OF ts(2)], unfold k_def [symmetric])
    fix p
    assume "at p (?ls @ [(TK_EOF, '''')])"
    then have a0: "at p ((TK_INSERT, ''INSERT'') # (TK_INTO, ''INTO'') # ident_lexeme t # (TK_VALUES, ''VALUES'')
        # lparen # (ty, tx) # rparen # [(TK_EOF, '''')])" by simp
    note a1 = at_Cons(3) [OF a0] note a2 = at_Cons(3) [OF a1]
    obtain i where i: "expectIdent (ps_advance (ps_advance p)) = Some (Ok i, ps_advance (ps_advance (ps_advance p)))"
        "strip_ident i = strip_ident t"
      using expectIdent_at [OF a2] by blast
    note a3 = at_Cons(3) [OF a2 [unfolded ident_lexeme_def]] note a4 = at_Cons(3) [OF a3]
    note a5 = at_Cons [OF at_Cons(3) [OF a4]] note a6 = at_Cons [OF a5(3)] note a7 = at_Cons [OF a6(3)]
    show "\<exists>s' p'. parseStatement (k + 2) p = Some (Ok s', p')
        \<and> (\<exists>i. s' = InsertStmt i [LiteralStringExpr tx] \<and> strip_ident i = strip_ident t) \<and> at p' [(TK_EOF, '''')]"
      using i at_Cons(1) [OF a0] pexpect_at [OF a1] pexpect_at [OF a3] pexpect_at [OF a4] a5 a6 a7(1) pexpect_at [OF a5(3)] assms(3)
      by (simp add: parseInsert_def parseParenList_def parseCommaList_def parseLiteral_def currentType_def [symmetric]
          pbind_padvance pbind_Ok pbind_pmatch preturn_def)
  qed
  then show ?thesis using ts(1) by blast
qed

theorem Insert_accepts_any_token_witness:
  "\<exists>ts i. Tokenize (print_lexemes [kw ''INSERT'', kw ''INTO'', ident_lexeme (plain_ident ''t''), kw ''VALUES'', lparen,
        (TK_SELECT, ''SELECT''), rparen]) = Ok ts
    \<and> Parse ts = Some (Ok (InsertStmt i [LiteralStringExpr ''SELECT''])) \<and> strip_ident i = strip_ident (plain_ident ''t'')"
  by (rule Insert_accepts_any_token)
     (simp_all add: wf_ident_def, simp add: wf_lexeme.simps ident_lexeme_def plain_ident_def text_runes_def
       isIdentStart_def sql_keywords_def ToUpper_def ascii_upper_def char_of_def)

end
