(* ===== verification/SqlService.thy ===== *)
theory SqlService
  imports Executors Parser
begin

text \<open>
  The SQL service of \<open>internal/core/engine\<close>: from the text of a statement through tokens, syntax tree, query
  tree, logical and physical plan to the executors and the result. A failed flush after a statement that
  changes the database is ignored by the code. The order in which the pool's map is walked by the flush is a
  parameter, as in the buffer pool.
\<close>

section \<open>Sessions and results\<close>

record SessionContext =
  ctx_sessionID :: string
  ctx_requestID :: string
  ctx_trace :: bool

definition NewSessionContext :: "string \<Rightarrow> string \<Rightarrow> bool \<Rightarrow> SessionContext" where
  "NewSessionContext sessionID requestID trace = \<lparr>ctx_sessionID = sessionID, ctx_requestID = requestID, ctx_trace = trace\<rparr>"

record ExecutionResult =
  er_columns :: "string list"
  er_rows :: "gvalue list list"
  er_affected :: nat
  er_explain :: string

definition NewExecutionResult :: "string list \<Rightarrow> gvalue list list \<Rightarrow> nat \<Rightarrow> string \<Rightarrow> ExecutionResult" where
  "NewExecutionResult columns rows affected explain =
     \<lparr>er_columns = columns, er_rows = rows, er_affected = affected, er_explain = explain\<rparr>"

record SqlService =
  sv_root :: string
  sv_engine :: Engine

abbreviation sv_catalog :: "SqlService \<Rightarrow> Catalog" where
  "sv_catalog sv \<equiv> db_cat (en_db (sv_engine sv))"

definition NewSqlService :: "string \<Rightarrow> Db \<Rightarrow> IndexManager \<Rightarrow> SqlService" where
  "NewSqlService root db im = \<lparr>sv_root = root, sv_engine = \<lparr>en_db = db, en_im = im\<rparr>\<rparr>"

section \<open>EXPLAIN\<close>

definition newline :: string where
  "newline = [CHR 0x0A]"

text \<open>\<open>%T\<close> of a statement.\<close>

fun statement_type :: "Statement \<Rightarrow> string" where
  "statement_type (CreateTableStmt _ _) = ''*ast.CreateTableStmt''"
| "statement_type (CreateIndexStmt _ _ _ _) = ''*ast.CreateIndexStmt''"
| "statement_type (InsertStmt _ _) = ''*ast.InsertStmt''"
| "statement_type (SelectStmt _ _ _ _) = ''*ast.SelectStmt''"
| "statement_type (ExplainStmt _) = ''*ast.ExplainStmt''"

definition FormatExplain :: "Token list \<Rightarrow> Statement \<Rightarrow> QueryTree \<Rightarrow> LogicalPlanNode \<Rightarrow> PhysicalPlanNode \<Rightarrow> string" where
  "FormatExplain tokens statement queryTree logicalPlan physicalPlan =
     ''TOKENS:'' @ newline
     @ concat (map (\<lambda>t. ''  '' @ TokenType_String (tok_type t) @ ''('' @ tok_text t @ '')'' @ newline) tokens)
     @ newline @ ''AST:'' @ newline @ ''  '' @ statement_type statement @ newline
     @ newline @ ''QUERY_TREE:'' @ newline @ ''  '' @ QueryType_String (query_Type queryTree) @ newline
     @ newline @ ''LOGICAL_PLAN:'' @ newline @ logical_PrintPlan logicalPlan
     @ newline @ ''PHYSICAL_PLAN:'' @ newline @ physical_PrintPlan physicalPlan"

section \<open>Statements\<close>

text \<open>The front end: what is computed before anything runs, from the text and the catalog alone.\<close>

record CompiledQuery =
  cq_tokens :: "Token list"
  cq_stmt :: Statement
  cq_queryTree :: QueryTree
  cq_logicalPlan :: LogicalPlanNode
  cq_physicalPlan :: PhysicalPlanNode

definition compile_sql :: "Catalog \<Rightarrow> string \<Rightarrow> CompiledQuery result option" where
  "compile_sql c sql = (case Tokenize sql of
     Err e \<Rightarrow> Some (Err e)
   | Panic \<Rightarrow> Some Panic
   | Ok tokens \<Rightarrow> map_option (\<lambda>r. bind_result r (\<lambda>stmt.
       bind_result (Analyze c stmt) (\<lambda>queryTree. let logicalPlan = Plan queryTree in
       bind_result (Optimize c logicalPlan) (\<lambda>physicalPlan.
       Ok \<lparr>cq_tokens = tokens, cq_stmt = stmt, cq_queryTree = queryTree, cq_logicalPlan = logicalPlan,
         cq_physicalPlan = physicalPlan\<rparr>)))) (Parse tokens))"

definition compiled_explain :: "CompiledQuery \<Rightarrow> string" where
  "compiled_explain q = FormatExplain (cq_tokens q) (cq_stmt q) (cq_queryTree q) (cq_logicalPlan q) (cq_physicalPlan q)"

text \<open>\<open>service.bufferPool.FlushAllPages()\<close>, whose error is dropped.\<close>

definition flush_ignored :: "PageKey list \<Rightarrow> (Engine, unit) prog" where
  "flush_ignored order en = (case on_db (on_pool (FlushAllPages order)) en of
     (Panic, en') \<Rightarrow> (Panic, en') | (_, en') \<Rightarrow> (Ok (), en'))"

fun target_names :: "QueryTree \<Rightarrow> string list" where
  "target_names (SelectQueryTree _ cols _) = map co_name cols"
| "target_names _ = []"

text \<open>Running a compiled statement that is not EXPLAIN: the rows it produces.\<close>

definition run_query :: "string \<Rightarrow> (Pool \<Rightarrow> PageKey list) \<Rightarrow> CompiledQuery \<Rightarrow> (Engine, gvalue list list) oprog" where
  "run_query root order q =
     oseq (once (CreateExecutor root (cq_physicalPlan q))) (\<lambda>executor.
     oseq (\<lambda>en. map_option (\<lambda>(r, _, en'). (r, en')) (engine_Execute executor en)) (\<lambda>rows en.
     if query_Type (cq_queryTree q) \<noteq> QueryTypeSelect
     then oseq (once (flush_ignored (order (db_pool (en_db en))))) (\<lambda>_. once (pure rows)) en
     else once (pure rows) en))"

text \<open>The result a caller sees.\<close>

definition query_result :: "bool \<Rightarrow> CompiledQuery \<Rightarrow> gvalue list list \<Rightarrow> ExecutionResult" where
  "query_result trace q rows = NewExecutionResult (target_names (cq_queryTree q)) rows
     (if query_Type (cq_queryTree q) = QueryTypeInsert then 1 else 0) (if trace then compiled_explain q else [])"

definition ExecuteWithContext ::
    "(Pool \<Rightarrow> PageKey list) \<Rightarrow> SessionContext option \<Rightarrow> string \<Rightarrow> (SqlService, ExecutionResult) oprog" where
  "ExecuteWithContext order ctx sql sv =
     (let trace = (case ctx of None \<Rightarrow> False | Some ctx \<Rightarrow> ctx_trace ctx) in
      case compile_sql (sv_catalog sv) sql of
        None \<Rightarrow> None
      | Some (Err e) \<Rightarrow> Some (Err e, sv)
      | Some Panic \<Rightarrow> Some (Panic, sv)
      | Some (Ok q) \<Rightarrow>
          if query_Type (cq_queryTree q) = QueryTypeExplain then Some (Ok (NewExecutionResult [] [] 0 (compiled_explain q)), sv)
          else map_option (\<lambda>(r, en). (bind_result r (\<lambda>rows. Ok (query_result trace q rows)), sv\<lparr>sv_engine := en\<rparr>))
            (run_query (sv_root sv) order q (sv_engine sv)))"

definition sql_Execute :: "(Pool \<Rightarrow> PageKey list) \<Rightarrow> string \<Rightarrow> (SqlService, ExecutionResult) oprog" where
  "sql_Execute order sql = ExecuteWithContext order None sql"

end
