(* ===== verification/PullExec.thy ===== *)
theory PullExec
  imports Footprint SqlService
begin

text \<open>
  What a tree of executors delivers. \<open>yields\<close> says which rows an open executor hands out, call by call,
  before it reports that there are no more; fetching all rows returns them. A scan yields the rows of its
  identifiers, a filter those of its child that satisfy the predicate, a projection their columns. The three
  kinds of scan share one cursor, so they are the instances of one locale.
\<close>

section \<open>Rows on demand\<close>

inductive yields :: "Executor \<Rightarrow> Engine \<Rightarrow> gvalue list list \<Rightarrow> Executor \<Rightarrow> Engine \<Rightarrow> bool" where
  no_more: "exec_Next ex en = Some (Ok None, ex', en') \<Longrightarrow> yields ex en [] ex' en'"
| next_row: "exec_Next ex en = Some (Ok (Some row), ex1, en1) \<Longrightarrow> yields ex1 en1 rows ex' en' \<Longrightarrow> yields ex en (row # rows) ex' en'"

inductive_cases yieldsE: "yields ex en rows ex' en'"

lemma fetch_yields: "yields ex en rows ex' en' \<Longrightarrow> fetch_rows acc ex en = Some (Ok (acc @ rows), ex', en')"
  by (induction arbitrary: acc rule: yields.induct) (simp_all add: fetch_rows.simps)

lemma yields_same_next:
  assumes "exec_Next ex en = exec_Next ex1 en1" and "yields ex1 en1 rows ex' en'"
  shows "yields ex en rows ex' en'"
  using assms(2) by (rule yieldsE) (auto intro: yields.intros simp: assms(1))

section \<open>Filter and projection\<close>

lemma filter_yields:
  assumes "yields child en rows child' en'" and "\<forall>row \<in> set rows. evalBool p row = Ok (P row)"
  shows "yields (FilterExec child p True) en (filter P rows) (FilterExec child' p True) en'"
  using assms
proof (induction rule: yields.induct)
  case (no_more ex en ex' en')
  then show ?case by (auto intro!: yields.no_more simp: exec_Next.simps [of "FilterExec ex p True"])
next
  case (next_row ex en row ex1 en1 rows ex' en')
  have rest: "yields (FilterExec ex1 p True) en1 (filter P rows) (FilterExec ex' p True) en'" using next_row by simp
  have step: "exec_Next (FilterExec ex p True) en
      = (if P row then Some (Ok (Some row), FilterExec ex1 p True, en1) else exec_Next (FilterExec ex1 p True) en1)"
    using next_row.hyps(1) next_row.prems by (simp add: exec_Next.simps [of "FilterExec ex p True"])
  show ?case
  proof (cases "P row")
    case True
    then show ?thesis using step rest by (auto intro: yields.next_row)
  next
    case False
    then show ?thesis using yields_same_next [OF _ rest] step by simp
  qed
qed

lemma project_yields:
  assumes "yields child en rows child' en'" and "\<forall>row \<in> set rows. project_row ps row = Ok (f row)"
  shows "yields (ProjectExec child ps True) en (map f rows) (ProjectExec child' ps True) en'"
  using assms
proof (induction rule: yields.induct)
  case (no_more ex en ex' en')
  then show ?case by (auto intro!: yields.no_more simp: exec_Next.simps [of "ProjectExec ex ps True"])
next
  case (next_row ex en row ex1 en1 rows ex' en')
  have "exec_Next (ProjectExec ex ps True) en = Some (Ok (Some (f row)), ProjectExec ex1 ps True, en1)"
    using next_row.hyps(1) next_row.prems by (simp add: exec_Next.simps [of "ProjectExec ex ps True"])
  then show ?case using next_row by (auto intro: yields.next_row)
qed

section \<open>Scans\<close>

lemma heap_rows_functional:
  assumes "heap_rep heap c db rows" and "(tid, row) \<in> set rows" and "(tid, row') \<in> set rows"
  shows "row = row'"
  using heap_store.rd_row [OF assms(1,2)] heap_store.rd_row [OF assms(1,3)] by auto

lemma heap_rows_map_of:
  assumes "heap_rep heap c db rows" and "(tid, row) \<in> set rows"
  shows "map_of rows tid = Some row"
proof -
  obtain row' where "map_of rows tid = Some row'" using assms(2) by (meson weak_map_of_SomeI)
  then show ?thesis using heap_rows_functional [OF assms map_of_SomeD] by simp
qed

abbreviation row_at :: "(TID \<times> gvalue list) list \<Rightarrow> TID \<Rightarrow> gvalue list" where
  "row_at rows tid \<equiv> the (map_of rows tid)"

definition at_heap :: "TableHeap \<Rightarrow> Engine \<Rightarrow> (TID \<times> gvalue list) list \<Rightarrow> bool" where
  "at_heap heap en rows \<longleftrightarrow> heap_rep heap (db_cat (en_db en)) (en_db en) rows \<and> (\<forall>e \<in> set rows. snd e \<noteq> [])"

text \<open>A reader of the heap leaves the open indexes alone and works in the file of the heap.\<close>

definition reads_heap :: "TableHeap \<Rightarrow> Engine \<Rightarrow> Engine \<Rightarrow> bool" where
  "reads_heap heap en en' \<longleftrightarrow> en_im en' = en_im en \<and> db_cat (en_db en') = db_cat (en_db en)
     \<and> runs_on (heap_file heap) (db_pool (en_db en)) (db_pool (en_db en'))"

lemma reads_heap_refl [simp]: "reads_heap heap en en"
  by (simp add: reads_heap_def)

lemma reads_heap_trans: "reads_heap heap en en' \<Longrightarrow> reads_heap heap en' en'' \<Longrightarrow> reads_heap heap en en''"
  using runs_on_trans by (fastforce simp: reads_heap_def)

locale scan_kind =
  fixes C :: "'a ScanCursor_scheme \<Rightarrow> Executor"
  assumes scan_Next: "exec_Next (C ex) en = at_leaf C (once cursor_Next) ex en"
begin

lemma cursor_done: "sc_isOpen ex \<Longrightarrow> length (sc_tids ex) \<le> sc_cursor ex \<Longrightarrow> exec_Next (C ex) en = Some (Ok None, C ex, en)"
  by (simp add: scan_Next at_leaf_def once_def cursor_Next_def)

lemma cursor_row:
  assumes h: "at_heap (sc_tableHeap ex) en rows" and op: "sc_isOpen ex" and cur: "sc_cursor ex < length (sc_tids ex)"
    and tid: "(sc_tids ex ! sc_cursor ex, row) \<in> set rows"
  shows "\<exists>en'. exec_Next (C ex) en = Some (Ok (Some row), C (ex\<lparr>sc_cursor := sc_cursor ex + 1\<rparr>), en')
    \<and> at_heap (sc_tableHeap ex) en' rows \<and> reads_heap (sc_tableHeap ex) en en'"
proof -
  let ?c = "db_cat (en_db en)"
  have r: "heap_rep (sc_tableHeap ex) ?c (en_db en) rows" and ne: "row \<noteq> []" using h tid by (force simp: at_heap_def)+
  obtain db' where db': "ReadRow (sc_tableHeap ex) (sc_tids ex ! sc_cursor ex) (en_db en) = (Ok row, db')"
      "heap_rep (sc_tableHeap ex) ?c db' rows"
    using heap_store.rd_row [OF r tid] by blast
  have c: "db_cat db' = ?c" using db'(2) by (simp add: heap_rep_def)
  have "exec_Next (C ex) en = Some (Ok (Some row), C (ex\<lparr>sc_cursor := sc_cursor ex + 1\<rparr>), en\<lparr>en_db := db'\<rparr>)"
    using op cur db'(1) ne
    by (simp add: scan_Next at_leaf_def once_def cursor_Next_def Let_def seq_def set_exec_def in_engine_def on_db_def pure_def row_slice_def)
  then show ?thesis using h db'(2) c ReadRow_runs [OF db'(1)] by (auto simp: at_heap_def reads_heap_def)
qed

lemma cursor_yields:
  assumes "at_heap (sc_tableHeap ex) en rows" and "sc_isOpen ex" and "set (drop (sc_cursor ex) (sc_tids ex)) \<subseteq> fst ` set rows"
  shows "\<exists>ex' en'. yields (C ex) en (map (row_at rows) (drop (sc_cursor ex) (sc_tids ex))) (C ex') en'
    \<and> at_heap (sc_tableHeap ex) en' rows \<and> reads_heap (sc_tableHeap ex) en en'"
  using assms
proof (induction "length (sc_tids ex) - sc_cursor ex" arbitrary: ex en)
  case 0
  then have "yields (C ex) en [] (C ex) en" using cursor_done [of ex en] by (auto intro: yields.no_more)
  then show ?case using 0 by (intro exI [of _ ex] exI [of _ en]) auto
next
  case (Suc n)
  then have cur: "sc_cursor ex < length (sc_tids ex)" by simp
  then have d: "drop (sc_cursor ex) (sc_tids ex) = sc_tids ex ! sc_cursor ex # drop (sc_cursor ex + 1) (sc_tids ex)"
    by (simp add: Cons_nth_drop_Suc)
  then obtain row where row: "(sc_tids ex ! sc_cursor ex, row) \<in> set rows" using Suc.prems(3) by auto
  have "heap_rep (sc_tableHeap ex) (db_cat (en_db en)) (en_db en) rows" using Suc.prems(1) by (simp add: at_heap_def)
  note at = heap_rows_map_of [OF this row]
  obtain en1 where en1: "exec_Next (C ex) en = Some (Ok (Some row), C (ex\<lparr>sc_cursor := sc_cursor ex + 1\<rparr>), en1)"
      "at_heap (sc_tableHeap ex) en1 rows" "reads_heap (sc_tableHeap ex) en en1"
    using cursor_row [OF Suc.prems(1,2) cur row] by blast
  let ?ex = "ex\<lparr>sc_cursor := sc_cursor ex + 1\<rparr>"
  obtain ex' en' where e: "yields (C ?ex) en1 (map (row_at rows) (drop (sc_cursor ?ex) (sc_tids ?ex))) (C ex') en'"
      "at_heap (sc_tableHeap ?ex) en' rows" "reads_heap (sc_tableHeap ?ex) en1 en'"
  proof -
    have "n = length (sc_tids ?ex) - sc_cursor ?ex" "at_heap (sc_tableHeap ?ex) en1 rows" "sc_isOpen ?ex"
        "set (drop (sc_cursor ?ex) (sc_tids ?ex)) \<subseteq> fst ` set rows"
      using Suc.hyps(2) Suc.prems(2,3) en1(2) d by simp_all
    then show thesis using Suc.hyps(1) that by blast
  qed
  have "yields (C ex) en (map (row_at rows) (drop (sc_cursor ex) (sc_tids ex))) (C ex') en'"
    using yields.next_row [OF en1(1) e(1)] d at by simp
  then show ?case using e(2) reads_heap_trans [OF en1(3)] e(3) by (intro exI conjI) simp_all
qed

end

interpretation seq_scan: scan_kind SeqScanExec
  by unfold_locales (simp add: exec_Next.simps [of "SeqScanExec _"] seq_scan_Next_def)

interpretation hash_scan: scan_kind HashIndexScanExec
  by unfold_locales (simp add: exec_Next.simps [of "HashIndexScanExec _"] hash_scan_Next_def)

interpretation btree_scan: scan_kind BTreeIndexScanExec
  by unfold_locales (simp add: exec_Next.simps [of "BTreeIndexScanExec _"] btree_scan_Next_def)

end
