(* ===== verification/OpenIndexes.thy ===== *)
theory OpenIndexes
  imports Footprint IndexManager
begin

text \<open>
  The indexes that the engine has open, seen through the interface the executors use: an index holds pairs of
  a key and a tuple id, a search returns the ids of a key or of a range of keys, an insertion adds a pair.
  Both kinds of index satisfy the locale \<open>key_index\<close>. Work in other files does not change what an index holds.
\<close>

section \<open>Open indexes\<close>

definition entry_pairs :: "entry list \<Rightarrow> (gvalue \<times> TID) multiset" where
  "entry_pairs E = mset (concat (map (\<lambda>e. map (Pair (fst e)) (snd e)) E))"

fun index_holds :: "Pool \<Rightarrow> Index \<Rightarrow> (gvalue \<times> TID) multiset \<Rightarrow> bool" where
  "index_holds b (OpenHash h) P \<longleftrightarrow> (\<exists>n B. hash_index \<lparr>hx_pool = b, hx_idx = h\<rparr> n B P)"
| "index_holds b (OpenBTree t) P \<longleftrightarrow> (\<exists>n E. btree_index \<lparr>tx_pool = b, tx_idx = t\<rparr> n E \<and> entry_pairs E = P)"

fun index_file :: "Index \<Rightarrow> string" where
  "index_file (OpenHash h) = hi_fileID h" | "index_file (OpenBTree t) = bi_fileID t"

fun index_keyType :: "Index \<Rightarrow> TypeDefinition" where
  "index_keyType (OpenHash h) = hi_keyType h" | "index_keyType (OpenBTree t) = bi_keyType t"

fun index_kind :: "Index \<Rightarrow> IndexType" where
  "index_kind (OpenHash h) = IndexTypeHash" | "index_kind (OpenBTree t) = IndexTypeBTree"

lemma entry_pairs_simps [simp]: "entry_pairs [] = {#}" "entry_pairs (e # E) = image_mset (Pair (fst e)) (mset (snd e)) + entry_pairs E"
  by (simp_all add: entry_pairs_def)

lemma range_tids_pairs: "mset (range_tids P E) = image_mset snd (filter_mset (\<lambda>x. P (fst x)) (entry_pairs E))"
proof (induction E)
  case (Cons e E)
  have "filter_mset (\<lambda>x. P (fst x)) (image_mset (Pair (fst e)) (mset (snd e))) = (if P (fst e) then image_mset (Pair (fst e)) (mset (snd e)) else {#})"
    by (simp add: filter_mset_image_mset)
  then show ?case using Cons by (simp add: range_tids_def image_mset.compositionality comp_def)
qed (simp add: range_tids_def)

lemma index_fluid: "index_holds b idx P \<Longrightarrow> fluid b"
proof (cases idx)
  case (OpenHash h)
  assume "index_holds b idx P"
  then obtain m n chs where "table_pages (hi_fileID h) (hi_keyType h) \<lparr>hx_pool = b, hx_idx = h\<rparr> m n chs"
    using OpenHash by (auto simp: hash_index_def)
  then show ?thesis using file_pagesD(2) [OF hash_fileD(3) [OF table_pagesD(1)]] by fastforce
next
  case (OpenBTree t)
  assume "index_holds b idx P"
  then show ?thesis using OpenBTree file_pagesD(2) by (fastforce simp: btree_index_def tree_in_def node_store_def)
qed

lemma hash_index_kept:
  assumes "hash_index \<lparr>hx_pool = b, hx_idx = h\<rparr> n B P" and k: "file_kept (hi_fileID h) b b'"
  shows "hash_index \<lparr>hx_pool = b', hx_idx = h\<rparr> n B P"
proof -
  obtain m k q chs where r: "table_pages (hi_fileID h) (hi_keyType h) \<lparr>hx_pool = b, hx_idx = h\<rparr> m n chs" "meta_shape (hi_meta h) k q"
      "placed k q chs" "length chs = B" "hm_recordCount (hi_meta h) = word_of_nat (size P)" "meta_saved m (hi_meta h)"
      "size P \<le> 48 * B" "P = contents (table_entries chs)"
    using assms(1) by (auto simp: hash_index_def)
  have "table_pages (hi_fileID h) (hi_keyType h) \<lparr>hx_pool = b', hx_idx = h\<rparr> m n chs"
    using r(1) file_pages_kept [OF _ k] by (simp add: table_pages_def hash_file_def)
  then show ?thesis using r(2-8) unfolding hash_index_def by auto
qed

lemma btree_state_eta [simp]: "\<lparr>tx_pool = tx_pool s, tx_idx = tx_idx s\<rparr> = s"
  by (cases s) simp

lemma btree_index_kept:
  assumes "btree_index \<lparr>tx_pool = b, tx_idx = t\<rparr> n E" and k: "file_kept (bi_fileID t) b b'"
  shows "btree_index \<lparr>tx_pool = b', tx_idx = t\<rparr> n E"
proof -
  obtain N u where u: "tree_in \<lparr>tx_pool = b, tx_idx = t\<rparr> N n u" "entries u = E" using assms(1) by (auto simp: btree_index_def)
  obtain m where "file_pages (bi_fileID t) b m n" and m: "n < 2 ^ 31" "m 0 \<noteq> None" "\<forall>i node. N i = Some node \<longrightarrow> 0 < i
      \<and> bn_pageID node = word_of_nat i \<and> (\<exists>buf. m i = Some buf \<and> node_page (bi_keyType t) buf node)"
    using u(1) by (auto simp: tree_in_def node_store_def)
  then have "file_pages (bi_fileID t) b' m n" using file_pages_kept [OF _ k] by blast
  then have "node_store \<lparr>tx_pool = b', tx_idx = t\<rparr> N n" using m unfolding node_store_def by auto
  then have "tree_in \<lparr>tx_pool = b', tx_idx = t\<rparr> N n u" using u(1) by (simp add: tree_in_def)
  then show ?thesis using u(2) by (auto simp: btree_index_def)
qed

lemma index_kept: "index_holds b idx P \<Longrightarrow> file_kept (index_file idx) b b' \<Longrightarrow> index_holds b' idx P"
  using hash_index_kept btree_index_kept by (cases idx) (simp, blast)+

text \<open>What an insertion needs: room in the directory and page numbers left in a hash index; integers, an LRU pool and
  fewer than 680 pages and 1356 ids of the key in a B-tree.\<close>

definition hash_room :: "HashState \<Rightarrow> (gvalue \<times> TID) multiset \<Rightarrow> gvalue \<Rightarrow> bool" where
  "hash_room s P key \<longleftrightarrow> (\<exists>n B. hash_index s n B P \<and> B < 2045 \<and> n + size P + 4 < 2 ^ 31)"

definition btree_room :: "BTreeState \<Rightarrow> (gvalue \<times> TID) multiset \<Rightarrow> gvalue \<Rightarrow> bool" where
  "btree_room s P key \<longleftrightarrow> (\<exists>n E. btree_index s n E \<and> entry_pairs E = P \<and> n < 680 \<and> length (lookup_tids E key) < 1356)
     \<and> ty_name (tx_keyType s) = ''INT64'' \<and> lru_pool (tx_pool s) \<and> 2 \<le> bp_poolSize (tx_pool s)"

fun index_room :: "Pool \<Rightarrow> Index \<Rightarrow> (gvalue \<times> TID) multiset \<Rightarrow> gvalue \<Rightarrow> bool" where
  "index_room b (OpenHash h) P key \<longleftrightarrow> hash_room \<lparr>hx_pool = b, hx_idx = h\<rparr> P key"
| "index_room b (OpenBTree t) P key \<longleftrightarrow> btree_room \<lparr>tx_pool = b, tx_idx = t\<rparr> P key"

lemma index_room_kept:
  assumes "index_room b idx P key" and k: "file_kept (index_file idx) b b'"
  shows "index_room b' idx P key"
proof (cases idx)
  case (OpenHash h)
  then show ?thesis using assms hash_index_kept [of b h _ _ P b'] by (auto simp: hash_room_def)
next
  case (OpenBTree t)
  then have "\<exists>n E. btree_index \<lparr>tx_pool = b', tx_idx = t\<rparr> n E \<and> entry_pairs E = P \<and> n < 680 \<and> length (lookup_tids E key) < 1356"
    using assms btree_index_kept [of b t _ _ b'] by (simp add: btree_room_def) blast
  then show ?thesis using assms OpenBTree by (simp add: btree_room_def file_kept_def)
qed

section \<open>The interface of an index\<close>

locale key_index =
  fixes holds :: "'s \<Rightarrow> (gvalue \<times> TID) multiset \<Rightarrow> bool" and room :: "'s \<Rightarrow> (gvalue \<times> TID) multiset \<Rightarrow> gvalue \<Rightarrow> bool"
    and add :: "gvalue \<Rightarrow> TID \<Rightarrow> ('s, unit) oprog"
    and pool_of :: "'s \<Rightarrow> Pool" and file_of :: "'s \<Rightarrow> string" and type_of :: "'s \<Rightarrow> TypeDefinition"
  assumes holds_pool: "holds s P \<Longrightarrow> pool_inv (pool_of s) \<and> fluid (pool_of s)"
    and room_holds: "room s P key \<Longrightarrow> holds s P"
    and add_pair: "room s P key \<Longrightarrow> key_ok (type_of s) key \<Longrightarrow> \<exists>s'. add key tid s = Some (Ok (), s')
      \<and> holds s' (add_mset (key, tid) P) \<and> file_of s' = file_of s \<and> type_of s' = type_of s
      \<and> runs_on (file_of s) (pool_of s) (pool_of s')"
begin

lemma add_frame:
  assumes "room s P key" and "key_ok (type_of s) key"
  shows "\<exists>s'. add key tid s = Some (Ok (), s') \<and> holds s' (add_mset (key, tid) P) \<and> file_of s' = file_of s
    \<and> type_of s' = type_of s \<and> (\<forall>F. F \<noteq> file_of s \<longrightarrow> file_kept F (pool_of s) (pool_of s'))"
proof -
  obtain s' where s': "add key tid s = Some (Ok (), s')" "holds s' (add_mset (key, tid) P)" "file_of s' = file_of s"
      "type_of s' = type_of s" "runs_on (file_of s) (pool_of s) (pool_of s')"
    using add_pair [OF assms] by blast
  have "file_kept F (pool_of s) (pool_of s')" if "F \<noteq> file_of s" for F
    using runs_in_kept [OF runs_in_one [OF s'(5)], of "{file_of s}"] holds_pool [OF room_holds [OF assms(1)]] holds_pool [OF s'(2)] that
    by simp
  then show ?thesis using s'(1-4) by blast
qed

end

lemma hash_index_pool: "hash_index s n B P \<Longrightarrow> pool_inv (hx_pool s) \<and> fluid (hx_pool s)"
  by (auto simp: hash_index_def table_pages_def hash_file_def file_pages_def)

lemma btree_index_pool: "btree_index s n E \<Longrightarrow> pool_inv (tx_pool s) \<and> fluid (tx_pool s)"
  by (auto simp: btree_index_def tree_in_def node_store_def file_pages_def)

lemma entry_pairs_add: "entry_pairs (add_tid E key tid) = add_mset (key, tid) (entry_pairs E)"
  by (induction E key tid rule: add_tid.induct) auto

interpretation hash_ix: key_index "\<lambda>s P. \<exists>n B. hash_index s n B P" hash_room hash_Insert hx_pool
  "\<lambda>s. hi_fileID (hx_idx s)" "\<lambda>s. hi_keyType (hx_idx s)"
proof unfold_locales
  fix s P key tid
  assume r: "hash_room s P key" and k: "key_ok (hi_keyType (hx_idx s)) key"
  then obtain n B where "hash_index s n B P" "B < 2045" "n + size P + 4 < 2 ^ 31" by (auto simp: hash_room_def)
  from hash_Insert_ok [OF this(1) k this(2,3)]
  show "\<exists>s'. hash_Insert key tid s = Some (Ok (), s') \<and> (\<exists>n B. hash_index s' n B (add_mset (key, tid) P))
      \<and> hi_fileID (hx_idx s') = hi_fileID (hx_idx s) \<and> hi_keyType (hx_idx s') = hi_keyType (hx_idx s)
      \<and> runs_on (hi_fileID (hx_idx s)) (hx_pool s) (hx_pool s')"
    by metis
qed (auto simp: hash_room_def dest: hash_index_pool)

interpretation btree_ix: key_index "\<lambda>s P. \<exists>n E. btree_index s n E \<and> entry_pairs E = P" btree_room btree_Insert tx_pool
  "\<lambda>s. bi_fileID (tx_idx s)" "\<lambda>s. tx_keyType s"
proof unfold_locales
  fix s P key tid
  assume r: "btree_room s P key" and k: "key_ok (tx_keyType s) key"
  then obtain n E where e: "btree_index s n E" "entry_pairs E = P" "n < 680" "length (lookup_tids E key) < 1356"
    and t: "ty_name (tx_keyType s) = ''INT64''" "lru_pool (tx_pool s)" "2 \<le> bp_poolSize (tx_pool s)"
    by (auto simp: btree_room_def)
  obtain s' n' where s': "btree_Insert key tid s = Some (Ok (), s')" "btree_index s' n' (add_tid E key tid)" "tx_moves s s'"
    by (rule btree_Insert_ok [where tid = tid, OF e(1) k t e(3,4)])
  then show "\<exists>s'. btree_Insert key tid s = Some (Ok (), s') \<and> (\<exists>n E. btree_index s' n E \<and> entry_pairs E = add_mset (key, tid) P)
      \<and> bi_fileID (tx_idx s') = bi_fileID (tx_idx s) \<and> tx_keyType s' = tx_keyType s \<and> runs_on (bi_fileID (tx_idx s)) (tx_pool s) (tx_pool s')"
    using e(2) entry_pairs_add [of E key tid] by (intro exI [of _ s']) (auto simp: tx_moves_def)
qed (auto simp: btree_room_def dest: btree_index_pool)

section \<open>Calls through the interface\<close>

text \<open>Calls through the interface, on an index that is open.\<close>

definition index_ready :: "Engine \<Rightarrow> string \<Rightarrow> Index \<Rightarrow> bool" where
  "index_ready en name idx \<longleftrightarrow> map_of (im_byName (en_im en)) name = Some idx"

definition index_moved :: "Engine \<Rightarrow> string \<Rightarrow> Index \<Rightarrow> Engine \<Rightarrow> bool" where
  "index_moved en name idx en' \<longleftrightarrow> db_cat (en_db en') = db_cat (en_db en)
     \<and> en_db en' = (en_db en)\<lparr>db_pool := db_pool (en_db en')\<rparr> \<and> runs_on (index_file idx) (db_pool (en_db en)) (db_pool (en_db en'))
     \<and> (\<forall>other. other \<noteq> name \<longrightarrow> map_of (im_byName (en_im en')) other = map_of (im_byName (en_im en)) other)
     \<and> im_root (en_im en') = im_root (en_im en)"

lemma Index_Search_hash:
  assumes "index_ready en name idx" and "index_holds (db_pool (en_db en)) idx P" and "index_kind idx = IndexTypeHash"
    and "key_ok (index_keyType idx) key"
  obtains tids en' where "Index_Search name key en = Some (Ok tids, en')"
    and "mset tids = image_mset snd (filter_mset (\<lambda>x. fst x = key) P)"
    and "index_moved en name idx en'" and "index_ready en' name idx" and "index_holds (db_pool (en_db en')) idx P"
proof -
  obtain h where h: "idx = OpenHash h" using assms(3) by (cases idx) (auto simp: IndexTypeHash_def IndexTypeBTree_def)
  obtain n B where i: "hash_index \<lparr>hx_pool = db_pool (en_db en), hx_idx = h\<rparr> n B P" using assms(2) h by auto
  have k: "key_ok (hi_keyType (hx_idx \<lparr>hx_pool = db_pool (en_db en), hx_idx = h\<rparr>)) key" using assms(4) h by simp
  obtain tids s' where s': "hash_Search key \<lparr>hx_pool = db_pool (en_db en), hx_idx = h\<rparr> = Some (Ok tids, s')"
      "mset tids = image_mset snd (filter_mset (\<lambda>x. fst x = key) P)" "hash_index s' n B P" "hx_idx s' = h"
      "runs_on (hi_fileID h) (db_pool (en_db en)) (hx_pool s')"
    by (rule hash_Search_ok [OF i k]) simp
  let ?en = "snd (set_index name (OpenHash h) (en\<lparr>en_db := (en_db en)\<lparr>db_pool := hx_pool s'\<rparr>\<rparr>))"
  have "\<lparr>hx_pool = hx_pool s', hx_idx = h\<rparr> = s'" using s'(4) by (cases s') simp
  then have "index_holds (hx_pool s') idx P" using s'(3) h by auto
  moreover have "Index_Search name key en = Some (Ok tids, ?en)"
    using assms(1) h s'(1,4) by (simp add: Index_Search_def on_index_def index_ready_def)
  moreover have "index_moved en name idx ?en" "index_ready ?en name idx"
    using s'(5) h by (simp_all add: index_moved_def index_ready_def set_index_def update_conv')
  ultimately show thesis using that [of tids ?en] s'(2) by (simp add: set_index_def)
qed

lemma Index_RangeSearch_btree:
  assumes "index_ready en name idx" and "index_holds (db_pool (en_db en)) idx P" and "index_kind idx = IndexTypeBTree"
    and "from \<noteq> VNil \<Longrightarrow> key_ok (index_keyType idx) from" and "to \<noteq> VNil \<Longrightarrow> key_ok (index_keyType idx) to"
  obtains tids en' where "Index_RangeSearch name from fi to ti en = Some (Ok tids, en')"
    and "mset tids = image_mset snd (filter_mset (\<lambda>x. in_bounds from fi to ti (fst x)) P)"
    and "index_moved en name idx en'" and "index_ready en' name idx" and "index_holds (db_pool (en_db en')) idx P"
proof -
  obtain t where t: "idx = OpenBTree t" using assms(3) by (cases idx) (auto simp: IndexTypeHash_def IndexTypeBTree_def)
  obtain n E where i: "btree_index \<lparr>tx_pool = db_pool (en_db en), tx_idx = t\<rparr> n E" "entry_pairs E = P" using assms(2) t by auto
  obtain s' where s': "btree_RangeSearch from fi to ti \<lparr>tx_pool = db_pool (en_db en), tx_idx = t\<rparr>
        = Some (Ok (range_tids (in_bounds from fi to ti) E), s')" "btree_index s' n E"
      "tx_works \<lparr>tx_pool = db_pool (en_db en), tx_idx = t\<rparr> s'"
    by (rule btree_RangeSearch_ok [OF i(1), of "from" to]) (use assms(4,5) t in simp_all)
  have w: "tx_idx s' = t" "runs_on (bi_fileID t) (db_pool (en_db en)) (tx_pool s')" using s'(3) by (simp_all add: tx_works_def)
  let ?en = "snd (set_index name (OpenBTree t) (en\<lparr>en_db := (en_db en)\<lparr>db_pool := tx_pool s'\<rparr>\<rparr>))"
  have "\<lparr>tx_pool = tx_pool s', tx_idx = t\<rparr> = s'" using w(1) by (cases s') simp
  then have "index_holds (tx_pool s') idx P" using s'(2) i(2) t by auto
  moreover have "Index_RangeSearch name from fi to ti en = Some (Ok (range_tids (in_bounds from fi to ti) E), ?en)"
    using assms(1) t s'(1) w(1) by (simp add: Index_RangeSearch_def on_index_def index_ready_def)
  moreover have "index_moved en name idx ?en" "index_ready ?en name idx"
    using w(2) t by (simp_all add: index_moved_def index_ready_def set_index_def update_conv')
  ultimately show thesis using that [of "range_tids (in_bounds from fi to ti) E" ?en] range_tids_pairs [of "in_bounds from fi to ti" E] i(2)
    by (simp add: set_index_def)
qed

lemma Index_Insert_ok:
  assumes ready: "index_ready en name idx" and room: "index_room (db_pool (en_db en)) idx P key" and key: "key_ok (index_keyType idx) key"
  obtains idx' en' where "Index_Insert name key tid en = Some (Ok (), en')" and "index_ready en' name idx'"
    and "index_holds (db_pool (en_db en')) idx' (add_mset (key, tid) P)" and "index_file idx' = index_file idx"
    and "index_kind idx' = index_kind idx" and "index_keyType idx' = index_keyType idx"
    and "\<And>F. F \<noteq> index_file idx \<Longrightarrow> file_kept F (db_pool (en_db en)) (db_pool (en_db en'))"
    and "en_db en' = (en_db en)\<lparr>db_pool := db_pool (en_db en')\<rparr>"
    and "\<And>other. other \<noteq> name \<Longrightarrow> map_of (im_byName (en_im en')) other = map_of (im_byName (en_im en)) other"
proof (cases idx)
  case (OpenHash h)
  obtain s' where s': "hash_Insert key tid \<lparr>hx_pool = db_pool (en_db en), hx_idx = h\<rparr> = Some (Ok (), s')"
      "\<exists>n B. hash_index s' n B (add_mset (key, tid) P)" "hi_fileID (hx_idx s') = hi_fileID h" "hi_keyType (hx_idx s') = hi_keyType h"
      "\<forall>F. F \<noteq> hi_fileID h \<longrightarrow> file_kept F (db_pool (en_db en)) (hx_pool s')"
    using hash_ix.add_frame [of "\<lparr>hx_pool = db_pool (en_db en), hx_idx = h\<rparr>" P key tid] room key OpenHash by auto
  let ?en = "snd (set_index name (OpenHash (hx_idx s')) (en\<lparr>en_db := (en_db en)\<lparr>db_pool := hx_pool s'\<rparr>\<rparr>))"
  show thesis
    by (rule that [of ?en "OpenHash (hx_idx s')"])
      (use ready OpenHash s' in \<open>auto simp: Index_Insert_def on_index_def index_ready_def set_index_def update_conv'\<close>)
next
  case (OpenBTree t)
  obtain s' where s': "btree_Insert key tid \<lparr>tx_pool = db_pool (en_db en), tx_idx = t\<rparr> = Some (Ok (), s')"
      "\<exists>n E. btree_index s' n E \<and> entry_pairs E = add_mset (key, tid) P" "bi_fileID (tx_idx s') = bi_fileID t" "tx_keyType s' = bi_keyType t"
      "\<forall>F. F \<noteq> bi_fileID t \<longrightarrow> file_kept F (db_pool (en_db en)) (tx_pool s')"
    using btree_ix.add_frame [of "\<lparr>tx_pool = db_pool (en_db en), tx_idx = t\<rparr>" P key tid] room key OpenBTree by auto
  let ?en = "snd (set_index name (OpenBTree (tx_idx s')) (en\<lparr>en_db := (en_db en)\<lparr>db_pool := tx_pool s'\<rparr>\<rparr>))"
  show thesis
    by (rule that [of ?en "OpenBTree (tx_idx s')"])
      (use ready OpenBTree s' in \<open>auto simp: Index_Insert_def on_index_def index_ready_def set_index_def update_conv'\<close>)
qed

end
