(* ===== verification/TableState.thy ===== *)
theory TableState
  imports PullExec OpenIndexes
begin

text \<open>
  The content of a database at one moment. \<open>table_state\<close>: the heap of a table holds its rows, and every index of
  the table is open and holds, for each row, the value of the indexed column with the identifier of the row.
  \<open>db_state\<close> says so of all tables: it is the abstraction of the engine to a function from tables to rows. A
  statement on one table \<open>touches\<close> the files and indexes of that table only.
\<close>

section \<open>The state of a table\<close>

definition column_pairs :: "ColumnDefinition \<Rightarrow> (TID \<times> gvalue list) list \<Rightarrow> (gvalue \<times> TID) multiset" where
  "column_pairs col rows = mset (map (\<lambda>e. (column_value col (snd e), fst e)) rows)"

text \<open>An index of the table is open, lies in a file of its own and holds the values of its column.\<close>

definition index_rep :: "Engine \<Rightarrow> TableDefinition \<Rightarrow> (TID \<times> gvalue list) list \<Rightarrow> IndexDefinition \<Rightarrow> bool" where
  "index_rep en table rows def \<longleftrightarrow> (\<exists>idx col ty. index_ready en (ix_name def) idx \<and> index_kind idx = ix_indexType def
     \<and> index_file idx = ix_fileNode def \<and> ix_fileNode def \<noteq> tb_fileNode table \<and> index_column (db_cat (en_db en)) table def = Some col
     \<and> map_of (cm_typesByOid (db_cat (en_db en))) (co_typeOid col) = Some ty \<and> index_keyType idx = ty
     \<and> ty_name ty \<in> {''INT64'', ''VARCHAR''} \<and> index_holds (db_pool (en_db en)) idx (column_pairs col rows))"

definition table_indexes :: "Catalog \<Rightarrow> TableDefinition \<Rightarrow> IndexDefinition list" where
  "table_indexes c table = slice_at (cm_indexesByTableOid c) (tb_oid table)"

definition table_heap :: "string \<Rightarrow> Catalog \<Rightarrow> TableDefinition \<Rightarrow> TableHeap" where
  "table_heap root c table = \<lparr>th_root = root, th_table = table, th_columns = columns_of c table\<rparr>"

definition table_rows :: "string \<Rightarrow> Engine \<Rightarrow> TableDefinition \<Rightarrow> (TID \<times> gvalue list) list \<Rightarrow> bool" where
  "table_rows root en table rows \<longleftrightarrow> at_heap (table_heap root (db_cat (en_db en)) table) en rows
     \<and> (\<forall>e \<in> set rows. row_of (db_cat (en_db en)) table (snd e))"

definition table_state :: "string \<Rightarrow> Engine \<Rightarrow> TableDefinition \<Rightarrow> (TID \<times> gvalue list) list \<Rightarrow> bool" where
  "table_state root en table rows \<longleftrightarrow> table_rows root en table rows
     \<and> (\<forall>def \<in> set (table_indexes (db_cat (en_db en)) table). index_rep en table rows def)"

lemma NewTableHeap_ok: "NewTableHeap root table c = Ok (table_heap root c table)"
  by (simp add: NewTableHeap_def GetColumns_def table_heap_def columns_of_def)

section \<open>What work on one table leaves alone\<close>

definition all_tables :: "Catalog \<Rightarrow> TableDefinition list" where
  "all_tables c = map snd (cm_tablesByName c)"

definition all_indexes :: "Catalog \<Rightarrow> IndexDefinition list" where
  "all_indexes c = concat (map (table_indexes c) (all_tables c))"

text \<open>Every table and every index has a file of its own, and indexes have different names.\<close>

definition apart :: "Catalog \<Rightarrow> bool" where
  "apart c \<longleftrightarrow> distinct (map tb_fileNode (all_tables c) @ map ix_fileNode (all_indexes c)) \<and> distinct (map ix_name (all_indexes c))"

definition table_files :: "Catalog \<Rightarrow> TableDefinition \<Rightarrow> string set" where
  "table_files c table = insert (tb_fileNode table) (ix_fileNode ` set (table_indexes c table))"

definition index_names :: "Catalog \<Rightarrow> TableDefinition \<Rightarrow> string set" where
  "index_names c table = ix_name ` set (table_indexes c table)"

lemma distinct_blocks:
  assumes "distinct (map g (concat (map h ts)))" and "x \<in> set ts"
  shows "distinct (map g (h x))" and "y \<in> set ts \<Longrightarrow> x \<noteq> y \<Longrightarrow> g ` set (h x) \<inter> g ` set (h y) = {}"
  using assms by (induction ts) auto

lemma apartD:
  assumes "apart c" and "t \<in> set (all_tables c)"
  shows "distinct (map ix_name (table_indexes c t))" and "distinct (tb_fileNode t # map ix_fileNode (table_indexes c t))"
    and "t' \<in> set (all_tables c) \<Longrightarrow> t \<noteq> t' \<Longrightarrow> table_files c t \<inter> table_files c t' = {} \<and> index_names c t \<inter> index_names c t' = {}"
proof -
  have n: "distinct (map ix_name (concat (map (table_indexes c) (all_tables c))))"
    and f: "distinct (map ix_fileNode (concat (map (table_indexes c) (all_tables c))))" "distinct (map tb_fileNode (all_tables c))"
    and d: "\<And>t t' def. t \<in> set (all_tables c) \<Longrightarrow> t' \<in> set (all_tables c) \<Longrightarrow> def \<in> set (table_indexes c t')
      \<Longrightarrow> tb_fileNode t \<noteq> ix_fileNode def"
    using assms(1) by (force simp: apart_def all_indexes_def)+
  show "distinct (map ix_name (table_indexes c t))" by (rule distinct_blocks(1) [OF n assms(2)])
  show "distinct (tb_fileNode t # map ix_fileNode (table_indexes c t))"
    using distinct_blocks(1) [OF f(1) assms(2)] d [OF assms(2,2)] by auto
  assume t': "t' \<in> set (all_tables c)" "t \<noteq> t'"
  have "tb_fileNode t \<noteq> tb_fileNode t'" using f(2) assms(2) t' by (auto simp: distinct_map dest: inj_onD)
  moreover have "tb_fileNode t \<notin> ix_fileNode ` set (table_indexes c t')" "tb_fileNode t' \<notin> ix_fileNode ` set (table_indexes c t)"
    using d [OF assms(2) t'(1)] d [OF t'(1) assms(2)] by blast+
  ultimately have x: "tb_fileNode t \<noteq> tb_fileNode t'" "tb_fileNode t \<notin> ix_fileNode ` set (table_indexes c t')"
      "tb_fileNode t' \<notin> ix_fileNode ` set (table_indexes c t)" by blast+
  show "table_files c t \<inter> table_files c t' = {} \<and> index_names c t \<inter> index_names c t' = {}"
    using distinct_blocks(2) [OF f(1) assms(2) t'] distinct_blocks(2) [OF n assms(2) t'] x
    by (simp add: table_files_def index_names_def)
qed

definition touches :: "TableDefinition \<Rightarrow> Engine \<Rightarrow> Engine \<Rightarrow> bool" where
  "touches table en en' \<longleftrightarrow> db_cat (en_db en') = db_cat (en_db en)
     \<and> (\<forall>F. F \<notin> table_files (db_cat (en_db en)) table \<longrightarrow> file_kept F (db_pool (en_db en)) (db_pool (en_db en')))
     \<and> (\<forall>name. name \<notin> index_names (db_cat (en_db en)) table \<longrightarrow> map_of (im_byName (en_im en')) name = map_of (im_byName (en_im en)) name)"

lemma touches_refl: "pool_inv (db_pool (en_db en)) \<Longrightarrow> touches table en en"
  by (simp add: touches_def)

lemma touches_trans: "touches table en en' \<Longrightarrow> touches table en' en'' \<Longrightarrow> touches table en en''"
  unfolding touches_def using file_kept_trans [of _ "db_pool (en_db en)" "db_pool (en_db en')" "db_pool (en_db en'')"] by simp

lemma index_rep_kept:
  assumes "index_rep en table rows def" and "db_cat (en_db en') = db_cat (en_db en)"
    and "map_of (im_byName (en_im en')) (ix_name def) = map_of (im_byName (en_im en)) (ix_name def)"
    and k: "file_kept (ix_fileNode def) (db_pool (en_db en)) (db_pool (en_db en'))"
  shows "index_rep en' table rows def"
proof -
  obtain idx col ty where i: "index_ready en (ix_name def) idx" "index_kind idx = ix_indexType def"
      "index_file idx = ix_fileNode def" "ix_fileNode def \<noteq> tb_fileNode table" "index_column (db_cat (en_db en)) table def = Some col"
      "map_of (cm_typesByOid (db_cat (en_db en))) (co_typeOid col) = Some ty" "index_keyType idx = ty"
      "ty_name ty \<in> {''INT64'', ''VARCHAR''}" "index_holds (db_pool (en_db en)) idx (column_pairs col rows)"
    using assms(1) unfolding index_rep_def by blast
  have "index_holds (db_pool (en_db en')) idx (column_pairs col rows)"
    using index_kept [OF i(9)] k unfolding i(3) .
  then show ?thesis
    using i(1-8) assms(2,3) unfolding index_rep_def by (intro exI [of _ idx] exI [of _ col] exI [of _ ty]) (simp add: index_ready_def)
qed

lemma table_rows_kept:
  assumes "table_rows root en table rows" and c: "db_cat (en_db en') = db_cat (en_db en)"
    and k: "file_kept (tb_fileNode table) (db_pool (en_db en)) (db_pool (en_db en'))"
  shows "table_rows root en' table rows"
proof -
  have "heap_rep (table_heap root (db_cat (en_db en)) table) (db_cat (en_db en)) (en_db en') rows"
    by (rule heap_rep_kept [where db = "en_db en"]) (use assms in \<open>simp_all add: table_rows_def at_heap_def table_heap_def\<close>)
  then show ?thesis using assms(1) c by (simp add: table_rows_def at_heap_def)
qed

lemma table_state_kept:
  assumes s: "table_state root en t rows" and w: "touches table en en'"
    and d: "table_files (db_cat (en_db en)) t \<inter> table_files (db_cat (en_db en)) table = {}"
      "index_names (db_cat (en_db en)) t \<inter> index_names (db_cat (en_db en)) table = {}"
  shows "table_state root en' t rows"
proof -
  have c: "db_cat (en_db en') = db_cat (en_db en)" using w by (simp add: touches_def)
  have k: "F \<in> table_files (db_cat (en_db en)) t \<Longrightarrow> file_kept F (db_pool (en_db en)) (db_pool (en_db en'))" for F
    using w d(1) unfolding touches_def by blast
  have n: "name \<in> index_names (db_cat (en_db en)) t \<Longrightarrow> map_of (im_byName (en_im en')) name = map_of (im_byName (en_im en)) name" for name
    using w d(2) unfolding touches_def by blast
  show ?thesis
    using s table_rows_kept [OF _ c k] index_rep_kept [OF _ c n k] unfolding table_state_def c
    by (auto simp: table_files_def index_names_def)
qed

section \<open>The state of a database\<close>

definition db_state :: "string \<Rightarrow> Engine \<Rightarrow> (TableDefinition \<Rightarrow> (TID \<times> gvalue list) list) \<Rightarrow> bool" where
  "db_state root en R \<longleftrightarrow> columns_wf (db_cat (en_db en)) \<and> apart (db_cat (en_db en))
     \<and> (\<forall>t \<in> set (all_tables (db_cat (en_db en))). table_state root en t (R t))"

lemma db_state_update:
  assumes s: "db_state root en R" and t: "table \<in> set (all_tables (db_cat (en_db en)))" and w: "touches table en en'"
    and new: "table_state root en' table rows"
  shows "db_state root en' (R(table := rows))"
proof -
  have c: "db_cat (en_db en') = db_cat (en_db en)" using w by (simp add: touches_def)
  have a: "apart (db_cat (en_db en))" using s by (simp add: db_state_def)
  have "table_state root en' t' (R t')" if "t' \<in> set (all_tables (db_cat (en_db en)))" "t' \<noteq> table" for t'
    using table_state_kept [OF _ w] apartD(3) [OF a that(1) t that(2)] s that(1) by (simp add: db_state_def)
  then show ?thesis using s c new by (simp add: db_state_def)
qed

lemma db_state_inv:
  assumes "db_state root en R" and "table \<in> set (all_tables (db_cat (en_db en)))"
  shows "table_state root en table (R table)" and "pool_inv (db_pool (en_db en))" and "fluid (db_pool (en_db en))"
  using assms by (auto simp: db_state_def table_state_def table_rows_def at_heap_def heap_rep_def)

section \<open>What a restart finds\<close>

text \<open>The rows of all tables are on disk: a pool newly opened over it, with either replacer, holds them.\<close>

definition rows_on_disk :: "string \<Rightarrow> Engine \<Rightarrow> (TableDefinition \<Rightarrow> (TID \<times> gvalue list) list) \<Rightarrow> bool" where
  "rows_on_disk root en R \<longleftrightarrow> (\<forall>n rp b t. fresh_replacer rp
     \<longrightarrow> NewHeapBufferPoolManager n (Some rp) (bp_root (db_pool (en_db en))) (bp_disk (db_pool (en_db en))) = Ok b
     \<longrightarrow> t \<in> set (all_tables (db_cat (en_db en))) \<longrightarrow> table_rows root (en\<lparr>en_db := (en_db en)\<lparr>db_pool := b\<rparr>\<rparr>) t (R t))"

lemma restarted_heap:
  assumes h: "heap_rep heap c db rows" and fl: "FlushAllPages order (db_pool db) = (Ok u, b1)" "set order = fst ` set (bp_table (db_pool db))"
    and new: "NewHeapBufferPoolManager n (Some rp) (bp_root (db_pool db)) (bp_disk b1) = Ok b2" "fresh_replacer rp"
  shows "heap_rep heap c (db\<lparr>db_pool := b2\<rparr>) rows"
proof -
  have i: "pool_inv (db_pool db)" "fluid (db_pool db)" using h by (auto simp: heap_rep_def)
  note p = FlushAllPages_props [OF i(1) fl(1)]
  have k: "pool_keeps (db_pool db) b1" using p by blast
  note np = new_pool [OF new pool_invD(9) [OF pool_keepsD(1) [OF k]]]
  have "healthy (bp_disk b1)" using i(2) pool_keepsD(4) [OF k] by (simp add: fluid_def healthy_def)
  then have "fluid b2" by (rule np(5))
  moreover have "page_tuples b2 key ts" if "page_tuples (db_pool db) key ts" for key ts
    using that flushed_view [OF i(1) fl _ new(1)] np(3) by (auto simp: page_tuples_def safe_def [of b2])
  then have "heap_pages heap b2 tss" if "heap_pages heap (db_pool db) tss" for tss using that by (simp add: heap_pages_def)
  ultimately show ?thesis using h np(1) by (auto simp: heap_rep_def)
qed

lemma flushed_rows:
  assumes st: "db_state root en R" and fl: "FlushAllPages order (db_pool (en_db en)) = (Ok u, b)"
    and ord: "set order = fst ` set (bp_table (db_pool (en_db en)))"
  shows "rows_on_disk root (en\<lparr>en_db := (en_db en)\<lparr>db_pool := b\<rparr>\<rparr>) R"
  unfolding rows_on_disk_def
proof (intro allI impI)
  fix n rp b2 t
  assume rp: "fresh_replacer rp" and t: "t \<in> set (all_tables (db_cat (en_db (en\<lparr>en_db := (en_db en)\<lparr>db_pool := b\<rparr>\<rparr>))))"
    and new: "NewHeapBufferPoolManager n (Some rp) (bp_root (db_pool (en_db (en\<lparr>en_db := (en_db en)\<lparr>db_pool := b\<rparr>\<rparr>))))
      (bp_disk (db_pool (en_db (en\<lparr>en_db := (en_db en)\<lparr>db_pool := b\<rparr>\<rparr>)))) = Ok b2"
  have r: "table_rows root en t (R t)" and inv: "pool_inv (db_pool (en_db en))"
    using db_state_inv [OF st] t by (simp_all add: table_state_def)
  have "pool_keeps (db_pool (en_db en)) b" using FlushAllPages_props [OF inv fl] by blast
  from pool_keepsD(2) [OF this] new
  have new': "NewHeapBufferPoolManager n (Some rp) (bp_root (db_pool (en_db en))) (bp_disk b) = Ok b2" by simp
  have "heap_rep (table_heap root (db_cat (en_db en)) t) (db_cat (en_db en)) ((en_db en)\<lparr>db_pool := b2\<rparr>) (R t)"
    by (rule restarted_heap [OF _ fl ord new' rp]) (use r in \<open>simp add: table_rows_def at_heap_def\<close>)
  then show "table_rows root (en\<lparr>en_db := (en_db en)\<lparr>db_pool := b\<rparr>\<rparr>\<lparr>en_db := (en_db (en\<lparr>en_db := (en_db en)\<lparr>db_pool := b\<rparr>\<rparr>))\<lparr>db_pool := b2\<rparr>\<rparr>) t (R t)"
    using r by (simp add: table_rows_def at_heap_def)
qed

end
