(* ===== verification/QueryRun.thy ===== *)
theory QueryRun
  imports TableState
begin

text \<open>
  A SELECT from the text to its rows. Whatever scan the optimizer chooses, the rows that come out are those that
  satisfy the clause, and the content of the database is what it was.
\<close>

lemma pairs_rows:
  assumes m: "\<And>t r. (t, r) \<in> set rows \<Longrightarrow> map_of rows t = Some r"
    and tids: "mset tids = image_mset snd (filter_mset (\<lambda>x. Q (fst x)) (column_pairs col rows))"
  shows "mset (map (row_at rows) tids) = filter_mset (\<lambda>row. Q (column_value col row)) (mset (map snd rows))"
    and "set tids \<subseteq> fst ` set rows"
proof -
  have e: "mset tids = image_mset fst (filter_mset (\<lambda>e. Q (column_value col (snd e))) (mset rows))"
    using tids by (simp add: column_pairs_def filter_mset_image_mset image_mset.compositionality comp_def)
  have "mset (map (row_at rows) tids) = image_mset (\<lambda>e. row_at rows (fst e)) (filter_mset (\<lambda>e. Q (column_value col (snd e))) (mset rows))"
    using e by (simp add: image_mset.compositionality comp_def)
  also have "\<dots> = image_mset snd (filter_mset (\<lambda>e. Q (column_value col (snd e))) (mset rows))"
    using m by (intro image_mset_cong) auto
  finally show "mset (map (row_at rows) tids) = filter_mset (\<lambda>row. Q (column_value col row)) (mset (map snd rows))"
    by (simp add: filter_mset_image_mset comp_def)
  have "set tids = set_mset (image_mset fst (filter_mset (\<lambda>e. Q (column_value col (snd e))) (mset rows)))"
    using e by (metis set_mset_mset)
  then show "set tids \<subseteq> fst ` set rows" by auto
qed

section \<open>What reading keeps\<close>

lemma reads_touches:
  assumes "reads_heap (table_heap root c table) en en'" and "pool_inv (db_pool (en_db en))" and "fluid (db_pool (en_db en'))"
  shows "touches table en en'"
proof -
  have r: "runs_in {tb_fileNode table} (db_pool (en_db en)) (db_pool (en_db en'))"
    using assms(1) by (intro runs_in_one) (auto simp: reads_heap_def table_heap_def)
  then show ?thesis
    using assms runs_in_kept [OF r assms(2)] by (auto simp: touches_def reads_heap_def table_files_def)
qed

lemma reads_state:
  assumes st: "table_state root en table rows" and r: "reads_heap (table_heap root (db_cat (en_db en)) table) en en'"
    and h: "at_heap (table_heap root (db_cat (en_db en)) table) en' rows"
  shows "table_state root en' table rows" and "touches table en en'"
proof -
  have c: "db_cat (en_db en') = db_cat (en_db en)" and im: "en_im en' = en_im en" using r by (simp_all add: reads_heap_def)
  have inv: "pool_inv (db_pool (en_db en))" using st by (simp add: table_state_def table_rows_def at_heap_def heap_rep_def)
  have fl: "fluid (db_pool (en_db en'))" using h by (simp add: at_heap_def heap_rep_def)
  show "touches table en en'" by (rule reads_touches [OF r inv fl])
  have rr: "runs_in {tb_fileNode table} (db_pool (en_db en)) (db_pool (en_db en'))"
    using r by (intro runs_in_one) (auto simp: reads_heap_def table_heap_def)
  have "index_rep en' table rows def" if "index_rep en table rows def" for def
  proof (rule index_rep_kept [OF that c])
    have "ix_fileNode def \<noteq> tb_fileNode table" using that unfolding index_rep_def by blast
    then show "file_kept (ix_fileNode def) (db_pool (en_db en)) (db_pool (en_db en'))"
      using runs_in_kept [OF rr inv _ fl] by simp
  qed (simp add: im)
  then show "table_state root en' table rows" using st h c by (simp add: table_state_def table_rows_def)
qed

definition local_apart :: "Catalog \<Rightarrow> TableDefinition \<Rightarrow> bool" where
  "local_apart c table \<longleftrightarrow> distinct (map ix_name (table_indexes c table)) \<and> distinct (tb_fileNode table # map ix_fileNode (table_indexes c table))"

lemma local_apartD:
  assumes "local_apart c table" and "def \<in> set (table_indexes c table)" and "d \<in> set (table_indexes c table)" and "d \<noteq> def"
  shows "ix_name d \<noteq> ix_name def" and "ix_fileNode d \<noteq> ix_fileNode def"
  using assms by (auto simp: local_apart_def distinct_map dest: inj_onD)

lemma moved_state:
  assumes st: "table_state root en table rows" and la: "local_apart (db_cat (en_db en)) table"
    and def: "def \<in> set (table_indexes (db_cat (en_db en)) table)" and mv: "index_moved en (ix_name def) idx en'"
    and fname: "index_file idx = ix_fileNode def" and rep: "index_rep en' table rows def" and fl: "fluid (db_pool (en_db en'))"
  shows "table_state root en' table rows" and "touches table en en'"
proof -
  have c: "db_cat (en_db en') = db_cat (en_db en)" using mv by (simp add: index_moved_def)
  have inv: "pool_inv (db_pool (en_db en))" using st by (simp add: table_state_def table_rows_def at_heap_def heap_rep_def)
  have kept: "file_kept F (db_pool (en_db en)) (db_pool (en_db en'))" if "F \<noteq> ix_fileNode def" for F
    using runs_in_kept [OF runs_in_one inv, of "ix_fileNode def" "db_pool (en_db en')" "{ix_fileNode def}" F] mv fname fl that
    by (simp add: index_moved_def)
  show "touches table en en'"
    using c kept mv def by (auto simp: touches_def table_files_def index_names_def index_moved_def)
  have "index_rep en' table rows d" if "d \<in> set (table_indexes (db_cat (en_db en)) table)" for d
  proof (cases "d = def")
    case True
    then show ?thesis using rep by simp
  next
    case False
    note x = local_apartD [OF la def that False]
    show ?thesis
      by (rule index_rep_kept [OF _ c _ kept [OF x(2)]]) (use st that mv x(1) in \<open>simp_all add: table_state_def index_moved_def\<close>)
  qed
  moreover have "tb_fileNode table \<noteq> ix_fileNode def" using la def by (auto simp: local_apart_def)
  ultimately show "table_state root en' table rows"
    using st c table_rows_kept [OF _ c kept] by (simp add: table_state_def)
qed

lemma searched_state:
  assumes st: "table_state root en table rows" and la: "local_apart (db_cat (en_db en)) table"
    and def: "def \<in> set (table_indexes (db_cat (en_db en)) table)" and col: "index_column (db_cat (en_db en)) table def = Some col"
    and ready: "index_ready en (ix_name def) idx" and mv: "index_moved en (ix_name def) idx en'"
    and ready': "index_ready en' (ix_name def) idx" and holds: "index_holds (db_pool (en_db en')) idx (column_pairs col rows)"
  shows "table_state root en' table rows" and "touches table en en'"
proof -
  have c: "db_cat (en_db en') = db_cat (en_db en)" using mv by (simp add: index_moved_def)
  have "index_rep en table rows def" using st def by (simp add: table_state_def)
  then have "index_file idx = ix_fileNode def \<and> index_rep en' table rows def"
    using col ready ready' holds c by (auto simp: index_rep_def index_ready_def)
  then show "table_state root en' table rows" "touches table en en'"
    using moved_state [OF st la def mv] index_fluid [OF holds] by blast+
qed

section \<open>Scans of a table\<close>

text \<open>Constants an index is asked for are texts of at most 8000 bytes.\<close>

definition short_value :: "gvalue \<Rightarrow> bool" where
  "short_value v \<longleftrightarrow> (case v of VString str \<Rightarrow> length str \<le> 8000 | _ \<Rightarrow> True)"

fun short_keys :: "PhysicalPlanNode \<Rightarrow> bool" where
  "short_keys (PhysicalProjectNode child cols) \<longleftrightarrow> short_keys child"
| "short_keys (PhysicalFilterNode child e) \<longleftrightarrow> short_keys child"
| "short_keys (HashIndexScanNode table def v) \<longleftrightarrow> short_value v"
| "short_keys (BTreeIndexScanNode table def from fi to ti) \<longleftrightarrow> short_value from \<and> short_value to"
| "short_keys _ \<longleftrightarrow> True"

lemma typed_key:
  assumes "value_type v t" and "column_type c col = Some t" and "map_of (cm_typesByOid c) (co_typeOid col) = Some ty"
    and "ty_name ty \<in> {''INT64'', ''VARCHAR''}" and "short_value v"
  shows "key_ok ty v"
  using assms by (cases v) (auto simp: column_type_def toExprType_def exprTypes_def key_ok_def short_value_def)

lemma within_in_bounds:
  assumes "value_type v t" and "bound_typed t from" and "bound_typed t to" and "t \<noteq> ExprTypeBool"
  shows "in_bounds from fi to ti v \<longleftrightarrow> within from fi to ti v"
  using assms by (cases v; cases "from"; cases to) (auto simp: in_bounds_def within_def bound_typed_def)

text \<open>What every scan of the table delivers: it is created and opened and yields the rows it admits.\<close>

definition delivers :: "string \<Rightarrow> Engine \<Rightarrow> PhysicalPlanNode \<Rightarrow> gvalue list multiset \<Rightarrow> (Engine \<Rightarrow> bool) \<Rightarrow> bool" where
  "delivers root en plan rows Q \<longleftrightarrow> (\<exists>ex0 ex1 en1 out ex2 en2. CreateExecutor root plan en = (Ok ex0, en)
     \<and> exec_Open ex0 en = Some (Ok (), ex1, en1) \<and> yields ex1 en1 out ex2 en2 \<and> mset out = rows \<and> Q en2)"

lemma deliversI:
  assumes "CreateExecutor root plan en = (Ok ex0, en)" and "exec_Open ex0 en = Some (Ok (), ex1, en1)" and "yields ex1 en1 out ex2 en2"
    and "mset out = rows" and "Q en2"
  shows "delivers root en plan rows Q"
  using assms unfolding delivers_def by blast

lemma scan_delivers:
  assumes wf: "columns_wf (db_cat (en_db en))" and st: "table_state root en table rows" and la: "local_apart (db_cat (en_db en)) table"
    and scan: "scan_of (db_cat (en_db en)) table plan" and short: "short_keys plan"
  shows "delivers root en plan (filter_mset (admits (db_cat (en_db en)) plan) (mset (map snd rows)))
    (\<lambda>en'. table_state root en' table rows \<and> touches table en en')"
proof -
  let ?c = "db_cat (en_db en)"
  let ?heap = "table_heap root ?c table"
  have h: "at_heap ?heap en rows" and typed: "\<forall>e \<in> set rows. row_of ?c table (snd e)"
    and ixs: "\<forall>def \<in> set (table_indexes ?c table). index_rep en table rows def"
    using st by (simp_all add: table_state_def table_rows_def)
  have rep: "heap_rep ?heap ?c (en_db en) rows" using h by (simp add: at_heap_def)
  note m = heap_rows_map_of [OF rep]
  have fn [simp]: "tb_fileNode (th_table ?heap) = tb_fileNode table" by (simp add: table_heap_def)
  have fin: "table_state root en' table rows \<and> touches table en en'"
    if "table_state root en1 table rows" "touches table en en1" "reads_heap ?heap en1 en'" "at_heap ?heap en' rows" for en1 en'
  proof -
    have "db_cat (en_db en1) = ?c" using that(2) by (simp add: touches_def)
    then show ?thesis using reads_state [OF that(1), of en'] that(3,4) touches_trans [OF that(2)] by simp
  qed
  show ?thesis
  proof (cases plan)
    case (SeqScanNode table')
    then have [simp]: "table' = table" using scan by simp
    obtain db1 where db1: "ScanTids ?heap (en_db en) = (Ok (map fst rows), db1)" "heap_rep ?heap ?c db1 rows"
      using heap_store.scan_ids [OF rep] by blast
    let ?en1 = "en\<lparr>en_db := db1\<rparr>"
    let ?ex = "(NewSeqScanExecutor ?heap)\<lparr>sc_tids := map fst rows, sc_cursor := 0, sc_isOpen := True\<rparr>"
    have c1: "db_cat db1 = ?c" using db1(2) by (simp add: heap_rep_def)
    have "reads_heap ?heap en ?en1" using ScanTids_runs [OF db1(1)] c1 by (simp add: reads_heap_def)
    then have s1: "table_state root ?en1 table rows" "touches table en ?en1"
      using reads_state [OF st, of ?en1] h db1(2) by (simp_all add: at_heap_def c1)
    have h1: "at_heap (sc_tableHeap ?ex) ?en1 rows" using h db1(2) c1 by (simp add: at_heap_def NewSeqScanExecutor_def)
    obtain ex' en' where y: "yields (SeqScanExec ?ex) ?en1 (map (row_at rows) (map fst rows)) (SeqScanExec ex') en'"
        "at_heap (sc_tableHeap ?ex) en' rows" "reads_heap ?heap ?en1 en'"
      using seq_scan.cursor_yields [OF h1] by (auto simp: image_iff NewSeqScanExecutor_def)
    have "admits ?c plan = (\<lambda>row. True)" using SeqScanNode by auto
    moreover have all: "map (row_at rows) (map fst rows) = map snd rows" using m by (auto simp: map_eq_conv)
    ultimately have o: "mset (map (row_at rows) (map fst rows)) = filter_mset (admits ?c plan) (mset (map snd rows))" unfolding all by simp
    have cr: "CreateExecutor root plan en = (Ok (SeqScanExec (NewSeqScanExecutor ?heap)), en)"
      using SeqScanNode by (simp add: createSeqScan_def NewTableHeap_ok seq_def lift_result_def pure_def)
    have op: "exec_Open (SeqScanExec (NewSeqScanExecutor ?heap)) en = Some (Ok (), SeqScanExec ?ex, ?en1)"
      using db1(1) by (simp add: at_leaf_def once_def seq_scan_Open_def seq_def in_engine_def on_db_def start_cursor_def set_exec_def NewSeqScanExecutor_def)
    show ?thesis by (rule deliversI [OF cr op y(1) o]) (use y(2,3) fin [OF s1] in \<open>simp add: NewSeqScanExecutor_def\<close>)
  next
    case (HashIndexScanNode table' def v)
    then have [simp]: "table' = table" and def: "def \<in> set (table_indexes ?c table)" "ix_indexType def = IndexTypeHash"
      and col: "\<exists>col t. index_column ?c table def = Some col \<and> column_type ?c col = Some t \<and> value_type v t"
      using scan by (auto simp: table_indexes_def)
    obtain idx col ty where i: "index_ready en (ix_name def) idx" "index_kind idx = IndexTypeHash" "index_file idx = ix_fileNode def" "ix_fileNode def \<noteq> tb_fileNode table"
        "index_column ?c table def = Some col" "map_of (cm_typesByOid ?c) (co_typeOid col) = Some ty" "index_keyType idx = ty"
        "ty_name ty \<in> {''INT64'', ''VARCHAR''}" "index_holds (db_pool (en_db en)) idx (column_pairs col rows)"
      using bspec [OF ixs def(1)] def(2) unfolding index_rep_def by metis
    obtain t where t: "column_type ?c col = Some t" "value_type v t" using col i(5) by auto
    have key: "key_ok (index_keyType idx) v"
      using typed_key [OF t(2,1) i(6,8)] short HashIndexScanNode i(7) by simp
    obtain tids en1 where s: "Index_Search (ix_name def) v en = Some (Ok tids, en1)"
        "mset tids = image_mset snd (filter_mset (\<lambda>x. fst x = v) (column_pairs col rows))"
        "index_moved en (ix_name def) idx en1" "index_ready en1 (ix_name def) idx" "index_holds (db_pool (en_db en1)) idx (column_pairs col rows)"
      by (rule Index_Search_hash [OF i(1,9,2) key])
    note p = pairs_rows [OF m s(2)]
    let ?closed = "NewHashIndexScanExecutor (ix_name def) v ?heap"
    let ?ex = "?closed\<lparr>sc_tids := tids, sc_cursor := 0, sc_isOpen := True\<rparr>"
    note s1 = searched_state [OF st la def(1) i(5,1) s(3-5)]
    have "at_heap (sc_tableHeap ?ex) en1 rows"
      using s1 by (simp add: NewHashIndexScanExecutor_def table_state_def table_rows_def touches_def)
    then obtain ex' en' where y: "yields (HashIndexScanExec ?ex) en1 (map (row_at rows) tids) (HashIndexScanExec ex') en'"
        "at_heap (sc_tableHeap ?ex) en' rows" "reads_heap ?heap en1 en'"
      using hash_scan.cursor_yields [of ?ex en1 rows] p(2) by (auto simp: NewHashIndexScanExecutor_def)
    have "admits ?c plan = (\<lambda>row. column_value col row = v)" using HashIndexScanNode i(5) by auto
    then have o: "mset (map (row_at rows) tids) = filter_mset (admits ?c plan) (mset (map snd rows))" using p(1) by simp
    have op: "exec_Open (HashIndexScanExec ?closed) en = Some (Ok (), HashIndexScanExec ?ex, en1)"
      using s(1) by (simp add: at_leaf_def hash_scan_Open_def oseq_def in_engine_o_def once_def start_cursor_def set_exec_def NewHashIndexScanExecutor_def)
    have cr: "CreateExecutor root plan en = (Ok (HashIndexScanExec ?closed), en)"
      using HashIndexScanNode i(1)
      by (simp add: createHashIndexScan_def NewTableHeap_ok seq_def lift_result_def GetOrCreate_def index_ready_def pure_def)
    show ?thesis
      by (rule deliversI [OF cr op y(1) o]) (use y(2,3) fin [OF s1] in \<open>simp add: NewHashIndexScanExecutor_def\<close>)
  next
    case (BTreeIndexScanNode table' def "from" fi to ti)
    then have [simp]: "table' = table" and def: "def \<in> set (table_indexes ?c table)" "ix_indexType def = IndexTypeBTree"
      and col: "\<exists>col t. index_column ?c table def = Some col \<and> column_type ?c col = Some t \<and> bound_typed t from \<and> bound_typed t to"
      using scan by (auto simp: table_indexes_def)
    obtain idx col ty where i: "index_ready en (ix_name def) idx" "index_kind idx = IndexTypeBTree" "index_file idx = ix_fileNode def" "ix_fileNode def \<noteq> tb_fileNode table"
        "index_column ?c table def = Some col" "map_of (cm_typesByOid ?c) (co_typeOid col) = Some ty" "index_keyType idx = ty"
        "ty_name ty \<in> {''INT64'', ''VARCHAR''}" "index_holds (db_pool (en_db en)) idx (column_pairs col rows)"
      using bspec [OF ixs def(1)] def(2) unfolding index_rep_def by metis
    obtain t where t: "column_type ?c col = Some t" "bound_typed t from" "bound_typed t to" using col i(5) by auto
    have key: "key_ok (index_keyType idx) b" if "b \<noteq> VNil" "b = from \<or> b = to" for b
      using typed_key [OF _ t(1) i(6,8)] short BTreeIndexScanNode i(7) t(2,3) that by (auto simp: bound_typed_def)
    obtain tids en1 where s: "Index_RangeSearch (ix_name def) from fi to ti en = Some (Ok tids, en1)"
        "mset tids = image_mset snd (filter_mset (\<lambda>x. in_bounds from fi to ti (fst x)) (column_pairs col rows))"
        "index_moved en (ix_name def) idx en1" "index_ready en1 (ix_name def) idx" "index_holds (db_pool (en_db en1)) idx (column_pairs col rows)"
      by (rule Index_RangeSearch_btree [OF i(1,9,2), of "from" to fi ti]) (use key in auto)
    note p = pairs_rows [OF m s(2)]
    let ?closed = "NewBTreeIndexScanExecutor (ix_name def) from fi to ti ?heap"
    let ?ex = "?closed\<lparr>sc_tids := tids, sc_cursor := 0, sc_isOpen := True\<rparr>"
    note s1 = searched_state [OF st la def(1) i(5,1) s(3-5)]
    have "at_heap (sc_tableHeap ?ex) en1 rows"
      using s1 by (simp add: NewBTreeIndexScanExecutor_def table_state_def table_rows_def touches_def)
    then obtain ex' en' where y: "yields (BTreeIndexScanExec ?ex) en1 (map (row_at rows) tids) (BTreeIndexScanExec ex') en'"
        "at_heap (sc_tableHeap ?ex) en' rows" "reads_heap ?heap en1 en'"
      using btree_scan.cursor_yields [of ?ex en1 rows] p(2) by (auto simp: NewBTreeIndexScanExecutor_def)
    have typed_col: "value_type (column_value col row) t" if "row \<in># mset (map snd rows)" for row
    proof -
      have "row_of ?c table row" using that typed by auto
      moreover have "col \<in> set (columns_of ?c table)" using i(5) by (auto simp: index_column_def find_Some_iff)
      ultimately show ?thesis using column_typed [OF wf] t(1) by blast
    qed
    have nb: "t \<noteq> ExprTypeBool" using t(1) column_not_bool by metis
    have o: "mset (map (row_at rows) tids) = filter_mset (admits ?c plan) (mset (map snd rows))"
    proof -
      have "in_bounds from fi to ti (column_value col row) \<longleftrightarrow> admits ?c plan row" if "row \<in># mset (map snd rows)" for row
        using within_in_bounds [OF typed_col [OF that] t(2,3) nb] BTreeIndexScanNode i(5) by simp
      then have "filter_mset (\<lambda>row. in_bounds from fi to ti (column_value col row)) (mset (map snd rows))
          = filter_mset (admits ?c plan) (mset (map snd rows))" by (intro filter_mset_cong refl) simp
      then show ?thesis using p(1) by simp
    qed
    have op: "exec_Open (BTreeIndexScanExec ?closed) en = Some (Ok (), BTreeIndexScanExec ?ex, en1)"
      using s(1) by (simp add: at_leaf_def btree_scan_Open_def oseq_def in_engine_o_def once_def start_cursor_def set_exec_def NewBTreeIndexScanExecutor_def)
    have cr: "CreateExecutor root plan en = (Ok (BTreeIndexScanExec ?closed), en)"
      using BTreeIndexScanNode i(1)
      by (simp add: createBTreeIndexScan_def NewTableHeap_ok seq_def lift_result_def GetOrCreate_def index_ready_def pure_def)
    show ?thesis
      by (rule deliversI [OF cr op y(1) o]) (use y(2,3) fin [OF s1] in \<open>simp add: NewBTreeIndexScanExecutor_def\<close>)
  qed (use scan in simp_all)
qed

section \<open>SELECT\<close>

definition sat :: "ResolvedExpr option \<Rightarrow> gvalue list \<Rightarrow> bool" where
  "sat f row \<longleftrightarrow> (case f of None \<Rightarrow> True | Some e \<Rightarrow> truth e row)"

definition project_cols :: "ColumnDefinition list \<Rightarrow> gvalue list \<Rightarrow> gvalue list" where
  "project_cols cols row = map (\<lambda>col. column_value col row) cols"

lemma row_column:
  assumes "columns_wf c" and "row_of c table row" and "col \<in> set (columns_of c table)"
  shows "row_index row (co_position col) = Ok (column_value col row)"
proof -
  obtain t where "column_type c col = Some t" using assms(2,3) by (auto simp: row_of_def in_set_conv_nth list_all2_conv_all_nth)
  then show ?thesis using column_typed [OF assms] by blast
qed

lemma project_row_ok:
  assumes "columns_wf c" and "row_of c table row" and "set cols \<subseteq> set (columns_of c table)"
  shows "project_row (map co_position cols) row = Ok (project_cols cols row)"
  using assms(3) row_column [OF assms(1,2)] by (induction cols) (simp_all add: project_row_def project_cols_def)

lemma delivers_filter:
  assumes "delivers root en plan rows Q" and "\<forall>row \<in># rows. evalBool e row = Ok (truth e row)"
  shows "delivers root en (PhysicalFilterNode plan e) (filter_mset (truth e) rows) Q"
proof -
  obtain ex0 ex1 en1 out ex2 en2 where d: "CreateExecutor root plan en = (Ok ex0, en)" "exec_Open ex0 en = Some (Ok (), ex1, en1)"
      "yields ex1 en1 out ex2 en2" "mset out = rows" "Q en2" using assms(1) by (auto simp: delivers_def)
  have "yields (FilterExec ex1 e True) en1 (filter (truth e) out) (FilterExec ex2 e True) en2"
    by (rule filter_yields [OF d(3)]) (use assms(2) d(4) in auto)
  moreover have "CreateExecutor root (PhysicalFilterNode plan e) en = (Ok (FilterExec ex0 e False), en)"
    using d(1) by (simp add: seq_def pure_def NewFilterExecutor_def)
  moreover have "exec_Open (FilterExec ex0 e False) en = Some (Ok (), FilterExec ex1 e True, en1)" using d(2) by simp
  ultimately show ?thesis using deliversI d(4,5) by (metis mset_filter)
qed

lemma delivers_project:
  assumes "delivers root en plan rows Q" and "\<forall>row \<in># rows. project_row (map co_position cols) row = Ok (project_cols cols row)"
  shows "delivers root en (PhysicalProjectNode plan cols) (image_mset (project_cols cols) rows) Q"
proof -
  obtain ex0 ex1 en1 out ex2 en2 where d: "CreateExecutor root plan en = (Ok ex0, en)" "exec_Open ex0 en = Some (Ok (), ex1, en1)"
      "yields ex1 en1 out ex2 en2" "mset out = rows" "Q en2" using assms(1) by (auto simp: delivers_def)
  let ?ps = "map co_position cols"
  have "yields (ProjectExec ex1 ?ps True) en1 (map (project_cols cols) out) (ProjectExec ex2 ?ps True) en2"
    by (rule project_yields [OF d(3)]) (use assms(2) d(4) in auto)
  moreover have "CreateExecutor root (PhysicalProjectNode plan cols) en = (Ok (ProjectExec ex0 ?ps False), en)"
    using d(1) by (simp add: seq_def pure_def NewProjectExecutor_def)
  moreover have "exec_Open (ProjectExec ex0 ?ps False) en = Some (Ok (), ProjectExec ex1 ?ps True, en1)" using d(2) by simp
  ultimately show ?thesis using deliversI d(4,5) by (metis mset_map)
qed

lemma select_delivers:
  assumes wf: "columns_wf (db_cat (en_db en))" and q: "wf_query (db_cat (en_db en)) (SelectQueryTree table cols f)"
    and plan: "Optimize (db_cat (en_db en)) (Plan (SelectQueryTree table cols f)) = Ok plan" and short: "short_keys plan"
    and st: "table_state root en table rows" and la: "local_apart (db_cat (en_db en)) table"
  shows "delivers root en plan (image_mset (project_cols cols) (filter_mset (sat f) (mset (map snd rows))))
    (\<lambda>en'. table_state root en' table rows \<and> touches table en en')"
proof -
  let ?c = "db_cat (en_db en)"
  have typed: "row_of ?c table row" if "row \<in># mset (map snd rows)" for row
    using st that by (auto simp: table_state_def table_rows_def)
  have pr: "project_row (map co_position cols) row = Ok (project_cols cols row)" if "row \<in># mset (map snd rows)" for row
    using project_row_ok [OF wf typed [OF that]] q by simp
  show ?thesis
  proof (cases f)
    case None
    have p: "plan = PhysicalProjectNode (SeqScanNode table) cols" using plan None by (simp add: planSelect_def)
    have "delivers root en (SeqScanNode table) (filter_mset (admits ?c (SeqScanNode table)) (mset (map snd rows)))
        (\<lambda>en'. table_state root en' table rows \<and> touches table en en')" by (rule scan_delivers [OF wf st la]) simp_all
    moreover have "filter_mset (admits ?c (SeqScanNode table)) (mset (map snd rows)) = filter_mset (sat f) (mset (map snd rows))"
      by (intro filter_mset_cong refl) (simp add: sat_def None)
    ultimately show ?thesis using delivers_project pr p by simp
  next
    case (Some e)
    obtain scan where s: "chooseBestScan ?c table e = Ok scan" "scan_of ?c table scan" "\<And>row. truth e row \<Longrightarrow> admits ?c scan row"
      using chooseBestScan_spec [OF wf, of table e] q Some by auto
    have p: "plan = PhysicalProjectNode (PhysicalFilterNode scan e) cols" using plan Some s(1) by (simp add: planSelect_def)
    have ev: "evalBool e row = Ok (truth e row)" if "row \<in># mset (map snd rows)" for row
      using eval_typed [OF wf typed [OF that], of e] q Some by (simp add: evalBool_def)
    have "delivers root en (PhysicalFilterNode scan e) (filter_mset (truth e) (filter_mset (admits ?c scan) (mset (map snd rows))))
        (\<lambda>en'. table_state root en' table rows \<and> touches table en en')"
      by (rule delivers_filter [OF scan_delivers [OF wf st la s(2)]]) (use short p ev in auto)
    moreover have "filter_mset (truth e) (filter_mset (admits ?c scan) (mset (map snd rows))) = filter_mset (sat f) (mset (map snd rows))"
      unfolding filter_filter_mset using s(3) by (intro filter_mset_cong refl) (auto simp: sat_def Some)
    ultimately show ?thesis using delivers_project pr p by simp
  qed
qed

lemma delivers_fetch:
  assumes "delivers root en plan rows Q"
  shows "\<exists>ex out ex' en'. CreateExecutor root plan en = (Ok ex, en) \<and> engine_Execute ex en = Some (Ok out, ex', en')
    \<and> mset out = rows \<and> Q en'"
  using assms fetch_yields [of _ _ _ _ _ "[]"] unfolding delivers_def engine_Execute_def by fastforce

lemma compile_select:
  assumes "compile_sql c sql = Some (Ok q)"
  obtains stmt where "Analyze c stmt = Ok (cq_queryTree q)" and "Optimize c (Plan (cq_queryTree q)) = Ok (cq_physicalPlan q)"
  using assms by (auto simp: compile_sql_def Let_def bind_result_Ok split: result.splits)

lemma query_table:
  assumes "wf_query c (SelectQueryTree table cols f)" and "apart c"
  shows "table \<in> set (all_tables c)" and "local_apart c table"
proof -
  show t: "table \<in> set (all_tables c)" using assms(1) by (auto simp: all_tables_def)
  show "local_apart c table" using apartD(1,2) [OF assms(2) t] by (simp add: local_apart_def)
qed

text \<open>C1: a SELECT returns the right rows. Let the disk work, no page be pinned, the replacer know every buffered page
  and each page of a table be dirty or on disk; let the tables hold the rows R and the indexes, open and in
  files of their own, the values of their columns (db_state). A statement whose text compiles to a SELECT, with an
  index or without, in which no text that an index is asked for is longer than 8000 bytes, succeeds: the result
  has the names of the target columns, its rows are, as a multiset, the target columns of exactly those
  rows of the table that satisfy WHERE, and all tables and indexes hold what they held.\<close>

theorem SELECT_returns_rows:
  assumes st: "db_state (sv_root sv) (sv_engine sv) R" and q: "compile_sql (sv_catalog sv) sql = Some (Ok q)"
    and sel: "cq_queryTree q = SelectQueryTree table cols f" and short: "short_keys (cq_physicalPlan q)"
  shows "\<exists>res sv'. ExecuteWithContext order ctx sql sv = Some (Ok res, sv') \<and> er_columns res = map co_name cols
    \<and> mset (er_rows res) = image_mset (project_cols cols) (filter_mset (sat f) (mset (map snd (R table))))
    \<and> db_state (sv_root sv') (sv_engine sv') R"
proof -
  let ?en = "sv_engine sv"
  obtain stmt where stmt: "Analyze (sv_catalog sv) stmt = Ok (cq_queryTree q)" "Optimize (sv_catalog sv) (Plan (cq_queryTree q)) = Ok (cq_physicalPlan q)"
    by (rule compile_select [OF q])
  have wq: "wf_query (sv_catalog sv) (SelectQueryTree table cols f)" using Analyze_Ok [OF stmt(1)] sel by simp
  have wf: "columns_wf (sv_catalog sv)" and ap: "apart (sv_catalog sv)" using st by (simp_all add: db_state_def)
  note t = query_table [OF wq ap]
  obtain ex out ex' en' where e: "CreateExecutor (sv_root sv) (cq_physicalPlan q) ?en = (Ok ex, ?en)"
      "engine_Execute ex ?en = Some (Ok out, ex', en')"
      "mset out = image_mset (project_cols cols) (filter_mset (sat f) (mset (map snd (R table))))"
      "table_state (sv_root sv) en' table (R table)" "touches table ?en en'"
    using delivers_fetch [OF select_delivers [OF wf wq stmt(2) [unfolded sel] short db_state_inv(1) [OF st t(1)] t(2)]] by blast
  have "run_query (sv_root sv) order q ?en = Some (Ok out, en')"
    using e(1,2) sel by (simp add: run_query_def oseq_def once_def pure_def)
  then have "ExecuteWithContext order ctx sql sv = Some (Ok (query_result (case ctx of None \<Rightarrow> False | Some ctx \<Rightarrow> ctx_trace ctx) q out), sv\<lparr>sv_engine := en'\<rparr>)"
    using q sel by (simp add: ExecuteWithContext_def Let_def)
  moreover have "db_state (sv_root sv) en' R" using db_state_update [OF st t(1) e(5,4)] by simp
  ultimately show ?thesis using e(3) sel by (simp add: query_result_def NewExecutionResult_def)
qed

section \<open>A database with one row\<close>

definition demo_catalog :: Catalog where
  "demo_catalog = sample_catalog\<lparr>cm_tablesByOid := [(1, th_table sample_heap)], cm_tablesByName := [(''t'', th_table sample_heap)],
     cm_columnsByOid := map (\<lambda>c. (co_oid c, c)) (th_columns sample_heap), cm_columnsByTableOid := [(1, th_columns sample_heap)]\<rparr>"

definition demo_select :: Statement where
  "demo_select = SelectStmt False [plain_ident ''name''] (plain_ident ''t'') (Some (BinaryExpr ''<'' (ColumnRefExpr (plain_ident ''id'')) (LiteralInt64Expr 5)))"

lemma demo_wf: "columns_wf demo_catalog"
  by (auto simp: columns_wf_def demo_catalog_def sample_heap_def slice_at_def Let_def less_Suc_eq numeral_2_eq_2)

definition demo_query :: QueryTree where
  "demo_query = SelectQueryTree (th_table sample_heap) [th_columns sample_heap ! 1]
     (Some (ResolvedBinaryExpr ''<'' (ResolvedColumnRef (th_columns sample_heap ! 0) ExprTypeInt64) (ResolvedConst (VInt64 5) ExprTypeInt64) ExprTypeBool))"


lemma strip_text: "strip_ident i = strip_ident j \<Longrightarrow> id_text i = id_text j"
  by (metis strip_ident_text)

lemma demo_syntax:
  assumes "strip_stmt s = strip_stmt demo_select"
  obtains i j k where "s = SelectStmt False [i] j (Some (BinaryExpr ''<'' (ColumnRefExpr k) (LiteralInt64Expr 5)))"
    and "id_text i = ''name''" and "id_text j = ''t''" and "id_text k = ''id''"
proof -
  obtain cols j w where s: "s = SelectStmt False cols j w" using assms by (cases s) (auto simp: demo_select_def)
  obtain i e where i: "cols = [i]" "w = Some e" "id_text i = ''name''" "id_text j = ''t''"
    using assms s by (auto simp: demo_select_def plain_ident_def dest!: strip_text)
  obtain op l r where e: "e = BinaryExpr op l r" using assms s i by (cases e) (auto simp: demo_select_def)
  obtain k where "l = ColumnRefExpr k" "id_text k = ''id''" using assms s i e by (cases l) (auto simp: demo_select_def plain_ident_def dest!: strip_text)
  moreover have "op = ''<''" "r = LiteralInt64Expr 5" using assms s i e by (auto simp: demo_select_def) (cases r; simp)
  ultimately show thesis using that s i e by blast
qed

lemma demo_analyze: "strip_stmt s = strip_stmt demo_select \<Longrightarrow> Analyze demo_catalog s = Ok demo_query"
  by (erule demo_syntax)
    (simp add: analyzeSelect_def demo_catalog_def sample_catalog_def GetTable_def GetColumn_def GetTypeByOid_def indexType_def empty_catalog_def
     int64_type_def varchar_type_def sample_heap_def slice_at_def resolveColumnRef_def toExprType_def exprTypes_def combineBinary_def semLogicalOps_def semComparisonOps_def demo_query_def)

lemma demo_optimize: "\<exists>plan. Optimize demo_catalog (Plan demo_query) = Ok plan \<and> short_keys plan"
proof -
  let ?e = "ResolvedBinaryExpr ''<'' (ResolvedColumnRef (th_columns sample_heap ! 0) ExprTypeInt64) (ResolvedConst (VInt64 5) ExprTypeInt64) ExprTypeBool"
  have "chooseBestScan demo_catalog (th_table sample_heap) ?e = Ok (SeqScanNode (th_table sample_heap))"
    by code_simp
  then show ?thesis by (simp add: demo_query_def planSelect_def)
qed

lemma demo_wf_stmt: "wf_stmt demo_select"
proof -
  have "isIdentPart 97" "isIdentPart 109" "isIdentPart 101" "isIdentPart 100" by code_simp+
  then show ?thesis by (simp add: demo_select_def wf_ident_def wf_lexeme.simps ident_lexeme_def plain_ident_def text_runes_def
       isIdentStart_def sql_keywords_def ToUpper_def ascii_upper_def cmp_lexemes_def runes_of_ascii
       string_of_ascii_runes char_of_def bit_Suc_0_iff)
qed

definition demo_service :: "Db \<Rightarrow> SqlService" where
  "demo_service db = NewSqlService ''d'' (db\<lparr>db_cat := demo_catalog\<rparr>) (NewIndexManager ''d'')"

lemma demo_tables: "cm_tablesByName demo_catalog = [(''t'', th_table sample_heap)]"
  by (simp add: demo_catalog_def)

lemma demo_indexes: "table_indexes demo_catalog (th_table sample_heap) = []"
  by (simp add: table_indexes_def demo_catalog_def slice_at_def sample_catalog_def indexType_def empty_catalog_def)

lemma demo_apart: "apart demo_catalog"
  by (simp add: apart_def all_tables_def all_indexes_def demo_tables demo_indexes)

lemma demo_state:
  obtains db tid where "InsertRow sample_heap sample_row sample_heap_db = (Ok tid, db)" and "db_cat db = sample_catalog"
    and "db_state ''d'' (sv_engine (demo_service db)) (\<lambda>_. [(tid, sample_row)])"
proof -
  obtain tid db before after where a: "InsertRow sample_heap sample_row sample_heap_db = (Ok tid, db)" "[] = before @ after"
      "heap_rep sample_heap sample_catalog db (before @ (tid, sample_row) # after)"
    using heap_store.add_row [OF sample_heap_rep sample_heap_room] by blast
  then have h: "heap_rep sample_heap sample_catalog db [(tid, sample_row)]" by simp
  let ?h = "table_heap ''d'' demo_catalog (th_table sample_heap)"
  have th: "?h = sample_heap" by (simp add: table_heap_def sample_heap_def columns_of_def demo_catalog_def slice_at_def)
  have dt: "column_DataType demo_catalog = column_DataType sample_catalog"
    by (simp add: fun_eq_iff column_DataType_def GetTypeByOid_def demo_catalog_def)
  have fits: "fits demo_catalog cols vs = fits sample_catalog cols vs" for cols vs
    by (induction "sample_catalog" cols vs rule: fits.induct) (auto simp: dt split: list.splits)
  have "heap_rep sample_heap demo_catalog (db\<lparr>db_cat := demo_catalog\<rparr>) [(tid, sample_row)]"
    using h fits by (simp add: heap_rep_def row_ok_def)
  moreover have "row_of demo_catalog (th_table sample_heap) sample_row"
    by (simp add: row_of_def columns_of_def demo_catalog_def sample_heap_def slice_at_def sample_row_def sample_catalog_def
       column_type_def indexType_def empty_catalog_def int64_type_def varchar_type_def toExprType_def exprTypes_def)
  moreover have "sample_row \<noteq> []" by (simp add: sample_row_def)
  ultimately show thesis using that a(1) h demo_wf demo_apart
    by (simp add: db_state_def all_tables_def demo_tables table_state_def table_rows_def at_heap_def demo_service_def NewSqlService_def th heap_rep_def demo_indexes)
qed


lemma demo_compile:
  obtains q where "compile_sql demo_catalog (print_lexemes (print_stmt demo_select)) = Some (Ok q)"
    and "cq_queryTree q = demo_query" and "short_keys (cq_physicalPlan q)"
proof -
  obtain ts s where s: "Tokenize (print_lexemes (print_stmt demo_select)) = Ok ts" "Parse ts = Some (Ok s)" "strip_stmt s = strip_stmt demo_select"
    using parse_printed [OF demo_wf_stmt] by blast
  obtain plan where "Optimize demo_catalog (Plan demo_query) = Ok plan" "short_keys plan"
    using demo_optimize by blast
  then show thesis using that s(1,2) demo_analyze [OF s(3)] by (simp add: compile_sql_def)
qed

theorem SELECT_returns_rows_witness:
  "\<exists>(db :: Db) res sv'. ExecuteWithContext (\<lambda>_. []) None (print_lexemes (print_stmt demo_select)) (demo_service db) = Some (Ok res, sv')
    \<and> er_columns res = [''name''] \<and> er_rows res = [[VString ''ann'']]"
proof -
  obtain db tid where db: "db_state ''d'' (sv_engine (demo_service db)) (\<lambda>_. [(tid, sample_row)])"
    using demo_state by blast
  obtain q where q: "compile_sql demo_catalog (print_lexemes (print_stmt demo_select)) = Some (Ok q)"
      "cq_queryTree q = demo_query" "short_keys (cq_physicalPlan q)"
    using demo_compile by blast
  have sv: "sv_catalog (demo_service db) = demo_catalog" "sv_root (demo_service db) = ''d''"
    by (simp_all add: demo_service_def NewSqlService_def)
  obtain res sv' where r: "ExecuteWithContext (\<lambda>_. []) None (print_lexemes (print_stmt demo_select)) (demo_service db) = Some (Ok res, sv')"
      "er_columns res = map co_name [th_columns sample_heap ! 1]"
      "mset (er_rows res) = image_mset (project_cols [th_columns sample_heap ! 1]) (filter_mset (sat (Some (ResolvedBinaryExpr ''<'' (ResolvedColumnRef (th_columns sample_heap ! 0) ExprTypeInt64) (ResolvedConst (VInt64 5) ExprTypeInt64) ExprTypeBool))) (mset (map snd [(tid, sample_row)])))"
    using SELECT_returns_rows [of "demo_service db", unfolded sv, OF db q(1) q(2) [unfolded demo_query_def] q(3)] by blast
  have "mset (er_rows res) = {#[VString ''ann'']#}"
    unfolding r(3) by (simp add: sat_def sample_heap_def sample_row_def project_cols_def relation_holds_def column_value_def)
  then show ?thesis using r(1,2) by (auto simp: sample_heap_def)
qed

end
