(* ===== verification/InsertRun.thy ===== *)
theory InsertRun
  imports QueryRun
begin

text \<open>
  An INSERT from the text to the state it leaves: the row is in the table, its values are in every index of the
  table, and every other table and index holds what it held.
\<close>

section \<open>The new row in the indexes\<close>

lemma column_position_at:
  assumes "p < length cols" and "co_oid (cols ! p) = oid" and "\<forall>j < p. co_oid (cols ! j) \<noteq> oid"
  shows "column_position cols oid = Some p"
  using assms
proof (induction cols arbitrary: p)
  case (Cons col cols)
  show ?case
  proof (cases p)
    case (Suc q)
    then have "co_oid col \<noteq> oid" and "\<forall>j < q. co_oid (cols ! j) \<noteq> oid" using Cons.prems(3) by fastforce+
    then show ?thesis using Cons.IH [of q] Cons.prems(1,2) Suc by simp
  qed (use Cons.prems in simp)
qed simp

lemma index_position:
  assumes "columns_wf c" and "index_column c table def = Some col"
  shows "column_position (columns_of c table) (ix_columnOid def) = Some (nat (sint (co_position col)))"
    and "nat (sint (co_position col)) < length (columns_of c table)" and "col \<in> set (columns_of c table)"
proof -
  obtain p where p: "p < length (columns_of c table)" "co_oid (columns_of c table ! p) = ix_columnOid def" "col = columns_of c table ! p"
      "\<forall>j < p. co_oid (columns_of c table ! j) \<noteq> ix_columnOid def"
    using assms(2) by (auto simp: index_column_def find_Some_iff)
  have "nat (sint (co_position col)) = p"
    using columns_wfD(3) [OF assms(1), of p "tb_oid table"] p(1,3) by (simp add: columns_of_def)
  then show "column_position (columns_of c table) (ix_columnOid def) = Some (nat (sint (co_position col)))"
      "nat (sint (co_position col)) < length (columns_of c table)" "col \<in> set (columns_of c table)"
    using column_position_at [OF p(1,2,4)] p(1,3) by simp_all
qed

lemma column_pairs_add: "column_pairs col (before @ (tid, row) # after) = add_mset (column_value col row, tid) (column_pairs col (before @ after))"
  by (simp add: column_pairs_def)

lemma fits_short: "fits c cols vs \<Longrightarrow> v \<in> set vs \<Longrightarrow> short_value v"
proof (induction c cols vs rule: fits.induct)
  case (2 c col cols vs)
  then show ?case by (cases v) (auto simp: short_value_def split: list.splits)
qed simp

text \<open>The index can take the row: it is open and has room for the value of its column.\<close>

definition index_takes :: "Engine \<Rightarrow> TableDefinition \<Rightarrow> (TID \<times> gvalue list) list \<Rightarrow> gvalue list \<Rightarrow> IndexDefinition \<Rightarrow> bool" where
  "index_takes en table rows vs def \<longleftrightarrow> (\<exists>idx col. index_ready en (ix_name def) idx
     \<and> index_column (db_cat (en_db en)) table def = Some col
     \<and> index_room (db_pool (en_db en)) idx (column_pairs col rows) (column_value col vs))"

lemma index_takes_kept:
  assumes t: "index_takes en table rows vs def" and r: "index_rep en table rows def" and c: "db_cat (en_db en') = db_cat (en_db en)"
    and n: "map_of (im_byName (en_im en')) (ix_name def) = map_of (im_byName (en_im en)) (ix_name def)"
    and k: "file_kept (ix_fileNode def) (db_pool (en_db en)) (db_pool (en_db en'))"
  shows "index_takes en' table rows vs def"
proof -
  obtain idx col where i: "index_ready en (ix_name def) idx" "index_column (db_cat (en_db en)) table def = Some col"
      "index_room (db_pool (en_db en)) idx (column_pairs col rows) (column_value col vs)"
    using t by (auto simp: index_takes_def)
  have "index_file idx = ix_fileNode def" using r i(1) by (auto simp: index_rep_def index_ready_def)
  then show ?thesis using i c n index_room_kept [OF i(3)] k by (auto simp: index_takes_def index_ready_def)
qed

lemma index_adds:
  assumes wf: "columns_wf (db_cat (en_db en))" and row: "row_of (db_cat (en_db en)) table vs" and short: "\<forall>v \<in> set vs. short_value v"
    and rep: "index_rep en table (before @ after) def" and takes: "index_takes en table (before @ after) vs def"
  obtains p en' where "column_position (columns_of (db_cat (en_db en)) table) (ix_columnOid def) = Some p" and "p < length vs"
    and "Index_Insert (ix_name def) (vs ! p) tid en = Some (Ok (), en')" and "index_rep en' table (before @ (tid, vs) # after) def"
    and "db_cat (en_db en') = db_cat (en_db en)"
    and "\<And>F. F \<noteq> ix_fileNode def \<Longrightarrow> file_kept F (db_pool (en_db en)) (db_pool (en_db en'))"
    and "\<And>other. other \<noteq> ix_name def \<Longrightarrow> map_of (im_byName (en_im en')) other = map_of (im_byName (en_im en)) other"
proof -
  let ?c = "db_cat (en_db en)"
  obtain idx col ty where i: "index_ready en (ix_name def) idx" "index_kind idx = ix_indexType def"
      "index_file idx = ix_fileNode def" "ix_fileNode def \<noteq> tb_fileNode table" "index_column ?c table def = Some col"
      "map_of (cm_typesByOid ?c) (co_typeOid col) = Some ty" "index_keyType idx = ty"
      "ty_name ty \<in> {''INT64'', ''VARCHAR''}" "index_holds (db_pool (en_db en)) idx (column_pairs col (before @ after))"
    using rep unfolding index_rep_def by blast
  let ?p = "nat (sint (co_position col))"
  note pos = index_position [OF wf i(5)]
  have len: "?p < length vs" using pos(2) row by (simp add: row_of_def list_all2_lengthD)
  obtain t where t: "column_type ?c col = Some t" using i(6) by (simp add: column_type_def)
  have "value_type (column_value col vs) t" using column_typed [OF wf row pos(3) t] by blast
  then have key: "key_ok (index_keyType idx) (vs ! ?p)"
    using typed_key [OF _ t i(6,8)] short len i(7) by (simp add: column_value_def)
  have room: "index_room (db_pool (en_db en)) idx (column_pairs col (before @ after)) (vs ! ?p)"
    using takes i(1,5) by (auto simp: index_takes_def index_ready_def column_value_def)
  obtain idx' en' where a: "Index_Insert (ix_name def) (vs ! ?p) tid en = Some (Ok (), en')" "index_ready en' (ix_name def) idx'"
      "index_holds (db_pool (en_db en')) idx' (add_mset (vs ! ?p, tid) (column_pairs col (before @ after)))"
      "index_file idx' = index_file idx" "index_kind idx' = index_kind idx" "index_keyType idx' = index_keyType idx"
      "\<And>F. F \<noteq> index_file idx \<Longrightarrow> file_kept F (db_pool (en_db en)) (db_pool (en_db en'))"
      "en_db en' = (en_db en)\<lparr>db_pool := db_pool (en_db en')\<rparr>"
      "\<And>other. other \<noteq> ix_name def \<Longrightarrow> map_of (im_byName (en_im en')) other = map_of (im_byName (en_im en)) other"
    by (rule Index_Insert_ok [where tid = tid, OF i(1) room key]) blast
  have c: "db_cat (en_db en') = ?c" by (subst a(8)) simp
  have "index_holds (db_pool (en_db en')) idx' (column_pairs col (before @ (tid, vs) # after))"
    using a(3) by (simp add: column_pairs_add column_value_def)
  then have "index_rep en' table (before @ (tid, vs) # after) def"
    unfolding index_rep_def c using a(2,4-6) i by (intro exI [of _ idx'] exI [of _ col] exI [of _ ty]) simp
  then show thesis using that [OF pos(1) len a(1)] c a(7,9) i(3) by metis
qed

lemma update_indexes_ok:
  assumes "columns_wf (db_cat (en_db en))" and "row_of (db_cat (en_db en)) table vs" and "\<forall>v \<in> set vs. short_value v"
    and "pool_inv (db_pool (en_db en))" and "distinct (map ix_name defs)" and "distinct (map ix_fileNode defs)"
    and "\<forall>def \<in> set defs. index_rep en table (before @ after) def \<and> index_takes en table (before @ after) vs def"
  shows "\<exists>en'. update_indexes (columns_of (db_cat (en_db en)) table) vs tid defs en = Some (Ok (), en')
    \<and> (\<forall>def \<in> set defs. index_rep en' table (before @ (tid, vs) # after) def) \<and> db_cat (en_db en') = db_cat (en_db en)
    \<and> (\<forall>F. F \<notin> ix_fileNode ` set defs \<longrightarrow> file_kept F (db_pool (en_db en)) (db_pool (en_db en')))
    \<and> (\<forall>name. name \<notin> ix_name ` set defs \<longrightarrow> map_of (im_byName (en_im en')) name = map_of (im_byName (en_im en)) name)"
  using assms
proof (induction defs arbitrary: en)
  case Nil
  then show ?case by (simp add: once_def pure_def)
next
  case (Cons def defs)
  have rep: "index_rep en table (before @ after) def" and takes: "index_takes en table (before @ after) vs def" using Cons.prems(7) by simp_all
  obtain p en1 where a: "column_position (columns_of (db_cat (en_db en)) table) (ix_columnOid def) = Some p" "p < length vs"
      "Index_Insert (ix_name def) (vs ! p) tid en = Some (Ok (), en1)" "index_rep en1 table (before @ (tid, vs) # after) def"
      "db_cat (en_db en1) = db_cat (en_db en)" "\<And>F. F \<noteq> ix_fileNode def \<Longrightarrow> file_kept F (db_pool (en_db en)) (db_pool (en_db en1))"
      "\<And>other. other \<noteq> ix_name def \<Longrightarrow> map_of (im_byName (en_im en1)) other = map_of (im_byName (en_im en)) other"
    by (rule index_adds [where tid = tid, OF Cons.prems(1-3) rep takes]) blast
  have "ix_fileNode def \<noteq> tb_fileNode table" using rep by (auto simp: index_rep_def)
  then have inv: "pool_inv (db_pool (en_db en1))" using a(6) [of "tb_fileNode table"] by (simp add: file_kept_def)
  have rest: "index_rep en1 table (before @ after) d \<and> index_takes en1 table (before @ after) vs d" if "d \<in> set defs" for d
  proof -
    have d: "ix_name d \<noteq> ix_name def" "ix_fileNode d \<noteq> ix_fileNode def" using Cons.prems(5,6) that by (auto simp: image_iff)
    show ?thesis
      using Cons.prems(7) that index_rep_kept [OF _ a(5) a(7) [OF d(1)] a(6) [OF d(2)]] index_takes_kept [OF _ _ a(5) a(7) [OF d(1)] a(6) [OF d(2)]]
      by simp
  qed
  obtain en' where e: "update_indexes (columns_of (db_cat (en_db en)) table) vs tid defs en1 = Some (Ok (), en')"
      "\<forall>d \<in> set defs. index_rep en' table (before @ (tid, vs) # after) d" "db_cat (en_db en') = db_cat (en_db en)"
      "\<forall>F. F \<notin> ix_fileNode ` set defs \<longrightarrow> file_kept F (db_pool (en_db en1)) (db_pool (en_db en'))"
      "\<forall>name. name \<notin> ix_name ` set defs \<longrightarrow> map_of (im_byName (en_im en')) name = map_of (im_byName (en_im en1)) name"
    using Cons.IH [of en1] Cons.prems(1-3,5,6) inv rest unfolding a(5) by auto
  have "ix_name def \<notin> ix_name ` set defs" "ix_fileNode def \<notin> ix_fileNode ` set defs" using Cons.prems(5,6) by simp_all
  then have "index_rep en' table (before @ (tid, vs) # after) def"
    using index_rep_kept [OF a(4), of en'] e(3-5) a(5) by simp
  moreover have "update_indexes (columns_of (db_cat (en_db en)) table) vs tid (def # defs) en = Some (Ok (), en')"
    using rep a(1-3) e(1) by (auto simp: index_rep_def index_ready_def oseq_def once_def GetOrCreate_def)
  ultimately show ?case
    using e(2-5) a(6,7) file_kept_trans [of _ "db_pool (en_db en)" "db_pool (en_db en1)" "db_pool (en_db en')"] by simp
qed

section \<open>The row in the table\<close>

text \<open>What the statement promises of one table: the row is among its rows, with a new identifier.\<close>

lemma insert_run_ok:
  assumes wf: "columns_wf (db_cat (en_db en))" and st: "table_state root en table (before @ after)" and la: "local_apart (db_cat (en_db en)) table"
    and row: "row_of (db_cat (en_db en)) table vs" and ok: "row_ok (table_heap root (db_cat (en_db en)) table) (db_cat (en_db en)) vs"
    and takes: "\<forall>def \<in> set (table_indexes (db_cat (en_db en)) table). index_takes en table (before @ after) vs def"
    and ins: "InsertRow (table_heap root (db_cat (en_db en)) table) vs (en_db en) = (Ok tid, db')"
    and h: "at_heap (table_heap root (db_cat (en_db en)) table) (en\<lparr>en_db := db'\<rparr>) (before @ (tid, vs) # after)"
    and run: "runs_on (tb_fileNode table) (db_pool (en_db en)) (db_pool db')" and c: "db_cat db' = db_cat (en_db en)"
  shows "\<exists>en'. insert_run \<lparr>ie_tableHeap = table_heap root (db_cat (en_db en)) table, ie_table = table,
      ie_columns = columns_of (db_cat (en_db en)) table, ie_values = vs, ie_executed = flag\<rparr> en = Some (Ok None, en')
    \<and> table_state root en' table (before @ (tid, vs) # after) \<and> touches table en en'"
proof -
  let ?c = "db_cat (en_db en)" and ?en1 = "en\<lparr>en_db := db'\<rparr>" and ?defs = "table_indexes (db_cat (en_db en)) table"
  let ?rows = "before @ (tid, vs) # after"
  have fl: "fluid (db_pool db')" and inv1: "pool_inv (db_pool db')"
    using h by (auto simp: at_heap_def heap_rep_def)
  have inv: "pool_inv (db_pool (en_db en))" using st by (simp add: table_state_def table_rows_def at_heap_def heap_rep_def)
  have kept: "file_kept F (db_pool (en_db en)) (db_pool db')" if "F \<noteq> tb_fileNode table" for F
    using runs_in_kept [OF runs_in_one [OF run] inv, of "{tb_fileNode table}" F] fl that by simp
  have rep: "index_rep ?en1 table (before @ after) def \<and> index_takes ?en1 table (before @ after) vs def" if "def \<in> set ?defs" for def
  proof -
    have r: "index_rep en table (before @ after) def" using st that by (simp add: table_state_def)
    then have "ix_fileNode def \<noteq> tb_fileNode table" by (auto simp: index_rep_def)
    then show ?thesis using index_rep_kept [OF r, of ?en1] index_takes_kept [OF _ r, of vs ?en1] takes that c kept by simp
  qed
  have short: "\<forall>v \<in> set vs. short_value v" using ok fits_short by (auto simp: row_ok_def)
  obtain en' where e: "update_indexes (columns_of ?c table) vs tid ?defs ?en1 = Some (Ok (), en')"
      "\<forall>def \<in> set ?defs. index_rep en' table ?rows def" "db_cat (en_db en') = ?c"
      "\<forall>F. F \<notin> ix_fileNode ` set ?defs \<longrightarrow> file_kept F (db_pool db') (db_pool (en_db en'))"
      "\<forall>name. name \<notin> ix_name ` set ?defs \<longrightarrow> map_of (im_byName (en_im en')) name = map_of (im_byName (en_im en)) name"
    using update_indexes_ok [of ?en1 table vs ?defs before after tid] wf row short rep la inv1 c by (auto simp: local_apart_def)
  have "table_rows root ?en1 table ?rows"
    using h row st c by (auto simp: table_rows_def table_state_def)
  moreover have "tb_fileNode table \<notin> ix_fileNode ` set ?defs" using la by (simp add: local_apart_def)
  ultimately have "table_rows root en' table ?rows" using table_rows_kept [of root ?en1 table ?rows en'] e(3,4) c by simp
  then have "table_state root en' table ?rows" using e(2,3) by (simp add: table_state_def)
  moreover have "touches table en en'"
    using e(3,4,5) kept file_kept_trans [of _ "db_pool (en_db en)" "db_pool db'" "db_pool (en_db en')"]
    by (auto simp: touches_def table_files_def index_names_def)
  moreover have "insert_run \<lparr>ie_tableHeap = table_heap root ?c table, ie_table = table, ie_columns = columns_of ?c table, ie_values = vs,
      ie_executed = flag\<rparr> en = Some (Ok None, en')"
    using ins e(1) c by (simp add: insert_run_def oseq_def once_def on_db_def lift_result_def ListIndexes_def table_indexes_def pure_def)
  ultimately show ?thesis by blast
qed

lemma insert_executes:
  assumes "insert_run ex en = Some (Ok None, en')" and "\<not> ie_executed ex"
  shows "\<exists>ex'. engine_Execute (InsertExec ex) en = Some (Ok [], ex', en')"
proof -
  have "exec_Next (InsertExec ex) en = Some (Ok None, InsertExec (ex\<lparr>ie_executed := True\<rparr>), en')"
    using assms by (simp add: exec_Next.simps [of "InsertExec ex"] at_leaf_def insert_Next_def run_once_def oseq_def once_def set_exec_def in_engine_o_def)
  then show ?thesis by (simp add: engine_Execute_def fetch_rows.simps)
qed

text \<open>Writing all pages back at the end of the statement changes nothing anyone can see.\<close>

lemma flush_ignored_ok:
  assumes "table_state root en table rows"
  shows "\<exists>b. FlushAllPages order (db_pool (en_db en)) = (Ok (), b) \<and> flush_ignored order en = (Ok (), en\<lparr>en_db := (en_db en)\<lparr>db_pool := b\<rparr>\<rparr>)
    \<and> table_state root (en\<lparr>en_db := (en_db en)\<lparr>db_pool := b\<rparr>\<rparr>) table rows \<and> touches table en (en\<lparr>en_db := (en_db en)\<lparr>db_pool := b\<rparr>\<rparr>)"
proof -
  have i: "pool_inv (db_pool (en_db en))" "fluid (db_pool (en_db en))"
    using assms by (auto simp: table_state_def table_rows_def at_heap_def heap_rep_def)
  obtain r b where f: "FlushAllPages order (db_pool (en_db en)) = (r, b)" by force
  let ?en' = "en\<lparr>en_db := (en_db en)\<lparr>db_pool := b\<rparr>\<rparr>"
  note k = flush_all_kept [OF i f]
  have "flush_ignored order en = (Ok (), ?en')" using f k(2) by (simp add: flush_ignored_def on_db_def on_pool_def)
  moreover have "index_rep ?en' table rows def" if "def \<in> set (table_indexes (db_cat (en_db en)) table)" for def
    by (rule index_rep_kept [where en = en]) (use assms that k(1) in \<open>simp_all add: table_state_def\<close>)
  then have "table_state root ?en' table rows"
    using assms table_rows_kept [of root en table rows ?en'] k(1) by (simp add: table_state_def)
  moreover have "touches table en ?en'" using k(1) by (simp add: touches_def)
  ultimately show ?thesis using f k(2) by simp
qed

section \<open>INSERT\<close>

lemma insert_table:
  assumes "wf_query c (InsertQueryTree table cols vs)" and "apart c"
  shows "table \<in> set (all_tables c)" and "local_apart c table" and "cols = columns_of c table" and "row_of c table vs"
proof -
  show t: "table \<in> set (all_tables c)" using assms(1) by (auto simp: all_tables_def)
  show "local_apart c table" using apartD(1,2) [OF assms(2) t] by (simp add: local_apart_def)
qed (use assms(1) in \<open>auto simp: row_of_def\<close>)

text \<open>C2: an INSERT adds its row, durably, and nothing else changes. Let the disk work, no page be pinned, the
  replacer know every buffered page and each page of a table be dirty or on disk; let the tables hold the rows R and
  the indexes, open and in files of their own, the values of their columns (db_state). A statement that
  compiles to an INSERT succeeds when its texts are valid UTF-8 of at most 255 bytes, a page of the table has room
  (heap_room), and each index of the table has room for the value (index_takes: a hash index below 2045 buckets
  with page numbers left; a B-tree of integers in an LRU pool below 680 pages and 1356 ids of the value). One row
  is affected; the table holds its old rows and the new one, its indexes the new value with the identifier of
  the row, and all other tables and indexes what they held. When FlushAllPages visits every page of the pool, a
  pool newly opened over the disk then holds the rows of all tables, the new one included.\<close>

theorem INSERT_adds_row:
  assumes st: "db_state (sv_root sv) (sv_engine sv) R" and q: "compile_sql (sv_catalog sv) sql = Some (Ok q)"
    and ins: "cq_queryTree q = InsertQueryTree table cols vs"
    and room: "heap_room (table_heap (sv_root sv) (sv_catalog sv) table) (sv_catalog sv) (en_db (sv_engine sv)) vs"
    and takes: "\<forall>def \<in> set (table_indexes (sv_catalog sv) table). index_takes (sv_engine sv) table (R table) vs def"
    and order: "\<forall>b. set (order b) = fst ` set (bp_table b)"
  shows "\<exists>res sv' tid before after. ExecuteWithContext order ctx sql sv = Some (Ok res, sv')
    \<and> er_affected res = 1 \<and> er_rows res = [] \<and> R table = before @ after
    \<and> sv_root sv' = sv_root sv \<and> db_state (sv_root sv) (sv_engine sv') (R(table := before @ (tid, vs) # after))
    \<and> rows_on_disk (sv_root sv) (sv_engine sv') (R(table := before @ (tid, vs) # after))"
proof -
  let ?en = "sv_engine sv" and ?heap = "table_heap (sv_root sv) (sv_catalog sv) table"
  obtain stmt where stmt: "Analyze (sv_catalog sv) stmt = Ok (cq_queryTree q)" "Optimize (sv_catalog sv) (Plan (cq_queryTree q)) = Ok (cq_physicalPlan q)"
    by (rule compile_select [OF q])
  have wq: "wf_query (sv_catalog sv) (InsertQueryTree table cols vs)" using Analyze_Ok [OF stmt(1)] unfolding ins .
  have wf: "columns_wf (sv_catalog sv)" and ap: "apart (sv_catalog sv)" using st by (simp_all add: db_state_def)
  note t = insert_table [OF wq ap]
  note s = db_state_inv(1) [OF st t(1)]
  have rep: "heap_rep ?heap (sv_catalog sv) (en_db ?en) (R table)" using s by (simp add: table_state_def table_rows_def at_heap_def)
  obtain tid db' before after where a: "InsertRow ?heap vs (en_db ?en) = (Ok tid, db')" "R table = before @ after"
      "heap_rep ?heap (sv_catalog sv) db' (before @ (tid, vs) # after)"
    using heap_store.add_row [OF rep room] by blast
  have c: "db_cat db' = sv_catalog sv" using a(3) by (simp add: heap_rep_def)
  have at: "at_heap ?heap (?en\<lparr>en_db := db'\<rparr>) (before @ (tid, vs) # after)"
    using a(2,3) s c room by (auto simp: at_heap_def table_state_def table_rows_def heap_room_def)
  have run: "runs_on (tb_fileNode table) (db_pool (en_db ?en)) (db_pool db')"
    using InsertRow_runs [OF rep room a(1)] by (simp add: table_heap_def)
  have ok: "row_ok ?heap (sv_catalog sv) vs" using room by (simp add: heap_room_def)
  obtain en1 where i: "insert_run \<lparr>ie_tableHeap = ?heap, ie_table = table, ie_columns = columns_of (sv_catalog sv) table, ie_values = vs,
        ie_executed = False\<rparr> ?en = Some (Ok None, en1)"
      "table_state (sv_root sv) en1 table (before @ (tid, vs) # after)" "touches table ?en en1"
    using insert_run_ok [OF wf s [unfolded a(2)] t(2,4) ok takes [unfolded a(2)] a(1) at run c] by blast
  let ?ex = "\<lparr>ie_tableHeap = ?heap, ie_table = table, ie_columns = cols, ie_values = vs, ie_executed = False\<rparr>"
  obtain ex' where e: "engine_Execute (InsertExec ?ex) ?en = Some (Ok [], ex', en1)"
    using insert_executes [of ?ex ?en en1] i(1) t(3) by auto
  obtain b where b: "FlushAllPages (order (db_pool (en_db en1))) (db_pool (en_db en1)) = (Ok (), b)"
      "flush_ignored (order (db_pool (en_db en1))) en1 = (Ok (), en1\<lparr>en_db := (en_db en1)\<lparr>db_pool := b\<rparr>\<rparr>)"
      "table_state (sv_root sv) (en1\<lparr>en_db := (en_db en1)\<lparr>db_pool := b\<rparr>\<rparr>) table (before @ (tid, vs) # after)"
      "touches table en1 (en1\<lparr>en_db := (en_db en1)\<lparr>db_pool := b\<rparr>\<rparr>)"
    using flush_ignored_ok [OF i(2)] by blast
  define en2 where "en2 = en1\<lparr>en_db := (en_db en1)\<lparr>db_pool := b\<rparr>\<rparr>"
  note f = b(2-4) [folded en2_def]
  have plan: "cq_physicalPlan q = PhysicalInsertNode table cols vs" using stmt(2) ins by simp
  have "run_query (sv_root sv) order q ?en = Some (Ok [], en2)"
    using e f(1) ins plan
    by (simp add: run_query_def oseq_def once_def createInsert_def NewTableHeap_ok seq_def lift_result_def pure_def)
  then have "ExecuteWithContext order ctx sql sv = Some (Ok (query_result (case ctx of None \<Rightarrow> False | Some ctx \<Rightarrow> ctx_trace ctx) q []), sv\<lparr>sv_engine := en2\<rparr>)"
    using q ins by (simp add: ExecuteWithContext_def Let_def)
  moreover have "db_state (sv_root sv) en2 (R(table := before @ (tid, vs) # after))"
    using db_state_update [OF st t(1) touches_trans [OF i(3) f(3)] f(2)] .
  moreover have "rows_on_disk (sv_root sv) en2 (R(table := before @ (tid, vs) # after))"
    unfolding en2_def by (rule flushed_rows [OF db_state_update [OF st t(1) i(3,2)] b(1)]) (simp add: order)
  ultimately show ?thesis using a(2) ins
    by (intro exI [of _ "query_result (case ctx of None \<Rightarrow> False | Some ctx \<Rightarrow> ctx_trace ctx) q []"] exI [of _ "sv\<lparr>sv_engine := en2\<rparr>"] exI [of _ tid]
        exI [of _ before] exI [of _ after]) (simp add: query_result_def NewExecutionResult_def)
qed

section \<open>A table with a hash index\<close>

definition indexed_catalog :: Catalog where
  "indexed_catalog = demo_catalog\<lparr>cm_indexesByTableOid := [(1, [sample_hash_def])], cm_indexesByOid := [(1, sample_hash_def)],
     cm_indexesByName := [(''i'', sample_hash_def)]\<rparr>"

definition indexed_pool :: Pool where
  "indexed_pool = snd (seq (NewPage (page_at ''t'' 0) (Some (sample_page 0)))
     (\<lambda>_. UpdatePage (page_at ''t'' 0) (Some (sample_page 0))) (hx_pool sample_hash))"

definition indexed_engine :: Engine where
  "indexed_engine = \<lparr>en_db = \<lparr>db_cat = indexed_catalog, db_pool = indexed_pool\<rparr>,
     en_im = \<lparr>im_root = ''d'', im_byName = [(''i'', OpenHash (hx_idx sample_hash))]\<rparr>\<rparr>"

definition indexed_service :: SqlService where
  "indexed_service = (NewSqlService ''d'' \<lparr>db_cat = indexed_catalog, db_pool = indexed_pool\<rparr> (NewIndexManager ''d''))
     \<lparr>sv_engine := indexed_engine\<rparr>"

definition demo_insert :: Statement where
  "demo_insert = InsertStmt (plain_ident ''t'') [LiteralInt64Expr (-7), LiteralStringExpr ''ann'']"

lemma indexed_pool_pages:
  "file_pages ''t'' indexed_pool [0 \<mapsto> hp_buf (sample_page 0)] 1" "runs_on ''t'' (hx_pool sample_hash) indexed_pool"
proof -
  let ?b = "hx_pool sample_hash" and ?p = "sample_page 0"
  obtain p where p: "NewHeapPage 0 = Ok p" "page_inv p" using NewHeapPage_ok [of 0] by blast
  then have v: "valid_buf (hp_buf ?p)" and id: "\<lparr>hp_pageID = int 0, hp_buf = hp_buf ?p\<rparr> = ?p"
    using sample_page_for [of 0] by (cases ?p; simp add: page_for_def sample_key_def NewPageKey_def)+
  have i: "pool_inv ?b" "fluid ?b" using hash_index_pool [OF sample_hash_ok(1)] by simp_all
  have "fresh_file ''t'' 0 sample_hash_pool" using sample_hash_pool_fresh(1) by simp
  then have "bp_lookup ?b (page_at ''t'' j) = None" for j
    using runs_on_frame(3) [OF sample_hash_ok(5), of "page_at ''t'' j"] by (simp add: fresh_file_def)
  then have f0: "file_pages ''t'' ?b Map.empty 0" using i by (simp add: file_pages_def)
  obtain s b1 where n: "NewPage (page_at ''t'' 0) (Some ?p) ?b = (Ok s, b1)" "file_pages ''t'' b1 Map.empty 1" "buffered ''t'' b1 0 (hp_buf ?p)"
      "runs_on ''t'' ?b b1"
    using add_page [OF f0 v] unfolding id by auto
  obtain b2 where u: "UpdatePage (page_at ''t'' 0) (Some ?p) b1 = (Ok (), b2)" "file_pages ''t'' b2 [0 \<mapsto> hp_buf ?p] 1" "runs_on ''t'' b1 b2"
    using update_page [OF n(2) _ _ v, of 0] n(3) unfolding id by (auto simp: buffered_def)
  have "indexed_pool = b2" using n(1) u(1) by (simp add: indexed_pool_def seq_def)
  then show "file_pages ''t'' indexed_pool [0 \<mapsto> hp_buf ?p] 1" "runs_on ''t'' ?b indexed_pool"
    using u(2,3) runs_on_trans [OF n(4)] by simp_all
qed

lemma indexed_heap:
  "table_heap ''d'' indexed_catalog (th_table sample_heap) = sample_heap" "columns_of indexed_catalog (th_table sample_heap) = th_columns sample_heap"
  "table_indexes indexed_catalog (th_table sample_heap) = [sample_hash_def]" "cm_tablesByName indexed_catalog = [(''t'', th_table sample_heap)]"
  "cm_typesByOid indexed_catalog = cm_typesByOid sample_catalog"
  by (simp_all add: table_heap_def sample_heap_def columns_of_def indexed_catalog_def demo_catalog_def slice_at_def table_indexes_def)

lemma indexed_fits: "fits indexed_catalog cols vs = fits sample_catalog cols vs"
proof -
  have "column_DataType indexed_catalog = column_DataType sample_catalog"
    by (simp add: fun_eq_iff column_DataType_def GetTypeByOid_def indexed_heap(5))
  then show ?thesis by (induction "sample_catalog" cols vs rule: fits.induct) (auto split: list.splits)
qed

lemma indexed_heap_state:
  "heap_rep sample_heap indexed_catalog (en_db indexed_engine) []" "heap_room sample_heap indexed_catalog (en_db indexed_engine) sample_row"
proof -
  obtain p where p: "NewHeapPage 0 = Ok p" "page_inv p" "page_records p = []" "pg_lower p = 10" "pg_upper p = 8192"
    using NewHeapPage_ok [of 0] by blast
  then have sp: "sample_page 0 = p" by (simp add: sample_page_def)
  note f = indexed_pool_pages(1)
  have v: "pool_view indexed_pool (page_at ''t'' 0) = Some (hp_buf p)" "safe indexed_pool (page_at ''t'' 0)"
    using file_pagesD(4,5) [OF f, of 0 "hp_buf p"] sp by simp_all
  have k: "heap_pageKey sample_heap 0 = page_at ''t'' 0" by (simp add: heap_pageKey_def sample_heap_def)
  have "page_tuples indexed_pool (page_at ''t'' 0) []" using v p(2,3) page_any_id [of p] by (simp add: page_tuples_def)
  then show "heap_rep sample_heap indexed_catalog (en_db indexed_engine) []"
    using file_pagesD(1,2) [OF f] k
    by (auto simp: heap_rep_def indexed_engine_def heap_pages_def intro!: exI [of _ "[[]]"]) (simp add: sample_heap_def)
  have "row_ok sample_heap indexed_catalog sample_row" using sample_row_ok by (simp add: row_ok_def indexed_fits)
  then show "heap_room sample_heap indexed_catalog (en_db indexed_engine) sample_row"
    using v(1) k p(4,5) page_free_any_id [of p]
    by (auto simp: heap_room_def indexed_engine_def sample_row_def row_bytes_def page_free_def) (auto simp: sample_heap_def intro!: exI [of _ 0])
qed

lemma indexed_hash_holds: "hash_index \<lparr>hx_pool = indexed_pool, hx_idx = hx_idx sample_hash\<rparr> 81 16 {#}"
proof (rule hash_index_kept [where b = "hx_pool sample_hash"])
  have "pool_inv (hx_pool sample_hash)" using hash_index_pool [OF sample_hash_ok(1)] by simp
  then show "file_kept (hi_fileID (hx_idx sample_hash)) (hx_pool sample_hash) indexed_pool"
    using runs_in_kept [OF runs_in_one [OF indexed_pool_pages(2)], of "{''t''}"] file_pagesD(2) [OF indexed_pool_pages(1)] sample_hash_ok(3)
    by simp
qed (simp add: sample_hash_ok(1))

lemma indexed_index:
  "index_column indexed_catalog (th_table sample_heap) sample_hash_def = Some (th_columns sample_heap ! 0)"
  "index_rep indexed_engine (th_table sample_heap) [] sample_hash_def"
  "index_takes indexed_engine (th_table sample_heap) [] sample_row sample_hash_def"
proof -
  show c: "index_column indexed_catalog (th_table sample_heap) sample_hash_def = Some (th_columns sample_heap ! 0)"
    by (simp add: index_column_def indexed_heap) (simp add: sample_heap_def sample_hash_def_def)
  have r: "index_ready indexed_engine (ix_name sample_hash_def) (OpenHash (hx_idx sample_hash))"
    by (simp add: index_ready_def indexed_engine_def sample_hash_def_def)
  have t: "map_of (cm_typesByOid indexed_catalog) (co_typeOid (th_columns sample_heap ! 0)) = Some int64_type"
    by (simp add: indexed_heap) (simp add: sample_heap_def sample_catalog_def indexType_def empty_catalog_def int64_type_def varchar_type_def)
  have d: "index_kind (OpenHash (hx_idx sample_hash)) = ix_indexType sample_hash_def" "ix_fileNode sample_hash_def = ''i.idx''"
      "tb_fileNode (th_table sample_heap) = ''t''" "ty_name int64_type = ''INT64''"
    by (simp_all add: sample_hash_def_def sample_heap_def int64_type_def)
  show "index_rep indexed_engine (th_table sample_heap) [] sample_hash_def"
    unfolding index_rep_def using r c t d indexed_hash_holds sample_hash_ok(2,3)
    by (intro exI [of _ "OpenHash (hx_idx sample_hash)"] exI [of _ "th_columns sample_heap ! 0"] exI [of _ int64_type])
      (auto simp: indexed_engine_def column_pairs_def)
  have "hash_room \<lparr>hx_pool = indexed_pool, hx_idx = hx_idx sample_hash\<rparr> {#} key" for key
    unfolding hash_room_def using indexed_hash_holds by (intro exI [of _ 81] exI [of _ 16]) simp
  then show "index_takes indexed_engine (th_table sample_heap) [] sample_row sample_hash_def"
    unfolding index_takes_def using r c by (auto simp: indexed_engine_def column_pairs_def)
qed

lemma indexed_state: "db_state ''d'' indexed_engine (\<lambda>_. [])"
proof -
  have "columns_wf indexed_catalog" using demo_wf by (simp add: columns_wf_def indexed_catalog_def)
  moreover have "apart indexed_catalog"
    by (simp add: apart_def all_indexes_def all_tables_def indexed_heap) (simp add: sample_heap_def sample_hash_def_def)
  moreover have "table_state ''d'' indexed_engine (th_table sample_heap) []"
    using indexed_heap_state(1) indexed_index(2)
    by (simp add: table_state_def table_rows_def at_heap_def indexed_heap indexed_engine_def)
  ultimately show ?thesis by (simp add: db_state_def all_tables_def indexed_heap indexed_engine_def)
qed

lemma demo_insert_wf: "wf_stmt demo_insert"
proof -
  have "isIdentPart 116" "isIdentPart 110" by code_simp+
  then show ?thesis by (simp add: demo_insert_def wf_ident_def wf_lexeme.simps ident_lexeme_def plain_ident_def text_runes_def
       isIdentStart_def sql_keywords_def ToUpper_def ascii_upper_def cmp_lexemes_def runes_of_ascii
       string_of_ascii_runes char_of_def bit_Suc_0_iff)
qed

lemma demo_insert_compiles:
  obtains q where "compile_sql indexed_catalog (print_lexemes (print_stmt demo_insert)) = Some (Ok q)"
    and "cq_queryTree q = InsertQueryTree (th_table sample_heap) (th_columns sample_heap) sample_row"
proof -
  obtain ts s where s: "Tokenize (print_lexemes (print_stmt demo_insert)) = Ok ts" "Parse ts = Some (Ok s)" "strip_stmt s = strip_stmt demo_insert"
    using parse_printed [OF demo_insert_wf] by blast
  obtain t es where t: "s = InsertStmt t es" "id_text t = ''t''" "map strip_expr es = [LiteralInt64Expr (-7), LiteralStringExpr ''ann'']"
    using s(3) by (cases s) (auto simp: demo_insert_def plain_ident_def dest!: strip_text)
  have "es = [LiteralInt64Expr (-7), LiteralStringExpr ''ann'']"
  proof -
    have "strip_expr e = LiteralInt64Expr n \<Longrightarrow> e = LiteralInt64Expr n" "strip_expr e = LiteralStringExpr x \<Longrightarrow> e = LiteralStringExpr x" for e n x
      by (cases e; simp)+
    then show ?thesis using t(3) by (auto simp: map_eq_Cons_conv)
  qed
  then have "Analyze indexed_catalog s = Ok (InsertQueryTree (th_table sample_heap) (th_columns sample_heap) sample_row)"
    using t(1,2) by (simp add: analyzeInsert_def indexed_catalog_def demo_catalog_def sample_catalog_def GetTable_def GetColumns_def
        GetTypeByOid_def indexType_def empty_catalog_def int64_type_def varchar_type_def sample_heap_def slice_at_def toExprType_def
        exprTypes_def sample_row_def)
  then show thesis using that s(1,2) by (simp add: compile_sql_def Let_def)
qed

theorem INSERT_adds_row_witness:
  "\<exists>res sv' tid. ExecuteWithContext (\<lambda>b. map fst (bp_table b)) None (print_lexemes (print_stmt demo_insert)) indexed_service = Some (Ok res, sv')
    \<and> er_affected res = 1 \<and> db_state ''d'' (sv_engine sv') ((\<lambda>_. [])(th_table sample_heap := [(tid, sample_row)]))
    \<and> rows_on_disk ''d'' (sv_engine sv') ((\<lambda>_. [])(th_table sample_heap := [(tid, sample_row)]))"
proof -
  have sv: "db_cat (en_db indexed_engine) = indexed_catalog" "sv_root indexed_service = ''d''" "sv_engine indexed_service = indexed_engine"
    by (simp_all add: indexed_service_def indexed_engine_def NewSqlService_def)
  obtain q where q: "compile_sql indexed_catalog (print_lexemes (print_stmt demo_insert)) = Some (Ok q)"
      "cq_queryTree q = InsertQueryTree (th_table sample_heap) (th_columns sample_heap) sample_row"
    using demo_insert_compiles by blast
  have room: "heap_room (table_heap ''d'' indexed_catalog (th_table sample_heap)) indexed_catalog (en_db indexed_engine) sample_row"
    using indexed_heap_state(2) by (simp add: indexed_heap)
  have takes: "\<forall>def \<in> set (table_indexes indexed_catalog (th_table sample_heap)). index_takes indexed_engine (th_table sample_heap) [] sample_row def"
    using indexed_index(3) by (simp add: indexed_heap)
  show ?thesis
    using INSERT_adds_row [of indexed_service, where order = "\<lambda>b. map fst (bp_table b)" and ctx = None, unfolded sv, OF indexed_state q room takes] by auto
qed

end
