(* ===== verification/Server.thy ===== *)
theory Server
  imports SqlService
begin

text \<open>
  The server of \<open>internal/server/server.go\<close> with the messages of \<open>internal/protocol\<close> and the timers of
  \<open>internal/core/memory/background\<close>. A session is the loop over what the connection delivers: a decoded
  request, a line that is no JSON, a failed read or the end. The JSON of \<open>encoding/json\<close> is a parameter of
  the codec and sockets are not modelled; a write to the connection succeeds or fails as the environment says. The wording \<open>err.Error()\<close> of an error is a
  parameter. Sessions run whole requests one after the other; the steps of the server as a machine are in
  \<open>server_step\<close>.
\<close>

section \<open>Messages\<close>

record Request =
  rq_Type :: string
  rq_RequestID :: string
  rq_SQL :: string
  rq_Trace :: bool

definition NewRequest :: "string \<Rightarrow> string \<Rightarrow> bool \<Rightarrow> Request" where
  "NewRequest requestID sql trace = \<lparr>rq_Type = ''query'', rq_RequestID = requestID, rq_SQL = sql, rq_Trace = trace\<rparr>"

record ErrorPos =
  ep_Offset :: nat
  ep_Line :: nat
  ep_Column :: nat

record ProtocolError =
  pe_Code :: string
  pe_Message :: string
  pe_Pos :: "ErrorPos option"

definition NewError :: "string \<Rightarrow> string \<Rightarrow> ProtocolError" where
  "NewError code message = \<lparr>pe_Code = code, pe_Message = message, pe_Pos = None\<rparr>"

definition NewErrorWithPos :: "string \<Rightarrow> string \<Rightarrow> nat \<Rightarrow> nat \<Rightarrow> nat \<Rightarrow> ProtocolError" where
  "NewErrorWithPos code message offset line column = \<lparr>pe_Code = code, pe_Message = message,
     pe_Pos = Some \<lparr>ep_Offset = offset, ep_Line = line, ep_Column = column\<rparr>\<rparr>"

record Response =
  rs_Type :: string
  rs_RequestID :: string
  rs_Status :: string
  rs_Columns :: "string list"
  rs_Rows :: "gvalue list list"
  rs_Affected :: nat
  rs_Explain :: string
  rs_Error :: "ProtocolError option"

definition NewOkResponse :: "string \<Rightarrow> string list \<Rightarrow> gvalue list list \<Rightarrow> nat \<Rightarrow> string \<Rightarrow> Response" where
  "NewOkResponse requestID columns rows affected explain =
     \<lparr>rs_Type = ''response'', rs_RequestID = requestID, rs_Status = ''ok'', rs_Columns = columns, rs_Rows = rows,
      rs_Affected = affected, rs_Explain = explain, rs_Error = None\<rparr>"

definition NewErrorResponse :: "string \<Rightarrow> ProtocolError \<Rightarrow> Response" where
  "NewErrorResponse requestID err =
     \<lparr>rs_Type = ''response'', rs_RequestID = requestID, rs_Status = ''error'', rs_Columns = [], rs_Rows = [],
      rs_Affected = 0, rs_Explain = [], rs_Error = Some err\<rparr>"

section \<open>The codec\<close>

text \<open>
  What the codec reads and writes are lines over the bytes of the connection. Decoding a line as a request
  (\<open>None\<close>: no JSON of that type) and encoding a response are parameters; \<open>broken\<close> says that the connection
  failed instead of ending.
\<close>

datatype read_outcome = ReadRequest Request | ReadBadJSON | ReadEOF | ReadFailed

record Codec =
  cd_reader :: string
  cd_writer :: string

definition NewCodec :: "string \<Rightarrow> Codec" where
  "NewCodec input = \<lparr>cd_reader = input, cd_writer = []\<rparr>"

text \<open>\<open>reader.ReadBytes\<close> up to the next new line.\<close>

fun ReadBytes :: "string \<Rightarrow> (string \<times> string) option" where
  "ReadBytes [] = None"
| "ReadBytes (c # cs) = (if c = CHR 0x0A then Some ([c], cs) else map_option (\<lambda>(ln, rest). (c # ln, rest)) (ReadBytes cs))"

definition codec_ReadRequest :: "(string \<Rightarrow> Request option) \<Rightarrow> bool \<Rightarrow> Codec \<Rightarrow> read_outcome \<times> Codec" where
  "codec_ReadRequest decode broken codec = (case ReadBytes (cd_reader codec) of
     None \<Rightarrow> (if broken then ReadFailed else ReadEOF, codec\<lparr>cd_reader := []\<rparr>)
   | Some (ln, rest) \<Rightarrow> (case decode ln of Some req \<Rightarrow> ReadRequest req | None \<Rightarrow> ReadBadJSON, codec\<lparr>cd_reader := rest\<rparr>))"

definition codec_WriteResponse :: "(Response \<Rightarrow> string) \<Rightarrow> Response \<Rightarrow> Codec \<Rightarrow> Codec" where
  "codec_WriteResponse encode resp codec = codec\<lparr>cd_writer := cd_writer codec @ encode resp @ newline\<rparr>"

text \<open>What a session reads until the connection ends.\<close>

lemma ReadBytes_shrinks: "ReadBytes s = Some (ln, rest) \<Longrightarrow> length rest < length s"
  by (induction s arbitrary: ln) (auto split: if_splits)

function codec_inputs :: "(string \<Rightarrow> Request option) \<Rightarrow> bool \<Rightarrow> Codec \<Rightarrow> read_outcome list" where
  "codec_inputs decode broken codec = (case codec_ReadRequest decode broken codec of (outcome, codec') \<Rightarrow>
     if outcome = ReadEOF \<or> outcome = ReadFailed then [outcome] else outcome # codec_inputs decode broken codec')"
  by pat_completeness auto
termination
  by (relation "measure (\<lambda>(_, _, codec). length (cd_reader codec))")
    (auto simp: codec_ReadRequest_def dest: ReadBytes_shrinks split: option.splits if_splits)

declare codec_inputs.simps [simp del]

lemma ReadBytes_line: "CHR 0x0A \<notin> set s \<Longrightarrow> ReadBytes (s @ newline @ rest) = Some (s @ newline, rest)"
  by (induction s) (auto simp: newline_def)

lemma codec_reads_back:
  assumes "\<forall>r \<in> set rs. decode (encode r @ newline) = Some r \<and> CHR 0x0A \<notin> set (encode r)"
  shows "codec_inputs decode False (NewCodec (concat (map (\<lambda>r. encode r @ newline) rs))) = map ReadRequest rs @ [ReadEOF]"
  using assms
proof (induction rs)
  case Nil
  show ?case by (subst codec_inputs.simps) (simp add: codec_ReadRequest_def NewCodec_def)
next
  case (Cons r rs)
  then show ?case by (subst codec_inputs.simps) (simp add: codec_ReadRequest_def NewCodec_def ReadBytes_line)
qed

section \<open>Requests\<close>

fun mapExecError :: "(go_error \<Rightarrow> string) \<Rightarrow> go_error \<Rightarrow> ProtocolError" where
  "mapExecError error_text (SqlSyntaxError message offset line column) = NewErrorWithPos ''SYNTAX'' message offset line column"
| "mapExecError error_text (SemanticError message (Some (offset, line, column))) =
     NewErrorWithPos ''SEMANTIC'' message offset line column"
| "mapExecError error_text (SemanticError message None) = NewError ''SEMANTIC'' message"
| "mapExecError error_text err = NewError ''EXEC'' (error_text err)"

text \<open>A response whatever happens, unless the statement panics or runs forever.\<close>

definition processRequest ::
    "(go_error \<Rightarrow> string) \<Rightarrow> (Pool \<Rightarrow> PageKey list) \<Rightarrow> string \<Rightarrow> Request option \<Rightarrow> (SqlService, Response) oprog" where
  "processRequest error_text order sessionID request sv = (case request of
     None \<Rightarrow> Some (Ok (NewErrorResponse [] (NewError ''EXEC'' ''Request is null'')), sv)
   | Some request \<Rightarrow> let requestID = rq_RequestID request in
       if rq_Type request \<noteq> ''query'' then
         Some (Ok (NewErrorResponse requestID (NewError ''EXEC'' (''Unsupported request type: '' @ rq_Type request))), sv)
       else if rq_SQL request = [] then Some (Ok (NewErrorResponse requestID (NewError ''EXEC'' ''sql is empty'')), sv)
       else let ctx = NewSessionContext sessionID requestID (rq_Trace request) in
         map_option (\<lambda>(r, sv'). (case r of
             Ok result \<Rightarrow> Ok (NewOkResponse requestID (er_columns result) (er_rows result) (er_affected result) (er_explain result))
           | Err e \<Rightarrow> Ok (NewErrorResponse requestID (mapExecError error_text e))
           | Panic \<Rightarrow> Panic, sv'))
         (ExecuteWithContext order (Some ctx) (rq_SQL request) sv))"

section \<open>Sessions\<close>

text \<open>
  The loop of a session over what is read and whether the answer can be written; the result are the answers
  that were written before the loop ended or the input ran dry.
\<close>

fun handleClient :: "(go_error \<Rightarrow> string) \<Rightarrow> (Pool \<Rightarrow> PageKey list) \<Rightarrow> string \<Rightarrow> (read_outcome \<times> bool) list
    \<Rightarrow> (SqlService, Response list) oprog" where
  "handleClient error_text order sessionID [] = once (pure [])"
| "handleClient error_text order sessionID ((outcome, written) # input) =
     (case outcome of
        ReadEOF \<Rightarrow> once (pure [])
      | ReadFailed \<Rightarrow> once (pure [])
      | ReadBadJSON \<Rightarrow>
          if \<not> written then once (pure [])
          else oseq (handleClient error_text order sessionID input) (\<lambda>answers. once (pure
            (NewErrorResponse [] (NewError ''SYNTAX'' ''Invalid JSON request'') # answers)))
      | ReadRequest request \<Rightarrow>
          oseq (processRequest error_text order sessionID (Some request)) (\<lambda>response.
          if \<not> written then once (pure [])
          else oseq (handleClient error_text order sessionID input) (\<lambda>answers. once (pure (response # answers)))))"

section \<open>The background writer\<close>

record DefaultDirtyPageWriter =
  dw_intervalMs :: int
  dw_checkPointIntervalMs :: int
  dw_batchSize :: int
  dw_backgroundFlag :: bool
  dw_checkPointerFlag :: bool

datatype server_error = ErrServerAlreadyRunning | ErrListen | ErrWriter string

definition NewDefaultDirtyPageWriter :: "int \<Rightarrow> int \<Rightarrow> int \<Rightarrow> server_error + DefaultDirtyPageWriter" where
  "NewDefaultDirtyPageWriter intervalMs checkPointIntervalMs batchSize =
     (if intervalMs \<le> 0 \<or> checkPointIntervalMs \<le> 0 then Inl (ErrWriter ''intervalMs or checkPointIntervalMs: negative or zero'')
      else if batchSize \<le> 0 then Inl (ErrWriter ''batchSize: negative or zero'')
      else Inr \<lparr>dw_intervalMs = intervalMs, dw_checkPointIntervalMs = checkPointIntervalMs, dw_batchSize = batchSize,
        dw_backgroundFlag = False, dw_checkPointerFlag = False\<rparr>)"

text \<open>The flags are set once and never reset: a writer can be started only once.\<close>

definition StartBackgroundWriter :: "DefaultDirtyPageWriter \<Rightarrow> (server_error + unit) \<times> DefaultDirtyPageWriter" where
  "StartBackgroundWriter w = (if dw_backgroundFlag w then (Inl (ErrWriter ''backgroundFlag already started''), w)
     else (Inr (), w\<lparr>dw_backgroundFlag := True\<rparr>))"

definition StartCheckPointer :: "DefaultDirtyPageWriter \<Rightarrow> (server_error + unit) \<times> DefaultDirtyPageWriter" where
  "StartCheckPointer w = (if dw_checkPointerFlag w then (Inl (ErrWriter ''checkPointerFlag already started''), w)
     else (Inr (), w\<lparr>dw_checkPointerFlag := True\<rparr>))"

section \<open>The server\<close>

text \<open>A timer goroutine runs from its start until it is cancelled: \<open>se_flushing\<close> and \<open>se_checkpointing\<close>
  say whether the one of this server does.\<close>

record Server =
  se_service :: SqlService
  se_dirtyWriter :: "DefaultDirtyPageWriter option"
  se_flushing :: bool
  se_checkpointing :: bool
  se_listening :: bool
  se_running :: bool

definition defaultFlushIntervalMs :: int where "defaultFlushIntervalMs = 200"
definition defaultFlushBatchSize :: int where "defaultFlushBatchSize = 64"
definition defaultCheckpointMs :: int where "defaultCheckpointMs = 5000"

definition NewServer :: "string \<Rightarrow> Db \<Rightarrow> IndexManager \<Rightarrow> Server" where
  "NewServer dataDir db im =
     \<lparr>se_service = NewSqlService dataDir db im,
      se_dirtyWriter = (case NewDefaultDirtyPageWriter defaultFlushIntervalMs defaultCheckpointMs defaultFlushBatchSize of
        Inl _ \<Rightarrow> None | Inr w \<Rightarrow> Some w),
      se_flushing = False, se_checkpointing = False, se_listening = False, se_running = False\<rparr>"

text \<open>\<open>Start\<close> up to its accept loop; whether the port can be listened on is an argument.\<close>

definition start_writers :: "Server \<Rightarrow> Server" where
  "start_writers se = (case se_dirtyWriter se of None \<Rightarrow> se | Some w \<Rightarrow>
     let (r1, w1) = StartBackgroundWriter w; (r2, w2) = StartCheckPointer w1 in
     se\<lparr>se_dirtyWriter := Some w2, se_flushing := (se_flushing se \<or> r1 = Inr ()),
       se_checkpointing := (se_checkpointing se \<or> r2 = Inr ())\<rparr>)"

definition Start :: "bool \<Rightarrow> Server \<Rightarrow> (server_error + unit) \<times> Server" where
  "Start can_listen se =
     (if se_running se then (Inl ErrServerAlreadyRunning, se)
      else if \<not> can_listen then (Inl ErrListen, se)
      else (Inr (), start_writers (se\<lparr>se_running := True, se_listening := True\<rparr>)))"

definition on_service :: "(Pool, 'a) prog \<Rightarrow> (Server, 'a) prog" where
  "on_service m se = (case on_db (on_pool m) (sv_engine (se_service se)) of
     (r, en) \<Rightarrow> (r, se\<lparr>se_service := (se_service se)\<lparr>sv_engine := en\<rparr>\<rparr>))"

text \<open>\<open>Stop\<close>: the timers are cancelled and, once the sessions have ended, everything is flushed; an error
  of the flush is logged only.\<close>

definition Stop :: "PageKey list \<Rightarrow> Server \<Rightarrow> Server" where
  "Stop order se =
     (if \<not> se_running se then se
      else snd (on_service (FlushAllPages order)
        (se\<lparr>se_running := False, se_flushing := False, se_checkpointing := False, se_listening := False\<rparr>)))"

text \<open>What the program does at start (\<open>cmd/server/main.go\<close>): pool, catalog, index manager, server.\<close>

definition server_main :: "int \<Rightarrow> string \<Rightarrow> Disk \<Rightarrow> Server result" where
  "server_main poolSize dataDir d =
     bind_result (NewHeapBufferPoolManager poolSize (Some (LRU NewLRUReplacer)) dataDir d) (\<lambda>pool.
     case NewDefaultCatalogManager dataDir pool of
       (Ok _, db) \<Rightarrow> Ok (NewServer dataDir db (NewIndexManager dataDir))
     | (Err e, _) \<Rightarrow> Err e
     | (Panic, _) \<Rightarrow> Panic)"

section \<open>The server as a machine\<close>

text \<open>
  What can happen to a server: it is started or stopped, a session runs a request, a timer that runs fires.
  Requests and ticks are whole steps; the interleaving of the pool operations inside them is the subject of
  \<open>pool_execution_safe\<close>. A request that panics ends the process and is no step.
\<close>

inductive server_step :: "(go_error \<Rightarrow> string) \<Rightarrow> Server \<Rightarrow> Server \<Rightarrow> bool" for error_text :: "go_error \<Rightarrow> string" where
  start: "Start can_listen se = (r, se') \<Longrightarrow> server_step error_text se se'"
| stop: "server_step error_text se (Stop order se)"
| request: "se_running se \<Longrightarrow> processRequest error_text order sessionID (Some rq) (se_service se) = Some (Ok response, sv)
    \<Longrightarrow> server_step error_text se (se\<lparr>se_service := sv\<rparr>)"
| flush_tick: "se_flushing se \<Longrightarrow> se_dirtyWriter se = Some w
    \<Longrightarrow> server_step error_text se (snd (on_service (\<lambda>b. (Ok (), flushBatch (dw_batchSize w) order b)) se))"
| checkpoint_tick: "se_checkpointing se \<Longrightarrow> server_step error_text se (snd (on_service (FlushAllPages order) se))"

inductive_cases server_stepE: "server_step error_text se se'"

end
