(* ===== verification/Cli.thy ===== *)
theory Cli
  imports Server
begin

text \<open>
  The terminal client of \<open>cmd/cli/main.go\<close> and the codec of \<open>internal/protocol/codec.go\<close>: splitting what is
  typed into statements, the loop that reads lines, sends statements and prints answers, and the layout of
  a result table. \<open>encoding/json\<close> and \<open>fmt.Sprint\<close> of a decoded value are parameters; the connection is a
  function that takes a line and gives the line that comes back.
\<close>

section \<open>Strings\<close>

text \<open>\<open>strings.TrimSpace\<close>. A space has at most three bytes in UTF-8.\<close>

function trim_left_space :: "nat list \<Rightarrow> nat list" where
  "trim_left_space bs = (case bs of [] \<Rightarrow> [] | _ \<Rightarrow> (case utf8_next bs of
     (Some r, rest) \<Rightarrow> if IsSpace r then trim_left_space rest else bs
   | (None, _) \<Rightarrow> bs))"
  by pat_completeness auto
termination by (relation "measure length") (auto dest!: sym [of "(_, _)"] dest: utf8_next_shrinks)

declare trim_left_space.simps [simp del]

definition ends_space :: "nat \<Rightarrow> nat list \<Rightarrow> bool" where
  "ends_space n bs \<longleftrightarrow> n \<le> length bs \<and> (case utf8_next (drop (length bs - n) bs) of
     (Some r, rest) \<Rightarrow> rest = [] \<and> IsSpace r | (None, _) \<Rightarrow> False)"

lemma ends_space_zero: "\<not> ends_space 0 bs"
  by (simp add: ends_space_def)

function trim_right_space :: "nat list \<Rightarrow> nat list" where
  "trim_right_space bs = (case find (\<lambda>n. ends_space n bs) [1, 2, 3] of
     None \<Rightarrow> bs | Some n \<Rightarrow> trim_right_space (take (length bs - n) bs))"
  by pat_completeness auto
termination by (relation "measure length") (auto simp: ends_space_def split: if_splits)

declare trim_right_space.simps [simp del]

definition TrimSpace :: "string \<Rightarrow> string" where
  "TrimSpace s = map char_of (trim_right_space (trim_left_space (map of_char s)))"

text \<open>\<open>strings.ToLower\<close>, as far as the comparison with an ASCII word shows it: besides the capital letters, the
  capital dotted I and the Kelvin sign have ASCII lower cases.\<close>

definition lower_rune :: "rune \<Rightarrow> rune" where
  "lower_rune r = (if 65 \<le> r \<and> r \<le> 90 then r + 32 else if r = 0x130 then 105 else if r = 0x212A then 107 else r)"

definition lower_is :: "string \<Rightarrow> string \<Rightarrow> bool" where
  "lower_is s word \<longleftrightarrow> map lower_rune (runes_of_string s) = ascii_runes word"

section \<open>Statements in the text\<close>

text \<open>The loop at position \<open>i\<close> of the text, with the start of the current statement and the statements found.\<close>

function split_loop :: "string \<Rightarrow> nat \<Rightarrow> nat \<Rightarrow> bool \<Rightarrow> string list \<Rightarrow> string list \<times> string" where
  "split_loop s i start inString out =
     (if length s \<le> i then (out, drop start s)
      else let c = s ! i in
        if c = CHR 0x27 then
          if inString \<and> i + 1 < length s \<and> s ! (i + 1) = CHR 0x27 then split_loop s (i + 2) start inString out
          else split_loop s (i + 1) start (\<not> inString) out
        else if c = CHR '';'' \<and> \<not> inString then
          let stmt = TrimSpace (take (i + 1 - start) (drop start s)) in
          split_loop s (i + 1) (i + 1) inString (if stmt \<noteq> [] then out @ [stmt] else out)
        else split_loop s (i + 1) start inString out)"
  by pat_completeness auto
termination by (relation "measure (\<lambda>(s, i, _). length s - i)") auto

declare split_loop.simps [simp del]

definition splitStatementsWithRemainder :: "string \<Rightarrow> string list \<times> string" where
  "splitStatementsWithRemainder s = (if s = [] then ([], []) else split_loop s 0 0 False [])"


section \<open>Result tables\<close>

definition padRight :: "string \<Rightarrow> nat \<Rightarrow> string" where
  "padRight s width = (if width \<le> length s then s else s @ replicate (width - length s) CHR '' '')"

definition buildSeparator :: "nat list \<Rightarrow> string" where
  "buildSeparator widths = ''+'' @ concat (map (\<lambda>w. replicate (w + 2) CHR ''-'' @ ''+'') widths)"

definition buildRow :: "string list \<Rightarrow> nat list \<Rightarrow> string" where
  "buildRow cells widths = ''|'' @ concat (map (\<lambda>(i, w).
     let cell = (if i < length cells \<and> cells ! i \<noteq> [] then cells ! i else ''null'') in
     '' '' @ padRight cell w @ '' '' @ ''|'') (enumerate 0 widths))"

text \<open>A decoded value is \<open>None\<close> for \<open>nil\<close>; \<open>sprint\<close> is \<open>fmt.Sprint\<close>.\<close>

definition cell_text :: "('v \<Rightarrow> string) \<Rightarrow> 'v option list \<Rightarrow> nat \<Rightarrow> string" where
  "cell_text sprint row i = (if i < length row then (case row ! i of Some v \<Rightarrow> sprint v | None \<Rightarrow> ''null'') else ''null'')"

definition table_widths :: "('v \<Rightarrow> string) \<Rightarrow> string list \<Rightarrow> 'v option list list \<Rightarrow> nat list" where
  "table_widths sprint columns rows =
     fold (\<lambda>row widths. map (\<lambda>(i, w). if length (cell_text sprint row i) > w then length (cell_text sprint row i) else w) (enumerate 0 widths))
       rows (map (\<lambda>col. if col = [] then 4 else length col) columns)"

text \<open>The printed lines.\<close>

definition printTable :: "('v \<Rightarrow> string) \<Rightarrow> string list \<Rightarrow> 'v option list list \<Rightarrow> string list" where
  "printTable sprint columns rows =
     (let widths = table_widths sprint columns rows; sep = buildSeparator widths in
      [sep, buildRow columns widths, sep]
      @ map (\<lambda>row. buildRow (map (cell_text sprint row) [0..<length columns]) widths) rows
      @ [sep, show_nat (length rows) @ '' row(s)''])"

section \<open>Answers\<close>

record 'v Reply =
  rp_Status :: string
  rp_Columns :: "string list"
  rp_Rows :: "'v option list list"
  rp_Affected :: int
  rp_Explain :: string
  rp_Error :: "ProtocolError option"

definition printResponse :: "('v \<Rightarrow> string) \<Rightarrow> 'v Reply option \<Rightarrow> string list" where
  "printResponse sprint reply = (case reply of None \<Rightarrow> [''(null response)''] | Some resp \<Rightarrow>
     if \<not> lower_is (rp_Status resp) ''ok'' then
       (case rp_Error resp of None \<Rightarrow> [''ERROR: unknown'']
        | Some err \<Rightarrow> let where_text = (case pe_Pos err of None \<Rightarrow> []
            | Some pos \<Rightarrow> '' at '' @ show_nat (ep_Line pos) @ '':'' @ show_nat (ep_Column pos)) in
          [''ERROR['' @ pe_Code err @ '']'' @ where_text @ '': '' @ pe_Message err])
     else (if rp_Explain resp \<noteq> [] then [rp_Explain resp] else [])
       @ (if rp_Columns resp \<noteq> [] \<and> rp_Rows resp \<noteq> [] then printTable sprint (rp_Columns resp) (rp_Rows resp)
          else if rp_Affected resp \<noteq> 0 then [''OK (affected='' @ show_int (rp_Affected resp) @ '')''] else [''OK'']))"

definition printHelp :: "string list" where
  "printHelp = [''Commands:'', CHR 0x20 # CHR 0x20 # CHR 0x5C # ''q | quit | exit   - exit'',
     CHR 0x20 # CHR 0x20 # CHR 0x5C # ''help              - help'', [], ''End SQL statements with '' @ [CHR 0x27, CHR '';'', CHR 0x27] @ ''.'']"

section \<open>The connection\<close>

text \<open>\<open>exchange\<close> writes a line and reads the line that is answered; \<open>new_id\<close> draws a request identifier.\<close>

definition sendQuery :: "('s, string) prog \<Rightarrow> (Request \<Rightarrow> string result) \<Rightarrow> (string \<Rightarrow> 'v Reply result)
    \<Rightarrow> (string \<Rightarrow> ('s, string) prog) \<Rightarrow> bool \<Rightarrow> string \<Rightarrow> ('s, 'v Reply) prog" where
  "sendQuery new_id marshal unmarshal exchange trace sql =
     seq new_id (\<lambda>requestID.
     seq (lift_result (marshal (NewRequest requestID sql trace))) (\<lambda>data.
     seq (exchange (data @ newline)) (\<lambda>respLine. lift_result (unmarshal respLine))))"

section \<open>The loop\<close>

text \<open>What is printed is a list of texts; \<open>fmt.Println\<close> ends a text with a new line.\<close>

record 's Client =
  cl_buf :: string
  cl_out :: "string list"
  cl_conn :: 's

definition put_text :: "string \<Rightarrow> ('s Client, unit) prog" where
  "put_text s c = (Ok (), c\<lparr>cl_out := cl_out c @ [s]\<rparr>)"

definition put_lines :: "string list \<Rightarrow> ('s Client, unit) prog" where
  "put_lines ls c = (Ok (), c\<lparr>cl_out := cl_out c @ map (\<lambda>l. l @ newline) ls\<rparr>)"

definition on_conn :: "('s, 'a) prog \<Rightarrow> ('s Client, 'a) prog" where
  "on_conn m c = (case m (cl_conn c) of (r, s) \<Rightarrow> (r, c\<lparr>cl_conn := s\<rparr>))"

definition show_prompt :: "('s Client, unit) prog" where
  "show_prompt c = put_text (if cl_buf c = [] then ''db> '' else ''   > '') c"

fun run_statements :: "(string \<Rightarrow> ('s, 'v Reply) prog) \<Rightarrow> ('v \<Rightarrow> string) \<Rightarrow> string list \<Rightarrow> ('s Client, unit) prog" where
  "run_statements send sprint [] = pure ()"
| "run_statements send sprint (sql # sqls) =
     (if TrimSpace sql = [] then run_statements send sprint sqls
      else seq (on_conn (send sql)) (\<lambda>resp. seq (put_lines (printResponse sprint (Some resp)))
        (\<lambda>_. run_statements send sprint sqls)))"

definition quit_command :: "string \<Rightarrow> bool" where
  "quit_command line = (let trimmed = TrimSpace line in
     lower_is trimmed (CHR 0x5C # ''q'') \<or> lower_is trimmed ''quit'' \<or> lower_is trimmed ''exit'')"

definition help_command :: "string \<Rightarrow> bool" where
  "help_command line = lower_is (TrimSpace line) (CHR 0x5C # ''help'')"

text \<open>The lines that standard input delivers, each with its new line, then the end or a read error.\<close>

fun repl :: "(string \<Rightarrow> ('s, 'v Reply) prog) \<Rightarrow> ('v \<Rightarrow> string) \<Rightarrow> go_error option \<Rightarrow> string list \<Rightarrow> ('s Client, unit) prog" where
  "repl send sprint stop [] = seq show_prompt (\<lambda>_. case stop of None \<Rightarrow> put_lines [[]] | Some e \<Rightarrow> lift_result (Err e))"
| "repl send sprint stop (ln # lns) = seq show_prompt (\<lambda>_ c.
     if cl_buf c = [] \<and> quit_command ln then (Ok (), c)
     else if cl_buf c = [] \<and> help_command ln then seq (put_lines printHelp) (\<lambda>_. repl send sprint stop lns) c
     else let c = c\<lparr>cl_buf := cl_buf c @ ln\<rparr>; (statements, remainder) = splitStatementsWithRemainder (cl_buf c) in
       if statements = [] then repl send sprint stop lns c
       else seq (run_statements send sprint statements) (\<lambda>_ c. repl send sprint stop lns (c\<lparr>cl_buf := remainder\<rparr>)) c)"

text \<open>\<open>main\<close> after the connection was made.\<close>

definition cli_main :: "string \<Rightarrow> (string \<Rightarrow> ('s, 'v Reply) prog) \<Rightarrow> ('v \<Rightarrow> string) \<Rightarrow> go_error option \<Rightarrow> string list \<Rightarrow> 's
    \<Rightarrow> unit result \<times> 's Client" where
  "cli_main addr send sprint stop lns conn =
     repl send sprint stop lns
       \<lparr>cl_buf = [], cl_out = [''Connected to '' @ addr @ ''. End SQL statements with '' @ [CHR 0x27, CHR '';'', CHR 0x27] @ ''. Type ''
          @ [CHR 0x5C] @ ''help for help, '' @ [CHR 0x5C] @ ''q to quit.'' @ newline], cl_conn = conn\<rparr>"


section \<open>Cutting a text into statements\<close>

text \<open>
  The loop is a scan with the current statement and a flag that every quote flips: skipping a doubled quote
  inside a string and flipping the flag twice are the same.
\<close>

fun scan_text :: "bool \<Rightarrow> string \<Rightarrow> string \<Rightarrow> string list \<times> string \<times> bool" where
  "scan_text q cur [] = ([], cur, q)"
| "scan_text q cur (c # cs) =
     (if c = CHR '';'' \<and> \<not> q then (case scan_text False [] cs of (out, r) \<Rightarrow> (TrimSpace (cur @ [c]) # out, r))
      else scan_text (if c = CHR 0x27 then \<not> q else q) (cur @ [c]) cs)"

lemma scan_text_append:
  "scan_text q cur (a @ b) = (case scan_text q cur a of (out, cur1, q1) \<Rightarrow>
     case scan_text q1 cur1 b of (out', r) \<Rightarrow> (out @ out', r))"
  by (induction q cur a rule: scan_text.induct) (auto split: prod.splits)

lemma scan_text_again:
  assumes "scan_text False [] cur = ([], cur, q)" and "scan_text q cur s = (out, cur1, q1)"
  shows "scan_text False [] cur1 = ([], cur1, q1)"
  using assms
proof (induction s arbitrary: cur q out)
  case (Cons c cs)
  show ?case
  proof (cases "c = CHR '';'' \<and> \<not> q")
    case True
    then show ?thesis using Cons.prems(2) Cons.IH [of "[]" False] by (auto split: prod.splits)
  next
    case False
    then have "scan_text False [] (cur @ [c]) = ([], cur @ [c], if c = CHR 0x27 then \<not> q else q)"
      using Cons.prems(1) by (simp add: scan_text_append)
    then show ?thesis using Cons.IH Cons.prems(2) False by simp
  qed
qed simp

lemma utf8_next_last:
  assumes "utf8_next bs = (Some r, rest)" and "bs \<noteq> []" and "last bs = b" and "b < 128"
  shows "if rest = [] then r = b else last rest = b"
  using assms by (cases bs) (auto simp: utf8_next.simps cont_def second_ok_def split: if_splits list.splits)

lemma trim_right_ascii:
  assumes "b < 128"
  shows "trim_right_space (bs @ [b]) = (if IsSpace b then trim_right_space bs else bs @ [b])"
proof (cases "IsSpace b")
  case True
  then have "ends_space 1 (bs @ [b])" using assms by (simp add: ends_space_def utf8_next.simps)
  then show ?thesis using True by (subst trim_right_space.simps) simp
next
  case False
  have "\<not> ends_space n (bs @ [b])" for n
  proof
    assume a: "ends_space n (bs @ [b])"
    let ?d = "drop (length (bs @ [b]) - n) (bs @ [b])"
    obtain r where r: "utf8_next ?d = (Some r, [])" "IsSpace r" using a by (auto simp: ends_space_def split: option.splits)
    then have "?d \<noteq> []" by (metis option.distinct(1) prod.inject utf8_next.simps(1))
    moreover from this have "last ?d = last (bs @ [b])" by (intro last_drop) (meson drop_eq_Nil not_le)
    ultimately show False using utf8_next_last [OF r(1) _ _ assms] r(2) False by (simp del: drop_append)
  qed
  then show ?thesis using False by (simp add: trim_right_space.simps)
qed

lemma not_space_semicolon: "\<not> IsSpace 59"
  by (simp add: IsSpace_def)

lemma trim_left_semicolon: "bs \<noteq> [] \<Longrightarrow> last bs = 59 \<Longrightarrow> trim_left_space bs \<noteq> [] \<and> last (trim_left_space bs) = 59"
proof (induction bs rule: trim_left_space.induct)
  case (1 bs)
  obtain x rest where x: "utf8_next bs = (x, rest)" by force
  show ?case
  proof (cases "\<exists>r. x = Some r \<and> IsSpace r")
    case True
    then obtain r where r: "x = Some r" "IsSpace r" by blast
    then have "rest \<noteq> [] \<and> last rest = 59" using utf8_next_last [of bs r rest 59] x "1.prems" not_space_semicolon by (auto split: if_splits)
    moreover have "trim_left_space bs = trim_left_space rest"
      using x r "1.prems"(1) by (subst trim_left_space.simps) (cases bs, simp_all)
    ultimately show ?thesis using "1.IH" [OF _ _ _ r(2)] x r "1.prems"(1) by (cases bs) auto
  next
    case False
    then have "trim_left_space bs = bs" using x by (auto simp: trim_left_space.simps [of bs] split: list.splits option.splits)
    then show ?thesis using "1.prems" by simp
  qed
qed

lemma TrimSpace_semicolon: "\<exists>t. TrimSpace (s @ '';'') = t @ '';''"
proof -
  have "last (map of_char (s @ '';'')) = (59 :: nat)" by simp
  then obtain bs where "trim_left_space (map of_char (s @ '';'')) = bs @ [59]"
    using trim_left_semicolon [of "map of_char (s @ '';'')"] by (metis append_butlast_last_id list.map_disc_iff snoc_eq_iff_butlast)
  moreover have "char_of (59 :: nat) = CHR '';''" by code_simp
  ultimately show ?thesis by (simp add: TrimSpace_def trim_right_ascii not_space_semicolon)
qed

lemma TrimSpace_not_blank: "TrimSpace (s @ '';'') \<noteq> []"
  using TrimSpace_semicolon [of s] by auto

lemma trim_left_ascii:
  "b < 128 \<Longrightarrow> trim_left_space (b # bs) = (if IsSpace b then trim_left_space bs else b # bs)"
  by (subst trim_left_space.simps) (simp add: utf8_next.simps)

lemma TrimSpace_lead: "of_char c < (128 :: nat) \<Longrightarrow> IsSpace (of_char c) \<Longrightarrow> TrimSpace (c # s) = TrimSpace s"
  by (simp add: TrimSpace_def trim_left_ascii)

lemma TrimSpace_body:
  assumes "of_char c < (128 :: nat)" and "\<not> IsSpace (of_char c)" and "of_char d < (128 :: nat)" and "\<not> IsSpace (of_char d)"
  shows "TrimSpace (c # s @ [d]) = c # s @ [d]" and "TrimSpace (c # s @ [d] @ newline) = c # s @ [d]"
proof -
  have l: "trim_left_space (map of_char (c # t)) = of_char c # map of_char t" for t
    using assms(1,2) by (simp add: trim_left_ascii)
  have r: "trim_right_space (of_char c # map of_char (s @ [d])) = of_char c # map of_char (s @ [d])"
    using trim_right_ascii [OF assms(3), of "of_char c # map of_char s"] assms(4) by simp
  then show "TrimSpace (c # s @ [d]) = c # s @ [d]" unfolding TrimSpace_def l r by (simp add: o_def)
  have "trim_right_space (of_char c # map of_char (s @ [d] @ newline)) = trim_right_space (of_char c # map of_char (s @ [d]))"
    using trim_right_ascii [of 10 "of_char c # map of_char (s @ [d])"] by (simp add: newline_def IsSpace_def)
  then show "TrimSpace (c # s @ [d] @ newline) = c # s @ [d]" unfolding TrimSpace_def l r by (simp add: o_def)
qed

lemma split_loop_scan:
  assumes "start \<le> i" and "i \<le> length s"
  shows "split_loop s i start q out = (case scan_text q (take (i - start) (drop start s)) (drop i s) of (out', r, _) \<Rightarrow> (out @ out', r))"
  using assms
proof (induction s i start q out rule: split_loop.induct)
  case (1 s i start q out)
  show ?case
  proof (cases "length s \<le> i")
    case True
    then show ?thesis using "1.prems" by (simp add: split_loop.simps)
  next
    case False
    note cut = split_loop.simps [of s i start q out]
    have d: "drop i s = s ! i # drop (i + 1) s" using False by (simp add: Cons_nth_drop_Suc)
    have t: "take (i + 1 - start) (drop start s) = take (i - start) (drop start s) @ [s ! i]"
      using False "1.prems"(1) by (simp add: Suc_diff_le take_Suc_conv_app_nth)
    consider (pair) "s ! i = CHR 0x27" "q" "i + 1 < length s" "s ! (i + 1) = CHR 0x27"
      | (quote) "s ! i = CHR 0x27" "\<not> (q \<and> i + 1 < length s \<and> s ! (i + 1) = CHR 0x27)"
      | (cut) "s ! i = CHR '';''" "\<not> q"
      | (other) "s ! i \<noteq> CHR 0x27" "\<not> (s ! i = CHR '';'' \<and> \<not> q)"
      by blast
    then show ?thesis
    proof cases
      case pair
      have d2: "drop (i + 1) s = s ! (i + 1) # drop (i + 2) s"
        using Cons_nth_drop_Suc [OF pair(3)] by simp
      have t2: "take (i + 2 - start) (drop start s) = take (i - start) (drop start s) @ [s ! i, s ! (i + 1)]"
        using t pair "1.prems"(1) take_Suc_conv_app_nth [of "i + 1 - start" "drop start s"] by (simp add: Suc_diff_le numeral_2_eq_2)
      show ?thesis
        using "1.IH"(1) [OF False refl] pair "1.prems" unfolding cut d d2 t2 by (simp add: Let_def)
    next
      case quote
      then show ?thesis using "1.IH"(2) [OF False refl] "1.prems" False unfolding cut d t by (auto simp: Let_def)
    next
      case cut
      then show ?thesis using "1.IH"(3) [OF False refl _ _ refl] "1.prems" False TrimSpace_not_blank
        unfolding split_loop.simps [of s i start q out] d t by (auto split: prod.splits)
    next
      case other
      then show ?thesis using "1.IH"(4) [OF False refl] "1.prems" False unfolding cut d t by (auto simp: Let_def)
    qed
  qed
qed

lemma split_scan: "splitStatementsWithRemainder s = (case scan_text False [] s of (out, r, _) \<Rightarrow> (out, r))"
  using split_loop_scan [of 0 0 s False "[]"] by (simp add: splitStatementsWithRemainder_def)

lemma split_append:
  "splitStatementsWithRemainder (a @ b) = (case splitStatementsWithRemainder a of (out, r) \<Rightarrow>
     case splitStatementsWithRemainder (r @ b) of (out', r') \<Rightarrow> (out @ out', r'))"
proof -
  obtain out cur q where a: "scan_text False [] a = (out, cur, q)" by (metis prod_cases3)
  then show ?thesis using scan_text_again [OF _ a] by (simp add: split_scan scan_text_append split: prod.splits)
qed


text \<open>What is left over holds no complete statement, and nothing is left over but after a line without end.\<close>

lemma split_rest:
  assumes "splitStatementsWithRemainder s = (out, r)"
  shows "splitStatementsWithRemainder r = ([], r)" and "r = [] \<Longrightarrow> s \<noteq> [] \<Longrightarrow> last s = CHR '';''"
proof -
  obtain q where a: "scan_text False [] s = (out, r, q)" using assms by (auto simp: split_scan split: prod.splits)
  show "splitStatementsWithRemainder r = ([], r)" using scan_text_again [OF _ a] by (simp add: split_scan)
  have "r = [] \<Longrightarrow> s \<noteq> [] \<Longrightarrow> last s = CHR '';''" if "scan_text q0 cur s = (out, r, q)" "s \<noteq> [] \<or> cur = []" for q0 cur
    using that
  proof (induction q0 cur s arbitrary: out rule: scan_text.induct)
    case (2 q0 cur c cs)
    then show ?case by (cases cs) (auto split: if_splits prod.splits)
  qed simp
  from this [OF a] show "r = [] \<Longrightarrow> s \<noteq> [] \<Longrightarrow> last s = CHR '';''" by blast
qed

section \<open>What the loop sends\<close>

text \<open>A connection that records what is sent.\<close>

definition record_send :: "'v Reply \<Rightarrow> string \<Rightarrow> (string list, 'v Reply) prog" where
  "record_send reply sql log = (Ok reply, log @ [sql])"

lemma run_statements_sends:
  "\<exists>out. run_statements (record_send reply) sprint sqls c
     = (Ok (), c\<lparr>cl_out := out, cl_conn := cl_conn c @ filter (\<lambda>s. TrimSpace s \<noteq> []) sqls\<rparr>)"
proof (induction sqls arbitrary: c)
  case Nil
  show ?case by (auto simp: pure_def intro: exI [of _ "cl_out c"])
next
  case (Cons sql sqls)
  let ?c = "c\<lparr>cl_conn := cl_conn c @ [sql], cl_out := cl_out c @ map (\<lambda>l. l @ newline) (printResponse sprint (Some reply))\<rparr>"
  from Cons.IH [of c] Cons.IH [of ?c] show ?case by (auto simp: seq_def on_conn_def record_send_def put_lines_def)
qed

lemma split_statements_end: "sql \<in> set (fst (splitStatementsWithRemainder s)) \<Longrightarrow> \<exists>t. sql = t @ '';''"
proof -
  have "sql \<in> set out \<Longrightarrow> \<exists>t. sql = t @ '';''" if "scan_text q cur s = (out, r)" for q cur out r
    using that TrimSpace_semicolon
    by (induction q cur s arbitrary: out r rule: scan_text.induct) (force split: if_splits prod.splits)+
  then show "sql \<in> set (fst (splitStatementsWithRemainder s)) \<Longrightarrow> \<exists>t. sql = t @ '';''"
    by (fastforce simp: split_scan split: prod.splits)
qed

lemma split_none:
  assumes "splitStatementsWithRemainder s = ([], r)"
  shows "r = s"
proof -
  have "r = cur @ s" if "scan_text q cur s = ([], r, q')" for q cur q'
    using that by (induction q cur s arbitrary: rule: scan_text.induct) (auto split: if_splits prod.splits)
  from this [of False "[]"] show ?thesis using assms by (auto simp: split_scan split: prod.splits)
qed

lemma repl_line:
  assumes "cl_buf c \<noteq> [] \<or> \<not> quit_command ln \<and> \<not> help_command ln"
    and s: "splitStatementsWithRemainder (cl_buf c @ ln) = (out, r)"
  obtains c' where "\<And>lns. repl (record_send reply) sprint None (ln # lns) c = repl (record_send reply) sprint None lns c'"
    and "cl_buf c' = r" and "cl_conn c' = cl_conn c @ out"
proof -
  let ?c = "c\<lparr>cl_out := cl_out c @ [if cl_buf c = [] then ''db> '' else ''   > ''], cl_buf := cl_buf c @ ln\<rparr>"
  have "filter (\<lambda>s. TrimSpace s \<noteq> []) out = out"
    using split_statements_end [of _ "cl_buf c @ ln"] s TrimSpace_not_blank by (fastforce intro: filter_True)
  then obtain o2 where run: "run_statements (record_send reply) sprint out ?c = (Ok (), ?c\<lparr>cl_out := o2, cl_conn := cl_conn c @ out\<rparr>)"
    using run_statements_sends [of reply sprint out ?c] by auto
  have step: "repl (record_send reply) sprint None (ln # lns) c = (if out = [] then repl (record_send reply) sprint None lns ?c
      else repl (record_send reply) sprint None lns (?c\<lparr>cl_out := o2, cl_conn := cl_conn c @ out, cl_buf := r\<rparr>))" for lns
    using assms run by (auto simp: seq_def show_prompt_def put_text_def)
  show thesis
  proof (cases "out = []")
    case True
    then have "r = cl_buf c @ ln" using split_none s by blast
    then show thesis using that [of ?c] step True by simp
  next
    case False
    then show thesis using that step by simp
  qed
qed

lemma split_more:
  assumes "splitStatementsWithRemainder s = (out, r)"
  shows "fst (splitStatementsWithRemainder (s @ t)) = out @ fst (splitStatementsWithRemainder (r @ t))"
  using split_append [of s t] assms by (simp split: prod.splits)

lemma repl_busy:
  assumes "\<forall>ln \<in> set lns. \<exists>t. ln = t @ newline" and "cl_buf c \<noteq> []" and "splitStatementsWithRemainder (cl_buf c) = ([], cl_buf c)"
  shows "\<exists>c'. repl (record_send reply) sprint None lns c = (Ok (), c')
    \<and> cl_conn c' = cl_conn c @ fst (splitStatementsWithRemainder (cl_buf c @ concat lns))"
  using assms
proof (induction lns arbitrary: c)
  case Nil
  then show ?case by (simp add: seq_def show_prompt_def put_text_def put_lines_def)
next
  case (Cons ln lns)
  obtain out r where s: "splitStatementsWithRemainder (cl_buf c @ ln) = (out, r)" by force
  have r: "r \<noteq> []" using split_rest(2) [OF s] Cons.prems(1) by (auto simp: newline_def)
  obtain c' where c': "\<And>lns. repl (record_send reply) sprint None (ln # lns) c = repl (record_send reply) sprint None lns c'"
      "cl_buf c' = r" "cl_conn c' = cl_conn c @ out"
    using repl_line [OF _ s] Cons.prems(2) by blast
  show ?case
    using Cons.IH [of c'] Cons.prems(1) r split_rest(1) [OF s] split_more [OF s, of "concat lns"] unfolding c'(1) c'(2,3) by simp
qed

lemma repl_sends:
  assumes "\<forall>l \<in> set (ln # lns). \<exists>t. l = t @ newline" and "\<not> quit_command ln" and "\<not> help_command ln"
  shows "\<exists>c. repl (record_send reply) sprint None (ln # lns) \<lparr>cl_buf = [], cl_out = out, cl_conn = []\<rparr> = (Ok (), c)
    \<and> cl_conn c = fst (splitStatementsWithRemainder (concat (ln # lns)))"
proof -
  let ?c = "\<lparr>cl_buf = [], cl_out = out, cl_conn = [] :: string list\<rparr>"
  obtain sqls r where s: "splitStatementsWithRemainder (cl_buf ?c @ ln) = (sqls, r)" by force
  have r: "r \<noteq> []" using split_rest(2) [OF s] assms(1) by (auto simp: newline_def)
  obtain c' where c': "\<And>lns. repl (record_send reply) sprint None (ln # lns) ?c = repl (record_send reply) sprint None lns c'"
      "cl_buf c' = r" "cl_conn c' = cl_conn ?c @ sqls"
    using repl_line [OF _ s] assms(2,3) by blast
  show ?thesis
    using repl_busy [of lns c' reply sprint] assms(1) r split_rest(1) [OF s] split_more [OF s, of "concat lns"] unfolding c' by simp
qed

section \<open>The layout of a table\<close>

text \<open>A column of width \<open>w\<close> takes \<open>w + 3\<close> characters; \<open>column_start\<close> is where the bar before it stands.\<close>

definition column_start :: "nat list \<Rightarrow> nat \<Rightarrow> nat" where
  "column_start widths i = sum_list (map (\<lambda>w. w + 3) (take i widths))"

lemma column_start_Suc: "i < length ws \<Longrightarrow> column_start ws (Suc i) = column_start ws i + (ws ! i + 3)"
  by (simp add: column_start_def take_Suc_conv_app_nth)

lemma blocks_at:
  assumes len: "\<And>i. i < length ws \<Longrightarrow> length (f i (ws ! i)) = ws ! i + 3"
  defines "C \<equiv> concat (map (\<lambda>(i, w). f i w) (enumerate 0 ws))"
  shows "i \<le> length ws \<Longrightarrow> length (concat (map (\<lambda>(i, w). f i w) (take i (enumerate 0 ws)))) = column_start ws i"
    and "length C = column_start ws (length ws)"
    and "i < length ws \<Longrightarrow> take (ws ! i + 3) (drop (column_start ws i) C) = f i (ws ! i)"
proof -
  let ?g = "\<lambda>(i, w). f i w" and ?E = "enumerate 0 ws"
  show a: "i \<le> length ws \<Longrightarrow> length (concat (map ?g (take i ?E))) = column_start ws i" for i
  proof (induction i)
    case 0
    show ?case by (simp add: column_start_def)
  next
    case (Suc i)
    then show ?case using len by (simp add: take_Suc_conv_app_nth nth_enumerate_eq column_start_Suc)
  qed
  from this [of "length ws"] show "length C = column_start ws (length ws)" by (simp add: C_def)
  assume i: "i < length ws"
  then have "?E = take i ?E @ (i, ws ! i) # drop (Suc i) ?E"
    using id_take_nth_drop [of i ?E] by (simp add: nth_enumerate_eq)
  then have "C = concat (map ?g (take i ?E)) @ f i (ws ! i) @ concat (map ?g (drop (Suc i) ?E))"
    unfolding C_def by (metis (no_types, lifting) case_prod_conv concat.simps(2) concat_append list.simps(9) map_append)
  then show "take (ws ! i + 3) (drop (column_start ws i) C) = f i (ws ! i)"
    using a [of i] i len [OF i] by simp
qed

text \<open>What \<open>buildRow\<close> shows of a cell.\<close>

definition shown :: "string list \<Rightarrow> nat \<Rightarrow> string" where
  "shown cells i = (if i < length cells \<and> cells ! i \<noteq> [] then cells ! i else ''null'')"

definition aligned :: "nat list \<Rightarrow> string \<Rightarrow> bool" where
  "aligned ws ln \<longleftrightarrow> length ln = column_start ws (length ws) + 1 \<and> (\<forall>i \<le> length ws. ln ! column_start ws i \<in> {CHR ''|'', CHR ''+''})"

lemma blocks_aligned:
  assumes len: "\<And>i. i < length ws \<Longrightarrow> length (f i (ws ! i)) = ws ! i + 3"
    and bar: "\<And>i. i < length ws \<Longrightarrow> last (f i (ws ! i)) = b" and b: "b \<in> {CHR ''|'', CHR ''+''}"
  shows "aligned ws (b # concat (map (\<lambda>(i, w). f i w) (enumerate 0 ws)))"
proof -
  let ?C = "concat (map (\<lambda>(i, w). f i w) (enumerate 0 ws))"
  have at2: "length ?C = column_start ws (length ws)" by (rule blocks_at(2)) (rule len)
  have at3: "take (ws ! j + 3) (drop (column_start ws j) ?C) = f j (ws ! j)" if "j < length ws" for j
    using len that by (rule blocks_at(3))
  have "(b # ?C) ! column_start ws i = b" if "i \<le> length ws" for i
  proof (cases i)
    case 0
    then show ?thesis by (simp add: column_start_def)
  next
    case (Suc j)
    then have j: "j < length ws" using that by simp
    have "(b # ?C) ! column_start ws i = ?C ! (column_start ws j + (ws ! j + 2))"
      using Suc j by (simp add: column_start_Suc)
    also have "\<dots> = take (ws ! j + 3) (drop (column_start ws j) ?C) ! (ws ! j + 2)"
    proof -
      have "length (take (ws ! j + 3) (drop (column_start ws j) ?C)) = ws ! j + 3" using at3 [OF j] len [OF j] by simp
      then show ?thesis by simp
    qed
    also have "\<dots> = b"
    proof -
      have "f j (ws ! j) \<noteq> []" using len [OF j] by auto
      then have "f j (ws ! j) ! (ws ! j + 2) = last (f j (ws ! j))" using len [OF j] by (simp add: last_conv_nth)
      then show ?thesis using bar [OF j] unfolding at3 [OF j] by simp
    qed
    finally show ?thesis .
  qed
  then show ?thesis using at2 b by (simp add: aligned_def)
qed


lemma map_enumerate_snd: "map (\<lambda>(i, w). g w) (enumerate n ws) = map g ws"
  by (induction ws arbitrary: n) simp_all

lemma buildSeparator_aligned: "aligned ws (buildSeparator ws)"
proof -
  have "buildSeparator ws = CHR ''+'' # concat (map (\<lambda>(i, w). replicate (w + 2) CHR ''-'' @ ''+'') (enumerate 0 ws))"
    unfolding buildSeparator_def map_enumerate_snd by simp
  then show ?thesis using blocks_aligned [of ws "\<lambda>i w. replicate (w + 2) CHR ''-'' @ ''+''" "CHR ''+''"] by simp
qed

lemma buildRow_aligned:
  assumes "\<And>i. i < length ws \<Longrightarrow> length (shown cells i) \<le> ws ! i"
  shows "aligned ws (buildRow cells ws)"
    and "i < length ws \<Longrightarrow> take (length (shown cells i)) (drop (column_start ws i + 2) (buildRow cells ws)) = shown cells i"
proof -
  let ?f = "\<lambda>i w. '' '' @ padRight (shown cells i) w @ '' |''"
  have e: "buildRow cells ws = CHR ''|'' # concat (map (\<lambda>(i, w). ?f i w) (enumerate 0 ws))"
    by (simp add: buildRow_def shown_def Let_def)
  have len: "length (?f i (ws ! i)) = ws ! i + 3" if "i < length ws" for i
    using assms [OF that] by (simp add: padRight_def)
  show "aligned ws (buildRow cells ws)"
    unfolding e by (rule blocks_aligned) (use len in simp_all)
  assume i: "i < length ws"
  have "take (ws ! i + 3) (drop (column_start ws i) (concat (map (\<lambda>(i, w). ?f i w) (enumerate 0 ws)))) = ?f i (ws ! i)"
    using len i by (rule blocks_at(3))
  then have "take (length (shown cells i)) (drop 1 (take (ws ! i + 3) (drop (column_start ws i) (concat (map (\<lambda>(i, w). ?f i w) (enumerate 0 ws))))))
      = shown cells i"
    by (simp add: padRight_def)
  then show "take (length (shown cells i)) (drop (column_start ws i + 2) (buildRow cells ws)) = shown cells i"
    using assms [OF i] unfolding e by (simp add: take_drop min_def add.commute split: if_splits)
qed


lemma table_widths_ok:
  "length (table_widths sprint columns rows) = length columns"
  "i < length columns \<Longrightarrow> length (shown columns i) \<le> table_widths sprint columns rows ! i"
  "i < length columns \<Longrightarrow> row \<in> set rows \<Longrightarrow> length (cell_text sprint row i) \<le> table_widths sprint columns rows ! i"
proof -
  define step :: "'a option list \<Rightarrow> nat list \<Rightarrow> nat list" where
    "step row ws = map (\<lambda>(i, w). if length (cell_text sprint row i) > w then length (cell_text sprint row i) else w) (enumerate 0 ws)" for row ws
  have len: "length (fold step rows ws) = length ws" for rows ws
    by (induction rows arbitrary: ws) (simp_all add: step_def)
  have step: "step row ws ! i = max (ws ! i) (length (cell_text sprint row i))" if "i < length ws" for row ws i
    using that by (simp add: step_def nth_enumerate_eq)
  have ge: "ws ! i \<le> fold step rows ws ! i" if "i < length ws" for rows ws i
    using that
  proof (induction rows arbitrary: ws)
    case (Cons row rows)
    then show ?case using Cons.IH [of "step row ws"] step [of i ws row] by (simp add: step_def)
  qed simp
  have cells: "length (cell_text sprint row i) \<le> fold step rows ws ! i" if "i < length ws" "row \<in> set rows" for rows ws i row
    using that
  proof (induction rows arbitrary: ws)
    case (Cons r rows)
    have l: "length (step r ws) = length ws" by (simp add: step_def)
    show ?case
    proof (cases "row = r")
      case True
      then show ?thesis using ge [of i "step r ws" rows] step [of i ws r] Cons.prems(1) l by simp
    next
      case False
      then show ?thesis using Cons l by simp
    qed
  qed simp
  have w: "table_widths sprint columns rows = fold step rows (map (\<lambda>col. if col = [] then 4 else length col) columns)"
    by (simp add: table_widths_def step_def [abs_def])
  show "length (table_widths sprint columns rows) = length columns" by (simp add: w len)
  show "i < length columns \<Longrightarrow> length (shown columns i) \<le> table_widths sprint columns rows ! i"
    using ge [of i "map (\<lambda>col. if col = [] then 4 else length col) columns" rows] by (auto simp: w shown_def split: if_splits)
  show "i < length columns \<Longrightarrow> row \<in> set rows \<Longrightarrow> length (cell_text sprint row i) \<le> table_widths sprint columns rows ! i"
    using cells [of i "map (\<lambda>col. if col = [] then 4 else length col) columns" row rows] by (simp add: w)
qed

section \<open>Typed statements\<close>

lemma scan_plain: "\<forall>c \<in> set s. c \<noteq> CHR 0x27 \<and> (c = CHR '';'' \<longrightarrow> q) \<Longrightarrow> scan_text q cur s = ([], cur @ s, q)"
  by (induction s arbitrary: cur) auto

lemma string_of_runes_Cons: "string_of_runes (r # rs) = map char_of (encode_rune r) @ string_of_runes rs"
  by (simp add: string_of_runes_def)

lemma encode_scalar_high: "n \<in> set (encode_scalar r) \<Longrightarrow> n = r \<or> 128 \<le> n"
  by (auto simp: encode_scalar_def split: if_splits)

lemma char_of_quote: "n < 256 \<Longrightarrow> char_of n = CHR 0x27 \<longleftrightarrow> n = (39 :: nat)"
proof -
  assume n: "n < 256"
  have "of_char (CHR 0x27) = (39 :: nat)" by simp
  then show ?thesis using n by (metis char_of_char mod_less of_char_of)
qed

lemma scan_quoted:
  assumes "\<forall>r \<in> set rs. scalar r"
  shows "scan_text True cur (string_of_runes (quote_runes rs)) = ([], cur @ string_of_runes (quote_runes rs), True)"
  using assms
proof (induction rs arbitrary: cur)
  case Nil
  show ?case by (simp add: string_of_runes_def)
next
  case (Cons r rs)
  show ?case
  proof (cases "r = 39")
    case True
    have "map char_of (encode_rune 39) = [CHR 0x27]" by (simp add: encode_rune_def encode_scalar_def scalar_def) code_simp
    then show ?thesis using Cons True by (simp add: string_of_runes_Cons)
  next
    case False
    have "\<forall>c \<in> set (map char_of (encode_rune r)). c \<noteq> CHR 0x27"
      using False Cons.prems encode_scalar_high [of 39 r] encode_scalar_byte [of r] by (auto simp: char_of_quote)
    then show ?thesis using Cons False by (simp add: string_of_runes_Cons scan_text_append scan_plain)
  qed
qed

definition quiet :: "lexeme \<Rightarrow> bool" where
  "quiet l \<longleftrightarrow> wf_lexeme l \<and> fst l \<noteq> TK_SEMICOLON"

lemma quiet_text:
  assumes "quiet (ty, tx)" and "ty \<noteq> TK_STRING"
  shows "\<forall>r \<in> set (text_runes tx). r < 128 \<and> r \<noteq> 39 \<and> r \<noteq> 59" and "\<exists>r rs. text_runes tx = r # rs \<and> 32 < r"
proof -
  consider "wf_word (text_runes tx)" | "wf_number (text_runes tx)" | "(ty, tx) \<in> set punctuation"
    using assms by (auto simp: quiet_def split: if_splits)
  then have "(\<forall>r \<in> set (text_runes tx). r < 128 \<and> r \<noteq> 39 \<and> r \<noteq> 59) \<and> (\<exists>r rs. text_runes tx = r # rs \<and> 32 < r)"
  proof cases
    case 1
    then show ?thesis
      using wf_word_ascii [OF 1] by (cases "text_runes tx") (auto simp: list_all_iff isIdentPart_def isIdentStart_def isDigit_def)
  next
    case 2
    then show ?thesis
      by (cases "text_runes tx") (auto simp: list_all_iff isDigit_def split: if_splits)
  next
    case 3
    then show ?thesis using assms(1) by (auto simp: quiet_def punctuation_def text_runes_def)
  qed
  then show "\<forall>r \<in> set (text_runes tx). r < 128 \<and> r \<noteq> 39 \<and> r \<noteq> 59" "\<exists>r rs. text_runes tx = r # rs \<and> 32 < r"
    by blast+
qed

lemma scan_lexeme:
  assumes "quiet l"
  shows "scan_text False cur (string_of_runes (print_lexeme l @ [32])) = ([], cur @ string_of_runes (print_lexeme l @ [32]), False)"
proof -
  obtain ty tx where l: "l = (ty, tx)" by (cases l)
  have ascii: "string_of_runes [39] = [CHR 0x27]" "string_of_runes [32] = '' ''"
    by (simp_all add: string_of_ascii_runes) code_simp+
  show ?thesis
  proof (cases "ty = TK_STRING")
    case True
    have "scalar r" if "r \<in> set (runes_of_string tx)" for r using that by (rule runes_of_string_scalar)
    then have q: "scan_text True cur' (string_of_runes (quote_runes (runes_of_string tx)))
        = ([], cur' @ string_of_runes (quote_runes (runes_of_string tx)), True)" for cur'
      by (intro scan_quoted) blast
    have p: "string_of_runes (print_lexeme l @ [32]) = CHR 0x27 # string_of_runes (quote_runes (runes_of_string tx)) @ [CHR 0x27, CHR '' '']"
      using l True ascii string_of_runes_append [of "[39]"] string_of_runes_append [of _ "[39, 32]"] string_of_runes_append [of "[39]" "[32]"] by simp
    show ?thesis unfolding p by (simp add: scan_text_append q)
  next
    case False
    note t = quiet_text [OF assms [unfolded l] False]
    have "string_of_runes (print_lexeme l @ [32]) = tx @ '' ''"
      using l False t(1) string_of_text_runes [of tx] ascii string_of_runes_append [of "text_runes tx" "[32]"] by simp
    moreover have "\<forall>c \<in> set (tx @ '' ''). c \<noteq> CHR 0x27 \<and> c \<noteq> CHR '';''"
      using t(1) by (auto simp: text_runes_def)
    ultimately show ?thesis using scan_plain [of "tx @ '' ''" False cur] by simp
  qed
qed

lemma scan_lexemes:
  "list_all quiet ls \<Longrightarrow> scan_text False cur (print_lexemes ls) = ([], cur @ print_lexemes ls, False)"
proof (induction ls arbitrary: cur)
  case Nil
  show ?case by (simp add: print_lexemes_def string_of_runes_def)
next
  case (Cons l ls)
  have e: "print_lexemes (l # ls) = string_of_runes (print_lexeme l @ [32]) @ print_lexemes ls"
    unfolding print_lexemes_def list.map concat.simps by (rule string_of_runes_append)
  show ?case using Cons scan_lexeme [of l] unfolding e by (simp add: scan_text_append)
qed

lemma print_lexemes_start:
  assumes "list_all quiet ls" and "ls \<noteq> []"
  shows "\<exists>c s. print_lexemes ls = c # s \<and> of_char c < (128 :: nat) \<and> \<not> IsSpace (of_char c)"
proof -
  obtain l ls' where ls: "ls = l # ls'" using assms(2) by (cases ls) auto
  obtain r rs where r: "print_lexeme l = r # rs" "32 < r" "r < 128"
  proof (cases "fst l = TK_STRING")
    case True
    then show thesis using that [of 39] by (cases l) simp
  next
    case False
    then show thesis using that quiet_text [of "fst l" "snd l"] assms(1) ls by (cases l) auto
  qed
  have "print_lexemes ls = char_of r # string_of_runes (rs @ 32 # concat (map (\<lambda>l. print_lexeme l @ [32]) ls'))"
    using r ls by (simp add: print_lexemes_def string_of_runes_Cons encode_rune_def encode_scalar_def scalar_def)
  moreover have "of_char (char_of r :: char) = r" using r by simp
  moreover have "\<not> IsSpace r" using r by (auto simp: IsSpace_def)
  ultimately show ?thesis using r by auto
qed

lemma scan_typed:
  assumes "\<forall>ls \<in> set lss. ls \<noteq> [] \<and> list_all quiet ls" and "cur = [] \<or> cur = newline"
  shows "scan_text False cur (concat (map (\<lambda>ls. print_lexemes ls @ '';'' @ newline) lss))
    = (map (\<lambda>ls. print_lexemes ls @ '';'') lss, if lss = [] then cur else newline, False)"
  using assms
proof (induction lss arbitrary: cur)
  case (Cons ls lss)
  obtain c s where c: "print_lexemes ls = c # s" "of_char c < (128 :: nat)" "\<not> IsSpace (of_char c)"
    using print_lexemes_start [of ls] Cons.prems(1) by auto
  have "TrimSpace (print_lexemes ls @ '';'') = print_lexemes ls @ '';''"
    using TrimSpace_body(1) [OF c(2,3), of "CHR '';''"] c(1) by (simp add: IsSpace_def)
  then have t: "TrimSpace (cur @ print_lexemes ls @ '';'') = print_lexemes ls @ '';''"
    using Cons.prems(2) TrimSpace_lead [of "CHR 0x0A"] by (auto simp: newline_def IsSpace_def)
  have "scan_text False (cur @ print_lexemes ls) ('';'' @ newline @ rest) = (case scan_text False newline rest of (out, r) \<Rightarrow> (TrimSpace (cur @ print_lexemes ls @ '';'') # out, r))" for rest
    by (simp add: newline_def split: prod.splits)
  then show ?case
    using Cons.IH [of newline] Cons.prems(1) scan_lexemes [of ls cur] t by (simp add: scan_text_append)
qed simp


section \<open>Properties\<close>

text \<open>C32: the terminal sends what was typed. When the first line is neither a quit nor a help command, reading
  lines to the end of the input sends exactly the statements of the whole text in their order, however the
  text is broken into lines. Every later line counts as text: once something was typed the buffer is never
  empty again, so quit and its kin are sent as part of the next statement instead of ending the loop.\<close>

theorem repl_sends_statements:
  assumes "\<forall>l \<in> set (ln # lns). \<exists>t. l = t @ newline" and "\<not> quit_command ln" and "\<not> help_command ln"
  shows "\<exists>c. repl (record_send reply) sprint None (ln # lns) \<lparr>cl_buf = [], cl_out = out, cl_conn = []\<rparr> = (Ok (), c)
    \<and> cl_conn c = fst (splitStatementsWithRemainder (concat (ln # lns)))"
  using assms by (rule repl_sends)

definition sample_reply :: "string Reply" where
  "sample_reply = \<lparr>rp_Status = ''ok'', rp_Columns = [], rp_Rows = [], rp_Affected = 0, rp_Explain = [], rp_Error = None\<rparr>"

theorem repl_sends_statements_witness:
  "\<exists>c. repl (record_send sample_reply) (\<lambda>s. s) None [''SELECT * FROM t'' @ newline, ''WHERE a = 1; '' @ newline, ''quit'' @ newline, ''EXPLAIN;'' @ newline]
      \<lparr>cl_buf = [], cl_out = [], cl_conn = []\<rparr> = (Ok (), c)
    \<and> cl_conn c = [''SELECT * FROM t'' @ newline @ ''WHERE a = 1;'', ''quit'' @ newline @ ''EXPLAIN;'']"
proof -
  have "fst (splitStatementsWithRemainder (concat [''SELECT * FROM t'' @ newline, ''WHERE a = 1; '' @ newline, ''quit'' @ newline, ''EXPLAIN;'' @ newline]))
      = [''SELECT * FROM t'' @ newline @ ''WHERE a = 1;'', ''quit'' @ newline @ ''EXPLAIN;'']"
    using TrimSpace_body(1) [of "CHR ''S''" "CHR '';''" "''ELECT * FROM t'' @ newline @ ''WHERE a = 1''"]
      TrimSpace_body(1) [of "CHR ''q''" "CHR '';''" "''uit'' @ newline @ ''EXPLAIN''"]
    by (simp add: split_scan newline_def IsSpace_def TrimSpace_lead)
  moreover have "TrimSpace (''SELECT * FROM t'' @ newline) = ''SELECT * FROM t''"
    using TrimSpace_body(2) [of "CHR ''S''" "CHR ''t''" "''ELECT * FROM ''"] by (simp add: IsSpace_def)
  then have "\<not> quit_command (''SELECT * FROM t'' @ newline)" "\<not> help_command (''SELECT * FROM t'' @ newline)"
    by (simp_all add: quit_command_def help_command_def lower_is_def runes_of_ascii ascii_runes_def lower_rune_def Let_def)
  ultimately show ?thesis
    using repl_sends_statements [of "''SELECT * FROM t'' @ newline" "[''WHERE a = 1; '' @ newline, ''quit'' @ newline, ''EXPLAIN;'' @ newline]" sample_reply "\<lambda>s. s" "[]"]
    by auto
qed

text \<open>C31: what is typed reaches the lexer. While the connection answers, lexemes of statements, each statement ended by a semicolon and a new
  line, are sent statement by statement whatever their quoted texts contain, semicolons, quotes and line
  breaks included, and the lexer reads from each text that is sent the lexemes of its statement.\<close>

theorem typed_statements_arrive:
  assumes "\<forall>ls \<in> set lss. ls \<noteq> [] \<and> list_all quiet ls"
    and "concat (ln # lns) = concat (map (\<lambda>ls. print_lexemes ls @ '';'' @ newline) lss)"
    and "\<forall>l \<in> set (ln # lns). \<exists>t. l = t @ newline" and "\<not> quit_command ln" and "\<not> help_command ln"
  shows "\<exists>c. repl (record_send reply) sprint None (ln # lns) \<lparr>cl_buf = [], cl_out = out, cl_conn = []\<rparr> = (Ok (), c)
    \<and> list_all2 (\<lambda>sql ls. \<exists>ts. Tokenize sql = Ok ts \<and> map tok_lexeme ts = ls @ [(TK_SEMICOLON, '';''), (TK_EOF, '''')])
        (cl_conn c) lss"
proof -
  obtain c where c: "repl (record_send reply) sprint None (ln # lns) \<lparr>cl_buf = [], cl_out = out, cl_conn = []\<rparr> = (Ok (), c)"
      "cl_conn c = fst (splitStatementsWithRemainder (concat (ln # lns)))"
    using repl_sends [OF assms(3-5)] by blast
  have "cl_conn c = map (\<lambda>ls. print_lexemes ls @ '';'') lss"
    unfolding c(2) assms(2) using scan_typed [OF assms(1), of "[]"] by (simp add: split_scan)
  moreover have "\<exists>ts. Tokenize (print_lexemes ls @ '';'') = Ok ts \<and> map tok_lexeme ts = ls @ [(TK_SEMICOLON, '';''), (TK_EOF, '''')]"
    if "ls \<in> set lss" for ls
    using assms(1) that by (intro tokenize_print_semicolon) (auto simp: quiet_def list_all_iff)
  ultimately show ?thesis using c(1) by (auto simp: list_all2_conv_all_nth)
qed

text \<open>A statement with a text that holds a semicolon, a quote and a line break, typed in two lines.\<close>

definition typed_sample :: "lexeme list" where
  "typed_sample = [(TK_INSERT, ''insert''), (TK_INTO, ''INTO''), (TK_IDENT, ''t''), (TK_VALUES, ''VALUES''), (TK_LPAREN, ''(''),
     (TK_STRING, ''a;'' @ [CHR 0x27] @ newline @ ''b''), (TK_RPAREN, '')'')]"

lemma typed_sample_quiet: "list_all quiet typed_sample"
  by (simp add: typed_sample_def quiet_def punctuation_def text_runes_def sql_keywords_def ToUpper_def ascii_upper_def
      isIdentStart_def isIdentPart_def newline_def runes_of_ascii string_of_ascii_runes) code_simp

lemma typed_sample_text:
  "print_lexemes typed_sample @ '';'' @ newline = (''insert INTO t VALUES ( '' @ [CHR 0x27] @ ''a;'' @ [CHR 0x27, CHR 0x27] @ newline) @ (''b'' @ [CHR 0x27] @ '' ) ;'' @ newline)"
  by (simp add: typed_sample_def print_lexemes_def text_runes_def newline_def runes_of_ascii string_of_ascii_runes) code_simp

theorem typed_statements_arrive_witness:
  "\<exists>c. repl (record_send sample_reply) (\<lambda>s. s) None
      [''insert INTO t VALUES ( '' @ [CHR 0x27] @ ''a;'' @ [CHR 0x27, CHR 0x27] @ newline, ''b'' @ [CHR 0x27] @ '' ) ;'' @ newline]
      \<lparr>cl_buf = [], cl_out = [], cl_conn = []\<rparr> = (Ok (), c)
    \<and> list_all2 (\<lambda>sql ls. \<exists>ts. Tokenize sql = Ok ts \<and> map tok_lexeme ts = ls @ [(TK_SEMICOLON, '';''), (TK_EOF, '''')])
        (cl_conn c) [typed_sample]"
proof (rule typed_statements_arrive)
  let ?ln = "''insert INTO t VALUES ( '' @ [CHR 0x27] @ ''a;'' @ [CHR 0x27, CHR 0x27] @ newline"
  show "\<forall>ls \<in> set [typed_sample]. ls \<noteq> [] \<and> list_all quiet ls" using typed_sample_quiet by (simp add: typed_sample_def)
  show "concat [?ln, ''b'' @ [CHR 0x27] @ '' ) ;'' @ newline] = concat (map (\<lambda>ls. print_lexemes ls @ '';'' @ newline) [typed_sample])"
    using typed_sample_text by simp
  show "\<forall>l \<in> set [?ln, ''b'' @ [CHR 0x27] @ '' ) ;'' @ newline]. \<exists>t. l = t @ newline" by simp
  have "TrimSpace ?ln = ''insert INTO t VALUES ( '' @ [CHR 0x27] @ ''a;'' @ [CHR 0x27, CHR 0x27]"
    using TrimSpace_body(2) [of "CHR ''i''" "CHR 0x27" "''nsert INTO t VALUES ( '' @ [CHR 0x27] @ ''a;'' @ [CHR 0x27]"]
    by (simp add: IsSpace_def)
  then show "\<not> quit_command ?ln" "\<not> help_command ?ln"
    by (simp_all add: quit_command_def help_command_def lower_is_def runes_of_ascii ascii_runes_def lower_rune_def Let_def)
qed

text \<open>C33: a result table is aligned. Unless a value prints as the empty text, which the table shows as
  null without making room for it, all lines of a printed table but the last have the same length, with the
  bars of the columns at the same places, and every cell stands in its column in full.\<close>

theorem printTable_aligned:
  assumes "\<forall>row \<in> set rows. \<forall>v. Some v \<in> set row \<longrightarrow> sprint v \<noteq> []"
  shows "length (printTable sprint columns rows) = length rows + 5
    \<and> (\<forall>ln \<in> set (butlast (printTable sprint columns rows)). aligned (table_widths sprint columns rows) ln)
    \<and> (\<forall>k < length rows. \<forall>i < length columns.
        take (length (cell_text sprint (rows ! k) i))
          (drop (column_start (table_widths sprint columns rows) i + 2) (printTable sprint columns rows ! (k + 3)))
        = cell_text sprint (rows ! k) i)"
proof -
  define ws where "ws = table_widths sprint columns rows"
  define lns where "lns = printTable sprint columns rows"
  let ?cells = "\<lambda>row. map (cell_text sprint row) [0..<length columns]"
  have lns: "lns = [buildSeparator ws, buildRow columns ws, buildSeparator ws] @ map (\<lambda>row. buildRow (?cells row) ws) rows
      @ [buildSeparator ws, show_nat (length rows) @ '' row(s)'']"
    by (simp add: lns_def ws_def printTable_def Let_def)
  note w = table_widths_ok [where sprint = sprint and columns = columns and rows = rows, folded ws_def]
  have ne: "cell_text sprint row i \<noteq> []" if "row \<in> set rows" for row i
    using assms that by (auto simp: cell_text_def split: option.splits) (metis nth_mem)
  have sh: "shown (?cells row) i = cell_text sprint row i" if "row \<in> set rows" "i < length columns" for row i
    using ne that by (simp add: shown_def)
  have al: "aligned ws (buildRow (?cells row) ws)" if "row \<in> set rows" for row
    using w(1,3) sh that by (intro buildRow_aligned(1)) simp
  have "aligned ws (buildRow columns ws)" using w(1,2) by (intro buildRow_aligned(1)) simp
  then have "\<forall>ln \<in> set (butlast lns). aligned ws ln"
    using al by (auto simp: lns butlast_append buildSeparator_aligned)
  moreover have "take (length (cell_text sprint (rows ! k) i)) (drop (column_start ws i + 2) (lns ! (k + 3))) = cell_text sprint (rows ! k) i"
    if "k < length rows" "i < length columns" for k i
  proof -
    have "lns ! (k + 3) = buildRow (?cells (rows ! k)) ws" using that by (simp add: lns nth_append)
    moreover have "take (length (shown (?cells (rows ! k)) i)) (drop (column_start ws i + 2) (buildRow (?cells (rows ! k)) ws)) = shown (?cells (rows ! k)) i"
      using w(1,3) sh that by (intro buildRow_aligned(2)) simp_all
    ultimately show ?thesis using sh [of "rows ! k" i] that by simp
  qed
  moreover have "length lns = length rows + 5" by (simp add: lns)
  ultimately show ?thesis unfolding ws_def lns_def by blast
qed

definition sample_table_rows :: "string option list list" where
  "sample_table_rows = [[Some ''1'', Some ''ann''], [Some ''42'', None]]"

theorem printTable_aligned_witness:
  "length (printTable (\<lambda>s. s) [''id'', ''name''] sample_table_rows) = 7
   \<and> list_all (aligned (table_widths (\<lambda>s. s) [''id'', ''name''] sample_table_rows))
        (butlast (printTable (\<lambda>s. s) [''id'', ''name''] sample_table_rows))"
proof -
  have "\<forall>row \<in> set sample_table_rows. \<forall>v. Some v \<in> set row \<longrightarrow> (\<lambda>s. s) v \<noteq> []"
    by (auto simp: sample_table_rows_def)
  from printTable_aligned [OF this, of "[''id'', ''name'']"] show ?thesis by (simp add: sample_table_rows_def list_all_iff)
qed

end
