(* ===== verification/Spec2Isabelle.thy ===== *)
theory Spec2Isabelle
  imports InsertRun Cli
begin

text \<open>
  GopherDB: a relational database in Go, verified from its pages to its query plans.

  \<^bold>\<open>The program.\<close> A statement in SQL passes the lexer, the parser, the semantic analyzer, the logical
  planner and the optimizer; the executors then run the physical plan against table heaps and indexes,
  whose pages live in one buffer pool over page files on disk. A catalog of types, tables, columns and
  indexes is kept in maps and logged to four files through the same pool.

  \<^bold>\<open>Theories and what they model\<close> (paths under \<open>src/internal/core\<close>):

  \<^item> \<open>Prelude\<close>: machine integers, Go values, error values, the result type and its sequencing,
    big-endian fields in buffers.
  \<^item> \<open>Page\<close>: slotted pages, \<open>memory/page/heap_page.go\<close>. A page is a log of records
    (\<open>page_Write_appends\<close>, \<open>page_log\<close>), by a locale of append-only logs.
  \<^item> \<open>Utf8\<close>, \<open>Serializer\<close>: UTF-8 validity and decoding as Go does it;
    \<open>memory/serializer/heap_tuple_serializer.go\<close> with its round trip and exact domain.
  \<^item> \<open>Replacer\<close>: \<open>memory/replacer\<close>, LRU and clock, behind the locale the pool relies on; LRU refines a
    recency queue.
  \<^item> \<open>PageFile\<close>: \<open>memory/manager/heap_page_file_manager.go\<close> over a disk of files, with faults as a
    parameter of the disk.
  \<^item> \<open>BufferPool\<close>: \<open>memory/buffer/heap_buffer_pool_manager.go\<close> and the batch flush of the background
    writer, as a step relation; every execution keeps the invariant and loses no page, updates are read
    back, pinned pages stay, a flush makes pages durable.
  \<^item> \<open>Lexer\<close>, \<open>Ast\<close>, \<open>Parser\<close>: \<open>sql/lexer\<close>, \<open>sql/ast\<close>, \<open>sql/parser\<close>; tokens tile the text, printed
    statements parse back, the parser returns on every token list of the lexer.
  \<^item> \<open>CatalogModel\<close>: \<open>catalog/model\<close>, the records and their byte formats.
  \<^item> \<open>CatalogFile\<close>, \<open>CatalogManager\<close>: \<open>catalog/manager/default_catalog_manager.go\<close>; the four files are
    logs whose replay is the catalog, so it survives a restart at any moment; CREATE TABLE is visible and
    makes progress; \<open>cat_reach\<close> is the step relation of all catalog and pool operations, and in every
    reachable catalog the columns of a table have their positions and the types are the built-in ones.
  \<^item> \<open>Semantic\<close>: \<open>sql/semantic\<close>; the checker decides the typing rules \<open>typed\<close> and returns query trees
    that fit the catalog.
  \<^item> \<open>Planner\<close>: \<open>planner\<close>; \<open>FilterEval\<close>: the evaluator of \<open>execution/executors/filter_executor.go\<close>,
    which computes \<open>truth\<close> on typed rows; \<open>Optimizer\<close>: \<open>optimizer\<close>, whose index scans miss no row that
    satisfies the clause.
  \<^item> \<open>TableHeap\<close>: \<open>storage/table_heap.go\<close>; rows round-trip, and the heap interprets the locales
    \<open>row_store\<close> and \<open>growing_store\<close>: scans return the stored rows, inserted rows are read back.

  \<^item> \<open>PagedFile\<close>, \<open>ResidentPages\<close>, \<open>RecentPages\<close>: one file of pages in the shared pool. \<open>file_pages\<close> gives its
    pages, \<open>runs_on\<close> says that only pages of this file were used, so every other file keeps its content;
    new pages stay readable although nothing has written them to disk yet.
  \<^item> \<open>HashIndex\<close>, \<open>HashPages\<close>, \<open>HashTable\<close>, \<open>HashChain\<close>, \<open>HashSearch\<close>, \<open>HashCreate\<close>:
    \<open>index/disk_hash_index.go\<close>; buckets and their overflow chains as lists of entries, a new index is empty,
    insertion adds one entry, a search returns exactly the tuple ids of its key.
  \<^item> \<open>BTreeIndex\<close>: \<open>index/disk_btree_index.go\<close>. \<open>BTreeNodes\<close>: nodes and their bytes; \<open>BTreeShape\<close>: search
    trees and places in them; \<open>BTreeSearch\<close>: search and range search on a tree in a file; \<open>BTreeWrite\<close>,
    \<open>BTreeInsert\<close>: insertion with leaf splits and new roots; \<open>BTreeCreate\<close>: a new index, and the properties.
  \<^item> \<open>IndexManager\<close>, \<open>Executors\<close>, \<open>SqlService\<close>, \<open>Server\<close>: \<open>index/default_index_manager.go\<close>, \<open>execution\<close>
    with its executors and factory, \<open>engine/sql_service.go\<close>, and of \<open>server\<close>, \<open>protocol\<close> and \<open>cmd\<close> the
    requests, the errors they are answered with, and starting and stopping.
  \<^item> \<open>PullExec\<close>, \<open>QueryRun\<close>: what an opened executor yields, call by call, and from it the meaning of a
    SELECT: the text of a statement, compiled and run by the service, returns the projected rows of the table
    that satisfy its clause, whatever scan the optimizer chose.
  \<^item> \<open>Footprint\<close>, \<open>OpenIndexes\<close>, \<open>TableState\<close>: the state of a database. Work on one file keeps every other
    file (\<open>file_kept\<close>); both kinds of index satisfy the locale \<open>key_index\<close>; \<open>db_state\<close> relates the engine to a
    function from tables to rows: every heap holds its rows and every index the values of its column.
  \<^item> \<open>InsertRun\<close>: an INSERT, from the text to the state it leaves, adds its row to the table and to all indexes of
    the table, changes no other table, and leaves the rows of all tables on disk (\<open>rows_on_disk\<close>). A page that
    has room for the row must exist: the page that
    \<open>insertIntoNewPage\<close> adds stays clean in the pool, so it may be lost (\<open>NewPage_not_flushed\<close>).
  \<^item> \<open>Cli\<close>: \<open>cmd/cli/main.go\<close>, the terminal client: cutting what is typed into statements, the loop and the
    layout of tables; what is typed reaches the lexer statement by statement.

  \<^bold>\<open>Conventions.\<close> Go's \<open>any\<close> is \<open>gvalue\<close>; a call that may fail returns \<open>Ok\<close>, \<open>Err\<close> or \<open>Panic\<close>; an
  operation on shared state is a function from the state to its outcome and the state after it. Slots are
  references into a store, since the pool and the replacer share them. Go's maps are association lists
  where only lookups matter; an iteration over a map takes the order as an argument. Locks are not
  modelled: every public operation of the pool, the catalog and an index holds its lock throughout, so
  operations are atomic steps, and interleavings are sequences of steps.

  \<^bold>\<open>Fuel.\<close> The parser's recursion takes fuel because a token list without an end-of-file token can make
  its loops run forever; \<open>parse_fuel\<close>, computed from the length of the input, is proved to be enough for
  every token list the lexer returns. No other definition has fuel: loops over pages that point to pages
  (the chains of the hash index, the descent and the leaves of the B-tree, the operators of a plan) are
  partial functions, for which not to return is the value \<open>None\<close>; the theorems about them show \<open>Some\<close>.

  \<^bold>\<open>Order of importance of the properties\<close>: no page is lost by the pool, the catalog survives a restart,
  the optimizer loses no row, inserted rows are read back, clauses evaluate to their truth value, the
  front end's round trips and typing; then the laws of the single components and the errors found. First of
  all stand the meaning of SELECT and of INSERT, which rest on most of them.

  \<^bold>\<open>Not modelled.\<close> Sockets, the accept loop, the JSON encoding of messages (a parameter of the codec), timers,
  flags and signals: they keep no state of the database. The interleaving of two
  requests inside the server is not modelled: every operation on the pool, the catalog or an index holds
  its lock, and the request of a client is a sequence of such operations.
\<close>

end
